(* ===== verification/Prelude.thy ===== *)
theory Prelude
  imports Main "HOL-Library.Word"
begin

text \<open>
  Shared vocabulary of the development: the machine integers of the C++ sources, the
  serial-number comparison of the video path, little-endian packed structures, and the
  list lemmas that several components use. \<open>wire_simps\<close> collects the facts that evaluate
  encoders and decoders, \<open>slices\<close> those about slices of byte lists.
\<close>

unbundle bit_operations_syntax

named_theorems wire_simps "evaluation of wire encoders and decoders"
named_theorems slices "slices of byte lists"

type_synonym u8 = "8 word"
type_synonym u16 = "16 word"
type_synonym u32 = "32 word"
type_synonym u64 = "64 word"
type_synonym bytes = "u8 list"

section \<open>Serial numbers\<close>

text \<open>
  \<open>sequence_is_newer\<close> of the video assembler: the 32-bit difference, read as signed, is
  positive. On any window of less than half the number space it is a strict order, and it
  follows the counter across its wrap.
\<close>

definition sequence_is_newer :: "u32 \<Rightarrow> u32 \<Rightarrow> bool" where
  "sequence_is_newer value reference \<longleftrightarrow> 0 < sint (value - reference)"

lemma unat_bounds:
  "unat (a :: u8) < 256" "unat (b :: u16) < 65536" "unat (c :: u32) < 4294967296"
  "unat (d :: u64) < 18446744073709551616"
  using unsigned_less [of a] unsigned_less [of b] unsigned_less [of c] unsigned_less [of d]
  by simp_all

lemma sint_pos_iff: "0 < sint (d :: u32) \<longleftrightarrow> 0 < unat d \<and> unat d < 2 ^ 31"
proof -
  have bound: "0 \<le> uint d" "uint d < 2 ^ 32" using unsigned_less [of d] by simp_all
  have eq: "sint d = (uint d + 2 ^ 31) mod 2 ^ 32 - 2 ^ 31"
    using signed_take_bit_eq_take_bit_shift [of 31 "uint d"]
    by (simp add: sint_uint take_bit_eq_mod)
  have "0 < sint d \<longleftrightarrow> 0 < uint d \<and> uint d < 2 ^ 31"
  proof (cases "uint d < 2 ^ 31")
    case True
    then have "sint d = uint d" using eq bound by simp
    with True show ?thesis by simp
  next
    case False
    have "(uint d + 2 ^ 31) mod 2 ^ 32 = (uint d + 2 ^ 31 - 2 ^ 32) mod 2 ^ 32"
      by (metis minus_mod_self2)
    also have "\<dots> = uint d + 2 ^ 31 - 2 ^ 32" using False bound by simp
    finally have "sint d = uint d - 2 ^ 32" using eq by simp
    with bound False show ?thesis by simp
  qed
  moreover have "(0 < u \<and> u < 2 ^ 31) = (0 < n \<and> n < (2 :: nat) ^ 31)" if "u = int n" for u n
    using that by auto
  moreover have "uint d = int (unat d)" by simp
  ultimately show ?thesis by blast
qed

lemma sequence_is_newer_iff:
  "sequence_is_newer a b \<longleftrightarrow> a \<noteq> b \<and> unat (a - b) < 2 ^ 31"
  by (auto simp: sequence_is_newer_def sint_pos_iff unat_gt_0)

lemma sequence_is_newer_irrefl [simp]: "\<not> sequence_is_newer a a"
  by (simp add: sequence_is_newer_iff)

lemma unat_minus_swap: "a \<noteq> (b :: u32) \<Longrightarrow> unat (b - a) = 2 ^ 32 - unat (a - b)"
  using unat_bounds(3) [of a] unat_bounds(3) [of b]
  by (auto simp: word_unat_eq_iff unat_sub_if')

lemma sequence_is_newer_asym: "sequence_is_newer a b \<Longrightarrow> \<not> sequence_is_newer b a"
  by (auto simp: sequence_is_newer_iff unat_minus_swap [of a b])

text \<open>The next sequence number is newer, also where the counter wraps to zero.\<close>

lemma sequence_is_newer_Suc [simp]: "sequence_is_newer (a + 1) a"
  by (simp add: sequence_is_newer_iff)

lemma sequence_is_newer_of_nat:
  assumes "n < 2 ^ 32" and "m < n" and "n - m < 2 ^ 31"
  shows "sequence_is_newer (of_nat n) (of_nat m)"
proof -
  have "unat (of_nat n :: u32) = n" "unat (of_nat m :: u32) = m"
    using assms by (simp_all add: unat_of_nat)
  then have "unat (of_nat n - of_nat m :: u32) = n - m"
    using assms by (simp add: unat_sub_if')
  moreover have "(of_nat n :: u32) \<noteq> of_nat m"
    using \<open>unat (of_nat n) = n\<close> \<open>unat (of_nat m) = m\<close> assms(2) by (metis less_irrefl_nat)
  ultimately show ?thesis using assms(3) by (simp add: sequence_is_newer_iff)
qed

section \<open>Packed little-endian structures\<close>

text \<open>
  The wire structures are declared under \<open>#pragma pack(push, 1)\<close> and copied with
  \<open>memcpy\<close>; on the little-endian targets of the program their bytes are the fields'
  little-endian encodings one after the other. A structure is described by the list of
  its fields' widths in bytes.
\<close>

fun le_bytes :: "nat \<Rightarrow> nat \<Rightarrow> bytes" where
  "le_bytes 0 v = []"
| "le_bytes (Suc n) v = of_nat (v mod 256) # le_bytes n (v div 256)"

fun le_value :: "bytes \<Rightarrow> nat" where
  "le_value [] = 0"
| "le_value (b # bs) = unat b + 256 * le_value bs"

fun pack :: "nat list \<Rightarrow> nat list \<Rightarrow> bytes" where
  "pack (n # ns) (v # vs) = le_bytes n v @ pack ns vs"
| "pack _ _ = []"

fun unpack :: "nat list \<Rightarrow> bytes \<Rightarrow> nat list" where
  "unpack [] bs = []"
| "unpack (n # ns) bs = le_value (take n bs) # unpack ns (drop n bs)"

lemma length_le_bytes [simp]: "length (le_bytes n v) = n"
  by (induction n arbitrary: v) auto

lemma le_value_le_bytes: "le_value (le_bytes n v) = v mod 256 ^ n"
proof (induction n arbitrary: v)
  case (Suc n)
  have "v mod 256 + 256 * ((v div 256) mod 256 ^ n) = v mod (256 * 256 ^ n)"
    by (metis add.commute mod_mult2_eq)
  with Suc show ?case by (simp add: unat_of_nat)
qed simp

lemma length_pack: "length ns = length vs \<Longrightarrow> length (pack ns vs) = sum_list ns"
  by (induction ns vs rule: pack.induct) auto

lemma length_unpack [simp]: "length (unpack ns bs) = length ns"
  by (induction ns bs rule: unpack.induct) auto

lemma unpack_pack:
  "length ns = length vs \<Longrightarrow> unpack ns (pack ns vs @ rest) = map2 (\<lambda>n v. v mod 256 ^ n) ns vs"
  by (induction ns vs arbitrary: rest rule: pack.induct) (auto simp: le_value_le_bytes)

lemma le_value_le_bytes_unat [wire_simps]:
  "le_value (le_bytes 1 (unat (a :: u8))) = unat a"
  "le_value (le_bytes 2 (unat (b :: u16))) = unat b"
  "le_value (le_bytes 4 (unat (c :: u32))) = unat c"
  "le_value (le_bytes 8 (unat (d :: u64))) = unat d"
  by (simp_all add: le_value_le_bytes unat_bounds)

lemma unpack_pack_replicate [wire_simps]:
  "length ws = n \<Longrightarrow>
   unpack (replicate n 2) (pack (replicate n 2) (map unat (ws :: u16 list)) @ rest) = map unat ws"
proof (induction ws arbitrary: n)
  case (Cons w ws)
  then show ?case by (cases n) (simp_all add: wire_simps)
qed simp

section \<open>Slices\<close>

definition slice :: "'a list \<Rightarrow> nat \<Rightarrow> nat \<Rightarrow> 'a list" where
  "slice xs off n = take n (drop off xs)"

text \<open>\<open>memcpy(dst + off, src, length src)\<close> into a buffer that has the room.\<close>

definition overwrite :: "'a list \<Rightarrow> nat \<Rightarrow> 'a list \<Rightarrow> 'a list" where
  "overwrite dst off src = take off dst @ src @ drop (off + length src) dst"

lemma length_slice [slices]: "length (slice xs off n) = min n (length xs - off)"
  by (simp add: slice_def)

lemma nth_slice [slices]: "k < n \<Longrightarrow> off + k < length xs \<Longrightarrow> slice xs off n ! k = xs ! (off + k)"
  by (simp add: slice_def)

lemma length_overwrite [slices]:
  "off + length src \<le> length dst \<Longrightarrow> length (overwrite dst off src) = length dst"
  by (simp add: overwrite_def)

lemma nth_overwrite [slices]:
  assumes "off + length src \<le> length dst" and "i < length dst"
  shows "overwrite dst off src ! i =
    (if off \<le> i \<and> i < off + length src then src ! (i - off) else dst ! i)"
  using assms by (auto simp: overwrite_def nth_append min_def)

section \<open>Flags of what has arrived\<close>

definition count_true :: "bool list \<Rightarrow> nat" where
  "count_true bs = length (filter id bs)"

lemma count_true_update:
  "i < length bs \<Longrightarrow> \<not> bs ! i \<Longrightarrow> count_true (bs[i := True]) = count_true bs + 1"
proof (induction bs arbitrary: i)
  case (Cons b bs)
  then show ?case by (cases i) (auto simp: count_true_def)
qed simp

lemma count_true_full: "count_true bs = length bs \<longleftrightarrow> (\<forall>i<length bs. bs ! i)"
proof -
  have "count_true bs = length bs \<longleftrightarrow> (\<forall>b\<in>set bs. b)"
    unfolding count_true_def using length_filter_less [of _ bs id] filter_True [of bs id]
    by (metis id_apply less_irrefl)
  then show ?thesis by (auto simp: all_set_conv_all_nth)
qed

lemma unat_u32_u64: "unat (ucast (x :: u32) :: u64) = unat x"
  using unat_bounds(3) [of x] by (simp add: unsigned_ucast_eq take_bit_nat_eq_self)

lemma unat_of_nat_small:
  "n < 4294967296 \<Longrightarrow> unat (of_nat n :: u32) = n" "m < 65536 \<Longrightarrow> unat (of_nat m :: u16) = m"
  by (simp_all add: unat_of_nat)

end
