(* ===== verification/Wire.thy ===== *)
theory Wire
  imports Prelude
begin

text \<open>
  The wire structures of \<open>poc_protocol.hpp\<close> that the modelled components build and parse:
  the packet and message kinds, the video chunk header, the control fragment header, the
  control acknowledgement, the video NACK request and the resume packet. Every structure
  comes with its layout (the widths of its packed fields), an encoder and a decoder, and a
  round trip through bytes.
\<close>

section \<open>Kinds and constants\<close>

definition kMagic :: u32 where "kMagic = 0x31435052"

datatype udp_packet_kind =
    UHello | UHelloAck | UVideoChunk | UPunch | UControlData | UControlAck | UControlNack
  | UCursorPos | UVideoNack | UControlResume | UControlResumeAck

fun udp_packet_kind_code :: "udp_packet_kind \<Rightarrow> u16" where
  "udp_packet_kind_code UHello = 300"
| "udp_packet_kind_code UHelloAck = 301"
| "udp_packet_kind_code UVideoChunk = 302"
| "udp_packet_kind_code UPunch = 303"
| "udp_packet_kind_code UControlData = 304"
| "udp_packet_kind_code UControlAck = 305"
| "udp_packet_kind_code UControlNack = 306"
| "udp_packet_kind_code UCursorPos = 307"
| "udp_packet_kind_code UVideoNack = 308"
| "udp_packet_kind_code UControlResume = 309"
| "udp_packet_kind_code UControlResumeAck = 310"

definition kUdpCodecRaw :: u16 where "kUdpCodecRaw = 1"
definition kUdpCodecH264 :: u16 where "kUdpCodecH264 = 2"

definition kUdpControlMaxMissingPerNack :: nat where "kUdpControlMaxMissingPerNack = 64"
definition kUdpVideoNackMaxMissing :: nat where "kUdpVideoNackMaxMissing = 48"
definition kUdpVideoFecGroupSize :: nat where "kUdpVideoFecGroupSize = 8"
definition kEncodedFrameFlagKeyFrame :: u32 where "kEncodedFrameFlagKeyFrame = 1"
definition kEncodedFrameFlagSynthetic :: u32 where "kEncodedFrameFlagSynthetic = 2"
definition kUdpVideoChunkFlagSynthetic :: u16 where "kUdpVideoChunkFlagSynthetic = 0x40"

section \<open>The video chunk header\<close>

record video_chunk_header =
  vc_magic :: u32
  vc_kind :: u16
  vc_size :: u16
  vc_seq :: u32
  vc_codec :: u16
  vc_flags :: u16
  vc_width :: u32
  vc_height :: u32
  vc_stride :: u32
  vc_payloadSize :: u32
  vc_chunkOffset :: u32
  vc_chunkSize :: u32
  vc_chunkIndex :: u16
  vc_chunkCount :: u16
  vc_chunkStride :: u32
  vc_streamGeneration :: u64
  vc_captureQpcUs :: u64
  vc_encodeStartQpcUs :: u64
  vc_encodeEndQpcUs :: u64
  vc_sendQpcUs :: u64

definition video_chunk_layout :: "nat list" where
  "video_chunk_layout = [4, 2, 2, 4, 2, 2, 4, 4, 4, 4, 4, 4, 2, 2, 4, 8, 8, 8, 8, 8]"

definition video_chunk_header_size :: nat where
  "video_chunk_header_size = sum_list video_chunk_layout"

definition video_chunk_fields :: "video_chunk_header \<Rightarrow> nat list" where
  "video_chunk_fields h =
    [unat (vc_magic h), unat (vc_kind h), unat (vc_size h), unat (vc_seq h), unat (vc_codec h),
     unat (vc_flags h), unat (vc_width h), unat (vc_height h), unat (vc_stride h),
     unat (vc_payloadSize h), unat (vc_chunkOffset h), unat (vc_chunkSize h),
     unat (vc_chunkIndex h), unat (vc_chunkCount h), unat (vc_chunkStride h),
     unat (vc_streamGeneration h), unat (vc_captureQpcUs h), unat (vc_encodeStartQpcUs h),
     unat (vc_encodeEndQpcUs h), unat (vc_sendQpcUs h)]"

definition encode_video_chunk_header :: "video_chunk_header \<Rightarrow> bytes" where
  "encode_video_chunk_header h = pack video_chunk_layout (video_chunk_fields h)"

definition decode_video_chunk_header :: "bytes \<Rightarrow> video_chunk_header" where
  "decode_video_chunk_header bs = (let f = unpack video_chunk_layout bs in
    \<lparr>vc_magic = of_nat (f ! 0), vc_kind = of_nat (f ! 1), vc_size = of_nat (f ! 2),
     vc_seq = of_nat (f ! 3), vc_codec = of_nat (f ! 4), vc_flags = of_nat (f ! 5),
     vc_width = of_nat (f ! 6), vc_height = of_nat (f ! 7), vc_stride = of_nat (f ! 8),
     vc_payloadSize = of_nat (f ! 9), vc_chunkOffset = of_nat (f ! 10),
     vc_chunkSize = of_nat (f ! 11), vc_chunkIndex = of_nat (f ! 12),
     vc_chunkCount = of_nat (f ! 13), vc_chunkStride = of_nat (f ! 14),
     vc_streamGeneration = of_nat (f ! 15), vc_captureQpcUs = of_nat (f ! 16),
     vc_encodeStartQpcUs = of_nat (f ! 17), vc_encodeEndQpcUs = of_nat (f ! 18),
     vc_sendQpcUs = of_nat (f ! 19)\<rparr>)"

lemma video_chunk_header_size [simp]: "video_chunk_header_size = 88"
  by (simp add: video_chunk_header_size_def video_chunk_layout_def)

lemma length_encode_video_chunk_header [simp]: "length (encode_video_chunk_header h) = 88"
  by (simp add: encode_video_chunk_header_def length_pack video_chunk_layout_def video_chunk_fields_def)

lemma decode_encode_video_chunk_header [wire_simps]:
  "decode_video_chunk_header (encode_video_chunk_header h @ rest) = h"
  by (simp add: decode_video_chunk_header_def encode_video_chunk_header_def unpack_pack
      video_chunk_layout_def video_chunk_fields_def wire_simps)

section \<open>The control fragment header\<close>

record control_chunk_header =
  cc_magic :: u32
  cc_kind :: u16
  cc_size :: u16
  cc_streamId :: u32
  cc_messageSeq :: u32
  cc_totalSize :: u32
  cc_fragIndex :: u16
  cc_fragCount :: u16
  cc_fragOffset :: u32
  cc_fragSize :: u32

definition control_chunk_layout :: "nat list" where
  "control_chunk_layout = [4, 2, 2, 4, 4, 4, 2, 2, 4, 4]"

definition control_chunk_header_size :: nat where
  "control_chunk_header_size = sum_list control_chunk_layout"

text \<open>A header as its default member initialisers leave it.\<close>

definition default_control_chunk_header :: control_chunk_header where
  "default_control_chunk_header =
    \<lparr>cc_magic = kMagic, cc_kind = udp_packet_kind_code UControlData,
     cc_size = of_nat control_chunk_header_size, cc_streamId = 0, cc_messageSeq = 0,
     cc_totalSize = 0, cc_fragIndex = 0, cc_fragCount = 0, cc_fragOffset = 0, cc_fragSize = 0\<rparr>"

definition encode_control_chunk_header :: "control_chunk_header \<Rightarrow> bytes" where
  "encode_control_chunk_header h = pack control_chunk_layout
    [unat (cc_magic h), unat (cc_kind h), unat (cc_size h), unat (cc_streamId h),
     unat (cc_messageSeq h), unat (cc_totalSize h), unat (cc_fragIndex h), unat (cc_fragCount h),
     unat (cc_fragOffset h), unat (cc_fragSize h)]"

definition decode_control_chunk_header :: "bytes \<Rightarrow> control_chunk_header" where
  "decode_control_chunk_header bs = (let f = unpack control_chunk_layout bs in
    \<lparr>cc_magic = of_nat (f ! 0), cc_kind = of_nat (f ! 1), cc_size = of_nat (f ! 2),
     cc_streamId = of_nat (f ! 3), cc_messageSeq = of_nat (f ! 4), cc_totalSize = of_nat (f ! 5),
     cc_fragIndex = of_nat (f ! 6), cc_fragCount = of_nat (f ! 7),
     cc_fragOffset = of_nat (f ! 8), cc_fragSize = of_nat (f ! 9)\<rparr>)"

lemma control_chunk_header_size [simp]: "control_chunk_header_size = 32"
  by (simp add: control_chunk_header_size_def control_chunk_layout_def)

lemma length_encode_control_chunk_header [simp]: "length (encode_control_chunk_header h) = 32"
  by (simp add: encode_control_chunk_header_def length_pack control_chunk_layout_def)

lemma decode_encode_control_chunk_header [wire_simps]:
  "decode_control_chunk_header (encode_control_chunk_header h @ rest) = h"
  by (simp add: decode_control_chunk_header_def encode_control_chunk_header_def unpack_pack
      control_chunk_layout_def wire_simps)

section \<open>The control acknowledgement\<close>

text \<open>The array \<open>missing[kUdpControlMaxMissingPerNack]\<close> is zero beyond the entries written.\<close>

record control_ack_packet =
  ca_magic :: u32
  ca_kind :: u16
  ca_size :: u16
  ca_streamId :: u32
  ca_messageSeq :: u32
  ca_missingCount :: u16
  ca_reserved :: u16
  ca_missing :: "u16 list"

definition control_ack_layout :: "nat list" where
  "control_ack_layout = [4, 2, 2, 4, 4, 2, 2] @ replicate kUdpControlMaxMissingPerNack 2"

definition control_ack_packet_size :: nat where
  "control_ack_packet_size = sum_list control_ack_layout"

definition encode_control_ack_packet :: "control_ack_packet \<Rightarrow> bytes" where
  "encode_control_ack_packet p = pack control_ack_layout
    ([unat (ca_magic p), unat (ca_kind p), unat (ca_size p), unat (ca_streamId p),
      unat (ca_messageSeq p), unat (ca_missingCount p), unat (ca_reserved p)] @
     map unat (ca_missing p))"

definition decode_control_ack_packet :: "bytes \<Rightarrow> control_ack_packet" where
  "decode_control_ack_packet bs = (let f = unpack control_ack_layout bs in
    \<lparr>ca_magic = of_nat (f ! 0), ca_kind = of_nat (f ! 1), ca_size = of_nat (f ! 2),
     ca_streamId = of_nat (f ! 3), ca_messageSeq = of_nat (f ! 4), ca_missingCount = of_nat (f ! 5),
     ca_reserved = of_nat (f ! 6), ca_missing = map of_nat (drop 7 f)\<rparr>)"

lemma control_ack_packet_size [simp]: "control_ack_packet_size = 148"
  by (simp add: control_ack_packet_size_def control_ack_layout_def kUdpControlMaxMissingPerNack_def
      sum_list_replicate)

lemma length_encode_control_ack_packet:
  "length (ca_missing p) = kUdpControlMaxMissingPerNack \<Longrightarrow>
   length (encode_control_ack_packet p) = 148"
  by (simp add: encode_control_ack_packet_def length_pack control_ack_layout_def sum_list_replicate
      kUdpControlMaxMissingPerNack_def)

lemma decode_encode_control_ack_packet [wire_simps]:
  assumes "length (ca_missing p) = kUdpControlMaxMissingPerNack"
  shows "decode_control_ack_packet (encode_control_ack_packet p @ rest) = p"
  using assms
  by (simp add: encode_control_ack_packet_def decode_control_ack_packet_def control_ack_layout_def
      wire_simps comp_def)

section \<open>The video NACK request\<close>

record video_nack_packet =
  vn_magic :: u32
  vn_kind :: u16
  vn_size :: u16
  vn_streamGeneration :: u64
  vn_seq :: u32
  vn_chunkCount :: u16
  vn_missingCount :: u16
  vn_round :: u16
  vn_reserved :: u16
  vn_missing :: "u16 list"

definition video_nack_layout :: "nat list" where
  "video_nack_layout = [4, 2, 2, 8, 4, 2, 2, 2, 2] @ replicate kUdpVideoNackMaxMissing 2"

definition video_nack_packet_size :: nat where
  "video_nack_packet_size = sum_list video_nack_layout"

definition default_video_nack_packet :: video_nack_packet where
  "default_video_nack_packet =
    \<lparr>vn_magic = kMagic, vn_kind = udp_packet_kind_code UVideoNack,
     vn_size = of_nat video_nack_packet_size, vn_streamGeneration = 0, vn_seq = 0,
     vn_chunkCount = 0, vn_missingCount = 0, vn_round = 0, vn_reserved = 0,
     vn_missing = replicate kUdpVideoNackMaxMissing 0\<rparr>"

text \<open>The size the source pins with a static assertion: \<open>28 + 2 * kUdpVideoNackMaxMissing\<close>.\<close>

lemma video_nack_packet_size: "video_nack_packet_size = 28 + 2 * kUdpVideoNackMaxMissing"
  by (simp add: video_nack_packet_size_def video_nack_layout_def kUdpVideoNackMaxMissing_def
      sum_list_replicate)

section \<open>Target ids of the window-select transaction\<close>

text \<open>
  \<open>monitor_select_target.hpp\<close>: one 64-bit id names a window, or, in the reserved top
  nibble, a monitor.
\<close>

datatype select_target_kind = TargetWindow | TargetMonitor | TargetMalformed

record select_target =
  st_kind :: select_target_kind
  st_monitorId :: u32

definition kMonitorSelectTargetBase :: u64 where
  "kMonitorSelectTargetBase = 0x7000000000000000"

definition kMonitorSelectTargetMask :: u64 where
  "kMonitorSelectTargetMask = 0xFFFFFFFF00000000"

definition encode_monitor_select_target :: "u32 \<Rightarrow> u64" where
  "encode_monitor_select_target monitorId = kMonitorSelectTargetBase OR ucast monitorId"

definition classify_select_target :: "u64 \<Rightarrow> select_target" where
  "classify_select_target windowId =
    (if drop_bit 60 windowId \<noteq> 7 then \<lparr>st_kind = TargetWindow, st_monitorId = 0\<rparr>
     else if windowId AND kMonitorSelectTargetMask \<noteq> kMonitorSelectTargetBase
       then \<lparr>st_kind = TargetMalformed, st_monitorId = 0\<rparr>
     else \<lparr>st_kind = TargetMonitor, st_monitorId = ucast (windowId AND 0xFFFFFFFF)\<rparr>)"

text \<open>Encoding a monitor id and classifying it gives the monitor back.\<close>

lemma mask_bits:
  "bit (7 :: u64) n \<longleftrightarrow> n < 3" "bit (0xFFFFFFFF :: u64) n \<longleftrightarrow> n < 32"
  "bit (7 :: int) n \<longleftrightarrow> n < 3" "bit (0xFFFFFFFF :: int) n \<longleftrightarrow> n < 32"
proof -
  have masks: "(7 :: u64) = mask 3" "(0xFFFFFFFF :: u64) = mask 32"
    "(7 :: int) = mask 3" "(0xFFFFFFFF :: int) = mask 32"
    by (simp_all add: mask_eq_exp_minus_1)
  show "bit (7 :: u64) n \<longleftrightarrow> n < 3" unfolding masks by (simp only: bit_mask_iff) auto
  show "bit (0xFFFFFFFF :: u64) n \<longleftrightarrow> n < 32" unfolding masks by (simp only: bit_mask_iff) auto
  show "bit (7 :: int) n \<longleftrightarrow> n < 3" unfolding masks by (simp only: bit_mask_iff) auto
  show "bit (0xFFFFFFFF :: int) n \<longleftrightarrow> n < 32" unfolding masks by (simp only: bit_mask_iff) auto
qed

lemma monitor_select_bits:
  "bit kMonitorSelectTargetBase n \<longleftrightarrow> 60 \<le> n \<and> n < 63"
  "bit kMonitorSelectTargetMask n \<longleftrightarrow> 32 \<le> n \<and> n < 64"
proof -
  have base: "kMonitorSelectTargetBase = push_bit 60 7"
    and mask: "kMonitorSelectTargetMask = push_bit 32 0xFFFFFFFF"
    by (simp_all add: kMonitorSelectTargetBase_def kMonitorSelectTargetMask_def push_bit_eq_mult)
  show "bit kMonitorSelectTargetBase n \<longleftrightarrow> 60 \<le> n \<and> n < 63"
    unfolding base bit_push_bit_iff mask_bits by auto
  show "bit kMonitorSelectTargetMask n \<longleftrightarrow> 32 \<le> n \<and> n < 64"
    unfolding mask bit_push_bit_iff mask_bits by auto
qed

lemma classify_encode_monitor_select_target:
  "classify_select_target (encode_monitor_select_target m) =
    \<lparr>st_kind = TargetMonitor, st_monitorId = m\<rparr>"
proof -
  let ?w = "kMonitorSelectTargetBase OR ucast m :: u64"
  have small: "bit m n \<Longrightarrow> n < 32" for n using bit_imp_le_length [of m n] by simp
  have "drop_bit 60 ?w = 7"
    by (rule bit_word_eqI) (auto simp: bit_simps monitor_select_bits mask_bits dest: small)
  moreover have "?w AND kMonitorSelectTargetMask = kMonitorSelectTargetBase"
    by (rule bit_word_eqI) (auto simp: bit_simps monitor_select_bits dest: small)
  moreover have "ucast (?w AND 0xFFFFFFFF) = m"
    by (rule bit_word_eqI) (auto simp: bit_simps monitor_select_bits mask_bits)
  ultimately show ?thesis
    by (simp add: classify_select_target_def encode_monitor_select_target_def)
qed

end
