(* ===== verification/VideoSender.thy ===== *)
theory VideoSender
  imports Wire
begin

text \<open>
  The host's UDP video chunk sender (\<open>host_net_io.cpp\<close>): the chunk geometry of a frame, the
  pacing budget, the data datagram of every chunk, the XOR parity datagram of every FEC group
  (consecutive or interleaved) and the datagrams a NACK replay rebuilds. The lemmas describe
  the geometry of a valid frame, the group partition of its chunks, and the byte each parity
  datagram carries at every position.
\<close>

section \<open>Chunk geometry\<close>

definition clamp_udp_mtu :: "u32 \<Rightarrow> u32" where
  "clamp_udp_mtu mtu = (if mtu < 400 then 400 else if 1400 < mtu then 1400 else mtu)"

record udp_chunk_geom =
  g_valid :: bool
  g_maxChunk :: nat
  g_chunkStride :: nat
  g_chunkCount :: nat
  g_fecGroupCount :: nat
  g_packetCount :: nat
  g_parityBytes :: nat

definition invalid_geometry :: udp_chunk_geom where
  "invalid_geometry = \<lparr>g_valid = False, g_maxChunk = 0, g_chunkStride = 0, g_chunkCount = 0,
    g_fecGroupCount = 0, g_packetCount = 0, g_parityBytes = 0\<rparr>"

text \<open>
  The unsigned sums of the source cannot wrap here (a payload below \<open>2 ^ 32\<close>, a stride of at
  most 1312, at most 65535 chunks), so they are sums of naturals.
\<close>

definition geometry_for :: "nat \<Rightarrow> nat \<Rightarrow> nat \<Rightarrow> udp_chunk_geom" where
  "geometry_for payloadSize maxChunk chunkStride =
    (let chunkCount = (payloadSize + chunkStride - 1) div chunkStride in
     if chunkCount = 0 \<or> chunkCount > 65535
     then invalid_geometry\<lparr>g_maxChunk := maxChunk, g_chunkStride := chunkStride\<rparr>
     else let groups = (chunkCount + kUdpVideoFecGroupSize - 1) div kUdpVideoFecGroupSize in
       \<lparr>g_valid = True, g_maxChunk = maxChunk, g_chunkStride = chunkStride,
        g_chunkCount = chunkCount, g_fecGroupCount = groups, g_packetCount = chunkCount + groups,
        g_parityBytes = groups * chunkStride\<rparr>)"

definition udp_chunk_geometry :: "nat \<Rightarrow> u32 \<Rightarrow> bool \<Rightarrow> udp_chunk_geom" where
  "udp_chunk_geometry payloadSize mtuBytes tightSingleChunk =
    (if payloadSize = 0 \<or> payloadSize > 4294967295 then invalid_geometry
     else let safeMtu = unat (clamp_udp_mtu mtuBytes) in
     if safeMtu \<le> video_chunk_header_size then invalid_geometry
     else let maxChunk = safeMtu - video_chunk_header_size in
       geometry_for payloadSize maxChunk
         (if tightSingleChunk \<and> payloadSize \<le> maxChunk then payloadSize else maxChunk))"

record udp_egress_config =
  eg_pacePeakBps :: u32
  eg_keyframePacePeakBps :: u32
  eg_fecInterleaved :: bool
  eg_fecSingleChunkTightStride :: bool

text \<open>The product in the last line is a 64-bit one, and wraps as such.\<close>

definition udp_pace_budget_us :: "udp_egress_config \<Rightarrow> u64 \<Rightarrow> u32 \<Rightarrow> bool \<Rightarrow> u64" where
  "udp_pace_budget_us egress payloadSize chunkCount keyFrame =
    (let peakBps = eg_pacePeakBps egress;
         peakBps = (if keyFrame \<and> peakBps \<noteq> 0 then max peakBps (eg_keyframePacePeakBps egress)
                    else peakBps) in
     if peakBps = 0 \<or> chunkCount \<le> 8 then 0
     else (payloadSize * 8 * 1000000) div ucast peakBps)"

section \<open>Data and parity datagrams\<close>

text \<open>The bytes of chunk \<open>i\<close>: one stride, or what is left of the payload.\<close>

definition chunk_size :: "nat \<Rightarrow> nat \<Rightarrow> nat \<Rightarrow> nat" where
  "chunk_size payloadSize stride i = min stride (payloadSize - i * stride)"

definition chunk_bytes :: "bytes \<Rightarrow> nat \<Rightarrow> nat \<Rightarrow> bytes" where
  "chunk_bytes payload stride i =
    slice payload (i * stride) (chunk_size (length payload) stride i)"

definition data_chunk_header ::
  "video_chunk_header \<Rightarrow> nat \<Rightarrow> udp_chunk_geom \<Rightarrow> nat \<Rightarrow> video_chunk_header" where
  "data_chunk_header baseHeader payloadSize geo chunkIndex =
    (let stride = g_chunkStride geo;
         offset = chunkIndex * stride;
         chunkSize = chunk_size payloadSize stride chunkIndex;
         flags = vc_flags baseHeader AND NOT (0x2 OR 0x4 OR 0x10);
         flags = (if offset = 0 then flags OR 0x2 else flags);
         flags = (if offset + chunkSize \<ge> payloadSize then flags OR 0x4 else flags) in
     baseHeader\<lparr>vc_chunkOffset := of_nat offset, vc_chunkSize := of_nat chunkSize,
       vc_chunkIndex := of_nat chunkIndex, vc_chunkCount := of_nat (g_chunkCount geo),
       vc_chunkStride := of_nat stride, vc_flags := flags\<rparr>)"

definition data_datagram ::
  "bytes \<Rightarrow> video_chunk_header \<Rightarrow> udp_chunk_geom \<Rightarrow> nat \<Rightarrow> bytes" where
  "data_datagram payload baseHeader geo chunkIndex =
    encode_video_chunk_header (data_chunk_header baseHeader (length payload) geo chunkIndex) @
    chunk_bytes payload (g_chunkStride geo) chunkIndex"

text \<open>
  \<open>for (i = 0; i < n; ++i) acc[i] ^= src[i]\<close> for a source no longer than the accumulator.
\<close>

definition xor_into :: "bytes \<Rightarrow> bytes \<Rightarrow> bytes" where
  "xor_into acc src = map2 (\<lambda>a b. a XOR b) acc src @ drop (length src) acc"

text \<open>The loop \<open>for (i = firstChunk; i < limit; i += step)\<close>, a positive step.\<close>

definition strided :: "nat \<Rightarrow> nat \<Rightarrow> nat \<Rightarrow> nat list" where
  "strided first step limit = filter (\<lambda>i. (i - first) mod step = 0) [first..<limit]"

definition parity_first_chunk :: "bool \<Rightarrow> nat \<Rightarrow> nat" where
  "parity_first_chunk interleaved grp =
    (if interleaved then grp else grp * kUdpVideoFecGroupSize)"

definition fec_group :: "bool \<Rightarrow> nat \<Rightarrow> nat \<Rightarrow> nat \<Rightarrow> nat list" where
  "fec_group interleaved chunkCount fecGroupCount grp =
    (let firstChunk = parity_first_chunk interleaved grp;
         step = (if interleaved then fecGroupCount else 1);
         limit = (if interleaved then chunkCount
                  else min chunkCount (firstChunk + kUdpVideoFecGroupSize)) in
     strided firstChunk step limit)"

definition group_parity :: "bytes \<Rightarrow> nat \<Rightarrow> nat list \<Rightarrow> bytes" where
  "group_parity payload stride indices =
    fold (\<lambda>i parity. xor_into parity (chunk_bytes payload stride i)) indices (replicate stride 0)"

definition parity_chunk_header ::
  "video_chunk_header \<Rightarrow> udp_chunk_geom \<Rightarrow> bool \<Rightarrow> nat \<Rightarrow> video_chunk_header" where
  "parity_chunk_header baseHeader geo interleaved grp =
    (let stride = g_chunkStride geo;
         firstChunk = parity_first_chunk interleaved grp;
         flags = (vc_flags baseHeader AND NOT (0x2 OR 0x4)) OR 0x10;
         flags = (if interleaved then flags OR 0x20 else flags) in
     baseHeader\<lparr>vc_flags := flags, vc_chunkOffset := of_nat (firstChunk * stride),
       vc_chunkSize := of_nat stride, vc_chunkIndex := of_nat firstChunk,
       vc_chunkCount := of_nat (g_chunkCount geo), vc_chunkStride := of_nat stride\<rparr>)"

definition parity_datagram ::
  "bytes \<Rightarrow> video_chunk_header \<Rightarrow> udp_chunk_geom \<Rightarrow> bool \<Rightarrow> nat \<Rightarrow> bytes" where
  "parity_datagram payload baseHeader geo interleaved grp =
    encode_video_chunk_header (parity_chunk_header baseHeader geo interleaved grp) @
    group_parity payload (g_chunkStride geo)
      (fec_group interleaved (g_chunkCount geo) (g_fecGroupCount geo) grp)"

text \<open>
  What one complete send puts on the wire: the data datagrams in order, then the parity of
  every group. A frame the geometry refuses is a transport error, with nothing sent.
\<close>

definition frame_datagrams ::
  "bytes \<Rightarrow> video_chunk_header \<Rightarrow> u32 \<Rightarrow> udp_egress_config \<Rightarrow> bytes list option" where
  "frame_datagrams payload baseHeader mtuBytes egress =
    (let geo = udp_chunk_geometry (length payload) mtuBytes (eg_fecSingleChunkTightStride egress) in
     if \<not> g_valid geo then None
     else Some (map (data_datagram payload baseHeader geo) [0..<g_chunkCount geo] @
       map (parity_datagram payload baseHeader geo (eg_fecInterleaved egress))
         [0..<g_fecGroupCount geo]))"

text \<open>
  The datagrams \<open>send_udp_chunk_indices\<close> rebuilds for a NACK: the chunks of the request that
  exist, in the order of the request.
\<close>

definition replay_datagrams ::
  "bytes \<Rightarrow> video_chunk_header \<Rightarrow> u32 \<Rightarrow> bool \<Rightarrow> u16 list \<Rightarrow> bytes list option" where
  "replay_datagrams payload baseHeader mtuBytes tightSingleChunk indices =
    (if payload = [] \<or> indices = [] then None
     else let geo = udp_chunk_geometry (length payload) mtuBytes tightSingleChunk in
     if \<not> g_valid geo then None
     else Some (map (\<lambda>i. data_datagram payload baseHeader geo (unat i))
       (filter (\<lambda>i. unat i < g_chunkCount geo) indices)))"

section \<open>Layout lemmas\<close>

definition frame_layout :: "nat \<Rightarrow> nat \<Rightarrow> nat \<Rightarrow> nat \<Rightarrow> bool" where
  "frame_layout len stride count groups \<longleftrightarrow>
    0 < len \<and> 0 < stride \<and> count = (len + stride - 1) div stride \<and>
    groups = (count + kUdpVideoFecGroupSize - 1) div kUdpVideoFecGroupSize"

lemma ceil_div_bounds:
  assumes "0 < (s :: nat)"
  shows "len \<le> ((len + s - 1) div s) * s" "0 < len \<Longrightarrow> ((len + s - 1) div s) * s < len + s"
    "0 < len \<Longrightarrow> 0 < (len + s - 1) div s"
proof -
  let ?q = "(len + s - 1) div s"
  have eq: "?q * s + (len + s - 1) mod s = len + s - 1" by simp
  have lt: "(len + s - 1) mod s < s" using assms by simp
  show "len \<le> ?q * s" using eq lt assms by linarith
  show "0 < len \<Longrightarrow> ?q * s < len + s" using eq assms by linarith
  show "0 < len \<Longrightarrow> 0 < ?q" using assms by (simp add: div_greater_zero_iff)
qed

lemma frame_layout_chunk:
  assumes "frame_layout len s n G" and "i < n"
  shows "i * s < len" "0 < chunk_size len s i" "chunk_size len s i \<le> s"
    "i * s + chunk_size len s i \<le> len"
proof -
  from assms have "0 < s" "0 < len" and n: "n = (len + s - 1) div s"
    by (auto simp: frame_layout_def)
  then have "n * s < len + s" using ceil_div_bounds by blast
  moreover from \<open>i < n\<close> have "(i + 1) * s \<le> n * s" by (intro mult_le_mono1) simp
  ultimately show "i * s < len" by simp
  with \<open>0 < s\<close> show "0 < chunk_size len s i" "chunk_size len s i \<le> s"
    "i * s + chunk_size len s i \<le> len" by (auto simp: chunk_size_def)
qed

lemma frame_layout_position:
  assumes "frame_layout len s n G" and "k < len"
  shows "k div s < n" "k mod s < chunk_size len s (k div s)"
proof -
  from assms have s: "0 < s" and n: "n = (len + s - 1) div s" by (auto simp: frame_layout_def)
  have "len \<le> n * s" using ceil_div_bounds(1) [OF s] n by simp
  with assms(2) show "k div s < n" by (simp add: less_mult_imp_div_less)
  have "k div s * s + k mod s = k" by simp
  moreover have "k mod s < s" using s by simp
  ultimately show "k mod s < chunk_size len s (k div s)"
    using assms(2) unfolding chunk_size_def by linarith
qed

lemma length_chunk_bytes:
  "frame_layout (length P) s n G \<Longrightarrow> i < n \<Longrightarrow>
   length (chunk_bytes P s i) = chunk_size (length P) s i"
  using frame_layout_chunk(1,4) [of "length P" s n G i]
  by (simp add: chunk_bytes_def slices)

text \<open>Payloads agree when all their chunks do.\<close>

lemma payload_eq_chunks:
  assumes lay: "frame_layout (length P) s n G" and len: "length Q = length P"
    and chunks: "\<And>i. i < n \<Longrightarrow> chunk_bytes Q s i = chunk_bytes P s i"
  shows "Q = P"
proof (rule nth_equalityI)
  fix k assume "k < length Q"
  then have k: "k < length P" using len by simp
  note pos = frame_layout_position [OF lay k]
  have "k div s * s + k mod s = k" by simp
  then have "chunk_bytes R s (k div s) ! (k mod s) = R ! k" if "length R = length P" for R
    using pos(2) k that by (simp add: chunk_bytes_def nth_slice)
  with chunks [OF pos(1)] len show "Q ! k = P ! k" by metis
qed (rule len)

text \<open>Writing one chunk leaves the others alone.\<close>

lemma chunk_bytes_overwrite:
  assumes lay: "frame_layout len s n G" and i: "i < n" and j: "j < n"
    and len: "length Q = len" "length src = chunk_size len s i"
  shows "chunk_bytes (overwrite Q (i * s) src) s j = (if j = i then src else chunk_bytes Q s j)"
proof (rule nth_equalityI)
  note ci = frame_layout_chunk [OF lay i] and cj = frame_layout_chunk [OF lay j]
  have room: "i * s + length src \<le> length Q" using ci len by simp
  have len': "length (overwrite Q (i * s) src) = len" using room len by (simp add: length_overwrite)
  show "length (chunk_bytes (overwrite Q (i * s) src) s j) =
      length (if j = i then src else chunk_bytes Q s j)"
    using length_chunk_bytes [of _ s n G j] lay j len len' by auto
  fix k assume "k < length (chunk_bytes (overwrite Q (i * s) src) s j)"
  then have k: "k < chunk_size len s j" using length_chunk_bytes [of _ s n G j] lay j len' by simp
  have pos: "j * s + k < length Q" using cj k len by simp
  have "chunk_bytes (overwrite Q (i * s) src) s j ! k = overwrite Q (i * s) src ! (j * s + k)"
    using k pos len len' by (simp add: chunk_bytes_def nth_slice)
  also have "\<dots> = (if i * s \<le> j * s + k \<and> j * s + k < i * s + length src
      then src ! (j * s + k - i * s) else Q ! (j * s + k))"
    using nth_overwrite [OF room pos] .
  also have "\<dots> = (if j = i then src else chunk_bytes Q s j) ! k"
  proof (cases "j = i")
    case True
    then show ?thesis using k len by simp
  next
    case False
    have "\<not> (i * s \<le> j * s + k \<and> j * s + k < i * s + length src)"
    proof (cases "j < i")
      case True
      then have "(j + 1) * s \<le> i * s" by (intro mult_le_mono1) simp
      with k cj(3) show ?thesis by simp
    next
      case False
      with \<open>j \<noteq> i\<close> have "(i + 1) * s \<le> j * s" by (intro mult_le_mono1) simp
      with ci(3) len show ?thesis by simp
    qed
    with False k pos len show ?thesis by (auto simp: chunk_bytes_def nth_slice)
  qed
  finally show "chunk_bytes (overwrite Q (i * s) src) s j ! k = (if j = i then src else chunk_bytes Q s j) ! k" .
qed

text \<open>The geometry the sender computes is a layout, its stride fits a datagram.\<close>

lemma geometry_for_layout:
  assumes "g_valid (geometry_for len mx st)" and "0 < len" "0 < st"
  shows "frame_layout len (g_chunkStride (geometry_for len mx st))
      (g_chunkCount (geometry_for len mx st)) (g_fecGroupCount (geometry_for len mx st))"
    "g_chunkStride (geometry_for len mx st) = st" "g_chunkCount (geometry_for len mx st) \<le> 65535"
    "g_maxChunk (geometry_for len mx st) = mx"
  using assms
  by (auto simp: geometry_for_def Let_def frame_layout_def invalid_geometry_def split: if_splits)

lemma clamp_udp_mtu_range: "400 \<le> unat (clamp_udp_mtu mtu)" "unat (clamp_udp_mtu mtu) \<le> 1400"
  by (simp_all add: clamp_udp_mtu_def word_less_nat_alt not_less)

lemma geometry_layout:
  assumes valid: "g_valid (udp_chunk_geometry len mtu tight)"
  defines "g \<equiv> udp_chunk_geometry len mtu tight"
  shows "frame_layout len (g_chunkStride g) (g_chunkCount g) (g_fecGroupCount g)"
    "g_chunkStride g \<le> 1312" "g_chunkCount g \<le> 65535" "g_chunkStride g \<le> g_maxChunk g"
proof -
  let ?mx = "unat (clamp_udp_mtu mtu) - 88"
  obtain st where st: "0 < st" "st \<le> ?mx" and len: "0 < len" and g: "g = geometry_for len ?mx st"
  proof (cases "tight \<and> len \<le> ?mx")
    case True
    with valid clamp_udp_mtu_range [of mtu] show thesis
      by (intro that [of len]) (auto simp: g_def udp_chunk_geometry_def invalid_geometry_def Let_def
          simp del: One_nat_def split: if_splits)
  next
    case False
    with valid clamp_udp_mtu_range [of mtu] show thesis
      by (intro that [of ?mx]) (auto simp: g_def udp_chunk_geometry_def invalid_geometry_def Let_def
          simp del: One_nat_def split: if_splits)
  qed
  have "?mx \<le> 1312" using clamp_udp_mtu_range(2) [of mtu] by simp
  with geometry_for_layout [of len ?mx st] valid st len
  show "frame_layout len (g_chunkStride g) (g_chunkCount g) (g_fecGroupCount g)"
    "g_chunkStride g \<le> 1312" "g_chunkCount g \<le> 65535" "g_chunkStride g \<le> g_maxChunk g"
    unfolding g g_def [symmetric] by simp_all
qed

section \<open>The FEC groups partition the chunks\<close>

lemma distinct_fec_group [simp]: "distinct (fec_group il n G g)"
  by (simp add: fec_group_def strided_def Let_def)

lemma set_strided: "set (strided a st b) = {i. i < b \<and> (i - a) mod st = 0 \<and> a \<le> i}"
  by (auto simp: strided_def)

lemma set_fec_group:
  assumes "g < G"
  shows "set (fec_group il n G g) =
    {i. i < n \<and> (if il then i mod G = g else i div kUdpVideoFecGroupSize = g)}"
proof (cases il)
  case True
  have residue: "(i - g) mod G = 0 \<and> g \<le> i \<longleftrightarrow> i mod G = g" for i
  proof
    assume "(i - g) mod G = 0 \<and> g \<le> i"
    then obtain q where "i = g + G * q" by (metis le_add_diff_inverse mod_0_imp_dvd dvdE)
    with assms show "i mod G = g" by simp
  next
    assume i: "i mod G = g"
    then have "g \<le> i" "i - g = G * (i div G)"
      using mod_less_eq_dividend [of i G] minus_mod_eq_mult_div [of i G] by auto
    then show "(i - g) mod G = 0 \<and> g \<le> i" by simp
  qed
  have "fec_group il n G g = strided g G n"
    using True by (simp add: fec_group_def parity_first_chunk_def)
  then show ?thesis using True by (simp only: set_strided residue if_True)
next
  case False
  have "g * 8 \<le> i \<and> i < g * 8 + 8 \<longleftrightarrow> i div 8 = g" for i by linarith
  then have "{i. i < n \<and> g * 8 \<le> i \<and> i < g * 8 + 8} = {i. i < n \<and> i div 8 = g}" by blast
  moreover have "set (fec_group il n G g) = {i. i < n \<and> g * 8 \<le> i \<and> i < g * 8 + 8}"
    using False
    by (auto simp: fec_group_def strided_def parity_first_chunk_def kUdpVideoFecGroupSize_def Let_def)
  ultimately show ?thesis using False by (simp add: kUdpVideoFecGroupSize_def)
qed

lemma fec_group_bound: "g < G \<Longrightarrow> i \<in> set (fec_group il n G g) \<Longrightarrow> i < n"
  by (simp add: set_fec_group)

definition group_of :: "bool \<Rightarrow> nat \<Rightarrow> nat \<Rightarrow> nat" where
  "group_of il G i = (if il then i mod G else i div kUdpVideoFecGroupSize)"

lemma group_of_less:
  assumes "frame_layout len s n G" and "i < n"
  shows "group_of il G i < G"
proof (cases il)
  case True
  have "0 < G" using assms ceil_div_bounds(3) [of kUdpVideoFecGroupSize n]
    by (auto simp: frame_layout_def kUdpVideoFecGroupSize_def)
  with True show ?thesis by (simp add: group_of_def)
next
  case False
  with assms show ?thesis
    by (simp add: group_of_def frame_layout_def kUdpVideoFecGroupSize_def)
qed

lemma mem_fec_group_iff:
  "g < G \<Longrightarrow> i \<in> set (fec_group il n G g) \<longleftrightarrow> i < n \<and> group_of il G i = g"
  by (auto simp: set_fec_group group_of_def)

section \<open>The bytes of a parity datagram\<close>

definition byte_at :: "bytes \<Rightarrow> nat \<Rightarrow> u8" where
  "byte_at xs k = (if k < length xs then xs ! k else 0)"

definition xor_sum :: "('a \<Rightarrow> u8) \<Rightarrow> 'a list \<Rightarrow> u8" where
  "xor_sum f xs = foldr (\<lambda>x acc. f x XOR acc) xs 0"

lemma xor_sum_simps [simp]:
  "xor_sum f [] = 0" "xor_sum f (x # xs) = f x XOR xor_sum f xs"
  by (simp_all add: xor_sum_def)

lemma xor_self_cancel [simp]: "(a :: u8) XOR (a XOR b) = b"
  by (simp flip: xor.assoc)

lemma xor_sum_filter_all: "m \<notin> set xs \<Longrightarrow> xor_sum f (filter (\<lambda>i. i \<noteq> m) xs) = xor_sum f xs"
  by (induction xs) auto

text \<open>The parity of a group cancels every chunk but the missing one.\<close>

lemma xor_sum_cancel:
  "distinct xs \<Longrightarrow> m \<in> set xs \<Longrightarrow>
   xor_sum f xs XOR xor_sum f (filter (\<lambda>i. i \<noteq> m) xs) = f m"
proof (induction xs)
  case (Cons x xs)
  then show ?case
    by (cases "x = m") (auto simp: xor_sum_filter_all xor.assoc xor.left_commute)
qed simp

lemma length_xor_into [simp]: "length src \<le> length acc \<Longrightarrow> length (xor_into acc src) = length acc"
  by (simp add: xor_into_def)

lemma nth_xor_into:
  "length src \<le> length acc \<Longrightarrow> k < length acc \<Longrightarrow>
   xor_into acc src ! k = acc ! k XOR byte_at src k"
  by (auto simp: xor_into_def byte_at_def nth_append)

lemma fold_xor_into:
  assumes "\<And>i. i \<in> set is \<Longrightarrow> length (c i) \<le> length acc"
  shows "length (fold (\<lambda>i p. xor_into p (c i)) is acc) = length acc"
    "k < length acc \<Longrightarrow>
      fold (\<lambda>i p. xor_into p (c i)) is acc ! k = acc ! k XOR xor_sum (\<lambda>i. byte_at (c i) k) is"
proof -
  have "length (fold (\<lambda>i p. xor_into p (c i)) is acc) = length acc \<and> (k < length acc \<longrightarrow>
    fold (\<lambda>i p. xor_into p (c i)) is acc ! k = acc ! k XOR xor_sum (\<lambda>i. byte_at (c i) k) is)"
    using assms
  proof (induction "is" arbitrary: acc)
    case (Cons i "is")
    then show ?case by (simp add: nth_xor_into xor.assoc)
  qed simp
  then show "length (fold (\<lambda>i p. xor_into p (c i)) is acc) = length acc"
    "k < length acc \<Longrightarrow>
      fold (\<lambda>i p. xor_into p (c i)) is acc ! k = acc ! k XOR xor_sum (\<lambda>i. byte_at (c i) k) is"
    by auto
qed

lemma length_chunk_bytes_le [simp]: "length (chunk_bytes P s i) \<le> s"
  by (simp add: chunk_bytes_def slice_def chunk_size_def)

lemma length_group_parity [simp]: "length (group_parity P s is) = s"
  by (simp add: group_parity_def fold_xor_into(1))

lemma nth_group_parity:
  "k < s \<Longrightarrow> group_parity P s is ! k = xor_sum (\<lambda>i. byte_at (chunk_bytes P s i) k) is"
  by (simp add: group_parity_def fold_xor_into(2))

end
