(* ===== verification/Assembler.thy ===== *)
theory Assembler
  imports VideoSender
begin

text \<open>
  \<open>UdpH264FrameAssembler\<close> of \<open>native_video_client_shared_core.cpp\<close>: the viewer's video frame
  assembler. Datagrams of several frames arrive in any order; each frame is assembled in its
  own buffer, chunks lost are repaired from XOR parity, frames are handed out in sequence
  order, a frame given up is remembered so that its late chunks do not re-create it, and the
  list of such tombstones is bounded by a recovery episode. Vectors are lists, iterators are
  indices, \<open>min_element\<close> is the fold it performs, and the loop of \<open>PopDelivery\<close> runs on fuel.
\<close>

section \<open>State\<close>

datatype udp_h264_assembly_disposition = Ignored | Partial | Completed | Malformed | Dropped | Queued

record encoded_frame_header =
  ef_magic :: u32
  ef_type :: u16
  ef_size :: u16
  ef_seq :: u32
  ef_width :: u32
  ef_height :: u32
  ef_payloadSize :: u32
  ef_flags :: u32
  ef_streamGeneration :: u64
  ef_captureQpcUs :: u64
  ef_encodeStartQpcUs :: u64
  ef_encodeEndQpcUs :: u64
  ef_sendQpcUs :: u64

record assembly_step_result =
  sr_disposition :: udp_h264_assembly_disposition
  sr_startedNewAssembly :: bool
  sr_droppedPreviousIncomplete :: bool
  sr_reorderDetected :: bool
  sr_oversizePayload :: bool
  sr_fecRecovered :: bool
  sr_fecRecoveredChunks :: u32
  sr_packetSeq :: u32
  sr_expectedSeq :: u32
  sr_packetChunkOffset :: u32
  sr_expectedNextOffset :: u32
  sr_rejectedPayloadSize :: u32
  sr_header :: encoded_frame_header
  sr_payload :: bytes

definition empty_frame_header :: encoded_frame_header where
  "empty_frame_header = \<lparr>ef_magic = kMagic, ef_type = 0, ef_size = 0, ef_seq = 0, ef_width = 0,
    ef_height = 0, ef_payloadSize = 0, ef_flags = 0, ef_streamGeneration = 0, ef_captureQpcUs = 0,
    ef_encodeStartQpcUs = 0, ef_encodeEndQpcUs = 0, ef_sendQpcUs = 0\<rparr>"

definition default_step_result :: assembly_step_result where
  "default_step_result = \<lparr>sr_disposition = Ignored, sr_startedNewAssembly = False,
    sr_droppedPreviousIncomplete = False, sr_reorderDetected = False, sr_oversizePayload = False,
    sr_fecRecovered = False, sr_fecRecoveredChunks = 0, sr_packetSeq = 0, sr_expectedSeq = 0,
    sr_packetChunkOffset = 0, sr_expectedNextOffset = 0, sr_rejectedPayloadSize = 0,
    sr_header = empty_frame_header, sr_payload = []\<rparr>"

record assembly =
  as_seq :: u32
  as_payloadSize :: u32
  as_chunkCount :: u16
  as_chunkStride :: u32
  as_receivedCount :: nat
  as_header :: encoded_frame_header
  as_payload :: bytes
  as_received :: "bool list"
  as_parity :: "bytes list"
  as_parityReceived :: "bool list"
  as_parityInterleaved :: bool
  as_firstPacketUs :: u64
  as_lastProgressUs :: u64
  as_complete :: bool
  as_fecRecoveredChunks :: u32

record abandoned_au =
  ab_generation :: u64
  ab_seq :: u32
  ab_atUs :: u64

record frame_assembler =
  fa_abandoned :: "abandoned_au list"
  fa_saturated :: bool
  fa_saturationFloorSet :: bool
  fa_saturationFloorSeq :: u32
  fa_deliveredKeyCandidates :: "abandoned_au list"
  fa_assemblies :: "assembly list"
  fa_deliveredAny :: bool
  fa_lastDeliveredSeq :: u32
  fa_holdMaxUs :: u64
  fa_maxConcurrent :: nat
  fa_maxHeldBytes :: nat

definition kMaxUdpAssembledPayloadBytes :: u32 where "kMaxUdpAssembledPayloadBytes = 16 * 1024 * 1024"
definition kMaxUdpVideoChunks :: u16 where "kMaxUdpVideoChunks = 16384"
definition kAbandonedSaturationCap :: nat where "kAbandonedSaturationCap = 16"
definition kSaturationKeyCandidates :: nat where "kSaturationKeyCandidates = 2"
definition kDeliveredKeyCandidateRing :: nat where "kDeliveredKeyCandidateRing = 8"

definition initial_assembler :: frame_assembler where
  "initial_assembler = \<lparr>fa_abandoned = [], fa_saturated = False, fa_saturationFloorSet = False,
    fa_saturationFloorSeq = 0, fa_deliveredKeyCandidates = [], fa_assemblies = [],
    fa_deliveredAny = False, fa_lastDeliveredSeq = 0, fa_holdMaxUs = 0, fa_maxConcurrent = 3,
    fa_maxHeldBytes = 0\<rparr>"

section \<open>Small operations\<close>

definition assembler_reset :: "frame_assembler \<Rightarrow> frame_assembler" where
  "assembler_reset st = st\<lparr>fa_assemblies := [], fa_abandoned := [], fa_deliveredKeyCandidates := [],
    fa_saturated := False, fa_saturationFloorSet := False, fa_saturationFloorSeq := 0,
    fa_deliveredAny := False, fa_lastDeliveredSeq := 0\<rparr>"

definition configure_in_order_hold ::
  "u64 \<Rightarrow> nat \<Rightarrow> nat \<Rightarrow> frame_assembler \<Rightarrow> frame_assembler" where
  "configure_in_order_hold maxHoldUs maxConcurrent maxHeldBytes st =
    st\<lparr>fa_holdMaxUs := maxHoldUs, fa_maxConcurrent := max 1 maxConcurrent,
      fa_maxHeldBytes := maxHeldBytes\<rparr>"

definition held_bytes :: "assembly list \<Rightarrow> nat" where
  "held_bytes items = sum_list (map (\<lambda>a. unat (as_payloadSize a)) items)"

definition any_complete :: "frame_assembler \<Rightarrow> bool" where
  "any_complete st = list_ex as_complete (fa_assemblies st)"

definition is_key :: "assembly \<Rightarrow> bool" where
  "is_key a \<longleftrightarrow> ef_flags (as_header a) AND kEncodedFrameFlagKeyFrame \<noteq> 0"

definition raise_saturation_floor :: "u32 \<Rightarrow> frame_assembler \<Rightarrow> frame_assembler" where
  "raise_saturation_floor seq st =
    (if \<not> fa_saturationFloorSet st \<or> sequence_is_newer seq (fa_saturationFloorSeq st)
     then st\<lparr>fa_saturationFloorSet := True, fa_saturationFloorSeq := seq\<rparr> else st)"

definition saturation_candidates :: "frame_assembler \<Rightarrow> nat" where
  "saturation_candidates st = length (filter is_key (fa_assemblies st))"

definition note_key_accepted :: "u64 \<Rightarrow> u32 \<Rightarrow> frame_assembler \<Rightarrow> frame_assembler" where
  "note_key_accepted generation seq st =
    (if \<not> fa_saturated st then st
     else if \<not> list_ex (\<lambda>c. ab_generation c = generation \<and> ab_seq c = seq)
              (fa_deliveredKeyCandidates st) then st
     else let abandoned = filter (\<lambda>a. sequence_is_newer (ab_seq a) seq) (fa_abandoned st);
            saturated = (length abandoned \<ge> kAbandonedSaturationCap);
            st = st\<lparr>fa_abandoned := abandoned, fa_deliveredKeyCandidates := [],
                   fa_saturated := saturated\<rparr> in
       if saturated then st
       else st\<lparr>fa_saturationFloorSet := False, fa_saturationFloorSeq := 0\<rparr>)"

definition is_abandoned :: "u64 \<Rightarrow> u32 \<Rightarrow> frame_assembler \<Rightarrow> bool" where
  "is_abandoned generation seq st \<longleftrightarrow>
    list_ex (\<lambda>a. ab_seq a = seq \<and> ab_generation a = generation) (fa_abandoned st)"

text \<open>\<open>find_if\<close> (the length when nothing is found) and \<open>erase\<close> at an iterator.\<close>

definition find_index :: "('a \<Rightarrow> bool) \<Rightarrow> 'a list \<Rightarrow> nat" where
  "find_index P xs = length (takeWhile (\<lambda>x. \<not> P x) xs)"

definition erase_at :: "nat \<Rightarrow> 'a list \<Rightarrow> 'a list" where
  "erase_at i xs = take i xs @ drop (Suc i) xs"

text \<open>
  \<open>std::min_element\<close> under \<open>sequence_is_newer(b.seq, a.seq)\<close>: the candidate gives way to a
  later element it is newer than.
\<close>

definition oldest_index :: "assembly list \<Rightarrow> nat" where
  "oldest_index items =
    fold (\<lambda>i best. if sequence_is_newer (as_seq (items ! best)) (as_seq (items ! i)) then i else best)
      [1..<length items] 0"

lemma length_erase_at: "i < length xs \<Longrightarrow> length (erase_at i xs) = length xs - 1"
  by (simp add: erase_at_def)

lemma set_erase_at_subset: "set (erase_at i xs) \<subseteq> set xs"
  unfolding erase_at_def using set_take_subset [of i xs] set_drop_subset [of "Suc i" xs] by auto

lemma fold_choice: "P b \<Longrightarrow> (\<And>i. i \<in> set is \<Longrightarrow> P i) \<Longrightarrow>
    P (fold (\<lambda>i best. if c i best then i else best) is b)"
  by (induction "is" arbitrary: b) auto

lemma oldest_index_less: "items \<noteq> [] \<Longrightarrow> oldest_index items < length items"
  unfolding oldest_index_def by (rule fold_choice) auto

text \<open>The trimming loop of a starting episode: one assembly goes per round.\<close>

function trim_candidates :: "frame_assembler \<Rightarrow> frame_assembler" where
  "trim_candidates st =
    (if length (fa_assemblies st) > kSaturationKeyCandidates
     then let oldest = oldest_index (fa_assemblies st);
            st' = raise_saturation_floor (as_seq (fa_assemblies st ! oldest)) st in
          trim_candidates (st'\<lparr>fa_assemblies := erase_at oldest (fa_assemblies st)\<rparr>)
     else st)"
  by pat_completeness auto
termination
proof (relation "measure (\<lambda>st. length (fa_assemblies st))")
  fix st :: frame_assembler and oldest st'
  assume more: "kSaturationKeyCandidates < length (fa_assemblies st)"
    and oldest: "oldest = oldest_index (fa_assemblies st)"
  then have "oldest < length (fa_assemblies st)"
    using oldest_index_less [of "fa_assemblies st"] by fastforce
  then show "(st'\<lparr>fa_assemblies := erase_at oldest (fa_assemblies st)\<rparr>, st)
      \<in> measure (\<lambda>st. length (fa_assemblies st))"
    using more by (simp add: length_erase_at)
qed simp

declare trim_candidates.simps [simp del]

definition give_up_incomplete ::
  "u64 \<Rightarrow> u32 \<Rightarrow> u64 \<Rightarrow> frame_assembler \<Rightarrow> bool \<times> frame_assembler" where
  "give_up_incomplete generation seq nowUs st =
    (let items = fa_assemblies st;
         it = find_index (\<lambda>a. as_seq a = seq \<and> ef_streamGeneration (as_header a) = generation) items in
     if it = length items \<or> as_complete (items ! it) then (False, st)
     else let wasKeyFrame = is_key (items ! it);
            st = st\<lparr>fa_assemblies := erase_at it items\<rparr> in
     if fa_saturated st
     then (True, if wasKeyFrame then raise_saturation_floor seq st else st)
     else let st = st\<lparr>fa_abandoned := fa_abandoned st @
                  [\<lparr>ab_generation = generation, ab_seq = seq, ab_atUs = nowUs\<rparr>]\<rparr> in
     if length (fa_abandoned st) \<ge> kAbandonedSaturationCap
     then (True, trim_candidates (st\<lparr>fa_saturated := True, fa_saturationFloorSet := False,
        fa_saturationFloorSeq := 0, fa_deliveredKeyCandidates := [],
        fa_assemblies := filter is_key (fa_assemblies st)\<rparr>))
     else (True, st))"

record sequence_gap_response =
  gr_requestKeyframe :: bool
  gr_discontinuity :: bool

definition respond_to_sequence_gap :: "assembly_step_result \<Rightarrow> sequence_gap_response" where
  "respond_to_sequence_gap result =
    (if \<not> sr_droppedPreviousIncomplete result
     then \<lparr>gr_requestKeyframe = False, gr_discontinuity = False\<rparr>
     else if sr_disposition result = Completed \<and> ef_flags (sr_header result) AND 1 \<noteq> 0
     then \<lparr>gr_requestKeyframe = False, gr_discontinuity = False\<rparr>
     else \<lparr>gr_requestKeyframe = True, gr_discontinuity = True\<rparr>)"

section \<open>Delivery\<close>

text \<open>
  \<open>DeliverAssembly\<close> moves the payload out of the assembly; the last \<open>remove_if\<close> then always
  erases that assembly, whose sequence number is not newer than itself.
\<close>

definition push_delivered_key :: "abandoned_au \<Rightarrow> abandoned_au list \<Rightarrow> abandoned_au list" where
  "push_delivered_key au ring =
    drop (length ring - (kDeliveredKeyCandidateRing - 1)) ring @ [au]"

definition deliver_assembly ::
  "assembly \<Rightarrow> frame_assembler \<Rightarrow> assembly_step_result \<times> frame_assembler" where
  "deliver_assembly a st =
    (let expected = fa_lastDeliveredSeq st + 1;
         header = (as_header a)\<lparr>ef_payloadSize := as_payloadSize a\<rparr>;
         result = default_step_result\<lparr>sr_packetSeq := as_seq a,
           sr_expectedSeq := (if fa_deliveredAny st then expected else as_seq a),
           sr_disposition := Completed, sr_header := header, sr_payload := as_payload a,
           sr_fecRecovered := 0 < as_fecRecoveredChunks a,
           sr_fecRecoveredChunks := as_fecRecoveredChunks a,
           sr_droppedPreviousIncomplete := (fa_deliveredAny st \<and> as_seq a \<noteq> expected)\<rparr>;
         ring = (if fa_saturated st \<and> is_key a
                 then push_delivered_key \<lparr>ab_generation = ef_streamGeneration (as_header a),
                        ab_seq = as_seq a, ab_atUs = 0\<rparr> (fa_deliveredKeyCandidates st)
                 else fa_deliveredKeyCandidates st) in
     (result, st\<lparr>fa_deliveredAny := True, fa_lastDeliveredSeq := as_seq a,
       fa_deliveredKeyCandidates := ring,
       fa_abandoned := filter (\<lambda>b. sequence_is_newer (ab_seq b) (as_seq a)) (fa_abandoned st),
       fa_assemblies := filter (\<lambda>b. sequence_is_newer (as_seq b) (as_seq a)) (fa_assemblies st)\<rparr>))"

text \<open>The newest complete keyframe: a later candidate wins only when it is strictly newer.\<close>

definition newest_complete_key :: "assembly list \<Rightarrow> assembly option" where
  "newest_complete_key items =
    fold (\<lambda>a best. if \<not> as_complete a \<or> \<not> is_key a then best
                   else case best of None \<Rightarrow> Some a
                     | Some b \<Rightarrow> if sequence_is_newer (as_seq a) (as_seq b) then Some a else best)
      items None"

text \<open>
  One call of \<open>PopDelivery\<close> with at most \<open>fuel\<close> rounds of its loop: \<open>None\<close> is a loop that has
  not returned, \<open>Some (None, _)\<close> the answer false, \<open>Some (Some r, _)\<close> the delivery of \<open>r\<close>.
\<close>

fun pop_delivery_loop ::
  "nat \<Rightarrow> u64 \<Rightarrow> bool \<Rightarrow> frame_assembler \<Rightarrow> (assembly_step_result option \<times> frame_assembler) option"
where
  "pop_delivery_loop 0 nowUs repairNonKey st = None"
| "pop_delivery_loop (Suc fuel) nowUs repairNonKey st =
    (let items = fa_assemblies st in
     if items = [] then Some (None, st)
     else let i = oldest_index items; oldest = items ! i in
     if as_complete oldest
     then let (result, st) = deliver_assembly oldest st in Some (Some result, st)
     else if \<not> list_ex as_complete items then Some (None, st)
     else case newest_complete_key items of
       Some key \<Rightarrow> pop_delivery_loop fuel nowUs repairNonKey
         (st\<lparr>fa_assemblies := filter (\<lambda>a. \<not> sequence_is_newer (as_seq key) (as_seq a)) items\<rparr>)
     | None \<Rightarrow>
         if (repairNonKey \<or> is_key oldest) \<and> 0 < fa_holdMaxUs st \<and>
            nowUs < as_firstPacketUs oldest + fa_holdMaxUs st
         then Some (None, st)
         else pop_delivery_loop fuel nowUs repairNonKey
           (st\<lparr>fa_assemblies := erase_at i items\<rparr>))"

definition pop_delivery ::
  "u64 \<Rightarrow> bool \<Rightarrow> frame_assembler \<Rightarrow> (assembly_step_result option \<times> frame_assembler) option" where
  "pop_delivery nowUs repairNonKey st =
    pop_delivery_loop (Suc (length (fa_assemblies st))) nowUs repairNonKey st"

section \<open>The oldest incomplete frame\<close>

record incomplete_au_info =
  ia_seq :: u32
  ia_generation :: u64
  ia_chunkCount :: u16
  ia_missingTotal :: u16
  ia_highWater :: u16
  ia_keyFrame :: bool
  ia_firstPacketUs :: u64
  ia_lastProgressUs :: u64

definition missing_chunks :: "assembly \<Rightarrow> nat list" where
  "missing_chunks a = filter (\<lambda>i. \<not> (i < length (as_received a) \<and> as_received a ! i))
    [0..<unat (as_chunkCount a)]"

definition high_water :: "assembly \<Rightarrow> nat" where
  "high_water a = fold (\<lambda>i hw. if as_received a ! i then Suc i else hw)
    [0..<min (unat (as_chunkCount a)) (length (as_received a))] 0"

definition oldest_incomplete ::
  "nat \<Rightarrow> frame_assembler \<Rightarrow> (u16 list \<times> incomplete_au_info) option" where
  "oldest_incomplete maxMissing st =
    (case filter (\<lambda>a. as_receivedCount a < unat (as_chunkCount a) \<and> missing_chunks a \<noteq> [])
        (fa_assemblies st) of
      [] \<Rightarrow> None
    | a # _ \<Rightarrow> Some (map of_nat (take maxMissing (missing_chunks a)),
        \<lparr>ia_seq = as_seq a, ia_generation = ef_streamGeneration (as_header a),
         ia_chunkCount = as_chunkCount a, ia_missingTotal = of_nat (length (missing_chunks a)),
         ia_highWater = of_nat (high_water a), ia_keyFrame = is_key a,
         ia_firstPacketUs = as_firstPacketUs a, ia_lastProgressUs = as_lastProgressUs a\<rparr>))"

section \<open>One datagram\<close>

subsection \<open>Checks on the chunk header\<close>

datatype chunk_verdict = ChunkOk | ChunkIgnored | ChunkMalformed | ChunkOversize

definition parity_packet :: "video_chunk_header \<Rightarrow> bool" where
  "parity_packet p \<longleftrightarrow> vc_flags p AND 0x10 \<noteq> 0"

definition interleaved_parity :: "video_chunk_header \<Rightarrow> bool" where
  "interleaved_parity p \<longleftrightarrow> parity_packet p \<and> vc_flags p AND 0x20 \<noteq> 0"

text \<open>The arithmetic of these checks is the source's, on 32-bit words.\<close>

definition check_group_shape :: "video_chunk_header \<Rightarrow> bool" where
  "check_group_shape p \<longleftrightarrow>
    (let groupCount = (ucast (vc_chunkCount p) + 8 - 1) div 8 :: u32;
         wellFormedGroup = (if interleaved_parity p then ucast (vc_chunkIndex p) < groupCount
                            else vc_chunkIndex p mod 8 = 0) in
     wellFormedGroup \<and> vc_chunkSize p = vc_chunkStride p)"

definition check_chunk_header :: "video_chunk_header \<Rightarrow> nat \<Rightarrow> chunk_verdict" where
  "check_chunk_header p len =
    (if vc_magic p \<noteq> kMagic \<or> vc_kind p \<noteq> udp_packet_kind_code UVideoChunk \<or>
        vc_size p \<noteq> of_nat video_chunk_header_size then ChunkIgnored
     else if vc_codec p \<noteq> kUdpCodecH264 then ChunkIgnored
     else if vc_payloadSize p = 0 \<or> vc_chunkSize p = 0 \<or> vc_chunkStride p = 0 \<or>
        4096 < vc_chunkStride p \<or> vc_chunkCount p = 0 \<or> kMaxUdpVideoChunks < vc_chunkCount p \<or>
        len < video_chunk_header_size + unat (vc_chunkSize p) then ChunkMalformed
     else if kMaxUdpAssembledPayloadBytes < vc_payloadSize p then ChunkOversize
     else let expectedChunkCount = (vc_payloadSize p + vc_chunkStride p - 1) div vc_chunkStride p;
            expectedOffset = ucast (vc_chunkIndex p) * vc_chunkStride p in
     if expectedChunkCount \<noteq> ucast (vc_chunkCount p) \<or> vc_chunkCount p \<le> vc_chunkIndex p
     then ChunkMalformed
     else if vc_chunkOffset p \<noteq> expectedOffset then ChunkMalformed
     else if parity_packet p then (if check_group_shape p then ChunkOk else ChunkMalformed)
     else if vc_chunkSize p \<noteq> min (vc_chunkStride p) (vc_payloadSize p - expectedOffset)
     then ChunkMalformed
     else ChunkOk)"

subsection \<open>Admission of a new assembly\<close>

datatype 'a admission = Refused 'a | Admitted frame_assembler

text \<open>
  The episode's admission. \<open>admit\<close> is the caller's generation filter at this call (always
  true where none is set). A refusal says whether the datagram counts as reordered.
\<close>

definition episode_admission ::
  "(u64 \<Rightarrow> bool) \<Rightarrow> video_chunk_header \<Rightarrow> frame_assembler \<Rightarrow> bool admission" where
  "episode_admission admit p st =
    (let items = fa_assemblies st;
         haveLiveAssembly = list_ex (\<lambda>a. as_seq a = vc_seq p) items in
     if haveLiveAssembly \<or> \<not> fa_saturated st then Admitted st
     else if vc_flags p AND 1 = 0 then Refused False
     else if fa_saturationFloorSet st \<and> \<not> sequence_is_newer (vc_seq p) (fa_saturationFloorSeq st)
     then Refused True
     else if \<not> admit (vc_streamGeneration p) then Refused False
     else if length items \<ge> kSaturationKeyCandidates
     then let oldest = oldest_index items in
       if \<not> sequence_is_newer (vc_seq p) (as_seq (items ! oldest)) then Refused False
       else Admitted ((raise_saturation_floor (as_seq (items ! oldest)) st)
              \<lparr>fa_assemblies := erase_at oldest items\<rparr>)
     else Admitted st)"

definition evict_oldest :: "frame_assembler \<Rightarrow> frame_assembler" where
  "evict_oldest st =
    (if 0 < fa_holdMaxUs st
     then st\<lparr>fa_assemblies := erase_at (oldest_index (fa_assemblies st)) (fa_assemblies st)\<rparr>
     else st\<lparr>fa_assemblies := tl (fa_assemblies st)\<rparr>)"

text \<open>The eviction loop of the payload bound, which drops one assembly per round.\<close>

function evict_for_bytes :: "u32 \<Rightarrow> frame_assembler \<Rightarrow> frame_assembler" where
  "evict_for_bytes payloadSize st =
    (if 0 < fa_holdMaxUs st \<and> 0 < fa_maxHeldBytes st \<and> fa_assemblies st \<noteq> [] \<and>
        held_bytes (fa_assemblies st) + unat payloadSize > fa_maxHeldBytes st
     then evict_for_bytes payloadSize (evict_oldest st) else st)"
  by pat_completeness auto
termination
  by (relation "measure (\<lambda>(_, st). length (fa_assemblies st))")
    (auto simp: evict_oldest_def length_erase_at oldest_index_less)

declare evict_for_bytes.simps [simp del]

definition make_room :: "u32 \<Rightarrow> frame_assembler \<Rightarrow> frame_assembler" where
  "make_room payloadSize st =
    (let st = (if length (fa_assemblies st) \<ge> fa_maxConcurrent st then evict_oldest st else st) in
     evict_for_bytes payloadSize st)"

definition create_assembly :: "video_chunk_header \<Rightarrow> u64 \<Rightarrow> assembly" where
  "create_assembly p nowUs =
    (let count = unat (vc_chunkCount p);
         fecGroupCount = (count + kUdpVideoFecGroupSize - 1) div kUdpVideoFecGroupSize in
     \<lparr>as_seq = vc_seq p, as_payloadSize = vc_payloadSize p, as_chunkCount = vc_chunkCount p,
      as_chunkStride = vc_chunkStride p, as_receivedCount = 0,
      as_header = \<lparr>ef_magic = kMagic, ef_type = 11, ef_size = 68, ef_seq = vc_seq p,
        ef_width = vc_width p, ef_height = vc_height p, ef_payloadSize = 0,
        ef_flags = (if vc_flags p AND 1 \<noteq> 0 then kEncodedFrameFlagKeyFrame else 0) OR
          (if vc_flags p AND kUdpVideoChunkFlagSynthetic \<noteq> 0 then kEncodedFrameFlagSynthetic else 0),
        ef_streamGeneration = vc_streamGeneration p, ef_captureQpcUs = vc_captureQpcUs p,
        ef_encodeStartQpcUs = vc_encodeStartQpcUs p, ef_encodeEndQpcUs = vc_encodeEndQpcUs p,
        ef_sendQpcUs = vc_sendQpcUs p\<rparr>,
      as_payload = replicate (unat (vc_payloadSize p)) 0, as_received = replicate count False,
      as_parity = replicate fecGroupCount [], as_parityReceived = replicate fecGroupCount False,
      as_parityInterleaved = False, as_firstPacketUs = nowUs, as_lastProgressUs = nowUs,
      as_complete = False, as_fecRecoveredChunks = 0\<rparr>)"

definition assembly_matches :: "assembly \<Rightarrow> video_chunk_header \<Rightarrow> bool" where
  "assembly_matches a p \<longleftrightarrow> as_payloadSize a = vc_payloadSize p \<and>
    as_chunkCount a = vc_chunkCount p \<and> as_chunkStride a = vc_chunkStride p \<and>
    ef_width (as_header a) = vc_width p \<and> ef_height (as_header a) = vc_height p \<and>
    ef_streamGeneration (as_header a) = vc_streamGeneration p"

subsection \<open>Storing a chunk\<close>

definition store_parity :: "video_chunk_header \<Rightarrow> bytes \<Rightarrow> assembly \<Rightarrow> assembly option" where
  "store_parity p data a =
    (let groupIndex = (if interleaved_parity p then unat (vc_chunkIndex p)
                       else unat (vc_chunkIndex p) div kUdpVideoFecGroupSize);
         a = a\<lparr>as_parityInterleaved := interleaved_parity p\<rparr> in
     if length (as_parityReceived a) \<le> groupIndex then None
     else if as_parityReceived a ! groupIndex then Some a
     else Some (a\<lparr>as_parity := (as_parity a)[groupIndex :=
            slice data video_chunk_header_size (unat (vc_chunkSize p))],
          as_parityReceived := (as_parityReceived a)[groupIndex := True]\<rparr>))"

definition store_data :: "video_chunk_header \<Rightarrow> bytes \<Rightarrow> u64 \<Rightarrow> assembly \<Rightarrow> assembly" where
  "store_data p data nowUs a =
    (let i = unat (vc_chunkIndex p) in
     if as_received a ! i then a
     else a\<lparr>as_payload := overwrite (as_payload a) (unat (vc_chunkOffset p))
              (slice data video_chunk_header_size (unat (vc_chunkSize p))),
            as_received := (as_received a)[i := True],
            as_receivedCount := as_receivedCount a + 1, as_lastProgressUs := nowUs\<rparr>)"

subsection \<open>Repair from parity\<close>

text \<open>
  The chunks of group \<open>g\<close>. The loop counter is a \<open>uint16_t\<close>; a count of at most 16384 and a
  step of at most 2048 keep it from wrapping.
\<close>

definition assembly_group :: "assembly \<Rightarrow> nat \<Rightarrow> nat list" where
  "assembly_group a g =
    (let groupCount = length (as_parity a);
         groupStart = (if as_parityInterleaved a then g else g * kUdpVideoFecGroupSize);
         groupStep = (if as_parityInterleaved a then groupCount else 1);
         groupEnd = (if as_parityInterleaved a then unat (as_chunkCount a)
                     else min (unat (as_chunkCount a)) (groupStart + kUdpVideoFecGroupSize)) in
     strided groupStart groupStep groupEnd)"

definition recover_chunk :: "assembly \<Rightarrow> nat \<Rightarrow> nat \<Rightarrow> bytes" where
  "recover_chunk a g missingIndex =
    fold (\<lambda>i acc. xor_into acc (chunk_bytes (as_payload a) (unat (as_chunkStride a)) i))
      (filter (\<lambda>i. i \<noteq> missingIndex \<and> as_received a ! i) (assembly_group a g))
      (as_parity a ! g)"

definition repair_group :: "u64 \<Rightarrow> nat \<Rightarrow> assembly \<times> u32 \<Rightarrow> assembly \<times> u32" where
  "repair_group nowUs g acc =
    (let (a, recovered) = acc in
     if \<not> as_parityReceived a ! g then (a, recovered)
     else case filter (\<lambda>i. \<not> as_received a ! i) (assembly_group a g) of
       [missingIndex] \<Rightarrow>
         let stride = unat (as_chunkStride a);
             recoveredOffset = missingIndex * stride;
             recoveredSize = chunk_size (unat (as_payloadSize a)) stride missingIndex in
         (a\<lparr>as_payload := overwrite (as_payload a) recoveredOffset
                (take recoveredSize (recover_chunk a g missingIndex)),
            as_received := (as_received a)[missingIndex := True],
            as_receivedCount := as_receivedCount a + 1, as_lastProgressUs := nowUs,
            as_fecRecoveredChunks := as_fecRecoveredChunks a + 1\<rparr>, recovered + 1)
     | _ \<Rightarrow> (a, recovered))"

definition repair_groups :: "u64 \<Rightarrow> assembly \<Rightarrow> assembly \<times> u32" where
  "repair_groups nowUs a = fold (repair_group nowUs) [0..<length (as_parity a)] (a, 0)"

definition expected_next_offset :: "assembly \<Rightarrow> u32" where
  "expected_next_offset a =
    (case filter (\<lambda>i. \<not> as_received a ! i) [0..<unat (as_chunkCount a)] of
       [] \<Rightarrow> 0 | i # _ \<Rightarrow> of_nat i * as_chunkStride a)"

subsection \<open>The whole step\<close>

text \<open>
  The part of \<open>PushDatagram\<close> after the assembly is found: it sits at index \<open>it\<close>, and
  \<open>result\<close> is what the steps before have recorded.
\<close>

definition push_into_assembly ::
  "video_chunk_header \<Rightarrow> bytes \<Rightarrow> u64 \<Rightarrow> nat \<Rightarrow> assembly_step_result \<Rightarrow> frame_assembler \<Rightarrow>
   assembly_step_result \<times> frame_assembler" where
  "push_into_assembly p data nowUs it result st =
    (let items = fa_assemblies st; a = items ! it in
     if \<not> assembly_matches a p
     then (result\<lparr>sr_disposition := Malformed\<rparr>, st\<lparr>fa_assemblies := erase_at it items\<rparr>)
     else case (if parity_packet p then store_parity p data a else Some (store_data p data nowUs a)) of
       None \<Rightarrow> (result\<lparr>sr_disposition := Malformed\<rparr>,
         st\<lparr>fa_assemblies := items[it := a\<lparr>as_parityInterleaved := interleaved_parity p\<rparr>]\<rparr>)
     | Some stored \<Rightarrow>
       let (a, recovered) = repair_groups nowUs stored;
           result = result\<lparr>sr_fecRecovered := 0 < recovered, sr_fecRecoveredChunks := recovered,
             sr_expectedNextOffset := expected_next_offset a\<rparr> in
       if as_receivedCount a \<noteq> unat (as_chunkCount a)
       then (result\<lparr>sr_disposition := Partial\<rparr>, st\<lparr>fa_assemblies := items[it := a]\<rparr>)
       else if 0 < fa_holdMaxUs st
       then (result\<lparr>sr_disposition := Queued\<rparr>,
         st\<lparr>fa_assemblies := items[it := a\<lparr>as_complete := True\<rparr>]\<rparr>)
       else let (delivered, st) = deliver_assembly a (st\<lparr>fa_assemblies := items[it := a]\<rparr>) in
         (delivered\<lparr>sr_packetChunkOffset := vc_chunkOffset p,
            sr_droppedPreviousIncomplete := sr_droppedPreviousIncomplete delivered \<or>
              sr_droppedPreviousIncomplete result,
            sr_fecRecovered := 0 < recovered, sr_fecRecoveredChunks := recovered\<rparr>, st))"

text \<open>
  The whole datagram. \<open>make_room\<close> reports an eviction when it has shortened the list.
\<close>

definition push_accepted ::
  "(u64 \<Rightarrow> bool) \<Rightarrow> video_chunk_header \<Rightarrow> bytes \<Rightarrow> u64 \<Rightarrow> assembly_step_result \<Rightarrow> frame_assembler \<Rightarrow>
   assembly_step_result \<times> frame_assembler" where
  "push_accepted admit p data nowUs result st =
    (if is_abandoned (vc_streamGeneration p) (vc_seq p) st
     then (result\<lparr>sr_disposition := Ignored, sr_reorderDetected := True\<rparr>, st)
     else if fa_deliveredAny st \<and> \<not> sequence_is_newer (vc_seq p) (fa_lastDeliveredSeq st)
     then (result\<lparr>sr_disposition := Ignored, sr_reorderDetected := True\<rparr>, st)
     else case episode_admission admit p st of
       Refused reordered \<Rightarrow>
         (result\<lparr>sr_disposition := Ignored, sr_reorderDetected := reordered\<rparr>, st)
     | Admitted st \<Rightarrow>
       let it = find_index (\<lambda>a. as_seq a = vc_seq p) (fa_assemblies st) in
       if it < length (fa_assemblies st) then push_into_assembly p data nowUs it result st
       else let roomy = make_room (vc_payloadSize p) st;
              evicted = length (fa_assemblies roomy) < length (fa_assemblies st);
              st = roomy\<lparr>fa_assemblies := fa_assemblies roomy @ [create_assembly p nowUs]\<rparr> in
         push_into_assembly p data nowUs (length (fa_assemblies roomy))
           (result\<lparr>sr_droppedPreviousIncomplete := evicted, sr_startedNewAssembly := True\<rparr>) st)"

definition push_datagram ::
  "(u64 \<Rightarrow> bool) \<Rightarrow> bytes \<Rightarrow> u64 \<Rightarrow> frame_assembler \<Rightarrow> assembly_step_result \<times> frame_assembler" where
  "push_datagram admit data nowUs st =
    (if length data < video_chunk_header_size then (default_step_result, st)
     else let p = decode_video_chunk_header data;
            result = default_step_result\<lparr>sr_packetSeq := vc_seq p,
              sr_expectedSeq := (if fa_deliveredAny st then fa_lastDeliveredSeq st + 1 else vc_seq p),
              sr_packetChunkOffset := vc_chunkOffset p\<rparr> in
     case check_chunk_header p (length data) of
       ChunkIgnored \<Rightarrow> (result, st)
     | ChunkMalformed \<Rightarrow> (result\<lparr>sr_disposition := Malformed\<rparr>, st)
     | ChunkOversize \<Rightarrow> (result\<lparr>sr_disposition := Malformed, sr_oversizePayload := True,
         sr_rejectedPayloadSize := vc_payloadSize p\<rparr>, st)
     | ChunkOk \<Rightarrow> push_accepted admit p data nowUs result st)"

end
