(* ===== verification/AssemblerInv.thy ===== *)
theory AssemblerInv
  imports Assembler "HOL-Library.Sublist"
begin

text \<open>
  Invariants of the frame assembler: what an accepted chunk header guarantees, the shape of
  every assembly (buffers sized by the header, the received count counting the received
  chunks), and the state invariant: distinct sequence numbers, all newer than the last
  delivery, bounded assemblies and tombstones, no live assembly under a tombstone, only
  keyframes during a recovery episode. A step relation collects the operations; every
  reachable state satisfies the invariant.
\<close>

section \<open>What an accepted header guarantees\<close>

lemma unat_ucast_16_32 [simp]: "unat (ucast (w :: u16) :: u32) = unat w"
  using unat_bounds(2) [of w] by (simp add: unsigned_ucast_eq take_bit_nat_eq_self)

lemma chunk_ok_facts:
  assumes ok: "check_chunk_header p len = ChunkOk"
  defines "n \<equiv> unat (vc_chunkCount p)" and "s \<equiv> unat (vc_chunkStride p)"
    and "len0 \<equiv> unat (vc_payloadSize p)" and "i \<equiv> unat (vc_chunkIndex p)"
  shows "len0 \<le> 16777216" "n \<le> 16384" "s \<le> 4096" "0 < len0" "0 < s" "i < n"
    "frame_layout len0 s n ((n + 7) div 8)" "unat (vc_chunkOffset p) = i * s"
    "88 + unat (vc_chunkSize p) \<le> len"
    "\<not> parity_packet p \<Longrightarrow> unat (vc_chunkSize p) = chunk_size len0 s i"
    "parity_packet p \<Longrightarrow> unat (vc_chunkSize p) = s"
    "parity_packet p \<Longrightarrow> \<not> interleaved_parity p \<Longrightarrow> i mod 8 = 0"
    "parity_packet p \<Longrightarrow> interleaved_parity p \<Longrightarrow> i < (n + 7) div 8"
proof -
  have raw: "vc_payloadSize p \<noteq> 0" "vc_chunkStride p \<noteq> 0" "vc_chunkStride p \<le> 4096"
    "vc_chunkCount p \<le> 16384" "vc_payloadSize p \<le> 16777216"
    "88 + unat (vc_chunkSize p) \<le> len"
    and count: "(vc_payloadSize p + vc_chunkStride p - 1) div vc_chunkStride p = ucast (vc_chunkCount p)"
    and index: "vc_chunkIndex p < vc_chunkCount p"
    and offset: "vc_chunkOffset p = ucast (vc_chunkIndex p) * vc_chunkStride p"
    using ok
    by (auto simp: check_chunk_header_def Let_def kMaxUdpVideoChunks_def
        kMaxUdpAssembledPayloadBytes_def not_less not_le split: if_splits)
  show "len0 \<le> 16777216" "n \<le> 16384" "s \<le> 4096" "0 < len0" "0 < s" "i < n"
    using raw index by (simp_all add: n_def s_def len0_def i_def word_le_nat_alt word_less_nat_alt unat_gt_0)
  show "88 + unat (vc_chunkSize p) \<le> len" by (rule raw)
  have sum: "unat (vc_payloadSize p + vc_chunkStride p - 1) = len0 + s - 1"
  proof -
    have "unat (vc_payloadSize p + vc_chunkStride p) = len0 + s"
      using \<open>len0 \<le> 16777216\<close> \<open>s \<le> 4096\<close> unfolding len0_def s_def
      by (subst unat_word_ariths) simp
    then show ?thesis using \<open>0 < s\<close> by (simp add: unat_sub_if' word_le_nat_alt)
  qed
  have "n = unat (ucast (vc_chunkCount p) :: u32)" by (simp add: n_def)
  also have "\<dots> = (len0 + s - 1) div s" by (simp flip: count add: unat_div sum s_def)
  finally have n: "n = (len0 + s - 1) div s" .
  then show layout: "frame_layout len0 s n ((n + 7) div 8)"
    using \<open>0 < s\<close> \<open>0 < len0\<close> by (simp add: frame_layout_def kUdpVideoFecGroupSize_def)
  have small: "i * s < len0" using frame_layout_chunk(1) [OF layout \<open>i < n\<close>] .
  show off: "unat (vc_chunkOffset p) = i * s"
    using small \<open>len0 \<le> 16777216\<close> unfolding offset
    by (subst unat_word_ariths) (simp add: i_def s_def)
  show "\<not> parity_packet p \<Longrightarrow> unat (vc_chunkSize p) = chunk_size len0 s i"
  proof -
    assume "\<not> parity_packet p"
    then have "vc_chunkSize p = min (vc_chunkStride p) (vc_payloadSize p - vc_chunkOffset p)"
      using ok offset by (auto simp: check_chunk_header_def Let_def split: if_splits)
    moreover have "unat (vc_payloadSize p - vc_chunkOffset p) = len0 - i * s"
      using off small by (simp add: unat_sub_if' len0_def)
    ultimately show "unat (vc_chunkSize p) = chunk_size len0 s i"
      by (auto simp: chunk_size_def min_def word_le_nat_alt s_def)
  qed
  assume "parity_packet p"
  then have shape: "check_group_shape p"
    using ok by (auto simp: check_chunk_header_def Let_def split: if_splits)
  then show "unat (vc_chunkSize p) = s" by (simp add: check_group_shape_def Let_def s_def)
  show "\<not> interleaved_parity p \<Longrightarrow> i mod 8 = 0"
    using shape by (simp add: check_group_shape_def Let_def i_def word_unat_eq_iff unat_mod)
  have "unat (ucast (vc_chunkCount p) + 8 - 1 :: u32) = n + 7"
    using \<open>n \<le> 16384\<close> by (simp add: unat_word_ariths n_def)
  then show "interleaved_parity p \<Longrightarrow> i < (n + 7) div 8"
    using shape by (simp add: check_group_shape_def Let_def i_def word_less_nat_alt unat_div)
qed

section \<open>The shape of an assembly\<close>

definition wf_assembly :: "assembly \<Rightarrow> bool" where
  "wf_assembly a \<longleftrightarrow>
    (let n = unat (as_chunkCount a); s = unat (as_chunkStride a); len = unat (as_payloadSize a) in
     frame_layout len s n (length (as_parity a)) \<and>
     length (as_payload a) = len \<and> length (as_received a) = n \<and>
     length (as_parityReceived a) = length (as_parity a) \<and>
     as_receivedCount a = count_true (as_received a) \<and>
     (\<forall>g<length (as_parity a). as_parityReceived a ! g \<longrightarrow> length (as_parity a ! g) = s) \<and>
     n \<le> 16384 \<and> len \<le> 16777216 \<and> s \<le> 4096)"

text \<open>The identity of an assembly, which storing and repairing leave alone.\<close>

definition same_frame :: "assembly \<Rightarrow> assembly \<Rightarrow> bool" where
  "same_frame a b \<longleftrightarrow> as_seq a = as_seq b \<and> as_header a = as_header b \<and>
    as_payloadSize a = as_payloadSize b \<and> as_chunkCount a = as_chunkCount b \<and>
    as_chunkStride a = as_chunkStride b \<and> as_firstPacketUs a = as_firstPacketUs b"

lemma same_frame_refl [simp]: "same_frame a a"
  by (simp add: same_frame_def)

lemma same_frame_trans: "same_frame a b \<Longrightarrow> same_frame b c \<Longrightarrow> same_frame a c"
  by (simp add: same_frame_def)

lemma wf_create_assembly:
  assumes "check_chunk_header p len = ChunkOk"
  shows "wf_assembly (create_assembly p nowUs)" "assembly_matches (create_assembly p nowUs) p"
    "as_seq (create_assembly p nowUs) = vc_seq p"
  using chunk_ok_facts [OF assms]
  by (simp_all add: create_assembly_def wf_assembly_def Let_def count_true_def assembly_matches_def
      kUdpVideoFecGroupSize_def add.commute)

lemma wf_store_data:
  assumes ok: "check_chunk_header p (length data) = ChunkOk" and "\<not> parity_packet p"
    and wf: "wf_assembly a" and match: "assembly_matches a p"
  shows "wf_assembly (store_data p data nowUs a)" "same_frame (store_data p data nowUs a) a"
proof -
  note facts = chunk_ok_facts [OF ok]
  from match have eqs: "as_chunkCount a = vc_chunkCount p" "as_chunkStride a = vc_chunkStride p"
    "as_payloadSize a = vc_payloadSize p"
    by (auto simp: assembly_matches_def)
  let ?i = "unat (vc_chunkIndex p)"
  have "length (slice data 88 (unat (vc_chunkSize p))) = unat (vc_chunkSize p)"
    using facts(9) by (simp add: slices)
  moreover have "unat (vc_chunkOffset p) + unat (vc_chunkSize p) \<le> unat (vc_payloadSize p)"
    using facts(8) facts(10) [OF assms(2)] frame_layout_chunk(4) [OF facts(7) facts(6)] by simp
  ultimately have "length (overwrite (as_payload a) (unat (vc_chunkOffset p))
      (slice data 88 (unat (vc_chunkSize p)))) = length (as_payload a)"
    using wf eqs by (simp add: wf_assembly_def Let_def length_overwrite)
  moreover have "\<not> as_received a ! ?i \<Longrightarrow>
      count_true ((as_received a)[?i := True]) = count_true (as_received a) + 1"
    using wf facts(6) eqs by (intro count_true_update) (simp_all add: wf_assembly_def Let_def)
  ultimately show "wf_assembly (store_data p data nowUs a)"
    using wf by (simp add: wf_assembly_def store_data_def Let_def)
  show "same_frame (store_data p data nowUs a) a"
    by (simp add: store_data_def Let_def same_frame_def)
qed

lemma wf_store_parity:
  assumes ok: "check_chunk_header p (length data) = ChunkOk" and par: "parity_packet p"
    and wf: "wf_assembly a" and match: "assembly_matches a p"
  shows "\<exists>b. store_parity p data a = Some b \<and> wf_assembly b \<and> same_frame b a"
proof -
  note facts = chunk_ok_facts [OF ok]
  from match have eqs: "as_chunkCount a = vc_chunkCount p" "as_chunkStride a = vc_chunkStride p"
    "as_payloadSize a = vc_payloadSize p"
    by (auto simp: assembly_matches_def)
  let ?g = "if interleaved_parity p then unat (vc_chunkIndex p) else unat (vc_chunkIndex p) div 8"
  have "length (as_parity a) = (unat (vc_chunkCount p) + 7) div 8"
    using wf eqs by (simp add: wf_assembly_def Let_def frame_layout_def kUdpVideoFecGroupSize_def add.commute)
  then have g: "?g < length (as_parity a)"
    using facts(6,13) par by auto
  have "length (slice data 88 (unat (vc_chunkSize p))) = unat (as_chunkStride a)"
    using facts(9) facts(11) [OF par] eqs by (simp add: slices)
  with g wf show ?thesis
    by (auto simp: store_parity_def Let_def wf_assembly_def same_frame_def nth_list_update
        kUdpVideoFecGroupSize_def split: if_splits)
qed

section \<open>Repair\<close>

lemma assembly_group_eq:
  "assembly_group a g =
    fec_group (as_parityInterleaved a) (unat (as_chunkCount a)) (length (as_parity a)) g"
  by (simp add: assembly_group_def fec_group_def parity_first_chunk_def Let_def)

text \<open>What one group contributes: nothing, or the one missing chunk rebuilt from parity.\<close>

lemma repair_group_cases:
  obtains (idle) "repair_group nowUs g (a, r) = (a, r)"
  | (repaired) m where "as_parityReceived a ! g"
    "filter (\<lambda>i. \<not> as_received a ! i) (assembly_group a g) = [m]"
    "repair_group nowUs g (a, r) = (a\<lparr>
       as_payload := overwrite (as_payload a) (m * unat (as_chunkStride a))
         (take (chunk_size (unat (as_payloadSize a)) (unat (as_chunkStride a)) m)
           (recover_chunk a g m)),
       as_received := (as_received a)[m := True], as_receivedCount := as_receivedCount a + 1,
       as_lastProgressUs := nowUs, as_fecRecoveredChunks := as_fecRecoveredChunks a + 1\<rparr>, r + 1)"
proof (cases "as_parityReceived a ! g")
  case False
  then have "repair_group nowUs g (a, r) = (a, r)" by (simp add: repair_group_def)
  then show thesis by (rule idle)
next
  case True
  show thesis
  proof (cases "\<exists>m. filter (\<lambda>i. \<not> as_received a ! i) (assembly_group a g) = [m]")
    case one: True
    then obtain m where m: "filter (\<lambda>i. \<not> as_received a ! i) (assembly_group a g) = [m]" ..
    show thesis by (rule repaired [OF True m]) (simp add: repair_group_def True m Let_def)
  next
    case False
    with True have "repair_group nowUs g (a, r) = (a, r)"
      by (auto simp: repair_group_def split: list.splits)
    then show thesis by (rule idle)
  qed
qed

lemma missing_in_group:
  assumes "filter (\<lambda>i. \<not> P i) xs = [m]"
  shows "m \<in> set xs" "\<not> P m" "i \<in> set xs \<Longrightarrow> P i \<longleftrightarrow> i \<noteq> m"
proof -
  have eq: "set (filter (\<lambda>i. \<not> P i) xs) = {m}" using assms by simp
  then show "m \<in> set xs" "\<not> P m" by auto
  show "i \<in> set xs \<Longrightarrow> P i \<longleftrightarrow> i \<noteq> m" using eq by auto
qed

lemma wf_repair_group:
  assumes wf: "wf_assembly a" and g: "g < length (as_parity a)"
  shows "wf_assembly (fst (repair_group nowUs g (a, r)))"
    "same_frame (fst (repair_group nowUs g (a, r))) a"
    "length (as_parity (fst (repair_group nowUs g (a, r)))) = length (as_parity a)"
proof -
  let ?b = "fst (repair_group nowUs g (a, r))"
  have "wf_assembly ?b \<and> same_frame ?b a \<and> length (as_parity ?b) = length (as_parity a)"
  proof (cases rule: repair_group_cases [of nowUs g a r])
    case idle
    then show ?thesis using wf by simp
  next
    case (repaired m)
    note m = missing_in_group [OF repaired(2)]
    let ?n = "unat (as_chunkCount a)" and ?s = "unat (as_chunkStride a)"
      and ?len = "unat (as_payloadSize a)"
    have lay: "frame_layout ?len ?s ?n (length (as_parity a))"
      using wf by (simp add: wf_assembly_def Let_def)
    have "m < ?n" using m(1) g by (simp add: assembly_group_eq fec_group_bound)
    note chunk = frame_layout_chunk [OF lay this]
    have "length (recover_chunk a g m) = ?s"
      using wf g repaired(1) by (simp add: recover_chunk_def wf_assembly_def Let_def fold_xor_into(1))
    with chunk(3,4) have "length (overwrite (as_payload a) (m * ?s)
        (take (chunk_size ?len ?s m) (recover_chunk a g m))) = length (as_payload a)"
      using wf by (simp add: wf_assembly_def Let_def length_overwrite)
    moreover have "count_true ((as_received a)[m := True]) = count_true (as_received a) + 1"
      using m(2) \<open>m < ?n\<close> wf by (intro count_true_update) (simp_all add: wf_assembly_def Let_def)
    ultimately show ?thesis
      using wf repaired(3) by (simp add: wf_assembly_def Let_def same_frame_def)
  qed
  then show "wf_assembly ?b" "same_frame ?b a" "length (as_parity ?b) = length (as_parity a)"
    by auto
qed

lemma wf_repair_groups:
  assumes wf: "wf_assembly a"
  shows "wf_assembly (fst (repair_groups nowUs a))" "same_frame (fst (repair_groups nowUs a)) a"
proof -
  let ?P = "\<lambda>acc :: assembly \<times> u32. wf_assembly (fst acc) \<and> same_frame (fst acc) a \<and>
    length (as_parity (fst acc)) = length (as_parity a)"
  have "?P (fold (repair_group nowUs) [0..<length (as_parity a)] (a, 0))"
  proof (rule fold_invariant [where Q = "\<lambda>g. g < length (as_parity a)"])
    fix g acc assume g: "g < length (as_parity a)" and acc: "?P acc"
    then show "?P (repair_group nowUs g acc)"
      using wf_repair_group [of "fst acc" g nowUs "snd acc"] by (auto intro: same_frame_trans)
  qed (use wf in auto)
  then show "wf_assembly (fst (repair_groups nowUs a))" "same_frame (fst (repair_groups nowUs a)) a"
    by (simp_all add: repair_groups_def)
qed

section \<open>The effect of a datagram on its assembly\<close>

definition assembly_after :: "video_chunk_header \<Rightarrow> bytes \<Rightarrow> u64 \<Rightarrow> assembly \<Rightarrow> assembly" where
  "assembly_after p data nowUs a = fst (repair_groups nowUs
    (if parity_packet p then the (store_parity p data a) else store_data p data nowUs a))"

lemma wf_assembly_after:
  assumes "check_chunk_header p (length data) = ChunkOk" "wf_assembly a" "assembly_matches a p"
  shows "wf_assembly (assembly_after p data nowUs a)" "same_frame (assembly_after p data nowUs a) a"
proof -
  let ?s = "if parity_packet p then the (store_parity p data a) else store_data p data nowUs a"
  have s: "wf_assembly ?s" "same_frame ?s a"
    using wf_store_data [OF assms(1) _ assms(2,3)] wf_store_parity [OF assms(1) _ assms(2,3)]
    by auto
  show "wf_assembly (assembly_after p data nowUs a)" "same_frame (assembly_after p data nowUs a) a"
    unfolding assembly_after_def
    using wf_repair_groups [OF s(1), of nowUs] s(2) by (auto intro: same_frame_trans)
qed

text \<open>
  The four outcomes of \<open>push_into_assembly\<close> once the header has been accepted: a contradicting
  assembly is discarded, and otherwise the assembly becomes \<open>assembly_after\<close>, which stays
  partial, waits for its turn, or is delivered.
\<close>

lemma push_into_assembly_cases:
  assumes ok: "check_chunk_header p (length data) = ChunkOk"
    and it: "it < length (fa_assemblies st)" and wf: "wf_assembly (fa_assemblies st ! it)"
  obtains (discarded) "\<not> assembly_matches (fa_assemblies st ! it) p"
      "sr_disposition (fst (push_into_assembly p data nowUs it result st)) = Malformed"
      "snd (push_into_assembly p data nowUs it result st) =
        st\<lparr>fa_assemblies := erase_at it (fa_assemblies st)\<rparr>"
  | (still_partial) b where "assembly_matches (fa_assemblies st ! it) p"
      "b = assembly_after p data nowUs (fa_assemblies st ! it)"
      "as_receivedCount b \<noteq> unat (as_chunkCount b)"
      "sr_disposition (fst (push_into_assembly p data nowUs it result st)) = Partial"
      "snd (push_into_assembly p data nowUs it result st) =
        st\<lparr>fa_assemblies := (fa_assemblies st)[it := b]\<rparr>"
  | (queued) b where "assembly_matches (fa_assemblies st ! it) p"
      "b = assembly_after p data nowUs (fa_assemblies st ! it)" "0 < fa_holdMaxUs st"
      "as_receivedCount b = unat (as_chunkCount b)"
      "sr_disposition (fst (push_into_assembly p data nowUs it result st)) = Queued"
      "snd (push_into_assembly p data nowUs it result st) =
        st\<lparr>fa_assemblies := (fa_assemblies st)[it := b\<lparr>as_complete := True\<rparr>]\<rparr>"
  | (delivered) b res where "assembly_matches (fa_assemblies st ! it) p"
      "b = assembly_after p data nowUs (fa_assemblies st ! it)" "fa_holdMaxUs st = 0"
      "as_receivedCount b = unat (as_chunkCount b)"
      "(res, snd (push_into_assembly p data nowUs it result st)) =
        deliver_assembly b (st\<lparr>fa_assemblies := (fa_assemblies st)[it := b]\<rparr>)"
      "sr_disposition (fst (push_into_assembly p data nowUs it result st)) = Completed"
      "sr_header (fst (push_into_assembly p data nowUs it result st)) = sr_header res"
      "sr_payload (fst (push_into_assembly p data nowUs it result st)) = sr_payload res"
      "sr_packetSeq (fst (push_into_assembly p data nowUs it result st)) = sr_packetSeq res"
      "sr_droppedPreviousIncomplete res \<Longrightarrow>
        sr_droppedPreviousIncomplete (fst (push_into_assembly p data nowUs it result st))"
proof -
  let ?a = "fa_assemblies st ! it"
  let ?b = "assembly_after p data nowUs ?a"
  let ?out = "push_into_assembly p data nowUs it result st"
  show thesis
  proof (cases "assembly_matches ?a p")
    case False
    then show thesis
      by (intro discarded) (simp_all add: push_into_assembly_def Let_def)
  next
    case True
    obtain stored where stored:
      "(if parity_packet p then store_parity p data ?a else Some (store_data p data nowUs ?a)) = Some stored"
      using wf_store_parity [OF ok _ wf True] by (cases "parity_packet p") auto
    obtain b n where bn: "repair_groups nowUs stored = (b, n)" by (cases "repair_groups nowUs stored")
    have b: "?b = b" using stored bn
      by (auto simp: assembly_after_def split: if_splits)
    note unfold = push_into_assembly_def Let_def stored bn True
    consider "as_receivedCount b \<noteq> unat (as_chunkCount b)"
      | "as_receivedCount b = unat (as_chunkCount b)" "0 < fa_holdMaxUs st"
      | "as_receivedCount b = unat (as_chunkCount b)" "fa_holdMaxUs st = 0"
      using word_neq_0_conv [of "fa_holdMaxUs st"] by blast
    then show thesis
    proof cases
      case 1
      then show thesis
        by (intro still_partial [OF True b [symmetric]]) (simp_all add: unfold)
    next
      case 2
      then show thesis
        by (intro queued [OF True b [symmetric]]) (simp_all add: unfold)
    next
      case 3
      then show thesis
        by (intro delivered [OF True b [symmetric], where res =
              "fst (deliver_assembly b (st\<lparr>fa_assemblies := (fa_assemblies st)[it := b]\<rparr>))"])
          (simp_all add: unfold case_prod_unfold, simp_all add: deliver_assembly_def Let_def)
    qed
  qed
qed

section \<open>The state invariant\<close>

definition live_ok :: "frame_assembler \<Rightarrow> assembly \<Rightarrow> bool" where
  "live_ok st a \<longleftrightarrow> wf_assembly a \<and>
    \<not> is_abandoned (ef_streamGeneration (as_header a)) (as_seq a) st \<and>
    (fa_deliveredAny st \<longrightarrow> sequence_is_newer (as_seq a) (fa_lastDeliveredSeq st)) \<and>
    (fa_saturated st \<longrightarrow> is_key a) \<and>
    (as_complete a \<longrightarrow> as_receivedCount a = unat (as_chunkCount a))"

definition bounds_ok :: "frame_assembler \<Rightarrow> bool" where
  "bounds_ok st \<longleftrightarrow> 1 \<le> fa_maxConcurrent st \<and>
    length (fa_assemblies st) \<le> fa_maxConcurrent st \<and>
    (fa_saturated st \<longrightarrow> length (fa_assemblies st) \<le> kSaturationKeyCandidates) \<and>
    length (fa_abandoned st) \<le> kAbandonedSaturationCap \<and>
    (\<not> fa_saturated st \<longrightarrow> length (fa_abandoned st) < kAbandonedSaturationCap) \<and>
    length (fa_deliveredKeyCandidates st) \<le> kDeliveredKeyCandidateRing"

definition asm_inv :: "frame_assembler \<Rightarrow> bool" where
  "asm_inv st \<longleftrightarrow> (\<forall>a\<in>set (fa_assemblies st). live_ok st a) \<and>
    distinct (map as_seq (fa_assemblies st)) \<and> bounds_ok st \<and>
    (fa_deliveredAny st \<longrightarrow>
      (\<forall>b\<in>set (fa_abandoned st). sequence_is_newer (ab_seq b) (fa_lastDeliveredSeq st)))"

text \<open>Everything the invariant asks of the other fields survives the loss of assemblies.\<close>

lemma subseq_erase_at [simp]: "subseq (erase_at i xs) xs"
proof -
  have "subseq (drop (Suc i) xs) (drop i xs)"
    using suffix_drop [of 1 "drop i xs"] by (simp add: suffix_imp_subseq add.commute)
  then have "subseq (take i xs @ drop (Suc i) xs) (take i xs @ drop i xs)"
    by (simp only: subseq_append')
  then show ?thesis by (simp add: erase_at_def)
qed

lemma subseq_tl [simp]: "subseq (tl xs) xs"
  by (cases xs) auto

lemma subseq_facts:
  assumes "subseq xs ys"
  shows "set xs \<subseteq> set ys" "length xs \<le> length ys" "distinct (map f ys) \<Longrightarrow> distinct (map f xs)"
proof -
  show "set xs \<subseteq> set ys" using assms by (metis subseq_conv_nths set_nths_subset)
  show "length xs \<le> length ys" using assms by (rule list_emb_length)
  show "distinct (map f ys) \<Longrightarrow> distinct (map f xs)"
    using subseq_map [OF assms, of f] subseqs_distinctD by (metis in_set_subseqs)
qed

lemma asm_inv_shrink:
  assumes "asm_inv st" and "subseq items (fa_assemblies st)"
  shows "asm_inv (st\<lparr>fa_assemblies := items\<rparr>)"
  using assms(1) subseq_facts [OF assms(2)]
  unfolding asm_inv_def bounds_ok_def live_ok_def is_abandoned_def
  by (auto dest: order_trans)

lemma asm_inv_raise_floor: "asm_inv st \<Longrightarrow> asm_inv (raise_saturation_floor seq st)"
  by (simp add: raise_saturation_floor_def asm_inv_def bounds_ok_def live_ok_def is_abandoned_def)

lemma fields_raise_floor [simp]:
  "fa_assemblies (raise_saturation_floor seq st) = fa_assemblies st"
  "fa_abandoned (raise_saturation_floor seq st) = fa_abandoned st"
  "fa_saturated (raise_saturation_floor seq st) = fa_saturated st"
  "fa_deliveredAny (raise_saturation_floor seq st) = fa_deliveredAny st"
  "fa_lastDeliveredSeq (raise_saturation_floor seq st) = fa_lastDeliveredSeq st"
  "fa_holdMaxUs (raise_saturation_floor seq st) = fa_holdMaxUs st"
  "fa_maxConcurrent (raise_saturation_floor seq st) = fa_maxConcurrent st"
  "fa_maxHeldBytes (raise_saturation_floor seq st) = fa_maxHeldBytes st"
  "fa_deliveredKeyCandidates (raise_saturation_floor seq st) = fa_deliveredKeyCandidates st"
  by (simp_all add: raise_saturation_floor_def)

subsection \<open>Operations outside the datagram path\<close>

lemma trim_candidates_fields:
  "subseq (fa_assemblies (trim_candidates st)) (fa_assemblies st)"
  "length (fa_assemblies (trim_candidates st)) \<le> kSaturationKeyCandidates"
  "fa_abandoned (trim_candidates st) = fa_abandoned st"
  "fa_saturated (trim_candidates st) = fa_saturated st"
  "fa_deliveredAny (trim_candidates st) = fa_deliveredAny st"
  "fa_lastDeliveredSeq (trim_candidates st) = fa_lastDeliveredSeq st"
  "fa_holdMaxUs (trim_candidates st) = fa_holdMaxUs st"
  "fa_maxConcurrent (trim_candidates st) = fa_maxConcurrent st"
  "fa_deliveredKeyCandidates (trim_candidates st) = fa_deliveredKeyCandidates st"
proof (induction st rule: trim_candidates.induct)
  case (1 st)
  { case 1 then show ?case
      using "1.IH"(1) by (subst trim_candidates.simps)
        (auto simp: Let_def intro: subseq_order.trans [OF _ subseq_erase_at]) }
  { case 2 then show ?case
      using "1.IH"(2) by (subst trim_candidates.simps) (auto simp: Let_def) }
  { case 3 then show ?case
      using "1.IH"(3) by (subst trim_candidates.simps) (auto simp: Let_def) }
  { case 4 then show ?case
      using "1.IH"(4) by (subst trim_candidates.simps) (auto simp: Let_def) }
  { case 5 then show ?case
      using "1.IH"(5) by (subst trim_candidates.simps) (auto simp: Let_def) }
  { case 6 then show ?case
      using "1.IH"(6) by (subst trim_candidates.simps) (auto simp: Let_def) }
  { case 7 then show ?case
      using "1.IH"(7) by (subst trim_candidates.simps) (auto simp: Let_def) }
  { case 8 then show ?case
      using "1.IH"(8) by (subst trim_candidates.simps) (auto simp: Let_def) }
  { case 9 then show ?case
      using "1.IH"(9) by (subst trim_candidates.simps) (auto simp: Let_def) }
qed

lemma find_index_less: "find_index P xs < length xs \<Longrightarrow> P (xs ! find_index P xs)"
  unfolding find_index_def using nth_length_takeWhile by fastforce

lemma find_index_exists: "find_index P xs < length xs \<longleftrightarrow> (\<exists>x\<in>set xs. P x)"
  unfolding find_index_def
  by (induction xs) auto

lemma find_index_le [simp]: "find_index P xs \<le> length xs"
  by (simp add: find_index_def length_takeWhile_le)

lemma erase_at_distinct:
  assumes "distinct (map f xs)" and "i < length xs"
  shows "x \<in> set (erase_at i xs) \<Longrightarrow> f x \<noteq> f (xs ! i)"
    "set (erase_at i xs) = set xs - {xs ! i}"
proof -
  have "distinct (map f (take i xs @ xs ! i # drop (Suc i) xs))"
    using assms by (simp add: id_take_nth_drop [symmetric])
  then have apart: "\<And>x. x \<in> set (erase_at i xs) \<Longrightarrow> f x \<noteq> f (xs ! i)"
    unfolding erase_at_def by (auto simp: image_iff)
  then show "x \<in> set (erase_at i xs) \<Longrightarrow> f x \<noteq> f (xs ! i)" .
  have "set xs = set (take i xs @ xs ! i # drop (Suc i) xs)"
    using assms(2) by (simp add: id_take_nth_drop [symmetric])
  with apart show "set (erase_at i xs) = set xs - {xs ! i}"
    unfolding erase_at_def by auto
qed

lemma asm_inv_reset: "asm_inv st \<Longrightarrow> asm_inv (assembler_reset st)"
  by (simp add: asm_inv_def assembler_reset_def bounds_ok_def kAbandonedSaturationCap_def)

lemma asm_inv_note_key:
  assumes "asm_inv st" shows "asm_inv (note_key_accepted generation seq st)"
proof -
  let ?abandoned = "filter (\<lambda>a. sequence_is_newer (ab_seq a) seq) (fa_abandoned st)"
  have "length ?abandoned \<le> kAbandonedSaturationCap"
    using assms le_trans [OF length_filter_le] by (auto simp: asm_inv_def bounds_ok_def)
  with assms show ?thesis
    by (auto simp: note_key_accepted_def Let_def asm_inv_def bounds_ok_def live_ok_def
        is_abandoned_def list_ex_iff)
qed

lemma asm_inv_give_up:
  assumes inv: "asm_inv st"
  shows "asm_inv (snd (give_up_incomplete generation seq nowUs st))"
proof -
  let ?items = "fa_assemblies st"
  let ?it = "find_index (\<lambda>a. as_seq a = seq \<and> ef_streamGeneration (as_header a) = generation) ?items"
  let ?erased = "st\<lparr>fa_assemblies := erase_at ?it ?items\<rparr>"
  let ?tomb = "\<lparr>ab_generation = generation, ab_seq = seq, ab_atUs = nowUs\<rparr>"
  let ?listed = "?erased\<lparr>fa_abandoned := fa_abandoned st @ [?tomb]\<rparr>"
  have erased: "asm_inv ?erased" using inv by (intro asm_inv_shrink) auto
  show ?thesis
  proof (cases "?it = length ?items \<or> as_complete (?items ! ?it) \<or> fa_saturated st")
    case True
    then show ?thesis
      using inv erased by (auto simp: give_up_incomplete_def Let_def intro: asm_inv_raise_floor)
  next
    case False
    then have less: "?it < length ?items" using find_index_le le_neq_implies_less by blast
    note found = find_index_less [OF this]
    have sub: "set (erase_at ?it ?items) \<subseteq> set ?items" by (rule set_erase_at_subset)
    have apart: "as_seq a \<noteq> seq" if "a \<in> set (erase_at ?it ?items)" for a
    proof -
      have "distinct (map as_seq ?items)" using inv by (simp add: asm_inv_def)
      from erase_at_distinct(1) [OF this less that] found show ?thesis by simp
    qed
    have live: "live_ok ?listed a" if "a \<in> set (erase_at ?it ?items)" for a
      using erased apart [OF that] that by (auto simp: asm_inv_def live_ok_def is_abandoned_def)
    have newer: "fa_deliveredAny st \<Longrightarrow>
        \<forall>b\<in>set (fa_abandoned ?listed). sequence_is_newer (ab_seq b) (fa_lastDeliveredSeq st)"
      using inv found nth_mem [OF less] by (auto simp: asm_inv_def live_ok_def)
    have few: "length (fa_abandoned st) < kAbandonedSaturationCap" "length (fa_deliveredKeyCandidates st)
        \<le> kDeliveredKeyCandidateRing" "1 \<le> fa_maxConcurrent st"
      "length (erase_at ?it ?items) \<le> fa_maxConcurrent st" "distinct (map as_seq (erase_at ?it ?items))"
      using inv erased False by (auto simp: asm_inv_def bounds_ok_def)
    show ?thesis
    proof (cases "length (fa_abandoned st @ [?tomb]) \<ge> kAbandonedSaturationCap")
      case full: True
      let ?episode = "?listed\<lparr>fa_saturated := True, fa_saturationFloorSet := False,
        fa_saturationFloorSeq := 0, fa_deliveredKeyCandidates := [],
        fa_assemblies := filter is_key (erase_at ?it ?items)\<rparr>"
      have "snd (give_up_incomplete generation seq nowUs st) = trim_candidates ?episode"
        using False full by (simp add: give_up_incomplete_def Let_def)
      moreover have "asm_inv (trim_candidates ?episode)"
      proof -
        note f = trim_candidates_fields [of ?episode]
        note kept = subseq_facts [OF f(1)]
        have dist: "distinct (map as_seq (filter is_key (erase_at ?it ?items)))"
          using subseq_facts(3) [OF subseq_filter_left] few(5) by blast
        have "live_ok (trim_candidates ?episode) a" if "a \<in> set (fa_assemblies (trim_candidates ?episode))" for a
          using kept(1) that live [of a] f by (auto simp: live_ok_def is_abandoned_def)
        moreover have "length (filter is_key (erase_at ?it ?items)) \<le> fa_maxConcurrent st"
          using few(4) length_filter_le le_trans by blast
        then have "length (fa_assemblies (trim_candidates ?episode)) \<le> fa_maxConcurrent st"
          using kept(2) by simp
        ultimately show ?thesis
          using kept(3) [of as_seq] dist f newer few
          by (auto simp: asm_inv_def bounds_ok_def kAbandonedSaturationCap_def)
      qed
      ultimately show ?thesis by simp
    next
      case room: False
      then have "snd (give_up_incomplete generation seq nowUs st) = ?listed"
        using False by (simp add: give_up_incomplete_def Let_def)
      moreover have "asm_inv ?listed"
        using live newer few False room unfolding asm_inv_def bounds_ok_def by auto
      ultimately show ?thesis by simp
    qed
  qed
qed

lemma asm_inv_deliver:
  assumes "asm_inv st" shows "asm_inv (snd (deliver_assembly a st))"
proof -
  let ?items = "filter (\<lambda>b. sequence_is_newer (as_seq b) (as_seq a)) (fa_assemblies st)"
  have "distinct (map as_seq ?items)" "length ?items \<le> length (fa_assemblies st)"
    using assms subseq_facts(3) [OF subseq_filter_left] by (auto simp: asm_inv_def)
  moreover have "length (push_delivered_key au ring) \<le> kDeliveredKeyCandidateRing" for au ring
    by (auto simp: push_delivered_key_def kDeliveredKeyCandidateRing_def)
  ultimately show ?thesis
    using assms unfolding asm_inv_def
    by (auto simp: deliver_assembly_def Let_def bounds_ok_def live_ok_def is_abandoned_def list_ex_iff
        intro: le_trans [OF length_filter_le] le_less_trans [OF length_filter_le])
qed

subsection \<open>The datagram path\<close>

lemma evict_oldest_fields:
  "subseq (fa_assemblies (evict_oldest st)) (fa_assemblies st)"
  "fa_assemblies st \<noteq> [] \<Longrightarrow> length (fa_assemblies (evict_oldest st)) < length (fa_assemblies st)"
  "evict_oldest st = st\<lparr>fa_assemblies := fa_assemblies (evict_oldest st)\<rparr>"
  using oldest_index_less [of "fa_assemblies st"]
  by (auto simp: evict_oldest_def length_erase_at)

lemma evict_for_bytes_fields:
  "subseq (fa_assemblies (evict_for_bytes sz st)) (fa_assemblies st)"
  "evict_for_bytes sz st = st\<lparr>fa_assemblies := fa_assemblies (evict_for_bytes sz st)\<rparr>"
proof (induction sz st rule: evict_for_bytes.induct)
  case (1 sz st)
  let ?c = "0 < fa_holdMaxUs st \<and> 0 < fa_maxHeldBytes st \<and> fa_assemblies st \<noteq> [] \<and>
    held_bytes (fa_assemblies st) + unat sz > fa_maxHeldBytes st"
  note step = evict_for_bytes.simps [of sz st] and sub = evict_oldest_fields(1,3) [of st]
  { case 1 then show ?case
      using "1.IH"(1) sub(1) by (subst step) (auto intro: subseq_order.trans) }
  { case 2
    show ?case
    proof (cases ?c)
      case True
      then have "evict_for_bytes sz st = (evict_oldest st)\<lparr>fa_assemblies :=
          fa_assemblies (evict_for_bytes sz (evict_oldest st))\<rparr>"
        using "1.IH"(2) step by simp
      with True step show ?thesis by (simp add: evict_oldest_def split: if_splits)
    next
      case False
      then have "evict_for_bytes sz st = st" by (subst step) (simp only: if_False)
      then show ?thesis by simp
    qed }
qed

lemma make_room_fields:
  "subseq (fa_assemblies (make_room sz st)) (fa_assemblies st)"
  "make_room sz st = st\<lparr>fa_assemblies := fa_assemblies (make_room sz st)\<rparr>"
  "1 \<le> fa_maxConcurrent st \<Longrightarrow> length (fa_assemblies st) \<le> fa_maxConcurrent st \<Longrightarrow>
    length (fa_assemblies (make_room sz st)) < fa_maxConcurrent st"
proof -
  let ?st1 = "if length (fa_assemblies st) \<ge> fa_maxConcurrent st then evict_oldest st else st"
  have room: "make_room sz st = evict_for_bytes sz ?st1"
    by (simp add: make_room_def Let_def)
  note bytes = evict_for_bytes_fields [of sz ?st1]
  have sub: "subseq (fa_assemblies ?st1) (fa_assemblies st)"
    using evict_oldest_fields(1) by simp
  show "subseq (fa_assemblies (make_room sz st)) (fa_assemblies st)"
    unfolding room using bytes(1) sub by (rule subseq_order.trans)
  have "?st1 = st\<lparr>fa_assemblies := fa_assemblies ?st1\<rparr>"
    using evict_oldest_fields(3) [of st] by simp
  then obtain X where X: "?st1 = st\<lparr>fa_assemblies := X\<rparr>" by blast
  obtain Y where "evict_for_bytes sz ?st1 = ?st1\<lparr>fa_assemblies := Y\<rparr>" using bytes(2) by blast
  then have "make_room sz st = st\<lparr>fa_assemblies := Y\<rparr>" unfolding room X by simp
  then show "make_room sz st = st\<lparr>fa_assemblies := fa_assemblies (make_room sz st)\<rparr>" by simp
  assume "1 \<le> fa_maxConcurrent st" "length (fa_assemblies st) \<le> fa_maxConcurrent st"
  then have "length (fa_assemblies ?st1) < fa_maxConcurrent st"
    using evict_oldest_fields(2) [of st] by (cases "fa_assemblies st") auto
  then show "length (fa_assemblies (make_room sz st)) < fa_maxConcurrent st"
    unfolding room using subseq_facts(2) [OF bytes(1)] by simp
qed

lemma episode_admission_cases:
  assumes inv: "asm_inv st" and adm: "episode_admission admit p st = Admitted st'"
  shows "asm_inv st'" "subseq (fa_assemblies st') (fa_assemblies st)"
    "fa_abandoned st' = fa_abandoned st" "fa_saturated st' = fa_saturated st"
    "fa_deliveredAny st' = fa_deliveredAny st" "fa_lastDeliveredSeq st' = fa_lastDeliveredSeq st"
    "fa_holdMaxUs st' = fa_holdMaxUs st" "fa_maxConcurrent st' = fa_maxConcurrent st"
    "(\<exists>a\<in>set (fa_assemblies st). as_seq a = vc_seq p) \<Longrightarrow> st' = st"
    "fa_saturated st \<Longrightarrow> \<not> (\<exists>a\<in>set (fa_assemblies st). as_seq a = vc_seq p) \<Longrightarrow>
      vc_flags p AND 1 \<noteq> 0 \<and> length (fa_assemblies st') < kSaturationKeyCandidates"
proof -
  let ?items = "fa_assemblies st"
  let ?live = "\<exists>a\<in>set ?items. as_seq a = vc_seq p"
  let ?swap = "(raise_saturation_floor (as_seq (?items ! oldest_index ?items)) st)
    \<lparr>fa_assemblies := erase_at (oldest_index ?items) ?items\<rparr>"
  consider (same) "st' = st" "?live \<or> \<not> fa_saturated st"
    | (key) "st' = st" "fa_saturated st" "vc_flags p AND 1 \<noteq> 0" "length ?items < kSaturationKeyCandidates"
    | (swap) "st' = ?swap" "\<not> ?live" "fa_saturated st" "vc_flags p AND 1 \<noteq> 0" 
      "2 \<le> length ?items"
    using adm
    by (auto simp: episode_admission_def Let_def list_ex_iff kSaturationKeyCandidates_def
        split: if_splits)
  note cases = this
  then show "asm_inv st'" "subseq (fa_assemblies st') (fa_assemblies st)"
    "fa_abandoned st' = fa_abandoned st" "fa_saturated st' = fa_saturated st"
    "fa_deliveredAny st' = fa_deliveredAny st" "fa_lastDeliveredSeq st' = fa_lastDeliveredSeq st"
    "fa_holdMaxUs st' = fa_holdMaxUs st" "fa_maxConcurrent st' = fa_maxConcurrent st"
    "?live \<Longrightarrow> st' = st"
    using asm_inv_shrink [OF asm_inv_raise_floor [OF inv], of "erase_at (oldest_index ?items) ?items"]
    by (cases; simp add: inv)+
  show "fa_saturated st \<Longrightarrow> \<not> ?live \<Longrightarrow>
      vc_flags p AND 1 \<noteq> 0 \<and> length (fa_assemblies st') < kSaturationKeyCandidates"
  proof -
    assume sat: "fa_saturated st" and none: "\<not> ?live"
    have few: "length ?items \<le> kSaturationKeyCandidates"
      using inv sat by (simp add: asm_inv_def bounds_ok_def)
    from cases show ?thesis
    proof cases
      case swap
      then show ?thesis
        using few length_erase_at [OF oldest_index_less [of ?items]]
        by (cases ?items) auto
    qed (use sat none in auto)
  qed
qed

lemma asm_inv_replace:
  assumes inv: "asm_inv st" and it: "it < length (fa_assemblies st)"
    and b: "wf_assembly b" "same_frame b (fa_assemblies st ! it)"
      "as_complete b \<Longrightarrow> as_receivedCount b = unat (as_chunkCount b)"
  shows "asm_inv (st\<lparr>fa_assemblies := (fa_assemblies st)[it := b]\<rparr>)"
proof -
  let ?items = "fa_assemblies st"
  have "live_ok st (?items ! it)" using inv it by (simp add: asm_inv_def)
  then have b_ok: "live_ok st b"
    using b by (auto simp: live_ok_def same_frame_def is_key_def)
  have "map as_seq (?items[it := b]) = map as_seq ?items"
    using b(2) it by (simp add: map_update same_frame_def list_update_same_conv)
  then have "distinct (map as_seq (?items[it := b]))" using inv by (simp add: asm_inv_def)
  moreover have "live_ok st a" if "a \<in> set (?items[it := b])" for a
    using that set_update_subset_insert [of ?items it b] b_ok inv by (auto simp: asm_inv_def)
  ultimately show ?thesis
    using inv by (simp add: asm_inv_def bounds_ok_def live_ok_def is_abandoned_def)
qed

text \<open>Storing and repairing only add chunks, and leave the completion mark alone.\<close>

definition progress :: "assembly \<Rightarrow> assembly \<Rightarrow> bool" where
  "progress a b \<longleftrightarrow> as_complete b = as_complete a \<and> as_receivedCount a \<le> as_receivedCount b"

lemma progress_refl [simp]: "progress a a" by (simp add: progress_def)

lemma progress_trans: "progress a b \<Longrightarrow> progress b c \<Longrightarrow> progress a c" by (simp add: progress_def)

lemma progress_repair_group: "progress a (fst (repair_group nowUs g (a, r)))"
  by (cases rule: repair_group_cases [of nowUs g a r]) (simp_all add: progress_def)

lemma progress_repair_groups: "progress a (fst (repair_groups nowUs a))"
proof -
  have "progress a (fst (fold (repair_group nowUs) gs acc))" if "progress a (fst acc)" for gs acc
    using that
  proof (induction gs arbitrary: acc)
    case (Cons g gs)
    have "progress a (fst (repair_group nowUs g acc))"
      using Cons.prems progress_repair_group [of "fst acc" nowUs g "snd acc"]
      by (auto intro: progress_trans)
    then show ?case using Cons.IH by simp
  qed simp
  then show ?thesis by (simp add: repair_groups_def)
qed

lemma progress_assembly_after:
  assumes "check_chunk_header p (length data) = ChunkOk" "wf_assembly a" "assembly_matches a p"
  shows "progress a (assembly_after p data nowUs a)"
proof -
  let ?s = "if parity_packet p then the (store_parity p data a) else store_data p data nowUs a"
  have "progress a ?s"
    using wf_store_parity [OF assms(1) _ assms(2,3)]
    by (auto simp: progress_def store_data_def store_parity_def Let_def split: if_splits)
  then show ?thesis
    unfolding assembly_after_def using progress_repair_groups by (rule progress_trans)
qed

lemma received_le_count: "wf_assembly a \<Longrightarrow> as_receivedCount a \<le> unat (as_chunkCount a)"
  by (auto simp: wf_assembly_def Let_def count_true_def) (metis length_filter_le)

lemma asm_inv_push_into:
  assumes ok: "check_chunk_header p (length data) = ChunkOk" and inv: "asm_inv st"
    and it: "it < length (fa_assemblies st)"
  shows "asm_inv (snd (push_into_assembly p data nowUs it result st))"
proof -
  let ?a = "fa_assemblies st ! it"
  have live: "live_ok st ?a" using inv it by (simp add: asm_inv_def)
  then have wf: "wf_assembly ?a" by (simp add: live_ok_def)
  from ok it wf show ?thesis
  proof (cases rule: push_into_assembly_cases [where nowUs = nowUs and result = result])
    case discarded
    then show ?thesis using inv by (simp add: asm_inv_shrink)
  next
    case (still_partial b)
    note after = wf_assembly_after [OF ok wf still_partial(1), of nowUs, folded still_partial(2)]
      and progress = progress_assembly_after [OF ok wf still_partial(1), of nowUs, folded still_partial(2)]
    have "\<not> as_complete b"
      using live progress still_partial(3) received_le_count [OF after(1)] after(2)
      by (auto simp: live_ok_def progress_def same_frame_def)
    then show ?thesis unfolding still_partial(5)
      using after by (intro asm_inv_replace [OF inv it]) auto
  next
    case (queued b)
    note after = wf_assembly_after [OF ok wf queued(1), of nowUs, folded queued(2)]
    have "wf_assembly (b\<lparr>as_complete := True\<rparr>)" "same_frame (b\<lparr>as_complete := True\<rparr>) ?a"
      using after by (simp_all add: wf_assembly_def same_frame_def)
    then show ?thesis unfolding queued(6)
      using asm_inv_replace [OF inv it] queued(4) by simp
  next
    case (delivered b res)
    note after = wf_assembly_after [OF ok wf delivered(1), of nowUs, folded delivered(2)]
    have "asm_inv (st\<lparr>fa_assemblies := (fa_assemblies st)[it := b]\<rparr>)"
      using after delivered(4) by (intro asm_inv_replace [OF inv it]) auto
    then show ?thesis
      using asm_inv_deliver [of _ b] delivered(5) by (metis snd_conv)
  qed
qed

lemma asm_inv_append:
  assumes inv: "asm_inv st" and a: "live_ok st a" and new: "as_seq a \<notin> as_seq ` set (fa_assemblies st)"
    and room: "length (fa_assemblies st) < fa_maxConcurrent st"
      "fa_saturated st \<Longrightarrow> length (fa_assemblies st) < kSaturationKeyCandidates"
  shows "asm_inv (st\<lparr>fa_assemblies := fa_assemblies st @ [a]\<rparr>)"
  using assms by (auto simp: asm_inv_def bounds_ok_def live_ok_def is_abandoned_def)

lemma is_key_create_assembly: "vc_flags p AND 1 \<noteq> 0 \<Longrightarrow> is_key (create_assembly p nowUs)"
  by (simp add: is_key_def create_assembly_def Let_def kEncodedFrameFlagKeyFrame_def
      kEncodedFrameFlagSynthetic_def)

text \<open>
  Where an accepted datagram goes: it is refused with the state unchanged, or it enters one
  assembly of a state that agrees with the old one outside the assemblies, the live assembly
  of its sequence number or a freshly created one.
\<close>

definition same_session :: "frame_assembler \<Rightarrow> frame_assembler \<Rightarrow> bool" where
  "same_session st st' \<longleftrightarrow> fa_abandoned st' = fa_abandoned st \<and> fa_saturated st' = fa_saturated st \<and>
    fa_deliveredAny st' = fa_deliveredAny st \<and> fa_lastDeliveredSeq st' = fa_lastDeliveredSeq st \<and>
    fa_holdMaxUs st' = fa_holdMaxUs st \<and> fa_maxConcurrent st' = fa_maxConcurrent st"

lemma push_accepted_cases:
  assumes ok: "check_chunk_header p (length data) = ChunkOk" and inv: "asm_inv st"
  obtains (refused) r where "push_accepted admit p data nowUs result st = (r, st)"
      "sr_disposition r = Ignored"
      "is_abandoned (vc_streamGeneration p) (vc_seq p) st \<or> fa_saturated st \<or>
       fa_deliveredAny st \<and> \<not> sequence_is_newer (vc_seq p) (fa_lastDeliveredSeq st)"
  | (live) it r where "push_accepted admit p data nowUs result st = push_into_assembly p data nowUs it r st"
      "it < length (fa_assemblies st)" "as_seq (fa_assemblies st ! it) = vc_seq p"
      "\<not> is_abandoned (vc_streamGeneration p) (vc_seq p) st"
  | (created) st' r where "push_accepted admit p data nowUs result st =
        push_into_assembly p data nowUs (length (fa_assemblies st') - 1) r st'"
      "asm_inv st'" "same_session st st'" "fa_assemblies st' \<noteq> []"
      "last (fa_assemblies st') = create_assembly p nowUs"
      "subseq (butlast (fa_assemblies st')) (fa_assemblies st)"
      "\<not> is_abandoned (vc_streamGeneration p) (vc_seq p) st"
      "vc_seq p \<notin> as_seq ` set (fa_assemblies st)"
proof -
  let ?stale = "is_abandoned (vc_streamGeneration p) (vc_seq p) st \<or>
    fa_deliveredAny st \<and> \<not> sequence_is_newer (vc_seq p) (fa_lastDeliveredSeq st)"
  show thesis
  proof (cases ?stale)
    case True
    then show thesis by (intro refused) (auto simp: push_accepted_def)
  next
    case fresh: False
    show thesis
    proof (cases "episode_admission admit p st")
      case (Refused reordered)
      then have "fa_saturated st" by (auto simp: episode_admission_def Let_def split: if_splits)
      then show thesis using fresh Refused by (intro refused) (auto simp: push_accepted_def)
    next
      case (Admitted st1)
      note adm = episode_admission_cases [OF inv Admitted]
      let ?it = "find_index (\<lambda>a. as_seq a = vc_seq p) (fa_assemblies st1)"
      let ?roomy = "make_room (vc_payloadSize p) st1"
      let ?new = "?roomy\<lparr>fa_assemblies := fa_assemblies ?roomy @ [create_assembly p nowUs]\<rparr>"
      have same1: "same_session st st1" using adm by (simp add: same_session_def)
      show thesis
      proof (cases "?it < length (fa_assemblies st1)")
        case True
        then have "as_seq (fa_assemblies st1 ! ?it) = vc_seq p" by (rule find_index_less)
        moreover have "st1 = st"
          using True subseq_facts(1) [OF adm(2)] by (intro adm(9)) (auto simp: find_index_exists)
        ultimately show thesis
          using fresh Admitted True by (intro live [of ?it]) (auto simp: push_accepted_def Let_def)
      next
        case False
        then have absent: "vc_seq p \<notin> as_seq ` set (fa_assemblies st1)"
          by (auto simp: find_index_exists)
        have absent0: "\<not> (\<exists>a\<in>set (fa_assemblies st). as_seq a = vc_seq p)"
        proof
          assume live: "\<exists>a\<in>set (fa_assemblies st). as_seq a = vc_seq p"
          then have "st1 = st" by (rule adm(9))
          with live absent show False by force
        qed
        note room = make_room_fields(1,2) [of "vc_payloadSize p" st1]
        have roomy: "asm_inv ?roomy" using asm_inv_shrink [OF adm(1) room(1)] room(2) by simp
        have same: "same_session st ?roomy"
          using same1 unfolding same_session_def by (subst (1 2 3 4 5 6) room(2)) simp
        have "asm_inv ?new"
        proof (rule asm_inv_append [OF roomy])
          show "live_ok ?roomy (create_assembly p nowUs)"
            using fresh wf_create_assembly [OF ok] same adm(10) absent0
              is_key_create_assembly [of p nowUs]
            by (auto simp: live_ok_def is_abandoned_def create_assembly_def Let_def same_session_def)
          show "as_seq (create_assembly p nowUs) \<notin> as_seq ` set (fa_assemblies ?roomy)"
            using absent subseq_facts(1) [OF room(1)] wf_create_assembly(3) [OF ok] by auto
          show "length (fa_assemblies ?roomy) < fa_maxConcurrent ?roomy"
            using make_room_fields(3) [of st1] adm(1,8) same
            by (simp add: asm_inv_def bounds_ok_def same_session_def)
          show "fa_saturated ?roomy \<Longrightarrow> length (fa_assemblies ?roomy) < kSaturationKeyCandidates"
            using adm(10) absent0 same subseq_facts(2) [OF room(1)] by (auto simp: same_session_def)
        qed
        moreover have "same_session st ?new" using same by (simp add: same_session_def)
        moreover have "subseq (fa_assemblies ?roomy) (fa_assemblies st)"
          using room(1) adm(2) by (rule subseq_order.trans)
        ultimately show thesis
          using fresh Admitted False absent0
          by (intro created [where st' = ?new]) (auto simp: push_accepted_def Let_def)
      qed
    qed
  qed
qed

lemma asm_inv_push_accepted:
  assumes ok: "check_chunk_header p (length data) = ChunkOk" and inv: "asm_inv st"
  shows "asm_inv (snd (push_accepted admit p data nowUs result st))"
  using ok inv
  by (cases rule: push_accepted_cases [where admit = admit and nowUs = nowUs and result = result])
    (auto simp: inv intro: asm_inv_push_into [OF ok])

lemma asm_inv_push: "asm_inv st \<Longrightarrow> asm_inv (snd (push_datagram admit data nowUs st))"
  using asm_inv_push_accepted [of "decode_video_chunk_header data" data st]
  by (auto simp: push_datagram_def Let_def split: chunk_verdict.split)

end
