(* ===== verification/AssemblerSteps.thy ===== *)
theory AssemblerSteps
  imports AssemblerInv
begin

text \<open>
  The assembler as a transition system. Sequence order on a window, in-order delivery and
  termination of \<open>PopDelivery\<close>, the step relation of the assembler's operations with the
  deliveries each step hands out, and what holds of every run: the invariant, deliveries
  in strictly increasing sequence order, and tombstones that stay shut until delivery has
  passed them.
\<close>

section \<open>Sequence order on a window\<close>

definition seq_offset :: "u32 \<Rightarrow> u32 \<Rightarrow> nat" where
  "seq_offset base x = unat (x - base)"

lemma unat_minus_u32:
  "unat (a - b :: u32) =
    (if unat b \<le> unat a then unat a - unat b else unat a + 2 ^ 32 - unat b)"
  by (simp add: unat_sub_if')

lemma sequence_is_newer_offset:
  assumes "sequence_is_newer x base" and "sequence_is_newer y base"
  shows "sequence_is_newer x y \<longleftrightarrow> seq_offset base y < seq_offset base x"
proof -
  have x: "unat (x - base) < 2 ^ 31" and y: "unat (y - base) < 2 ^ 31"
    using assms by (simp_all add: sequence_is_newer_iff)
  have "x - y = (x - base) - (y - base)" by simp
  then have diff: "unat (x - y) = (if unat (y - base) \<le> unat (x - base)
      then unat (x - base) - unat (y - base) else unat (x - base) + 2 ^ 32 - unat (y - base))"
    by (simp only: unat_minus_u32)
  have neq: "x \<noteq> y \<longleftrightarrow> unat (x - base) \<noteq> unat (y - base)"
    by (simp flip: word_unat_eq_iff)
  have "sequence_is_newer x y \<longleftrightarrow> unat (x - base) \<noteq> unat (y - base) \<and>
      (if unat (y - base) \<le> unat (x - base) then unat (x - base) - unat (y - base)
       else unat (x - base) + 2 ^ 32 - unat (y - base)) < 2 ^ 31"
    by (simp only: sequence_is_newer_iff diff neq)
  moreover have "dx \<noteq> dy \<and> (if dy \<le> dx then dx - dy else dx + 2 ^ 32 - dy) < 2 ^ 31 \<longleftrightarrow> dy < dx"
    if "dx < 2 ^ 31" "dy < 2 ^ 31" for dx dy :: nat using that by auto
  ultimately show ?thesis using x y by (simp only: seq_offset_def)
qed

lemma seq_offset_inj: "seq_offset base x = seq_offset base y \<Longrightarrow> x = y"
  by (simp add: seq_offset_def word_unat_eq_iff [symmetric])

text \<open>
  \<open>min_element\<close> finds the oldest assembly when all sequence numbers lie in one window.
\<close>

definition in_window :: "u32 \<Rightarrow> assembly list \<Rightarrow> bool" where
  "in_window base items \<longleftrightarrow> (\<forall>a\<in>set items. sequence_is_newer (as_seq a) base)"

lemma fold_min:
  assumes "\<And>i j. R i \<Longrightarrow> R j \<Longrightarrow> c i j \<longleftrightarrow> (k i :: nat) < k j"
    and "R b" and "\<And>i. i \<in> set is \<Longrightarrow> R i"
  shows "\<forall>i\<in>insert b (set is). k (fold (\<lambda>i best. if c i best then i else best) is b) \<le> k i"
  using assms(2,3)
proof (induction "is" arbitrary: b)
  case (Cons i "is")
  let ?b = "if c i b then i else b"
  have "R ?b" using Cons.prems by auto
  then have "\<forall>j\<in>insert ?b (set is). k (fold (\<lambda>i best. if c i best then i else best) is ?b) \<le> k j"
    using Cons by auto
  moreover have "k ?b \<le> k b" "k ?b \<le> k i" using assms(1) [of i b] Cons.prems by auto
  ultimately show ?case by (auto intro: le_trans)
qed simp

lemma oldest_index_minimal:
  assumes "in_window base items" and "a \<in> set items"
  shows "seq_offset base (as_seq (items ! oldest_index items)) \<le> seq_offset base (as_seq a)"
proof -
  let ?k = "\<lambda>i. seq_offset base (as_seq (items ! i))"
  from assms(2) have "0 < length items" by auto
  then have "\<forall>i\<in>insert 0 (set [1..<length items]). ?k (oldest_index items) \<le> ?k i"
    unfolding oldest_index_def
    using assms(1) by (intro fold_min [where R = "\<lambda>i. i < length items"])
      (auto simp: in_window_def sequence_is_newer_offset)
  moreover obtain i where "i < length items" "items ! i = a"
    using assms(2) by (auto simp: in_set_conv_nth)
  moreover have "i \<in> insert 0 (set [1..<length items])" using calculation by auto
  ultimately show ?thesis by blast
qed

lemma newest_complete_key_Some:
  assumes "newest_complete_key items = Some k"
  shows "k \<in> set items" "as_complete k" "is_key k"
proof -
  let ?f = "\<lambda>a best. if \<not> as_complete a \<or> \<not> is_key a then best
    else case best of None \<Rightarrow> Some a
      | Some b \<Rightarrow> if sequence_is_newer (as_seq a) (as_seq b) then Some a else best"
  have "fold ?f xs best = Some k \<Longrightarrow> best = Some k \<or> (k \<in> set xs \<and> as_complete k \<and> is_key k)" for xs best
  proof (induction xs arbitrary: best)
    case (Cons a xs)
    then show ?case
      by (auto split: if_splits option.splits dest: Cons.IH)
  qed simp
  from this [of items None] assms show "k \<in> set items" "as_complete k" "is_key k"
    by (auto simp: newest_complete_key_def)
qed

section \<open>PopDelivery returns\<close>

lemma pop_delivery_loop_returns:
  assumes "in_window base (fa_assemblies st)" and "distinct (map as_seq (fa_assemblies st))"
    and "length (fa_assemblies st) < fuel"
  shows "\<exists>out. pop_delivery_loop fuel nowUs repairNonKey st = Some out"
  using assms
proof (induction fuel arbitrary: st)
  case (Suc fuel)
  let ?items = "fa_assemblies st"
  let ?i = "oldest_index ?items"
  show ?case
  proof (cases "?items = [] \<or> as_complete (?items ! ?i) \<or> \<not> list_ex as_complete ?items")
    case True
    then show ?thesis by (auto simp: Let_def case_prod_unfold)
  next
    case busy: False
    then have i: "?i < length ?items" by (simp add: oldest_index_less)
    show ?thesis
    proof (cases "newest_complete_key ?items")
      case None
      let ?st = "st\<lparr>fa_assemblies := erase_at ?i ?items\<rparr>"
      have "\<exists>out. pop_delivery_loop fuel nowUs repairNonKey ?st = Some out"
        using Suc.prems i set_erase_at_subset [of ?i ?items] subseq_facts(3) [OF subseq_erase_at]
        by (intro Suc.IH) (auto simp: in_window_def length_erase_at)
      with busy None show ?thesis by (auto simp: Let_def)
    next
      case (Some key)
      note k = newest_complete_key_Some [OF Some]
      let ?rest = "filter (\<lambda>a. \<not> sequence_is_newer (as_seq key) (as_seq a)) ?items"
      have "?items ! ?i \<noteq> key" using busy k(2) by auto
      then have "as_seq (?items ! ?i) \<noteq> as_seq key"
        using Suc.prems(2) i k(1) by (auto simp: distinct_map inj_on_eq_iff)
      moreover have "seq_offset base (as_seq (?items ! ?i)) \<le> seq_offset base (as_seq key)"
        using oldest_index_minimal [OF Suc.prems(1) k(1)] .
      ultimately have "sequence_is_newer (as_seq key) (as_seq (?items ! ?i))"
        using Suc.prems(1) i k(1) seq_offset_inj [of base "as_seq (?items ! ?i)" "as_seq key"]
        by (subst sequence_is_newer_offset [of _ base]) (auto simp: in_window_def less_le)
      then have "length ?rest < length ?items"
        using i by (intro length_filter_less [of "?items ! ?i"]) auto
      then have "\<exists>out. pop_delivery_loop fuel nowUs repairNonKey (st\<lparr>fa_assemblies := ?rest\<rparr>) = Some out"
        using Suc.prems subseq_facts(3) [OF subseq_filter_left]
        by (intro Suc.IH) (auto simp: in_window_def)
      with busy Some show ?thesis by (auto simp: Let_def)
    qed
  qed
qed simp

text \<open>What a returning \<open>PopDelivery\<close> has done: dropped some assemblies, and delivered at most one.\<close>

lemma pop_delivery_loop_result:
  assumes "pop_delivery_loop fuel nowUs repairNonKey st = Some (out, st')"
  shows "\<exists>items. subseq items (fa_assemblies st) \<and>
    (case out of None \<Rightarrow> st' = st\<lparr>fa_assemblies := items\<rparr>
     | Some r \<Rightarrow> \<exists>a\<in>set items. as_complete a \<and>
         (r, st') = deliver_assembly a (st\<lparr>fa_assemblies := items\<rparr>))"
  using assms
proof (induction fuel arbitrary: st)
  case (Suc fuel)
  let ?items = "fa_assemblies st"
  let ?i = "oldest_index ?items"
  have here: ?case if "pop_delivery_loop fuel nowUs repairNonKey (st\<lparr>fa_assemblies := xs\<rparr>) = Some (out, st')"
    and "subseq xs ?items" for xs
    using Suc.IH [OF that(1)] subseq_order.trans [OF _ that(2)] by (cases out) auto
  consider (idle) "out = None" "st' = st"
    | (deliver) "?items \<noteq> []" "as_complete (?items ! ?i)"
    | (drop) xs where "subseq xs ?items"
        "pop_delivery_loop fuel nowUs repairNonKey (st\<lparr>fa_assemblies := xs\<rparr>) = Some (out, st')"
  proof (cases "?items = [] \<or> as_complete (?items ! ?i) \<or> \<not> list_ex as_complete ?items")
    case True
    then show thesis using Suc.prems idle deliver by (auto simp: Let_def split: if_splits)
  next
    case busy: False
    show thesis
    proof (cases "newest_complete_key ?items")
      case (Some key)
      then show thesis
        using Suc.prems busy by (intro drop [OF subseq_filter_left]) (simp add: Let_def)
    next
      case None
      show thesis
      proof (cases "(repairNonKey \<or> is_key (?items ! ?i)) \<and> 0 < fa_holdMaxUs st \<and>
          nowUs < as_firstPacketUs (?items ! ?i) + fa_holdMaxUs st")
        case True
        then show thesis using Suc.prems busy None idle by (simp add: Let_def)
      next
        case False
        then have "pop_delivery_loop (Suc fuel) nowUs repairNonKey st =
            pop_delivery_loop fuel nowUs repairNonKey (st\<lparr>fa_assemblies := erase_at ?i ?items\<rparr>)"
          using busy None by (simp only: pop_delivery_loop.simps Let_def option.case if_False) simp
        with Suc.prems show thesis by (intro drop [OF subseq_erase_at]) simp
      qed
    qed
  qed
  then show ?case
  proof cases
    case idle
    then show ?thesis by (intro exI [of _ ?items]) simp
  next
    case deliver
    then have "?items ! ?i \<in> set ?items" by (simp add: oldest_index_less)
    moreover have "\<exists>r. out = Some r \<and> (r, st') = deliver_assembly (?items ! ?i) st"
      using Suc.prems deliver by (auto simp: Let_def split: prod.splits)
    ultimately show ?thesis using deliver(2) by (intro exI [of _ ?items]) auto
  next
    case drop
    then show ?thesis using here by blast
  qed
qed simp

lemma asm_inv_pop:
  assumes inv: "asm_inv st" and pop: "pop_delivery_loop fuel nowUs repairNonKey st = Some (out, st')"
  shows "asm_inv st'"
proof -
  obtain items where sub: "subseq items (fa_assemblies st)" and
    out: "case out of None \<Rightarrow> st' = st\<lparr>fa_assemblies := items\<rparr>
     | Some r \<Rightarrow> \<exists>a\<in>set items. as_complete a \<and>
         (r, st') = deliver_assembly a (st\<lparr>fa_assemblies := items\<rparr>)"
    using pop_delivery_loop_result [OF pop] by blast
  have "asm_inv (st\<lparr>fa_assemblies := items\<rparr>)" using inv sub by (rule asm_inv_shrink)
  with out show ?thesis
    by (cases out) (auto dest: asm_inv_deliver, metis asm_inv_deliver snd_conv)
qed

section \<open>Steps and runs\<close>

datatype asm_op = Push "u64 \<Rightarrow> bool" bytes u64 | Pop u64 bool | GiveUp u64 u32 u64 | KeyAccepted u64 u32

inductive asm_step ::
  "frame_assembler \<Rightarrow> asm_op \<Rightarrow> assembly_step_result list \<Rightarrow> frame_assembler \<Rightarrow> bool" where
  step_push: "push_datagram admit data nowUs st = (r, st') \<Longrightarrow>
    asm_step st (Push admit data nowUs) (if sr_disposition r = Completed then [r] else []) st'"
| step_pop: "pop_delivery nowUs repairNonKey st = Some (out, st') \<Longrightarrow>
    asm_step st (Pop nowUs repairNonKey) (case out of None \<Rightarrow> [] | Some r \<Rightarrow> [r]) st'"
| step_give_up: "give_up_incomplete generation seq nowUs st = (gone, st') \<Longrightarrow>
    asm_step st (GiveUp generation seq nowUs) [] st'"
| step_key: "asm_step st (KeyAccepted generation seq) [] (note_key_accepted generation seq st)"

inductive_cases asm_push_cases [elim]: "asm_step st (Push admit data nowUs) outs st'"
inductive_cases asm_pop_cases [elim]: "asm_step st (Pop nowUs repairNonKey) outs st'"

inductive asm_run :: "frame_assembler \<Rightarrow> assembly_step_result list \<Rightarrow> frame_assembler \<Rightarrow> bool" where
  run_start: "asm_run st [] st"
| run_step: "asm_run st outs st' \<Longrightarrow> asm_step st' op outs' st'' \<Longrightarrow> asm_run st (outs @ outs') st''"

text \<open>A configured assembler before its first datagram.\<close>

definition fresh_assembler :: "u64 \<Rightarrow> nat \<Rightarrow> nat \<Rightarrow> frame_assembler" where
  "fresh_assembler maxHoldUs maxConcurrent maxHeldBytes =
    configure_in_order_hold maxHoldUs maxConcurrent maxHeldBytes initial_assembler"

lemma asm_inv_fresh [simp]: "asm_inv (fresh_assembler hold conc held)"
  by (simp add: asm_inv_def bounds_ok_def fresh_assembler_def configure_in_order_hold_def
      initial_assembler_def kAbandonedSaturationCap_def)

lemma asm_inv_step: "asm_step st op outs st' \<Longrightarrow> asm_inv st \<Longrightarrow> asm_inv st'"
proof (induction rule: asm_step.induct)
  case (step_push admit data nowUs st r st')
  then show ?case using asm_inv_push [of st admit data nowUs] by simp
next
  case (step_pop nowUs repairNonKey st out st')
  then show ?case using asm_inv_pop unfolding pop_delivery_def by blast
next
  case (step_give_up generation seq nowUs st gone st')
  then show ?case using asm_inv_give_up [of st generation seq nowUs] by simp
next
  case (step_key st generation seq)
  then show ?case by (simp add: asm_inv_note_key)
qed

lemma asm_inv_run: "asm_run st outs st' \<Longrightarrow> asm_inv st \<Longrightarrow> asm_inv st'"
  by (induction rule: asm_run.induct) (auto dest: asm_inv_step)

section \<open>Deliveries\<close>

definition delivers :: "frame_assembler \<Rightarrow> assembly_step_result \<Rightarrow> frame_assembler \<Rightarrow> bool" where
  "delivers st r st' \<longleftrightarrow> sr_disposition r = Completed \<and> fa_deliveredAny st' \<and>
    fa_lastDeliveredSeq st' = sr_packetSeq r \<and>
    (fa_deliveredAny st \<longrightarrow> sequence_is_newer (sr_packetSeq r) (fa_lastDeliveredSeq st) \<and>
      (sr_packetSeq r \<noteq> fa_lastDeliveredSeq st + 1 \<longrightarrow> sr_droppedPreviousIncomplete r)) \<and>
    (\<forall>a\<in>set (fa_assemblies st'). sequence_is_newer (as_seq a) (sr_packetSeq r)) \<and>
    fa_abandoned st' =
      filter (\<lambda>b. sequence_is_newer (ab_seq b) (sr_packetSeq r)) (fa_abandoned st)"

lemma deliver_assembly_delivers:
  assumes "(r, st') = deliver_assembly a st" and "live_ok st0 a"
    and "fa_deliveredAny st = fa_deliveredAny st0" "fa_lastDeliveredSeq st = fa_lastDeliveredSeq st0"
      "fa_abandoned st = fa_abandoned st0"
  shows "delivers st0 r st'"
  using assms by (auto simp: delivers_def deliver_assembly_def Let_def live_ok_def)

definition same_delivery :: "frame_assembler \<Rightarrow> frame_assembler \<Rightarrow> bool" where
  "same_delivery st st' \<longleftrightarrow> fa_deliveredAny st' = fa_deliveredAny st \<and>
    fa_lastDeliveredSeq st' = fa_lastDeliveredSeq st"

definition same_progress :: "frame_assembler \<Rightarrow> frame_assembler \<Rightarrow> bool" where
  "same_progress st st' \<longleftrightarrow> same_delivery st st' \<and> fa_abandoned st' = fa_abandoned st"

lemma push_into_delivery:
  assumes ok: "check_chunk_header p (length data) = ChunkOk" and inv: "asm_inv st"
    and it: "it < length (fa_assemblies st)"
    and out: "push_into_assembly p data nowUs it result st = (r, st')"
  shows "(sr_disposition r \<noteq> Completed \<and> same_progress st st') \<or> delivers st r st'"
proof -
  let ?a = "fa_assemblies st ! it"
  have live: "live_ok st ?a" using inv it by (simp add: asm_inv_def)
  then have wf: "wf_assembly ?a" by (simp add: live_ok_def)
  from ok it wf show ?thesis
  proof (cases rule: push_into_assembly_cases [where nowUs = nowUs and result = result])
    case (delivered b res)
    note after = wf_assembly_after [OF ok wf delivered(1), of nowUs, folded delivered(2)]
    have "live_ok st b"
      using live after delivered(4) by (auto simp: live_ok_def same_frame_def is_key_def)
    then have "delivers st res st'"
      using deliver_assembly_delivers [of res st' b] delivered(5) out by simp
    then show ?thesis using delivered(6,9,10) out by (auto simp: delivers_def)
  qed (use out in \<open>auto simp: same_progress_def same_delivery_def\<close>)
qed

lemma delivers_cong:
  "same_progress st0 st \<Longrightarrow> delivers st r st' \<Longrightarrow> delivers st0 r st'"
  by (auto simp: delivers_def same_progress_def same_delivery_def)

lemma push_delivery:
  assumes inv: "asm_inv st" and push: "push_datagram admit data nowUs st = (r, st')"
  shows "(sr_disposition r \<noteq> Completed \<and> same_progress st st') \<or> delivers st r st'"
proof (cases "88 \<le> length data \<and> check_chunk_header (decode_video_chunk_header data) (length data) = ChunkOk")
  case False
  then show ?thesis using push
    by (auto simp: push_datagram_def default_step_result_def Let_def same_progress_def same_delivery_def
        split: if_splits chunk_verdict.splits)
next
  case True
  let ?p = "decode_video_chunk_header data"
  from True have ok: "check_chunk_header ?p (length data) = ChunkOk" by simp
  obtain result where acc: "push_accepted admit ?p data nowUs result st = (r, st')"
    using push True by (auto simp: push_datagram_def Let_def)
  from ok inv show ?thesis
  proof (cases rule: push_accepted_cases [where admit = admit and nowUs = nowUs and result = result])
    case (refused r0)
    with acc show ?thesis by (simp add: same_progress_def same_delivery_def)
  next
    case (live it r0)
    with acc show ?thesis using push_into_delivery [OF ok inv] by simp
  next
    case (created st1 r0)
    then have "length (fa_assemblies st1) - 1 < length (fa_assemblies st1)" by simp
    from push_into_delivery [OF ok created(2) this] created(1) acc
    have "(sr_disposition r \<noteq> Completed \<and> same_progress st1 st') \<or> delivers st1 r st'" by simp
    moreover have "same_progress st st1"
      using created(3) by (simp add: same_session_def same_progress_def same_delivery_def)
    ultimately show ?thesis using delivers_cong by (auto simp: same_progress_def same_delivery_def)
  qed
qed

lemma pop_delivery_delivery:
  assumes inv: "asm_inv st" and pop: "pop_delivery nowUs repairNonKey st = Some (out, st')"
  shows "case out of None \<Rightarrow> same_progress st st' | Some r \<Rightarrow> delivers st r st'"
proof -
  obtain items where sub: "subseq items (fa_assemblies st)" and
    out: "case out of None \<Rightarrow> st' = st\<lparr>fa_assemblies := items\<rparr>
     | Some r \<Rightarrow> \<exists>a\<in>set items. as_complete a \<and>
         (r, st') = deliver_assembly a (st\<lparr>fa_assemblies := items\<rparr>)"
    using pop_delivery_loop_result pop unfolding pop_delivery_def by blast
  show ?thesis
  proof (cases out)
    case None
    with out show ?thesis by (simp add: same_progress_def same_delivery_def)
  next
    case (Some r)
    then obtain a where a: "a \<in> set items" "(r, st') = deliver_assembly a (st\<lparr>fa_assemblies := items\<rparr>)"
      using out by auto
    then have "live_ok st a" using inv subseq_facts(1) [OF sub] by (auto simp: asm_inv_def)
    with a(2) have "delivers st r st'" by (rule deliver_assembly_delivers) simp_all
    with Some show ?thesis by simp
  qed
qed

lemma trim_same_delivery [simp]: "same_delivery st (trim_candidates st0) \<longleftrightarrow> same_delivery st st0"
  by (simp add: same_delivery_def trim_candidates_fields)

lemma give_up_same_delivery:
  "give_up_incomplete generation seq nowUs st = (gone, st') \<Longrightarrow> same_delivery st st'"
  by (auto simp: give_up_incomplete_def Let_def same_delivery_def trim_candidates_fields
      split: if_splits)

lemma give_up_subset:
  "set (fa_assemblies (snd (give_up_incomplete generation seq nowUs st))) \<subseteq> set (fa_assemblies st)"
  by (auto simp: give_up_incomplete_def Let_def split: if_splits
      dest!: subsetD [OF subseq_facts(1) [OF trim_candidates_fields(1)]]
      dest: subsetD [OF set_erase_at_subset])

lemma note_key_same_delivery: "same_delivery st (note_key_accepted generation seq st)"
  by (simp add: note_key_accepted_def Let_def same_delivery_def)

lemma step_delivery:
  assumes "asm_step st op outs st'" and "asm_inv st"
  shows "(outs = [] \<and> same_delivery st st') \<or> (\<exists>r. outs = [r] \<and> delivers st r st')"
  using assms
proof (induction rule: asm_step.induct)
  case (step_push admit data nowUs st r st')
  then show ?case using push_delivery [of st admit data nowUs r st']
    by (auto simp: delivers_def same_progress_def)
next
  case (step_pop nowUs repairNonKey st out st')
  then show ?case using pop_delivery_delivery by (fastforce simp: same_progress_def split: option.splits)
qed (auto simp: give_up_same_delivery note_key_same_delivery)

section \<open>Runs\<close>

definition follows :: "assembly_step_result \<Rightarrow> assembly_step_result \<Rightarrow> bool" where
  "follows r r' \<longleftrightarrow> sequence_is_newer (sr_packetSeq r') (sr_packetSeq r) \<and>
    (sr_packetSeq r' \<noteq> sr_packetSeq r + 1 \<longrightarrow> sr_droppedPreviousIncomplete r')"

lemma run_deliveries:
  assumes "asm_run st0 outs st" and "asm_inv st0" and "\<not> fa_deliveredAny st0"
  shows "successively follows outs \<and> asm_inv st \<and> fa_deliveredAny st = (outs \<noteq> []) \<and>
    (outs \<noteq> [] \<longrightarrow> fa_lastDeliveredSeq st = sr_packetSeq (last outs))"
  using assms
proof (induction rule: asm_run.induct)
  case (run_step st outs st' op outs' st'')
  then have IH: "successively follows outs" "asm_inv st'" "fa_deliveredAny st' = (outs \<noteq> [])"
    "outs \<noteq> [] \<Longrightarrow> fa_lastDeliveredSeq st' = sr_packetSeq (last outs)" by auto
  from step_delivery [OF run_step.hyps(2) IH(2)] IH asm_inv_step [OF run_step.hyps(2) IH(2)]
  show ?case
    by (auto simp: successively_append_iff same_delivery_def delivers_def follows_def)
qed simp




section \<open>Tombstones\<close>

lemma trim_keeps_abandoned [simp]: "is_abandoned g s (trim_candidates st) \<longleftrightarrow> is_abandoned g s st"
  by (simp add: is_abandoned_def trim_candidates_fields)

lemma delivers_tombstone:
  "same_progress st st' \<or> delivers st r st' \<Longrightarrow> is_abandoned g s st \<Longrightarrow>
   is_abandoned g s st' \<or> fa_deliveredAny st' \<and> \<not> sequence_is_newer s (fa_lastDeliveredSeq st')"
  by (auto simp: same_progress_def delivers_def is_abandoned_def list_ex_iff)

lemma give_up_keeps_tombstone:
  "give_up_incomplete generation seq nowUs st = (gone, st') \<Longrightarrow> is_abandoned g s st \<Longrightarrow>
   is_abandoned g s st'"
  by (auto simp: give_up_incomplete_def Let_def is_abandoned_def list_ex_iff trim_candidates_fields
      raise_saturation_floor_def split: if_splits)

text \<open>Accepting the key delivered last releases no tombstone: delivery has retired those behind it.\<close>

lemma note_key_keeps_tombstone:
  assumes "asm_inv st" "fa_deliveredAny st" and "is_abandoned g s st"
  shows "is_abandoned g s (note_key_accepted generation (fa_lastDeliveredSeq st) st)"
  using assms by (auto simp: note_key_accepted_def Let_def is_abandoned_def asm_inv_def list_ex_iff)

text \<open>While the tombstone stands, a datagram of the frame changes nothing.\<close>

lemma abandoned_refused:
  assumes "is_abandoned (vc_streamGeneration p) (vc_seq p) st"
    and "88 \<le> length data" "decode_video_chunk_header data = p"
  shows "snd (push_datagram admit data nowUs st) = st"
    "sr_disposition (fst (push_datagram admit data nowUs st)) \<noteq> Completed"
  using assms
  by (auto simp: push_datagram_def Let_def push_accepted_def default_step_result_def
      split: chunk_verdict.split)

text \<open>
  A frame given up stays given up: while its tombstone stands its datagrams change
  nothing, and no step takes the tombstone away except a delivery that has moved past the
  sequence number, from which point on the stale guard refuses the frame. (Acceptance is
  reported for the key delivered last, as the receiver does.)
\<close>

theorem tombstone_stands:
  assumes "asm_run (fresh_assembler maxHoldUs maxConcurrent maxHeldBytes) outs st"
    and "is_abandoned g s st" and "asm_step st op outs' st'"
    and "\<And>gen key. op = KeyAccepted gen key \<Longrightarrow> fa_deliveredAny st \<and> key = fa_lastDeliveredSeq st"
  shows "(\<forall>admit data nowUs. let p = decode_video_chunk_header data in
      88 \<le> length data \<and> vc_streamGeneration p = g \<and> vc_seq p = s \<longrightarrow>
      snd (push_datagram admit data nowUs st) = st) \<and>
    (is_abandoned g s st' \<or> fa_deliveredAny st' \<and> \<not> sequence_is_newer s (fa_lastDeliveredSeq st'))"
    (is "?refused \<and> ?stands")
proof
  show ?refused using abandoned_refused(1) assms(2) by (auto simp: Let_def)
  have inv: "asm_inv st" using asm_inv_run [OF assms(1) asm_inv_fresh] .
  from assms(3) show ?stands
  proof (cases rule: asm_step.cases)
    case (step_push admit data nowUs r)
    then show ?thesis using delivers_tombstone [OF _ assms(2)] push_delivery [OF inv] by blast
  next
    case (step_pop nowUs repairNonKey out)
    then show ?thesis
      using delivers_tombstone [OF _ assms(2)] pop_delivery_delivery [OF inv step_pop(3)]
      by (cases out) auto
  next
    case (step_give_up generation seq nowUs gone)
    then show ?thesis using give_up_keeps_tombstone assms(2) by blast
  next
    case (step_key generation seq)
    then show ?thesis using note_key_keeps_tombstone [OF inv] assms(2,4) by auto
  qed
qed

end
