(* ===== verification/VideoPath.thy ===== *)
theory VideoPath
  imports AssemblerSteps
begin

text \<open>
  The video path end to end: the datagrams the host sends for a frame, delivered to the
  assembler in any order, duplicated, lost and mixed with those of other frames. Every
  datagram of a sendable frame passes the assembler's checks, what is delivered is exactly
  what was sent, and a frame that lost at most one datagram per parity group is repaired.
\<close>

section \<open>Sent frames\<close>

record video_frame =
  vf_payload :: bytes
  vf_header :: video_chunk_header
  vf_mtu :: u32
  vf_egress :: udp_egress_config

definition vf_geometry :: "video_frame \<Rightarrow> udp_chunk_geom" where
  "vf_geometry f = udp_chunk_geometry (length (vf_payload f)) (vf_mtu f)
    (eg_fecSingleChunkTightStride (vf_egress f))"

abbreviation vf_interleaved :: "video_frame \<Rightarrow> bool" where
  "vf_interleaved f \<equiv> eg_fecInterleaved (vf_egress f)"

text \<open>
  A frame the two ends agree on: the geometry is valid, the header template is the one the
  host builds, and the frame respects the receiver's caps (16 MiB, 16384 chunks), which are
  stricter than the sender's own.
\<close>

definition sendable :: "video_frame \<Rightarrow> bool" where
  "sendable f \<longleftrightarrow> g_valid (vf_geometry f) \<and> length (vf_payload f) \<le> 16777216 \<and>
    g_chunkCount (vf_geometry f) \<le> 16384 \<and>
    vc_magic (vf_header f) = kMagic \<and> vc_kind (vf_header f) = udp_packet_kind_code UVideoChunk \<and>
    vc_size (vf_header f) = 88 \<and> vc_codec (vf_header f) = kUdpCodecH264 \<and>
    vc_payloadSize (vf_header f) = of_nat (length (vf_payload f)) \<and>
    vc_flags (vf_header f) AND 0x30 = 0"

text \<open>Everything that may be on the wire for a frame: its data, its parity and any replay.\<close>

definition wire_datagrams :: "video_frame \<Rightarrow> bytes set" where
  "wire_datagrams f =
    data_datagram (vf_payload f) (vf_header f) (vf_geometry f) ` {..<g_chunkCount (vf_geometry f)} \<union>
    parity_datagram (vf_payload f) (vf_header f) (vf_geometry f) (vf_interleaved f) `
      {..<g_fecGroupCount (vf_geometry f)}"

section \<open>Sent datagrams are accepted\<close>

lemma sent_data_flags:
  fixes x :: u16
  assumes "x AND 0x30 = 0"
  defines "y \<equiv> x AND NOT (0x2 OR 0x4 OR 0x10)"
  shows "(y OR c) AND 1 = (x AND 1) OR (c AND 1)" "(y OR c) AND 0x10 = c AND 0x10"
    "(y OR c) AND 0x40 = (x AND 0x40) OR (c AND 0x40)"
  by (simp_all add: y_def bit.conj_disj_distrib2 and.assoc)

lemma sent_parity_flags:
  fixes x :: u16
  assumes "x AND 0x30 = 0"
  defines "y \<equiv> x AND NOT (0x2 OR 0x4)"
  shows "(y OR c) AND 1 = (x AND 1) OR (c AND 1)" "0x10 AND c = 0x10 \<Longrightarrow> (y OR c) AND 0x10 = 0x10"
    "(y OR c) AND 0x20 = c AND 0x20"
    "(y OR c) AND 0x40 = (x AND 0x40) OR (c AND 0x40)"
proof -
  have "x AND 0x20 = (x AND 0x30) AND 0x20" "x AND 0x10 = (x AND 0x30) AND 0x10"
    by (simp_all add: and.assoc)
  then have bits: "x AND 0x20 = 0" "x AND 0x10 = 0" using assms(1) by simp_all
  then show "(y OR c) AND 1 = (x AND 1) OR (c AND 1)" "(y OR c) AND 0x20 = c AND 0x20"
    "(y OR c) AND 0x40 = (x AND 0x40) OR (c AND 0x40)"
    by (simp_all add: y_def bit.conj_disj_distrib2 and.assoc)
  show "0x10 AND c = 0x10 \<Longrightarrow> (y OR c) AND 0x10 = 0x10"
    using bits by (simp add: y_def bit.conj_disj_distrib2 and.assoc and.commute [of c])
qed

text \<open>The converse of \<open>chunk_ok_facts\<close>: these facts are all the header checks ask for.\<close>

lemma check_chunk_header_okI:
  assumes kind: "vc_magic p = kMagic" "vc_kind p = udp_packet_kind_code UVideoChunk"
      "vc_size p = 88" "vc_codec p = kUdpCodecH264"
    and vals: "unat (vc_payloadSize p) = tot" "unat (vc_chunkCount p) = n"
      "unat (vc_chunkStride p) = s" "unat (vc_chunkIndex p) = i" "unat (vc_chunkOffset p) = i * s"
      "unat (vc_chunkSize p) = cs"
    and lay: "frame_layout tot s n G" and i: "i < n"
    and caps: "tot \<le> 16777216" "n \<le> 16384" "s \<le> 4096" "88 + cs \<le> len"
    and dat: "\<not> parity_packet p \<Longrightarrow> cs = chunk_size tot s i"
    and par: "parity_packet p \<Longrightarrow> cs = s \<and> (if interleaved_parity p then i < G else i mod 8 = 0)"
  shows "check_chunk_header p len = ChunkOk"
proof -
  have pos: "0 < tot" "0 < s" "n = (tot + s - 1) div s" "G = (n + 7) div 8"
    using lay by (simp_all add: frame_layout_def kUdpVideoFecGroupSize_def)
  note chunk = frame_layout_chunk [OF lay i]
  have "0 < cs" using dat par pos chunk(2) by (cases "parity_packet p") auto
  have nz: "vc_payloadSize p \<noteq> 0" "vc_chunkSize p \<noteq> 0" "vc_chunkStride p \<noteq> 0" "vc_chunkCount p \<noteq> 0"
    using vals pos \<open>0 < cs\<close> i by (auto simp flip: unat_gt_0)
  have lim: "\<not> 4096 < vc_chunkStride p" "\<not> kMaxUdpVideoChunks < vc_chunkCount p"
    "\<not> kMaxUdpAssembledPayloadBytes < vc_payloadSize p" "\<not> vc_chunkCount p \<le> vc_chunkIndex p"
    using vals caps i
    by (auto simp: word_less_nat_alt word_le_nat_alt kMaxUdpVideoChunks_def
        kMaxUdpAssembledPayloadBytes_def)
  have "unat (vc_payloadSize p + vc_chunkStride p) = tot + s"
    using caps vals by (subst unat_word_ariths) simp
  then have sum: "unat (vc_payloadSize p + vc_chunkStride p - 1) = tot + s - 1"
    using pos by (simp add: unat_sub_if' word_le_nat_alt)
  have count: "(vc_payloadSize p + vc_chunkStride p - 1) div vc_chunkStride p = ucast (vc_chunkCount p)"
    by (simp add: word_unat_eq_iff unat_div sum vals pos(3))
  have "unat (ucast (vc_chunkIndex p) * vc_chunkStride p) = i * s"
    using chunk(1) caps(1) vals by (subst unat_word_ariths) simp
  then have off: "vc_chunkOffset p = ucast (vc_chunkIndex p) * vc_chunkStride p"
    using vals by (simp only: word_unat_eq_iff)
  have shape: "check_group_shape p" if "parity_packet p"
  proof -
    have "unat (ucast (vc_chunkCount p) + 8 - 1 :: u32) = n + 7"
      using vals caps by (simp add: unat_word_ariths)
    then have "unat ((ucast (vc_chunkCount p) + 8 - 1) div 8 :: u32) = G"
      using pos by (simp add: unat_div)
    then show ?thesis
      using par [OF that] vals
      by (auto simp: check_group_shape_def Let_def word_less_nat_alt word_unat_eq_iff unat_mod
          split: if_splits)
  qed
  have size_ok: "vc_chunkSize p = min (vc_chunkStride p) (vc_payloadSize p - vc_chunkOffset p)"
    if "\<not> parity_packet p"
  proof -
    have "unat (vc_payloadSize p - vc_chunkOffset p) = tot - i * s"
      using vals chunk(1) by (simp add: unat_sub_if')
    then show ?thesis
      using dat [OF that] vals by (auto simp: chunk_size_def min_def word_le_nat_alt word_unat_eq_iff)
  qed
  show ?thesis
    using kind nz lim count caps(4) vals(6) shape size_ok
    unfolding check_chunk_header_def Let_def off [symmetric] by simp
qed

text \<open>Headers of one frame's datagrams: they agree with the template on all but the chunk fields.\<close>

definition same_template :: "video_chunk_header \<Rightarrow> video_chunk_header \<Rightarrow> bool" where
  "same_template p h \<longleftrightarrow> vc_seq p = vc_seq h \<and> vc_width p = vc_width h \<and>
    vc_height p = vc_height h \<and> vc_payloadSize p = vc_payloadSize h \<and>
    vc_streamGeneration p = vc_streamGeneration h \<and> vc_captureQpcUs p = vc_captureQpcUs h \<and>
    vc_encodeStartQpcUs p = vc_encodeStartQpcUs h \<and> vc_encodeEndQpcUs p = vc_encodeEndQpcUs h \<and>
    vc_sendQpcUs p = vc_sendQpcUs h \<and> vc_flags p AND 1 = vc_flags h AND 1 \<and>
    vc_flags p AND 0x40 = vc_flags h AND 0x40"

lemma sendable_layout:
  assumes "sendable f"
  defines "g \<equiv> vf_geometry f"
  shows "frame_layout (length (vf_payload f)) (g_chunkStride g) (g_chunkCount g) (g_fecGroupCount g)"
    "g_chunkStride g \<le> 1312"
  using geometry_layout [of "length (vf_payload f)" "vf_mtu f" "eg_fecSingleChunkTightStride (vf_egress f)"]
    assms(1) unfolding g_def vf_geometry_def sendable_def by blast+

lemma data_chunk_flags:
  assumes "vc_flags h AND 0x30 = 0"
  shows "vc_flags (data_chunk_header h len geo i) AND 0x10 = 0"
    "vc_flags (data_chunk_header h len geo i) AND 1 = vc_flags h AND 1"
    "vc_flags (data_chunk_header h len geo i) AND 0x40 = vc_flags h AND 0x40"
proof -
  let ?y = "vc_flags h AND NOT (0x2 OR 0x4 OR 0x10)"
  have "\<exists>c \<in> {0, 2, 4, 6}. vc_flags (data_chunk_header h len geo i) = ?y OR c"
    by (auto simp: data_chunk_header_def Let_def or.assoc)
  then obtain c where c: "c \<in> {0, 2, 4, 6 :: u16}"
    and eq: "vc_flags (data_chunk_header h len geo i) = ?y OR c" by blast
  show "vc_flags (data_chunk_header h len geo i) AND 0x10 = 0"
    "vc_flags (data_chunk_header h len geo i) AND 1 = vc_flags h AND 1"
    "vc_flags (data_chunk_header h len geo i) AND 0x40 = vc_flags h AND 0x40"
    unfolding eq sent_data_flags [OF assms] using c by auto
qed

lemma parity_chunk_flags:
  assumes "vc_flags h AND 0x30 = 0"
  shows "vc_flags (parity_chunk_header h geo il g) AND 0x10 = 0x10"
    "vc_flags (parity_chunk_header h geo il g) AND 0x20 \<noteq> 0 \<longleftrightarrow> il"
    "vc_flags (parity_chunk_header h geo il g) AND 1 = vc_flags h AND 1"
    "vc_flags (parity_chunk_header h geo il g) AND 0x40 = vc_flags h AND 0x40"
proof -
  let ?y = "vc_flags h AND NOT (0x2 OR 0x4)"
  have eq: "vc_flags (parity_chunk_header h geo il g) = ?y OR (if il then 0x30 else 0x10)"
    by (simp add: parity_chunk_header_def Let_def or.assoc)
  show "vc_flags (parity_chunk_header h geo il g) AND 0x10 = 0x10"
    unfolding eq by (rule sent_parity_flags(2) [OF assms]) simp
  show "vc_flags (parity_chunk_header h geo il g) AND 0x20 \<noteq> 0 \<longleftrightarrow> il"
    "vc_flags (parity_chunk_header h geo il g) AND 1 = vc_flags h AND 1"
    "vc_flags (parity_chunk_header h geo il g) AND 0x40 = vc_flags h AND 0x40"
    unfolding eq sent_parity_flags(1,3,4) [OF assms] by simp_all
qed

lemma data_chunk_accepted:
  assumes f: "sendable f" and i: "i < g_chunkCount (vf_geometry f)"
  defines "p \<equiv> data_chunk_header (vf_header f) (length (vf_payload f)) (vf_geometry f) i"
    and "d \<equiv> data_datagram (vf_payload f) (vf_header f) (vf_geometry f) i"
  shows "decode_video_chunk_header d = p" "88 \<le> length d"
    "check_chunk_header p (length d) = ChunkOk" "same_template p (vf_header f)"
    "\<not> parity_packet p" "unat (vc_chunkIndex p) = i"
    "unat (vc_chunkCount p) = g_chunkCount (vf_geometry f)"
    "unat (vc_chunkStride p) = g_chunkStride (vf_geometry f)"
    "slice d 88 (unat (vc_chunkSize p)) = chunk_bytes (vf_payload f) (g_chunkStride (vf_geometry f)) i"
proof -
  let ?P = "vf_payload f" and ?s = "g_chunkStride (vf_geometry f)" and ?n = "g_chunkCount (vf_geometry f)"
  note lay = sendable_layout(1) [OF f]
  note chunk = frame_layout_chunk [OF lay i]
  have f': "length ?P \<le> 16777216" "?n \<le> 16384" "?s \<le> 1312" "vc_flags (vf_header f) AND 0x30 = 0"
    using f sendable_layout(2) [OF f] by (auto simp: sendable_def)
  note flags = data_chunk_flags [OF f'(4)]
  show dec: "decode_video_chunk_header d = p"
    unfolding d_def p_def data_datagram_def by (rule decode_encode_video_chunk_header)
  have len: "length d = 88 + chunk_size (length ?P) ?s i"
    by (simp add: d_def data_datagram_def length_chunk_bytes [OF lay i])
  then show "88 \<le> length d" by simp
  have vals: "unat (vc_payloadSize p) = length ?P" "unat (vc_chunkCount p) = ?n"
    "unat (vc_chunkStride p) = ?s" "unat (vc_chunkIndex p) = i" "unat (vc_chunkOffset p) = i * ?s"
    "unat (vc_chunkSize p) = chunk_size (length ?P) ?s i"
    using f f' i chunk unfolding p_def data_chunk_header_def Let_def sendable_def
    by (simp_all add: unat_of_nat_small del: of_nat_mult)
  show par: "\<not> parity_packet p" using flags(1) by (simp add: p_def parity_packet_def)
  show "check_chunk_header p (length d) = ChunkOk"
    using f f' par by (intro check_chunk_header_okI [OF _ _ _ _ vals lay i])
      (auto simp: p_def data_chunk_header_def Let_def sendable_def len [unfolded p_def])
  show "same_template p (vf_header f)"
    using flags by (simp add: same_template_def p_def data_chunk_header_def Let_def)
  show "unat (vc_chunkIndex p) = i" "unat (vc_chunkCount p) = ?n" "unat (vc_chunkStride p) = ?s"
    by (rule vals)+
  show "slice d 88 (unat (vc_chunkSize p)) = chunk_bytes ?P ?s i"
    unfolding vals by (simp add: d_def data_datagram_def slice_def length_chunk_bytes [OF lay i])
qed

lemma parity_chunk_accepted:
  assumes f: "sendable f" and g: "g < g_fecGroupCount (vf_geometry f)"
  defines "p \<equiv> parity_chunk_header (vf_header f) (vf_geometry f) (vf_interleaved f) g"
    and "d \<equiv> parity_datagram (vf_payload f) (vf_header f) (vf_geometry f) (vf_interleaved f) g"
  shows "decode_video_chunk_header d = p" "88 \<le> length d"
    "check_chunk_header p (length d) = ChunkOk" "same_template p (vf_header f)"
    "parity_packet p" "interleaved_parity p \<longleftrightarrow> vf_interleaved f"
    "unat (vc_chunkIndex p) = parity_first_chunk (vf_interleaved f) g"
    "unat (vc_chunkCount p) = g_chunkCount (vf_geometry f)"
    "unat (vc_chunkStride p) = g_chunkStride (vf_geometry f)"
    "slice d 88 (unat (vc_chunkSize p)) = group_parity (vf_payload f) (g_chunkStride (vf_geometry f))
      (fec_group (vf_interleaved f) (g_chunkCount (vf_geometry f)) (g_fecGroupCount (vf_geometry f)) g)"
proof -
  let ?P = "vf_payload f" and ?s = "g_chunkStride (vf_geometry f)" and ?n = "g_chunkCount (vf_geometry f)"
    and ?G = "g_fecGroupCount (vf_geometry f)" and ?il = "vf_interleaved f"
  let ?i = "parity_first_chunk ?il g"
  note lay = sendable_layout(1) [OF f]
  have G: "?G = (?n + 7) div 8" and n0: "0 < ?n"
    using lay ceil_div_bounds(3) by (auto simp: frame_layout_def kUdpVideoFecGroupSize_def)
  have i: "?i < ?n" using g G n0 by (auto simp: parity_first_chunk_def kUdpVideoFecGroupSize_def)
  note chunk = frame_layout_chunk [OF lay i]
  have f': "length ?P \<le> 16777216" "?n \<le> 16384" "?s \<le> 1312" "vc_flags (vf_header f) AND 0x30 = 0"
    using f sendable_layout(2) [OF f] by (auto simp: sendable_def)
  note flags = parity_chunk_flags [OF f'(4)]
  show dec: "decode_video_chunk_header d = p"
    unfolding d_def p_def parity_datagram_def by (rule decode_encode_video_chunk_header)
  have len: "length d = 88 + ?s" by (simp add: d_def parity_datagram_def)
  then show "88 \<le> length d" by simp
  have vals: "unat (vc_payloadSize p) = length ?P" "unat (vc_chunkCount p) = ?n"
    "unat (vc_chunkStride p) = ?s" "unat (vc_chunkIndex p) = ?i" "unat (vc_chunkOffset p) = ?i * ?s"
    "unat (vc_chunkSize p) = ?s"
    using f f' i chunk unfolding p_def parity_chunk_header_def Let_def sendable_def
    by (simp_all add: unat_of_nat_small del: of_nat_mult)
  show par: "parity_packet p" using flags(1) by (simp add: p_def parity_packet_def)
  then show il: "interleaved_parity p \<longleftrightarrow> ?il"
    using flags(2) by (simp add: p_def interleaved_parity_def)
  show "check_chunk_header p (length d) = ChunkOk"
  proof (rule check_chunk_header_okI [OF _ _ _ _ vals lay i])
    show "vc_magic p = kMagic" "vc_kind p = udp_packet_kind_code UVideoChunk" "vc_size p = 88"
      "vc_codec p = kUdpCodecH264"
      using f by (simp_all add: p_def parity_chunk_header_def Let_def sendable_def)
    show "?s = ?s \<and> (if interleaved_parity p then ?i < ?G else ?i mod 8 = 0)"
      using il g by (simp add: parity_first_chunk_def kUdpVideoFecGroupSize_def)
  qed (use f' len par in auto)
  show "same_template p (vf_header f)"
    using flags by (simp add: same_template_def p_def parity_chunk_header_def Let_def)
  show "unat (vc_chunkIndex p) = ?i" "unat (vc_chunkCount p) = ?n" "unat (vc_chunkStride p) = ?s"
    by (rule vals)+
  show "slice d 88 (unat (vc_chunkSize p)) = group_parity ?P ?s (fec_group ?il ?n ?G g)"
    unfolding vals by (simp add: d_def parity_datagram_def slice_def)
qed

section \<open>Assemblies that agree with the sent frame\<close>

definition consistent :: "video_frame \<Rightarrow> assembly \<Rightarrow> bool" where
  "consistent f a \<longleftrightarrow>
    (let P = vf_payload f; s = g_chunkStride (vf_geometry f); n = g_chunkCount (vf_geometry f);
         G = g_fecGroupCount (vf_geometry f) in
     as_payloadSize a = vc_payloadSize (vf_header f) \<and> unat (as_chunkCount a) = n \<and>
     unat (as_chunkStride a) = s \<and> as_header a = as_header (create_assembly (vf_header f) 0) \<and>
     (\<forall>i<n. as_received a ! i \<longrightarrow> chunk_bytes (as_payload a) s i = chunk_bytes P s i) \<and>
     (\<forall>g<G. as_parityReceived a ! g \<longrightarrow> as_parityInterleaved a = vf_interleaved f \<and>
        as_parity a ! g = group_parity P s (fec_group (vf_interleaved f) n G g)))"

lemma consistent_sizes:
  assumes "consistent f a" "wf_assembly a" "sendable f"
  shows "unat (as_payloadSize a) = length (vf_payload f)"
    "length (as_payload a) = length (vf_payload f)"
    "length (as_received a) = g_chunkCount (vf_geometry f)"
    "length (as_parity a) = g_fecGroupCount (vf_geometry f)"
    "length (as_parityReceived a) = g_fecGroupCount (vf_geometry f)"
proof -
  show size: "unat (as_payloadSize a) = length (vf_payload f)"
    using assms by (simp add: consistent_def Let_def sendable_def unat_of_nat_small)
  then show "length (as_payload a) = length (vf_payload f)"
    "length (as_received a) = g_chunkCount (vf_geometry f)"
    "length (as_parity a) = g_fecGroupCount (vf_geometry f)"
    "length (as_parityReceived a) = g_fecGroupCount (vf_geometry f)"
    using assms sendable_layout(1) [OF assms(3)]
    by (auto simp: consistent_def wf_assembly_def Let_def frame_layout_def)
qed

lemma same_template_header:
  "same_template p h \<Longrightarrow> as_header (create_assembly p t) = as_header (create_assembly h t')"
  by (simp add: same_template_def create_assembly_def Let_def kUdpVideoChunkFlagSynthetic_def)

text \<open>A chunk rebuilt from the parity of its group is the chunk that was sent.\<close>

lemma recover_chunk_correct:
  assumes f: "sendable f" and wf: "wf_assembly a" and con: "consistent f a"
    and g: "g < length (as_parity a)" and par: "as_parityReceived a ! g"
    and missing: "filter (\<lambda>i. \<not> as_received a ! i) (assembly_group a g) = [m]"
  defines "s \<equiv> g_chunkStride (vf_geometry f)"
  shows "take (chunk_size (length (vf_payload f)) s m) (recover_chunk a g m) = chunk_bytes (vf_payload f) s m"
proof -
  let ?P = "vf_payload f" and ?n = "g_chunkCount (vf_geometry f)"
    and ?G = "g_fecGroupCount (vf_geometry f)" and ?grp = "assembly_group a g"
  note lay = sendable_layout(1) [OF f, folded s_def] and sizes = consistent_sizes [OF con wf f]
  have g': "g < ?G" using g sizes by simp
  have il: "as_parityInterleaved a = vf_interleaved f"
    and parity: "as_parity a ! g = group_parity ?P s ?grp"
    using con g' par sizes by (auto simp: consistent_def Let_def assembly_group_eq s_def)
  have s: "unat (as_chunkStride a) = s" using con by (simp add: consistent_def Let_def s_def)
  note m = missing_in_group [OF missing]
  have dist: "distinct ?grp" by (simp add: assembly_group_eq)
  have in_n: "i < ?n" if "i \<in> set ?grp" for i
    using that g' sizes con by (auto simp: assembly_group_eq consistent_def Let_def dest: fec_group_bound)
  have others: "filter (\<lambda>i. i \<noteq> m \<and> as_received a ! i) ?grp = filter (\<lambda>i. i \<noteq> m) ?grp"
    using m(3) by (intro filter_cong) auto
  have got: "chunk_bytes (as_payload a) s i = chunk_bytes ?P s i" if "i \<in> set ?grp" "i \<noteq> m" for i
    using con in_n [OF that(1)] m(3) [OF that(1)] that(2) by (auto simp: consistent_def Let_def s_def)
  have lenm: "length (chunk_bytes ?P s m) = chunk_size (length ?P) s m"
    using length_chunk_bytes [OF lay in_n [OF m(1)]] .
  have rec_len: "length (recover_chunk a g m) = s"
    by (simp add: recover_chunk_def parity fold_xor_into(1) s)
  have rec: "recover_chunk a g m ! k = byte_at (chunk_bytes ?P s m) k" if "k < s" for k
  proof -
    have "recover_chunk a g m ! k = group_parity ?P s ?grp ! k XOR
        xor_sum (\<lambda>i. byte_at (chunk_bytes (as_payload a) s i) k) (filter (\<lambda>i. i \<noteq> m) ?grp)"
      unfolding recover_chunk_def parity others s
      using that by (intro fold_xor_into(2)) simp_all
    also have "xor_sum (\<lambda>i. byte_at (chunk_bytes (as_payload a) s i) k) (filter (\<lambda>i. i \<noteq> m) ?grp)
        = xor_sum (\<lambda>i. byte_at (chunk_bytes ?P s i) k) (filter (\<lambda>i. i \<noteq> m) ?grp)"
      unfolding xor_sum_def using got by (intro foldr_cong) auto
    finally show ?thesis
      using that xor_sum_cancel [OF dist m(1)] by (simp add: nth_group_parity)
  qed
  show ?thesis
  proof (rule nth_equalityI)
    show "length (take (chunk_size (length ?P) s m) (recover_chunk a g m)) = length (chunk_bytes ?P s m)"
      using lenm rec_len frame_layout_chunk(3) [OF lay in_n [OF m(1)]] by simp
    fix k assume "k < length (take (chunk_size (length ?P) s m) (recover_chunk a g m))"
    then have "k < chunk_size (length ?P) s m" "k < s" using rec_len by auto
    then show "take (chunk_size (length ?P) s m) (recover_chunk a g m) ! k = chunk_bytes ?P s m ! k"
      using rec lenm by (simp add: byte_at_def)
  qed
qed

lemma consistent_repair_group:
  assumes f: "sendable f" and wf: "wf_assembly a" and con: "consistent f a"
    and g: "g < length (as_parity a)"
  shows "consistent f (fst (repair_group nowUs g (a, r)))"
proof (cases rule: repair_group_cases [of nowUs g a r])
  case idle
  then show ?thesis using con by simp
next
  case (repaired m)
  let ?P = "vf_payload f" and ?s = "g_chunkStride (vf_geometry f)" and ?n = "g_chunkCount (vf_geometry f)"
  note sizes = consistent_sizes [OF con wf f] and lay = sendable_layout(1) [OF f]
  have s: "unat (as_chunkStride a) = ?s" "unat (as_chunkCount a) = ?n"
    using con by (simp_all add: consistent_def Let_def)
  have m: "m < ?n"
    using missing_in_group(1) [OF repaired(2)] g s by (simp add: assembly_group_eq fec_group_bound)
  let ?src = "take (chunk_size (length ?P) ?s m) (recover_chunk a g m)"
  have src: "?src = chunk_bytes ?P ?s m"
    using recover_chunk_correct [OF f wf con g repaired(1,2)] .
  then have "length ?src = chunk_size (length ?P) ?s m" using length_chunk_bytes [OF lay m] by simp
  then have "chunk_bytes (overwrite (as_payload a) (m * ?s) ?src) ?s i = chunk_bytes ?P ?s i"
    if "i < ?n" "(as_received a)[m := True] ! i" for i
    using chunk_bytes_overwrite [OF lay m that(1) sizes(2)] src that con m sizes(3)
    by (auto simp: consistent_def Let_def nth_list_update)
  then show ?thesis
    using con repaired(3) s sizes by (simp add: consistent_def Let_def)
qed

lemma consistent_repair_groups:
  assumes f: "sendable f" and wf: "wf_assembly a" and con: "consistent f a"
  shows "consistent f (fst (repair_groups nowUs a))"
proof -
  let ?P = "\<lambda>acc :: assembly \<times> u32. wf_assembly (fst acc) \<and> consistent f (fst acc) \<and>
    length (as_parity (fst acc)) = length (as_parity a)"
  have "?P (fold (repair_group nowUs) [0..<length (as_parity a)] (a, 0))"
  proof (rule fold_invariant [where Q = "\<lambda>g. g < length (as_parity a)"])
    fix g acc assume g: "g < length (as_parity a)" and acc: "?P acc"
    then show "?P (repair_group nowUs g acc)"
      using wf_repair_group [of "fst acc" g nowUs "snd acc"]
        consistent_repair_group [OF f, of "fst acc" g nowUs "snd acc"] by auto
  qed (use wf con in auto)
  then show ?thesis by (simp add: repair_groups_def)
qed

lemma consistent_matches:
  assumes "consistent f a" and "same_template p (vf_header f)"
    and "unat (vc_chunkCount p) = g_chunkCount (vf_geometry f)"
      "unat (vc_chunkStride p) = g_chunkStride (vf_geometry f)"
  shows "assembly_matches a p"
  using assms
  by (simp add: consistent_def Let_def same_template_def assembly_matches_def word_unat_eq_iff
      create_assembly_def)

lemma consistent_create:
  assumes "sendable f" and "check_chunk_header p len = ChunkOk" and "same_template p (vf_header f)"
    and "unat (vc_chunkCount p) = g_chunkCount (vf_geometry f)"
      "unat (vc_chunkStride p) = g_chunkStride (vf_geometry f)"
  shows "consistent f (create_assembly p nowUs)"
proof -
  have "as_header (create_assembly p nowUs) = as_header (create_assembly (vf_header f) 0)"
    using assms(3) by (rule same_template_header)
  moreover have "g_fecGroupCount (vf_geometry f) =
      (g_chunkCount (vf_geometry f) + kUdpVideoFecGroupSize - 1) div kUdpVideoFecGroupSize"
    using sendable_layout(1) [OF assms(1)] by (simp add: frame_layout_def)
  ultimately show ?thesis
    using assms(3-5) by (simp add: consistent_def Let_def same_template_def create_assembly_def)
qed

text \<open>The facts about one datagram that the assembler's step needs, data or parity.\<close>

definition wire_header :: "video_frame \<Rightarrow> bytes \<Rightarrow> video_chunk_header \<Rightarrow> bool" where
  "wire_header f d p \<longleftrightarrow> decode_video_chunk_header d = p \<and> 88 \<le> length d \<and>
    check_chunk_header p (length d) = ChunkOk \<and> same_template p (vf_header f) \<and>
    unat (vc_chunkCount p) = g_chunkCount (vf_geometry f) \<and>
    unat (vc_chunkStride p) = g_chunkStride (vf_geometry f)"

lemma wire_datagram_cases:
  assumes "sendable f" and "d \<in> wire_datagrams f"
  obtains (data) p i where "wire_header f d p" "\<not> parity_packet p"
      "i < g_chunkCount (vf_geometry f)" "unat (vc_chunkIndex p) = i"
      "slice d 88 (unat (vc_chunkSize p)) = chunk_bytes (vf_payload f) (g_chunkStride (vf_geometry f)) i"
      "d = data_datagram (vf_payload f) (vf_header f) (vf_geometry f) i"
  | (parity) p g where "wire_header f d p" "parity_packet p"
      "interleaved_parity p \<longleftrightarrow> vf_interleaved f" "g < g_fecGroupCount (vf_geometry f)"
      "unat (vc_chunkIndex p) = parity_first_chunk (vf_interleaved f) g"
      "slice d 88 (unat (vc_chunkSize p)) = group_parity (vf_payload f) (g_chunkStride (vf_geometry f))
        (fec_group (vf_interleaved f) (g_chunkCount (vf_geometry f)) (g_fecGroupCount (vf_geometry f)) g)"
      "d = parity_datagram (vf_payload f) (vf_header f) (vf_geometry f) (vf_interleaved f) g"
proof -
  from assms(2) consider
    (D) i where "i < g_chunkCount (vf_geometry f)"
      "d = data_datagram (vf_payload f) (vf_header f) (vf_geometry f) i"
  | (P) g where "g < g_fecGroupCount (vf_geometry f)"
      "d = parity_datagram (vf_payload f) (vf_header f) (vf_geometry f) (vf_interleaved f) g"
    by (auto simp: wire_datagrams_def)
  then show thesis
  proof cases
    case D
    from data_chunk_accepted [OF assms(1) D(1), folded D(2)] show thesis
      by (intro data [OF _ _ D(1) _ _ D(2)]) (simp_all add: wire_header_def)
  next
    case P
    from parity_chunk_accepted [OF assms(1) P(1), folded P(2)] show thesis
      by (intro parity [OF _ _ _ P(1) _ _ P(2)]) (simp_all add: wire_header_def)
  qed
qed

lemma consistent_store_data:
  assumes f: "sendable f" and wf: "wf_assembly a" and con: "consistent f a"
    and w: "wire_header f d p" and i: "i < g_chunkCount (vf_geometry f)" "unat (vc_chunkIndex p) = i"
    and bytes: "slice d 88 (unat (vc_chunkSize p)) =
      chunk_bytes (vf_payload f) (g_chunkStride (vf_geometry f)) i"
  shows "consistent f (store_data p d nowUs a)"
proof (cases "as_received a ! i")
  case True
  then show ?thesis using con i by (simp add: store_data_def Let_def)
next
  case False
  let ?s = "g_chunkStride (vf_geometry f)" and ?n = "g_chunkCount (vf_geometry f)"
  note sizes = consistent_sizes [OF con wf f] and lay = sendable_layout(1) [OF f]
  have off: "unat (vc_chunkOffset p) = i * ?s"
    using w chunk_ok_facts(8) [of p "length d"] i(2) by (simp add: wire_header_def)
  have "length (chunk_bytes (vf_payload f) ?s i) = chunk_size (length (vf_payload f)) ?s i"
    by (rule length_chunk_bytes [OF lay i(1)])
  then have "chunk_bytes (overwrite (as_payload a) (i * ?s) (chunk_bytes (vf_payload f) ?s i)) ?s j =
      chunk_bytes (vf_payload f) ?s j" if "j < ?n" "(as_received a)[i := True] ! j" for j
    using chunk_bytes_overwrite [OF lay i(1) that(1) sizes(2)] that con i sizes(3)
    by (auto simp: consistent_def Let_def nth_list_update)
  then show ?thesis
    using False con i off bytes by (simp add: store_data_def consistent_def Let_def)
qed

lemma consistent_store_parity:
  assumes f: "sendable f" and wf: "wf_assembly a" and con: "consistent f a"
    and w: "wire_header f d p" and par: "parity_packet p"
      "interleaved_parity p \<longleftrightarrow> vf_interleaved f" "g < g_fecGroupCount (vf_geometry f)"
      "unat (vc_chunkIndex p) = parity_first_chunk (vf_interleaved f) g"
    and bytes: "slice d 88 (unat (vc_chunkSize p)) =
      group_parity (vf_payload f) (g_chunkStride (vf_geometry f))
        (fec_group (vf_interleaved f) (g_chunkCount (vf_geometry f)) (g_fecGroupCount (vf_geometry f)) g)"
  shows "consistent f (the (store_parity p d a))"
    "as_received (the (store_parity p d a)) = as_received a"
    "as_parityReceived (the (store_parity p d a)) = (as_parityReceived a)[g := True]"
proof -
  note sizes = consistent_sizes [OF con wf f]
  have grp: "(if interleaved_parity p then unat (vc_chunkIndex p)
      else unat (vc_chunkIndex p) div kUdpVideoFecGroupSize) = g"
    using par by (simp add: parity_first_chunk_def kUdpVideoFecGroupSize_def)
  have less: "\<not> length (as_parityReceived a) \<le> g" using par(3) sizes by simp
  have store: "store_parity p d a = Some (let b = a\<lparr>as_parityInterleaved := vf_interleaved f\<rparr> in
      if as_parityReceived a ! g then b
      else b\<lparr>as_parity := (as_parity a)[g := slice d 88 (unat (vc_chunkSize p))],
             as_parityReceived := (as_parityReceived a)[g := True]\<rparr>)"
    using less by (simp add: store_parity_def Let_def grp par(2) [symmetric])
  show "consistent f (the (store_parity p d a))"
    unfolding store using con bytes sizes less
    by (auto simp: consistent_def Let_def nth_list_update)
  show "as_received (the (store_parity p d a)) = as_received a"
    unfolding store by (simp add: Let_def)
  show "as_parityReceived (the (store_parity p d a)) = (as_parityReceived a)[g := True]"
    unfolding store by (simp add: Let_def list_update_same_conv)
      (metis (full_types) list_update_id)
qed

lemma consistent_after:
  assumes f: "sendable f" and d: "d \<in> wire_datagrams f" and wf: "wf_assembly a" and con: "consistent f a"
    and p: "p = decode_video_chunk_header d"
  shows "consistent f (assembly_after p d nowUs a)" "assembly_matches a p"
proof -
  from f d have "consistent f (assembly_after p d nowUs a) \<and> assembly_matches a p"
  proof (cases rule: wire_datagram_cases)
    case (data p' i)
    then have w: "wire_header f d p" and [simp]: "p' = p" using p by (auto simp: wire_header_def)
    have match: "assembly_matches a p" using w con by (intro consistent_matches) (auto simp: wire_header_def)
    have "consistent f (store_data p d nowUs a)"
      using consistent_store_data [OF f wf con w data(3)] data by simp
    moreover have "wf_assembly (store_data p d nowUs a)"
      using wf_store_data(1) [OF _ _ wf match] w data(2) by (simp add: wire_header_def)
    ultimately show ?thesis
      using data(2) match consistent_repair_groups [OF f] by (simp add: assembly_after_def)
  next
    case (parity p' g)
    then have w: "wire_header f d p" and [simp]: "p' = p" using p by (auto simp: wire_header_def)
    have match: "assembly_matches a p" using w con by (intro consistent_matches) (auto simp: wire_header_def)
    have "consistent f (the (store_parity p d a))"
      using consistent_store_parity(1) [OF f wf con w] parity by simp
    moreover have "wf_assembly (the (store_parity p d a))"
      using wf_store_parity [OF _ _ wf match, of d] w parity(2) by (auto simp: wire_header_def)
    ultimately show ?thesis
      using parity(2) match consistent_repair_groups [OF f] by (simp add: assembly_after_def)
  qed
  then show "consistent f (assembly_after p d nowUs a)" "assembly_matches a p" by auto
qed

text \<open>A complete consistent assembly holds the payload that was sent.\<close>

lemma consistent_complete:
  assumes f: "sendable f" and wf: "wf_assembly a" and con: "consistent f a"
    and full: "as_receivedCount a = unat (as_chunkCount a)"
  shows "as_payload a = vf_payload f"
proof -
  note sizes = consistent_sizes [OF con wf f]
  have "count_true (as_received a) = length (as_received a)"
    using wf full by (simp add: wf_assembly_def Let_def)
  then have "\<forall>i<length (as_received a). as_received a ! i" by (simp only: count_true_full)
  then have "as_received a ! i" if "i < g_chunkCount (vf_geometry f)" for i
    using that sizes(3) by simp
  then show ?thesis
    using con sizes(2)
    by (intro payload_eq_chunks [OF sendable_layout(1) [OF f]]) (auto simp: consistent_def Let_def)
qed

section \<open>Integrity\<close>

text \<open>
  The host's stream: one frame per sequence number. \<open>traffic\<close> are the operations of a run in
  which every datagram that arrives is one the host sent.
\<close>

type_synonym stream = "u32 \<Rightarrow> video_frame option"

definition good_stream :: "stream \<Rightarrow> bool" where
  "good_stream sent \<longleftrightarrow> (\<forall>q f. sent q = Some f \<longrightarrow> sendable f \<and> vc_seq (vf_header f) = q)"

definition sent_datagram :: "stream \<Rightarrow> bytes \<Rightarrow> bool" where
  "sent_datagram sent d \<longleftrightarrow> (\<exists>q f. sent q = Some f \<and> d \<in> wire_datagrams f)"

fun carried :: "stream \<Rightarrow> asm_op \<Rightarrow> bool" where
  "carried sent (Push admit d nowUs) = sent_datagram sent d"
| "carried sent _ = True"

inductive traffic :: "stream \<Rightarrow> frame_assembler \<Rightarrow> assembly_step_result list \<Rightarrow> frame_assembler \<Rightarrow> bool"
  for sent where
  traffic_start: "traffic sent st [] st"
| traffic_step: "traffic sent st outs st' \<Longrightarrow> carried sent op \<Longrightarrow> asm_step st' op outs' st'' \<Longrightarrow>
    traffic sent st (outs @ outs') st''"

definition faithful :: "stream \<Rightarrow> frame_assembler \<Rightarrow> bool" where
  "faithful sent st \<longleftrightarrow> asm_inv st \<and>
    (\<forall>a\<in>set (fa_assemblies st). \<exists>f. sent (as_seq a) = Some f \<and> consistent f a)"

text \<open>A delivered result is the frame of its sequence number.\<close>

definition is_sent_frame :: "stream \<Rightarrow> assembly_step_result \<Rightarrow> bool" where
  "is_sent_frame sent r \<longleftrightarrow> (\<exists>f. sent (sr_packetSeq r) = Some f \<and> sr_payload r = vf_payload f \<and>
    sr_header r = (as_header (create_assembly (vf_header f) 0))
      \<lparr>ef_payloadSize := of_nat (length (vf_payload f))\<rparr>)"

lemma deliver_is_sent:
  assumes "good_stream sent" "wf_assembly a" "as_receivedCount a = unat (as_chunkCount a)"
    and "sent (as_seq a) = Some f" "consistent f a" and "(r, st') = deliver_assembly a st"
  shows "is_sent_frame sent r"
proof -
  have f: "sendable f" using assms(1,4) by (auto simp: good_stream_def)
  have "as_payload a = vf_payload f" using consistent_complete [OF f assms(2,5,3)] .
  moreover have "as_payloadSize a = of_nat (length (vf_payload f))"
    "as_header a = as_header (create_assembly (vf_header f) 0)"
    using assms(5) f by (simp_all add: consistent_def Let_def sendable_def)
  ultimately show ?thesis
    using assms(4,6) by (auto simp: is_sent_frame_def deliver_assembly_def Let_def)
qed

lemma faithful_shrink:
  assumes "faithful sent st" "asm_inv st'" "set (fa_assemblies st') \<subseteq> set (fa_assemblies st)"
  shows "faithful sent st'"
  using assms by (auto simp: faithful_def)

lemma push_into_faithful:
  assumes good: "good_stream sent" and faith: "faithful sent st"
    and f: "sent q = Some f" and d: "d \<in> wire_datagrams f" and p: "p = decode_video_chunk_header d"
    and it: "it < length (fa_assemblies st)" "as_seq (fa_assemblies st ! it) = vc_seq p"
    and out: "push_into_assembly p d nowUs it result st = (r, st')"
  shows "faithful sent st' \<and> (sr_disposition r \<noteq> Malformed) \<and>
    (sr_disposition r = Completed \<longrightarrow> is_sent_frame sent r)"
proof -
  let ?a = "fa_assemblies st ! it"
  have send: "sendable f" and seq: "vc_seq (vf_header f) = q" using good f by (auto simp: good_stream_def)
  have w: "wire_header f d p" using wire_datagram_cases [OF send d] p by (auto simp: wire_header_def)
  then have ok: "check_chunk_header p (length d) = ChunkOk" and q: "vc_seq p = q"
    using seq by (auto simp: wire_header_def same_template_def)
  have mem: "?a \<in> set (fa_assemblies st)" using it(1) by (rule nth_mem)
  then have live: "live_ok st ?a" using faith by (auto simp: faithful_def asm_inv_def)
  have con: "consistent f ?a" using faith mem it(2) q f unfolding faithful_def by force
  have wf: "wf_assembly ?a" using live by (simp add: live_ok_def)
  note after = consistent_after [OF send d wf con p]
  have inv: "asm_inv st'" using asm_inv_push_into [OF ok _ it(1)] faith out
    by (metis faithful_def snd_conv)
  have update: "faithful sent st'" if "st' = st\<lparr>fa_assemblies := (fa_assemblies st)[it := b]\<rparr>"
    "consistent f b" "as_seq b = q" for b
    using that faith inv f set_update_subset_insert [of "fa_assemblies st" it b]
    by (auto simp: faithful_def)
  from ok it(1) wf show ?thesis
  proof (cases rule: push_into_assembly_cases [where nowUs = nowUs and result = result])
    case discarded
    then show ?thesis using after by simp
  next
    case (still_partial b)
    then have "as_seq b = q"
      using wf_assembly_after(2) [OF ok wf after(2)] it q by (simp add: same_frame_def)
    then show ?thesis using still_partial update after(1) out by auto
  next
    case (queued b)
    then have "as_seq (b\<lparr>as_complete := True\<rparr>) = q"
      using wf_assembly_after(2) [OF ok wf after(2)] it q by (simp add: same_frame_def)
    moreover have "consistent f (b\<lparr>as_complete := True\<rparr>)"
      using after(1) queued(2) by (simp add: consistent_def)
    ultimately show ?thesis using queued update out by auto
  next
    case (delivered b res)
    note b = wf_assembly_after [OF ok wf after(2), of nowUs, folded delivered(2)]
    have bq: "as_seq b = q" using b it q by (simp add: same_frame_def)
    have con_b: "consistent f b" using after(1) delivered(2) by simp
    have "is_sent_frame sent res"
      using deliver_is_sent [OF good b(1) delivered(4) _ con_b delivered(5)] f bq by simp
    moreover have "sr_packetSeq r = sr_packetSeq res" "sr_payload r = sr_payload res"
      "sr_header r = sr_header res" "sr_disposition r = Completed"
      using delivered out by auto
    ultimately have "is_sent_frame sent r" by (simp add: is_sent_frame_def)
    moreover have "faithful sent st'"
    proof -
      have "set (fa_assemblies st') \<subseteq> set ((fa_assemblies st)[it := b])"
        using delivered(5) out by (auto simp: deliver_assembly_def Let_def)
      then show ?thesis
        using faith inv f con_b bq set_update_subset_insert [of "fa_assemblies st" it b]
        unfolding faithful_def by blast
    qed
    ultimately show ?thesis using \<open>sr_disposition r = Completed\<close> by simp
  qed
qed

lemma push_faithful:
  assumes good: "good_stream sent" and faith: "faithful sent st"
    and d: "sent_datagram sent d" and out: "push_datagram admit d nowUs st = (r, st')"
  shows "faithful sent st' \<and> sr_disposition r \<noteq> Malformed \<and>
    (sr_disposition r = Completed \<longrightarrow> is_sent_frame sent r)"
proof -
  obtain q f where f: "sent q = Some f" and df: "d \<in> wire_datagrams f"
    using d by (auto simp: sent_datagram_def)
  have send: "sendable f" and seq: "vc_seq (vf_header f) = q" using good f by (auto simp: good_stream_def)
  define p where p: "p = decode_video_chunk_header d"
  have w: "wire_header f d p" using wire_datagram_cases [OF send df] p by (auto simp: wire_header_def)
  then have ok: "check_chunk_header p (length d) = ChunkOk" and len: "88 \<le> length d"
    and q: "vc_seq p = q"
    using seq by (auto simp: wire_header_def same_template_def)
  have inv: "asm_inv st" using faith by (simp add: faithful_def)
  obtain result where acc: "push_accepted admit p d nowUs result st = (r, st')"
    using out ok len by (auto simp: push_datagram_def Let_def p)
  from ok inv show ?thesis
  proof (cases rule: push_accepted_cases [where admit = admit and nowUs = nowUs and result = result])
    case (refused r0)
    then show ?thesis using acc faith by simp
  next
    case (live it r0)
    then have "push_into_assembly p d nowUs it r0 st = (r, st')" using acc by simp
    from push_into_faithful [OF good faith f df p live(2,3) this] show ?thesis .
  next
    case (created st1 r0)
    let ?items = "fa_assemblies st1"
    have it: "length ?items - 1 < length ?items" using created(4) by simp
    have last: "?items ! (length ?items - 1) = create_assembly p nowUs"
      using created(4,5) by (simp add: last_conv_nth)
    have "faithful sent st1"
    proof -
      have "consistent f (create_assembly p nowUs)"
        using w send by (intro consistent_create) (auto simp: wire_header_def)
      moreover have "as_seq (create_assembly p nowUs) = q" using wf_create_assembly(3) [OF ok] q by simp
      moreover have "set ?items \<subseteq> insert (create_assembly p nowUs) (set (fa_assemblies st))"
      proof -
        have "?items = butlast ?items @ [create_assembly p nowUs]"
          using created(4,5) append_butlast_last_id by metis
        then have "set ?items = insert (create_assembly p nowUs) (set (butlast ?items))"
          by (metis Un_insert_right list.simps(15) set_append set_empty sup_bot.right_neutral)
        then show ?thesis using subseq_facts(1) [OF created(6)] by auto
      qed
      ultimately show ?thesis using faith created(2) f unfolding faithful_def by blast
    qed
    moreover have "as_seq (?items ! (length ?items - 1)) = vc_seq p"
      using last wf_create_assembly(3) [OF ok] by simp
    moreover have "push_into_assembly p d nowUs (length ?items - 1) r0 st1 = (r, st')"
      using created(1) acc by simp
    ultimately show ?thesis using push_into_faithful [OF good _ f df p it] by blast
  qed
qed

lemma step_faithful:
  assumes good: "good_stream sent" and "asm_step st op outs st'" and "carried sent op"
    and faith: "faithful sent st"
  shows "faithful sent st' \<and> (\<forall>r\<in>set outs. is_sent_frame sent r)"
  using assms(2,3,4)
proof (induction rule: asm_step.induct)
  case (step_push admit d nowUs st r st')
  then show ?case using push_faithful [OF good] by auto
next
  case (step_pop nowUs repairNonKey st out st')
  then have inv: "asm_inv st" and faith: "faithful sent st" by (auto simp: faithful_def)
  obtain items where sub: "subseq items (fa_assemblies st)" and
    out: "case out of None \<Rightarrow> st' = st\<lparr>fa_assemblies := items\<rparr>
     | Some r \<Rightarrow> \<exists>a\<in>set items. as_complete a \<and>
         (r, st') = deliver_assembly a (st\<lparr>fa_assemblies := items\<rparr>)"
    using pop_delivery_loop_result step_pop unfolding pop_delivery_def by blast
  note mem = subseq_facts(1) [OF sub]
  have inv': "asm_inv st'" using asm_inv_pop [OF inv] step_pop unfolding pop_delivery_def by blast
  show ?case
  proof (cases out)
    case None
    then show ?thesis using out faithful_shrink [OF faith inv'] mem by simp
  next
    case (Some r)
    then obtain a where a: "a \<in> set items" "as_complete a"
      "(r, st') = deliver_assembly a (st\<lparr>fa_assemblies := items\<rparr>)" using out by auto
    then have held: "a \<in> set (fa_assemblies st)" using mem by auto
    then obtain f where "sent (as_seq a) = Some f" "consistent f a"
      using faith unfolding faithful_def by blast
    moreover have "live_ok st a" using held faith by (auto simp: faithful_def asm_inv_def)
    ultimately have "is_sent_frame sent r"
      using deliver_is_sent [OF good _ _ _ _ a(3)] a(2) by (simp add: live_ok_def)
    moreover have "set (fa_assemblies st') \<subseteq> set (fa_assemblies st)"
      using a(3) mem by (auto simp: deliver_assembly_def Let_def)
    ultimately show ?thesis using Some faithful_shrink [OF faith inv'] by simp
  qed
next
  case (step_give_up generation seq nowUs st gone st')
  then have "asm_inv st'" "set (fa_assemblies st') \<subseteq> set (fa_assemblies st)"
    using asm_inv_give_up [of st generation seq nowUs] give_up_subset [of generation seq nowUs st]
    by (auto simp: faithful_def)
  then show ?case using faithful_shrink step_give_up by simp
next
  case (step_key st generation seq)
  have "fa_assemblies (note_key_accepted generation seq st) = fa_assemblies st"
    by (simp add: note_key_accepted_def Let_def)
  then show ?case
    using step_key faithful_shrink asm_inv_note_key [of st generation seq] by (simp add: faithful_def)
qed

lemma traffic_faithful:
  assumes "traffic sent st0 outs st" and "good_stream sent" and "faithful sent st0"
  shows "faithful sent st \<and> (\<forall>r\<in>set outs. is_sent_frame sent r)"
  using assms
proof (induction rule: traffic.induct)
  case (traffic_step st outs st' op outs' st'')
  then have IH: "faithful sent st'" "\<forall>r\<in>set outs. is_sent_frame sent r" by auto
  from step_faithful [OF traffic_step.prems(1) traffic_step.hyps(3,2) IH(1)] IH(2)
  show ?case by auto
qed simp

lemma traffic_run: "traffic sent st0 outs st \<Longrightarrow> asm_run st0 outs st"
  by (induction rule: traffic.induct) (auto intro: asm_run.intros)

lemma faithful_fresh: "faithful sent (fresh_assembler hold conc held)"
  by (simp add: faithful_def)
    (simp add: fresh_assembler_def configure_in_order_hold_def initial_assembler_def)

section \<open>Repair leaves no group with one hole\<close>

definition group_missing :: "assembly \<Rightarrow> nat \<Rightarrow> nat list" where
  "group_missing a g = filter (\<lambda>i. \<not> as_received a ! i) (assembly_group a g)"

definition closed_group :: "assembly \<Rightarrow> nat \<Rightarrow> bool" where
  "closed_group a g \<longleftrightarrow> (as_parityReceived a ! g \<longrightarrow> length (group_missing a g) \<noteq> 1)"

definition covers :: "assembly \<Rightarrow> assembly \<Rightarrow> bool" where
  "covers a b \<longleftrightarrow> (\<forall>i<length (as_received a). as_received a ! i \<longrightarrow> as_received b ! i) \<and>
    length (as_received b) = length (as_received a) \<and>
    as_parityReceived b = as_parityReceived a \<and>
    as_parityInterleaved b = as_parityInterleaved a \<and> length (as_parity b) = length (as_parity a) \<and>
    as_chunkCount b = as_chunkCount a"

lemma covers_refl [simp]: "covers a a" by (simp add: covers_def)

lemma covers_trans: "covers a b \<Longrightarrow> covers b c \<Longrightarrow> covers a c" by (auto simp: covers_def)

lemma repair_group_closes:
  fixes nowUs :: u64 and r :: u32
  assumes wf: "wf_assembly a" and g: "g < length (as_parity a)"
  defines "b \<equiv> fst (repair_group nowUs g (a, r))"
  shows "covers a b" "closed_group b g"
    "g' < length (as_parity a) \<Longrightarrow> g' \<noteq> g \<Longrightarrow> closed_group b g' = closed_group a g'"
proof -
  have "covers a b \<and> closed_group b g \<and>
    (g' < length (as_parity a) \<longrightarrow> g' \<noteq> g \<longrightarrow> closed_group b g' = closed_group a g')"
  proof (cases rule: repair_group_cases [of nowUs g a r])
    case idle
    have "as_parityReceived a ! g \<Longrightarrow> length (group_missing a g) \<noteq> 1"
    proof
      assume par: "as_parityReceived a ! g" and "length (group_missing a g) = 1"
      then obtain m where m: "group_missing a g = [m]" by (auto simp: length_Suc_conv)
      have "snd (repair_group nowUs g (a, r)) = r + 1"
        using m by (simp add: repair_group_def par group_missing_def Let_def)
      with idle show False by simp
    qed
    then show ?thesis unfolding b_def idle by (simp add: closed_group_def)
  next
    case (repaired m)
    note m = missing_in_group [OF repaired(2)]
    have b: "b = fst (repair_group nowUs g (a, r))" by (simp add: b_def)
    have rec: "as_received b = (as_received a)[m := True]" and grp: "assembly_group b = assembly_group a"
      and par: "as_parityReceived b = as_parityReceived a"
      unfolding b repaired(3) by (simp_all add: assembly_group_def [abs_def])
    have "length (as_received a) = unat (as_chunkCount a)" using wf by (simp add: wf_assembly_def Let_def)
    then have m_len: "m < length (as_received a)"
      using m(1) g by (simp add: assembly_group_eq fec_group_bound)
    have "covers a b"
      unfolding covers_def rec par b repaired(3) using m_len by (auto simp: nth_list_update)
    moreover have "group_missing b g = []"
      using m m_len by (auto simp: group_missing_def grp rec filter_empty_conv nth_list_update)
    moreover have "closed_group b g' = closed_group a g'" if "g' < length (as_parity a)" "g' \<noteq> g"
    proof -
      have "m \<notin> set (assembly_group a g')"
        using m(1) that g by (auto simp: assembly_group_eq mem_fec_group_iff)
      then have "group_missing b g' = group_missing a g'"
        unfolding group_missing_def grp rec by (intro filter_cong refl) (metis nth_list_update_neq)
      then show ?thesis by (simp add: closed_group_def par)
    qed
    ultimately show ?thesis by (simp add: closed_group_def)
  qed
  then show "covers a b" "closed_group b g"
    "g' < length (as_parity a) \<Longrightarrow> g' \<noteq> g \<Longrightarrow> closed_group b g' = closed_group a g'" by auto
qed

lemma repair_groups_closes:
  assumes wf: "wf_assembly a"
  shows "covers a (fst (repair_groups nowUs a)) \<and>
    (\<forall>g<length (as_parity a). closed_group (fst (repair_groups nowUs a)) g)"
proof -
  have "wf_assembly (fst out) \<and> covers a (fst out) \<and> (\<forall>g<k. closed_group (fst out) g)"
    if "out = fold (repair_group nowUs) [0..<k] (a, 0)" "k \<le> length (as_parity a)" for k out
    using that
  proof (induction k arbitrary: out)
    case (Suc k)
    obtain b r where br: "fold (repair_group nowUs) [0..<k] (a, 0) = (b, r)" by fastforce
    then have IH: "wf_assembly b" "covers a b" "\<forall>g<k. closed_group b g"
      using Suc.IH [OF refl] Suc.prems by auto
    have out: "out = repair_group nowUs k (b, r)" using Suc.prems br by simp
    have k: "k < length (as_parity b)" using IH(2) Suc.prems by (simp add: covers_def)
    note step = repair_group_closes [OF IH(1) k, where nowUs = nowUs and r = r] wf_repair_group(1) [OF IH(1) k, of nowUs r]
    have "closed_group (fst out) g" if "g < Suc k" for g
    proof (cases "g = k")
      case True
      then show ?thesis using step(2) out by simp
    next
      case False
      then show ?thesis using step(3) [where g' = g] IH(3) that k out by simp
    qed
    then show ?case using step(1,4) out IH(2) covers_trans by blast
  qed (use wf in simp)
  from this [OF refl order_refl] show ?thesis by (simp add: repair_groups_def)
qed

lemma covers_received:
  "covers a b \<Longrightarrow> i < length (as_received a) \<Longrightarrow> as_received a ! i \<Longrightarrow> as_received b ! i"
  by (simp add: covers_def)

text \<open>
  What a frame's own assembly knows after a datagram \<open>d\<close>: what it knew before, the chunk or
  the parity of \<open>d\<close>, and every group with parity repaired as far as it can be.
\<close>

definition knows :: "video_frame \<Rightarrow> bytes set \<Rightarrow> assembly \<Rightarrow> bool" where
  "knows f ds a \<longleftrightarrow>
    (\<forall>i<g_chunkCount (vf_geometry f).
      data_datagram (vf_payload f) (vf_header f) (vf_geometry f) i \<in> ds \<longrightarrow> as_received a ! i) \<and>
    (\<forall>g<g_fecGroupCount (vf_geometry f).
      parity_datagram (vf_payload f) (vf_header f) (vf_geometry f) (vf_interleaved f) g \<in> ds \<longrightarrow>
      as_parityReceived a ! g) \<and>
    (\<forall>g<g_fecGroupCount (vf_geometry f). closed_group a g)"

lemma data_datagram_index:
  assumes "sendable f" "i < g_chunkCount (vf_geometry f)"
    "data_datagram (vf_payload f) (vf_header f) (vf_geometry f) i = d" "wire_header f d p"
  shows "unat (vc_chunkIndex p) = i" "\<not> parity_packet p"
  using data_chunk_accepted(1,5,6) [OF assms(1,2)] assms(3,4) by (auto simp: wire_header_def)

lemma parity_datagram_index:
  assumes "sendable f" "g < g_fecGroupCount (vf_geometry f)"
    "parity_datagram (vf_payload f) (vf_header f) (vf_geometry f) (vf_interleaved f) g = d"
    "wire_header f d p"
  shows "unat (vc_chunkIndex p) = parity_first_chunk (vf_interleaved f) g" "parity_packet p"
  using parity_chunk_accepted(1,5,7) [OF assms(1,2)] assms(3,4) by (auto simp: wire_header_def)

lemma parity_first_chunk_inj: "parity_first_chunk il g = parity_first_chunk il g' \<Longrightarrow> g = g'"
  by (simp add: parity_first_chunk_def kUdpVideoFecGroupSize_def split: if_splits)

lemma knows_after:
  assumes f: "sendable f" and d: "d \<in> wire_datagrams f" and wf: "wf_assembly a" and con: "consistent f a"
    and p: "p = decode_video_chunk_header d" and k: "knows f ds a \<or> ds = {}"
  shows "knows f (insert d ds) (assembly_after p d nowUs a)"
proof -
  let ?n = "g_chunkCount (vf_geometry f)" and ?G = "g_fecGroupCount (vf_geometry f)"
  note sizes = consistent_sizes [OF con wf f]
  have match: "assembly_matches a p" using consistent_after(2) [OF f d wf con p] .
  let ?st = "if parity_packet p then the (store_parity p d a) else store_data p d nowUs a"
  have after: "assembly_after p d nowUs a = fst (repair_groups nowUs ?st)"
    by (simp add: assembly_after_def)
  obtain wst: "wf_assembly ?st" and lst: "length (as_received ?st) = ?n" "length (as_parity ?st) = ?G"
    and old: "\<And>i. as_received a ! i \<Longrightarrow> as_received ?st ! i"
      "\<And>g. as_parityReceived a ! g \<Longrightarrow> as_parityReceived ?st ! g"
    and newd: "\<And>i. i < ?n \<Longrightarrow>
      data_datagram (vf_payload f) (vf_header f) (vf_geometry f) i = d \<Longrightarrow> as_received ?st ! i"
    and newp: "\<And>g. g < ?G \<Longrightarrow>
      parity_datagram (vf_payload f) (vf_header f) (vf_geometry f) (vf_interleaved f) g = d \<Longrightarrow>
      as_parityReceived ?st ! g"
    using f d
  proof (cases rule: wire_datagram_cases)
    case (data p' i)
    then have w: "wire_header f d p" and [simp]: "p' = p" using p by (auto simp: wire_header_def)
    have ok: "check_chunk_header p (length d) = ChunkOk" using w by (simp add: wire_header_def)
    have st: "?st = store_data p d nowUs a" using data(2) by simp
    note wfs = wf_store_data [OF ok _ wf match, of nowUs]
    have cons: "consistent f ?st"
      using consistent_store_data [OF f wf con w data(3)] data st by simp
    note sz = consistent_sizes [OF cons _ f]
    show thesis
    proof (rule that)
      show wst: "wf_assembly ?st" using wfs(1) data(2) st by simp
      then show "length (as_received ?st) = ?n" "length (as_parity ?st) = ?G" using sz by auto
      show "as_received a ! j \<Longrightarrow> as_received ?st ! j" for j
        using st data(2,3,4) sizes(3) by (auto simp: store_data_def Let_def nth_list_update)
      show "as_parityReceived a ! g \<Longrightarrow> as_parityReceived ?st ! g" for g
        using st data(2) by (simp add: store_data_def Let_def)
      show "as_received ?st ! j" if "j < ?n"
        "data_datagram (vf_payload f) (vf_header f) (vf_geometry f) j = d" for j
        using data_datagram_index(1) [OF f that w] st sizes(3) that(1) data(2)
        by (auto simp: store_data_def Let_def)
      show "as_parityReceived ?st ! g" if "g < ?G"
        "parity_datagram (vf_payload f) (vf_header f) (vf_geometry f) (vf_interleaved f) g = d" for g
        using parity_datagram_index(2) [OF f that w] data(2) by simp
    qed
  next
    case (parity p' g)
    then have w: "wire_header f d p" and [simp]: "p' = p" using p by (auto simp: wire_header_def)
    have ok: "check_chunk_header p (length d) = ChunkOk" using w by (simp add: wire_header_def)
    have st: "?st = the (store_parity p d a)" using parity(2) by simp
    have wst: "wf_assembly ?st" using wf_store_parity [OF ok _ wf match] parity(2) st by auto
    note cs = consistent_store_parity [OF f wf con w, where g = g]
    have cons: "consistent f ?st" and rec: "as_received ?st = as_received a"
      and par: "as_parityReceived ?st = (as_parityReceived a)[g := True]"
      using cs parity st by auto
    note sz = consistent_sizes [OF cons wst f]
    show thesis
    proof (rule that [OF wst sz(3,4)])
      show "as_received a ! j \<Longrightarrow> as_received ?st ! j" for j using rec by simp
      show "as_parityReceived a ! h \<Longrightarrow> as_parityReceived ?st ! h" for h
        using par parity(4) sizes(5) by (auto simp: nth_list_update)
      show "as_received ?st ! j" if "j < ?n"
        "data_datagram (vf_payload f) (vf_header f) (vf_geometry f) j = d" for j
        using data_datagram_index(2) [OF f that w] parity(2) by simp
      show "as_parityReceived ?st ! h" if "h < ?G"
        "parity_datagram (vf_payload f) (vf_header f) (vf_geometry f) (vf_interleaved f) h = d" for h
      proof -
        have "h = g"
          using parity_datagram_index(1) [OF f that w] parity(5) by (auto dest: parity_first_chunk_inj)
        then show ?thesis unfolding par using sizes(5) that(1) by simp
      qed
    qed
  qed
  note closes = repair_groups_closes [OF wst, of nowUs, folded after]
  show ?thesis
    unfolding knows_def
  proof (intro conjI allI impI)
    fix i assume i: "i < ?n" and "data_datagram (vf_payload f) (vf_header f) (vf_geometry f) i \<in> insert d ds"
    then have "as_received ?st ! i" using newd [OF i] old(1) k by (auto simp: knows_def)
    then show "as_received (assembly_after p d nowUs a) ! i"
      using covers_received [OF conjunct1 [OF closes]] lst(1) i by simp
  next
    fix g assume g: "g < ?G"
      and "parity_datagram (vf_payload f) (vf_header f) (vf_geometry f) (vf_interleaved f) g \<in> insert d ds"
    then have "as_parityReceived ?st ! g" using newp [OF g] old(2) k by (auto simp: knows_def)
    then show "as_parityReceived (assembly_after p d nowUs a) ! g" using closes by (simp add: covers_def)
  next
    fix g assume "g < ?G"
    then show "closed_group (assembly_after p d nowUs a) g" using closes lst(2) by simp
  qed
qed

section \<open>Recovery\<close>

text \<open>
  Enough of a frame arrived: in every FEC group all data datagrams, or all but one together
  with the group's parity.
\<close>

definition enough :: "video_frame \<Rightarrow> bytes set \<Rightarrow> bool" where
  "enough f ds \<longleftrightarrow> (\<forall>g<g_fecGroupCount (vf_geometry f).
    let lost = filter (\<lambda>i. data_datagram (vf_payload f) (vf_header f) (vf_geometry f) i \<notin> ds)
      (fec_group (vf_interleaved f) (g_chunkCount (vf_geometry f)) (g_fecGroupCount (vf_geometry f)) g)
    in lost = [] \<or> (length lost = 1 \<and>
      parity_datagram (vf_payload f) (vf_header f) (vf_geometry f) (vf_interleaved f) g \<in> ds))"

lemma enough_completes:
  assumes f: "sendable f" and wf: "wf_assembly a" and con: "consistent f a"
    and k: "knows f ds a" and e: "enough f ds"
  shows "as_receivedCount a = unat (as_chunkCount a)"
proof -
  let ?n = "g_chunkCount (vf_geometry f)" and ?G = "g_fecGroupCount (vf_geometry f)"
    and ?il = "vf_interleaved f"
  let ?have = "\<lambda>i. data_datagram (vf_payload f) (vf_header f) (vf_geometry f) i \<in> ds"
  note sizes = consistent_sizes [OF con wf f] and lay = sendable_layout(1) [OF f]
  have "as_received a ! i" if i: "i < ?n" for i
  proof (rule ccontr)
    assume hole: "\<not> as_received a ! i"
    let ?g = "group_of ?il ?G i"
    have g: "?g < ?G" using group_of_less [OF lay i] .
    let ?grp = "fec_group ?il ?n ?G ?g"
    let ?lost = "filter (\<lambda>j. \<not> ?have j) ?grp"
    have mem: "i \<in> set ?grp" using mem_fec_group_iff [OF g] i by simp
    have "\<not> ?have i" using k i hole by (auto simp: knows_def)
    with mem have "?lost \<noteq> []" by (auto simp: filter_empty_conv)
    with e g have one: "length ?lost = 1"
      and par: "parity_datagram (vf_payload f) (vf_header f) (vf_geometry f) ?il ?g \<in> ds"
      by (auto simp: enough_def Let_def)
    then have parR: "as_parityReceived a ! ?g" using k g by (simp add: knows_def)
    then have il: "as_parityInterleaved a = ?il" using con g by (simp add: consistent_def Let_def)
    have grp: "assembly_group a ?g = ?grp"
      using con sizes(4) il by (simp add: assembly_group_eq consistent_def Let_def)
    have sub: "set (group_missing a ?g) \<subseteq> set ?lost"
      using k fec_group_bound [OF g] by (auto simp: group_missing_def grp knows_def)
    have dist: "distinct (group_missing a ?g)" by (simp add: group_missing_def grp)
    have "length (group_missing a ?g) \<le> 1"
      using card_mono [OF _ sub] distinct_card [OF dist] card_length [of ?lost] one by simp
    moreover have "i \<in> set (group_missing a ?g)" using mem hole by (simp add: group_missing_def grp)
    then have "0 < length (group_missing a ?g)" by (cases "group_missing a ?g") auto
    moreover have "length (group_missing a ?g) \<noteq> 1"
      using k g parR by (simp add: knows_def closed_group_def)
    ultimately show False by linarith
  qed
  then have "\<forall>i<length (as_received a). as_received a ! i" using sizes(3) by simp
  then have "count_true (as_received a) = length (as_received a)" by (simp only: count_true_full)
  then show ?thesis using wf by (simp add: wf_assembly_def Let_def)
qed

text \<open>A sequence of arrivals, each datagram with its arrival time.\<close>

fun push_all ::
  "(u64 \<Rightarrow> bool) \<Rightarrow> (bytes \<times> u64) list \<Rightarrow> frame_assembler \<Rightarrow>
   assembly_step_result list \<times> frame_assembler" where
  "push_all admit [] st = ([], st)"
| "push_all admit ((d, t) # ds) st =
    (let (r, st1) = push_datagram admit d t st; (rs, st2) = push_all admit ds st1 in (r # rs, st2))"

text \<open>The state while the frame is under way, with the datagrams seen so far.\<close>

definition underway :: "video_frame \<Rightarrow> bytes set \<Rightarrow> frame_assembler \<Rightarrow> bool" where
  "underway f ds st \<longleftrightarrow> asm_inv st \<and> fa_holdMaxUs st = 0 \<and> \<not> fa_saturated st \<and>
    \<not> is_abandoned (vc_streamGeneration (vf_header f)) (vc_seq (vf_header f)) st \<and>
    (fa_deliveredAny st \<longrightarrow> sequence_is_newer (vc_seq (vf_header f)) (fa_lastDeliveredSeq st)) \<and>
    (if ds = {} then vc_seq (vf_header f) \<notin> as_seq ` set (fa_assemblies st)
     else \<exists>a\<in>set (fa_assemblies st). as_seq a = vc_seq (vf_header f) \<and> consistent f a \<and> knows f ds a)"

definition done_with :: "video_frame \<Rightarrow> frame_assembler \<Rightarrow> bool" where
  "done_with f st \<longleftrightarrow> asm_inv st \<and> fa_deliveredAny st \<and>
    fa_lastDeliveredSeq st = vc_seq (vf_header f)"

lemma push_done:
  assumes f: "sendable f" and d: "d \<in> wire_datagrams f" and dn: "done_with f st"
    and out: "push_datagram admit d t st = (r, st')"
  shows "sr_disposition r = Ignored" "done_with f st'"
proof -
  define p where p: "p = decode_video_chunk_header d"
  have w: "wire_header f d p" using wire_datagram_cases [OF f d] p by (auto simp: wire_header_def)
  then have ok: "check_chunk_header p (length d) = ChunkOk" and len: "88 \<le> length d"
    and q: "vc_seq p = vc_seq (vf_header f)"
    by (auto simp: wire_header_def same_template_def)
  obtain result where acc: "push_accepted admit p d t result st = (r, st')"
    using out ok len by (auto simp: push_datagram_def Let_def p)
  have "\<not> sequence_is_newer (vc_seq p) (fa_lastDeliveredSeq st)" "fa_deliveredAny st"
    using dn q by (auto simp: done_with_def)
  with acc have "sr_disposition r = Ignored" "st' = st"
    by (auto simp: push_accepted_def split: if_splits)
  then show "sr_disposition r = Ignored" "done_with f st'" using dn by auto
qed

lemma push_into_underway:
  assumes f: "sendable f" and d: "d \<in> wire_datagrams f" and p: "p = decode_video_chunk_header d"
    and st: "asm_inv st" "fa_holdMaxUs st = 0" "\<not> fa_saturated st"
      "\<not> is_abandoned (vc_streamGeneration (vf_header f)) (vc_seq (vf_header f)) st"
      "fa_deliveredAny st \<longrightarrow> sequence_is_newer (vc_seq (vf_header f)) (fa_lastDeliveredSeq st)"
    and it: "it < length (fa_assemblies st)"
    and a: "a = fa_assemblies st ! it" "as_seq a = vc_seq (vf_header f)" "consistent f a"
      "knows f ds a \<or> ds = {}"
    and out: "push_into_assembly p d t it result st = (r, st')"
  shows "(sr_disposition r = Partial \<and> underway f (insert d ds) st' \<and> \<not> enough f (insert d ds)) \<or>
    (sr_disposition r = Completed \<and> sr_payload r = vf_payload f \<and>
     sr_packetSeq r = vc_seq (vf_header f) \<and> done_with f st')"
proof -
  have w: "wire_header f d p" using wire_datagram_cases [OF f d] p by (auto simp: wire_header_def)
  then have ok: "check_chunk_header p (length d) = ChunkOk" by (simp add: wire_header_def)
  have wf: "wf_assembly a" using st(1) it a(1) by (auto simp: asm_inv_def live_ok_def)
  note after = consistent_after [OF f d wf a(3) p]
  note b = wf_assembly_after [OF ok wf after(2), of t]
  note kn = knows_after [OF f d wf a(3) p a(4), of t]
  have inv': "asm_inv st'" using asm_inv_push_into [OF ok st(1) it] out by (metis snd_conv)
  have seq: "as_seq (assembly_after p d t a) = vc_seq (vf_header f)" using b(2) a(2) by (simp add: same_frame_def)
  from ok it wf [unfolded a(1)] show ?thesis
  proof (cases rule: push_into_assembly_cases [where nowUs = t and result = result])
    case discarded
    then show ?thesis using after(2) a(1) by simp
  next
    case (still_partial b')
    then have b': "b' = assembly_after p d t a" and st': "st' = st\<lparr>fa_assemblies := (fa_assemblies st)[it := b']\<rparr>"
      using a(1) out by auto
    have "b' \<in> set (fa_assemblies st')" using it st' by (simp add: set_update_memI)
    then have "underway f (insert d ds) st'"
      using st inv' after(1) kn seq b' st' unfolding underway_def is_abandoned_def by auto
    moreover have "\<not> enough f (insert d ds)"
      using enough_completes [OF f b(1) after(1) kn] still_partial(3) b' by auto
    ultimately show ?thesis using still_partial out by simp
  next
    case (queued b')
    then show ?thesis using st(2) by simp
  next
    case (delivered b' res)
    then have b': "b' = assembly_after p d t a" using a(1) by simp
    have "sr_payload res = as_payload b'" "sr_packetSeq res = as_seq b'"
      "fa_deliveredAny st'" "fa_lastDeliveredSeq st' = as_seq b'"
      using delivered(5) out by (auto simp: deliver_assembly_def Let_def)
    moreover have "as_payload b' = vf_payload f"
      using consistent_complete [OF f b(1) after(1)] delivered(4) b' by simp
    ultimately show ?thesis
      using delivered out inv' seq b' by (simp add: done_with_def)
  qed
qed

lemma push_underway:
  assumes f: "sendable f" and d: "d \<in> wire_datagrams f" and u: "underway f ds st"
    and out: "push_datagram admit d t st = (r, st')"
  shows "(sr_disposition r = Partial \<and> underway f (insert d ds) st' \<and> \<not> enough f (insert d ds)) \<or>
    (sr_disposition r = Completed \<and> sr_payload r = vf_payload f \<and>
     sr_packetSeq r = vc_seq (vf_header f) \<and> done_with f st')"
proof -
  define p where p: "p = decode_video_chunk_header d"
  have w: "wire_header f d p" using wire_datagram_cases [OF f d] p by (auto simp: wire_header_def)
  then have ok: "check_chunk_header p (length d) = ChunkOk" and len: "88 \<le> length d"
    and q: "vc_seq p = vc_seq (vf_header f)" "vc_streamGeneration p = vc_streamGeneration (vf_header f)"
    by (auto simp: wire_header_def same_template_def)
  obtain result where acc: "push_accepted admit p d t result st = (r, st')"
    using out ok len by (auto simp: push_datagram_def Let_def p)
  have st: "asm_inv st" "fa_holdMaxUs st = 0" "\<not> fa_saturated st"
      "\<not> is_abandoned (vc_streamGeneration (vf_header f)) (vc_seq (vf_header f)) st"
      "fa_deliveredAny st \<longrightarrow> sequence_is_newer (vc_seq (vf_header f)) (fa_lastDeliveredSeq st)"
    using u by (simp_all add: underway_def)
  from ok st(1) show ?thesis
  proof (cases rule: push_accepted_cases [where admit = admit and nowUs = t and result = result])
    case (refused r0)
    then show ?thesis using st q by auto
  next
    case (live it r0)
    let ?a = "fa_assemblies st ! it"
    have mem: "?a \<in> set (fa_assemblies st)" using live(2) by simp
    then have "ds \<noteq> {}" using u live(3) q by (force simp: underway_def)
    then obtain a where a: "a \<in> set (fa_assemblies st)" "as_seq a = vc_seq (vf_header f)"
      "consistent f a" "knows f ds a" using u by (auto simp: underway_def)
    have "a = ?a" using st(1) a(1,2) mem live(3) q(1)
      by (auto simp: asm_inv_def distinct_map inj_on_def)
    with push_into_underway [OF f d p st live(2), of ?a ds t r0 r st'] a live(1) acc
    show ?thesis by simp
  next
    case (created st1 r0)
    let ?items = "fa_assemblies st1"
    have it: "length ?items - 1 < length ?items" using created(4) by simp
    have last: "create_assembly p t = ?items ! (length ?items - 1)"
      using created(4,5) by (simp add: last_conv_nth)
    have empty: "ds = {}" using u created(8) q by (force simp: underway_def split: if_splits)
    have st1: "fa_holdMaxUs st1 = 0" "\<not> fa_saturated st1"
      "\<not> is_abandoned (vc_streamGeneration (vf_header f)) (vc_seq (vf_header f)) st1"
      "fa_deliveredAny st1 \<longrightarrow> sequence_is_newer (vc_seq (vf_header f)) (fa_lastDeliveredSeq st1)"
      using created(3) st by (auto simp: same_session_def is_abandoned_def)
    have "consistent f (create_assembly p t)"
      using w f by (intro consistent_create) (auto simp: wire_header_def)
    moreover have "as_seq (create_assembly p t) = vc_seq (vf_header f)"
      using wf_create_assembly(3) [OF ok] q by simp
    moreover have "push_into_assembly p d t (length ?items - 1) r0 st1 = (r, st')"
      using created(1) acc by simp
    ultimately show ?thesis
      using push_into_underway [OF f d p created(2) st1 it last, of ds t r0 r st'] empty by simp
  qed
qed

abbreviation completed :: "assembly_step_result \<Rightarrow> bool" where
  "completed r \<equiv> sr_disposition r = Completed"

lemma push_all_done:
  assumes "sendable f" "done_with f st" "fst ` set ds \<subseteq> wire_datagrams f"
  shows "filter completed (fst (push_all admit ds st)) = []"
  using assms(2,3)
proof (induction ds arbitrary: st)
  case (Cons dt ds)
  obtain d t where [simp]: "dt = (d, t)" by (cases dt)
  obtain r st1 where r: "push_datagram admit d t st = (r, st1)" by fastforce
  have "sr_disposition r = Ignored" "done_with f st1"
    using push_done [OF assms(1) _ Cons.prems(1) r] Cons.prems(2) by auto
  then show ?case using Cons.IH [of st1] Cons.prems(2) r by (simp add: case_prod_unfold Let_def)
qed simp

lemma push_all_underway:
  assumes "sendable f" "underway f seen st" "fst ` set ds \<subseteq> wire_datagrams f" "ds \<noteq> []"
    and "enough f (seen \<union> fst ` set ds)"
  shows "\<exists>r. filter completed (fst (push_all admit ds st)) = [r] \<and> sr_payload r = vf_payload f \<and>
    sr_packetSeq r = vc_seq (vf_header f)"
  using assms(2-5)
proof (induction ds arbitrary: st seen)
  case (Cons dt ds)
  obtain d t where [simp]: "dt = (d, t)" by (cases dt)
  obtain r st1 where r: "push_datagram admit d t st = (r, st1)" by fastforce
  have d: "d \<in> wire_datagrams f" using Cons.prems(2) by simp
  from push_underway [OF assms(1) d Cons.prems(1) r] show ?case
  proof (elim disjE conjE)
    assume part: "sr_disposition r = Partial" "underway f (insert d seen) st1" "\<not> enough f (insert d seen)"
    then have "ds \<noteq> []" using Cons.prems(4) by (cases ds) auto
    then show ?thesis
      using Cons.IH [OF part(2)] Cons.prems(2,4) part(1) r by (simp add: case_prod_unfold Let_def)
  next
    assume comp: "sr_disposition r = Completed" "sr_payload r = vf_payload f"
      "sr_packetSeq r = vc_seq (vf_header f)" "done_with f st1"
    then show ?thesis
      using push_all_done [OF assms(1) comp(4), of ds admit] Cons.prems(2) r
      by (simp add: case_prod_unfold Let_def)
  qed
qed simp

text \<open>
  C1. Integrity of the video path. Whatever the network does to the datagrams of the host's
  stream (loss, duplication, reordering, interleaving of frames, replays) and whatever the
  receiver does in between (polls, give-ups, recovery episodes), every frame delivered is,
  byte for byte and with its header, the frame the host sent under that sequence number.
\<close>

theorem video_integrity:
  assumes "good_stream sent"
    and "traffic sent (fresh_assembler maxHoldUs maxConcurrent maxHeldBytes) outs st"
    and "r \<in> set outs"
  shows "\<exists>f. sent (sr_packetSeq r) = Some f \<and> sr_payload r = vf_payload f \<and>
    ef_payloadSize (sr_header r) = of_nat (length (vf_payload f)) \<and>
    ef_streamGeneration (sr_header r) = vc_streamGeneration (vf_header f) \<and>
    ef_width (sr_header r) = vc_width (vf_header f) \<and>
    ef_height (sr_header r) = vc_height (vf_header f)"
  using traffic_faithful [OF assms(2,1) faithful_fresh] assms(3)
  by (auto simp: is_sent_frame_def create_assembly_def Let_def)


text \<open>
  The two ends agree on the wire format: in any such run no datagram of the host's stream
  is ever judged malformed, neither by its header nor against the assembly it joins.
\<close>

theorem sent_never_malformed:
  assumes "good_stream sent"
    and "traffic sent (fresh_assembler maxHoldUs maxConcurrent maxHeldBytes) outs st"
    and "sent_datagram sent d"
  shows "sr_disposition (fst (push_datagram admit d nowUs st)) \<noteq> Malformed"
  using push_faithful [OF assms(1) _ assms(3)] traffic_faithful [OF assms(2,1) faithful_fresh]
  by (metis prod.collapse)

text \<open>The replay of a NACK repeats datagrams of the original send, byte for byte.\<close>

lemma replay_repeats_sent:
  assumes "replay_datagrams (vf_payload f) (vf_header f) (vf_mtu f)
    (eg_fecSingleChunkTightStride (vf_egress f)) indices = Some ds"
  shows "set ds \<subseteq> wire_datagrams f"
  using assms by (auto simp: replay_datagrams_def wire_datagrams_def vf_geometry_def Let_def
      split: if_splits)

text \<open>A complete send puts exactly the frame's wire datagrams on the wire.\<close>

lemma frame_datagrams_wire:
  "frame_datagrams (vf_payload f) (vf_header f) (vf_mtu f) (vf_egress f) = Some ds \<Longrightarrow>
   set ds = wire_datagrams f"
  by (auto simp: frame_datagrams_def wire_datagrams_def vf_geometry_def Let_def atLeast0LessThan
      split: if_splits)

section \<open>Concrete frames\<close>

definition example_frame :: "u32 \<Rightarrow> bytes \<Rightarrow> video_frame" where
  "example_frame seq payload = \<lparr>vf_payload = payload,
    vf_header = \<lparr>vc_magic = kMagic, vc_kind = udp_packet_kind_code UVideoChunk, vc_size = 88,
      vc_seq = seq, vc_codec = kUdpCodecH264, vc_flags = 1, vc_width = 640, vc_height = 360,
      vc_stride = 640, vc_payloadSize = of_nat (length payload), vc_chunkOffset = 0, vc_chunkSize = 0,
      vc_chunkIndex = 0, vc_chunkCount = 0, vc_chunkStride = 0, vc_streamGeneration = 1,
      vc_captureQpcUs = 10, vc_encodeStartQpcUs = 20, vc_encodeEndQpcUs = 30, vc_sendQpcUs = 40\<rparr>,
    vf_mtu = 400,
    vf_egress = \<lparr>eg_pacePeakBps = 0, eg_keyframePacePeakBps = 100000000,
      eg_fecInterleaved = True, eg_fecSingleChunkTightStride = True\<rparr>\<rparr>"

text \<open>A frame of 700 bytes makes three chunks and one parity datagram at an MTU of 400.\<close>

definition example_payload :: bytes where "example_payload = replicate 700 9"

lemma length_example_payload [simp]: "length example_payload = 700"
  by (simp only: example_payload_def length_replicate)

abbreviation three_chunks :: video_frame where
  "three_chunks \<equiv> example_frame 7 example_payload"

lemma three_chunks_geometry:
  "vf_geometry three_chunks = \<lparr>g_valid = True, g_maxChunk = 312, g_chunkStride = 312,
    g_chunkCount = 3, g_fecGroupCount = 1, g_packetCount = 4, g_parityBytes = 312\<rparr>"
  by (simp add: vf_geometry_def example_frame_def udp_chunk_geometry_def geometry_for_def
      clamp_udp_mtu_def kUdpVideoFecGroupSize_def)

lemma three_chunks_sendable: "sendable three_chunks"
  by (simp add: sendable_def three_chunks_geometry) (simp add: example_frame_def)

abbreviation three_data :: "nat \<Rightarrow> bytes" where
  "three_data i \<equiv> data_datagram (vf_payload three_chunks) (vf_header three_chunks) (vf_geometry three_chunks) i"

abbreviation three_parity :: bytes where
  "three_parity \<equiv> parity_datagram (vf_payload three_chunks) (vf_header three_chunks)
    (vf_geometry three_chunks) (vf_interleaved three_chunks) 0"

lemma three_chunks_wire:
  "three_data 0 \<in> wire_datagrams three_chunks" "three_data 1 \<in> wire_datagrams three_chunks"
  "three_data 2 \<in> wire_datagrams three_chunks" "three_parity \<in> wire_datagrams three_chunks"
  by (auto simp: wire_datagrams_def three_chunks_geometry)

lemma enough_three:
  assumes "g_chunkCount (vf_geometry f) = 3" "g_fecGroupCount (vf_geometry f) = 1" "vf_interleaved f"
    and "data_datagram (vf_payload f) (vf_header f) (vf_geometry f) 0 \<in> ds"
      "data_datagram (vf_payload f) (vf_header f) (vf_geometry f) 2 \<in> ds"
      "parity_datagram (vf_payload f) (vf_header f) (vf_geometry f) True 0 \<in> ds"
  shows "enough f ds"
proof -
  have "fec_group True 3 1 0 = [0, 1, 2]" by code_simp
  with assms show ?thesis by (simp add: enough_def Let_def)
qed

lemma three_chunks_enough:
  assumes "three_data 0 \<in> ds" "three_data 2 \<in> ds" "three_parity \<in> ds"
  shows "enough three_chunks ds"
proof -
  have il: "vf_interleaved three_chunks = True" by (simp add: example_frame_def)
  have "g_chunkCount (vf_geometry three_chunks) = 3" "g_fecGroupCount (vf_geometry three_chunks) = 1"
    by (simp_all only: three_chunks_geometry udp_chunk_geom.simps)
  from enough_three [OF this] il assms show ?thesis by (simp only: il)
qed

lemma fresh_fields:
  "asm_inv (fresh_assembler 0 3 0)" "fa_holdMaxUs (fresh_assembler 0 3 0) = 0"
  "\<not> fa_saturated (fresh_assembler 0 3 0)" "\<not> is_abandoned g s (fresh_assembler 0 3 0)"
  "\<not> fa_deliveredAny (fresh_assembler 0 3 0)" "fa_assemblies (fresh_assembler 0 3 0) = []"
  by simp (simp_all add: fresh_assembler_def configure_in_order_hold_def initial_assembler_def
      is_abandoned_def)

definition example_arrivals :: "(bytes \<times> u64) list" where
  "example_arrivals = [(three_parity, 1), (three_data 2, 2), (three_data 2, 3), (three_data 0, 4)]"


abbreviation one_frame :: stream where
  "one_frame \<equiv> [7 \<mapsto> example_frame 7 [1, 2, 3]]"

lemma one_frame_sendable: "sendable (example_frame 7 [1, 2, 3])"
  "vf_geometry (example_frame 7 [1, 2, 3]) = \<lparr>g_valid = True, g_maxChunk = 312, g_chunkStride = 3,
    g_chunkCount = 1, g_fecGroupCount = 1, g_packetCount = 2, g_parityBytes = 3\<rparr>"
  by (simp_all add: sendable_def vf_geometry_def example_frame_def udp_chunk_geometry_def
      geometry_for_def clamp_udp_mtu_def kUdpVideoFecGroupSize_def)

lemma good_one_frame: "good_stream one_frame"
  using one_frame_sendable(1) by (simp add: good_stream_def example_frame_def)

abbreviation one_data :: bytes where
  "one_data \<equiv> data_datagram (vf_payload (example_frame 7 [1, 2, 3])) (vf_header (example_frame 7 [1, 2, 3]))
    (vf_geometry (example_frame 7 [1, 2, 3])) 0"

lemma sent_one_data: "sent_datagram one_frame one_data"
  by (auto simp: sent_datagram_def wire_datagrams_def one_frame_sendable(2))

text \<open>One small frame whose only datagram arrives: a run that delivers it.\<close>

lemma one_frame_delivered:
  obtains r st where "push_datagram (\<lambda>_. True) one_data 5 (fresh_assembler 0 3 0) = (r, st)"
    "completed r" "sr_packetSeq r = 7" "traffic one_frame (fresh_assembler 0 3 0) [r] st"
proof -
  let ?f = "example_frame 7 [1, 2, 3]"
  obtain r st where push: "push_datagram (\<lambda>_. True) one_data 5 (fresh_assembler 0 3 0) = (r, st)"
    by fastforce
  have u: "underway ?f {} (fresh_assembler 0 3 0)"
    by (simp add: underway_def)
      (simp add: fresh_assembler_def configure_in_order_hold_def initial_assembler_def is_abandoned_def)
  have w: "one_data \<in> wire_datagrams ?f" by (auto simp: wire_datagrams_def one_frame_sendable(2))
  have "enough ?f {one_data}"
    by (simp add: enough_def one_frame_sendable(2) Let_def fec_group_def strided_def parity_first_chunk_def)
  then have r: "completed r" "sr_packetSeq r = 7"
    using push_underway [OF one_frame_sendable(1) w u push] by (auto simp: example_frame_def)
  have "traffic one_frame (fresh_assembler 0 3 0) ([] @ [r]) st"
  proof (rule traffic_step [OF traffic_start])
    show "carried one_frame (Push (\<lambda>_. True) one_data 5)" by (simp add: sent_one_data)
    show "asm_step (fresh_assembler 0 3 0) (Push (\<lambda>_. True) one_data 5) [r] st"
      using step_push [OF push] r by simp
  qed
  then show thesis using that push r by simp
qed

theorem video_integrity_witness:
  "\<exists>r st. traffic one_frame (fresh_assembler 0 3 0) [r] st \<and> sr_payload r = [1, 2, 3]"
proof -
  obtain r st where r: "sr_packetSeq r = 7" "traffic one_frame (fresh_assembler 0 3 0) [r] st"
    by (rule one_frame_delivered)
  have "r \<in> set [r]" by simp
  from video_integrity [OF good_one_frame r(2) this] r show ?thesis
    by (auto simp: example_frame_def)
qed

theorem sent_never_malformed_witness:
  "sr_disposition (fst (push_datagram (\<lambda>_. True) one_data 9 (fresh_assembler 0 3 0))) \<noteq> Malformed"
  by (rule sent_never_malformed [OF good_one_frame traffic_start sent_one_data])

end
