(* ===== verification/AssemblerExamples.thy ===== *)
theory AssemblerExamples
  imports VideoPath
begin

text \<open>
  Concrete runs of the assembler: two one-byte chunks, crafted by hand, that no host would
  send, the state they reach, and what follows. Before the first delivery nothing ties the
  sequence numbers of held frames together; two that are exactly half the number space apart
  are older than neither, and \<open>PopDelivery\<close> then never returns. The runs also witness the
  theorems about runs.
\<close>

section \<open>Two crafted datagrams\<close>

definition tiny_header :: "u32 \<Rightarrow> u16 \<Rightarrow> video_chunk_header" where
  "tiny_header seq count = \<lparr>vc_magic = kMagic, vc_kind = 302, vc_size = 88, vc_seq = seq, vc_codec = 2, vc_flags = 1,
     vc_width = 640, vc_height = 360, vc_stride = 640, vc_payloadSize = ucast count, vc_chunkOffset = 0,
     vc_chunkSize = 1, vc_chunkIndex = 0, vc_chunkCount = count, vc_chunkStride = 1,
     vc_streamGeneration = 1, vc_captureQpcUs = 0, vc_encodeStartQpcUs = 0, vc_encodeEndQpcUs = 0,
     vc_sendQpcUs = 0\<rparr>"

definition tiny_chunk :: "u32 \<Rightarrow> u16 \<Rightarrow> bytes" where
  "tiny_chunk seq count = encode_video_chunk_header (tiny_header seq count) @ [5]"

definition tiny_assembly :: "u32 \<Rightarrow> u16 \<Rightarrow> bool \<Rightarrow> assembly" where
  "tiny_assembly seq count done =
    \<lparr>as_seq = seq, as_payloadSize = ucast count, as_chunkCount = count, as_chunkStride = 1, as_receivedCount = 1,
      as_header = \<lparr>ef_magic = kMagic, ef_type = 11, ef_size = 68, ef_seq = seq, ef_width = 640, ef_height = 360,
        ef_payloadSize = 0, ef_flags = 1, ef_streamGeneration = 1, ef_captureQpcUs = 0, ef_encodeStartQpcUs = 0,
        ef_encodeEndQpcUs = 0, ef_sendQpcUs = 0\<rparr>,
      as_payload = 5 # replicate (unat count - 1) 0, as_received = True # replicate (unat count - 1) False,
      as_parity = [[]], as_parityReceived = [False], as_parityInterleaved = False, as_firstPacketUs = 0,
      as_lastProgressUs = 0, as_complete = done, as_fecRecoveredChunks = 0\<rparr>"


lemmas tiny_steps = push_datagram_def push_accepted_def is_abandoned_def episode_admission_def
  find_index_def make_room_def evict_for_bytes.simps create_assembly_def push_into_assembly_def
  assembly_matches_def parity_packet_def store_data_def repair_groups_def repair_group_def
  check_chunk_header_def kUdpCodecH264_def kMaxUdpVideoChunks_def kMaxUdpAssembledPayloadBytes_def
  fresh_assembler_def configure_in_order_hold_def initial_assembler_def kUdpVideoFecGroupSize_def
  kUdpVideoChunkFlagSynthetic_def kEncodedFrameFlagKeyFrame_def

lemma replicate_2: "replicate 2 x = [x, x]"
  by (simp add: numeral_2_eq_2)

lemma tiny_decode:
  "decode_video_chunk_header (tiny_chunk seq count) = tiny_header seq count"
  "slice (tiny_chunk seq count) 88 (Suc 0) = [5]" "length (tiny_chunk seq count) = 89"
  by (simp_all add: tiny_chunk_def wire_simps slice_def)

lemma first_chunk_held: "snd (push_datagram admit (tiny_chunk 0 2) 0 (fresh_assembler 100000 8 0)) =
  (fresh_assembler 100000 8 0)\<lparr>fa_assemblies := [tiny_assembly 0 2 False]\<rparr>"
  by (simp add: tiny_steps tiny_decode tiny_header_def tiny_assembly_def Let_def overwrite_def replicate_2)

lemma second_chunk_held: "snd (push_datagram admit (tiny_chunk 2147483648 1) 0 ((fresh_assembler 100000 8 0)
    \<lparr>fa_assemblies := [tiny_assembly 0 2 False]\<rparr>)) =
  (fresh_assembler 100000 8 0)\<lparr>fa_assemblies := [tiny_assembly 0 2 False, tiny_assembly 2147483648 1 True]\<rparr>"
  by (simp add: tiny_steps tiny_decode tiny_header_def tiny_assembly_def Let_def overwrite_def replicate_2)

abbreviation first_state :: frame_assembler where
  "first_state \<equiv> (fresh_assembler 100000 8 0)\<lparr>fa_assemblies := [tiny_assembly 0 2 False]\<rparr>"

abbreviation stuck_state :: frame_assembler where
  "stuck_state \<equiv> (fresh_assembler 100000 8 0)
    \<lparr>fa_assemblies := [tiny_assembly 0 2 False, tiny_assembly 2147483648 1 True]\<rparr>"

lemma first_chunk_disposition:
  "sr_disposition (fst (push_datagram admit (tiny_chunk 0 2) 0 (fresh_assembler 100000 8 0))) = Partial"
  by (simp add: tiny_steps tiny_decode tiny_header_def tiny_assembly_def Let_def overwrite_def replicate_2
      default_step_result_def)

lemma second_chunk_disposition:
  "sr_disposition (fst (push_datagram admit (tiny_chunk 2147483648 1) 0 first_state)) = Queued"
  by (simp add: tiny_steps tiny_decode tiny_header_def tiny_assembly_def Let_def overwrite_def replicate_2
      default_step_result_def)

lemma run_first: "asm_run (fresh_assembler 100000 8 0) [] first_state"
proof -
  have "asm_step (fresh_assembler 100000 8 0) (Push (\<lambda>_. True) (tiny_chunk 0 2) 0) [] first_state"
    using step_push [of "\<lambda>_. True" "tiny_chunk 0 2" 0 "fresh_assembler 100000 8 0"]
      first_chunk_held [of "\<lambda>_. True"] first_chunk_disposition [of "\<lambda>_. True"]
    by (cases "push_datagram (\<lambda>_. True) (tiny_chunk 0 2) 0 (fresh_assembler 100000 8 0)") simp
  from run_step [OF run_start this] show ?thesis by simp
qed

lemma run_stuck: "asm_run (fresh_assembler 100000 8 0) [] stuck_state"
proof -
  have "asm_step first_state (Push (\<lambda>_. True) (tiny_chunk 2147483648 1) 0) [] stuck_state"
    using step_push [of "\<lambda>_. True" "tiny_chunk 2147483648 1" 0 first_state]
      second_chunk_held [of "\<lambda>_. True"] second_chunk_disposition [of "\<lambda>_. True"]
    by (cases "push_datagram (\<lambda>_. True) (tiny_chunk 2147483648 1) 0 first_state") simp
  from run_step [OF run_first this] show ?thesis by simp
qed

section \<open>The loop that does not end\<close>

text \<open>
  C8. \<open>PopDelivery\<close> need not return before the first delivery: two datagrams whose sequence
  numbers are half the number space apart are accepted, and then no number of rounds brings \<open>PopDelivery\<close> to an end:
  the incomplete head is not older than the complete key, so nothing is erased.
\<close>

theorem pop_delivery_hangs:
  "asm_run (fresh_assembler 100000 8 0) [] stuck_state \<and>
   pop_delivery_loop fuel nowUs repairNonKey stuck_state = None"
proof
  show "asm_run (fresh_assembler 100000 8 0) [] stuck_state" by (rule run_stuck)
  have newer: "\<not> sequence_is_newer (2147483648 :: u32) 0" "\<not> sequence_is_newer (0 :: u32) 2147483648"
    by (simp_all add: sequence_is_newer_iff)
  show "pop_delivery_loop fuel nowUs repairNonKey stuck_state = None"
  proof (induction fuel)
    case (Suc fuel)
    then show ?case
      using newer
      by (simp add: Let_def oldest_index_def newest_complete_key_def tiny_assembly_def is_key_def
          kEncodedFrameFlagKeyFrame_def)
  qed simp
qed

section \<open>Witnesses\<close>

lemma one_frame_run:
  obtains r st where "asm_run (fresh_assembler 0 3 0) [r] st" "sr_packetSeq r = 7"
  using one_frame_delivered traffic_run by metis




text \<open>The first frame is given up; its tombstone stands through a later poll.\<close>

abbreviation given_up :: frame_assembler where
  "given_up \<equiv> snd (give_up_incomplete 1 0 9 first_state)"

lemma given_up: "give_up_incomplete 1 0 9 first_state =
  (True, (fresh_assembler 100000 8 0)\<lparr>fa_abandoned := [\<lparr>ab_generation = 1, ab_seq = 0, ab_atUs = 9\<rparr>]\<rparr>)"
  by (simp add: give_up_incomplete_def tiny_assembly_def find_index_def erase_at_def Let_def
      fresh_assembler_def configure_in_order_hold_def initial_assembler_def
      kAbandonedSaturationCap_def)

lemma run_given_up: "asm_run (fresh_assembler 100000 8 0) [] given_up"
proof -
  have "asm_step first_state (GiveUp 1 0 9) [] given_up"
    by (rule step_give_up [of _ _ _ _ True]) (simp add: given_up)
  from run_step [OF run_first this] show ?thesis by simp
qed

theorem tombstone_stands_witness:
  "is_abandoned 1 0 given_up \<and>
   snd (push_datagram (\<lambda>_. True) (tiny_chunk 0 2) 12 given_up) = given_up"
proof -
  have tomb: "is_abandoned 1 0 given_up" by (simp add: given_up is_abandoned_def)
  have "fa_assemblies given_up = []"
    by (simp only: given_up snd_conv)
      (simp add: fresh_assembler_def configure_in_order_hold_def initial_assembler_def)
  then have "pop_delivery 12 True given_up = Some (None, given_up)" by (simp add: pop_delivery_def)
  from step_pop [OF this] have "asm_step given_up (Pop 12 True) [] given_up" by simp
  note stands = tombstone_stands [OF run_given_up tomb this]
  have "88 \<le> length (tiny_chunk 0 2) \<and> vc_streamGeneration (tiny_header 0 2) = 1 \<and>
      vc_seq (tiny_header 0 2) = 0 \<longrightarrow>
      snd (push_datagram (\<lambda>_. True) (tiny_chunk 0 2) 12 given_up) = given_up"
    using stands by (simp add: Let_def tiny_decode(1) [symmetric])
  with tomb show ?thesis by (simp add: tiny_decode tiny_header_def)
qed

end
