(* ===== verification/WindowPanel.thy ===== *)
theory WindowPanel
  imports Wire
begin

text \<open>
  \<open>WindowPanelStateModel\<close> of \<open>native_video_client_shared_core.cpp\<close>: what the viewer's panel
  shows of the host's windows and screens, and the requests it has pending. The lemmas protect
  two things: an answer is shown only for the selection requested last, and a screen picked by its
  index goes out only against the list the index was taken from. Characters are bytes; the log
  lines of the results are left out.
\<close>

section \<open>State and messages\<close>

record window_entry =
  we_id :: u64
  we_pid :: u32
  we_width :: u32
  we_height :: u32
  we_minimized :: bool
  we_title :: string

record monitor_entry =
  me_id :: u32
  me_x :: u32
  me_y :: u32
  me_width :: u32
  me_height :: u32
  me_primary :: bool
  me_name :: string

text \<open>Entries of the wire messages; the character arrays have 96 and 64 places.\<close>

record wire_window_entry =
  ww_id :: u64
  ww_pid :: u32
  ww_width :: u32
  ww_height :: u32
  ww_flags :: u32
  ww_title :: string

record wire_monitor_entry =
  wm_id :: u32
  wm_x :: u32
  wm_y :: u32
  wm_width :: u32
  wm_height :: u32
  wm_flags :: u32
  wm_name :: string

record window_list_message =
  wl_flags :: u32
  wl_selectedWindowId :: u64
  wl_itemCount :: u32
  wl_items :: "wire_window_entry list"

record monitor_list_message =
  ml_selectedMonitorId :: u32
  ml_itemCount :: u32
  ml_items :: "wire_monitor_entry list"

record window_selected_message =
  wsd_seq :: u32
  wsd_flags :: u32
  wsd_windowId :: u64
  wsd_streamGeneration :: u64
  wsd_reason :: string
  wsd_title :: string
  wsd_hostSendQpcUs :: u64

record window_panel_snapshot =
  ps_items :: "window_entry list"
  ps_selectedId :: u64
  ps_selectedTitle :: string
  ps_selectedWidth :: u32
  ps_selectedHeight :: u32
  ps_selectionLocked :: bool
  ps_status :: string
  ps_displayStatus :: string
  ps_lastSelectSeq :: u32
  ps_lastSelectOk :: bool
  ps_lastSelectWindowId :: u64
  ps_lastSelectStreamGeneration :: u64
  ps_lastSelectHostSendQpcUs :: u64
  ps_scrollIndex :: int
  ps_hostSupportsMonitors :: bool
  ps_hostSupportsMonitorSelect :: bool
  ps_monitorListRevision :: u64
  ps_selectedMonitorId :: u32
  ps_monitors :: "monitor_entry list"

record window_panel =
  wp_state :: window_panel_snapshot
  wp_listRequestPending :: bool
  wp_selectRequestPending :: bool
  wp_pendingSelectId :: u64
  wp_pendingSelectTag :: u64
  wp_currentSelectTag :: u64
  wp_pendingSelectListRevision :: u64
  wp_lastMonitorEntries :: "wire_monitor_entry list"
  wp_monitorListRequestPending :: bool
  wp_monitorSelectRequestPending :: bool
  wp_pendingMonitorId :: u32

definition kControlWindowListMaxEntries :: nat where "kControlWindowListMaxEntries = 64"
definition kControlMonitorListMaxEntries :: nat where "kControlMonitorListMaxEntries = 8"
definition kAnyMonitorListRevision :: u64 where "kAnyMonitorListRevision = NOT 0"

definition initial_snapshot :: window_panel_snapshot where
  "initial_snapshot = \<lparr>ps_items = [], ps_selectedId = 0, ps_selectedTitle = ''desktop'',
    ps_selectedWidth = 0, ps_selectedHeight = 0, ps_selectionLocked = False,
    ps_status = ''waiting_control'', ps_displayStatus = [], ps_lastSelectSeq = 0,
    ps_lastSelectOk = False, ps_lastSelectWindowId = 0, ps_lastSelectStreamGeneration = 0,
    ps_lastSelectHostSendQpcUs = 0, ps_scrollIndex = 0, ps_hostSupportsMonitors = False,
    ps_hostSupportsMonitorSelect = False, ps_monitorListRevision = 0, ps_selectedMonitorId = 0,
    ps_monitors = []\<rparr>"

definition panel_reset :: window_panel where
  "panel_reset = \<lparr>wp_state = initial_snapshot, wp_listRequestPending = False,
    wp_selectRequestPending = False, wp_pendingSelectId = 0, wp_pendingSelectTag = 0,
    wp_currentSelectTag = 0, wp_pendingSelectListRevision = kAnyMonitorListRevision,
    wp_lastMonitorEntries = [], wp_monitorListRequestPending = False,
    wp_monitorSelectRequestPending = False, wp_pendingMonitorId = 0\<rparr>"

section \<open>Strings\<close>

definition fixed_cstr_to_string :: "string \<Rightarrow> nat \<Rightarrow> string" where
  "fixed_cstr_to_string buf cap = takeWhile (\<lambda>c. c \<noteq> CHR 0x00) (take cap buf)"

fun decimal :: "nat \<Rightarrow> string" where
  "decimal n = (if n < 10 then [char_of (48 + n)] else decimal (n div 10) @ [char_of (48 + n mod 10)])"

declare decimal.simps [simp del]

section \<open>Requests\<close>

abbreviation with_status :: "string option \<Rightarrow> window_panel \<Rightarrow> window_panel" where
  "with_status statusText p \<equiv> (case statusText of None \<Rightarrow> p
     | Some t \<Rightarrow> p\<lparr>wp_state := (wp_state p)\<lparr>ps_status := t\<rparr>\<rparr>)"

definition cancel_pending_requests :: "window_panel \<Rightarrow> window_panel" where
  "cancel_pending_requests p = p\<lparr>wp_listRequestPending := False, wp_selectRequestPending := False,
    wp_monitorListRequestPending := False, wp_monitorSelectRequestPending := False\<rparr>"

definition request_list :: "string option \<Rightarrow> window_panel \<Rightarrow> window_panel" where
  "request_list statusText p = with_status statusText (p\<lparr>wp_listRequestPending := True\<rparr>)"

definition take_list_request :: "window_panel \<Rightarrow> bool \<times> window_panel" where
  "take_list_request p =
    (if \<not> wp_listRequestPending p then (False, p) else (True, p\<lparr>wp_listRequestPending := False\<rparr>))"

definition request_select :: "u64 \<Rightarrow> string option \<Rightarrow> u64 \<Rightarrow> u64 \<Rightarrow> window_panel \<Rightarrow> bool \<times> window_panel" where
  "request_select windowId statusText selectionTag monitorListRevision p =
    (if ps_selectionLocked (wp_state p) then (False, p)
     else (True, with_status statusText (p\<lparr>wp_selectRequestPending := True,
       wp_pendingSelectId := windowId, wp_pendingSelectTag := selectionTag,
       wp_currentSelectTag := selectionTag,
       wp_pendingSelectListRevision :=
         (if monitorListRevision = kAnyMonitorListRevision then ps_monitorListRevision (wp_state p)
          else monitorListRevision)\<rparr>)))"

definition take_select_request :: "window_panel \<Rightarrow> (u64 \<times> u64) option \<times> window_panel" where
  "take_select_request p =
    (if \<not> wp_selectRequestPending p then (None, p)
     else let p = p\<lparr>wp_selectRequestPending := False\<rparr> in
     if st_kind (classify_select_target (wp_pendingSelectId p)) = TargetMonitor \<and>
        wp_pendingSelectListRevision p \<noteq> ps_monitorListRevision (wp_state p)
     then (None, p\<lparr>wp_state := (wp_state p)
             \<lparr>ps_status := ''window_select_failed: monitor_list_changed''\<rparr>\<rparr>)
     else (Some (wp_pendingSelectId p, wp_pendingSelectTag p), p))"

definition set_host_supports_monitor_select :: "bool \<Rightarrow> window_panel \<Rightarrow> window_panel" where
  "set_host_supports_monitor_select supported p =
    p\<lparr>wp_state := (wp_state p)\<lparr>ps_hostSupportsMonitorSelect := supported\<rparr>\<rparr>"

definition request_monitor_list :: "window_panel \<Rightarrow> window_panel" where
  "request_monitor_list p = p\<lparr>wp_monitorListRequestPending := True\<rparr>"

definition take_monitor_list_request :: "window_panel \<Rightarrow> bool \<times> window_panel" where
  "take_monitor_list_request p =
    (wp_monitorListRequestPending p \<and> ps_hostSupportsMonitors (wp_state p),
     p\<lparr>wp_monitorListRequestPending := False\<rparr>)"

definition set_host_supports_monitors :: "bool \<Rightarrow> window_panel \<Rightarrow> bool \<times> window_panel" where
  "set_host_supports_monitors supported p =
    (let newlySupported = supported \<and> \<not> ps_hostSupportsMonitors (wp_state p);
         st = (wp_state p)\<lparr>ps_hostSupportsMonitors := supported\<rparr>;
         st = (if supported then st else st\<lparr>ps_monitors := [], ps_selectedMonitorId := 0\<rparr>) in
     (newlySupported, p\<lparr>wp_state := st\<rparr>))"

definition request_monitor_select :: "u32 \<Rightarrow> window_panel \<Rightarrow> bool \<times> window_panel" where
  "request_monitor_select monitorId p =
    (if \<not> ps_hostSupportsMonitors (wp_state p) then (False, p)
     else (True, p\<lparr>wp_monitorSelectRequestPending := True, wp_pendingMonitorId := monitorId\<rparr>))"

definition take_monitor_select_request :: "window_panel \<Rightarrow> u32 option \<times> window_panel" where
  "take_monitor_select_request p =
    (if \<not> wp_monitorSelectRequestPending p then (None, p)
     else (Some (wp_pendingMonitorId p), p\<lparr>wp_monitorSelectRequestPending := False\<rparr>))"

definition set_status :: "string \<Rightarrow> window_panel \<Rightarrow> window_panel" where
  "set_status status p = p\<lparr>wp_state := (wp_state p)\<lparr>ps_status := status\<rparr>\<rparr>"

definition set_display_status :: "string \<Rightarrow> window_panel \<Rightarrow> window_panel" where
  "set_display_status status p = p\<lparr>wp_state := (wp_state p)\<lparr>ps_displayStatus := status\<rparr>\<rparr>"

section \<open>Answers\<close>

definition monitor_entry_of :: "wire_monitor_entry \<Rightarrow> monitor_entry" where
  "monitor_entry_of src = \<lparr>me_id = wm_id src, me_x = wm_x src, me_y = wm_y src,
    me_width = wm_width src, me_height = wm_height src, me_primary = (wm_flags src AND 1 \<noteq> 0),
    me_name = fixed_cstr_to_string (wm_name src) 64\<rparr>"

text \<open>\<open>memcmp\<close> of two entries is equality: the structure is packed.\<close>

definition apply_monitor_list :: "monitor_list_message \<Rightarrow> window_panel \<Rightarrow> window_panel" where
  "apply_monitor_list msg p =
    (let count = min (unat (ml_itemCount msg)) kControlMonitorListMaxEntries;
         entries = take count (ml_items msg);
         same = (entries = wp_lastMonitorEntries p);
         revision = (if same then ps_monitorListRevision (wp_state p)
                     else ps_monitorListRevision (wp_state p) + 1) in
     p\<lparr>wp_lastMonitorEntries := (if same then wp_lastMonitorEntries p else entries),
       wp_state := (wp_state p)\<lparr>ps_monitorListRevision := revision,
         ps_monitors := map monitor_entry_of entries,
         ps_selectedMonitorId := ml_selectedMonitorId msg\<rparr>\<rparr>)"

definition find_window :: "u64 \<Rightarrow> window_entry list \<Rightarrow> window_entry option" where
  "find_window windowId items = find (\<lambda>e. we_id e = windowId) items"

definition set_selected_target_dimensions :: "window_panel_snapshot \<Rightarrow> window_panel_snapshot" where
  "set_selected_target_dimensions s =
    (let s = s\<lparr>ps_selectedWidth := 0, ps_selectedHeight := 0\<rparr> in
     if ps_selectedId s = 0 then s
     else case find_window (ps_selectedId s) (ps_items s) of
       None \<Rightarrow> s
     | Some e \<Rightarrow> s\<lparr>ps_selectedWidth := we_width e, ps_selectedHeight := we_height e\<rparr>)"

definition window_entry_of :: "wire_window_entry \<Rightarrow> window_entry" where
  "window_entry_of src =
    (let title = fixed_cstr_to_string (ww_title src) 96 in
     \<lparr>we_id = ww_id src, we_pid = ww_pid src, we_width = ww_width src, we_height = ww_height src,
      we_minimized = (ww_flags src AND 1 \<noteq> 0),
      we_title = (if title = [] then ''(untitled)'' else title)\<rparr>)"

definition max_scroll :: "window_entry list \<Rightarrow> int \<Rightarrow> int" where
  "max_scroll items visibleCount = max 0 (int (length items) - max 1 visibleCount)"

definition apply_window_list :: "window_list_message \<Rightarrow> int \<Rightarrow> window_panel \<Rightarrow> window_panel" where
  "apply_window_list msg visibleCount p =
    (let count = min (unat (wl_itemCount msg)) kControlWindowListMaxEntries;
         items = map window_entry_of (take count (wl_items msg));
         title = (if wl_selectedWindowId msg = 0 then ''desktop''
           else case find_window (wl_selectedWindowId msg) items of
             Some e \<Rightarrow> we_title e | None \<Rightarrow> ''window'');
         st = set_selected_target_dimensions ((wp_state p)\<lparr>ps_items := items,
           ps_selectedId := wl_selectedWindowId msg,
           ps_selectionLocked := (wl_flags msg AND 1 \<noteq> 0), ps_selectedTitle := title\<rparr>) in
     p\<lparr>wp_state := st\<lparr>ps_scrollIndex := min (max 0 (ps_scrollIndex st)) (max_scroll items visibleCount),
       ps_status := ''window_list_received count='' @ decimal count\<rparr>\<rparr>)"

record select_apply_result =
  sa_ok :: bool
  sa_shown :: bool

definition apply_selection_fields :: "window_selected_message \<Rightarrow> window_panel_snapshot \<Rightarrow> window_panel_snapshot" where
  "apply_selection_fields msg st =
    st\<lparr>ps_selectionLocked := ps_selectionLocked st \<or> wsd_flags msg AND 2 \<noteq> 0,
      ps_lastSelectSeq := wsd_seq msg, ps_lastSelectOk := (wsd_flags msg AND 1 \<noteq> 0),
      ps_lastSelectWindowId := wsd_windowId msg,
      ps_lastSelectStreamGeneration := wsd_streamGeneration msg,
      ps_lastSelectHostSendQpcUs := wsd_hostSendQpcUs msg\<rparr>"

definition show_selected :: "window_panel_snapshot \<Rightarrow> window_panel_snapshot" where
  "show_selected st = (let st = set_selected_target_dimensions st in
    st\<lparr>ps_status := ''window_selected: '' @ ps_selectedTitle st\<rparr>)"

definition apply_window_selected_for ::
  "window_selected_message \<Rightarrow> u64 \<Rightarrow> window_panel \<Rightarrow> select_apply_result \<times> window_panel" where
  "apply_window_selected_for msg selectionTag p =
    (if selectionTag \<noteq> 0 \<and> selectionTag \<noteq> wp_currentSelectTag p
     then (\<lparr>sa_ok = False, sa_shown = False\<rparr>, p)
     else let ok = (wsd_flags msg AND 1 \<noteq> 0);
            st = apply_selection_fields msg (wp_state p);
            reason = fixed_cstr_to_string (wsd_reason msg) 64;
            title = fixed_cstr_to_string (wsd_title msg) 96;
            target = classify_select_target (wsd_windowId msg);
            st = (if ok \<and> st_kind target = TargetMonitor
              then show_selected (st\<lparr>ps_selectedId := 0, ps_selectedMonitorId := st_monitorId target,
                     ps_selectedTitle := (if title = [] then ''desktop'' else title)\<rparr>)
              else if ok \<and> st_kind target = TargetMalformed
              then st\<lparr>ps_status := ''window_select_failed: invalid_target''\<rparr>
              else if ok
              then show_selected (st\<lparr>ps_selectedId := wsd_windowId msg,
                     ps_selectedTitle := (if wsd_windowId msg = 0 then ''desktop''
                       else if title = [] then ''window'' else title)\<rparr>)
              else st\<lparr>ps_status := ''window_select_failed: '' @
                     (if reason = [] then ''unknown'' else reason)\<rparr>) in
       (\<lparr>sa_ok = ok \<and> st_kind target \<noteq> TargetMalformed, sa_shown = True\<rparr>, p\<lparr>wp_state := st\<rparr>))"

definition apply_window_selected ::
  "window_selected_message \<Rightarrow> window_panel \<Rightarrow> select_apply_result \<times> window_panel" where
  "apply_window_selected msg p = apply_window_selected_for msg 0 p"

section \<open>Local selections\<close>

definition begin_local_select :: "u64 \<Rightarrow> string option \<Rightarrow> window_panel \<Rightarrow> bool \<times> window_panel" where
  "begin_local_select selectionTag statusText p =
    (if ps_selectionLocked (wp_state p) then (False, p)
     else (True, with_status statusText (p\<lparr>wp_selectRequestPending := False,
       wp_pendingSelectTag := 0, wp_currentSelectTag := selectionTag\<rparr>)))"

definition convert_select_to_local :: "u64 \<Rightarrow> string option \<Rightarrow> window_panel \<Rightarrow> bool \<times> window_panel" where
  "convert_select_to_local selectionTag statusText p =
    (if selectionTag \<noteq> wp_currentSelectTag p then (False, p) else (True, with_status statusText p))"

definition apply_local_selected_for :: "u64 \<Rightarrow> u64 \<Rightarrow> window_panel \<Rightarrow> select_apply_result \<times> window_panel" where
  "apply_local_selected_for selectionTag streamGeneration p =
    (if selectionTag = 0 \<or> selectionTag \<noteq> wp_currentSelectTag p \<or> streamGeneration = 0
     then (\<lparr>sa_ok = False, sa_shown = False\<rparr>, p)
     else (\<lparr>sa_ok = True, sa_shown = True\<rparr>,
       p\<lparr>wp_state := (set_selected_target_dimensions ((wp_state p)\<lparr>ps_lastSelectOk := True,
           ps_lastSelectWindowId := 0, ps_lastSelectStreamGeneration := streamGeneration,
           ps_lastSelectHostSendQpcUs := 0, ps_selectedId := 0, ps_selectedTitle := ''desktop''\<rparr>))
         \<lparr>ps_status := ''window_selected: desktop (logon screen)''\<rparr>\<rparr>))"

definition refuse_select_for :: "u64 \<Rightarrow> string option \<Rightarrow> window_panel \<Rightarrow> bool \<times> window_panel" where
  "refuse_select_for selectionTag reason p =
    (if selectionTag \<noteq> 0 \<and> selectionTag \<noteq> wp_currentSelectTag p then (False, p)
     else (True, p\<lparr>wp_state := (wp_state p)\<lparr>ps_lastSelectOk := False,
       ps_status := ''window_select_failed: '' @ (case reason of Some r \<Rightarrow> r | None \<Rightarrow> ''unknown'')\<rparr>\<rparr>))"

section \<open>Rows\<close>

definition panel_scroll :: "int \<Rightarrow> int \<Rightarrow> window_panel \<Rightarrow> window_panel" where
  "panel_scroll deltaSteps visibleCount p =
    (let st = wp_state p in
     p\<lparr>wp_state := st\<lparr>ps_scrollIndex :=
       min (max 0 (ps_scrollIndex st + deltaSteps)) (max_scroll (ps_items st) visibleCount)\<rparr>\<rparr>)"

definition window_id_for_visible_row :: "int \<Rightarrow> int \<Rightarrow> window_panel \<Rightarrow> u64 option" where
  "window_id_for_visible_row row visibleCount p =
    (let st = wp_state p;
         scrollIndex = min (max 0 (ps_scrollIndex st)) (max_scroll (ps_items st) visibleCount);
         itemIndex = scrollIndex + row in
     if row < 0 \<or> itemIndex < 0 \<or> int (length (ps_items st)) \<le> itemIndex then None
     else Some (we_id (ps_items st ! nat itemIndex)))"

definition is_desktop_selected :: "window_panel \<Rightarrow> bool" where
  "is_desktop_selected p \<longleftrightarrow> ps_selectedId (wp_state p) = 0"

section \<open>Runs of the panel\<close>

datatype panel_op = Reset | CancelPending | RequestList "string option" | TakeList
  | RequestSelect u64 "string option" u64 u64 | TakeSelect | SupportsMonitorSelect bool
  | RequestMonitorList | TakeMonitorList | SupportsMonitors bool | RequestMonitorSelect u32
  | TakeMonitorSelect | MonitorList monitor_list_message | Status string | DisplayStatus string
  | WindowList window_list_message int | WindowSelected window_selected_message u64
  | BeginLocal u64 "string option" | ConvertLocal u64 "string option" | LocalSelected u64 u64
  | RefuseSelect u64 "string option" | ScrollBy int int

fun panel_step :: "panel_op \<Rightarrow> window_panel \<Rightarrow> window_panel" where
  "panel_step Reset p = panel_reset"
| "panel_step CancelPending p = cancel_pending_requests p"
| "panel_step (RequestList t) p = request_list t p"
| "panel_step TakeList p = snd (take_list_request p)"
| "panel_step (RequestSelect w t tag shown) p = snd (request_select w t tag shown p)"
| "panel_step TakeSelect p = snd (take_select_request p)"
| "panel_step (SupportsMonitorSelect b) p = set_host_supports_monitor_select b p"
| "panel_step RequestMonitorList p = request_monitor_list p"
| "panel_step TakeMonitorList p = snd (take_monitor_list_request p)"
| "panel_step (SupportsMonitors b) p = snd (set_host_supports_monitors b p)"
| "panel_step (RequestMonitorSelect m) p = snd (request_monitor_select m p)"
| "panel_step TakeMonitorSelect p = snd (take_monitor_select_request p)"
| "panel_step (MonitorList msg) p = apply_monitor_list msg p"
| "panel_step (Status t) p = set_status t p"
| "panel_step (DisplayStatus t) p = set_display_status t p"
| "panel_step (WindowList msg n) p = apply_window_list msg n p"
| "panel_step (WindowSelected msg tag) p = snd (apply_window_selected_for msg tag p)"
| "panel_step (BeginLocal tag t) p = snd (begin_local_select tag t p)"
| "panel_step (ConvertLocal tag t) p = snd (convert_select_to_local tag t p)"
| "panel_step (LocalSelected tag g) p = snd (apply_local_selected_for tag g p)"
| "panel_step (RefuseSelect tag r) p = snd (refuse_select_for tag r p)"
| "panel_step (ScrollBy d n) p = panel_scroll d n p"

definition panel_run :: "panel_op list \<Rightarrow> window_panel \<Rightarrow> window_panel" where
  "panel_run ops p = fold panel_step ops p"

lemmas panel_op_defs = panel_reset_def cancel_pending_requests_def request_list_def take_list_request_def
  request_select_def take_select_request_def set_host_supports_monitor_select_def
  request_monitor_list_def take_monitor_list_request_def set_host_supports_monitors_def
  request_monitor_select_def take_monitor_select_request_def set_status_def set_display_status_def
  apply_window_list_def apply_window_selected_for_def begin_local_select_def
  convert_select_to_local_def apply_local_selected_for_def refuse_select_for_def panel_scroll_def
  apply_monitor_list_def

lemma dimensions_revision [simp]:
  "ps_monitorListRevision (set_selected_target_dimensions st) = ps_monitorListRevision st"
  "ps_monitorListRevision (show_selected st) = ps_monitorListRevision st"
  "ps_monitorListRevision (apply_selection_fields msg st) = ps_monitorListRevision st"
  by (simp_all add: show_selected_def set_selected_target_dimensions_def apply_selection_fields_def
      Let_def split: option.split)

text \<open>Operations that neither make, take back nor send a selection.\<close>

fun keeps_pick :: "panel_op \<Rightarrow> bool" where
  "keeps_pick Reset = False"
| "keeps_pick CancelPending = False"
| "keeps_pick (RequestSelect w t tag shown) = False"
| "keeps_pick TakeSelect = False"
| "keeps_pick (BeginLocal tag t) = False"
| "keeps_pick op = True"

text \<open>The monitor lists of a run that differ from the one before.\<close>

definition changes_list :: "panel_op \<Rightarrow> window_panel \<Rightarrow> bool" where
  "changes_list op p \<longleftrightarrow> (case op of MonitorList msg \<Rightarrow>
      take (min (unat (ml_itemCount msg)) kControlMonitorListMaxEntries) (ml_items msg) \<noteq>
      wp_lastMonitorEntries p | _ \<Rightarrow> False)"

fun list_changes :: "panel_op list \<Rightarrow> window_panel \<Rightarrow> nat" where
  "list_changes [] p = 0"
| "list_changes (op # ops) p = (if changes_list op p then 1 else 0) + list_changes ops (panel_step op p)"

lemma keeps_pick_step:
  assumes "keeps_pick op"
  shows "wp_selectRequestPending (panel_step op p) = wp_selectRequestPending p"
    and "wp_pendingSelectId (panel_step op p) = wp_pendingSelectId p"
    and "wp_pendingSelectTag (panel_step op p) = wp_pendingSelectTag p"
    and "wp_pendingSelectListRevision (panel_step op p) = wp_pendingSelectListRevision p"
    and "ps_monitorListRevision (wp_state (panel_step op p)) =
      ps_monitorListRevision (wp_state p) + (if changes_list op p then 1 else 0)"
    and "\<not> changes_list op p \<Longrightarrow> wp_lastMonitorEntries (panel_step op p) = wp_lastMonitorEntries p"
  using assms
  by (cases op; simp add: panel_op_defs changes_list_def Let_def split: option.split)+

lemma keeps_pick_run:
  assumes "\<forall>op\<in>set ops. keeps_pick op"
  shows "wp_selectRequestPending (panel_run ops p) = wp_selectRequestPending p"
    and "wp_pendingSelectId (panel_run ops p) = wp_pendingSelectId p"
    and "wp_pendingSelectTag (panel_run ops p) = wp_pendingSelectTag p"
    and "wp_pendingSelectListRevision (panel_run ops p) = wp_pendingSelectListRevision p"
    and "ps_monitorListRevision (wp_state (panel_run ops p)) =
      ps_monitorListRevision (wp_state p) + of_nat (list_changes ops p)"
    and "list_changes ops p = 0 \<Longrightarrow> wp_lastMonitorEntries (panel_run ops p) = wp_lastMonitorEntries p"
  using assms
  by (induction ops arbitrary: p) (auto simp: panel_run_def keeps_pick_step split: if_splits)

lemma list_changes_le: "list_changes ops p \<le> length ops"
  by (induction ops arbitrary: p) (auto simp: le_SucI)

text \<open>
  A screen picked by its index goes out exactly when no other monitor list has arrived since:
  between the pick and the take, any number of operations that leave the pick alone (fewer than
  2^64) may run; then the take sends the pick with its tag when no list differed from its
  predecessor, and the list the host resolves the index against is the one of the pick, and
  otherwise the take sends nothing.
\<close>

theorem monitor_pick_same_list:
  assumes "request_select (encode_monitor_select_target m) t tag shown p = (True, p1)"
    and "shown = kAnyMonitorListRevision \<or> shown = ps_monitorListRevision (wp_state p)"
    and "\<forall>op\<in>set ops. keeps_pick op" and "length ops < 2 ^ 64"
  shows "fst (take_select_request (panel_run ops p1)) =
      (if list_changes ops p1 = 0 then Some (encode_monitor_select_target m, tag) else None) \<and>
    (fst (take_select_request (panel_run ops p1)) \<noteq> None \<longrightarrow>
      wp_lastMonitorEntries (panel_run ops p1) = wp_lastMonitorEntries p)"
proof -
  have p1: "wp_selectRequestPending p1" "wp_pendingSelectId p1 = encode_monitor_select_target m"
    "wp_pendingSelectTag p1 = tag" "wp_lastMonitorEntries p1 = wp_lastMonitorEntries p"
    "wp_pendingSelectListRevision p1 = ps_monitorListRevision (wp_state p1)"
    using assms(1,2) by (auto simp: request_select_def split: if_splits option.splits)
  have "of_nat n = (0 :: u64) \<longleftrightarrow> n = 0" if "n < 2 ^ 64" for n
    using that unat_of_nat [where 'a = 64, of n] by (auto simp: word_unat_eq_iff)
  then have "(of_nat (list_changes ops p1) = (0 :: u64)) = (list_changes ops p1 = 0)"
    using list_changes_le [of ops p1] assms(4) by (metis le_less_trans)
  then show ?thesis
    using keeps_pick_run [OF assms(3), of p1] p1
    by (auto simp: take_select_request_def Let_def classify_encode_monitor_select_target)
qed

section \<open>Superseded selections\<close>

text \<open>Operations that do not ask for the selection \<open>tag\<close> again.\<close>

fun other_selection :: "u64 \<Rightarrow> panel_op \<Rightarrow> bool" where
  "other_selection tag (RequestSelect w t tag' shown) \<longleftrightarrow> tag' \<noteq> tag"
| "other_selection tag (BeginLocal tag' t) \<longleftrightarrow> tag' \<noteq> tag"
| "other_selection tag _ \<longleftrightarrow> True"

lemma other_selection_step:
  "other_selection tag op \<Longrightarrow> tag \<noteq> 0 \<Longrightarrow> wp_currentSelectTag p \<noteq> tag \<Longrightarrow>
   wp_currentSelectTag (panel_step op p) \<noteq> tag"
  by (cases op) (auto simp: panel_op_defs Let_def split: option.split)

lemma other_selection_run:
  "\<forall>op\<in>set ops. other_selection tag op \<Longrightarrow> tag \<noteq> 0 \<Longrightarrow> wp_currentSelectTag p \<noteq> tag \<Longrightarrow>
   wp_currentSelectTag (panel_run ops p) \<noteq> tag"
  unfolding panel_run_def by (induction ops arbitrary: p) (auto simp: other_selection_step)

text \<open>
  An answer to a superseded selection changes nothing. Once a selection with another tag has
  been accepted, and as long as the old one is not asked for again, an answer, a local binding or a
  refusal for the old tag leaves the panel exactly as it is, whatever else has happened since.
\<close>

theorem superseded_answer_ignored:
  assumes "request_select w t tag' shown p = (True, p1)" and "tag \<noteq> tag'" and "tag \<noteq> 0"
    and "\<forall>op\<in>set ops. other_selection tag op"
  shows "panel_step (WindowSelected msg tag) (panel_run ops p1) = panel_run ops p1 \<and>
    panel_step (LocalSelected tag g) (panel_run ops p1) = panel_run ops p1 \<and>
    panel_step (RefuseSelect tag r) (panel_run ops p1) = panel_run ops p1 \<and>
    \<not> sa_shown (fst (apply_window_selected_for msg tag (panel_run ops p1)))"
proof -
  have "wp_currentSelectTag p1 = tag'"
    using assms(1) by (auto simp: request_select_def split: if_splits option.splits)
  then have "wp_currentSelectTag (panel_run ops p1) \<noteq> tag"
    using other_selection_run [OF assms(4,3)] assms(2) by metis
  then show ?thesis using assms(3)
    by (simp add: apply_window_selected_for_def apply_local_selected_for_def refuse_select_for_def)
qed

section \<open>A panel with two screens\<close>

definition screens :: monitor_list_message where
  "screens = \<lparr>ml_selectedMonitorId = 0, ml_itemCount = 1, ml_items =
    [\<lparr>wm_id = 0, wm_x = 0, wm_y = 0, wm_width = 1920, wm_height = 1080, wm_flags = 1, wm_name = ''A''\<rparr>]\<rparr>"

theorem monitor_pick_same_list_witness:
  "\<exists>p1. request_select (encode_monitor_select_target 1) None 7 kAnyMonitorListRevision panel_reset = (True, p1) \<and>
    fst (take_select_request (panel_run [MonitorList screens, TakeList] p1)) = None"
proof -
  obtain p1 where p1: "request_select (encode_monitor_select_target 1) None 7 kAnyMonitorListRevision
      panel_reset = (True, p1)"
    by (simp add: request_select_def panel_reset_def initial_snapshot_def)
  then have "wp_lastMonitorEntries p1 = []"
    by (auto simp: request_select_def panel_reset_def initial_snapshot_def)
  then have "list_changes [MonitorList screens, TakeList] p1 \<noteq> 0"
    by (simp add: changes_list_def screens_def kControlMonitorListMaxEntries_def)
  then show ?thesis
    using monitor_pick_same_list [OF p1, of "[MonitorList screens, TakeList]"] p1 by simp
qed

theorem superseded_answer_ignored_witness:
  "\<exists>p1. request_select 5 None 2 kAnyMonitorListRevision
      (snd (request_select 4 None 1 kAnyMonitorListRevision panel_reset)) = (True, p1) \<and>
    panel_step (RefuseSelect 1 None) (panel_run [TakeSelect] p1) = panel_run [TakeSelect] p1"
proof -
  obtain p1 where p1: "request_select 5 None 2 kAnyMonitorListRevision
      (snd (request_select 4 None 1 kAnyMonitorListRevision panel_reset)) = (True, p1)"
    by (simp add: request_select_def panel_reset_def initial_snapshot_def)
  then show ?thesis using superseded_answer_ignored [OF p1, of 1 "[TakeSelect]"] by simp
qed

end
