(* ===== verification/RequestSlots.thy ===== *)
theory RequestSlots
  imports Prelude
begin

text \<open>
  The request slots of \<open>native_video_client_shared_core.cpp\<close>: \<open>CaptureModeRequestState\<close>,
  \<open>StreamStateControl\<close>, \<open>DesktopBackendControl\<close> and \<open>KeyframeRequestState\<close>. The user interface
  asks, the control thread takes; a slot keeps the latest wish and numbers what it hands out.
  The locale \<open>request_slot\<close> states that contract and refines it to a one-place mailbox; the
  slots of the code are interpretations of it. Each operation is one step of the model (the
  sources use atomics or a mutex per operation).
\<close>

section \<open>The contract of a slot\<close>

datatype 'r slot_op = Ask 'r | Take

text \<open>A run of asks and takes, and the answers of the takes that found something.\<close>

fun slot_run ::
  "('r \<Rightarrow> 's \<Rightarrow> 's) \<Rightarrow> ('s \<Rightarrow> 'o option \<times> 's) \<Rightarrow> 'r slot_op list \<Rightarrow> 's \<Rightarrow> 'o list \<times> 's" where
  "slot_run request consume [] s = ([], s)"
| "slot_run request consume (Ask r # ops) s = slot_run request consume ops (request r s)"
| "slot_run request consume (Take # ops) s =
    (let (out, s) = consume s; (outs, s) = slot_run request consume ops s in
     ((case out of None \<Rightarrow> [] | Some x \<Rightarrow> [x]) @ outs, s))"

text \<open>The mailbox: the latest accepted wish waits, and is handed out once, numbered in turn.\<close>

fun mailbox_run ::
  "('r \<Rightarrow> 'v option) \<Rightarrow> 'r slot_op list \<Rightarrow> 'v option \<Rightarrow> u32 \<Rightarrow> (u32 \<times> 'v) list \<times> 'v option \<times> u32" where
  "mailbox_run accept [] waiting seq = ([], waiting, seq)"
| "mailbox_run accept (Ask r # ops) waiting seq =
    mailbox_run accept ops (case accept r of None \<Rightarrow> waiting | Some v \<Rightarrow> Some v) seq"
| "mailbox_run accept (Take # ops) waiting seq =
    (case waiting of
       None \<Rightarrow> mailbox_run accept ops None seq
     | Some v \<Rightarrow> (let (outs, rest) = mailbox_run accept ops None (seq + 1) in
         ((seq + 1, v) # outs, rest)))"

lemma mailbox_numbers:
  "mailbox_run accept ops waiting seq = (outs, rest) \<Longrightarrow>
   map fst outs = map (\<lambda>i. seq + 1 + of_nat i) [0..<length outs]"
proof (induction accept ops waiting seq arbitrary: outs rest rule: mailbox_run.induct)
  case (3 accept ops waiting seq)
  show ?case
  proof (cases waiting)
    case None
    with 3 show ?thesis by simp
  next
    case (Some v)
    obtain outs' rest' where run: "mailbox_run accept ops None (seq + 1) = (outs', rest')" by (metis surj_pair)
    with 3(3) Some have outs: "outs = (seq + 1, v) # outs'" by simp
    have "map fst outs' = map (\<lambda>i. seq + 1 + 1 + of_nat i) [0..<length outs']"
      using 3(2) [OF Some run] .
    moreover have "[0..<Suc n] = 0 # map Suc [0..<n]" for n
      by (simp add: upt_conv_Cons map_Suc_upt del: upt_Suc)
    ultimately show ?thesis by (simp add: outs comp_def add.assoc del: upt_Suc)
  qed
qed auto

locale request_slot =
  fixes request :: "'r \<Rightarrow> 's \<Rightarrow> 's"
    and consume :: "'s \<Rightarrow> 'o option \<times> 's"
    and accept :: "'r \<Rightarrow> 'v option"
    and ready :: "'s \<Rightarrow> bool"
    and waiting :: "'s \<Rightarrow> 'v option"
    and last_seq :: "'s \<Rightarrow> u32"
    and out_seq :: "'o \<Rightarrow> u32"
    and out_value :: "'o \<Rightarrow> 'v"
  assumes request_ready: "ready s \<Longrightarrow> ready (request r s)"
    and request_waiting:
      "ready s \<Longrightarrow> waiting (request r s) = (case accept r of None \<Rightarrow> waiting s | Some v \<Rightarrow> Some v)"
    and request_seq: "last_seq (request r s) = last_seq s"
    and consume_none: "ready s \<Longrightarrow> waiting s = None \<Longrightarrow> consume s = (None, s)"
    and consume_some: "ready s \<Longrightarrow> waiting s = Some v \<Longrightarrow>
      \<exists>x s'. consume s = (Some x, s') \<and> out_seq x = last_seq s + 1 \<and> out_value x = v \<and>
        ready s' \<and> waiting s' = None \<and> last_seq s' = last_seq s + 1"
begin

text \<open>Every run of the slot answers as the mailbox does, and ends in the mailbox's state.\<close>

lemma refines_mailbox:
  assumes "ready s"
  shows "case slot_run request consume ops s of (outs, s') \<Rightarrow>
    mailbox_run accept ops (waiting s) (last_seq s) =
      (map (\<lambda>x. (out_seq x, out_value x)) outs, waiting s', last_seq s') \<and> ready s'"
  using assms
proof (induction ops arbitrary: s)
  case (Cons op ops)
  show ?case
  proof (cases op)
    case (Ask r)
    then show ?thesis
      using Cons.IH [OF request_ready [OF Cons.prems]] request_waiting [OF Cons.prems] request_seq
      by simp
  next
    case Take
    show ?thesis
    proof (cases "waiting s")
      case None
      then show ?thesis
        using Cons.IH [OF Cons.prems] Take consume_none [OF Cons.prems]
        by (auto split: prod.splits)
    next
      case (Some v)
      then obtain x s1 where step: "consume s = (Some x, s1)" "out_seq x = last_seq s + 1"
        "out_value x = v" "ready s1" "waiting s1 = None" "last_seq s1 = last_seq s + 1"
        using consume_some [OF Cons.prems] by metis
      then show ?thesis using Cons.IH [OF step(4)] Take Some by (auto split: prod.splits)
    qed
  qed
qed simp

lemma answers_numbered:
  assumes "ready s" and "slot_run request consume ops s = (outs, s')"
  shows "map out_seq outs = map (\<lambda>i. last_seq s + 1 + of_nat i) [0..<length outs]"
  using refines_mailbox [OF assms(1), of ops] assms(2)
    mailbox_numbers [of accept ops "waiting s" "last_seq s"]
  by (fastforce simp: comp_def)

end

section \<open>Capture mode\<close>

record capture_mode_slot =
  cm_pending :: bool
  cm_nextSeq :: u32
  cm_mode :: u16
  cm_xPermille :: u32
  cm_yPermille :: u32

record pending_capture_mode =
  pcm_seq :: u32
  pcm_mode :: u16
  pcm_xPermille :: u32
  pcm_yPermille :: u32

definition capture_mode_reset :: capture_mode_slot where
  "capture_mode_reset = \<lparr>cm_pending = False, cm_nextSeq = 0, cm_mode = 0, cm_xPermille = 5000,
    cm_yPermille = 5000\<rparr>"

fun capture_mode_request :: "u16 \<times> u32 \<times> u32 \<Rightarrow> capture_mode_slot \<Rightarrow> capture_mode_slot" where
  "capture_mode_request (mode, xPermille, yPermille) s =
    (if mode \<noteq> 1 \<and> mode \<noteq> 2 then s
     else s\<lparr>cm_mode := mode, cm_xPermille := min 10000 xPermille,
       cm_yPermille := min 10000 yPermille, cm_pending := True\<rparr>)"

text \<open>The flag and the number are spent also when the stored mode is not one to send.\<close>

definition capture_mode_consume ::
  "capture_mode_slot \<Rightarrow> pending_capture_mode option \<times> capture_mode_slot" where
  "capture_mode_consume s =
    (if \<not> cm_pending s then (None, s)
     else let s = s\<lparr>cm_pending := False, cm_nextSeq := cm_nextSeq s + 1\<rparr>;
            out = \<lparr>pcm_seq = cm_nextSeq s, pcm_mode = cm_mode s,
              pcm_xPermille = min 10000 (cm_xPermille s),
              pcm_yPermille = min 10000 (cm_yPermille s)\<rparr> in
       (if pcm_mode out = 1 \<or> pcm_mode out = 2 then Some out else None, s))"

fun capture_mode_accept :: "u16 \<times> u32 \<times> u32 \<Rightarrow> (u16 \<times> u32 \<times> u32) option" where
  "capture_mode_accept (mode, x, y) =
    (if mode = 1 \<or> mode = 2 then Some (mode, min 10000 x, min 10000 y) else None)"

definition capture_mode_ready :: "capture_mode_slot \<Rightarrow> bool" where
  "capture_mode_ready s \<longleftrightarrow>
    (cm_pending s \<longrightarrow> (cm_mode s = 1 \<or> cm_mode s = 2) \<and> cm_xPermille s \<le> 10000 \<and> cm_yPermille s \<le> 10000)"

definition capture_mode_waiting :: "capture_mode_slot \<Rightarrow> (u16 \<times> u32 \<times> u32) option" where
  "capture_mode_waiting s =
    (if cm_pending s then Some (cm_mode s, cm_xPermille s, cm_yPermille s) else None)"

definition capture_mode_value :: "pending_capture_mode \<Rightarrow> u16 \<times> u32 \<times> u32" where
  "capture_mode_value x = (pcm_mode x, pcm_xPermille x, pcm_yPermille x)"

lemmas capture_mode_defs = capture_mode_ready_def capture_mode_waiting_def capture_mode_value_def
  capture_mode_consume_def Let_def

interpretation capture_mode: request_slot capture_mode_request capture_mode_consume
  capture_mode_accept capture_mode_ready capture_mode_waiting cm_nextSeq pcm_seq capture_mode_value
proof unfold_locales
  fix s :: capture_mode_slot and r
  show "cm_nextSeq (capture_mode_request r s) = cm_nextSeq s" by (cases r) simp
  assume ready: "capture_mode_ready s"
  then show "capture_mode_ready (capture_mode_request r s)"
    by (cases r) (simp add: capture_mode_defs min_le_iff_disj)
  show "capture_mode_waiting (capture_mode_request r s) =
      (case capture_mode_accept r of None \<Rightarrow> capture_mode_waiting s | Some v \<Rightarrow> Some v)"
    by (cases r) (simp add: capture_mode_defs)
  show "capture_mode_consume s = (None, s)" if "capture_mode_waiting s = None"
    using that by (simp add: capture_mode_defs split: if_splits)
  show "\<exists>x s'. capture_mode_consume s = (Some x, s') \<and> pcm_seq x = cm_nextSeq s + 1 \<and>
      capture_mode_value x = v \<and> capture_mode_ready s' \<and> capture_mode_waiting s' = None \<and>
      cm_nextSeq s' = cm_nextSeq s + 1" if "capture_mode_waiting s = Some v" for v
    using that ready by (auto simp: capture_mode_defs min_def split: if_splits)
qed

section \<open>Stream state\<close>

record stream_state_slot =
  ss_pending :: bool
  ss_nextSeq :: u32
  ss_active :: bool

record pending_stream_state =
  pss_seq :: u32
  pss_active :: bool

definition stream_state_reset :: stream_state_slot where
  "stream_state_reset = \<lparr>ss_pending = False, ss_nextSeq = 0, ss_active = False\<rparr>"

definition stream_state_request :: "bool \<Rightarrow> stream_state_slot \<Rightarrow> stream_state_slot" where
  "stream_state_request active s = s\<lparr>ss_active := active, ss_pending := True\<rparr>"

definition stream_state_consume ::
  "stream_state_slot \<Rightarrow> pending_stream_state option \<times> stream_state_slot" where
  "stream_state_consume s =
    (if \<not> ss_pending s then (None, s)
     else let s = s\<lparr>ss_pending := False, ss_nextSeq := ss_nextSeq s + 1\<rparr> in
       (Some \<lparr>pss_seq = ss_nextSeq s, pss_active = ss_active s\<rparr>, s))"

definition stream_state_waiting :: "stream_state_slot \<Rightarrow> bool option" where
  "stream_state_waiting s = (if ss_pending s then Some (ss_active s) else None)"

interpretation stream_state: request_slot stream_state_request stream_state_consume Some "\<lambda>_. True"
  stream_state_waiting ss_nextSeq pss_seq pss_active
  by unfold_locales (auto simp: stream_state_request_def stream_state_consume_def
      stream_state_waiting_def Let_def split: if_splits)

section \<open>Desktop backend\<close>

text \<open>Two kinds of requests share this slot: a change of the backend, and a question.\<close>

record backend_intent =
  bi_asked :: u64
  bi_sent :: u64
  bi_sentSeq :: u32

record desktop_backend_slot =
  db_intent :: backend_intent
  db_pending :: bool
  db_queryPending :: bool
  db_nextSeq :: u32
  db_backend :: u16
  db_hostAnswers :: bool

record pending_desktop_backend =
  pdb_seq :: u32
  pdb_backend :: u16
  pdb_wantsStatus :: bool

definition desktop_backend_reset :: desktop_backend_slot where
  "desktop_backend_reset = \<lparr>db_intent = \<lparr>bi_asked = 0, bi_sent = 0, bi_sentSeq = 0\<rparr>,
    db_pending = False, db_queryPending = False, db_nextSeq = 0, db_backend = 2,
    db_hostAnswers = False\<rparr>"

definition desktop_backend_request :: "u16 \<Rightarrow> desktop_backend_slot \<Rightarrow> desktop_backend_slot" where
  "desktop_backend_request backend s =
    (if backend < 1 \<or> 3 < backend then s
     else s\<lparr>db_intent := (db_intent s)\<lparr>bi_asked := bi_asked (db_intent s) + 1\<rparr>,
       db_backend := backend, db_pending := True\<rparr>)"

definition desktop_backend_set_host_answers :: "bool \<Rightarrow> desktop_backend_slot \<Rightarrow> desktop_backend_slot" where
  "desktop_backend_set_host_answers answers s = s\<lparr>db_hostAnswers := answers\<rparr>"

definition desktop_backend_query :: "desktop_backend_slot \<Rightarrow> bool \<times> desktop_backend_slot" where
  "desktop_backend_query s =
    (if \<not> db_hostAnswers s then (False, s) else (True, s\<lparr>db_queryPending := True\<rparr>))"

definition desktop_backend_consume ::
  "desktop_backend_slot \<Rightarrow> pending_desktop_backend option \<times> desktop_backend_slot" where
  "desktop_backend_consume s =
    (let answers = db_hostAnswers s in
     if db_pending s
     then let s = s\<lparr>db_pending := False, db_queryPending := db_queryPending s \<and> \<not> answers,
              db_nextSeq := db_nextSeq s + 1\<rparr> in
       (Some \<lparr>pdb_seq = db_nextSeq s, pdb_backend = db_backend s, pdb_wantsStatus = answers\<rparr>,
        s\<lparr>db_intent := (db_intent s)\<lparr>bi_sent := bi_asked (db_intent s),
          bi_sentSeq := db_nextSeq s\<rparr>\<rparr>)
     else if \<not> db_queryPending s then (None, s)
     else let s = s\<lparr>db_queryPending := False\<rparr> in
     if \<not> answers then (None, s)
     else let s = s\<lparr>db_nextSeq := db_nextSeq s + 1\<rparr> in
       (Some \<lparr>pdb_seq = db_nextSeq s, pdb_backend = 0, pdb_wantsStatus = True\<rparr>, s))"

definition desktop_backend_accept :: "u16 \<Rightarrow> u16 option" where
  "desktop_backend_accept backend = (if backend < 1 \<or> 3 < backend then None else Some backend)"

definition desktop_backend_waiting :: "desktop_backend_slot \<Rightarrow> u16 option" where
  "desktop_backend_waiting s = (if db_pending s then Some (db_backend s) else None)"

text \<open>Without a question pending, the changes alone keep the contract of a slot.\<close>

interpretation desktop_backend: request_slot desktop_backend_request desktop_backend_consume
  desktop_backend_accept "\<lambda>s. \<not> db_queryPending s" desktop_backend_waiting db_nextSeq pdb_seq
  pdb_backend
  by unfold_locales (auto simp: desktop_backend_request_def desktop_backend_consume_def
      desktop_backend_accept_def desktop_backend_waiting_def Let_def split: if_splits)

subsection \<open>Changes and questions together\<close>

datatype backend_op = Change u16 | Question | HostAnswers bool | TakeBackend

fun backend_step :: "backend_op \<Rightarrow> desktop_backend_slot \<Rightarrow> pending_desktop_backend option \<times> desktop_backend_slot"
where
  "backend_step (Change b) s = (None, desktop_backend_request b s)"
| "backend_step Question s = (None, snd (desktop_backend_query s))"
| "backend_step (HostAnswers a) s = (None, desktop_backend_set_host_answers a s)"
| "backend_step TakeBackend s = desktop_backend_consume s"

fun backend_run :: "backend_op list \<Rightarrow> desktop_backend_slot \<Rightarrow> pending_desktop_backend list \<times> desktop_backend_slot"
where
  "backend_run [] s = ([], s)"
| "backend_run (op # ops) s =
    (let (out, s) = backend_step op s; (outs, s) = backend_run ops s in
     ((case out of None \<Rightarrow> [] | Some x \<Rightarrow> [x]) @ outs, s))"

text \<open>The changes among the answers, and the same through the mailbox of the changes alone.\<close>

fun backend_changes :: "backend_op list \<Rightarrow> u16 option \<Rightarrow> u16 list \<times> u16 option" where
  "backend_changes [] w = ([], w)"
| "backend_changes (Change b # ops) w =
    backend_changes ops (case desktop_backend_accept b of None \<Rightarrow> w | Some v \<Rightarrow> Some v)"
| "backend_changes (TakeBackend # ops) w =
    (let (vs, w') = backend_changes ops None in ((case w of None \<Rightarrow> [] | Some v \<Rightarrow> [v]) @ vs, w'))"
| "backend_changes (_ # ops) w = backend_changes ops w"

definition backend_ready :: "desktop_backend_slot \<Rightarrow> bool" where
  "backend_ready s \<longleftrightarrow> (db_pending s \<longrightarrow> db_backend s \<noteq> 0)"

lemma backend_step_changes:
  assumes "backend_ready s" and "backend_step op s = (out, s')"
  shows "backend_ready s' \<and>
    (case op of
       Change b \<Rightarrow> out = None \<and> desktop_backend_waiting s' =
         (case desktop_backend_accept b of None \<Rightarrow> desktop_backend_waiting s | Some v \<Rightarrow> Some v)
     | TakeBackend \<Rightarrow> desktop_backend_waiting s' = None \<and>
         filter (\<lambda>b. b \<noteq> 0) (case out of None \<Rightarrow> [] | Some x \<Rightarrow> [pdb_backend x]) =
         (case desktop_backend_waiting s of None \<Rightarrow> [] | Some v \<Rightarrow> [v])
     | _ \<Rightarrow> out = None \<and> desktop_backend_waiting s' = desktop_backend_waiting s)"
  using assms
  by (cases op) (auto simp: backend_ready_def desktop_backend_request_def desktop_backend_query_def
      desktop_backend_set_host_answers_def desktop_backend_consume_def desktop_backend_accept_def
      desktop_backend_waiting_def Let_def split: if_splits)

lemma backend_run_changes:
  assumes "backend_ready s" and "backend_run ops s = (outs, s')"
  shows "backend_changes ops (desktop_backend_waiting s) =
    (filter (\<lambda>b. b \<noteq> 0) (map pdb_backend outs), desktop_backend_waiting s')"
  using assms
proof (induction ops arbitrary: s outs)
  case (Cons op ops)
  obtain out s1 outs1 where step: "backend_step op s = (out, s1)" and run: "backend_run ops s1 = (outs1, s')"
    and outs: "outs = (case out of None \<Rightarrow> [] | Some x \<Rightarrow> [x]) @ outs1"
    using Cons.prems(2) by (auto simp: Let_def split: prod.splits)
  note facts = backend_step_changes [OF Cons.prems(1) step]
  note IH = Cons.IH [OF _ run]
  have split: "map pdb_backend outs = (case out of None \<Rightarrow> [] | Some x \<Rightarrow> [pdb_backend x]) @ map pdb_backend outs1"
    by (simp add: outs split: option.split)
  show ?case
  proof (cases op)
    case TakeBackend
    then have "desktop_backend_waiting s1 = None" and ready: "backend_ready s1"
      and outs: "filter (\<lambda>b. b \<noteq> 0) (case out of None \<Rightarrow> [] | Some x \<Rightarrow> [pdb_backend x]) =
         (case desktop_backend_waiting s of None \<Rightarrow> [] | Some v \<Rightarrow> [v])"
      using facts by simp_all
    then show ?thesis using IH TakeBackend by (simp add: split)
  qed (use facts IH in \<open>simp_all add: split\<close>)
qed simp

text \<open>
  A question never displaces a change of the backend, and never changes it: in every run of
  changes, questions, takes and answers of the host, the changes sent are those of the changes'
  own mailbox. The latest accepted change is sent exactly once, questions carry backend 0.
\<close>

theorem backend_changes_sent:
  assumes "backend_run ops desktop_backend_reset = (outs, s)"
  shows "filter (\<lambda>b. b \<noteq> 0) (map pdb_backend outs) = fst (backend_changes ops None) \<and>
    desktop_backend_waiting s = snd (backend_changes ops None)"
  using backend_run_changes [OF _ assms]
  by (simp add: backend_ready_def desktop_backend_waiting_def desktop_backend_reset_def)

theorem backend_changes_sent_witness:
  "\<exists>outs s. backend_run [HostAnswers True, Question, Change 3, Question, TakeBackend, Change 9, Question, TakeBackend]
      desktop_backend_reset = (outs, s) \<and> filter (\<lambda>b. b \<noteq> 0) (map pdb_backend outs) = [3]"
proof -
  let ?ops = "[HostAnswers True, Question, Change 3, Question, TakeBackend, Change 9, Question, TakeBackend]"
  obtain outs s where run: "backend_run ?ops desktop_backend_reset = (outs, s)" by (metis surj_pair)
  have "fst (backend_changes ?ops None) = [3]"
    by (simp add: desktop_backend_accept_def)
  with backend_changes_sent [OF run] run show ?thesis by auto
qed

section \<open>Latest wish wins\<close>

text \<open>
  C10. The capture mode slot hands out, in order and each once, exactly the wishes its mailbox
  does: the latest valid request before each take, with both coordinates capped at 10000, numbered
  1, 2, 3 and so on; requests with another mode than 1 and 2 change nothing.
\<close>

theorem capture_mode_latest_wins:
  "(case slot_run capture_mode_request capture_mode_consume ops capture_mode_reset of (outs, s) \<Rightarrow>
     mailbox_run capture_mode_accept ops None 0 =
       (map (\<lambda>x. (pcm_seq x, capture_mode_value x)) outs, capture_mode_waiting s, cm_nextSeq s) \<and>
     map pcm_seq outs = map (\<lambda>i. 1 + of_nat i) [0..<length outs])"
proof -
  have ready: "capture_mode_ready capture_mode_reset"
    by (simp add: capture_mode_ready_def capture_mode_reset_def)
  obtain outs s where run: "slot_run capture_mode_request capture_mode_consume ops capture_mode_reset = (outs, s)"
    by fastforce
  have start: "capture_mode_waiting capture_mode_reset = None" "cm_nextSeq capture_mode_reset = 0"
    by (simp_all add: capture_mode_reset_def capture_mode_waiting_def)
  show ?thesis
    using capture_mode.refines_mailbox [OF ready, of ops] capture_mode.answers_numbered [OF ready run]
    by (simp add: run start)
qed

end
