(* ===== verification/KeyframeRequests.thy ===== *)
theory KeyframeRequests
  imports Prelude "HOL-Library.Log_Nat"
begin

text \<open>
  \<open>KeyframeRequestState\<close> of \<open>native_video_client_shared_core.cpp\<close>: the limiter in front of the
  requests for a keyframe, a minimum interval and a token bucket. The bucket's \<open>double\<close> is a
  rational, and every operation on it is followed by the rounding of IEEE double precision: 53
  significant bits, ties to even. All values lie between \<open>2^-64\<close> and \<open>2^64\<close> or are zero, so
  neither underflow nor overflow arises.
\<close>

section \<open>Doubles\<close>

definition round_half_even :: "rat \<Rightarrow> int" where
  "round_half_even x = (let f = \<lfloor>x\<rfloor>; d = x - of_int f in
    if d < 1 / 2 then f else if 1 / 2 < d then f + 1 else if even f then f else f + 1)"

text \<open>The exponent of the leading binary digit of a positive rational.\<close>

definition binary_exponent :: "rat \<Rightarrow> int" where
  "binary_exponent x =
    (let (p, q) = quotient_of x; e = int (nat (bitlen p)) - int (nat (bitlen q)) in
     if x < 2 powi e then e - 1 else e)"

definition to_double :: "rat \<Rightarrow> rat" where
  "to_double x = (if x = 0 then 0
    else let ulp = 2 powi (binary_exponent x - 52) in of_int (round_half_even (x / ulp)) * ulp)"

lemma round_half_even_int [simp]: "round_half_even (of_int n) = n"
  by (simp add: round_half_even_def)

lemma round_half_even_nonneg: "0 \<le> x \<Longrightarrow> 0 \<le> round_half_even x"
  by (simp add: round_half_even_def Let_def)

lemma to_double_nonneg: "0 \<le> x \<Longrightarrow> 0 \<le> to_double x"
  by (simp add: to_double_def Let_def round_half_even_nonneg)

text \<open>An integer below \<open>2^53\<close> is a double.\<close>

lemma to_double_of_nat:
  assumes "n < 2 ^ 53" shows "to_double (of_nat n) = of_nat n"
proof (cases "n = 0")
  case False
  define e where "e = binary_exponent (of_nat n)"
  have "bitlen (int n) \<le> 53" using assms by (simp add: bitlen_le_iff_power)
  moreover have "bitlen (1 :: int) = 1" by (subst compute_bitlen) simp
  ultimately have "e \<le> 52"
    using bitlen_nonneg [of "int n"]
    by (simp add: e_def binary_exponent_def quotient_of_int [of "int n", simplified] Let_def)
  then obtain k where k: "52 = e + int k" using zle_iff_zadd by blast
  have "e - 52 = - int k" using k by simp
  then have ulp: "(2 :: rat) powi (e - 52) * 2 ^ k = 1" by (simp only: power_int_minus) simp
  then have "of_nat n / (2 :: rat) powi (e - 52) = of_int (int n * 2 ^ k)"
    by (simp add: field_simps)
  then have "round_half_even (of_nat n / (2 :: rat) powi (e - 52)) = int n * 2 ^ k"
    by (metis round_half_even_int)
  then show ?thesis using False ulp by (simp add: to_double_def e_def Let_def mult.assoc mult.commute)
qed (simp add: to_double_def)

section \<open>The limiter\<close>

record keyframe_requests =
  kf_pending :: bool
  kf_pendingReason :: u16
  kf_nextRequestSeq :: u32
  kf_lastRequestUs :: u64
  kf_minIntervalUs :: u64
  kf_tokenRefillUs :: u64
  kf_tokenCapacity :: u32
  kf_throttledCount :: u64
  kf_tokens :: rat
  kf_lastRefillUs :: u64

datatype throttle_cause = NotThrottled | MinInterval | TokenBucket

record keyframe_attempt =
  ka_queued :: bool
  ka_throttleCause :: throttle_cause
  ka_throttledCount :: u64

definition double_of_u32 :: "u32 \<Rightarrow> rat" where "double_of_u32 w = of_nat (unat w)"
definition double_of_u64 :: "u64 \<Rightarrow> rat" where "double_of_u64 w = to_double (of_nat (unat w))"

definition keyframe_requests_init :: "u64 \<Rightarrow> u64 \<Rightarrow> u32 \<Rightarrow> keyframe_requests" where
  "keyframe_requests_init minIntervalUs tokenRefillUs tokenCapacity =
    \<lparr>kf_pending = False, kf_pendingReason = 0, kf_nextRequestSeq = 0, kf_lastRequestUs = 0,
     kf_minIntervalUs = minIntervalUs, kf_tokenRefillUs = tokenRefillUs,
     kf_tokenCapacity = max 1 tokenCapacity, kf_throttledCount = 0,
     kf_tokens = double_of_u32 (max 1 tokenCapacity), kf_lastRefillUs = 0\<rparr>"

definition keyframe_configure :: "u64 \<Rightarrow> u64 \<Rightarrow> u32 \<Rightarrow> keyframe_requests \<Rightarrow> keyframe_requests" where
  "keyframe_configure minIntervalUs tokenRefillUs tokenCapacity s =
    s\<lparr>kf_minIntervalUs := minIntervalUs, kf_tokenRefillUs := tokenRefillUs,
      kf_tokenCapacity := max 1 tokenCapacity\<rparr>"

definition keyframe_reset :: "keyframe_requests \<Rightarrow> keyframe_requests" where
  "keyframe_reset s = s\<lparr>kf_pending := False, kf_pendingReason := 0, kf_lastRequestUs := 0,
    kf_throttledCount := 0, kf_nextRequestSeq := 0,
    kf_tokens := double_of_u32 (kf_tokenCapacity s), kf_lastRefillUs := 0\<rparr>"

definition keyframe_refill :: "u64 \<Rightarrow> keyframe_requests \<Rightarrow> keyframe_requests" where
  "keyframe_refill nowUs s =
    (let s = (if kf_lastRefillUs s = 0 then s\<lparr>kf_lastRefillUs := nowUs\<rparr> else s) in
     if kf_lastRefillUs s < nowUs \<and> 0 < kf_tokenRefillUs s
     then let refill = to_double (double_of_u64 (nowUs - kf_lastRefillUs s) /
                double_of_u64 (kf_tokenRefillUs s)) in
       if 0 < refill
       then s\<lparr>kf_tokens := min (double_of_u32 (max 1 (kf_tokenCapacity s)))
                (to_double (kf_tokens s + refill)),
              kf_lastRefillUs := nowUs\<rparr>
       else s
     else s)"

definition keyframe_throttle :: "throttle_cause \<Rightarrow> keyframe_requests \<Rightarrow> keyframe_attempt \<times> keyframe_requests" where
  "keyframe_throttle cause s =
    (\<lparr>ka_queued = False, ka_throttleCause = cause, ka_throttledCount = kf_throttledCount s + 1\<rparr>,
     s\<lparr>kf_throttledCount := kf_throttledCount s + 1\<rparr>)"

definition keyframe_request ::
  "u16 \<Rightarrow> u64 \<Rightarrow> keyframe_requests \<Rightarrow> keyframe_attempt \<times> keyframe_requests" where
  "keyframe_request reason nowUs s0 =
    (let reason = (if reason = 0 then 1 else reason);
         s = keyframe_refill nowUs s0;
         lastUs = kf_lastRequestUs s in
     if 0 < lastUs \<and> nowUs < lastUs + kf_minIntervalUs s then keyframe_throttle MinInterval s
     else if kf_tokens s < 1 then keyframe_throttle TokenBucket s
     else (\<lparr>ka_queued = True, ka_throttleCause = NotThrottled, ka_throttledCount = 0\<rparr>,
       s\<lparr>kf_tokens := to_double (kf_tokens s - 1), kf_lastRequestUs := nowUs,
         kf_pendingReason := reason, kf_pending := True\<rparr>))"

definition keyframe_consume :: "keyframe_requests \<Rightarrow> u16 option \<times> keyframe_requests" where
  "keyframe_consume s =
    (if \<not> kf_pending s then (None, s) else (Some (kf_pendingReason s), s\<lparr>kf_pending := False\<rparr>))"

definition keyframe_next_sequence :: "keyframe_requests \<Rightarrow> u32 \<times> keyframe_requests" where
  "keyframe_next_sequence s = (kf_nextRequestSeq s + 1, s\<lparr>kf_nextRequestSeq := kf_nextRequestSeq s + 1\<rparr>)"

section \<open>Runs of requests\<close>

text \<open>A run of requests (reason and time) and takes; the times of the requests granted.\<close>

datatype keyframe_op = Ask u16 u64 | Take

fun keyframe_run :: "keyframe_op list \<Rightarrow> keyframe_requests \<Rightarrow> u64 list \<times> keyframe_requests" where
  "keyframe_run [] s = ([], s)"
| "keyframe_run (Ask reason nowUs # ops) s =
    (let (attempt, s) = keyframe_request reason nowUs s; (granted, s) = keyframe_run ops s in
     ((if ka_queued attempt then [nowUs] else []) @ granted, s))"
| "keyframe_run (Take # ops) s = keyframe_run ops (snd (keyframe_consume s))"

lemma keyframe_refill_fields [simp]:
  "kf_lastRequestUs (keyframe_refill t s) = kf_lastRequestUs s"
  "kf_minIntervalUs (keyframe_refill t s) = kf_minIntervalUs s"
  "kf_tokenRefillUs (keyframe_refill t s) = kf_tokenRefillUs s"
  "kf_tokenCapacity (keyframe_refill t s) = kf_tokenCapacity s"
  "kf_throttledCount (keyframe_refill t s) = kf_throttledCount s"
  by (simp_all add: keyframe_refill_def Let_def)

lemma keyframe_refill_off: "kf_tokenRefillUs s = 0 \<Longrightarrow> kf_tokens (keyframe_refill t s) = kf_tokens s"
  by (simp add: keyframe_refill_def Let_def)

lemma keyframe_request_cases:
  obtains (granted) s' where "keyframe_request reason t s = (\<lparr>ka_queued = True, ka_throttleCause = NotThrottled, ka_throttledCount = 0\<rparr>, s')"
      "\<not> (0 < kf_lastRequestUs s \<and> t < kf_lastRequestUs s + kf_minIntervalUs s)"
      "1 \<le> kf_tokens (keyframe_refill t s)"
      "kf_tokens s' = to_double (kf_tokens (keyframe_refill t s) - 1)" "kf_lastRequestUs s' = t"
      "kf_minIntervalUs s' = kf_minIntervalUs s" "kf_tokenRefillUs s' = kf_tokenRefillUs s"
      "kf_pending s'" "kf_throttledCount s' = kf_throttledCount s"
  | (throttled) a s' where "keyframe_request reason t s = (a, s')" "\<not> ka_queued a"
      "kf_tokens s' = kf_tokens (keyframe_refill t s)" "kf_lastRequestUs s' = kf_lastRequestUs s"
      "kf_minIntervalUs s' = kf_minIntervalUs s" "kf_tokenRefillUs s' = kf_tokenRefillUs s"
      "kf_throttledCount s' = kf_throttledCount s + 1"
  by (cases "0 < kf_lastRequestUs s \<and> t < kf_lastRequestUs s + kf_minIntervalUs s";
      cases "kf_tokens (keyframe_refill t s) < 1")
    (auto simp: keyframe_request_def keyframe_throttle_def Let_def)

lemma keyframe_consume_fields [simp]:
  "kf_lastRequestUs (snd (keyframe_consume s)) = kf_lastRequestUs s"
  "kf_minIntervalUs (snd (keyframe_consume s)) = kf_minIntervalUs s"
  "kf_tokenRefillUs (snd (keyframe_consume s)) = kf_tokenRefillUs s"
  "kf_tokens (snd (keyframe_consume s)) = kf_tokens s"
  by (simp_all add: keyframe_consume_def)

definition spaced :: "u64 \<Rightarrow> u64 \<Rightarrow> u64 \<Rightarrow> bool" where
  "spaced interval a b \<longleftrightarrow> 0 < a \<longrightarrow> a + interval \<le> b"

lemma keyframe_run_spaced:
  "keyframe_run ops s = (granted, s') \<Longrightarrow>
   successively (spaced (kf_minIntervalUs s)) (kf_lastRequestUs s # granted)"
proof (induction ops arbitrary: s granted)
  case (Cons op ops)
  show ?case
  proof (cases op)
    case Take
    then show ?thesis using Cons.IH [of "snd (keyframe_consume s)" granted] Cons.prems by simp
  next
    case (Ask reason t)
    show ?thesis
    proof (cases rule: keyframe_request_cases [of reason t s])
      case (granted s1)
      then show ?thesis using Cons.IH [of s1] Cons.prems Ask
        by (auto simp: Let_def spaced_def not_less split: prod.splits)
    next
      case (throttled a s1)
      then show ?thesis using Cons.IH [of s1] Cons.prems Ask
        by (auto simp: Let_def split: prod.splits)
    qed
  qed
qed simp

lemma keyframe_run_counted:
  assumes "kf_tokenRefillUs s = 0" and "kf_tokens s = of_nat n" and "n < 2 ^ 53"
    and "keyframe_run ops s = (granted, s')"
  shows "length granted \<le> n \<and> kf_tokens s' = of_nat (n - length granted)"
  using assms
proof (induction ops arbitrary: s n granted)
  case (Cons op ops)
  show ?case
  proof (cases op)
    case Take
    then show ?thesis using Cons.IH [of "snd (keyframe_consume s)" n granted] Cons.prems by simp
  next
    case (Ask reason t)
    show ?thesis
    proof (cases rule: keyframe_request_cases [of reason t s])
      case (granted s1)
      have tokens: "kf_tokens (keyframe_refill t s) = of_nat n"
        using Cons.prems keyframe_refill_off by simp
      then have pos: "0 < n" using granted(3) by (cases n) auto
      then have "kf_tokens s1 = of_nat (n - 1)"
        using granted(4) tokens to_double_of_nat [of "n - 1"] Cons.prems(3) by simp
      then show ?thesis using Cons.IH [of s1 "n - 1"] Cons.prems Ask granted pos
        by (force simp: Let_def split: prod.splits)
    next
      case (throttled a s1)
      then show ?thesis using Cons.IH [of s1 n] Cons.prems Ask keyframe_refill_off [of s t]
        by (auto simp: Let_def split: prod.splits)
    qed
  qed
qed simp

text \<open>
  Keyframe requests are limited. In every run from the constructor, two consecutive grants are
  at least the minimum interval apart (the first at time 0 apart), and with the refill off at most
  the capacity are granted.
\<close>

theorem keyframe_grants_limited:
  assumes "keyframe_run ops (keyframe_requests_init minIntervalUs tokenRefillUs tokenCapacity) = (granted, s)"
  shows "successively (spaced minIntervalUs) granted \<and>
    (tokenRefillUs = 0 \<longrightarrow> length granted \<le> max 1 (unat tokenCapacity))"
proof -
  let ?s = "keyframe_requests_init minIntervalUs tokenRefillUs tokenCapacity"
  have "successively (spaced minIntervalUs) (0 # granted)"
    using keyframe_run_spaced [OF assms] by (simp add: keyframe_requests_init_def)
  moreover have "unat (max 1 tokenCapacity) = max 1 (unat tokenCapacity)"
    by (simp add: max_def word_le_nat_alt)
  moreover have "unat (max 1 tokenCapacity) < 2 ^ 53"
    using unat_bounds(3) [of "max 1 tokenCapacity"] by simp
  ultimately show ?thesis
    using keyframe_run_counted [of ?s "unat (max 1 tokenCapacity)" ops granted s] assms
    by (cases granted) (auto simp: keyframe_requests_init_def double_of_u32_def)
qed

theorem keyframe_grants_limited_witness:
  "\<exists>s. keyframe_run [Ask 2 5, Ask 2 1000, Take, Ask 0 2100, Ask 1 9000] (keyframe_requests_init 2000 0 2) =
     ([5, 2100], s) \<and> successively (spaced 2000) [5 :: u64, 2100]"
proof -
  have [simp]: "to_double 1 = 1" "to_double 0 = 0"
    using to_double_of_nat [of 1] to_double_of_nat [of 0] by simp_all
  obtain granted s where run: "keyframe_run [Ask 2 5, Ask 2 1000, Take, Ask 0 2100, Ask 1 9000]
      (keyframe_requests_init 2000 0 2) = (granted, s)" by fastforce
  then have granted: "granted = [5, 2100]"
    by (simp add: keyframe_requests_init_def keyframe_request_def keyframe_refill_def keyframe_consume_def
        keyframe_throttle_def double_of_u32_def Let_def)
  show ?thesis using keyframe_grants_limited [OF run] run granted by simp
qed

end
