(* ===== verification/RuntimeTune.thy ===== *)
theory RuntimeTune
  imports Prelude
begin

text \<open>
  \<open>RuntimeTuneState\<close> of \<open>native_video_client_shared_core.cpp\<close>: the encoder targets the viewer
  asks for. The lemmas keep every target inside the range given to the constructor, apart from
  the guess the code makes when it has nothing to go by, which is not clamped.
\<close>

record runtime_tune =
  rt_bitrateMin :: u32
  rt_bitrateMax :: u32
  rt_bitrateStep :: u32
  rt_keyintMin :: u32
  rt_keyintMax :: u32
  rt_enabled :: bool
  rt_dirty :: bool
  rt_nextSeq :: u32
  rt_targetBitrate :: u32
  rt_targetKeyint :: u32
  rt_targetFps :: u32
  rt_lastSentUs :: u64

record runtime_encoder_config =
  re_seq :: u32
  re_bitrate :: u32
  re_keyint :: u32
  re_fps :: u32
  re_flags :: u32
  re_clientSendQpcUs :: u64

definition clamp :: "'a::linorder \<Rightarrow> 'a \<Rightarrow> 'a \<Rightarrow> 'a" where
  "clamp v lo hi = (if v < lo then lo else if hi < v then hi else v)"

lemma clamp_range: "lo \<le> hi \<Longrightarrow> lo \<le> clamp v lo hi \<and> clamp v lo hi \<le> hi"
  by (auto simp: clamp_def)

definition runtime_tune_init :: "u32 \<Rightarrow> u32 \<Rightarrow> u32 \<Rightarrow> u32 \<Rightarrow> u32 \<Rightarrow> runtime_tune" where
  "runtime_tune_init bitrateMin bitrateMax bitrateStep keyintMin keyintMax =
    \<lparr>rt_bitrateMin = bitrateMin, rt_bitrateMax = max bitrateMin bitrateMax,
     rt_bitrateStep = max 1 bitrateStep, rt_keyintMin = max 1 keyintMin,
     rt_keyintMax = max (max 1 keyintMin) keyintMax, rt_enabled = False, rt_dirty = False,
     rt_nextSeq = 0, rt_targetBitrate = 0, rt_targetKeyint = 0, rt_targetFps = 0, rt_lastSentUs = 0\<rparr>"

definition runtime_tune_reset :: "u32 \<Rightarrow> u32 \<Rightarrow> u32 \<Rightarrow> runtime_tune \<Rightarrow> runtime_tune" where
  "runtime_tune_reset bitrate keyint fps s = s\<lparr>rt_enabled := False, rt_dirty := False,
    rt_nextSeq := 0, rt_targetBitrate := bitrate, rt_targetKeyint := keyint, rt_targetFps := fps,
    rt_lastSentUs := 0\<rparr>"

definition runtime_tune_set_enabled :: "bool \<Rightarrow> runtime_tune \<Rightarrow> runtime_tune" where
  "runtime_tune_set_enabled enabled s = s\<lparr>rt_enabled := enabled\<rparr>"

definition runtime_tune_mark_dirty :: "runtime_tune \<Rightarrow> runtime_tune" where
  "runtime_tune_mark_dirty s = s\<lparr>rt_dirty := True\<rparr>"

definition runtime_tune_set_targets :: "u32 \<Rightarrow> u32 \<Rightarrow> u32 \<Rightarrow> runtime_tune \<Rightarrow> runtime_tune" where
  "runtime_tune_set_targets bitrate keyint fps s =
    (let s = (if 0 < bitrate
              then s\<lparr>rt_targetBitrate := clamp bitrate (rt_bitrateMin s) (rt_bitrateMax s)\<rparr> else s);
         s = (if 0 < keyint
              then s\<lparr>rt_targetKeyint := clamp keyint (rt_keyintMin s) (rt_keyintMax s)\<rparr> else s);
         s = (if 0 < fps then s\<lparr>rt_targetFps := clamp fps 1 120\<rparr> else s) in
     runtime_tune_mark_dirty s)"

text \<open>The product of the observation is a 64-bit one; the result is cut to 32 bits.\<close>

definition runtime_tune_ensure_defaults :: "u32 \<Rightarrow> runtime_tune \<Rightarrow> runtime_tune" where
  "runtime_tune_ensure_defaults observed s =
    (let s = (if rt_targetBitrate s = 0
              then s\<lparr>rt_targetBitrate := (if 0 < observed
                       then ucast (clamp (ucast observed * 1000 :: u64) (ucast (rt_bitrateMin s))
                         (ucast (rt_bitrateMax s)))
                       else 8000000)\<rparr>
              else s) in
     if rt_targetKeyint s = 0
     then s\<lparr>rt_targetKeyint := clamp 60 (rt_keyintMin s) (rt_keyintMax s)\<rparr> else s)"

text \<open>
  The sums are on \<open>int64_t\<close>. A step count is an \<open>int\<close>, so the largest product is below \<open>2^63\<close>
  and nothing overflows.
\<close>

definition stepped :: "u32 \<Rightarrow> int \<Rightarrow> u32 \<Rightarrow> u32 \<Rightarrow> u32 \<Rightarrow> u32" where
  "stepped cur count step lo hi =
    of_int (clamp (int (unat cur) + count * int (unat step)) (int (unat lo)) (int (unat hi)))"

definition runtime_tune_apply_delta :: "int \<Rightarrow> int \<Rightarrow> u32 \<Rightarrow> runtime_tune \<Rightarrow> runtime_tune" where
  "runtime_tune_apply_delta bitrateSteps keyintSteps observed s =
    (if \<not> rt_enabled s then s
     else let s = runtime_tune_ensure_defaults observed s;
            s = (if bitrateSteps \<noteq> 0
                 then s\<lparr>rt_targetBitrate := stepped (rt_targetBitrate s) bitrateSteps
                          (rt_bitrateStep s) (rt_bitrateMin s) (rt_bitrateMax s)\<rparr> else s);
            s = (if keyintSteps \<noteq> 0
                 then s\<lparr>rt_targetKeyint := stepped (rt_targetKeyint s) keyintSteps 1
                          (rt_keyintMin s) (rt_keyintMax s)\<rparr> else s) in
       runtime_tune_mark_dirty s)"

definition tune_flags :: "u32 \<Rightarrow> u32 \<Rightarrow> u32 \<Rightarrow> u32" where
  "tune_flags bitrate keyint fps =
    (if 0 < bitrate then 1 else 0) OR (if 0 < keyint then 2 else 0) OR (if 0 < fps then 4 else 0)"

definition runtime_tune_consume ::
  "u64 \<Rightarrow> u32 \<Rightarrow> runtime_tune \<Rightarrow> runtime_encoder_config option \<times> runtime_tune" where
  "runtime_tune_consume nowUs observed s =
    (if \<not> rt_enabled s then (None, s)
     else if \<not> rt_dirty s then (None, s)
     else let s = runtime_tune_ensure_defaults observed (s\<lparr>rt_dirty := False\<rparr>);
            s = s\<lparr>rt_nextSeq := rt_nextSeq s + 1\<rparr>;
            flags = tune_flags (rt_targetBitrate s) (rt_targetKeyint s) (rt_targetFps s) in
       if flags = 0 then (None, s)
       else (Some \<lparr>re_seq = rt_nextSeq s, re_bitrate = rt_targetBitrate s,
               re_keyint = rt_targetKeyint s, re_fps = rt_targetFps s, re_flags = flags,
               re_clientSendQpcUs = nowUs\<rparr>, s\<lparr>rt_lastSentUs := nowUs\<rparr>))"

section \<open>Ranges\<close>

definition tune_inv :: "runtime_tune \<Rightarrow> bool" where
  "tune_inv s \<longleftrightarrow> rt_bitrateMin s \<le> 8000000 \<and> 8000000 \<le> rt_bitrateMax s \<and>
    1 \<le> rt_keyintMin s \<and> rt_keyintMin s \<le> rt_keyintMax s \<and>
    (rt_targetBitrate s = 0 \<or> rt_bitrateMin s \<le> rt_targetBitrate s \<and> rt_targetBitrate s \<le> rt_bitrateMax s) \<and>
    (rt_targetKeyint s = 0 \<or> rt_keyintMin s \<le> rt_targetKeyint s \<and> rt_targetKeyint s \<le> rt_keyintMax s) \<and>
    rt_targetFps s \<le> 120"

lemma stepped_range:
  assumes "lo \<le> hi" shows "lo \<le> stepped cur count step lo hi \<and> stepped cur count step lo hi \<le> hi"
proof -
  let ?v = "clamp (int (unat cur) + count * int (unat step)) (int (unat lo)) (int (unat hi))"
  have range: "int (unat lo) \<le> ?v" "?v \<le> int (unat hi)"
    using clamp_range [of "int (unat lo)" "int (unat hi)"] assms
    by (simp_all only: word_le_nat_alt of_nat_le_iff)
  from order_trans [OF of_nat_0_le_iff range(1)] obtain n where n: "?v = int n"
    by (rule nonneg_int_cases)
  have "n \<le> unat hi" using range(2) unfolding n by (simp only: of_nat_le_iff)
  then have "n < 2 ^ 32" using unat_bounds(3) [of hi] by simp
  then have "unat (of_int ?v :: u32) = n" using n by (simp add: unat_of_nat)
  then have "unat (stepped cur count step lo hi) = n" by (simp only: stepped_def)
  then show ?thesis using range unfolding n word_le_nat_alt by (simp only: of_nat_le_iff)
qed

lemma clamp_observed:
  assumes "lo \<le> hi"
  shows "lo \<le> ucast (clamp (v :: u64) (ucast lo) (ucast (hi :: u32))) \<and>
    ucast (clamp (v :: u64) (ucast lo) (ucast hi)) \<le> hi"
proof -
  have u: "unat (ucast w :: u64) = unat w" for w :: u32
    using unat_bounds(3) [of w] by (simp add: unsigned_ucast_eq take_bit_nat_eq_self)
  have "(ucast lo :: u64) \<le> ucast hi" using assms by (simp add: word_le_nat_alt u)
  from clamp_range [OF this, of v]
  have "unat lo \<le> unat (clamp v (ucast lo) (ucast hi))" "unat (clamp v (ucast lo) (ucast hi)) \<le> unat hi"
    by (simp_all add: word_le_nat_alt u)
  moreover then have "unat (ucast (clamp v (ucast lo) (ucast hi)) :: u32) = unat (clamp v (ucast lo) (ucast hi))"
    using unat_bounds(3) [of hi] by (simp add: unsigned_ucast_eq take_bit_nat_eq_self)
  ultimately show ?thesis by (simp add: word_le_nat_alt)
qed

abbreviation in_range :: "runtime_tune \<Rightarrow> u32 \<Rightarrow> u32 \<Rightarrow> bool" where
  "in_range s bitrate keyint \<equiv> rt_bitrateMin s \<le> bitrate \<and> bitrate \<le> rt_bitrateMax s \<and>
    rt_keyintMin s \<le> keyint \<and> keyint \<le> rt_keyintMax s"

lemma tune_defaults_limits [simp]:
  "rt_bitrateMin (runtime_tune_ensure_defaults obs s) = rt_bitrateMin s"
  "rt_bitrateMax (runtime_tune_ensure_defaults obs s) = rt_bitrateMax s"
  "rt_keyintMin (runtime_tune_ensure_defaults obs s) = rt_keyintMin s"
  "rt_keyintMax (runtime_tune_ensure_defaults obs s) = rt_keyintMax s"
  "rt_targetFps (runtime_tune_ensure_defaults obs s) = rt_targetFps s"
  by (simp_all add: runtime_tune_ensure_defaults_def Let_def)

lemma tune_inv_defaults:
  fixes observed :: u32
  assumes "tune_inv s"
  defines "s' \<equiv> runtime_tune_ensure_defaults observed s"
  shows "tune_inv s' \<and> in_range s (rt_targetBitrate s') (rt_targetKeyint s')"
proof -
  have "rt_keyintMin s \<le> clamp 60 (rt_keyintMin s) (rt_keyintMax s) \<and>
      clamp 60 (rt_keyintMin s) (rt_keyintMax s) \<le> rt_keyintMax s"
    using assms by (intro clamp_range) (simp add: tune_inv_def)
  moreover have "rt_bitrateMin s \<le> rt_bitrateMax s" using assms by (auto simp: tune_inv_def)
  note clamp_observed [OF this, of "ucast observed * 1000"]
  ultimately have "in_range s (rt_targetBitrate s') (rt_targetKeyint s')"
    using assms by (auto simp: runtime_tune_ensure_defaults_def tune_inv_def Let_def)
  then show ?thesis using assms by (auto simp: tune_inv_def)
qed

lemma tune_inv_set_targets: "tune_inv s \<Longrightarrow> tune_inv (runtime_tune_set_targets b k f s)"
  using clamp_range [of "rt_bitrateMin s" "rt_bitrateMax s" b]
    clamp_range [of "rt_keyintMin s" "rt_keyintMax s" k] clamp_range [of 1 "120 :: u32" f]
  by (auto simp: runtime_tune_set_targets_def runtime_tune_mark_dirty_def tune_inv_def Let_def)

lemma tune_inv_apply_delta:
  assumes "tune_inv s" shows "tune_inv (runtime_tune_apply_delta b k obs s)"
proof -
  let ?d = "runtime_tune_ensure_defaults obs s"
  have inv: "tune_inv ?d" using tune_inv_defaults [OF assms] by blast
  then have "rt_bitrateMin ?d \<le> rt_bitrateMax ?d" "rt_keyintMin ?d \<le> rt_keyintMax ?d"
    by (auto simp: tune_inv_def)
  from stepped_range [OF this(1)] stepped_range [OF this(2)] show ?thesis
    using inv assms
    by (auto simp: runtime_tune_apply_delta_def runtime_tune_mark_dirty_def tune_inv_def Let_def)
qed

lemma tune_inv_consume:
  assumes "tune_inv s" and "runtime_tune_consume nowUs obs s = (out, s')"
  shows "tune_inv s'" and "out = Some m \<Longrightarrow> in_range s (re_bitrate m) (re_keyint m) \<and> re_fps m \<le> 120"
proof -
  let ?d = "runtime_tune_ensure_defaults obs (s\<lparr>rt_dirty := False\<rparr>)"
  have "tune_inv (s\<lparr>rt_dirty := False\<rparr>)" using assms(1) by (simp add: tune_inv_def)
  then have inv: "tune_inv ?d" "in_range s (rt_targetBitrate ?d) (rt_targetKeyint ?d)"
    using tune_inv_defaults [of "s\<lparr>rt_dirty := False\<rparr>" obs] by simp_all
  then show "tune_inv s'"
    using assms by (auto simp: runtime_tune_consume_def tune_inv_def Let_def split: if_splits)
  show "out = Some m \<Longrightarrow> in_range s (re_bitrate m) (re_keyint m) \<and> re_fps m \<le> 120"
    using inv assms by (auto simp: runtime_tune_consume_def tune_inv_def Let_def split: if_splits)
qed

section \<open>Runs\<close>

datatype tune_op = SetEnabled bool | MarkDirty | SetTargets u32 u32 u32 | ApplyDelta int int u32
  | Consume u64 u32

fun tune_step :: "tune_op \<Rightarrow> runtime_tune \<Rightarrow> runtime_encoder_config option \<times> runtime_tune" where
  "tune_step (SetEnabled e) s = (None, runtime_tune_set_enabled e s)"
| "tune_step MarkDirty s = (None, runtime_tune_mark_dirty s)"
| "tune_step (SetTargets b k f) s = (None, runtime_tune_set_targets b k f s)"
| "tune_step (ApplyDelta b k obs) s = (None, runtime_tune_apply_delta b k obs s)"
| "tune_step (Consume nowUs obs) s = runtime_tune_consume nowUs obs s"

fun tune_run :: "tune_op list \<Rightarrow> runtime_tune \<Rightarrow> runtime_encoder_config list \<times> runtime_tune" where
  "tune_run [] s = ([], s)"
| "tune_run (op # ops) s =
    (let (out, s) = tune_step op s; (outs, s) = tune_run ops s in
     ((case out of None \<Rightarrow> [] | Some m \<Rightarrow> [m]) @ outs, s))"

lemma tune_step_limits:
  "tune_step op s = (out, s') \<Longrightarrow> rt_bitrateMin s' = rt_bitrateMin s \<and> rt_bitrateMax s' = rt_bitrateMax s \<and>
   rt_keyintMin s' = rt_keyintMin s \<and> rt_keyintMax s' = rt_keyintMax s"
  by (cases op) (auto simp: runtime_tune_set_enabled_def runtime_tune_mark_dirty_def
      runtime_tune_set_targets_def runtime_tune_apply_delta_def runtime_tune_consume_def Let_def
      split: if_splits)

lemma tune_step_inv:
  assumes "tune_inv s" and "tune_step op s = (out, s')"
  shows "tune_inv s'" and "out = Some m \<Longrightarrow> in_range s (re_bitrate m) (re_keyint m) \<and> re_fps m \<le> 120"
proof -
  have idle: "tune_inv (s\<lparr>rt_enabled := e\<rparr>)" "tune_inv (s\<lparr>rt_dirty := True\<rparr>)" for e
    using assms(1) by (simp_all add: tune_inv_def)
  show "tune_inv s'"
  proof (cases op)
    case (Consume t obs)
    with assms(2) have "runtime_tune_consume t obs s = (out, s')" by simp
    from tune_inv_consume(1) [OF assms(1) this] show ?thesis .
  qed (use assms idle tune_inv_set_targets tune_inv_apply_delta in
      \<open>auto simp: runtime_tune_set_enabled_def runtime_tune_mark_dirty_def\<close>)
  show "in_range s (re_bitrate m) (re_keyint m) \<and> re_fps m \<le> 120" if "out = Some m"
  proof (cases op)
    case (Consume t obs)
    with assms(2) have "runtime_tune_consume t obs s = (out, s')" by simp
    from tune_inv_consume(2) [OF assms(1) this that] show ?thesis .
  qed (use assms(2) that in auto)
qed

lemma tune_run_range:
  assumes "tune_inv s" and "tune_run ops s = (outs, s')"
  shows "\<forall>m\<in>set outs. in_range s (re_bitrate m) (re_keyint m) \<and> re_fps m \<le> 120"
  using assms
proof (induction ops arbitrary: s outs)
  case (Cons op ops)
  obtain out s1 outs1 where step: "tune_step op s = (out, s1)" and run: "tune_run ops s1 = (outs1, s')"
    and outs: "outs = (case out of None \<Rightarrow> [] | Some m \<Rightarrow> [m]) @ outs1"
    using Cons.prems(2) by (auto simp: Let_def split: prod.splits)
  show ?case
    using Cons.IH [OF tune_step_inv(1) [OF Cons.prems(1) step] run] tune_step_limits [OF step]
      tune_step_inv(2) [OF Cons.prems(1) step]
    by (auto simp: outs split: option.splits)
qed simp



end
