(* ===== verification/InputQueue.thy ===== *)
theory InputQueue
  imports Wire "HOL-Library.Sublist"
begin

text \<open>
  The viewer's input queue (\<open>ClientInputQueue\<close> and the two message builders of
  \<open>native_video_client_shared_core.cpp\<close>). Moves coalesce, the queue is bounded, and under
  backpressure everything but the releases of keys and buttons is cancelled: a release that is
  lost leaves a key held down on the host. The lemmas bound the queue and follow every release
  edge the code recognises. The steady clock is an argument of the operations that read it.
\<close>

section \<open>Messages\<close>

datatype input_message_type = MControlInputEvent | MControlInputText | MControlPhysicalKey

record input_event =
  ie_seq :: u32
  ie_kind :: u16
  ie_buttons :: u16
  ie_x :: u32
  ie_y :: u32
  ie_wheelDelta :: u32
  ie_keyCode :: u32
  ie_clientSendQpcUs :: u64

record input_text =
  it_seq :: u32
  it_utf16Count :: u16
  it_utf16 :: "u16 list"
  it_clientSendQpcUs :: u64

record physical_key =
  pk_seq :: u32
  pk_down :: u16
  pk_vk :: u16
  pk_scanCode :: u16
  pk_flags :: u16
  pk_clientSendQpcUs :: u64

record queued_input =
  qi_type :: input_message_type
  qi_inputEvent :: input_event
  qi_inputText :: input_text
  qi_physicalKey :: physical_key
  qi_generatedUs :: u64
  qi_queuedAtMs :: u64

definition default_queued_input :: queued_input where
  "default_queued_input = \<lparr>qi_type = MControlInputEvent,
    qi_inputEvent = \<lparr>ie_seq = 0, ie_kind = 0, ie_buttons = 0, ie_x = 0, ie_y = 0, ie_wheelDelta = 0,
      ie_keyCode = 0, ie_clientSendQpcUs = 0\<rparr>,
    qi_inputText = \<lparr>it_seq = 0, it_utf16Count = 0, it_utf16 = [], it_clientSendQpcUs = 0\<rparr>,
    qi_physicalKey = \<lparr>pk_seq = 0, pk_down = 0, pk_vk = 0, pk_scanCode = 0, pk_flags = 0,
      pk_clientSendQpcUs = 0\<rparr>,
    qi_generatedUs = 0, qi_queuedAtMs = 0\<rparr>"

text \<open>
  The identity of a release edge, 0 for anything that is not one: key up (kind 6), button up
  (kind 3) of the left, right and middle buttons, physical key up by scan code or virtual key.
\<close>

definition release_identity :: "queued_input \<Rightarrow> u32" where
  "release_identity msg =
    (let e = qi_inputEvent msg; k = qi_physicalKey msg in
     if qi_type msg = MControlInputEvent \<and> ie_keyCode e \<le> 255 \<and> ie_kind e = 6
     then 1 + ie_keyCode e
     else if qi_type msg = MControlInputEvent \<and> ie_keyCode e \<le> 255 \<and> ie_kind e = 3 \<and>
        (ie_keyCode e = 1 \<or> ie_keyCode e = 2 \<or> ie_keyCode e = 4)
     then 257 + ie_keyCode e
     else if qi_type msg = MControlPhysicalKey \<and> pk_down k = 0 \<and> pk_vk k \<le> 255 \<and>
        pk_scanCode k \<le> 255
     then (if pk_scanCode k \<noteq> 0
           then 1024 + push_bit 1 (ucast (pk_scanCode k)) + ucast (pk_flags k AND 1)
           else 512 + ucast (pk_vk k))
     else 0)"

abbreviation is_release :: "queued_input \<Rightarrow> bool" where
  "is_release m \<equiv> release_identity m \<noteq> 0"

definition is_move :: "queued_input \<Rightarrow> bool" where
  "is_move m \<longleftrightarrow> qi_type m = MControlInputEvent \<and> ie_kind (qi_inputEvent m) = 1"

section \<open>The queue\<close>

record input_queue =
  iq_queue :: "queued_input list"
  iq_backpressured :: bool
  iq_nextSeq :: u32
  iq_dropped :: u64
  iq_coalescedMoves :: u64

definition kMaxInputQueueSize :: nat where "kMaxInputQueueSize = 256"

definition input_queue_reset :: "input_queue \<Rightarrow> input_queue" where
  "input_queue_reset q = \<lparr>iq_queue = [], iq_backpressured = False, iq_nextSeq = 0, iq_dropped = 0,
    iq_coalescedMoves = 0\<rparr>"

definition input_next_sequence :: "input_queue \<Rightarrow> u32 \<times> input_queue" where
  "input_next_sequence q = (iq_nextSeq q + 1, q\<lparr>iq_nextSeq := iq_nextSeq q + 1\<rparr>)"

text \<open>The cancellation of a starting backpressure phase: the releases stay, in order.\<close>

definition start_backpressure :: "input_queue \<Rightarrow> input_queue" where
  "start_backpressure q = q\<lparr>iq_backpressured := True, iq_queue := filter is_release (iq_queue q),
    iq_dropped := iq_dropped q + of_nat (length (filter (\<lambda>m. \<not> is_release m) (iq_queue q)))\<rparr>"

definition input_append :: "u64 \<Rightarrow> queued_input \<Rightarrow> input_queue \<Rightarrow> input_queue" where
  "input_append nowMs msg q =
    (if iq_backpressured q \<and> release_identity msg = 0
     then q\<lparr>iq_dropped := iq_dropped q + 1\<rparr>
     else if iq_backpressured q \<and>
        list_ex (\<lambda>p. release_identity p = release_identity msg) (iq_queue q)
     then q
     else q\<lparr>iq_queue := iq_queue q @ [msg\<lparr>qi_queuedAtMs := nowMs\<rparr>]\<rparr>)"

definition input_enqueue :: "u64 \<Rightarrow> queued_input \<Rightarrow> input_queue \<Rightarrow> input_queue" where
  "input_enqueue nowMs msg q =
    (if \<not> iq_backpressured q \<and> is_move msg \<and> iq_queue q \<noteq> [] \<and> is_move (last (iq_queue q))
     then q\<lparr>iq_queue := butlast (iq_queue q) @ [msg\<lparr>qi_queuedAtMs := nowMs\<rparr>],
            iq_coalescedMoves := iq_coalescedMoves q + 1\<rparr>
     else input_append nowMs msg
       (if length (iq_queue q) \<ge> kMaxInputQueueSize \<and> \<not> iq_backpressured q
        then start_backpressure q else q))"

text \<open>\<open>TryDequeue\<close> with the clock at \<open>nowMs\<close>: stale actions are dropped, releases never.\<close>

definition stale_action :: "u64 \<Rightarrow> queued_input \<Rightarrow> bool" where
  "stale_action nowMs m \<longleftrightarrow>
    \<not> is_release m \<and> qi_queuedAtMs m \<noteq> 0 \<and> 2000 < nowMs - qi_queuedAtMs m"

fun input_dequeue_loop ::
  "u64 \<Rightarrow> queued_input list \<Rightarrow> u64 \<Rightarrow> queued_input option \<times> queued_input list \<times> u64" where
  "input_dequeue_loop nowMs [] dropped = (None, [], dropped)"
| "input_dequeue_loop nowMs (m # ms) dropped =
    (if stale_action nowMs m then input_dequeue_loop nowMs ms (dropped + 1)
     else (Some m, ms, dropped))"

definition input_try_dequeue :: "u64 \<Rightarrow> input_queue \<Rightarrow> queued_input option \<times> input_queue" where
  "input_try_dequeue nowMs q =
    (let (out, rest, dropped) = input_dequeue_loop nowMs (iq_queue q) (iq_dropped q) in
     (out, q\<lparr>iq_queue := rest, iq_dropped := dropped,
       iq_backpressured := (iq_backpressured q \<and> rest \<noteq> [])\<rparr>))"

definition input_empty :: "input_queue \<Rightarrow> bool" where
  "input_empty q \<longleftrightarrow> iq_queue q = []"

text \<open>The results are the numbers of messages dropped and kept.\<close>

definition drop_all_but_releases :: "input_queue \<Rightarrow> u32 \<times> u32 \<times> input_queue" where
  "drop_all_but_releases q =
    (let kept = filter is_release (iq_queue q) in
     (of_nat (length (iq_queue q) - length kept), of_nat (length kept),
      q\<lparr>iq_queue := kept, iq_backpressured := (iq_backpressured q \<and> kept \<noteq> [])\<rparr>))"

section \<open>Message builders\<close>

definition kMouseWireMask :: u16 where "kMouseWireMask = 0x1F"
definition kControlInputTextMaxUtf16 :: nat where "kControlInputTextMaxUtf16 = 64"

definition make_control_input_event ::
  "u16 \<Rightarrow> u16 \<Rightarrow> u32 \<Rightarrow> u32 \<Rightarrow> u32 \<Rightarrow> u32 \<Rightarrow> u64 \<Rightarrow> input_queue \<Rightarrow> queued_input \<times> input_queue" where
  "make_control_input_event kind buttons x y wheelDelta keyCode nowUs q =
    (let (seq, q) = input_next_sequence q in
     (default_queued_input\<lparr>qi_type := MControlInputEvent,
        qi_inputEvent := \<lparr>ie_seq = seq, ie_kind = kind, ie_buttons = buttons AND kMouseWireMask,
          ie_x = x, ie_y = y, ie_wheelDelta = wheelDelta, ie_keyCode = keyCode,
          ie_clientSendQpcUs = nowUs\<rparr>,
        qi_generatedUs := nowUs\<rparr>, q))"

text \<open>
  Text goes out in messages of at most 64 UTF-16 units; each message takes the next sequence
  number and is queued. The clock is read once per message, so it is a function of the count.
\<close>

function enqueue_control_input_text ::
  "(nat \<Rightarrow> u64) \<Rightarrow> u16 list \<Rightarrow> u64 \<Rightarrow> nat \<Rightarrow> input_queue \<Rightarrow> nat \<times> input_queue" where
  "enqueue_control_input_text clockMs text nowUs queued q =
    (if text = [] then (queued, q)
     else let chunk = take kControlInputTextMaxUtf16 text;
            (seq, q) = input_next_sequence q;
            msg = default_queued_input\<lparr>qi_type := MControlInputText,
              qi_inputText := \<lparr>it_seq = seq, it_utf16Count = of_nat (length chunk), it_utf16 = chunk,
                it_clientSendQpcUs = nowUs\<rparr>\<rparr> in
       enqueue_control_input_text clockMs (drop kControlInputTextMaxUtf16 text) nowUs (queued + 1)
         (input_enqueue (clockMs queued) msg q))"
  by pat_completeness auto
termination
  by (relation "measure (\<lambda>(_, text, _). length text)") (auto simp: kControlInputTextMaxUtf16_def)

declare enqueue_control_input_text.simps [simp del]

section \<open>The finite set of release identities\<close>

definition release_identities :: "nat set" where
  "release_identities = {1..256} \<union> {258, 259, 261} \<union> {512..767} \<union> {1026..1535}"

lemma card_release_identities: "card release_identities \<le> 1025" "finite release_identities"
proof -
  have "card release_identities \<le> card {1..256 :: nat} + card {258, 259, 261 :: nat} +
      card {512..767 :: nat} + card {1026..1535 :: nat}"
    unfolding release_identities_def by (intro le_trans [OF card_Un_le] add_mono order_refl)
  also have "\<dots> = 1025" by simp
  finally show "card release_identities \<le> 1025" .
  show "finite release_identities" by (simp add: release_identities_def)
qed

lemma unat_add_small: "unat a + unat b < 4294967296 \<Longrightarrow> unat (a + b :: u32) = unat a + unat b"
  by (simp add: unat_word_ariths)

lemma unat_ucast_small [simp]: "unat (ucast (w :: u16) :: u32) = unat w"
  using unat_bounds(2) [of w] by (simp add: unsigned_ucast_eq take_bit_nat_eq_self)

lemma unat_le_255 [simp]: "(w :: u32) \<le> 255 \<longleftrightarrow> unat w \<le> 255" "(v :: u16) \<le> 255 \<longleftrightarrow> unat v \<le> 255"
  by (simp_all add: word_le_nat_alt)

lemma release_identity_range:
  assumes "is_release m" shows "unat (release_identity m) \<in> release_identities"
proof -
  let ?e = "qi_inputEvent m" and ?k = "qi_physicalKey m"
  consider (key_up) "unat (ie_keyCode ?e) \<le> 255" "release_identity m = 1 + ie_keyCode ?e"
    | (button) "ie_keyCode ?e \<in> {1, 2, 4}" "release_identity m = 257 + ie_keyCode ?e"
    | (scan) "pk_scanCode ?k \<noteq> 0" "unat (pk_scanCode ?k) \<le> 255"
        "release_identity m = 1024 + push_bit 1 (ucast (pk_scanCode ?k)) + ucast (pk_flags ?k AND 1)"
    | (vk) "unat (pk_vk ?k) \<le> 255" "release_identity m = 512 + ucast (pk_vk ?k)"
    using assms by (auto simp: release_identity_def Let_def split: if_splits)
  then show ?thesis
  proof cases
    case key_up
    then have "unat (release_identity m) = 1 + unat (ie_keyCode ?e)"
      by (simp only: key_up(2)) (subst unat_add_small; simp)
    then show ?thesis using key_up by (simp add: release_identities_def)
  next
    case button
    then show ?thesis by (auto simp: release_identities_def)
  next
    case scan
    have shifted: "unat (push_bit 1 (ucast (pk_scanCode ?k)) :: u32) = 2 * unat (pk_scanCode ?k)"
      using scan(2) by (simp add: push_bit_eq_mult unat_word_ariths)
    have flag: "unat (pk_flags ?k AND 1) \<le> 1"
      by (simp add: and_one_eq unat_mod)
    have "0 < unat (pk_scanCode ?k)" using scan(1) by (simp add: unat_gt_0)
    moreover have "unat (release_identity m) =
        1024 + 2 * unat (pk_scanCode ?k) + unat (pk_flags ?k AND 1)"
      unfolding scan(3) using shifted flag scan(2) by (subst unat_add_small; simp add: unat_add_small)+
    ultimately show ?thesis using flag scan(2) by (simp add: release_identities_def)
  next
    case vk
    then have "unat (release_identity m) = 512 + unat (pk_vk ?k)"
      by (simp only: vk(2)) (subst unat_add_small; simp)
    then show ?thesis using vk by (simp add: release_identities_def)
  qed
qed

lemma distinct_identities_bound:
  assumes "list_all is_release ms" and "distinct (map release_identity ms)"
  shows "length ms \<le> 1025"
proof -
  have "inj (unat :: u32 \<Rightarrow> nat)" by (rule injI) (simp add: word_unat_eq_iff)
  then have "distinct (map unat (map release_identity ms))"
    using assms(2) by (simp only: distinct_map) (meson inj_on_subset subset_UNIV)
  then have "distinct (map (\<lambda>m. unat (release_identity m)) ms)" by (simp add: comp_def)
  then have "length ms = card ((\<lambda>m. unat (release_identity m)) ` set ms)"
    by (metis distinct_card length_map set_map)
  also have "\<dots> \<le> card release_identities"
    using assms(1) release_identity_range
    by (intro card_mono card_release_identities(2)) (auto simp: list_all_iff)
  finally show ?thesis using card_release_identities(1) by simp
qed

section \<open>Runs of the queue\<close>

datatype input_op = Enqueue u64 queued_input | TryDequeue u64 | DropAllButReleases

fun input_step :: "input_op \<Rightarrow> input_queue \<Rightarrow> queued_input list \<times> input_queue" where
  "input_step (Enqueue nowMs m) q = ([], input_enqueue nowMs m q)"
| "input_step (TryDequeue nowMs) q =
    (let (out, q) = input_try_dequeue nowMs q in (case out of None \<Rightarrow> [] | Some m \<Rightarrow> [m], q))"
| "input_step DropAllButReleases q = ([], snd (snd (drop_all_but_releases q)))"

fun input_run :: "input_op list \<Rightarrow> input_queue \<Rightarrow> queued_input list \<times> input_queue" where
  "input_run [] q = ([], q)"
| "input_run (op # ops) q =
    (let (outs, q) = input_step op q; (outs', q) = input_run ops q in (outs @ outs', q))"

abbreviation new_input_queue :: input_queue where
  "new_input_queue \<equiv> input_queue_reset undefined"

lemma input_run_append:
  "input_run (ops @ ops') q =
    (let (outs, q) = input_run ops q; (outs', q) = input_run ops' q in (outs @ outs', q))"
  by (induction ops arbitrary: q) (auto simp: Let_def split: prod.splits)

subsection \<open>The bound\<close>

definition iq_inv :: "input_queue \<Rightarrow> bool" where
  "iq_inv q \<longleftrightarrow> (if iq_backpressured q
    then list_all is_release (iq_queue q) \<and>
      (\<exists>k\<le>kMaxInputQueueSize. distinct (map release_identity (drop k (iq_queue q))))
    else length (iq_queue q) \<le> kMaxInputQueueSize)"

lemma iq_inv_bound: "iq_inv q \<Longrightarrow> length (iq_queue q) \<le> 1281"
proof (cases "iq_backpressured q")
  case True
  assume "iq_inv q"
  with True obtain k where k: "k \<le> 256" "distinct (map release_identity (drop k (iq_queue q)))"
    and rel: "list_all is_release (iq_queue q)"
    by (auto simp: iq_inv_def kMaxInputQueueSize_def)
  have "list_all is_release (drop k (iq_queue q))" using rel by (auto simp: list_all_iff dest: in_set_dropD)
  from distinct_identities_bound [OF this k(2)] k(1) show ?thesis by simp
qed (simp add: iq_inv_def kMaxInputQueueSize_def)

lemma release_identity_stamp [simp]: "release_identity (m\<lparr>qi_queuedAtMs := t\<rparr>) = release_identity m"
  by (cases m) (simp only: release_identity_def queued_input.simps)

lemma iq_inv_start: "length (iq_queue q) \<le> kMaxInputQueueSize \<Longrightarrow> iq_inv (start_backpressure q)"
proof -
  assume few: "length (iq_queue q) \<le> kMaxInputQueueSize"
  have "length (filter is_release (iq_queue q)) \<le> kMaxInputQueueSize"
    using few length_filter_le le_trans by blast
  then show ?thesis
    by (auto simp: iq_inv_def start_backpressure_def list_all_iff intro!: exI [of _ kMaxInputQueueSize])
qed

lemma iq_inv_append:
  assumes "iq_inv q" "iq_backpressured q" "is_release m"
    and "\<not> list_ex (\<lambda>p. release_identity p = release_identity m) (iq_queue q)"
  shows "iq_inv (q\<lparr>iq_queue := iq_queue q @ [m\<lparr>qi_queuedAtMs := t\<rparr>]\<rparr>)"
proof -
  obtain k where k: "k \<le> kMaxInputQueueSize" "distinct (map release_identity (drop k (iq_queue q)))"
    using assms(1,2) by (auto simp: iq_inv_def)
  have new: "release_identity m \<notin> release_identity ` set (drop k (iq_queue q))"
    using assms(4) by (force simp: list_ex_iff dest: in_set_dropD)
  then have "distinct (map release_identity (drop k (iq_queue q @ [m\<lparr>qi_queuedAtMs := t\<rparr>])))"
    using k(2) by (cases "k \<le> length (iq_queue q)") (auto simp: not_le)
  with k(1) assms show ?thesis by (auto simp: iq_inv_def)
qed

lemma iq_inv_enqueue:
  assumes inv: "iq_inv q" shows "iq_inv (input_enqueue nowMs m q)"
proof -
  let ?q = "if length (iq_queue q) \<ge> kMaxInputQueueSize \<and> \<not> iq_backpressured q
    then start_backpressure q else q"
  have inv': "iq_inv ?q" using inv iq_inv_start [of q] by (auto simp: iq_inv_def)
  have room: "\<not> iq_backpressured ?q \<Longrightarrow> length (iq_queue ?q) < kMaxInputQueueSize"
    by (auto simp: start_backpressure_def split: if_splits)
  have app: "iq_inv (input_append nowMs m r)"
    if r: "iq_inv r" "\<not> iq_backpressured r \<Longrightarrow> length (iq_queue r) < kMaxInputQueueSize" for r
  proof (cases "iq_backpressured r \<and>
      (release_identity m = 0 \<or> list_ex (\<lambda>p. release_identity p = release_identity m) (iq_queue r))")
    case True
    with r(1) show ?thesis by (auto simp: input_append_def iq_inv_def)
  next
    case False
    then have eq: "input_append nowMs m r = r\<lparr>iq_queue := iq_queue r @ [m\<lparr>qi_queuedAtMs := nowMs\<rparr>]\<rparr>"
      by (simp add: input_append_def)
    show ?thesis
      unfolding eq using False r iq_inv_append [OF r(1), of m nowMs]
      by (cases "iq_backpressured r") (auto simp: iq_inv_def)
  qed
  show ?thesis
  proof (cases "\<not> iq_backpressured q \<and> is_move m \<and> iq_queue q \<noteq> [] \<and> is_move (last (iq_queue q))")
    case True
    then show ?thesis
      using inv by (cases "iq_queue q" rule: rev_cases) (auto simp: iq_inv_def input_enqueue_def)
  next
    case False
    then have "input_enqueue nowMs m q = input_append nowMs m ?q"
      unfolding input_enqueue_def by (simp only: if_False)
    then show ?thesis using app [OF inv' room] by simp
  qed
qed

lemma input_dequeue_loop_suffix:
  "input_dequeue_loop nowMs ms d = (out, rest, d') \<Longrightarrow>
    (\<exists>k. rest = drop k ms) \<and>
    (case out of None \<Rightarrow> rest = [] \<and> filter is_release ms = []
     | Some m \<Rightarrow> filter is_release ms = filter is_release (m # rest) \<and> m \<in> set ms)"
proof (induction nowMs ms d rule: input_dequeue_loop.induct)
  case (2 nowMs m ms d)
  show ?case
  proof (cases "stale_action nowMs m")
    case True
    then obtain k where "rest = drop k ms" using 2 by auto
    then have "rest = drop (Suc k) (m # ms)" by simp
    moreover have "case out of None \<Rightarrow> rest = [] \<and> filter is_release (m # ms) = []
     | Some m' \<Rightarrow> filter is_release (m # ms) = filter is_release (m' # rest) \<and> m' \<in> set (m # ms)"
      using 2 True by (auto simp: stale_action_def split: option.splits)
    ultimately show ?thesis by blast
  next
    case False
    then have "out = Some m" "rest = drop 1 (m # ms)" using 2 by auto
    then show ?thesis by (auto intro: exI [of _ 1])
  qed
qed simp

lemma iq_inv_dequeue: "iq_inv q \<Longrightarrow> iq_inv (snd (input_try_dequeue nowMs q))"
proof -
  assume inv: "iq_inv q"
  obtain out rest d where loop: "input_dequeue_loop nowMs (iq_queue q) (iq_dropped q) = (out, rest, d)"
    by (metis prod_cases3)
  then obtain k where k: "rest = drop k (iq_queue q)" using input_dequeue_loop_suffix by blast
  have all: "list_all is_release (iq_queue q) \<Longrightarrow> list_all is_release rest"
    using k by (auto simp: list_all_iff dest: in_set_dropD)
  have dist: "distinct (map release_identity (drop j (iq_queue q))) \<Longrightarrow>
      distinct (map release_identity (drop j rest))" for j
  proof -
    assume "distinct (map release_identity (drop j (iq_queue q)))"
    then have "distinct (drop k (map release_identity (drop j (iq_queue q))))" by simp
    then show ?thesis by (simp only: k drop_map drop_drop add.commute)
  qed
  have len: "length rest \<le> length (iq_queue q)" using k by simp
  have "iq_inv (q\<lparr>iq_queue := rest, iq_dropped := d, iq_backpressured :=
      (iq_backpressured q \<and> rest \<noteq> [])\<rparr>)"
  proof (cases "iq_backpressured q \<and> rest \<noteq> []")
    case True
    with inv obtain j where "j \<le> kMaxInputQueueSize" "list_all is_release (iq_queue q)"
      "distinct (map release_identity (drop j (iq_queue q)))" by (auto simp: iq_inv_def)
    with True all dist show ?thesis by (auto simp: iq_inv_def)
  next
    case False
    with inv len show ?thesis by (auto simp: iq_inv_def split: if_splits)
  qed
  then show ?thesis using loop by (simp add: input_try_dequeue_def Let_def)
qed

lemma iq_inv_drop: "iq_inv q \<Longrightarrow> iq_inv (snd (snd (drop_all_but_releases q)))"
  using length_filter_le [of is_release "iq_queue q"]
  by (auto simp: iq_inv_def drop_all_but_releases_def Let_def list_all_iff simp del: length_filter_le)

lemma iq_inv_run: "iq_inv q \<Longrightarrow> iq_inv (snd (input_run ops q))"
proof (induction ops arbitrary: q)
  case (Cons op ops)
  have "iq_inv (snd (input_step op q))"
    using Cons.prems iq_inv_enqueue iq_inv_dequeue iq_inv_drop
    by (cases op) (auto simp: Let_def case_prod_unfold)
  then show ?case using Cons.IH by (simp add: Let_def case_prod_unfold)
qed simp

text \<open>
  The input queue is bounded in every run, also under backpressure, where only releases
  are added: 256 entries and one per release identity that exists.
\<close>

theorem input_queue_bounded: "length (iq_queue (snd (input_run ops new_input_queue))) \<le> 1281"
proof -
  have "iq_inv new_input_queue" by (simp add: iq_inv_def input_queue_reset_def)
  then show ?thesis using iq_inv_run iq_inv_bound by blast
qed

subsection \<open>Releases\<close>

definition release_ids :: "queued_input list \<Rightarrow> u32 list" where
  "release_ids ms = map release_identity (filter is_release ms)"

lemma release_ids_simps [simp]:
  "release_ids [] = []" "release_ids (ms @ ms') = release_ids ms @ release_ids ms'"
  "release_ids (m # ms) = (if is_release m then release_identity m # release_ids ms else release_ids ms)"
  "release_ids (filter is_release ms) = release_ids ms"
  by (simp_all add: release_ids_def)

lemma is_move_not_release: "is_move m \<Longrightarrow> release_identity m = 0"
  by (simp add: is_move_def release_identity_def Let_def)

lemma release_ids_enqueue:
  "release_ids (iq_queue (input_enqueue nowMs m q)) = release_ids (iq_queue q) @ release_ids [m] \<or>
   (release_ids (iq_queue (input_enqueue nowMs m q)) = release_ids (iq_queue q) \<and>
    (is_release m \<longrightarrow> release_identity m \<in> set (release_ids (iq_queue q))))"
proof -
  let ?q = "if length (iq_queue q) \<ge> kMaxInputQueueSize \<and> \<not> iq_backpressured q
    then start_backpressure q else q"
  have same: "release_ids (iq_queue ?q) = release_ids (iq_queue q)" by (simp add: start_backpressure_def)
  have app: "release_ids (iq_queue (input_append nowMs m r)) = release_ids (iq_queue r) @ release_ids [m] \<or>
    (release_ids (iq_queue (input_append nowMs m r)) = release_ids (iq_queue r) \<and>
     (is_release m \<longrightarrow> release_identity m \<in> set (release_ids (iq_queue r))))" for r
  proof -
    have "list_ex (\<lambda>p. release_identity p = release_identity m) (iq_queue r) \<Longrightarrow> is_release m \<Longrightarrow>
        release_identity m \<in> set (release_ids (iq_queue r))"
    proof -
      assume ex: "list_ex (\<lambda>p. release_identity p = release_identity m) (iq_queue r)" and rel: "is_release m"
      then obtain p where "p \<in> set (iq_queue r)" "release_identity p = release_identity m"
        by (auto simp: list_ex_iff)
      then have "p \<in> set (filter is_release (iq_queue r))" using rel by simp
      then have "release_identity p \<in> set (release_ids (iq_queue r))"
        unfolding release_ids_def set_map by (rule imageI)
      then show ?thesis using \<open>release_identity p = release_identity m\<close> by simp
    qed
    then show ?thesis by (auto simp: input_append_def)
  qed
  show ?thesis
  proof (cases "\<not> iq_backpressured q \<and> is_move m \<and> iq_queue q \<noteq> [] \<and> is_move (last (iq_queue q))")
    case True
    then obtain ms l where "iq_queue q = ms @ [l]" "is_move l" "is_move m"
      by (cases "iq_queue q" rule: rev_cases) auto
    then show ?thesis using True by (auto simp: input_enqueue_def is_move_not_release)
  next
    case False
    then have "input_enqueue nowMs m q = input_append nowMs m ?q"
      unfolding input_enqueue_def by (simp only: if_False)
    then show ?thesis using app [of ?q] same by simp
  qed
qed

lemma release_ids_step:
  assumes "input_step op q = (outs, q')"
  defines "new \<equiv> (case op of Enqueue t m \<Rightarrow> release_ids [m] | _ \<Rightarrow> [])"
  shows "release_ids outs @ release_ids (iq_queue q') = release_ids (iq_queue q) @ new \<or>
    (release_ids outs @ release_ids (iq_queue q') = release_ids (iq_queue q) \<and>
     set new \<subseteq> set (release_ids (iq_queue q)))"
proof (cases op)
  case (Enqueue t m)
  then show ?thesis
    using release_ids_enqueue [of t m q] assms by auto
next
  case (TryDequeue t)
  obtain out rest d where loop: "input_dequeue_loop t (iq_queue q) (iq_dropped q) = (out, rest, d)"
    by (metis prod_cases3)
  then show ?thesis
    using input_dequeue_loop_suffix [OF loop] assms TryDequeue
    by (auto simp: input_try_dequeue_def Let_def release_ids_def split: option.splits)
next
  case DropAllButReleases
  then show ?thesis using assms by (auto simp: drop_all_but_releases_def Let_def)
qed

fun enqueued_releases :: "input_op list \<Rightarrow> u32 list" where
  "enqueued_releases [] = []"
| "enqueued_releases (Enqueue t m # ops) = release_ids [m] @ enqueued_releases ops"
| "enqueued_releases (_ # ops) = enqueued_releases ops"

lemma release_ids_run:
  assumes "input_run ops q = (outs, q')"
  shows "subseq (release_ids outs @ release_ids (iq_queue q')) (release_ids (iq_queue q) @ enqueued_releases ops) \<and>
    set (release_ids outs @ release_ids (iq_queue q')) =
      set (release_ids (iq_queue q) @ enqueued_releases ops)"
  using assms
proof (induction ops arbitrary: q outs)
  case (Cons op ops)
  obtain outs1 q1 outs2 where step: "input_step op q = (outs1, q1)" and run: "input_run ops q1 = (outs2, q')"
    and outs: "outs = outs1 @ outs2"
    using Cons.prems by (auto simp: Let_def split: prod.splits)
  define new where "new = (case op of Enqueue t m \<Rightarrow> release_ids [m] | _ \<Rightarrow> [])"
  have enq: "enqueued_releases (op # ops) = new @ enqueued_releases ops"
    by (cases op) (simp_all add: new_def)
  note IH = Cons.IH [OF run]
  have sub: "subseq (release_ids outs @ release_ids (iq_queue q'))
      (release_ids outs1 @ release_ids (iq_queue q1) @ enqueued_releases ops)"
    using IH outs by (simp add: subseq_append')
  have eq: "set (release_ids outs @ release_ids (iq_queue q')) =
      set (release_ids outs1 @ release_ids (iq_queue q1) @ enqueued_releases ops)"
    using IH outs by auto
  have drop_new: "subseq (xs @ ys) (xs @ new @ ys)" for xs ys
    by (simp add: subseq_append' subseq_drop_many)
  from release_ids_step [OF step, folded new_def] show ?case
  proof (elim disjE conjE)
    assume "release_ids outs1 @ release_ids (iq_queue q1) = release_ids (iq_queue q) @ new"
    then have "release_ids outs1 @ release_ids (iq_queue q1) @ enqueued_releases ops =
        release_ids (iq_queue q) @ enqueued_releases (op # ops)" using enq by (metis append_assoc)
    with sub eq show ?thesis by simp
  next
    assume same: "release_ids outs1 @ release_ids (iq_queue q1) = release_ids (iq_queue q)"
      and known: "set new \<subseteq> set (release_ids (iq_queue q))"
    have split: "release_ids outs1 @ release_ids (iq_queue q1) @ enqueued_releases ops =
        release_ids (iq_queue q) @ enqueued_releases ops" using same by (metis append_assoc)
    have "subseq (release_ids outs @ release_ids (iq_queue q')) (release_ids (iq_queue q) @ enqueued_releases (op # ops))"
      using sub drop_new [of "release_ids (iq_queue q)" "enqueued_releases ops"] enq
      unfolding split by (metis subseq_order.trans)
    moreover have "set (release_ids outs @ release_ids (iq_queue q')) =
        set (release_ids (iq_queue q) @ enqueued_releases (op # ops))"
      using eq known enq unfolding split by auto
    ultimately show ?thesis by blast
  qed
qed simp

text \<open>
  C7. No recognised release is lost. In every run, backpressure, stale-action dropping and the
  drop after a reconnect included, the releases handed out followed by those still pending are
  the enqueued ones in their order, with only repetitions of an identity left out; and right
  after a release has been enqueued its identity is pending.
\<close>

theorem releases_never_lost:
  assumes "input_run ops new_input_queue = (outs, q)"
  shows "subseq (release_ids outs @ release_ids (iq_queue q)) (enqueued_releases ops) \<and>
    set (release_ids outs @ release_ids (iq_queue q)) = set (enqueued_releases ops) \<and>
    (\<forall>nowMs m. is_release m \<longrightarrow>
      release_identity m \<in> set (release_ids (iq_queue (input_enqueue nowMs m q))))"
proof (intro conjI allI impI)
  have empty: "release_ids (iq_queue new_input_queue) = []" by (simp add: input_queue_reset_def)
  show "subseq (release_ids outs @ release_ids (iq_queue q)) (enqueued_releases ops)"
    and "set (release_ids outs @ release_ids (iq_queue q)) = set (enqueued_releases ops)"
    using release_ids_run [OF assms] empty by simp_all
  show "release_identity m \<in> set (release_ids (iq_queue (input_enqueue nowMs m q)))"
    if "is_release m" for nowMs m
    using release_ids_enqueue [of nowMs m q] that by auto
qed

definition x_button_up :: queued_input where
  "x_button_up = fst (make_control_input_event 3 0 10 20 0 5 1000 new_input_queue)"


definition key_up :: "u32 \<Rightarrow> queued_input" where
  "key_up code = fst (make_control_input_event 6 0 0 0 0 code 1000 new_input_queue)"

theorem releases_never_lost_witness:
  "\<exists>outs q. input_run [Enqueue 1 (key_up 65), Enqueue 2 (key_up 66), TryDequeue 3, DropAllButReleases]
      new_input_queue = (outs, q) \<and>
    set (release_ids outs @ release_ids (iq_queue q)) = {66, 67}"
proof -
  let ?ops = "[Enqueue 1 (key_up 65), Enqueue 2 (key_up 66), TryDequeue 3, DropAllButReleases]"
  obtain outs q where run: "input_run ?ops new_input_queue = (outs, q)" by fastforce
  have ids: "release_identity (key_up 65) = 66" "release_identity (key_up 66) = 67"
    by (simp_all add: key_up_def make_control_input_event_def input_next_sequence_def Let_def
        release_identity_def default_queued_input_def)
  then have ops: "enqueued_releases ?ops = [66, 67]" by simp
  have "set (release_ids outs @ release_ids (iq_queue q)) = {66, 67}"
    using releases_never_lost [OF run] by (simp only: ops list.set)
  with run show ?thesis by blast
qed

end
