(* ===== verification/Scheduler.thy ===== *)
theory Scheduler
  imports WindowPanel RequestSlots KeyframeRequests RuntimeTune InputQueue
begin

text \<open>
  \<open>ClientControlScheduler\<close> of \<open>native_video_client_shared_core.cpp\<close>: which message the control
  thread sends next. The sources of messages are the queue, the panel and the request slots of
  the other theories; \<open>NextAction\<close> tries them in a fixed order, one stage of the model for each.
  The lemmas show that a full input queue cannot starve the reports behind it, and that a request
  is consumed only by the call that sends it.
\<close>

section \<open>State and actions\<close>

record control_scheduler =
  sc_nextPingSeq :: u32
  sc_inputBurstCount :: u32
  sc_nextMetricsSeq :: u32
  sc_nextWindowListSeq :: u32
  sc_nextWindowSelectSeq :: u32
  sc_nextMonitorSeq :: u32
  sc_nextPingUs :: u64
  sc_lastMetricsSentUs :: u64
  sc_nextBandwidthSeq :: u32
  sc_lastBandwidthSentUs :: u64
  sc_inputAckCount :: u64
  sc_controlIntervalMs :: u32

definition initial_scheduler :: control_scheduler where
  "initial_scheduler = \<lparr>sc_nextPingSeq = 0, sc_inputBurstCount = 0, sc_nextMetricsSeq = 0,
    sc_nextWindowListSeq = 0, sc_nextWindowSelectSeq = 0, sc_nextMonitorSeq = 0, sc_nextPingUs = 0,
    sc_lastMetricsSentUs = 0, sc_nextBandwidthSeq = 0, sc_lastBandwidthSentUs = 0,
    sc_inputAckCount = 0, sc_controlIntervalMs = 1000\<rparr>"

text \<open>The two reports; the figures the scheduler only copies are a list.\<close>

record metrics_message =
  mx_seq :: u32
  mx_recvMbpsX1000 :: u32
  mx_clientSendQpcUs :: u64
  mx_figures :: "u64 list"

record metrics_snapshot =
  ms_message :: metrics_message
  ms_updatedQpcUs :: u64

record bandwidth_message =
  bw_seq :: u32
  bw_clientSendQpcUs :: u64
  bw_figures :: "u64 list"

record bandwidth_snapshot =
  bs_message :: bandwidth_message
  bs_updatedQpcUs :: u64

text \<open>What a call sends. The second field of a window selection is the local selection's tag.\<close>

datatype outbound_action =
    PingAction u32 u64
  | StreamStateAction u32 u32 u64
  | WindowListRequestAction u32 u64
  | MonitorListRequestAction u32 u64
  | MonitorSelectAction u32 u32 u64
  | WindowSelectAction u32 u64 u64 u64
  | CaptureModeAction pending_capture_mode u64
  | InputEventAction input_event u64
  | InputTextAction input_text u64
  | PhysicalKeyAction physical_key u64
  | MetricsAction metrics_message
  | BandwidthAction bandwidth_message
  | KeyframeAction u32 u16 u64
  | RuntimeTuneAction runtime_encoder_config
  | DesktopBackendAction u32 u16 u16 u64

datatype response_type = PongResponse | WindowListResponse | MonitorListResponse
  | WindowSelectedResponse | InputAckResponse | DesktopBackendStatusResponse

fun expected_response :: "outbound_action \<Rightarrow> response_type option" where
  "expected_response (PingAction _ _) = Some PongResponse"
| "expected_response (WindowListRequestAction _ _) = Some WindowListResponse"
| "expected_response (MonitorListRequestAction _ _) = Some MonitorListResponse"
| "expected_response (MonitorSelectAction _ _ _) = Some MonitorListResponse"
| "expected_response (WindowSelectAction _ _ _ _) = Some WindowSelectedResponse"
| "expected_response (InputEventAction _ _) = Some InputAckResponse"
| "expected_response (InputTextAction _ _) = Some InputAckResponse"
| "expected_response (PhysicalKeyAction _ _) = Some InputAckResponse"
| "expected_response (DesktopBackendAction _ _ flags _) =
    (if flags AND 1 \<noteq> 0 then Some DesktopBackendStatusResponse else None)"
| "expected_response _ = None"

text \<open>The sources of a call.\<close>

record control_sources =
  cs_panel :: window_panel
  cs_streamState :: stream_state_slot
  cs_captureMode :: capture_mode_slot
  cs_keyframes :: keyframe_requests
  cs_tune :: runtime_tune
  cs_queue :: input_queue
  cs_desktop :: "desktop_backend_slot option"

type_synonym control_state = "control_scheduler \<times> control_sources"
type_synonym stage = "control_state \<Rightarrow> outbound_action option \<times> control_state"

section \<open>Operations\<close>

definition scheduler_reset :: "u32 \<Rightarrow> u64 \<Rightarrow> control_scheduler \<Rightarrow> control_scheduler" where
  "scheduler_reset controlIntervalMs nowUs s = s\<lparr>sc_inputBurstCount := 0, sc_nextPingSeq := 0,
    sc_nextMetricsSeq := 0, sc_nextWindowListSeq := 0, sc_nextWindowSelectSeq := 0,
    sc_nextPingUs := nowUs, sc_lastMetricsSentUs := 0, sc_inputAckCount := 0,
    sc_controlIntervalMs := clamp controlIntervalMs 20 10000\<rparr>"

definition on_ping_completed :: "u64 \<Rightarrow> control_scheduler \<Rightarrow> control_scheduler" where
  "on_ping_completed doneUs s = s\<lparr>sc_nextPingUs := doneUs + ucast (sc_controlIntervalMs s) * 1000\<rparr>"

definition request_ping_now :: "control_scheduler \<Rightarrow> control_scheduler" where
  "request_ping_now s = s\<lparr>sc_nextPingUs := 0\<rparr>"

definition record_input_ack :: "u32 \<Rightarrow> control_scheduler \<Rightarrow> u64 \<times> control_scheduler" where
  "record_input_ack inputLogEvery s =
    (let s = s\<lparr>sc_inputAckCount := sc_inputAckCount s + 1\<rparr> in
     (if inputLogEvery = 0 then 0
      else if sc_inputAckCount s mod ucast inputLogEvery = 0 then sc_inputAckCount s else 0, s))"

text \<open>The stages, in the order of the code.\<close>

definition ping_stage :: "u64 \<Rightarrow> stage" where
  "ping_stage nowUs = (\<lambda>(s, src).
    if sc_nextPingUs s \<le> nowUs
    then let s = s\<lparr>sc_nextPingSeq := sc_nextPingSeq s + 1\<rparr> in
      (Some (PingAction (sc_nextPingSeq s) nowUs), s, src)
    else (None, s, src))"

definition stream_state_stage :: "u64 \<Rightarrow> stage" where
  "stream_state_stage nowUs = (\<lambda>(s, src).
    let (out, slot) = stream_state_consume (cs_streamState src) in
    (map_option (\<lambda>x. StreamStateAction (pss_seq x) (if pss_active x then 1 else 0) nowUs) out,
     s, src\<lparr>cs_streamState := slot\<rparr>))"

definition window_list_stage :: "u64 \<Rightarrow> stage" where
  "window_list_stage nowUs = (\<lambda>(s, src).
    let (wanted, panel) = take_list_request (cs_panel src); src = src\<lparr>cs_panel := panel\<rparr> in
    if wanted
    then let s = s\<lparr>sc_nextWindowListSeq := sc_nextWindowListSeq s + 1\<rparr> in
      (Some (WindowListRequestAction (sc_nextWindowListSeq s) nowUs), s, src)
    else (None, s, src))"

definition monitor_list_stage :: "u64 \<Rightarrow> stage" where
  "monitor_list_stage nowUs = (\<lambda>(s, src).
    let (wanted, panel) = take_monitor_list_request (cs_panel src); src = src\<lparr>cs_panel := panel\<rparr> in
    if wanted
    then let s = s\<lparr>sc_nextMonitorSeq := sc_nextMonitorSeq s + 1\<rparr> in
      (Some (MonitorListRequestAction (sc_nextMonitorSeq s) nowUs), s, src)
    else (None, s, src))"

definition monitor_select_stage :: "u64 \<Rightarrow> stage" where
  "monitor_select_stage nowUs = (\<lambda>(s, src).
    let (wanted, panel) = take_monitor_select_request (cs_panel src); src = src\<lparr>cs_panel := panel\<rparr> in
    case wanted of
      Some monitorId \<Rightarrow> let s = s\<lparr>sc_nextMonitorSeq := sc_nextMonitorSeq s + 1\<rparr> in
        (Some (MonitorSelectAction (sc_nextMonitorSeq s) monitorId nowUs), s, src)
    | None \<Rightarrow> (None, s, src))"

definition window_select_stage :: "u64 \<Rightarrow> stage" where
  "window_select_stage nowUs = (\<lambda>(s, src).
    let (wanted, panel) = take_select_request (cs_panel src); src = src\<lparr>cs_panel := panel\<rparr> in
    case wanted of
      Some (windowId, tag) \<Rightarrow> let s = s\<lparr>sc_nextWindowSelectSeq := sc_nextWindowSelectSeq s + 1\<rparr> in
        (Some (WindowSelectAction (sc_nextWindowSelectSeq s) tag windowId nowUs), s, src)
    | None \<Rightarrow> (None, s, src))"

definition capture_mode_stage :: "u64 \<Rightarrow> stage" where
  "capture_mode_stage nowUs = (\<lambda>(s, src).
    let (out, slot) = capture_mode_consume (cs_captureMode src) in
    (map_option (\<lambda>x. CaptureModeAction x nowUs) out, s, src\<lparr>cs_captureMode := slot\<rparr>))"

definition input_action :: "u64 \<Rightarrow> queued_input \<Rightarrow> outbound_action" where
  "input_action nowUs m = (case qi_type m of
     MControlInputEvent \<Rightarrow>
       InputEventAction ((qi_inputEvent m)\<lparr>ie_clientSendQpcUs := nowUs\<rparr>) (qi_generatedUs m)
   | MControlInputText \<Rightarrow>
       InputTextAction ((qi_inputText m)\<lparr>it_clientSendQpcUs := nowUs\<rparr>) (qi_generatedUs m)
   | MControlPhysicalKey \<Rightarrow>
       PhysicalKeyAction ((qi_physicalKey m)\<lparr>pk_clientSendQpcUs := nowUs\<rparr>) (qi_generatedUs m))"

text \<open>
  The queue's clock is another one than \<open>nowUs\<close>, its reading the argument \<open>nowMs\<close>. When the
  burst is over, or the queue has nothing, the burst count starts again.
\<close>

definition input_stage :: "u64 \<Rightarrow> u64 \<Rightarrow> stage" where
  "input_stage nowUs nowMs = (\<lambda>(s, src).
    let (out, queue) = (if sc_inputBurstCount s < 8 then input_try_dequeue nowMs (cs_queue src)
          else (None, cs_queue src));
        src = src\<lparr>cs_queue := queue\<rparr> in
    case out of
      Some m \<Rightarrow> (Some (input_action nowUs m), s\<lparr>sc_inputBurstCount := sc_inputBurstCount s + 1\<rparr>, src)
    | None \<Rightarrow> (None, s\<lparr>sc_inputBurstCount := 0\<rparr>, src))"

definition metrics_stage :: "u64 \<Rightarrow> metrics_snapshot \<Rightarrow> stage" where
  "metrics_stage nowUs metrics = (\<lambda>(s, src).
    if 0 < ms_updatedQpcUs metrics \<and> ms_updatedQpcUs metrics \<noteq> sc_lastMetricsSentUs s
    then let s = s\<lparr>sc_nextMetricsSeq := sc_nextMetricsSeq s + 1,
               sc_lastMetricsSentUs := ms_updatedQpcUs metrics\<rparr> in
      (Some (MetricsAction ((ms_message metrics)\<lparr>mx_seq := sc_nextMetricsSeq s,
         mx_clientSendQpcUs := nowUs\<rparr>)), s, src)
    else (None, s, src))"

definition bandwidth_stage :: "u64 \<Rightarrow> bandwidth_snapshot option \<Rightarrow> stage" where
  "bandwidth_stage nowUs bandwidth = (\<lambda>(s, src).
    case bandwidth of
      Some b \<Rightarrow>
        if 0 < bs_updatedQpcUs b \<and> bs_updatedQpcUs b \<noteq> sc_lastBandwidthSentUs s
        then let s = s\<lparr>sc_nextBandwidthSeq := sc_nextBandwidthSeq s + 1,
                   sc_lastBandwidthSentUs := bs_updatedQpcUs b\<rparr> in
          (Some (BandwidthAction ((bs_message b)\<lparr>bw_seq := sc_nextBandwidthSeq s,
             bw_clientSendQpcUs := nowUs\<rparr>)), s, src)
        else (None, s, src)
    | None \<Rightarrow> (None, s, src))"

definition keyframe_stage :: "u64 \<Rightarrow> stage" where
  "keyframe_stage nowUs = (\<lambda>(s, src).
    let (out, slot) = keyframe_consume (cs_keyframes src) in
    case out of
      Some reason \<Rightarrow> let (seq, slot) = keyframe_next_sequence slot in
        (Some (KeyframeAction seq reason nowUs), s, src\<lparr>cs_keyframes := slot\<rparr>)
    | None \<Rightarrow> (None, s, src\<lparr>cs_keyframes := slot\<rparr>))"

definition tune_stage :: "u64 \<Rightarrow> metrics_snapshot \<Rightarrow> stage" where
  "tune_stage nowUs metrics = (\<lambda>(s, src).
    let (out, tune) = runtime_tune_consume nowUs (mx_recvMbpsX1000 (ms_message metrics)) (cs_tune src) in
    (map_option RuntimeTuneAction out, s, src\<lparr>cs_tune := tune\<rparr>))"

definition desktop_stage :: "u64 \<Rightarrow> stage" where
  "desktop_stage nowUs = (\<lambda>(s, src).
    case cs_desktop src of
      None \<Rightarrow> (None, s, src)
    | Some slot \<Rightarrow> let (out, slot) = desktop_backend_consume slot in
        (map_option (\<lambda>x. DesktopBackendAction (pdb_seq x) (pdb_backend x)
           (if pdb_wantsStatus x then 1 else 0) nowUs) out, s, src\<lparr>cs_desktop := Some slot\<rparr>))"

definition or_else :: "stage \<Rightarrow> stage \<Rightarrow> stage" where
  "or_else f g st = (case f st of (Some a, st') \<Rightarrow> (Some a, st') | (None, st') \<Rightarrow> g st')"

definition urgent_stages :: "u64 \<Rightarrow> stage" where
  "urgent_stages nowUs =
    or_else (ping_stage nowUs) (or_else (stream_state_stage nowUs) (or_else (window_list_stage nowUs)
    (or_else (monitor_list_stage nowUs) (or_else (monitor_select_stage nowUs)
    (or_else (window_select_stage nowUs) (capture_mode_stage nowUs))))))"

definition background_stages :: "u64 \<Rightarrow> metrics_snapshot \<Rightarrow> bandwidth_snapshot option \<Rightarrow> stage" where
  "background_stages nowUs metrics bandwidth =
    or_else (metrics_stage nowUs metrics) (or_else (bandwidth_stage nowUs bandwidth)
    (or_else (keyframe_stage nowUs) (or_else (tune_stage nowUs metrics) (desktop_stage nowUs))))"

definition next_action ::
  "u64 \<Rightarrow> u64 \<Rightarrow> metrics_snapshot \<Rightarrow> bandwidth_snapshot option \<Rightarrow> stage" where
  "next_action nowUs nowMs metrics bandwidth =
    or_else (urgent_stages nowUs) (or_else (input_stage nowUs nowMs)
      (background_stages nowUs metrics bandwidth))"

section \<open>Turns\<close>

fun is_input :: "outbound_action \<Rightarrow> bool" where
  "is_input (InputEventAction _ _) = True"
| "is_input (InputTextAction _ _) = True"
| "is_input (PhysicalKeyAction _ _) = True"
| "is_input _ = False"

fun is_urgent :: "outbound_action \<Rightarrow> bool" where
  "is_urgent (PingAction _ _) = True"
| "is_urgent (StreamStateAction _ _ _) = True"
| "is_urgent (WindowListRequestAction _ _) = True"
| "is_urgent (MonitorListRequestAction _ _) = True"
| "is_urgent (MonitorSelectAction _ _ _) = True"
| "is_urgent (WindowSelectAction _ _ _ _) = True"
| "is_urgent (CaptureModeAction _ _) = True"
| "is_urgent _ = False"

text \<open>A stage that answers urgently or not at all, and leaves the counts of this section alone.\<close>

definition calm :: "stage \<Rightarrow> bool" where
  "calm f \<longleftrightarrow> (\<forall>s src out s' src'. f (s, src) = (out, s', src') \<longrightarrow>
     sc_inputBurstCount s' = sc_inputBurstCount s \<and> sc_lastMetricsSentUs s' = sc_lastMetricsSentUs s \<and>
     (\<forall>a. out = Some a \<longrightarrow> is_urgent a \<and> \<not> is_input a))"

lemma calm_or_else: "calm f \<Longrightarrow> calm g \<Longrightarrow> calm (or_else f g)"
  unfolding calm_def or_else_def by (fastforce split: prod.splits option.splits)

lemma calm_urgent: "calm (urgent_stages nowUs)"
proof -
  have "calm (ping_stage nowUs)" by (simp add: calm_def ping_stage_def Let_def)
  moreover have "calm (stream_state_stage nowUs)"
    by (auto simp: calm_def stream_state_stage_def split: prod.splits)
  moreover have "calm (window_list_stage nowUs)"
    by (auto simp: calm_def window_list_stage_def Let_def split: prod.splits)
  moreover have "calm (monitor_list_stage nowUs)"
    by (auto simp: calm_def monitor_list_stage_def Let_def split: prod.splits)
  moreover have "calm (monitor_select_stage nowUs)"
    by (auto simp: calm_def monitor_select_stage_def Let_def split: prod.splits option.splits)
  moreover have "calm (window_select_stage nowUs)"
    by (auto simp: calm_def window_select_stage_def Let_def split: prod.splits option.splits)
  moreover have "calm (capture_mode_stage nowUs)"
    by (auto simp: calm_def capture_mode_stage_def split: prod.splits)
  ultimately show ?thesis unfolding urgent_stages_def by (intro calm_or_else)
qed

lemma input_action_is_input [simp]: "is_input (input_action nowUs m)" "\<not> is_urgent (input_action nowUs m)"
  by (cases "qi_type m"; simp add: input_action_def)+

text \<open>The three outcomes of a call.\<close>

lemma next_action_cases:
  assumes "next_action nowUs nowMs metrics bandwidth (s, src) = (out, s', src')"
  obtains (urgent) a where "out = Some a" "\<not> is_input a" "sc_inputBurstCount s' = sc_inputBurstCount s"
      "sc_lastMetricsSentUs s' = sc_lastMetricsSentUs s"
  | (input) a where "out = Some a" "is_input a" "sc_inputBurstCount s < 8"
      "sc_inputBurstCount s' = sc_inputBurstCount s + 1"
      "sc_lastMetricsSentUs s' = sc_lastMetricsSentUs s"
  | (background) s0 src0 where "background_stages nowUs metrics bandwidth (s0, src0) = (out, s', src')"
      "sc_inputBurstCount s0 = 0" "sc_lastMetricsSentUs s0 = sc_lastMetricsSentUs s"
proof -
  obtain out1 s1 src1 where up: "urgent_stages nowUs (s, src) = (out1, s1, src1)" by (metis surj_pair)
  have calm: "sc_inputBurstCount s1 = sc_inputBurstCount s" "sc_lastMetricsSentUs s1 = sc_lastMetricsSentUs s"
    "\<And>a. out1 = Some a \<Longrightarrow> is_urgent a \<and> \<not> is_input a"
    using calm_urgent [of nowUs] up unfolding calm_def by blast+
  show thesis
  proof (cases out1)
    case (Some a)
    then have "out = Some a" "s' = s1" using assms up by (auto simp: next_action_def or_else_def)
    with Some calm show ?thesis by (intro urgent [of a]) auto
  next
    case None
    obtain out2 s2 src2 where inp: "input_stage nowUs nowMs (s1, src1) = (out2, s2, src2)"
      by (metis surj_pair)
    show ?thesis
    proof (cases out2)
      case (Some a)
      then have "is_input a" "sc_inputBurstCount s1 < 8" "sc_inputBurstCount s2 = sc_inputBurstCount s1 + 1"
        "sc_lastMetricsSentUs s2 = sc_lastMetricsSentUs s1"
        using inp by (auto simp: input_stage_def Let_def split: prod.splits option.splits if_splits)
      moreover have "out = Some a" "s' = s2"
        using assms up inp None Some by (auto simp: next_action_def or_else_def)
      ultimately show ?thesis using calm by (intro input [of a]) auto
    next
      case out2: None
      then have "sc_inputBurstCount s2 = 0" "sc_lastMetricsSentUs s2 = sc_lastMetricsSentUs s1"
        using inp by (auto simp: input_stage_def Let_def split: prod.splits option.splits)
      then show ?thesis using assms up inp None out2 calm background
        by (simp add: next_action_def or_else_def)
    qed
  qed
qed

lemma background_fresh_metrics:
  assumes "background_stages nowUs metrics bandwidth (s, src) = (out, s', src')"
    and "0 < ms_updatedQpcUs metrics" and "ms_updatedQpcUs metrics \<noteq> sc_lastMetricsSentUs s"
  shows "\<exists>m. out = Some (MetricsAction m)"
  using assms by (auto simp: background_stages_def or_else_def metrics_stage_def Let_def)

section \<open>Runs of the control thread\<close>

text \<open>
  Between two calls the other threads may do anything to the sources: an event \<open>Sources\<close> puts
  arbitrary ones in place.
\<close>

datatype control_event =
    Call u64 u64 metrics_snapshot "bandwidth_snapshot option"
  | Sources control_sources
  | PingCompleted u64
  | PingNow

fun control_run :: "control_event list \<Rightarrow> control_state \<Rightarrow> outbound_action option list \<times> control_state" where
  "control_run [] st = ([], st)"
| "control_run (Call nowUs nowMs metrics bandwidth # es) st =
    (let (out, st) = next_action nowUs nowMs metrics bandwidth st; (outs, st) = control_run es st in
     (out # outs, st))"
| "control_run (Sources src # es) st = control_run es (fst st, src)"
| "control_run (PingCompleted t # es) st = control_run es (on_ping_completed t (fst st), snd st)"
| "control_run (PingNow # es) st = control_run es (request_ping_now (fst st), snd st)"

definition input_turns :: "outbound_action option list \<Rightarrow> nat" where
  "input_turns outs = length (filter (\<lambda>out. \<exists>a. out = Some a \<and> is_input a) outs)"

lemma input_turns_simps [simp]:
  "input_turns [] = 0" "input_turns (None # outs) = input_turns outs"
  "input_turns (Some a # outs) = (if is_input a then 1 else 0) + input_turns outs"
  by (simp_all add: input_turns_def)

definition reports :: "u64 \<Rightarrow> control_event \<Rightarrow> bool" where
  "reports u e \<longleftrightarrow> (case e of Call nowUs nowMs metrics bandwidth \<Rightarrow> ms_updatedQpcUs metrics = u | _ \<Rightarrow> True)"

lemma metrics_within_burst:
  assumes "control_run events (s, src) = (outs, st)" and "\<forall>e\<in>set events. reports u e" and "0 < u"
    and "u \<noteq> sc_lastMetricsSentUs s" and "sc_inputBurstCount s \<le> 8"
    and "input_turns outs > 8 - unat (sc_inputBurstCount s)"
  shows "\<exists>pre m post. outs = pre @ Some (MetricsAction m) # post \<and>
    input_turns pre \<le> 8 - unat (sc_inputBurstCount s)"
  using assms
proof (induction events arbitrary: s src outs)
  case (Cons e events)
  show ?case
  proof (cases e)
    case (Call nowUs nowMs metrics bandwidth)
    obtain out s1 src1 outs1 where call: "next_action nowUs nowMs metrics bandwidth (s, src) = (out, s1, src1)"
      and run: "control_run events (s1, src1) = (outs1, st)" and outs: "outs = out # outs1"
      using Cons.prems(1) Call by (auto simp: Let_def split: prod.splits)
    have u: "ms_updatedQpcUs metrics = u" using Cons.prems(2) Call by (simp add: reports_def)
    note IH = Cons.IH [OF run, OF _ Cons.prems(3)]
    from call show ?thesis
    proof (cases rule: next_action_cases)
      case (urgent a)
      then obtain pre m post where "outs1 = pre @ Some (MetricsAction m) # post"
        "input_turns pre \<le> 8 - unat (sc_inputBurstCount s)"
        using IH Cons.prems outs by auto
      then show ?thesis using outs urgent by (intro exI [of _ "out # pre"]) auto
    next
      case (input a)
      have burst: "unat (sc_inputBurstCount s1) = unat (sc_inputBurstCount s) + 1"
        "unat (sc_inputBurstCount s) < 8"
        using input(3,4) by (simp_all add: word_less_nat_alt unat_word_ariths)
      then have "sc_inputBurstCount s1 \<le> 8" by (simp add: word_le_nat_alt)
      moreover have "8 - unat (sc_inputBurstCount s1) < input_turns outs1"
        using Cons.prems(6) outs input(1,2) burst(2) unfolding burst(1) by simp
      ultimately obtain pre m post where "outs1 = pre @ Some (MetricsAction m) # post"
        "input_turns pre \<le> 8 - unat (sc_inputBurstCount s1)"
        using IH Cons.prems(2,4) input(5) by auto
      then show ?thesis using outs input burst by (intro exI [of _ "out # pre"]) auto
    next
      case (background s0 src0)
      then obtain m where "out = Some (MetricsAction m)"
        using background_fresh_metrics u Cons.prems(3,4) by metis
      then show ?thesis using outs by (intro exI [of _ "[]"]) auto
    qed
  next
    case (PingCompleted t)
    then show ?thesis using Cons.IH [of "on_ping_completed t s" src outs] Cons.prems
      by (simp add: on_ping_completed_def)
  next
    case PingNow
    then show ?thesis using Cons.IH [of "request_ping_now s" src outs] Cons.prems
      by (simp add: request_ping_now_def)
  qed (use Cons in auto)
qed simp

text \<open>
  A full input queue does not starve the feedback behind it. Whatever the other threads do
  between the calls, when a run of calls that all see the same unsent metrics report sends more
  inputs than the rest of a burst of eight, it also sends the metrics, before the burst is over.
\<close>

theorem feedback_not_starved:
  assumes "control_run events (s, src) = (outs, st)" and "\<forall>e\<in>set events. reports u e" and "0 < u"
    and "u \<noteq> sc_lastMetricsSentUs s" and "sc_inputBurstCount s \<le> 8"
    and "input_turns outs > 8 - unat (sc_inputBurstCount s)"
  shows "\<exists>pre m post. outs = pre @ Some (MetricsAction m) # post \<and>
    input_turns pre \<le> 8 - unat (sc_inputBurstCount s)"
  using assms by (rule metrics_within_burst)

section \<open>A request is consumed by the call that sends it\<close>

definition no_stream_state :: "outbound_action option \<Rightarrow> bool" where
  "no_stream_state out \<longleftrightarrow> (\<forall>n f t. out \<noteq> Some (StreamStateAction n f t))"

definition no_capture_mode :: "outbound_action option \<Rightarrow> bool" where
  "no_capture_mode out \<longleftrightarrow> (\<forall>x t. out \<noteq> Some (CaptureModeAction x t))"

definition no_keyframe :: "outbound_action option \<Rightarrow> bool" where
  "no_keyframe out \<longleftrightarrow> (\<forall>n r t. out \<noteq> Some (KeyframeAction n r t))"

definition no_window_select :: "outbound_action option \<Rightarrow> bool" where
  "no_window_select out \<longleftrightarrow> (\<forall>n g w t. out \<noteq> Some (WindowSelectAction n g w t))"

definition keeps_requests :: "stage \<Rightarrow> bool" where
  "keeps_requests f \<longleftrightarrow> (\<forall>s src out s' src'. f (s, src) = (out, s', src') \<longrightarrow>
     capture_mode_ready (cs_captureMode src) \<longrightarrow> capture_mode_ready (cs_captureMode src') \<and>
     (no_stream_state out \<longrightarrow> cs_streamState src' = cs_streamState src) \<and>
     (no_capture_mode out \<longrightarrow> cs_captureMode src' = cs_captureMode src) \<and>
     (no_keyframe out \<longrightarrow> cs_keyframes src' = cs_keyframes src))"

lemmas no_action_defs = no_stream_state_def no_capture_mode_def no_keyframe_def no_window_select_def

lemma keeps_requests_or_else: "keeps_requests f \<Longrightarrow> keeps_requests g \<Longrightarrow> keeps_requests (or_else f g)"
  unfolding keeps_requests_def or_else_def
  by (fastforce simp: no_action_defs split: prod.splits option.splits)

lemma keeps_requests_stages:
  "keeps_requests (ping_stage t)" "keeps_requests (window_list_stage t)"
  "keeps_requests (monitor_list_stage t)" "keeps_requests (monitor_select_stage t)"
  "keeps_requests (window_select_stage t)" "keeps_requests (input_stage t nowMs)"
  "keeps_requests (metrics_stage t metrics)" "keeps_requests (bandwidth_stage t bandwidth)"
  "keeps_requests (tune_stage t metrics)" "keeps_requests (desktop_stage t)"
  by (auto simp: keeps_requests_def ping_stage_def window_list_stage_def monitor_list_stage_def
      monitor_select_stage_def window_select_stage_def input_stage_def metrics_stage_def
      bandwidth_stage_def tune_stage_def desktop_stage_def Let_def split: prod.splits option.splits if_splits)

lemma keeps_requests_stream: "keeps_requests (stream_state_stage t)"
  by (auto simp: keeps_requests_def stream_state_stage_def stream_state_consume_def no_action_defs Let_def
      split: prod.splits if_splits)

lemma keeps_requests_keyframe: "keeps_requests (keyframe_stage t)"
  by (auto simp: keeps_requests_def keyframe_stage_def keyframe_consume_def keyframe_next_sequence_def
      no_action_defs Let_def split: prod.splits option.splits if_splits)

lemma keeps_requests_capture: "keeps_requests (capture_mode_stage t)"
  by (auto simp: keeps_requests_def capture_mode_stage_def capture_mode_consume_def capture_mode_ready_def
      no_action_defs Let_def split: prod.splits if_splits)

text \<open>
  A pending wish survives every call that sends something else: unless the call's action is the
  stream state, the capture mode or the keyframe request, that slot is exactly as it was before
  the call; what was asked is sent or still pending.
\<close>

theorem pending_requests_survive:
  assumes "next_action nowUs nowMs metrics bandwidth (s, src) = (out, s', src')"
    and "capture_mode_ready (cs_captureMode src)"
  shows "(no_stream_state out \<longrightarrow> cs_streamState src' = cs_streamState src) \<and>
    (no_capture_mode out \<longrightarrow> cs_captureMode src' = cs_captureMode src) \<and>
    (no_keyframe out \<longrightarrow> cs_keyframes src' = cs_keyframes src) \<and>
    capture_mode_ready (cs_captureMode src')"
proof -
  have "keeps_requests (next_action nowUs nowMs metrics bandwidth)"
    unfolding next_action_def urgent_stages_def background_stages_def
    by (intro keeps_requests_or_else keeps_requests_stages keeps_requests_stream keeps_requests_keyframe
        keeps_requests_capture)
  then show ?thesis using assms unfolding keeps_requests_def by blast
qed

section \<open>A burst that is over\<close>

definition busy_sources :: control_sources where
  "busy_sources = \<lparr>cs_panel = panel_reset, cs_streamState = stream_state_reset,
    cs_captureMode = capture_mode_reset, cs_keyframes = keyframe_requests_init 0 0 1,
    cs_tune = runtime_tune_init 0 0 0 0 0,
    cs_queue = input_enqueue 0 (key_up 65) (input_queue_reset undefined), cs_desktop = None\<rparr>"

definition spent_scheduler :: control_scheduler where
  "spent_scheduler = initial_scheduler\<lparr>sc_inputBurstCount := 8, sc_nextPingUs := 1000000\<rparr>"

definition fresh_metrics :: metrics_snapshot where
  "fresh_metrics = \<lparr>ms_message = \<lparr>mx_seq = 0, mx_recvMbpsX1000 = 0, mx_clientSendQpcUs = 0,
    mx_figures = []\<rparr>, ms_updatedQpcUs = 77\<rparr>"

lemmas stage_defs = ping_stage_def stream_state_stage_def window_list_stage_def monitor_list_stage_def
  monitor_select_stage_def window_select_stage_def capture_mode_stage_def input_stage_def
  metrics_stage_def

lemma busy_call:
  "urgent_stages 5 (s\<lparr>sc_nextPingUs := 1000000\<rparr>, busy_sources) = (None, s\<lparr>sc_nextPingUs := 1000000\<rparr>, busy_sources)"
  by (simp add: urgent_stages_def or_else_def stage_defs Let_def busy_sources_def
      stream_state_consume_def stream_state_reset_def capture_mode_consume_def capture_mode_reset_def
      take_list_request_def take_monitor_list_request_def take_monitor_select_request_def
      take_select_request_def panel_reset_def)

theorem feedback_not_starved_witness:
  "\<exists>outs st. control_run [Call 5 0 fresh_metrics None, Call 5 0 fresh_metrics None]
      (spent_scheduler, busy_sources) = (outs, st) \<and> input_turns outs = 1 \<and>
    (\<exists>pre m post. outs = pre @ Some (MetricsAction m) # post \<and> input_turns pre = 0)"
proof -
  let ?events = "[Call 5 0 fresh_metrics None, Call 5 0 fresh_metrics None]"
  obtain outs st where run: "control_run ?events (spent_scheduler, busy_sources) = (outs, st)"
    by (metis surj_pair)
  define s1 where "s1 = spent_scheduler\<lparr>sc_inputBurstCount := 0, sc_nextMetricsSeq := 1, sc_lastMetricsSentUs := 77\<rparr>"
  have "spent_scheduler = spent_scheduler\<lparr>sc_nextPingUs := 1000000\<rparr>" "s1 = s1\<lparr>sc_nextPingUs := 1000000\<rparr>"
    by (simp_all add: spent_scheduler_def s1_def)
  then have urgent: "urgent_stages 5 (spent_scheduler, busy_sources) = (None, spent_scheduler, busy_sources)"
    "urgent_stages 5 (s1, busy_sources) = (None, s1, busy_sources)"
    using busy_call by metis+
  have s1: "sc_inputBurstCount s1 = 0" by (simp add: s1_def)
  have queue: "\<exists>m q. input_try_dequeue 0 (cs_queue busy_sources) = (Some m, q)"
    by (simp add: busy_sources_def input_enqueue_def input_append_def input_queue_reset_def
        kMaxInputQueueSize_def input_try_dequeue_def stale_action_def)
  have "\<exists>m. next_action 5 0 fresh_metrics None (spent_scheduler, busy_sources) =
      (Some (MetricsAction m), s1, busy_sources)"
    using urgent(1)
    by (simp add: next_action_def or_else_def input_stage_def background_stages_def metrics_stage_def
        Let_def spent_scheduler_def s1_def fresh_metrics_def initial_scheduler_def)
  moreover have "\<exists>a st. next_action 5 0 fresh_metrics None (s1, busy_sources) = (Some a, st) \<and> is_input a"
    using urgent(2) queue s1 by (auto simp: next_action_def or_else_def input_stage_def Let_def)
  ultimately have turns: "input_turns outs = 1" using run by (auto simp: Let_def)
  have "\<exists>pre m post. outs = pre @ Some (MetricsAction m) # post \<and>
      input_turns pre \<le> 8 - unat (sc_inputBurstCount spent_scheduler)"
    using turns by (intro feedback_not_starved [OF run, of 77])
      (simp_all add: reports_def fresh_metrics_def spent_scheduler_def initial_scheduler_def)
  with run turns show ?thesis by (auto simp: spent_scheduler_def)
qed

theorem pending_requests_survive_witness:
  "\<exists>out s' src'. next_action 5 0 fresh_metrics None (spent_scheduler,
      busy_sources\<lparr>cs_captureMode := capture_mode_request (1, 7, 9) capture_mode_reset\<rparr>) = (out, s', src') \<and>
    capture_mode_ready (cs_captureMode src')"
proof -
  let ?src = "busy_sources\<lparr>cs_captureMode := capture_mode_request (1, 7, 9) capture_mode_reset\<rparr>"
  obtain out s' src' where call: "next_action 5 0 fresh_metrics None (spent_scheduler, ?src) = (out, s', src')"
    by (metis surj_pair)
  have "capture_mode_ready (cs_captureMode ?src)"
    by (simp add: capture_mode_ready_def capture_mode_reset_def)
  from pending_requests_survive [OF call this] call show ?thesis by blast
qed

end
