(* ===== verification/NackScheduler.thy ===== *)
theory NackScheduler
  imports VideoPath
begin

text \<open>
  \<open>VideoNackScheduler\<close> of \<open>udp_video_nack.hpp\<close>: when the receiver asks the host to replay the
  missing chunks of the frame that blocks delivery, and how often. The theorems tie it to the
  assembler that reports what is missing and to the sender that replays it.
\<close>

section \<open>The scheduler\<close>

record nack_config =
  nc_gapGraceUs :: u64
  nc_tailGraceUs :: u64
  nc_roundUs :: u64
  nc_maxRounds :: u32
  nc_tailAgeBasedLegacy :: bool

definition default_nack_config :: nack_config where
  "default_nack_config = \<lparr>nc_gapGraceUs = 25000, nc_tailGraceUs = 120000, nc_roundUs = 25000,
     nc_maxRounds = 3, nc_tailAgeBasedLegacy = False\<rparr>"

record nack_stats =
  ns_packetsSent :: u64
  ns_chunksRequested :: u64
  ns_roundsExhausted :: u64

record nack_scheduler =
  nk_cfg :: nack_config
  nk_stats :: nack_stats
  nk_seq :: u32
  nk_generation :: u64
  nk_firstUs :: u64
  nk_lastUs :: u64
  nk_rounds :: u32
  nk_exhaustedCounted :: bool
  nk_tailPhase :: bool

definition nack_scheduler_init :: "nack_config \<Rightarrow> nack_scheduler" where
  "nack_scheduler_init cfg = \<lparr>nk_cfg = cfg,
     nk_stats = \<lparr>ns_packetsSent = 0, ns_chunksRequested = 0, ns_roundsExhausted = 0\<rparr>,
     nk_seq = 0, nk_generation = 0, nk_firstUs = 0, nk_lastUs = 0, nk_rounds = 0,
     nk_exhaustedCounted = False, nk_tailPhase = False\<rparr>"

definition nack_configure :: "nack_config \<Rightarrow> nack_scheduler \<Rightarrow> nack_scheduler" where
  "nack_configure cfg s = s\<lparr>nk_cfg := cfg\<rparr>"

definition nack_spent_for :: "bool \<Rightarrow> nack_scheduler \<Rightarrow> bool" where
  "nack_spent_for hasTail s \<longleftrightarrow>
     nk_seq s \<noteq> 0 \<and> nc_maxRounds (nk_cfg s) \<le> nk_rounds s \<and> (nk_tailPhase s \<or> \<not> hasTail)"

definition nack_busy :: "nack_scheduler \<Rightarrow> bool" where
  "nack_busy s \<longleftrightarrow> nk_seq s \<noteq> 0 \<and> nk_rounds s < nc_maxRounds (nk_cfg s)"

definition nack_reset :: "nack_scheduler \<Rightarrow> nack_scheduler" where
  "nack_reset s = s\<lparr>nk_seq := 0, nk_generation := 0, nk_firstUs := 0, nk_lastUs := 0, nk_rounds := 0,
     nk_exhaustedCounted := False, nk_tailPhase := False\<rparr>"

text \<open>Another frame blocks: the schedule starts again, from that frame's first datagram.\<close>

definition nack_chase :: "incomplete_au_info \<Rightarrow> u64 \<Rightarrow> nack_scheduler \<Rightarrow> nack_scheduler" where
  "nack_chase info nowUs s =
    (if ia_seq info \<noteq> nk_seq s \<or> ia_generation info \<noteq> nk_generation s
     then s\<lparr>nk_seq := ia_seq info, nk_generation := ia_generation info,
       nk_firstUs := (if ia_firstPacketUs info \<noteq> 0 \<and> ia_firstPacketUs info \<le> nowUs
         then ia_firstPacketUs info else nowUs),
       nk_lastUs := 0, nk_rounds := 0, nk_exhaustedCounted := False, nk_tailPhase := False\<rparr>
     else s)"

definition nack_age :: "u64 \<Rightarrow> nack_scheduler \<Rightarrow> u64" where
  "nack_age nowUs s = (if nk_firstUs s \<le> nowUs then nowUs - nk_firstUs s else 0)"

definition gap_eligible :: "u64 \<Rightarrow> nack_scheduler \<Rightarrow> bool" where
  "gap_eligible nowUs s \<longleftrightarrow> nc_gapGraceUs (nk_cfg s) \<le> nack_age nowUs s"

definition tail_eligible :: "incomplete_au_info \<Rightarrow> u64 \<Rightarrow> nack_scheduler \<Rightarrow> bool" where
  "tail_eligible info nowUs s \<longleftrightarrow>
    (let age = nack_age nowUs s;
         sinceProgressUs = (if ia_lastProgressUs info \<noteq> 0 \<and> ia_lastProgressUs info \<le> nowUs
           then nowUs - ia_lastProgressUs info else age) in
     nc_tailGraceUs (nk_cfg s) \<le> (if nc_tailAgeBasedLegacy (nk_cfg s) then age else sinceProgressUs))"

text \<open>The entries of \<open>missing[]\<close> that are in use, and whether they reach into the tail.\<close>

definition nack_known :: "u16 list \<Rightarrow> incomplete_au_info \<Rightarrow> u16 list" where
  "nack_known missing info =
     take (unat (min (ia_missingTotal info) (of_nat kUdpVideoNackMaxMissing))) missing"

definition has_tail :: "u16 list \<Rightarrow> incomplete_au_info \<Rightarrow> bool" where
  "has_tail missing info \<longleftrightarrow>
     nack_known missing info \<noteq> [] \<and> ia_highWater info \<le> last (nack_known missing info)"

text \<open>Holes and the tail are two phases with a budget of rounds each.\<close>

definition nack_enter_tail :: "u16 list \<Rightarrow> incomplete_au_info \<Rightarrow> u64 \<Rightarrow> nack_scheduler \<Rightarrow> nack_scheduler" where
  "nack_enter_tail missing info nowUs s =
    (if tail_eligible info nowUs s \<and> has_tail missing info \<and> \<not> nk_tailPhase s
     then s\<lparr>nk_tailPhase := True, nk_rounds := 0, nk_lastUs := 0, nk_exhaustedCounted := False\<rparr>
     else s)"

definition nack_requested :: "u16 list \<Rightarrow> incomplete_au_info \<Rightarrow> u64 \<Rightarrow> nack_scheduler \<Rightarrow> u16 list" where
  "nack_requested missing info nowUs s =
    filter (\<lambda>i. if ia_highWater info \<le> i then tail_eligible info nowUs s else gap_eligible nowUs s)
      (nack_known missing info)"

definition nack_packet :: "u16 list \<Rightarrow> incomplete_au_info \<Rightarrow> nack_scheduler \<Rightarrow> video_nack_packet" where
  "nack_packet request info s = default_video_nack_packet
     \<lparr>vn_missing := request @ replicate (kUdpVideoNackMaxMissing - length request) 0,
      vn_streamGeneration := ia_generation info, vn_seq := ia_seq info, vn_chunkCount := ia_chunkCount info,
      vn_missingCount := of_nat (length request), vn_round := ucast (nk_rounds s)\<rparr>"

text \<open>The part of \<open>Poll\<close> once the blocking frame is known.\<close>

definition nack_round ::
    "u16 list \<Rightarrow> incomplete_au_info \<Rightarrow> u64 \<Rightarrow> nack_scheduler \<Rightarrow> video_nack_packet option \<times> nack_scheduler" where
  "nack_round missing info nowUs s =
    (if nc_maxRounds (nk_cfg s) \<le> nk_rounds s
     then (None, if nk_exhaustedCounted s then s
       else s\<lparr>nk_stats := (nk_stats s)\<lparr>ns_roundsExhausted := ns_roundsExhausted (nk_stats s) + 1\<rparr>,
              nk_exhaustedCounted := True\<rparr>)
     else if nk_lastUs s \<noteq> 0 \<and> nowUs - nk_lastUs s < nc_roundUs (nk_cfg s) then (None, s)
     else if \<not> gap_eligible nowUs s \<and> \<not> tail_eligible info nowUs s then (None, s)
     else let request = nack_requested missing info nowUs s in
       if request = [] then (None, s)
       else (Some (nack_packet request info s),
         s\<lparr>nk_rounds := nk_rounds s + 1, nk_lastUs := nowUs,
           nk_stats := (nk_stats s)\<lparr>ns_packetsSent := ns_packetsSent (nk_stats s) + 1,
             ns_chunksRequested := ns_chunksRequested (nk_stats s) + of_nat (length request)\<rparr>\<rparr>))"

definition nack_poll ::
    "frame_assembler \<Rightarrow> bool \<Rightarrow> u64 \<Rightarrow> nack_scheduler \<Rightarrow> video_nack_packet option \<times> nack_scheduler" where
  "nack_poll st repairNonKey nowUs s =
    (case oldest_incomplete kUdpVideoNackMaxMissing st of
       None \<Rightarrow> (None, nack_reset s)
     | Some (missing, info) \<Rightarrow>
         if \<not> repairNonKey \<and> \<not> ia_keyFrame info then (None, nack_reset s)
         else nack_round missing info nowUs (nack_enter_tail missing info nowUs (nack_chase info nowUs s)))"

section \<open>What is asked for\<close>

lemma oldest_incomplete_Some:
  assumes "oldest_incomplete m st = Some (missing, info)"
  obtains a where "a \<in> set (fa_assemblies st)" "as_receivedCount a < unat (as_chunkCount a)"
    "missing = map of_nat (take m (missing_chunks a))" "ia_seq info = as_seq a"
    "ia_generation info = ef_streamGeneration (as_header a)" "ia_chunkCount info = as_chunkCount a"
    "ia_missingTotal info = of_nat (length (missing_chunks a))" "ia_highWater info = of_nat (high_water a)"
proof -
  let ?P = "\<lambda>a. as_receivedCount a < unat (as_chunkCount a) \<and> missing_chunks a \<noteq> []"
  obtain a rest where eq: "filter ?P (fa_assemblies st) = a # rest"
    using assms by (auto simp: oldest_incomplete_def split: list.splits)
  have "a \<in> set (filter ?P (fa_assemblies st))" unfolding eq by simp
  then have "a \<in> set (fa_assemblies st)" "as_receivedCount a < unat (as_chunkCount a)" by auto
  then show thesis using assms eq by (intro that [of a]) (auto simp: oldest_incomplete_def)
qed

lemma nack_poll_packet:
  assumes "nack_poll st repairNonKey t s = (Some p, s')"
  obtains missing info s1 where "oldest_incomplete kUdpVideoNackMaxMissing st = Some (missing, info)"
    "p = nack_packet (nack_requested missing info t s1) info s1" "nack_requested missing info t s1 \<noteq> []"
    "repairNonKey \<or> ia_keyFrame info"
  using assms by (auto simp: nack_poll_def nack_round_def Let_def split: option.splits prod.splits if_splits)

text \<open>Of a missing list of at most 65535 entries the used part is what the assembler filled in.\<close>

lemma set_missing_chunks: "set (missing_chunks a) =
    {i. i < unat (as_chunkCount a) \<and> \<not> (i < length (as_received a) \<and> as_received a ! i)}"
  by (auto simp: missing_chunks_def)

lemma length_missing_chunks: "length (missing_chunks a) \<le> unat (as_chunkCount a)"
  unfolding missing_chunks_def by (rule le_trans [OF length_filter_le]) simp

lemma nack_known_missing:
  assumes "missing = map of_nat (take kUdpVideoNackMaxMissing (missing_chunks a))"
    and "ia_missingTotal info = of_nat (length (missing_chunks a))"
  shows "nack_known missing info = missing"
proof -
  have "length (missing_chunks a) < 65536"
    using length_missing_chunks [of a] unat_bounds(2) [of "as_chunkCount a"] by linarith
  then have "unat (ia_missingTotal info) = length (missing_chunks a)"
    unfolding assms(2) by (simp add: unat_of_nat_small)
  moreover have "unat (of_nat kUdpVideoNackMaxMissing :: u16) = kUdpVideoNackMaxMissing"
    by (simp add: kUdpVideoNackMaxMissing_def)
  ultimately have "unat (min (ia_missingTotal info) (of_nat kUdpVideoNackMaxMissing)) =
      min (length (missing_chunks a)) kUdpVideoNackMaxMissing"
    by (simp add: min_def word_le_nat_alt)
  then show ?thesis by (simp add: nack_known_def assms(1))
qed

definition requested_chunks :: "video_nack_packet \<Rightarrow> u16 list" where
  "requested_chunks p = take (unat (vn_missingCount p)) (vn_missing p)"

lemma nack_packet_request:
  assumes "length request \<le> kUdpVideoNackMaxMissing"
  shows "requested_chunks (nack_packet request info s) = request"
    "unat (vn_missingCount (nack_packet request info s)) = length request"
    "length (vn_missing (nack_packet request info s)) = kUdpVideoNackMaxMissing"
  using assms by (simp_all add: nack_packet_def requested_chunks_def default_video_nack_packet_def
      kUdpVideoNackMaxMissing_def unat_of_nat_small)

lemma of_nat_missing:
  assumes "i \<in> set (missing_chunks a)"
  shows "unat (of_nat i :: u16) = i"
proof -
  have "i < unat (as_chunkCount a)" using assms by (simp add: set_missing_chunks)
  then show ?thesis using unat_bounds(2) [of "as_chunkCount a"] by (simp add: unat_of_nat_small)
qed

lemma distinct_missing: "distinct (map of_nat (missing_chunks a) :: u16 list)"
  unfolding distinct_map using of_nat_missing [of _ a]
  by (auto simp: missing_chunks_def intro!: inj_onI) metis+

lemma nack_request_facts:
  assumes "nack_poll st repairNonKey t s = (Some p, s')"
  shows "\<exists>a\<in>set (fa_assemblies st). as_receivedCount a < unat (as_chunkCount a) \<and>
    vn_seq p = as_seq a \<and> vn_streamGeneration p = ef_streamGeneration (as_header a) \<and>
    vn_chunkCount p = as_chunkCount a \<and> 0 < vn_missingCount p \<and>
    unat (vn_missingCount p) \<le> kUdpVideoNackMaxMissing \<and> distinct (requested_chunks p) \<and>
    length (requested_chunks p) = unat (vn_missingCount p) \<and>
    (\<forall>i\<in>set (requested_chunks p). unat i \<in> set (missing_chunks a))"
proof -
  obtain missing info s1 where oldest: "oldest_incomplete kUdpVideoNackMaxMissing st = Some (missing, info)"
    and p: "p = nack_packet (nack_requested missing info t s1) info s1" and some: "nack_requested missing info t s1 \<noteq> []"
    using nack_poll_packet [OF assms] by metis
  obtain a where a: "a \<in> set (fa_assemblies st)" "as_receivedCount a < unat (as_chunkCount a)"
    "missing = map of_nat (take kUdpVideoNackMaxMissing (missing_chunks a))"
    and info: "ia_seq info = as_seq a" "ia_generation info = ef_streamGeneration (as_header a)"
    "ia_chunkCount info = as_chunkCount a" "ia_missingTotal info = of_nat (length (missing_chunks a))"
    using oldest_incomplete_Some [OF oldest] by metis
  let ?r = "nack_requested missing info t s1"
  have known: "nack_known missing info = missing" by (rule nack_known_missing [OF a(3) info(4)])
  have len: "length ?r \<le> kUdpVideoNackMaxMissing"
    unfolding nack_requested_def known by (rule le_trans [OF length_filter_le]) (simp add: a(3))
  note req = nack_packet_request [OF len, of info s1, folded p]
  have "distinct ?r"
    unfolding nack_requested_def known unfolding a(3) take_map [symmetric]
    by (intro distinct_filter distinct_take distinct_missing)
  moreover have "set ?r \<subseteq> set missing" unfolding nack_requested_def known by auto
  then have "\<forall>i\<in>set ?r. unat i \<in> set (missing_chunks a)"
    using of_nat_missing [of _ a] unfolding a(3) by (auto dest!: in_set_takeD)
  moreover have "0 < vn_missingCount p" using req(2) some by (simp add: word_less_nat_alt)
  moreover have "vn_seq p = as_seq a" "vn_streamGeneration p = ef_streamGeneration (as_header a)"
    "vn_chunkCount p = as_chunkCount a"
    using info by (simp_all add: p nack_packet_def)
  ultimately show ?thesis using a(1,2) req(1,2) len by (intro bexI [of _ a]) simp_all
qed

text \<open>
  A request for repair asks for at least one and at most 48 chunks, all different, of a frame
  the assembler holds incomplete, and only for chunks of that frame that have neither arrived nor
  been rebuilt; it names the frame's sequence number, generation and chunk count.
\<close>

theorem nack_asks_for_missing:
  assumes "nack_poll st repairNonKey t s = (Some p, s')"
  shows "\<exists>a\<in>set (fa_assemblies st). as_receivedCount a < unat (as_chunkCount a) \<and>
    vn_seq p = as_seq a \<and> vn_streamGeneration p = ef_streamGeneration (as_header a) \<and>
    vn_chunkCount p = as_chunkCount a \<and> 0 < vn_missingCount p \<and>
    unat (vn_missingCount p) \<le> kUdpVideoNackMaxMissing \<and> distinct (requested_chunks p) \<and>
    (\<forall>i\<in>set (requested_chunks p). unat i \<in> set (missing_chunks a))"
  using nack_request_facts [OF assms] by blast

section \<open>How often\<close>

text \<open>A poll that finds the frame \<open>(q, g)\<close> blocking and worth repairing.\<close>

definition blocked_by :: "u32 \<Rightarrow> u64 \<Rightarrow> frame_assembler \<times> bool \<times> u64 \<Rightarrow> bool" where
  "blocked_by q g poll = (case poll of (st, repairNonKey, _) \<Rightarrow>
     (case oldest_incomplete kUdpVideoNackMaxMissing st of None \<Rightarrow> False
      | Some (_, info) \<Rightarrow> ia_seq info = q \<and> ia_generation info = g \<and> (repairNonKey \<or> ia_keyFrame info)))"

fun nack_polls :: "(frame_assembler \<times> bool \<times> u64) list \<Rightarrow> nack_scheduler \<Rightarrow> video_nack_packet list" where
  "nack_polls [] s = []"
| "nack_polls ((st, repairNonKey, t) # polls) s =
    (case nack_poll st repairNonKey t s of (p, s') \<Rightarrow>
       (case p of None \<Rightarrow> [] | Some p \<Rightarrow> [p]) @ nack_polls polls s')"

definition nack_budget :: "nack_scheduler \<Rightarrow> nat" where
  "nack_budget s = (unat (nc_maxRounds (nk_cfg s)) - unat (nk_rounds s)) +
     (if nk_tailPhase s then 0 else unat (nc_maxRounds (nk_cfg s)))"

lemma nack_enter_tail_budget: "nack_budget (nack_enter_tail missing info t s) \<le> nack_budget s"
  "nk_cfg (nack_enter_tail missing info t s) = nk_cfg s"
  "nk_seq (nack_enter_tail missing info t s) = nk_seq s"
  "nk_generation (nack_enter_tail missing info t s) = nk_generation s"
  by (auto simp: nack_enter_tail_def nack_budget_def)

lemma nack_round_budget:
  assumes "nack_round missing info t s = (p, s')"
  shows "nack_budget s' + (if p = None then 0 else 1) \<le> nack_budget s" "nk_cfg s' = nk_cfg s"
    "nk_seq s' = nk_seq s" "nk_generation s' = nk_generation s"
proof -
  have "unat (nk_rounds s + 1) = unat (nk_rounds s) + 1" if "nk_rounds s < nc_maxRounds (nk_cfg s)"
    using that unat_bounds(3) [of "nc_maxRounds (nk_cfg s)"] by (simp add: unat_word_ariths word_less_nat_alt)
  then show "nack_budget s' + (if p = None then 0 else 1) \<le> nack_budget s" "nk_cfg s' = nk_cfg s"
    "nk_seq s' = nk_seq s" "nk_generation s' = nk_generation s"
    using assms by (auto simp: nack_round_def nack_budget_def Let_def word_less_nat_alt word_le_nat_alt
        split: if_splits)
qed

lemma nack_poll_blocked:
  assumes "blocked_by q g (st, b, t)" and "nack_poll st b t s = (p, s')"
  shows "nk_seq s' = q" "nk_generation s' = g" "nk_cfg s' = nk_cfg s"
    "nk_seq s = q \<Longrightarrow> nk_generation s = g \<Longrightarrow> nack_budget s' + (if p = None then 0 else 1) \<le> nack_budget s"
    "nack_budget s' + (if p = None then 0 else 1) \<le> 2 * unat (nc_maxRounds (nk_cfg s))"
proof -
  obtain missing info where "oldest_incomplete kUdpVideoNackMaxMissing st = Some (missing, info)"
    and info: "ia_seq info = q" "ia_generation info = g" and "b \<or> ia_keyFrame info"
    using assms(1) by (auto simp: blocked_by_def split: option.splits)
  then have worth: "\<not> (\<not> b \<and> \<not> ia_keyFrame info)"
    and oldest: "oldest_incomplete kUdpVideoNackMaxMissing st = Some (missing, info)" by blast+
  have step: "nack_round missing info t (nack_enter_tail missing info t (nack_chase info t s)) = (p, s')"
    using assms(2) unfolding nack_poll_def oldest option.case prod.case if_not_P [OF worth] .
  let ?c = "nack_chase info t s"
  have c: "nk_seq ?c = q" "nk_generation ?c = g" "nk_cfg ?c = nk_cfg s" using info by (auto simp: nack_chase_def)
  note r = nack_round_budget [OF step] and e = nack_enter_tail_budget [of missing info t ?c]
  show "nk_seq s' = q" "nk_generation s' = g" "nk_cfg s' = nk_cfg s" using r e c by simp_all
  have le: "nack_budget s' + (if p = None then 0 else 1) \<le> nack_budget ?c" using r(1) e(1) by linarith
  show "nack_budget s' + (if p = None then 0 else 1) \<le> nack_budget s" if "nk_seq s = q" "nk_generation s = g"
    using le that info by (simp add: nack_chase_def)
  have "nack_budget ?c \<le> 2 * unat (nc_maxRounds (nk_cfg s))"
    unfolding nack_budget_def c(3) by (cases "nk_tailPhase ?c") simp_all
  then show "nack_budget s' + (if p = None then 0 else 1) \<le> 2 * unat (nc_maxRounds (nk_cfg s))" using le by linarith
qed

lemma nack_polls_budget:
  "\<forall>poll\<in>set polls. blocked_by q g poll \<Longrightarrow> nk_seq s = q \<Longrightarrow> nk_generation s = g \<Longrightarrow>
   length (nack_polls polls s) \<le> nack_budget s"
proof (induction polls arbitrary: s)
  case (Cons poll polls)
  obtain st b t where poll: "poll = (st, b, t)" by (cases poll)
  obtain p s' where step: "nack_poll st b t s = (p, s')" by fastforce
  note st = nack_poll_blocked [OF _ step]
  have bl: "blocked_by q g (st, b, t)" using Cons.prems(1) poll by simp
  have "length (nack_polls polls s') \<le> nack_budget s'"
    using Cons.IH Cons.prems(1) st(1,2) [OF bl] by simp
  then show ?case using st(4) [OF bl Cons.prems(2,3)] by (cases p) (simp_all add: poll step)
qed simp

text \<open>
  However often it is polled while one and the same frame blocks delivery, and whatever else
  the assembler does meanwhile, the scheduler asks for that frame at most twice its number of
  rounds: one budget for holes, one for the tail. From then on the keyframe path recovers.
\<close>

theorem nack_rounds_bounded:
  assumes "\<forall>poll\<in>set polls. blocked_by q g poll"
  shows "length (nack_polls polls s) \<le> 2 * unat (nc_maxRounds (nk_cfg s))"
proof (cases polls)
  case (Cons poll rest)
  obtain st b t where poll: "poll = (st, b, t)" by (cases poll)
  obtain p s' where step: "nack_poll st b t s = (p, s')" by fastforce
  have bl: "blocked_by q g (st, b, t)" using assms Cons poll by simp
  note st = nack_poll_blocked [OF bl step]
  have "length (nack_polls rest s') \<le> nack_budget s'"
    using nack_polls_budget [of rest q g s'] st(1,2) assms Cons by simp
  then show ?thesis using st(5) by (cases p) (simp_all add: Cons poll step)
qed simp

section \<open>The repair\<close>

text \<open>Chunks that were rebuilt from parity count as if they had arrived.\<close>

lemma knows_received:
  assumes f: "sendable f" and k: "knows f ds a"
  shows "knows f (ds \<union> data_datagram (vf_payload f) (vf_header f) (vf_geometry f) `
    {i. i < g_chunkCount (vf_geometry f) \<and> as_received a ! i}) a"
proof -
  let ?d = "data_datagram (vf_payload f) (vf_header f) (vf_geometry f)" and ?n = "g_chunkCount (vf_geometry f)"
  have w: "wire_header f (?d j) (data_chunk_header (vf_header f) (length (vf_payload f)) (vf_geometry f) j)"
    if "j < ?n" for j
    using data_chunk_accepted [OF f that] by (simp add: wire_header_def)
  have "i = j" if "?d i = ?d j" "i < ?n" "j < ?n" for i j
    using data_datagram_index(1) [OF f that(2,1) w [OF that(3)]]
      data_datagram_index(1) [OF f that(3) refl w [OF that(3)]] by simp
  moreover have "parity_datagram (vf_payload f) (vf_header f) (vf_geometry f) (vf_interleaved f) g \<noteq> ?d j"
    if "g < g_fecGroupCount (vf_geometry f)" "j < ?n" for g j
    using parity_datagram_index(2) [OF f that(1) _ w [OF that(2)]] data_datagram_index(2) [OF f that(2) refl w [OF that(2)]]
    by blast
  ultimately show ?thesis using k unfolding knows_def by blast
qed


section \<open>A run\<close>

text \<open>
  Of a frame of three chunks only the first arrives; once the grace of the tail has passed, the
  scheduler asks for the other two.
\<close>

definition first_head :: video_chunk_header where
  "first_head = data_chunk_header (vf_header three_chunks) (length (vf_payload three_chunks))
     (vf_geometry three_chunks) 0"

definition first_assembly :: assembly where
  "first_assembly = store_data first_head (three_data 0) 1 (create_assembly first_head 1)"

definition first_arrived :: frame_assembler where
  "first_arrived = (fresh_assembler 0 3 0)\<lparr>fa_assemblies := [first_assembly]\<rparr>"

lemma first_fields: "vc_seq first_head = 7" "vc_chunkIndex first_head = 0" "vc_chunkCount first_head = 3"
  "vc_chunkStride first_head = 312" "vc_streamGeneration first_head = 1" "vc_payloadSize first_head = 700"
  unfolding first_head_def three_chunks_geometry
  by (simp_all add: example_frame_def data_chunk_header_def Let_def)

lemma first_head: "decode_video_chunk_header (three_data 0) = first_head" "88 \<le> length (three_data 0)"
  "check_chunk_header first_head (length (three_data 0)) = ChunkOk" "\<not> parity_packet first_head"
proof -
  have "0 < g_chunkCount (vf_geometry three_chunks)" unfolding three_chunks_geometry by simp
  note acc = data_chunk_accepted [OF three_chunks_sendable this, folded first_head_def]
  show "decode_video_chunk_header (three_data 0) = first_head" "88 \<le> length (three_data 0)"
    "check_chunk_header first_head (length (three_data 0)) = ChunkOk" "\<not> parity_packet first_head"
    by (rule acc(1), rule acc(2), rule acc(3), rule acc(5))
qed

lemma replicate_three: "replicate 3 x = [x, x, x]" by (simp add: numeral_3_eq_3)

lemma first_assembly_fields: "as_seq first_assembly = 7" "as_chunkCount first_assembly = 3"
  "as_received first_assembly = [True, False, False]" "as_receivedCount first_assembly = 1"
  "as_parity first_assembly = [[]]" "as_parityReceived first_assembly = [False]"
  "ef_streamGeneration (as_header first_assembly) = 1" "as_firstPacketUs first_assembly = 1"
  "as_lastProgressUs first_assembly = 1"
  by (simp_all add: first_assembly_def store_data_def create_assembly_def first_fields Let_def
      replicate_three kUdpVideoFecGroupSize_def)

lemma first_pushed:
  "snd (push_datagram admit (three_data 0) 1 (fresh_assembler 0 3 0)) = first_arrived"
  "sr_disposition (fst (push_datagram admit (three_data 0) 1 (fresh_assembler 0 3 0))) = Partial"
proof -
  have repair: "repair_groups 1 first_assembly = (first_assembly, 0)"
    by (simp add: repair_groups_def repair_group_def first_assembly_fields)
  have match: "assembly_matches (create_assembly first_head 1) first_head"
    by (simp add: assembly_matches_def create_assembly_def Let_def)
  have "snd (push_accepted admit first_head (three_data 0) 1 r (fresh_assembler 0 3 0)) = first_arrived \<and>
      sr_disposition (fst (push_accepted admit first_head (three_data 0) 1 r (fresh_assembler 0 3 0))) = Partial" for r
    using repair first_head(4) match
    by (simp add: push_accepted_def is_abandoned_def episode_admission_def find_index_def make_room_def
        evict_for_bytes.simps push_into_assembly_def first_assembly_fields Let_def first_arrived_def
        fresh_assembler_def configure_in_order_hold_def initial_assembler_def flip: first_assembly_def)
  then show "snd (push_datagram admit (three_data 0) 1 (fresh_assembler 0 3 0)) = first_arrived"
    "sr_disposition (fst (push_datagram admit (three_data 0) 1 (fresh_assembler 0 3 0))) = Partial"
    using first_head by (simp_all add: push_datagram_def Let_def)
qed

lemma first_underway: "underway three_chunks {three_data 0} first_arrived"
proof -
  have u: "underway three_chunks {} (fresh_assembler 0 3 0)"
    using fresh_fields by (simp add: underway_def)
  have w: "three_data 0 \<in> wire_datagrams three_chunks" by (rule three_chunks_wire(1))
  have "push_datagram (\<lambda>_. True) (three_data 0) 1 (fresh_assembler 0 3 0) =
      (fst (push_datagram (\<lambda>_. True) (three_data 0) 1 (fresh_assembler 0 3 0)), first_arrived)"
    using first_pushed(1) by (metis prod.collapse)
  from push_underway [OF three_chunks_sendable w u this] show ?thesis
    unfolding first_pushed(2) by simp
qed

lemma first_missing: "missing_chunks first_assembly = [1, 2]" "high_water first_assembly = 1"
  by (simp_all add: missing_chunks_def high_water_def first_assembly_fields upt_rec)

lemma first_asked:
  obtains p s' where "nack_poll first_arrived True 200000 (nack_scheduler_init default_nack_config) = (Some p, s')"
    "vn_seq p = 7" "vn_missingCount p = 2" "requested_chunks p = [1, 2]"
  using that
  by (simp add: nack_poll_def oldest_incomplete_def first_arrived_def first_missing first_assembly_fields
      nack_scheduler_init_def default_nack_config_def nack_chase_def nack_enter_tail_def tail_eligible_def
      gap_eligible_def nack_age_def has_tail_def nack_known_def kUdpVideoNackMaxMissing_def nack_round_def
      nack_requested_def nack_packet_def requested_chunks_def default_video_nack_packet_def Let_def)

lemma first_state: "fa_assemblies first_arrived = [first_assembly]"
  by (simp add: first_arrived_def)

theorem nack_asks_for_missing_witness:
  "\<exists>p s'. nack_poll first_arrived True 200000 (nack_scheduler_init default_nack_config) = (Some p, s') \<and>
     vn_seq p = as_seq first_assembly \<and> (\<forall>i\<in>set (requested_chunks p). unat i \<in> {1, 2})"
proof -
  obtain p s' where p: "nack_poll first_arrived True 200000 (nack_scheduler_init default_nack_config) = (Some p, s')"
    by (rule first_asked)
  from nack_asks_for_missing [OF p] show ?thesis using p by (auto simp: first_state first_missing)
qed

lemma first_blocked: "blocked_by 7 1 (first_arrived, True, t)"
  by (simp add: blocked_by_def oldest_incomplete_def first_state first_missing first_assembly_fields)

theorem nack_rounds_bounded_witness:
  "length (nack_polls (map (\<lambda>t. (first_arrived, True, t)) [200000, 300000, 400000, 500000])
     (nack_scheduler_init default_nack_config)) \<le> 6"
proof -
  have "\<forall>poll\<in>set (map (\<lambda>t. (first_arrived, True, t)) [200000, 300000, 400000, 500000 :: u64]). blocked_by 7 1 poll"
    using first_blocked by simp
  from nack_rounds_bounded [OF this, of "nack_scheduler_init default_nack_config"]
  show ?thesis by (simp add: nack_scheduler_init_def default_nack_config_def)
qed


end
