(* ===== verification/TokenBucket.thy ===== *)
theory TokenBucket
  imports Prelude
begin

text \<open>
  What every rate limit of the program promises, as an interface: operations move a clock forward,
  grant or give credit tokens, and keep a bounded level that grows with the clock only. Amounts are
  counted in \<open>scale\<close>-ths of a token so that fractions are exact. Whoever shows these laws of a
  bucket gets the envelope of what it grants over any run.
\<close>

locale token_bucket =
  fixes inv :: "'s \<Rightarrow> bool" and level :: "'s \<Rightarrow> nat" and clock :: "'s \<Rightarrow> nat"
    and step :: "'op \<Rightarrow> 's \<Rightarrow> 's" and cost :: "'op \<Rightarrow> 's \<Rightarrow> nat" and credit :: "'op \<Rightarrow> 's \<Rightarrow> nat"
    and allowed :: "'op \<Rightarrow> 's \<Rightarrow> bool" and rate :: nat and depth :: nat and scale :: nat
  assumes inv_step: "inv s \<Longrightarrow> allowed op s \<Longrightarrow> inv (step op s)"
    and clock_step: "inv s \<Longrightarrow> allowed op s \<Longrightarrow> clock s \<le> clock (step op s)"
    and level_step: "inv s \<Longrightarrow> allowed op s \<Longrightarrow>
      level (step op s) + scale * cost op s \<le> level s + scale * credit op s + rate * (clock (step op s) - clock s)"
    and level_bound: "inv s \<Longrightarrow> level s \<le> depth"
begin

fun run :: "'op list \<Rightarrow> 's \<Rightarrow> 's" where
  "run [] s = s"
| "run (op # ops) s = run ops (step op s)"

fun granted :: "'op list \<Rightarrow> 's \<Rightarrow> nat" where
  "granted [] s = 0"
| "granted (op # ops) s = cost op s + granted ops (step op s)"

fun returned :: "'op list \<Rightarrow> 's \<Rightarrow> nat" where
  "returned [] s = 0"
| "returned (op # ops) s = credit op s + returned ops (step op s)"

fun legal :: "'op list \<Rightarrow> 's \<Rightarrow> bool" where
  "legal [] s = True"
| "legal (op # ops) s = (allowed op s \<and> legal ops (step op s))"

lemma inv_run: "inv s \<Longrightarrow> legal ops s \<Longrightarrow> inv (run ops s)"
  by (induction ops arbitrary: s) (auto intro: inv_step)

lemma clock_run: "inv s \<Longrightarrow> legal ops s \<Longrightarrow> clock s \<le> clock (run ops s)"
proof (induction ops arbitrary: s)
  case (Cons op ops)
  then have "clock s \<le> clock (step op s)" "clock (step op s) \<le> clock (run ops (step op s))"
    using clock_step [of s op] inv_step [of s op] by simp_all
  then show ?case by simp
qed simp

lemma level_run:
  "inv s \<Longrightarrow> legal ops s \<Longrightarrow>
   level (run ops s) + scale * granted ops s \<le>
     level s + scale * returned ops s + rate * (clock (run ops s) - clock s)"
proof (induction ops arbitrary: s)
  case (Cons op ops)
  let ?s = "step op s"
  have op: "allowed op s" "legal ops ?s" and s: "inv s" "inv ?s"
    using Cons.prems inv_step by simp_all
  have "clock s \<le> clock ?s" "clock ?s \<le> clock (run ops ?s)"
    using clock_step [OF s(1) op(1)] clock_run [OF s(2) op(2)] .
  then have "rate * (clock (run ops ?s) - clock s) =
      rate * (clock ?s - clock s) + rate * (clock (run ops ?s) - clock ?s)"
    by (simp flip: distrib_left)
  then show ?case
    using Cons.IH [OF s(2) op(2)] level_step [OF s(1) op(1)] by (simp add: distrib_left)
qed simp

text \<open>The envelope: depth plus rate times time, whatever the order and size of the requests.\<close>

lemma envelope:
  assumes "inv s" and "legal ops s"
  shows "scale * granted ops s \<le> depth + scale * returned ops s + rate * (clock (run ops s) - clock s)"
  using level_run [OF assms] level_bound [OF assms(1)] by linarith

end

end
