(* ===== verification/WireLimiter.thy ===== *)
theory WireLimiter
  imports TokenBucket
begin

text \<open>
  \<open>WireLimiter\<close> of \<open>host_wire_limiter.hpp\<close>: the token bucket from which data chunks, parity and
  replays alike are paid. The clock is an argument of every operation; atomics and the mutex are
  left out, each critical section is one operation. All arithmetic is on 64-bit words.
\<close>

section \<open>State and operations\<close>

record wire_limiter =
  wl_R :: u64
  wl_B :: u64
  wl_tokens :: u64
  wl_lastRefillUs :: u64
  wl_carryScaled :: u64
  wl_stop :: bool
  wl_cancelSeq :: u64
  wl_spentBytes :: u64
  wl_waitCount :: u64
  wl_suppressedCount :: u64

text \<open>\<open>enabled_\<close> is stored together with \<open>R_\<close> and always says whether it is non-zero.\<close>

definition wl_enabled :: "wire_limiter \<Rightarrow> bool" where
  "wl_enabled s \<longleftrightarrow> wl_R s \<noteq> 0"

definition initial_limiter :: wire_limiter where
  "initial_limiter = \<lparr>wl_R = 0, wl_B = 0, wl_tokens = 0, wl_lastRefillUs = 0, wl_carryScaled = 0,
     wl_stop = False, wl_cancelSeq = 0, wl_spentBytes = 0, wl_waitCount = 0, wl_suppressedCount = 0\<rparr>"

definition refill :: "u64 \<Rightarrow> wire_limiter \<Rightarrow> wire_limiter" where
  "refill now s =
    (if wl_R s = 0 \<or> now \<le> wl_lastRefillUs s
     then (if wl_lastRefillUs s < now then s\<lparr>wl_lastRefillUs := now\<rparr> else s)
     else let elapsed = now - wl_lastRefillUs s;
              s = s\<lparr>wl_lastRefillUs := now\<rparr>;
              fillUs = wl_B s * 1000000 div wl_R s + 1000000 in
       if fillUs \<le> elapsed then s\<lparr>wl_tokens := wl_B s, wl_carryScaled := 0\<rparr>
       else let carry = wl_carryScaled s + elapsed * wl_R s;
                add = carry div 1000000;
                carry = carry - add * 1000000;
                tokens = wl_tokens s + add in
         if wl_B s \<le> tokens then s\<lparr>wl_tokens := wl_B s, wl_carryScaled := 0\<rparr>
         else s\<lparr>wl_tokens := tokens, wl_carryScaled := carry\<rparr>)"

definition wake_waiters :: "wire_limiter \<Rightarrow> wire_limiter" where
  "wake_waiters s = s\<lparr>wl_cancelSeq := wl_cancelSeq s + 1\<rparr>"

definition limiter_stop :: "wire_limiter \<Rightarrow> wire_limiter" where
  "limiter_stop s = wake_waiters (s\<lparr>wl_stop := True\<rparr>)"

text \<open>\<open>SetRate\<close> reads the clock twice: to settle what was earned, and to start anew.\<close>

definition set_rate :: "u64 \<Rightarrow> u32 \<Rightarrow> u64 \<Rightarrow> u64 \<Rightarrow> wire_limiter \<Rightarrow> wire_limiter" where
  "set_rate capBps lmaxBytes now now2 s =
    (let s = refill now s;
         r = capBps div 8;
         b = (if r \<noteq> 0 then max (ucast lmaxBytes) (r div 100) else 0) in
     wake_waiters (s\<lparr>wl_R := r, wl_B := b, wl_tokens := (if b < wl_tokens s then b else wl_tokens s),
       wl_lastRefillUs := now2\<rparr>))"

definition ready_deadline :: "u64 \<Rightarrow> wire_limiter \<Rightarrow> u64" where
  "ready_deadline bytes s =
    wl_lastRefillUs s + ((bytes - wl_tokens s) * 1000000 + wl_R s - 1) div wl_R s"

definition next_ready_us :: "u64 \<Rightarrow> u64 \<Rightarrow> wire_limiter \<Rightarrow> u64 \<times> wire_limiter" where
  "next_ready_us bytes now s =
    (if \<not> wl_enabled s then (0, s)
     else let s = refill now s in
       if bytes \<le> wl_tokens s then (0, s) else (ready_deadline bytes s, s))"

definition spend_tokens :: "u64 \<Rightarrow> wire_limiter \<Rightarrow> wire_limiter" where
  "spend_tokens bytes s =
    s\<lparr>wl_tokens := wl_tokens s - bytes, wl_spentBytes := wl_spentBytes s + bytes\<rparr>"

definition try_acquire :: "u64 \<Rightarrow> u64 \<Rightarrow> wire_limiter \<Rightarrow> bool \<times> wire_limiter" where
  "try_acquire bytes now s =
    (if \<not> wl_enabled s then (True, s)
     else let s = refill now s in
       if wl_tokens s < bytes then (False, s\<lparr>wl_suppressedCount := wl_suppressedCount s + 1\<rparr>)
       else (True, spend_tokens bytes s))"

definition refund :: "u64 \<Rightarrow> wire_limiter \<Rightarrow> wire_limiter" where
  "refund bytes s =
    (if \<not> wl_enabled s then s
     else let tokens = wl_tokens s + bytes in
       s\<lparr>wl_tokens := (if wl_B s < tokens then wl_B s else tokens),
         wl_spentBytes := (if bytes \<le> wl_spentBytes s then wl_spentBytes s - bytes else wl_spentBytes s)\<rparr>)"

text \<open>
  One turn of the loop of \<open>Acquire\<close> up to its wait: permitted, cancelled, or waiting for a
  deadline. \<open>cancelled\<close> is the answer of the epoch fence.
\<close>

datatype acquire_turn = AcquirePermitted | AcquireCancelled | AcquireWait u64

definition should_cancel :: "bool \<Rightarrow> wire_limiter \<Rightarrow> bool" where
  "should_cancel epochMoved s \<longleftrightarrow> wl_stop s \<or> epochMoved"

definition acquire_step :: "u64 \<Rightarrow> bool \<Rightarrow> u64 \<Rightarrow> wire_limiter \<Rightarrow> acquire_turn \<times> wire_limiter" where
  "acquire_step bytes epochMoved now s =
    (if \<not> wl_enabled s then (AcquirePermitted, s)
     else let s = refill now s in
       if bytes \<le> wl_tokens s then (AcquirePermitted, spend_tokens bytes s)
       else if should_cancel epochMoved s then (AcquireCancelled, s)
       else (AcquireWait (ready_deadline bytes s), s\<lparr>wl_waitCount := wl_waitCount s + 1\<rparr>))"

text \<open>The operations as data: what another thread may do while \<open>Acquire\<close> sleeps.\<close>

datatype limiter_op = WlTry u64 u64 | WlTurn u64 bool u64 | WlReady u64 u64 | WlRefund u64
  | WlSetRate u64 u32 u64 u64 | WlCancel | WlStop

fun limiter_step :: "limiter_op \<Rightarrow> wire_limiter \<Rightarrow> wire_limiter" where
  "limiter_step (WlTry bytes now) s = snd (try_acquire bytes now s)"
| "limiter_step (WlTurn bytes epochMoved now) s = snd (acquire_step bytes epochMoved now s)"
| "limiter_step (WlReady bytes now) s = snd (next_ready_us bytes now s)"
| "limiter_step (WlRefund bytes) s = refund bytes s"
| "limiter_step (WlSetRate capBps lmaxBytes now now2) s = set_rate capBps lmaxBytes now now2 s"
| "limiter_step WlCancel s = wake_waiters s"
| "limiter_step WlStop s = limiter_stop s"

text \<open>
  The whole call: a list of turns, each with the fence and the clock at the top of the loop, what
  happens during the wait, and the fence after it. \<open>None\<close>: still waiting when the list ends.
\<close>

fun acquire :: "u64 \<Rightarrow> (bool \<times> u64 \<times> limiter_op list \<times> bool) list \<Rightarrow> wire_limiter \<Rightarrow>
    (bool \<times> wire_limiter) option" where
  "acquire bytes [] s = None"
| "acquire bytes ((epochMoved, now, others, movedAfter) # turns) s =
    (case acquire_step bytes epochMoved now s of
       (AcquirePermitted, s) \<Rightarrow> Some (True, s)
     | (AcquireCancelled, s) \<Rightarrow> Some (False, s)
     | (AcquireWait _, s) \<Rightarrow>
         let s = fold limiter_step others s in
         if should_cancel movedAfter s then Some (False, s) else acquire bytes turns s)"

section \<open>The level of the bucket\<close>

text \<open>In millionths of a byte, so that \<open>carryScaled_\<close> counts.\<close>

definition limiter_level :: "wire_limiter \<Rightarrow> nat" where
  "limiter_level s = unat (wl_tokens s) * 1000000 + unat (wl_carryScaled s)"

definition limiter_inv :: "nat \<Rightarrow> nat \<Rightarrow> wire_limiter \<Rightarrow> bool" where
  "limiter_inv rate depth s \<longleftrightarrow> wl_R s \<noteq> 0 \<and> unat (wl_R s) \<le> rate \<and> unat (wl_B s) \<le> depth \<and>
     depth \<le> 2 ^ 40 \<and> wl_tokens s \<le> wl_B s \<and> unat (wl_carryScaled s) < 1000000"

lemma unat_le_mult: "unat (a * b :: u64) \<le> unat a * unat b"
  by (simp add: unat_word_ariths)

lemma unat_le_add: "unat (a + b :: u64) \<le> unat a + unat b"
  by (simp add: unat_word_ariths)

text \<open>A gap long enough to fill the bucket has earned at least a bucket.\<close>

lemma fill_time:
  assumes "r \<noteq> 0" and "unat b \<le> 2 ^ 40" and "b * 1000000 div r + 1000000 \<le> (e :: u64)"
  shows "unat b * 1000000 \<le> unat r * unat e"
proof -
  have b: "unat (b * 1000000) = unat b * 1000000"
    using assms(2) by (simp add: unat_word_ariths)
  let ?q = "unat b * 1000000 div unat r"
  have q: "?q \<le> unat b * 1000000" by (rule div_le_dividend)
  have "?q + 1000000 \<le> 2 ^ 40 * 1000000 + 1000000" using q assms(2) by linarith
  then have "?q + 1000000 < 2 ^ 64" by simp
  then have "unat (b * 1000000 div r + 1000000) = ?q + 1000000"
    by (simp add: unat_word_ariths(1) unat_div b)
  then have "?q + 1000000 \<le> unat e" using assms(3) by (simp add: word_le_nat_alt)
  then have "unat r * (?q + 1) \<le> unat r * unat e" by (intro mult_le_mono) simp_all
  moreover have "unat b * 1000000 \<le> unat r * (?q + 1)"
    using assms(1) by (metis add.commute dividend_less_times_div less_imp_le_nat
        mult_Suc_right plus_1_eq_Suc unat_gt_0)
  ultimately show ?thesis by linarith
qed

lemma carry_split:
  "x \<le> t + c div 1000000 \<Longrightarrow> x * 1000000 + c mod 1000000 \<le> t * 1000000 + (c :: nat)"
  using div_mult_mod_eq [of c 1000000] by linarith

lemma refill_ok:
  assumes "limiter_inv rate depth s"
  shows "limiter_inv rate depth (refill now s)"
    "unat (wl_lastRefillUs (refill now s)) = max (unat (wl_lastRefillUs s)) (unat now)"
    "limiter_level (refill now s) \<le> limiter_level s + unat (wl_R s) *
      (unat (wl_lastRefillUs (refill now s)) - unat (wl_lastRefillUs s))"
    "wl_R (refill now s) = wl_R s" "wl_B (refill now s) = wl_B s"
proof -
  have inv: "wl_R s \<noteq> 0" "unat (wl_R s) \<le> rate" "unat (wl_B s) \<le> depth" "depth \<le> 2 ^ 40"
    "wl_tokens s \<le> wl_B s" "unat (wl_carryScaled s) < 1000000"
    using assms by (auto simp: limiter_inv_def)
  let ?e = "now - wl_lastRefillUs s"
  let ?carry = "wl_carryScaled s + ?e * wl_R s"
  let ?add = "?carry div 1000000"
  consider (early) "now \<le> wl_lastRefillUs s" "refill now s = s"
    | (full) "wl_lastRefillUs s < now" "wl_B s * 1000000 div wl_R s + 1000000 \<le> ?e"
        "refill now s = s\<lparr>wl_lastRefillUs := now, wl_tokens := wl_B s, wl_carryScaled := 0\<rparr>"
    | (capped) "wl_lastRefillUs s < now" "wl_B s \<le> wl_tokens s + ?add"
        "refill now s = s\<lparr>wl_lastRefillUs := now, wl_tokens := wl_B s, wl_carryScaled := 0\<rparr>"
    | (partial) "wl_lastRefillUs s < now" "\<not> wl_B s \<le> wl_tokens s + ?add"
        "refill now s = s\<lparr>wl_lastRefillUs := now, wl_tokens := wl_tokens s + ?add,
           wl_carryScaled := ?carry - ?add * 1000000\<rparr>"
  proof -
    let ?full = "s\<lparr>wl_lastRefillUs := now, wl_tokens := wl_B s, wl_carryScaled := 0\<rparr>"
    have eq: "refill now s = (if now \<le> wl_lastRefillUs s then s
      else if wl_B s * 1000000 div wl_R s + 1000000 \<le> ?e then ?full
      else if wl_B s \<le> wl_tokens s + ?add then ?full
      else s\<lparr>wl_lastRefillUs := now, wl_tokens := wl_tokens s + ?add,
           wl_carryScaled := ?carry - ?add * 1000000\<rparr>)"
      using inv(1) unfolding refill_def Let_def by simp
    show thesis
    proof (cases "now \<le> wl_lastRefillUs s")
      case True
      then show thesis using early eq by simp
    next
      case later: False
      then have lt: "wl_lastRefillUs s < now" by simp
      show thesis
      proof (cases "wl_B s * 1000000 div wl_R s + 1000000 \<le> ?e")
        case True
        then show thesis using full [OF lt True] eq later by simp
      next
        case False
        then show thesis using capped [OF lt] partial [OF lt] eq later
          by (cases "wl_B s \<le> wl_tokens s + ?add") simp_all
      qed
    qed
  qed
  then have "limiter_inv rate depth (refill now s) \<and>
    unat (wl_lastRefillUs (refill now s)) = max (unat (wl_lastRefillUs s)) (unat now) \<and>
    limiter_level (refill now s) \<le> limiter_level s + unat (wl_R s) *
      (unat (wl_lastRefillUs (refill now s)) - unat (wl_lastRefillUs s)) \<and>
    wl_R (refill now s) = wl_R s \<and> wl_B (refill now s) = wl_B s"
  proof cases
    case early
    then show ?thesis using assms by (simp add: word_le_nat_alt max_def)
  next
    case full
    have "unat (wl_B s) \<le> 2 ^ 40" using inv(3,4) by linarith
    from fill_time [OF inv(1) this full(2)] show ?thesis
      using full inv by (simp add: limiter_inv_def limiter_level_def unat_sub word_less_nat_alt word_le_nat_alt)
  next
    case capped
    have e: "unat ?e = unat now - unat (wl_lastRefillUs s)"
      using capped(1) by (simp add: unat_sub order_less_imp_le)
    have "unat (wl_B s) \<le> unat (wl_tokens s) + unat ?add"
      using capped(2) unat_le_add [of "wl_tokens s" ?add] by (simp add: word_le_nat_alt)
    moreover have "unat ?add * 1000000 \<le> unat (wl_carryScaled s) + unat ?e * unat (wl_R s)"
      using unat_le_add [of "wl_carryScaled s" "?e * wl_R s"] unat_le_mult [of ?e "wl_R s"]
      by (simp add: unat_div)
    ultimately show ?thesis using capped inv e
      by (simp add: limiter_inv_def limiter_level_def word_less_nat_alt mult.commute)
  next
    case partial
    have e: "unat ?e = unat now - unat (wl_lastRefillUs s)"
      using partial(1) by (simp add: unat_sub order_less_imp_le)
    have carry: "unat ?carry \<le> unat (wl_carryScaled s) + unat ?e * unat (wl_R s)"
      using unat_le_add [of "wl_carryScaled s" "?e * wl_R s"] unat_le_mult [of ?e "wl_R s"] by linarith
    have add: "unat ?add * 1000000 \<le> unat ?carry" by (simp add: unat_div)
    then have mult: "unat (?add * 1000000) = unat ?add * 1000000"
      using unat_bounds(4) [of ?carry] by (simp add: unat_word_ariths(2))
    then have rest: "unat (?carry - ?add * 1000000) = unat ?carry mod 1000000"
      using add by (simp add: unat_sub word_le_nat_alt unat_div unat_mod minus_div_mult_eq_mod)
    have "unat (wl_tokens s + ?add) * 1000000 + unat ?carry mod 1000000 \<le>
        unat (wl_tokens s) * 1000000 + unat ?carry"
      by (rule carry_split) (use unat_le_add [of "wl_tokens s" ?add] in \<open>simp add: unat_div\<close>)
    then show ?thesis using partial inv e carry rest
      by (simp add: limiter_inv_def limiter_level_def word_less_nat_alt mult.commute)
  qed
  then show "limiter_inv rate depth (refill now s)"
    "unat (wl_lastRefillUs (refill now s)) = max (unat (wl_lastRefillUs s)) (unat now)"
    "limiter_level (refill now s) \<le> limiter_level s + unat (wl_R s) *
      (unat (wl_lastRefillUs (refill now s)) - unat (wl_lastRefillUs s))"
    "wl_R (refill now s) = wl_R s" "wl_B (refill now s) = wl_B s"
    by blast+
qed

text \<open>What an operation puts on the wire, and what it takes back because it did not go out.\<close>

fun op_spent :: "limiter_op \<Rightarrow> wire_limiter \<Rightarrow> nat" where
  "op_spent (WlTry bytes now) s = (if fst (try_acquire bytes now s) then unat bytes else 0)"
| "op_spent (WlTurn bytes epochMoved now) s =
    (if fst (acquire_step bytes epochMoved now s) = AcquirePermitted then unat bytes else 0)"
| "op_spent _ s = 0"

fun op_refunded :: "limiter_op \<Rightarrow> wire_limiter \<Rightarrow> nat" where
  "op_refunded (WlRefund bytes) s = unat bytes"
| "op_refunded _ s = 0"

text \<open>
  The rate may change as often as it likes below the bounds, with a clock that does not run
  backwards; it is not switched off.
\<close>

fun op_allowed :: "nat \<Rightarrow> nat \<Rightarrow> limiter_op \<Rightarrow> wire_limiter \<Rightarrow> bool" where
  "op_allowed rate depth (WlSetRate capBps lmaxBytes now now2) s \<longleftrightarrow>
     8 \<le> capBps \<and> unat (capBps div 8) \<le> rate \<and> unat lmaxBytes \<le> depth \<and> rate div 100 \<le> depth \<and>
     wl_lastRefillUs s \<le> now2 \<and> now \<le> now2"
| "op_allowed rate depth _ s \<longleftrightarrow> True"

lemma spend_tokens_ok:
  assumes "limiter_inv rate depth s" and "bytes \<le> wl_tokens s"
  shows "limiter_inv rate depth (spend_tokens bytes s)"
    "limiter_level (spend_tokens bytes s) + 1000000 * unat bytes = limiter_level s"
    "wl_lastRefillUs (spend_tokens bytes s) = wl_lastRefillUs s"
proof -
  have "unat (wl_tokens s - bytes) = unat (wl_tokens s) - unat bytes" "unat bytes \<le> unat (wl_tokens s)"
    using assms(2) by (simp_all add: unat_sub word_le_nat_alt)
  then show "limiter_inv rate depth (spend_tokens bytes s)"
    "limiter_level (spend_tokens bytes s) + 1000000 * unat bytes = limiter_level s"
    "wl_lastRefillUs (spend_tokens bytes s) = wl_lastRefillUs s"
    using assms by (auto simp: limiter_inv_def limiter_level_def spend_tokens_def word_le_nat_alt)
qed

definition limiter_law :: "nat \<Rightarrow> nat \<Rightarrow> wire_limiter \<Rightarrow> wire_limiter \<Rightarrow> nat \<Rightarrow> nat \<Rightarrow> bool" where
  "limiter_law rate depth s s' spent refunded \<longleftrightarrow>
     limiter_inv rate depth s' \<and> wl_lastRefillUs s \<le> wl_lastRefillUs s' \<and>
     limiter_level s' + 1000000 * spent \<le> limiter_level s + 1000000 * refunded +
       rate * (unat (wl_lastRefillUs s') - unat (wl_lastRefillUs s))"

lemma law_refill:
  assumes "limiter_inv rate depth s"
  shows "limiter_law rate depth s (refill now s) 0 0"
proof -
  have "unat (wl_R s) \<le> rate" using assms by (simp add: limiter_inv_def)
  then have "unat (wl_R s) * (unat (wl_lastRefillUs (refill now s)) - unat (wl_lastRefillUs s)) \<le>
      rate * (unat (wl_lastRefillUs (refill now s)) - unat (wl_lastRefillUs s))"
    by (rule mult_le_mono1)
  then have "limiter_level (refill now s) \<le> limiter_level s +
      rate * (unat (wl_lastRefillUs (refill now s)) - unat (wl_lastRefillUs s))"
    using refill_ok(3) [OF assms, of now] by linarith
  then show ?thesis using refill_ok(1,2) [OF assms, of now] by (simp add: limiter_law_def word_le_nat_alt)
qed

lemma law_spend:
  assumes "limiter_inv rate depth s" and "bytes \<le> wl_tokens (refill now s)"
  shows "limiter_law rate depth s (spend_tokens bytes (refill now s)) (unat bytes) 0"
  using law_refill [OF assms(1), of now] spend_tokens_ok [OF refill_ok(1) [OF assms(1)] assms(2)]
  by (simp add: limiter_law_def)

lemma law_counters [simp]:
  "limiter_law rate depth s (s'\<lparr>wl_suppressedCount := x\<rparr>) n r = limiter_law rate depth s s' n r"
  "limiter_law rate depth s (s'\<lparr>wl_waitCount := x\<rparr>) n r = limiter_law rate depth s s' n r"
  "limiter_law rate depth s (s'\<lparr>wl_cancelSeq := x\<rparr>) n r = limiter_law rate depth s s' n r"
  "limiter_law rate depth s (s'\<lparr>wl_stop := y\<rparr>) n r = limiter_law rate depth s s' n r"
  by (simp_all add: limiter_law_def limiter_inv_def limiter_level_def)

lemma law_refl: "limiter_inv rate depth s \<Longrightarrow> limiter_law rate depth s s 0 0"
  by (simp add: limiter_law_def)

lemma law_refund:
  assumes "limiter_inv rate depth s"
  shows "limiter_law rate depth s (refund bytes s) 0 (unat bytes)"
  using assms unat_le_add [of "wl_tokens s" bytes]
  by (auto simp: refund_def limiter_law_def limiter_inv_def limiter_level_def Let_def word_le_nat_alt word_less_nat_alt)

lemma law_set_rate:
  assumes inv: "limiter_inv rate depth s" and ok: "op_allowed rate depth (WlSetRate capBps lmaxBytes now now2) s"
  shows "limiter_law rate depth s (set_rate capBps lmaxBytes now now2 s) 0 0"
proof -
  let ?s = "refill now s" and ?r = "capBps div 8"
  define b :: u64 where "b = max (ucast lmaxBytes) (?r div 100)"
  have ok': "8 \<le> unat capBps" "unat ?r \<le> rate" "unat lmaxBytes \<le> depth" "rate div 100 \<le> depth"
    "wl_lastRefillUs s \<le> now2" "now \<le> now2"
    using ok by (simp_all add: word_le_nat_alt)
  note re = refill_ok [OF inv, of now]
  have law: "limiter_law rate depth s ?s 0 0" by (rule law_refill [OF inv])
  have r: "?r \<noteq> 0" using ok'(1) by (simp add: word_unat_eq_iff unat_div)
  have cast: "unat (ucast lmaxBytes :: u64) = unat lmaxBytes"
    using unat_bounds(3) [of lmaxBytes] by (simp add: unsigned_ucast_eq take_bit_nat_eq_self)
  have "unat (?r div 100) \<le> rate div 100" using ok'(2) by (simp add: unat_div div_le_mono)
  then have b: "unat b \<le> depth" using ok'(3,4) cast by (simp add: b_def max_def)
  define t where "t = ?s\<lparr>wl_R := ?r, wl_B := b, wl_tokens := (if b < wl_tokens ?s then b else wl_tokens ?s),
      wl_lastRefillUs := now2\<rparr>"
  have eq: "set_rate capBps lmaxBytes now now2 s = t\<lparr>wl_cancelSeq := wl_cancelSeq t + 1\<rparr>"
    using r by (simp add: set_rate_def Let_def wake_waiters_def b_def t_def)
  have t_last: "wl_lastRefillUs t = now2" by (simp add: t_def)
  have last: "wl_lastRefillUs ?s \<le> now2" using re(2) ok'(5,6) by (simp add: word_le_nat_alt)
  have "limiter_inv rate depth t" using re(1) r ok'(2) b by (auto simp: limiter_inv_def t_def)
  moreover have "limiter_level t \<le> limiter_level ?s" by (auto simp: limiter_level_def word_less_nat_alt t_def)
  moreover have "rate * (unat (wl_lastRefillUs ?s) - unat (wl_lastRefillUs s)) \<le> rate * (unat now2 - unat (wl_lastRefillUs s))"
    using last by (intro mult_le_mono diff_le_mono) (simp_all add: word_le_nat_alt)
  moreover have "limiter_level ?s \<le> limiter_level s + rate * (unat (wl_lastRefillUs ?s) - unat (wl_lastRefillUs s))"
    using law by (simp add: limiter_law_def)
  ultimately have "limiter_inv rate depth t"
    "limiter_level t \<le> limiter_level s + rate * (unat now2 - unat (wl_lastRefillUs s))"
    by linarith+
  then have "limiter_law rate depth s t 0 0"
    using ok'(5) by (simp add: limiter_law_def t_last)
  then show ?thesis unfolding eq by simp
qed

lemma limiter_step_law:
  assumes "limiter_inv rate depth s" and "op_allowed rate depth op s"
  shows "limiter_law rate depth s (limiter_step op s) (op_spent op s) (op_refunded op s)"
proof (cases op)
  case (WlTry bytes now)
  then show ?thesis using assms law_refill [OF assms(1), of now] law_spend [OF assms(1), of bytes now]
    by (auto simp: try_acquire_def wl_enabled_def limiter_inv_def Let_def)
next
  case (WlTurn bytes moved now)
  then show ?thesis using assms law_refill [OF assms(1), of now] law_spend [OF assms(1), of bytes now]
    by (auto simp: acquire_step_def wl_enabled_def limiter_inv_def Let_def)
next
  case (WlReady bytes now)
  then show ?thesis using assms law_refill [OF assms(1), of now]
    by (auto simp: next_ready_us_def wl_enabled_def limiter_inv_def Let_def)
next
  case (WlRefund bytes)
  then show ?thesis using law_refund [OF assms(1)] by simp
next
  case (WlSetRate capBps lmaxBytes now now2)
  then show ?thesis using law_set_rate [OF assms(1)] assms(2) by simp
qed (simp_all add: law_refl [OF assms(1)] wake_waiters_def limiter_stop_def)

interpretation wl: token_bucket "limiter_inv rate depth" limiter_level "\<lambda>s. unat (wl_lastRefillUs s)"
    limiter_step op_spent op_refunded "op_allowed rate depth" rate "depth * 1000000 + 999999" 1000000
  for rate depth
proof unfold_locales
  fix s :: wire_limiter and op
  assume "limiter_inv rate depth s" "op_allowed rate depth op s"
  from limiter_step_law [OF this] show "limiter_inv rate depth (limiter_step op s)"
    "unat (wl_lastRefillUs s) \<le> unat (wl_lastRefillUs (limiter_step op s))"
    "limiter_level (limiter_step op s) + 1000000 * op_spent op s \<le> limiter_level s +
      1000000 * op_refunded op s + rate * (unat (wl_lastRefillUs (limiter_step op s)) - unat (wl_lastRefillUs s))"
    by (simp_all add: limiter_law_def word_le_nat_alt)
next
  fix s assume "limiter_inv rate depth s"
  then have "unat (wl_tokens s) \<le> depth" "unat (wl_carryScaled s) \<le> 999999"
    by (auto simp: limiter_inv_def word_le_nat_alt)
  then show "limiter_level s \<le> depth * 1000000 + 999999" by (simp add: limiter_level_def)
qed

section \<open>The cap\<close>

fun limiter_run :: "limiter_op list \<Rightarrow> wire_limiter \<Rightarrow> wire_limiter" where
  "limiter_run [] s = s"
| "limiter_run (op # ops) s = limiter_run ops (limiter_step op s)"

fun wire_sent :: "limiter_op list \<Rightarrow> wire_limiter \<Rightarrow> nat" where
  "wire_sent [] s = 0"
| "wire_sent (op # ops) s = op_spent op s + wire_sent ops (limiter_step op s)"

fun wire_refunded :: "limiter_op list \<Rightarrow> wire_limiter \<Rightarrow> nat" where
  "wire_refunded [] s = 0"
| "wire_refunded (op # ops) s = op_refunded op s + wire_refunded ops (limiter_step op s)"

fun wire_legal :: "nat \<Rightarrow> nat \<Rightarrow> limiter_op list \<Rightarrow> wire_limiter \<Rightarrow> bool" where
  "wire_legal rate depth [] s = True"
| "wire_legal rate depth (op # ops) s = (op_allowed rate depth op s \<and> wire_legal rate depth ops (limiter_step op s))"

lemma wire_run_bucket: "limiter_run ops s = wl.run ops s" "wire_sent ops s = wl.granted ops s"
  "wire_refunded ops s = wl.returned ops s" "wire_legal rate depth ops s = wl.legal rate depth ops s"
  by (induction ops arbitrary: s) simp_all

lemma wire_legal_append:
  "wire_legal rate depth (xs @ ys) s \<longleftrightarrow> wire_legal rate depth xs s \<and> wire_legal rate depth ys (limiter_run xs s)"
  by (induction xs arbitrary: s) simp_all

definition armed_limiter :: "u64 \<Rightarrow> u32 \<Rightarrow> u64 \<Rightarrow> wire_limiter" where
  "armed_limiter capBps lmaxBytes now = set_rate capBps lmaxBytes now now initial_limiter"

lemma armed_limiter_inv:
  assumes "8 \<le> capBps" and "unat (capBps div 8) \<le> rate" and "unat lmaxBytes \<le> depth"
    and "rate div 100 \<le> depth" and "depth \<le> 2 ^ 40"
  shows "limiter_inv rate depth (armed_limiter capBps lmaxBytes now)"
proof -
  have r: "capBps div 8 \<noteq> 0" using assms(1) by (simp add: word_unat_eq_iff unat_div word_le_nat_alt)
  have cast: "unat (ucast lmaxBytes :: u64) = unat lmaxBytes"
    using unat_bounds(3) [of lmaxBytes] by (simp add: unsigned_ucast_eq take_bit_nat_eq_self)
  have "unat (capBps div 8 div 100) \<le> rate div 100"
    unfolding unat_div [of "capBps div 8"] using assms(2) by (simp add: div_le_mono)
  then have "unat (max (ucast lmaxBytes) (capBps div 8 div 100)) \<le> depth"
    using assms(3,4) cast by (simp add: max_def)
  then show ?thesis using r assms(2,5)
    by (simp add: armed_limiter_def set_rate_def refill_def initial_limiter_def Let_def wake_waiters_def limiter_inv_def)
qed

text \<open>
  C14. The cap. Once armed, over any stretch of a run, with any mixture of sending, replaying,
  refunding and changes of the rate below the given bounds, the bytes put on the wire and not
  refunded are at most one bucket (and a fraction of a byte) plus the greatest rate times the
  time that passed. Changing the rate opens no burst, and no kind of traffic has a lane of its own.
\<close>

theorem wire_cap_envelope:
  assumes "8 \<le> capBps" "unat (capBps div 8) \<le> rate" "unat lmaxBytes \<le> depth" "rate div 100 \<le> depth"
    and "depth \<le> 2 ^ 40" and "wire_legal rate depth (before @ ops) (armed_limiter capBps lmaxBytes t)"
    and "s = limiter_run before (armed_limiter capBps lmaxBytes t)"
  shows "1000000 * wire_sent ops s \<le> 1000000 * wire_refunded ops s + 1000000 * depth + 999999 +
    rate * (unat (wl_lastRefillUs (limiter_run ops s)) - unat (wl_lastRefillUs s))"
proof -
  have "limiter_inv rate depth (armed_limiter capBps lmaxBytes t)" by (rule armed_limiter_inv [OF assms(1-5)])
  moreover have "wire_legal rate depth before (armed_limiter capBps lmaxBytes t)" "wire_legal rate depth ops s"
    using assms(6,7) by (simp_all add: wire_legal_append)
  ultimately have "limiter_inv rate depth s" "wl.legal rate depth ops s"
    using wl.inv_run assms(7) by (simp_all add: wire_run_bucket)
  from wl.envelope [OF this] show ?thesis by (simp add: wire_run_bucket)
qed

section \<open>The wait\<close>

text \<open>At the deadline the tokens are there.\<close>

lemma deadline_enough:
  assumes inv: "limiter_inv rate depth s" and rate: "rate \<le> 2 ^ 40"
    and bytes: "wl_tokens s < bytes" "bytes \<le> wl_B s" and last: "unat (wl_lastRefillUs s) < 2 ^ 63"
    and late: "ready_deadline bytes s \<le> now"
  shows "bytes \<le> wl_tokens (refill now s)"
proof -
  let ?R = "unat (wl_R s)" and ?need = "unat bytes - unat (wl_tokens s)"
  have s: "wl_R s \<noteq> 0" "0 < ?R" "?R \<le> 2 ^ 40" "unat (wl_B s) \<le> 2 ^ 40" "unat (wl_carryScaled s) < 1000000"
    using inv rate by (auto simp: limiter_inv_def unat_gt_0)
  have need: "0 < ?need" "?need \<le> 2 ^ 40" "unat (bytes - wl_tokens s) = ?need"
    using bytes s(4) by (auto simp: word_less_nat_alt word_le_nat_alt unat_sub order_less_imp_le)
  have scaled: "unat ((bytes - wl_tokens s) * 1000000) = ?need * 1000000"
    unfolding unat_word_ariths(2) need(3) using need(2) by simp
  let ?wait = "(?need * 1000000 + ?R - 1) div ?R"
  have num: "unat ((bytes - wl_tokens s) * 1000000 + wl_R s - 1) = ?need * 1000000 + ?R - 1"
  proof -
    have "unat ((bytes - wl_tokens s) * 1000000 + wl_R s) = ?need * 1000000 + ?R"
      unfolding unat_word_ariths(1) scaled using need(2) s(3) by simp
    moreover from this have "1 \<le> (bytes - wl_tokens s) * 1000000 + wl_R s"
      unfolding word_le_nat_alt using s(2) by simp
    ultimately show ?thesis unfolding unat_sub [OF \<open>1 \<le> _\<close>] by simp
  qed
  have wait: "?need * 1000000 \<le> ?wait * ?R" "?wait \<le> ?need * 1000000 + ?R" "0 < ?wait"
  proof -
    show "?need * 1000000 \<le> ?wait * ?R"
      using div_mult_mod_eq [of "?need * 1000000 + ?R - 1" ?R] mod_less_divisor [OF s(2), of "?need * 1000000 + ?R - 1"]
      by linarith
    show "?wait \<le> ?need * 1000000 + ?R" by (rule le_trans [OF div_le_dividend]) simp
    show "0 < ?wait" using need(1) s(2) by (simp add: div_greater_zero_iff)
  qed
  have "unat (ready_deadline bytes s) = unat (wl_lastRefillUs s) + ?wait"
    unfolding ready_deadline_def unat_word_ariths(1) unat_div num
    using wait(2) need(2) s(3) last by simp
  then have now: "unat (wl_lastRefillUs s) + ?wait \<le> unat now" using late by (simp add: word_le_nat_alt)
  let ?e = "now - wl_lastRefillUs s"
  have e: "unat ?e = unat now - unat (wl_lastRefillUs s)" "?wait \<le> unat ?e"
    using now by (simp_all add: unat_sub word_le_nat_alt)
  have later: "\<not> now \<le> wl_lastRefillUs s" using now wait(3) by (simp add: word_le_nat_alt)
  show ?thesis
  proof (cases "wl_B s * 1000000 div wl_R s + 1000000 \<le> ?e")
    case True
    then show ?thesis using later s(1) bytes(2) by (simp add: refill_def Let_def)
  next
    case False
    have "unat (wl_B s * 1000000) = unat (wl_B s) * 1000000" using s(4) by (simp add: unat_word_ariths)
    then have "unat ?e < unat (wl_B s) * 1000000 div ?R + 1000000"
      using False unat_le_add [of "wl_B s * 1000000 div wl_R s" 1000000] by (simp add: word_le_nat_alt unat_div)
    then have "unat ?e * ?R \<le> (unat (wl_B s) * 1000000 div ?R + 1000000) * ?R" by (intro mult_le_mono1) simp
    also have "\<dots> \<le> unat (wl_B s) * 1000000 + 1000000 * ?R" by (simp add: distrib_right)
    finally have small: "unat ?e * ?R \<le> 2 ^ 62" using s(3,4) by simp
    then have "unat (?e * wl_R s) = unat ?e * ?R" by (simp add: unat_word_ariths(2))
    then have carry: "unat (wl_carryScaled s + ?e * wl_R s) = unat (wl_carryScaled s) + unat ?e * ?R"
      using small s(5) by (simp add: unat_word_ariths(1))
    let ?add = "(wl_carryScaled s + ?e * wl_R s) div 1000000"
    have "?need * 1000000 \<le> unat ?e * ?R"
      using wait(1) mult_le_mono1 [OF e(2), of ?R] by linarith
    then have add: "?need \<le> unat ?add" "unat ?add \<le> 2 ^ 62 + 1"
      using small s(5) by (simp_all add: unat_div carry less_eq_div_iff_mult_less_eq)
    have "unat (wl_tokens s) \<le> 2 ^ 40" using inv s(4) by (auto simp: limiter_inv_def word_le_nat_alt)
    then have "unat (wl_tokens s + ?add) = unat (wl_tokens s) + unat ?add"
      using add(2) by (simp add: unat_word_ariths(1))
    then have "bytes \<le> wl_tokens s + ?add" using add(1) need(1) by (simp add: word_le_nat_alt)
    then show ?thesis using later s(1) bytes(2) False by (simp add: refill_def Let_def)
  qed
qed

lemma initial_wait:
  assumes "limiter_inv rate depth s" and "acquire_step bytes moved now s = (AcquireWait d, s1)"
  shows "s1 = (refill now s)\<lparr>wl_waitCount := wl_waitCount (refill now s) + 1\<rparr>" "d = ready_deadline bytes (refill now s)"
    "wl_tokens (refill now s) < bytes" "\<not> should_cancel moved (refill now s)"
  using assms by (auto simp: acquire_step_def Let_def limiter_inv_def split: if_splits)

text \<open>
  \<open>Acquire\<close> returns. With the cap on, for a datagram no larger than the bucket, and when nothing
  else happens meanwhile, one wait until the deadline that it computes is enough: at any later
  time the next turn permits the datagram. The bounds keep the 64-bit arithmetic from wrapping.
\<close>

theorem acquire_returns:
  assumes inv: "limiter_inv rate depth s" and rate: "rate \<le> 2 ^ 40"
    and bytes: "bytes \<le> wl_B s" and run: "\<not> wl_stop s"
    and time: "unat (wl_lastRefillUs s) < 2 ^ 63" "unat now < 2 ^ 63"
    and late: "fst (next_ready_us bytes now s) \<le> now'"
  shows "\<exists>s'. acquire bytes [(False, now, [], False), (False, now', [], False)] s = Some (True, s')"
proof (cases "acquire_step bytes False now s")
  case (Pair turn s1)
  note re = refill_ok [OF inv, of now]
  have R: "wl_R s \<noteq> 0" using inv by (simp add: limiter_inv_def)
  show ?thesis
  proof (cases turn)
    case AcquirePermitted
    then show ?thesis using Pair by simp
  next
    case AcquireCancelled
    have "wl_stop (refill now s) = wl_stop s" by (simp add: refill_def Let_def)
    then show ?thesis using Pair AcquireCancelled run
      by (auto simp: acquire_step_def should_cancel_def Let_def split: if_splits)
  next
    case (AcquireWait d)
    note w = initial_wait [OF inv Pair [unfolded AcquireWait]]
    have "ready_deadline bytes (refill now s) \<le> now'"
      using late w(3) R by (simp add: next_ready_us_def wl_enabled_def Let_def not_le [symmetric])
    moreover have "bytes \<le> wl_B (refill now s)" "unat (wl_lastRefillUs (refill now s)) < 2 ^ 63"
      using bytes re(2,5) time by simp_all
    ultimately have "bytes \<le> wl_tokens (refill now' (refill now s))"
      using deadline_enough [OF re(1) rate w(3)] by blast
    moreover have "wl_tokens (refill now' s1) = wl_tokens (refill now' (refill now s))" "wl_R s1 = wl_R s"
      unfolding w(1) using re(4) by (simp_all add: refill_def Let_def)
    ultimately have "fst (acquire_step bytes False now' s1) = AcquirePermitted"
      using R by (simp add: acquire_step_def wl_enabled_def Let_def)
    moreover have "\<not> should_cancel False s1" using w(4) by (simp add: w(1) should_cancel_def)
    ultimately show ?thesis using Pair AcquireWait
      by (cases "acquire_step bytes False now' s1") simp
  qed
qed

text \<open>
  A cap of 6 Mbit/s: after one millisecond there are 750 bytes; 700 are permitted and 200 of them
  refunded, another 700 are not.
\<close>

definition six_mbit :: wire_limiter where
  "six_mbit = armed_limiter 6000000 1428 1000"

lemma six_mbit: "six_mbit = initial_limiter\<lparr>wl_R := 750000, wl_B := 7500, wl_lastRefillUs := 1000, wl_cancelSeq := 1\<rparr>"
  by (simp add: six_mbit_def armed_limiter_def set_rate_def refill_def initial_limiter_def wake_waiters_def max_def)

definition six_asked :: "limiter_op list" where
  "six_asked = [WlTry 700 2000, WlRefund 200, WlTry 700 2000]"

lemma six_steps:
  "try_acquire 700 2000 six_mbit = (True, six_mbit\<lparr>wl_tokens := 50, wl_lastRefillUs := 2000, wl_spentBytes := 700\<rparr>)"
  "refund 200 (six_mbit\<lparr>wl_tokens := 50, wl_lastRefillUs := 2000, wl_spentBytes := 700\<rparr>) =
     six_mbit\<lparr>wl_tokens := 250, wl_lastRefillUs := 2000, wl_spentBytes := 500\<rparr>"
  "fst (try_acquire 700 2000 (six_mbit\<lparr>wl_tokens := 250, wl_lastRefillUs := 2000, wl_spentBytes := 500\<rparr>)) = False"
  by (simp_all add: six_mbit initial_limiter_def try_acquire_def refund_def wl_enabled_def refill_def spend_tokens_def)

theorem wire_cap_envelope_witness:
  "wire_sent six_asked six_mbit = 700 \<and> 1000000 * wire_sent six_asked six_mbit \<le>
     1000000 * wire_refunded six_asked six_mbit + 1000000 * 7500 + 999999 +
     750000 * (unat (wl_lastRefillUs (limiter_run six_asked six_mbit)) - unat (wl_lastRefillUs six_mbit))"
proof
  show "wire_sent six_asked six_mbit = 700" by (simp add: six_asked_def six_steps)
  have "wire_legal 750000 7500 ([] @ six_asked) (armed_limiter 6000000 1428 1000)"
    by (simp add: six_asked_def)
  then show "1000000 * wire_sent six_asked six_mbit \<le>
     1000000 * wire_refunded six_asked six_mbit + 1000000 * 7500 + 999999 +
     750000 * (unat (wl_lastRefillUs (limiter_run six_asked six_mbit)) - unat (wl_lastRefillUs six_mbit))"
    by (rule wire_cap_envelope [rotated 5]) (simp_all add: six_mbit_def)
qed

theorem acquire_returns_witness:
  "\<exists>s'. acquire 1428 [(False, 1000, [], False), (False, 2904, [], False)] six_mbit = Some (True, s')"
proof (rule acquire_returns)
  show "limiter_inv 750000 7500 six_mbit"
    by (simp add: six_mbit initial_limiter_def limiter_inv_def)
  show "fst (next_ready_us 1428 1000 six_mbit) \<le> 2904"
    by (simp add: six_mbit initial_limiter_def next_ready_us_def wl_enabled_def refill_def ready_deadline_def)
qed (simp_all add: six_mbit initial_limiter_def)

end
