(* ===== verification/ControlChannel.thy ===== *)
theory ControlChannel
  imports Wire "HOL-Library.Product_Lexorder"
begin

text \<open>
  \<open>UdpControlChannel\<close> of \<open>udp_control_channel.cpp\<close>: whole control messages, reliable and in
  order, over the media socket. One message is in flight; the receiver asks for the fragments it
  lacks and repeats the acknowledgement of what it has delivered. An operation returns the channel
  after it and the datagrams it hands to \<open>send_\<close>, in order; the clock is an argument. Sizes of
  buffers (\<open>size_t\<close>) are naturals. The mutex, the condition variable and the pause after every 24
  fragments are left out: each operation is one critical section.
\<close>

section \<open>State\<close>

datatype control_close_reason = CloseNone | PeerLost | SessionRollover | Shutdown | ResourceLimit
  | MalformedMessage

datatype control_probe_state = ProbeIdle | ProbePending | ProbeAlive | ProbeDead

record channel_timings =
  tm_retransmitIntervalUs :: u64
  tm_maxAttempts :: u32
  tm_nackDelayUs :: u64
  tm_nackIntervalUs :: u64

record channel_stats =
  cs_messagesSent :: u64
  cs_messagesReceived :: u64
  cs_fragmentsSent :: u64
  cs_fragmentRetransmits :: u64
  cs_nacksSent :: u64

record outbound =
  ob_seq :: u32
  ob_payload :: bytes
  ob_fragCount :: u16
  ob_lastSendUs :: u64
  ob_attempts :: u32

record inbound =
  ib_totalSize :: u32
  ib_fragCount :: u16
  ib_bytes :: bytes
  ib_have :: "bool list"
  ib_ranges :: "(u32 \<times> u32) list"
  ib_haveCount :: u16
  ib_lastProgressUs :: u64
  ib_lastNackUs :: u64
  ib_createdUs :: u64

text \<open>\<open>rxPending_\<close> is an ordered map: a list of entries sorted by key.\<close>

record channel =
  ch_hasSend :: bool
  ch_txStreamId :: u32
  ch_rxStreamId :: u32
  ch_fragBytes :: u32
  ch_timings :: channel_timings
  ch_closed :: bool
  ch_closeReason :: control_close_reason
  ch_shutdown :: bool
  ch_nextTxSeq :: u32
  ch_txQueue :: "outbound list"
  ch_lastAckedTxSeq :: u32
  ch_probeState :: control_probe_state
  ch_probeSeq :: u32
  ch_probeAttempts :: u32
  ch_probeMaxAttempts :: u32
  ch_probeIntervalUs :: u64
  ch_probeLastSendUs :: u64
  ch_probeDecidedUs :: u64
  ch_rxPending :: "(u32 \<times> inbound) list"
  ch_rxDeliveredSeq :: u32
  ch_rxReady :: "bytes list"
  ch_stats :: channel_stats

type_synonym 'a sends = "'a \<times> bytes list"

definition kMaxMessageBytes :: nat where "kMaxMessageBytes = 8 * 1024 * 1024"
definition kMaxQueuedMessages :: nat where "kMaxQueuedMessages = 64"
definition kMaxQueuedBytes :: nat where "kMaxQueuedBytes = 32 * 1024 * 1024"
definition kIncompleteLifetimeUs :: u64 where "kIncompleteLifetimeUs = 30000000"

definition initial_channel :: channel where
  "initial_channel = \<lparr>ch_hasSend = False, ch_txStreamId = 0, ch_rxStreamId = 0, ch_fragBytes = 1100,
    ch_timings = \<lparr>tm_retransmitIntervalUs = 250000, tm_maxAttempts = 24, tm_nackDelayUs = 90000,
      tm_nackIntervalUs = 90000\<rparr>,
    ch_closed = False, ch_closeReason = CloseNone, ch_shutdown = False, ch_nextTxSeq = 1,
    ch_txQueue = [], ch_lastAckedTxSeq = 0, ch_probeState = ProbeIdle, ch_probeSeq = 0,
    ch_probeAttempts = 0, ch_probeMaxAttempts = 0, ch_probeIntervalUs = 0, ch_probeLastSendUs = 0,
    ch_probeDecidedUs = 0, ch_rxPending = [], ch_rxDeliveredSeq = 0, ch_rxReady = [],
    ch_stats = \<lparr>cs_messagesSent = 0, cs_messagesReceived = 0, cs_fragmentsSent = 0,
      cs_fragmentRetransmits = 0, cs_nacksSent = 0\<rparr>\<rparr>"

section \<open>Life of a channel\<close>

definition set_timings :: "channel_timings \<Rightarrow> channel \<Rightarrow> channel" where
  "set_timings timings c = c\<lparr>ch_timings := timings\<rparr>"

definition configure_channel :: "u32 \<Rightarrow> u32 \<Rightarrow> u32 \<Rightarrow> channel \<Rightarrow> channel" where
  "configure_channel txStreamId rxStreamId mtuBytes c =
    (let headerBytes = of_nat control_chunk_header_size;
         mtu = max mtuBytes (headerBytes + 64) in
     c\<lparr>ch_hasSend := True, ch_txStreamId := txStreamId, ch_rxStreamId := rxStreamId,
       ch_fragBytes := mtu - headerBytes, ch_closed := False\<rparr>)"

text \<open>The first reason stays.\<close>

definition close_channel :: "control_close_reason \<Rightarrow> channel \<Rightarrow> channel" where
  "close_channel reason c =
    c\<lparr>ch_closeReason := (if ch_closeReason c = CloseNone then reason else ch_closeReason c),
      ch_shutdown := ch_shutdown c \<or> reason = Shutdown, ch_closed := True\<rparr>"

definition clear_session :: "channel \<Rightarrow> channel" where
  "clear_session c =
    c\<lparr>ch_probeState := ProbeIdle, ch_probeAttempts := 0, ch_probeDecidedUs := 0,
      ch_lastAckedTxSeq := 0, ch_nextTxSeq := 1, ch_txQueue := [], ch_rxPending := [],
      ch_rxReady := [], ch_rxDeliveredSeq := 0, ch_closeReason := CloseNone, ch_closed := False\<rparr>"

definition reset_channel :: "channel \<Rightarrow> channel" where
  "reset_channel c = (clear_session c)\<lparr>ch_shutdown := False\<rparr>"

definition resume_with :: "u32 \<Rightarrow> u32 \<Rightarrow> channel \<Rightarrow> bool \<times> channel" where
  "resume_with txStreamId rxStreamId c =
    (if ch_shutdown c then (False, c)
     else (True, (clear_session c)\<lparr>ch_txStreamId := txStreamId, ch_rxStreamId := rxStreamId\<rparr>))"

section \<open>Datagrams\<close>

definition probe_datagram :: "channel \<Rightarrow> bytes" where
  "probe_datagram c = encode_control_chunk_header (default_control_chunk_header
     \<lparr>cc_streamId := ch_txStreamId c, cc_messageSeq := ch_probeSeq c, cc_fragIndex := 0,
      cc_fragCount := 1, cc_fragOffset := 0, cc_totalSize := 1\<rparr>) @ [0]"

definition send_probe_chunk :: "channel \<Rightarrow> bytes list" where
  "send_probe_chunk c = (if \<not> ch_hasSend c then [] else [probe_datagram c])"

definition start_probe :: "u32 \<Rightarrow> u64 \<Rightarrow> u64 \<Rightarrow> channel \<Rightarrow> channel sends" where
  "start_probe maxAttempts intervalUs nowUs c =
    (if ch_closed c \<or> ch_probeState c = ProbePending then (c, [])
     else let c = c\<lparr>ch_probeState := ProbePending, ch_probeDecidedUs := 0,
              ch_probeSeq := ch_lastAckedTxSeq c,
              ch_probeMaxAttempts := (if maxAttempts = 0 then 1 else maxAttempts),
              ch_probeIntervalUs := intervalUs, ch_probeAttempts := 1, ch_probeLastSendUs := nowUs\<rparr> in
       (c, send_probe_chunk c))"

definition probe_status :: "channel \<Rightarrow> control_probe_state" where
  "probe_status c = (if ch_closed c then ProbeIdle else ch_probeState c)"

definition probe_age_us :: "u64 \<Rightarrow> channel \<Rightarrow> u64" where
  "probe_age_us nowUs c =
    (if ch_closed c \<or> ch_probeDecidedUs c = 0 then 0
     else if ch_probeDecidedUs c \<le> nowUs then nowUs - ch_probeDecidedUs c else 0)"

definition clear_probe :: "channel \<Rightarrow> channel" where
  "clear_probe c = c\<lparr>ch_probeState := ProbeIdle, ch_probeAttempts := 0, ch_probeDecidedUs := 0\<rparr>"

text \<open>
  One fragment of a message; \<open>None\<close> where the loop continues without sending. The offset is a
  32-bit product: an index below the count keeps it below the payload's size.
\<close>

definition fragment_datagram :: "channel \<Rightarrow> outbound \<Rightarrow> u16 \<Rightarrow> bytes option" where
  "fragment_datagram c msg index =
    (let offset = ucast index * ch_fragBytes c in
     if ob_fragCount msg \<le> index \<or> length (ob_payload msg) \<le> unat offset then None
     else let fragSize = min (unat (ch_fragBytes c)) (length (ob_payload msg) - unat offset) in
       Some (encode_control_chunk_header (default_control_chunk_header
          \<lparr>cc_streamId := ch_txStreamId c, cc_messageSeq := ob_seq msg,
           cc_totalSize := of_nat (length (ob_payload msg)), cc_fragIndex := index,
           cc_fragCount := ob_fragCount msg, cc_fragOffset := offset, cc_fragSize := of_nat fragSize\<rparr>) @
        slice (ob_payload msg) (unat offset) fragSize))"

definition fragment_datagrams :: "channel \<Rightarrow> outbound \<Rightarrow> u16 list \<Rightarrow> bytes list" where
  "fragment_datagrams c msg indices = List.map_filter (fragment_datagram c msg) indices"

text \<open>\<open>SendFragments\<close>: all fragments, or those of a request, which also count as retransmits.\<close>

definition send_fragments :: "outbound \<Rightarrow> u16 list option \<Rightarrow> channel \<Rightarrow> channel sends" where
  "send_fragments msg only c =
    (if \<not> ch_hasSend c then (c, [])
     else let indices = (case only of None \<Rightarrow> map of_nat [0..<unat (ob_fragCount msg)] | Some is \<Rightarrow> is);
            out = fragment_datagrams c msg indices; n = of_nat (length out); st = ch_stats c in
       (c\<lparr>ch_stats := st\<lparr>cs_fragmentsSent := cs_fragmentsSent st + n,
          cs_fragmentRetransmits := cs_fragmentRetransmits st + (if only = None then 0 else n)\<rparr>\<rparr>, out))"

definition ack_packet :: "u32 \<Rightarrow> udp_packet_kind \<Rightarrow> u32 \<Rightarrow> u16 list \<Rightarrow> control_ack_packet" where
  "ack_packet streamId kind seq missing = \<lparr>ca_magic = kMagic, ca_kind = udp_packet_kind_code kind,
    ca_size = of_nat control_ack_packet_size, ca_streamId = streamId, ca_messageSeq = seq,
    ca_missingCount = of_nat (length missing), ca_reserved = 0,
    ca_missing = missing @ replicate (kUdpControlMaxMissingPerNack - length missing) 0\<rparr>"

text \<open>\<open>SendAckOrNack\<close>: at least one packet, and one more for every further 64 fragments.\<close>

function ack_packets :: "u32 \<Rightarrow> udp_packet_kind \<Rightarrow> u32 \<Rightarrow> u16 list \<Rightarrow> control_ack_packet list" where
  "ack_packets streamId kind seq missing =
    ack_packet streamId kind seq (take kUdpControlMaxMissingPerNack missing) #
    (if length missing \<le> kUdpControlMaxMissingPerNack then []
     else ack_packets streamId kind seq (drop kUdpControlMaxMissingPerNack missing))"
  by pat_completeness auto
termination
  by (relation "measure (\<lambda>(_, _, _, missing). length missing)") (auto simp: kUdpControlMaxMissingPerNack_def)

declare ack_packets.simps [simp del]

definition send_ack_or_nack :: "udp_packet_kind \<Rightarrow> u32 \<Rightarrow> u16 list \<Rightarrow> channel \<Rightarrow> bytes list" where
  "send_ack_or_nack kind seq missing c =
    (if \<not> ch_hasSend c then []
     else map encode_control_ack_packet (ack_packets (ch_rxStreamId c) kind seq missing))"

section \<open>Sending and receiving\<close>

definition queued_bytes :: "channel \<Rightarrow> nat" where
  "queued_bytes c = sum_list (map (\<lambda>m. length (ob_payload m)) (ch_txQueue c))"

definition send_limits_exceeded :: "nat \<Rightarrow> channel \<Rightarrow> bool" where
  "send_limits_exceeded len c \<longleftrightarrow> kMaxMessageBytes < len \<or>
    65535 < (len + unat (ch_fragBytes c) - 1) div unat (ch_fragBytes c) \<or>
    kMaxQueuedMessages \<le> length (ch_txQueue c) \<or> kMaxQueuedBytes < queued_bytes c + len"

definition new_outbound :: "u32 \<Rightarrow> bytes \<Rightarrow> u64 \<Rightarrow> channel \<Rightarrow> outbound" where
  "new_outbound seq payload nowUs c = \<lparr>ob_seq = seq, ob_payload = payload,
    ob_fragCount = of_nat ((length payload + unat (ch_fragBytes c) - 1) div unat (ch_fragBytes c)),
    ob_lastSendUs = nowUs, ob_attempts = 1\<rparr>"

definition send_message :: "bytes \<Rightarrow> u64 \<Rightarrow> channel \<Rightarrow> bool \<times> channel sends" where
  "send_message payload nowUs c =
    (if ch_closed c \<or> payload = [] then (False, c, [])
     else if \<not> ch_hasSend c then (False, c, [])
     else if send_limits_exceeded (length payload) c then (False, close_channel ResourceLimit c, [])
     else let msg = new_outbound (ch_nextTxSeq c) payload nowUs c;
            c = c\<lparr>ch_nextTxSeq := ch_nextTxSeq c + 1, ch_txQueue := ch_txQueue c @ [msg],
              ch_stats := (ch_stats c)\<lparr>cs_messagesSent := cs_messagesSent (ch_stats c) + 1\<rparr>\<rparr> in
       (True, if length (ch_txQueue c) = 1 then send_fragments (hd (ch_txQueue c)) None c else (c, [])))"

text \<open>\<open>Receive\<close> once its wait is over: a message that is ready is handed out, also after a close.\<close>

definition receive_message :: "channel \<Rightarrow> bytes option \<times> channel" where
  "receive_message c = (case ch_rxReady c of
     [] \<Rightarrow> (None, c) | m # ms \<Rightarrow> (Some m, c\<lparr>ch_rxReady := ms\<rparr>))"

section \<open>Inbound data\<close>

fun slot_put :: "u32 \<Rightarrow> 'a \<Rightarrow> (u32 \<times> 'a) list \<Rightarrow> (u32 \<times> 'a) list" where
  "slot_put k v [] = [(k, v)]"
| "slot_put k v ((k', v') # kvs) =
    (if k < k' then (k, v) # (k', v') # kvs
     else if k = k' then (k, v) # kvs
     else (k', v') # slot_put k v kvs)"

definition held_inbound_bytes :: "channel \<Rightarrow> nat" where
  "held_inbound_bytes c = sum_list (map (\<lambda>(_, s). length (ib_bytes s)) (ch_rxPending c)) +
    sum_list (map length (ch_rxReady c))"

definition inbound_limits_exceeded :: "control_chunk_header \<Rightarrow> channel \<Rightarrow> bool" where
  "inbound_limits_exceeded head c \<longleftrightarrow>
    kMaxQueuedMessages \<le> length (ch_rxPending c) + length (ch_rxReady c) \<or>
    kMaxQueuedBytes < held_inbound_bytes c + unat (cc_totalSize head)"

definition malformed_fragment :: "control_chunk_header \<Rightarrow> nat \<Rightarrow> bool" where
  "malformed_fragment head payloadLen \<longleftrightarrow>
    cc_fragCount head = 0 \<or> cc_totalSize head = 0 \<or> kMaxMessageBytes < unat (cc_totalSize head) \<or>
    cc_totalSize head < cc_fragOffset head \<or>
    unat (cc_totalSize head) < unat (cc_fragOffset head) + payloadLen \<or>
    payloadLen = 0 \<or> cc_fragCount head \<le> cc_fragIndex head"

definition new_inbound :: "control_chunk_header \<Rightarrow> u64 \<Rightarrow> inbound" where
  "new_inbound head nowUs = \<lparr>ib_totalSize = cc_totalSize head, ib_fragCount = cc_fragCount head,
    ib_bytes = replicate (unat (cc_totalSize head)) 0,
    ib_have = replicate (unat (cc_fragCount head)) False,
    ib_ranges = replicate (unat (cc_fragCount head)) (0, 0), ib_haveCount = 0,
    ib_lastProgressUs = nowUs, ib_lastNackUs = 0, ib_createdUs = nowUs\<rparr>"

definition store_fragment :: "control_chunk_header \<Rightarrow> bytes \<Rightarrow> u64 \<Rightarrow> inbound \<Rightarrow> inbound" where
  "store_fragment head payload nowUs slot =
    (let i = unat (cc_fragIndex head) in
     slot\<lparr>ib_bytes := overwrite (ib_bytes slot) (unat (cc_fragOffset head)) payload,
       ib_have := (ib_have slot)[i := True],
       ib_ranges := (ib_ranges slot)[i := (cc_fragOffset head, of_nat (length payload))],
       ib_haveCount := ib_haveCount slot + 1, ib_lastProgressUs := nowUs\<rparr>)"

text \<open>The final check of a message: its ranges, sorted, follow one another without gap or overlap.\<close>

fun covered_from :: "(u32 \<times> u32) list \<Rightarrow> nat \<Rightarrow> nat option" where
  "covered_from [] covered = Some covered"
| "covered_from (r # rs) covered =
    (if unat (fst r) \<noteq> covered then None else covered_from rs (covered + unat (snd r)))"

definition inbound_covered :: "inbound \<Rightarrow> bool" where
  "inbound_covered slot \<longleftrightarrow> covered_from (sort (ib_ranges slot)) 0 = Some (unat (ib_totalSize slot))"

definition deliver_message :: "u32 \<Rightarrow> inbound \<Rightarrow> channel \<Rightarrow> channel sends" where
  "deliver_message seq slot c =
    (let c = c\<lparr>ch_rxDeliveredSeq := seq, ch_rxReady := ch_rxReady c @ [ib_bytes slot],
           ch_stats := (ch_stats c)\<lparr>cs_messagesReceived := cs_messagesReceived (ch_stats c) + 1\<rparr>,
           ch_rxPending := filter (\<lambda>(k, _). seq < k) (ch_rxPending c)\<rparr> in
     (c, send_ack_or_nack UControlAck seq [] c))"

definition accept_fragment :: "control_chunk_header \<Rightarrow> bytes \<Rightarrow> u64 \<Rightarrow> inbound \<Rightarrow> channel \<Rightarrow> channel sends" where
  "accept_fragment head payload nowUs slot c =
    (let seq = cc_messageSeq head;
         c = c\<lparr>ch_rxPending := slot_put seq slot (ch_rxPending c)\<rparr> in
     if ib_fragCount slot \<noteq> cc_fragCount head \<or> ib_totalSize slot \<noteq> cc_totalSize head then (c, [])
     else if ib_fragCount slot \<le> cc_fragIndex head \<or> ib_have slot ! unat (cc_fragIndex head) then (c, [])
     else let slot = store_fragment head payload nowUs slot;
            c = c\<lparr>ch_rxPending := slot_put seq slot (ch_rxPending c)\<rparr> in
     if ib_haveCount slot < ib_fragCount slot then (c, [])
     else if \<not> inbound_covered slot then (close_channel MalformedMessage c, [])
     else deliver_message seq slot c)"

definition handle_data :: "control_chunk_header \<Rightarrow> bytes \<Rightarrow> u64 \<Rightarrow> channel \<Rightarrow> channel sends" where
  "handle_data head payload nowUs c =
    (let seq = cc_messageSeq head in
     if seq \<le> ch_rxDeliveredSeq c then (c, send_ack_or_nack UControlAck seq [] c)
     else if malformed_fragment head (length payload) then (c, [])
     else case map_of (ch_rxPending c) seq of
       Some slot \<Rightarrow> accept_fragment head payload nowUs slot c
     | None \<Rightarrow>
         if inbound_limits_exceeded head c then (close_channel ResourceLimit c, [])
         else accept_fragment head payload nowUs (new_inbound head nowUs) c)"

definition handle_ack :: "control_ack_packet \<Rightarrow> u64 \<Rightarrow> channel \<Rightarrow> channel sends" where
  "handle_ack packet nowUs c =
    (if ch_probeState c = ProbePending \<and> ca_messageSeq packet = ch_probeSeq c \<and>
        ca_kind packet = udp_packet_kind_code UControlAck
     then (c\<lparr>ch_probeState := ProbeAlive, ch_probeDecidedUs := nowUs\<rparr>, [])
     else case ch_txQueue c of
       [] \<Rightarrow> (c, [])
     | msg # rest \<Rightarrow>
         if ob_seq msg \<noteq> ca_messageSeq packet then (c, [])
         else if ca_kind packet = udp_packet_kind_code UControlNack
         then let missing = take (unat (ca_missingCount packet)) (ca_missing packet);
                (c, out) = (if missing = [] then (c, []) else send_fragments msg (Some missing) c) in
           (c\<lparr>ch_txQueue := msg\<lparr>ob_lastSendUs := nowUs\<rparr> # rest\<rparr>, out)
         else let c = c\<lparr>ch_lastAckedTxSeq := ca_messageSeq packet, ch_txQueue := rest\<rparr> in
           (case rest of
             [] \<Rightarrow> (c, [])
           | msg # later \<Rightarrow>
               let msg = msg\<lparr>ob_lastSendUs := nowUs, ob_attempts := 1\<rparr> in
               send_fragments msg None (c\<lparr>ch_txQueue := msg # later\<rparr>)))"

definition is_control_datagram :: "bytes \<Rightarrow> bool" where
  "is_control_datagram data \<longleftrightarrow> 6 \<le> length data \<and>
    of_nat (le_value (take 4 data)) = kMagic \<and>
    (of_nat (le_value (slice data 4 2)) :: u16) \<in>
      {udp_packet_kind_code UControlData, udp_packet_kind_code UControlAck,
       udp_packet_kind_code UControlNack}"

definition on_packet :: "bytes \<Rightarrow> u64 \<Rightarrow> channel \<Rightarrow> bool \<times> channel sends" where
  "on_packet data nowUs c =
    (if \<not> is_control_datagram data then (False, c, [])
     else if ch_closed c then (True, c, [])
     else if of_nat (le_value (slice data 4 2)) = udp_packet_kind_code UControlData
     then (True,
       if length data < control_chunk_header_size then (c, [])
       else let head = decode_control_chunk_header data;
              fragSize = unat (cc_fragSize head) in
         if cc_streamId head \<noteq> ch_rxStreamId c then (c, [])
         else if length data - control_chunk_header_size < fragSize then (c, [])
         else handle_data head (slice data control_chunk_header_size fragSize) nowUs c)
     else (True,
       if length data < control_ack_packet_size then (c, [])
       else let packet = decode_control_ack_packet data in
         if ca_streamId packet \<noteq> ch_txStreamId c then (c, [])
         else if kUdpControlMaxMissingPerNack < unat (ca_missingCount packet) then (c, [])
         else handle_ack packet nowUs c))"

section \<open>The clock\<close>

definition tick_probe :: "u64 \<Rightarrow> channel \<Rightarrow> channel sends" where
  "tick_probe nowUs c =
    (if ch_probeState c = ProbePending \<and> ch_probeIntervalUs c \<le> nowUs - ch_probeLastSendUs c
     then let c = c\<lparr>ch_probeAttempts := ch_probeAttempts c + 1\<rparr> in
       if ch_probeMaxAttempts c < ch_probeAttempts c
       then (c\<lparr>ch_probeState := ProbeDead, ch_probeDecidedUs := nowUs\<rparr>, [])
       else (c\<lparr>ch_probeLastSendUs := nowUs\<rparr>, send_probe_chunk c)
     else (c, []))"

definition tick_expire :: "u64 \<Rightarrow> channel \<Rightarrow> channel" where
  "tick_expire nowUs c =
    c\<lparr>ch_rxPending := filter (\<lambda>(_, s). \<not> kIncompleteLifetimeUs \<le> nowUs - ib_createdUs s) (ch_rxPending c)\<rparr>"

text \<open>The retransmission; \<open>None\<close> when the attempts are used up, which closes the channel.\<close>

definition tick_retransmit :: "u64 \<Rightarrow> channel \<Rightarrow> channel sends option" where
  "tick_retransmit nowUs c = (case ch_txQueue c of
     [] \<Rightarrow> Some (c, [])
   | msg # rest \<Rightarrow>
       if tm_retransmitIntervalUs (ch_timings c) \<le> nowUs - ob_lastSendUs msg
       then if tm_maxAttempts (ch_timings c) < ob_attempts msg + 1 then None
         else let msg = msg\<lparr>ob_attempts := ob_attempts msg + 1, ob_lastSendUs := nowUs\<rparr> in
           Some (send_fragments msg None (c\<lparr>ch_txQueue := msg # rest\<rparr>))
       else Some (c, []))"

definition missing_fragments :: "inbound \<Rightarrow> u16 list" where
  "missing_fragments slot =
    map of_nat (filter (\<lambda>i. \<not> ib_have slot ! i) [0..<unat (ib_fragCount slot)])"

definition nack_due :: "u64 \<Rightarrow> channel \<Rightarrow> inbound \<Rightarrow> bool" where
  "nack_due nowUs c slot \<longleftrightarrow> ib_fragCount slot \<noteq> 0 \<and> ib_haveCount slot < ib_fragCount slot \<and>
    tm_nackDelayUs (ch_timings c) \<le> nowUs - ib_lastProgressUs slot \<and>
    (ib_lastNackUs slot = 0 \<or> tm_nackIntervalUs (ch_timings c) \<le> nowUs - ib_lastNackUs slot) \<and>
    missing_fragments slot \<noteq> []"

definition tick_nacks :: "u64 \<Rightarrow> channel \<Rightarrow> channel sends" where
  "tick_nacks nowUs c =
    (let due = filter (\<lambda>(_, s). nack_due nowUs c s) (ch_rxPending c) in
     (c\<lparr>ch_rxPending := map (\<lambda>(k, s). (k, if nack_due nowUs c s then s\<lparr>ib_lastNackUs := nowUs\<rparr> else s))
           (ch_rxPending c),
        ch_stats := (ch_stats c)\<lparr>cs_nacksSent := cs_nacksSent (ch_stats c) + of_nat (length due)\<rparr>\<rparr>,
      concat (map (\<lambda>(k, s). send_ack_or_nack UControlNack k (missing_fragments s) c) due)))"

definition tick :: "u64 \<Rightarrow> channel \<Rightarrow> channel sends" where
  "tick nowUs c =
    (let (c, out1) = tick_probe nowUs c; c = tick_expire nowUs c in
     case tick_retransmit nowUs c of
       None \<Rightarrow>
         (let msg = hd (ch_txQueue c) in
          ((close_channel PeerLost c)
             \<lparr>ch_txQueue := msg\<lparr>ob_attempts := ob_attempts msg + 1\<rparr> # tl (ch_txQueue c)\<rparr>, out1))
     | Some (c, out2) \<Rightarrow> let (c, out3) = tick_nacks nowUs c in (c, out1 @ out2 @ out3))"

end
