(* ===== verification/ControlNetwork.thy ===== *)
theory ControlNetwork
  imports ControlChannel VideoSender "HOL-Library.Sublist"
begin

text \<open>
  Two control channels and the network between them. The network may lose, repeat, reorder and
  delay datagrams for ever, and mixes in traffic of other protocols and streams. The invariant
  relates the sender's queue, the datagrams ever sent and the receiver's slots to the messages
  accepted; from it every message arrives intact, once and in order, and what has been
  acknowledged has been delivered.
\<close>

section \<open>Fragments on the wire\<close>

definition frag_count :: "u32 \<Rightarrow> bytes \<Rightarrow> nat" where
  "frag_count F m = (length m + unat F - 1) div unat F"

text \<open>What \<open>Send\<close> accepts.\<close>

definition message_ok :: "u32 \<Rightarrow> bytes \<Rightarrow> bool" where
  "message_ok F m \<longleftrightarrow> m \<noteq> [] \<and> length m \<le> kMaxMessageBytes \<and> frag_count F m \<le> 65535"

definition fragment_header :: "u32 \<Rightarrow> u32 \<Rightarrow> u32 \<Rightarrow> bytes \<Rightarrow> nat \<Rightarrow> control_chunk_header" where
  "fragment_header s F seq m i = default_control_chunk_header
     \<lparr>cc_streamId := s, cc_messageSeq := seq, cc_totalSize := of_nat (length m),
      cc_fragIndex := of_nat i, cc_fragCount := of_nat (frag_count F m),
      cc_fragOffset := of_nat (i * unat F), cc_fragSize := of_nat (chunk_size (length m) (unat F) i)\<rparr>"

definition fragment_bytes :: "u32 \<Rightarrow> u32 \<Rightarrow> u32 \<Rightarrow> bytes \<Rightarrow> nat \<Rightarrow> bytes" where
  "fragment_bytes s F seq m i =
    encode_control_chunk_header (fragment_header s F seq m i) @ chunk_bytes m (unat F) i"

definition probe_header :: "u32 \<Rightarrow> u32 \<Rightarrow> control_chunk_header" where
  "probe_header s seq = default_control_chunk_header
     \<lparr>cc_streamId := s, cc_messageSeq := seq, cc_fragIndex := 0, cc_fragCount := 1,
      cc_fragOffset := 0, cc_totalSize := 1\<rparr>"

definition probe_bytes :: "u32 \<Rightarrow> u32 \<Rightarrow> bytes" where
  "probe_bytes s seq = encode_control_chunk_header (probe_header s seq) @ [0]"

lemma fragment_layout:
  assumes "0 < unat F" and "message_ok F m"
  shows "frame_layout (length m) (unat F) (frag_count F m) ((frag_count F m + 8 - 1) div 8)"
  using assms
  by (simp add: frame_layout_def message_ok_def frag_count_def kUdpVideoFecGroupSize_def)

lemma fragment_sizes:
  assumes "0 < unat F" and "message_ok F m" and "i < frag_count F m"
  shows "i * unat F < length m" "0 < chunk_size (length m) (unat F) i"
    "i * unat F + chunk_size (length m) (unat F) i \<le> length m"
    "unat (cc_fragOffset (fragment_header s F seq m i)) = i * unat F"
    "unat (cc_fragSize (fragment_header s F seq m i)) = chunk_size (length m) (unat F) i"
    "unat (cc_totalSize (fragment_header s F seq m i)) = length m"
    "unat (cc_fragIndex (fragment_header s F seq m i)) = i"
    "unat (cc_fragCount (fragment_header s F seq m i)) = frag_count F m"
    "length (chunk_bytes m (unat F) i) = chunk_size (length m) (unat F) i"
proof -
  note lay = fragment_layout [OF assms(1,2)]
  note chunk = frame_layout_chunk [OF lay assms(3)]
  have small: "length m < 4294967296" "frag_count F m < 65536"
    using assms(2) by (auto simp: message_ok_def kMaxMessageBytes_def)
  show "i * unat F < length m" "0 < chunk_size (length m) (unat F) i"
    "i * unat F + chunk_size (length m) (unat F) i \<le> length m"
    using chunk by simp_all
  then show "unat (cc_fragOffset (fragment_header s F seq m i)) = i * unat F"
    "unat (cc_fragSize (fragment_header s F seq m i)) = chunk_size (length m) (unat F) i"
    "unat (cc_totalSize (fragment_header s F seq m i)) = length m"
    "unat (cc_fragIndex (fragment_header s F seq m i)) = i"
    "unat (cc_fragCount (fragment_header s F seq m i)) = frag_count F m"
    using small assms(3)
    by (simp_all add: fragment_header_def unat_of_nat_small del: of_nat_mult)
  show "length (chunk_bytes m (unat F) i) = chunk_size (length m) (unat F) i"
    by (rule length_chunk_bytes [OF lay assms(3)])
qed

text \<open>The fragments of a queued message are these.\<close>

lemma fragment_datagram_eq:
  assumes F: "0 < unat (ch_fragBytes c)" and ok: "message_ok (ch_fragBytes c) (ob_payload msg)"
    and count: "ob_fragCount msg = of_nat (frag_count (ch_fragBytes c) (ob_payload msg))"
    and some: "fragment_datagram c msg index = Some d"
  shows "unat index < frag_count (ch_fragBytes c) (ob_payload msg)"
    and "d = fragment_bytes (ch_txStreamId c) (ch_fragBytes c) (ob_seq msg) (ob_payload msg) (unat index)"
proof -
  let ?F = "ch_fragBytes c" and ?m = "ob_payload msg" and ?i = "unat index"
  have small: "length ?m < 4294967296" "frag_count ?F ?m < 65536"
    using ok by (auto simp: message_ok_def kMaxMessageBytes_def)
  have "\<not> ob_fragCount msg \<le> index"
    using some by (auto simp: fragment_datagram_def Let_def split: if_splits)
  then show i: "?i < frag_count ?F ?m"
    unfolding count using small by (simp add: word_le_nat_alt unat_of_nat_small)
  note sizes = fragment_sizes [OF F ok i]
  have idx: "unat (ucast index :: u32) = ?i"
    using unat_bounds(2) [of index] by (simp add: unsigned_ucast_eq take_bit_nat_eq_self)
  have off: "ucast index * ?F = of_nat (?i * unat ?F)"
    by (simp add: word_unat_eq_iff unat_word_ariths idx unat_of_nat del: of_nat_mult)
  then have unat_off: "unat (ucast index * ?F) = ?i * unat ?F"
    using sizes(1) small(1) by (simp add: unat_of_nat_small del: of_nat_mult)
  have "index = of_nat ?i" by simp
  then show "d = fragment_bytes (ch_txStreamId c) ?F (ob_seq msg) ?m ?i"
    using some
    by (auto simp: fragment_datagram_def Let_def fragment_bytes_def fragment_header_def count chunk_bytes_def
        chunk_size_def unat_off [unfolded off] off split: if_splits simp del: of_nat_mult)
qed

section \<open>Reading a control datagram\<close>

lemma control_chunk_prefix:
  "6 \<le> length (encode_control_chunk_header h @ p)"
  "of_nat (le_value (take 4 (encode_control_chunk_header h @ p))) = cc_magic h"
  "of_nat (le_value (take 4 (encode_control_chunk_header h))) = cc_magic h"
  "of_nat (le_value (slice (encode_control_chunk_header h @ p) 4 2)) = cc_kind h"
  by (simp_all add: encode_control_chunk_header_def control_chunk_layout_def slice_def wire_simps)

lemma control_ack_prefix:
  "of_nat (le_value (take 4 (encode_control_ack_packet h))) = ca_magic h"
  "of_nat (le_value (slice (encode_control_ack_packet h) 4 2)) = ca_kind h"
  by (simp_all add: encode_control_ack_packet_def control_ack_layout_def slice_def wire_simps)

lemma on_packet_data:
  assumes "cc_magic h = kMagic" and "cc_kind h = udp_packet_kind_code UControlData"
  shows "on_packet (encode_control_chunk_header h @ p) t c =
    (True, if ch_closed c \<or> cc_streamId h \<noteq> ch_rxStreamId c \<or> length p < unat (cc_fragSize h) then (c, [])
      else handle_data h (take (unat (cc_fragSize h)) p) t c)"
proof -
  define d where "d = encode_control_chunk_header h @ p"
  have facts: "length d = 32 + length p" "decode_control_chunk_header d = h"
    "of_nat (le_value (slice d 4 2)) = cc_kind h" "of_nat (le_value (take 4 d)) = cc_magic h"
    "slice d 32 n = take n p" for n
    by (simp_all add: d_def control_chunk_prefix decode_encode_control_chunk_header)
      (simp add: slice_def)
  then have "is_control_datagram d"
    using assms by (simp only: is_control_datagram_def) simp
  then have "on_packet d t c =
    (True, if ch_closed c \<or> cc_streamId h \<noteq> ch_rxStreamId c \<or> length p < unat (cc_fragSize h) then (c, [])
      else handle_data h (take (unat (cc_fragSize h)) p) t c)"
    unfolding on_packet_def facts(2,3) assms(2) control_chunk_header_size facts(1,5) Let_def by simp
  then show ?thesis by (simp only: d_def)
qed

lemma on_packet_fragment:
  assumes "0 < unat F" and "message_ok F m" and "i < frag_count F m"
  shows "on_packet (fragment_bytes s F seq m i) t c =
    (True, if ch_closed c \<or> s \<noteq> ch_rxStreamId c then (c, [])
      else handle_data (fragment_header s F seq m i) (chunk_bytes m (unat F) i) t c)"
proof -
  have head: "cc_magic (fragment_header s F seq m i) = kMagic"
    "cc_kind (fragment_header s F seq m i) = udp_packet_kind_code UControlData"
    "cc_streamId (fragment_header s F seq m i) = s"
    by (simp_all add: fragment_header_def default_control_chunk_header_def)
  show ?thesis
    unfolding fragment_bytes_def on_packet_data [OF head(1,2)] head(3) fragment_sizes(5,9) [OF assms]
    using fragment_sizes(9) [OF assms] by simp
qed

lemma on_packet_probe:
  "on_packet (probe_bytes s seq) t c =
    (True, if ch_closed c \<or> s \<noteq> ch_rxStreamId c then (c, []) else handle_data (probe_header s seq) [] t c)"
proof -
  have head: "cc_magic (probe_header s seq) = kMagic"
    "cc_kind (probe_header s seq) = udp_packet_kind_code UControlData"
    "cc_streamId (probe_header s seq) = s" "cc_fragSize (probe_header s seq) = 0"
    by (simp_all add: probe_header_def default_control_chunk_header_def)
  show ?thesis unfolding probe_bytes_def on_packet_data [OF head(1,2)] head by simp
qed

lemma on_packet_ack:
  assumes "kind \<in> {UControlAck, UControlNack}" and "length missing \<le> kUdpControlMaxMissingPerNack"
  shows "on_packet (encode_control_ack_packet (ack_packet s kind seq missing)) t c =
    (True, if ch_closed c \<or> s \<noteq> ch_txStreamId c then (c, [])
      else handle_ack (ack_packet s kind seq missing) t c)"
proof -
  let ?a = "ack_packet s kind seq missing"
  have full: "length (ca_missing ?a) = kUdpControlMaxMissingPerNack"
    using assms(2) by (simp add: ack_packet_def)
  have head: "ca_magic ?a = kMagic" "ca_kind ?a = udp_packet_kind_code kind" "ca_streamId ?a = s"
    "unat (ca_missingCount (ack_packet r kind seq missing)) = length missing" for r
    using assms(2) by (simp_all add: ack_packet_def kUdpControlMaxMissingPerNack_def unat_of_nat_small)
  define d where "d = encode_control_ack_packet ?a"
  have facts: "length d = 148" "decode_control_ack_packet d = ?a"
    "of_nat (le_value (slice d 4 2)) = udp_packet_kind_code kind" "of_nat (le_value (take 4 d)) = kMagic"
    using length_encode_control_ack_packet [OF full] decode_encode_control_ack_packet [OF full, of "[]"]
    by (simp_all add: d_def control_ack_prefix head)
  have control: "is_control_datagram d"
    using assms(1) facts by (simp only: is_control_datagram_def) auto
  have "udp_packet_kind_code kind \<noteq> udp_packet_kind_code UControlData" using assms(1) by auto
  then have "on_packet d t c =
    (True, if ch_closed c \<or> s \<noteq> ch_txStreamId c then (c, []) else handle_ack ?a t c)"
    using control assms(2) unfolding on_packet_def facts control_ack_packet_size Let_def head by simp
  then show ?thesis by (simp only: d_def)
qed

section \<open>The receiver's slots\<close>

definition slot_ok :: "u32 \<Rightarrow> bytes \<Rightarrow> inbound \<Rightarrow> bool" where
  "slot_ok F m slot \<longleftrightarrow>
    ib_totalSize slot = of_nat (length m) \<and> ib_fragCount slot = of_nat (frag_count F m) \<and>
    length (ib_bytes slot) = length m \<and> length (ib_have slot) = frag_count F m \<and>
    length (ib_ranges slot) = frag_count F m \<and> unat (ib_haveCount slot) = count_true (ib_have slot) \<and>
    (\<forall>i<frag_count F m. ib_have slot ! i \<longrightarrow>
       chunk_bytes (ib_bytes slot) (unat F) i = chunk_bytes m (unat F) i \<and>
       ib_ranges slot ! i = (of_nat (i * unat F), of_nat (chunk_size (length m) (unat F) i)))"

lemma slot_ok_new:
  assumes "0 < unat F" and "message_ok F m" and "i < frag_count F m"
  shows "slot_ok F m (new_inbound (fragment_header s F seq m i) t)"
  using fragment_sizes [OF assms]
  by (simp add: slot_ok_def new_inbound_def count_true_def)
    (simp add: fragment_header_def)

lemma slot_ok_store:
  assumes "0 < unat F" and "message_ok F m" and "i < frag_count F m"
    and ok: "slot_ok F m slot" and fresh: "\<not> ib_have slot ! i"
  shows "slot_ok F m (store_fragment (fragment_header s F seq m i) (chunk_bytes m (unat F) i) t slot)"
    and "count_true (ib_have (store_fragment (fragment_header s F seq m i) (chunk_bytes m (unat F) i) t slot)) =
      count_true (ib_have slot) + 1"
proof -
  note sizes = fragment_sizes [OF assms(1-3)] and lay = fragment_layout [OF assms(1,2)]
  have len: "length (ib_bytes slot) = length m" "length (ib_have slot) = frag_count F m"
    "length (ib_ranges slot) = frag_count F m" "unat (ib_haveCount slot) = count_true (ib_have slot)"
    using ok by (auto simp: slot_ok_def)
  show count: "count_true (ib_have (store_fragment (fragment_header s F seq m i) (chunk_bytes m (unat F) i) t slot)) =
      count_true (ib_have slot) + 1"
    using count_true_update [of i "ib_have slot"] fresh len assms(3) sizes(7)
    by (simp add: store_fragment_def Let_def)
  have "count_true (ib_have slot) < frag_count F m"
    using count_true_full [of "ib_have slot"] len fresh assms(3)
    by (metis count_true_def le_neq_implies_less length_filter_le)
  moreover have "frag_count F m \<le> 65535" using assms(2) by (simp add: message_ok_def)
  ultimately have hc: "unat (ib_haveCount slot + 1) = count_true (ib_have slot) + 1"
    using len(4) by (simp add: unat_word_ariths)
  have off: "cc_fragOffset (fragment_header s F seq m i) = of_nat (i * unat F)"
    by (simp add: fragment_header_def)
  have chunks: "chunk_bytes (overwrite (ib_bytes slot) (i * unat F) (chunk_bytes m (unat F) i)) (unat F) j =
      (if j = i then chunk_bytes m (unat F) i else chunk_bytes (ib_bytes slot) (unat F) j)"
    if "j < frag_count F m" for j
    using chunk_bytes_overwrite [OF lay assms(3) that len(1) sizes(9)] .
  have room: "length (overwrite (ib_bytes slot) (i * unat F) (chunk_bytes m (unat F) i)) = length m"
    using sizes(3,9) len(1) by (simp add: length_overwrite)
  have uoff: "unat (of_nat (i * unat F) :: u32) = i * unat F"
    using sizes(4) [of s seq] unfolding off .
  show "slot_ok F m (store_fragment (fragment_header s F seq m i) (chunk_bytes m (unat F) i) t slot)"
    using ok hc count chunks room sizes(7,9) off uoff len assms(3)
    unfolding slot_ok_def store_fragment_def Let_def
    by (auto simp: nth_list_update simp del: of_nat_mult)
qed

lemma covered_from_chunks:
  assumes "frame_layout len F n G" and "k < n" and "len < 4294967296"
  shows "covered_from (map (\<lambda>i. (of_nat (i * F), of_nat (chunk_size len F i))) [k..<n]) (k * F) = Some len"
  using assms(2)
proof (induction "n - k" arbitrary: k)
  case (Suc d)
  note chunk = frame_layout_chunk [OF assms(1) Suc.prems]
  have head: "[k..<n] = k # [Suc k..<n]" using Suc.prems by (rule upt_conv_Cons)
  have vals: "unat (of_nat (k * F) :: u32) = k * F" "unat (of_nat (chunk_size len F k) :: u32) = chunk_size len F k"
    using chunk(4) assms(3) by (simp_all add: unat_of_nat_small del: of_nat_mult)
  show ?case
  proof (cases "Suc k < n")
    case True
    have "Suc k * F < len" using frame_layout_chunk(1) [OF assms(1) True] .
    then have "chunk_size len F k = F" by (simp add: chunk_size_def)
    moreover have "d = n - Suc k" using Suc.hyps by simp
    ultimately show ?thesis using Suc.hyps(1) [of "Suc k"] True vals
      unfolding head by (simp add: add.commute del: of_nat_mult)
  next
    case False
    then have n: "n = Suc k" using Suc.prems by simp
    have "n = (len + F - 1) div F" "0 < F" using assms(1) by (auto simp: frame_layout_def)
    then have "len \<le> Suc k * F" using ceil_div_bounds(1) [of F len] n by simp
    then have "k * F + chunk_size len F k = len" using chunk(1) by (simp add: chunk_size_def)
    then show ?thesis using vals unfolding head n by (simp del: of_nat_mult)
  qed
qed simp

lemma sorted_chunk_ranges:
  assumes "frame_layout len F n G" and "len < 4294967296"
  shows "sorted (map (\<lambda>i. (of_nat (i * F) :: u32, of_nat (chunk_size len F i) :: u32)) [0..<n])"
proof -
  have "(of_nat (i * F) :: u32, of_nat (chunk_size len F i) :: u32) \<le> (of_nat (j * F), of_nat (chunk_size len F j))"
    if "i < j" "j < n" for i j
  proof -
    have F: "0 < F" using assms(1) by (simp add: frame_layout_def)
    have "i * F < j * F" using that(1) F by simp
    moreover have "j * F < len" using frame_layout_chunk(1) [OF assms(1) that(2)] .
    ultimately have small: "i * F < 4294967296" "j * F < 4294967296" "i * F < j * F"
      using assms(2) by linarith+
    then have "(of_nat (i * F) :: u32) < of_nat (j * F)"
      unfolding word_less_nat_alt unat_of_nat_small(1) [OF small(1)] unat_of_nat_small(1) [OF small(2)] by simp
    then show ?thesis by (simp add: less_eq_prod_def del: of_nat_mult)
  qed
  then have "i < j \<Longrightarrow> j < length [0..<n] \<Longrightarrow>
      map (\<lambda>i. (of_nat (i * F) :: u32, of_nat (chunk_size len F i) :: u32)) [0..<n] ! i \<le>
      map (\<lambda>i. (of_nat (i * F) :: u32, of_nat (chunk_size len F i) :: u32)) [0..<n] ! j" for i j
    by simp
  then show ?thesis unfolding sorted_wrt_iff_nth_less by auto
qed

text \<open>A complete slot holds the message, and its ranges cover it.\<close>

lemma slot_ok_complete:
  assumes F: "0 < unat F" and m: "message_ok F m" and ok: "slot_ok F m slot"
    and full: "\<not> ib_haveCount slot < ib_fragCount slot"
  shows "ib_bytes slot = m" and "inbound_covered slot"
proof -
  let ?n = "frag_count F m" and ?F = "unat F"
  note lay = fragment_layout [OF F m]
  have n: "0 < ?n" "?n \<le> 65535" "length m < 4294967296"
    using m ceil_div_bounds(3) [OF F, of "length m"]
    by (auto simp: message_ok_def frag_count_def kMaxMessageBytes_def)
  then have "unat (ib_fragCount slot) = ?n"
    using ok by (simp add: slot_ok_def unat_of_nat_small)
  then have "?n \<le> count_true (ib_have slot)"
    using full ok by (simp add: slot_ok_def word_less_nat_alt)
  moreover have "count_true (ib_have slot) \<le> ?n"
    using ok by (auto simp: slot_ok_def count_true_def intro: le_trans [OF length_filter_le])
  ultimately have all: "ib_have slot ! i" if "i < ?n" for i
    using count_true_full [of "ib_have slot"] ok that by (simp add: slot_ok_def)
  show "ib_bytes slot = m"
    using ok all by (intro payload_eq_chunks [OF lay]) (auto simp: slot_ok_def)
  have "ib_ranges slot = map (\<lambda>i. (of_nat (i * ?F), of_nat (chunk_size (length m) ?F i))) [0..<?n]"
    using ok all by (intro nth_equalityI) (auto simp: slot_ok_def)
  moreover have "covered_from (map (\<lambda>i. (of_nat (i * ?F), of_nat (chunk_size (length m) ?F i))) [0..<?n]) 0 =
      Some (length m)"
    using covered_from_chunks [OF lay n(1,3)] by simp
  moreover have "unat (ib_totalSize slot) = length m"
    using ok n(3) by (simp add: slot_ok_def unat_of_nat_small)
  ultimately show "inbound_covered slot"
    by (simp only: inbound_covered_def sorted_sort_id [OF sorted_chunk_ranges [OF lay n(3)]])
qed

section \<open>The receiving half\<close>

declare of_nat_Suc [simp del]

text \<open>Acknowledgements and requests a receiver of stream \<open>s\<close> may have sent after \<open>d\<close> deliveries.\<close>

definition ack_form :: "u32 \<Rightarrow> nat \<Rightarrow> bytes \<Rightarrow> bool" where
  "ack_form s d x \<longleftrightarrow> (\<exists>kind seq missing. kind \<in> {UControlAck, UControlNack} \<and>
     length missing \<le> kUdpControlMaxMissingPerNack \<and>
     x = encode_control_ack_packet (ack_packet s kind seq missing) \<and>
     (kind = UControlAck \<longrightarrow> unat seq \<le> d))"

lemma ack_form_mono: "ack_form s d x \<Longrightarrow> d \<le> d' \<Longrightarrow> ack_form s d' x"
proof -
  assume "ack_form s d x" and le: "d \<le> d'"
  then obtain kind seq missing where "kind \<in> {UControlAck, UControlNack}"
    "length missing \<le> kUdpControlMaxMissingPerNack" "kind = UControlAck \<longrightarrow> unat seq \<le> d"
    and x: "x = encode_control_ack_packet (ack_packet s kind seq missing)"
    unfolding ack_form_def by blast
  then show ?thesis using le unfolding ack_form_def x
    by (intro exI [of _ kind] exI [of _ seq] exI [of _ missing]) auto
qed

lemma ack_packets_forms:
  "p \<in> set (ack_packets s kind seq missing) \<Longrightarrow>
   \<exists>ms. length ms \<le> kUdpControlMaxMissingPerNack \<and> p = ack_packet s kind seq ms"
proof (induction s kind seq missing rule: ack_packets.induct)
  case (1 s kind seq missing)
  then show ?case
    by (subst (asm) (2) ack_packets.simps)
      (fastforce split: if_splits intro: exI [of _ "take kUdpControlMaxMissingPerNack missing"])
qed

lemma send_ack_or_nack_forms:
  assumes "x \<in> set (send_ack_or_nack kind seq missing c)" and "kind \<in> {UControlAck, UControlNack}"
    and "kind = UControlAck \<Longrightarrow> unat seq \<le> d"
  shows "ack_form (ch_rxStreamId c) d x"
  using assms ack_packets_forms [of _ "ch_rxStreamId c" kind seq missing]
  unfolding send_ack_or_nack_def ack_form_def by (fastforce split: if_splits)

definition receiver_ok :: "u32 \<Rightarrow> u32 \<Rightarrow> bytes list \<Rightarrow> nat \<Rightarrow> channel \<Rightarrow> bool" where
  "receiver_ok s F M d c \<longleftrightarrow> ch_rxStreamId c = s \<and> ch_rxDeliveredSeq c = of_nat d \<and> d \<le> length M \<and>
     (\<forall>(k, slot) \<in> set (ch_rxPending c).
        d < unat k \<and> unat k \<le> length M \<and> slot_ok F (M ! (unat k - 1)) slot)"

definition same_rx :: "channel \<Rightarrow> channel \<Rightarrow> bool" where
  "same_rx c c' \<longleftrightarrow> ch_rxStreamId c' = ch_rxStreamId c \<and> ch_rxDeliveredSeq c' = ch_rxDeliveredSeq c \<and>
     ch_rxPending c' = ch_rxPending c \<and> ch_rxReady c' = ch_rxReady c"

definition same_tx :: "channel \<Rightarrow> channel \<Rightarrow> bool" where
  "same_tx c c' \<longleftrightarrow> ch_txStreamId c' = ch_txStreamId c \<and> ch_fragBytes c' = ch_fragBytes c \<and>
     ch_nextTxSeq c' = ch_nextTxSeq c \<and> ch_txQueue c' = ch_txQueue c \<and>
     ch_lastAckedTxSeq c' = ch_lastAckedTxSeq c \<and> ch_probeState c' = ch_probeState c \<and>
     ch_probeSeq c' = ch_probeSeq c"

lemma receiver_ok_same: "receiver_ok s F M d c \<Longrightarrow> same_rx c c' \<Longrightarrow> receiver_ok s F M d c'"
  by (simp add: receiver_ok_def same_rx_def)

lemma receiver_ok_append:
  "receiver_ok s F M d c \<Longrightarrow> receiver_ok s F (M @ ms) d c"
  by (fastforce simp: receiver_ok_def nth_append)

lemma set_slot_put: "set (slot_put k v kvs) \<subseteq> insert (k, v) (set kvs)"
  by (induction k v kvs rule: slot_put.induct) auto

lemma send_fragments_same [simp]:
  "same_rx c (fst (send_fragments msg only c))" "same_tx c (fst (send_fragments msg only c))"
  "ch_closeReason (fst (send_fragments msg only c)) = ch_closeReason c"
  by (simp_all add: send_fragments_def same_rx_def same_tx_def Let_def)

text \<open>
  One fragment of message number \<open>j\<close> (from 0), where only messages up to the number delivered
  are on the wire: the receiver stays well-formed and delivers the next message or nothing.
\<close>

lemma accept_fragment_ok:
  assumes F: "0 < unat F" and M: "message_ok F m" "m = M ! d" "d < length M" "length M < 4294967295"
    and i: "i < frag_count F m" and ok: "receiver_ok s F M d c" and slot: "slot_ok F m slot"
    and res: "accept_fragment (fragment_header s F (of_nat (Suc d)) m i) (chunk_bytes m (unat F) i) t slot c = (c', out)"
  shows "same_tx c c'" and "ch_closeReason c' = ch_closeReason c"
    and "\<exists>d'. receiver_ok s F M d' c' \<and> (\<forall>x\<in>set out. ack_form s d' x) \<and>
      (d' = d \<and> ch_rxReady c' = ch_rxReady c \<or> d' = Suc d \<and> ch_rxReady c' = ch_rxReady c @ [m])"
proof -
  let ?h = "fragment_header s F (of_nat (Suc d)) m i" and ?p = "chunk_bytes m (unat F) i"
  have seq: "cc_messageSeq ?h = of_nat (Suc d)" by (simp add: fragment_header_def)
  have key: "unat (of_nat (Suc d) :: u32) = Suc d" using M(3,4) by (simp add: unat_of_nat_small)
  note sizes = fragment_sizes [OF F M(1) i]
  let ?put = "\<lambda>sl. c\<lparr>ch_rxPending := slot_put (of_nat (Suc d)) sl (ch_rxPending c)\<rparr>"
  let ?put2 = "\<lambda>sl sl'. c\<lparr>ch_rxPending := slot_put (of_nat (Suc d)) sl' (slot_put (of_nat (Suc d)) sl (ch_rxPending c))\<rparr>"
  have put: "receiver_ok s F M d (?put sl)" if "slot_ok F m sl" for sl
    using ok that M(2,3) key set_slot_put [of "of_nat (Suc d)" sl "ch_rxPending c"]
    unfolding receiver_ok_def by auto
  have put2: "receiver_ok s F M d (?put2 sl sl')"
    if "slot_ok F m sl" "slot_ok F m sl'" for sl sl'
    using ok that M(2,3) key set_slot_put [of "of_nat (Suc d)" sl "ch_rxPending c"]
      set_slot_put [of "of_nat (Suc d)" sl' "slot_put (of_nat (Suc d)) sl (ch_rxPending c)"]
    unfolding receiver_ok_def by fastforce
  have same: "ib_fragCount slot = cc_fragCount ?h" "ib_totalSize slot = cc_totalSize ?h"
    using slot by (simp_all add: slot_ok_def fragment_header_def)
  have idx: "\<not> ib_fragCount slot \<le> cc_fragIndex ?h"
    unfolding same using sizes(7,8) i by (simp add: word_le_nat_alt)
  define stored where "stored = store_fragment ?h ?p t slot"
  consider (dup) "ib_have slot ! i" "(c', out) = (?put slot, [])"
    | (part) "\<not> ib_have slot ! i" "ib_haveCount stored < ib_fragCount stored"
        "c' = ?put2 slot stored" "out = []"
    | (full) "\<not> ib_have slot ! i" "\<not> ib_haveCount stored < ib_fragCount stored"
        "(c', out) = (if \<not> inbound_covered stored then (close_channel MalformedMessage (?put2 slot stored), [])
          else deliver_message (of_nat (Suc d)) stored (?put2 slot stored))"
  proof -
    have "accept_fragment ?h ?p t slot c =
      (if ib_have slot ! i then (?put slot, [])
       else if ib_haveCount stored < ib_fragCount stored then (?put2 slot stored, [])
       else if \<not> inbound_covered stored then (close_channel MalformedMessage (?put2 slot stored), [])
       else deliver_message (of_nat (Suc d)) stored (?put2 slot stored))"
      unfolding accept_fragment_def Let_def seq stored_def [symmetric] sizes(7)
      using same idx by simp
    with res have step: "(c', out) =
      (if ib_have slot ! i then (?put slot, [])
       else if ib_haveCount stored < ib_fragCount stored then (?put2 slot stored, [])
       else if \<not> inbound_covered stored then (close_channel MalformedMessage (?put2 slot stored), [])
       else deliver_message (of_nat (Suc d)) stored (?put2 slot stored))" by (rule trans [OF sym])
    show ?thesis
    proof (cases "ib_have slot ! i")
      case True
      show ?thesis by (rule that(1) [OF True]) (use step True in \<open>simp only: if_True\<close>)
    next
      case new: False
      show ?thesis
      proof (cases "ib_haveCount stored < ib_fragCount stored")
        case True
        have "(c', out) = (?put2 slot stored, [])" using step new True by (simp only: if_True if_False)
        then show ?thesis by (intro that(2) [OF new True]) (simp_all only: prod.inject)
      next
        case False
        show ?thesis by (rule that(3) [OF new False]) (use step new False in \<open>simp only: if_False\<close>)
      qed
    qed
  qed
  then have "same_tx c c' \<and> ch_closeReason c' = ch_closeReason c \<and>
    (\<exists>d'. receiver_ok s F M d' c' \<and> (\<forall>x\<in>set out. ack_form s d' x) \<and>
      (d' = d \<and> ch_rxReady c' = ch_rxReady c \<or> d' = Suc d \<and> ch_rxReady c' = ch_rxReady c @ [m]))"
  proof cases
    case dup
    then show ?thesis using put [OF slot] by (auto simp: same_tx_def)
  next
    case part
    have "slot_ok F m stored" unfolding stored_def by (rule slot_ok_store(1) [OF F M(1) i slot part(1)])
    from put2 [OF slot this] part show ?thesis by (auto simp: same_tx_def)
  next
    case full
    have stored: "slot_ok F m stored" unfolding stored_def by (rule slot_ok_store(1) [OF F M(1) i slot full(1)])
    note complete = slot_ok_complete [OF F M(1) stored full(2)]
    let ?c2 = "?put2 slot stored"
    have res: "(c', out) = deliver_message (of_nat (Suc d)) stored ?c2" using full(3) complete(2) by simp
    then have c': "c' = ?c2\<lparr>ch_rxDeliveredSeq := of_nat (Suc d), ch_rxReady := ch_rxReady c @ [m],
        ch_stats := (ch_stats c)\<lparr>cs_messagesReceived := cs_messagesReceived (ch_stats c) + 1\<rparr>,
        ch_rxPending := filter (\<lambda>(k, _). of_nat (Suc d) < k) (ch_rxPending ?c2)\<rparr>"
      and out: "out = send_ack_or_nack UControlAck (of_nat (Suc d)) [] c'"
      using complete(1) by (auto simp: deliver_message_def Let_def)
    have "receiver_ok s F M (Suc d) c'"
      using put2 [OF slot stored] M(3) key unfolding receiver_ok_def c'
      by (auto simp: word_less_nat_alt)
    moreover have "\<forall>x\<in>set out. ack_form s (Suc d) x"
      using send_ack_or_nack_forms [of _ UControlAck "of_nat (Suc d)" "[]" c' "Suc d"] key calculation
      unfolding out receiver_ok_def by simp
    ultimately show ?thesis by (auto simp: same_tx_def c')
  qed
  then show "same_tx c c'" and "ch_closeReason c' = ch_closeReason c"
    and "\<exists>d'. receiver_ok s F M d' c' \<and> (\<forall>x\<in>set out. ack_form s d' x) \<and>
      (d' = d \<and> ch_rxReady c' = ch_rxReady c \<or> d' = Suc d \<and> ch_rxReady c' = ch_rxReady c @ [m])"
    by blast+
qed

lemma close_same [simp]: "same_tx c (close_channel r c)" "same_rx c (close_channel r c)" "same_tx c c" "same_rx c c"
  by (simp_all add: same_tx_def same_rx_def close_channel_def)

text \<open>A datagram of the stream: a fragment of a message up to the one in flight, or a probe.\<close>

definition data_ok :: "u32 \<Rightarrow> u32 \<Rightarrow> bytes list \<Rightarrow> nat \<Rightarrow> bytes \<Rightarrow> bool" where
  "data_ok s F M k x \<longleftrightarrow>
    (\<exists>j i. j < length M \<and> j \<le> k \<and> i < frag_count F (M ! j) \<and>
       x = fragment_bytes s F (of_nat (Suc j)) (M ! j) i) \<or>
    (\<exists>seq. unat seq \<le> k \<and> x = probe_bytes s seq)"

lemma data_ok_mono: "data_ok s F M k x \<Longrightarrow> k \<le> k' \<Longrightarrow> data_ok s F (M @ ms) k' x"
proof -
  assume data: "data_ok s F M k x" and le: "k \<le> k'"
  from data consider (frag) j i where "j < length M" "j \<le> k" "i < frag_count F (M ! j)"
      "x = fragment_bytes s F (of_nat (Suc j)) (M ! j) i"
    | (probe) seq where "unat seq \<le> k" "x = probe_bytes s seq"
    unfolding data_ok_def by blast
  then show ?thesis
  proof cases
    case frag
    then show ?thesis using le unfolding data_ok_def
      by (intro disjI1 exI [of _ j] exI [of _ i]) (simp add: nth_append)
  next
    case probe
    then show ?thesis using le unfolding data_ok_def by (intro disjI2 exI [of _ seq]) simp
  qed
qed

lemma receive_data_ok:
  assumes F: "0 < unat F" and M: "\<forall>m\<in>set M. message_ok F m" "length M < 4294967295"
    and ok: "receiver_ok s F M d c" and x: "data_ok s F M k x" and kd: "k \<le> d"
    and res: "on_packet x t c = (mine, c', out)"
  shows "same_tx c c' \<and> (ch_closeReason c' \<noteq> MalformedMessage \<or> ch_closeReason c = MalformedMessage) \<and>
    (\<exists>d'. receiver_ok s F M d' c' \<and> d \<le> d' \<and> (\<forall>y\<in>set out. ack_form s d' y) \<and>
      ch_rxReady c' = ch_rxReady c @ drop d (take d' M))"
proof -
  have rx: "ch_rxStreamId c = s" "ch_rxDeliveredSeq c = of_nat d" "d \<le> length M"
    using ok by (auto simp: receiver_ok_def)
  have unat_d: "unat (of_nat d :: u32) = d" using rx(3) M(2) by (simp add: unat_of_nat_small)
  have idle: ?thesis if "c' = c" "out = []"
    using ok that by (auto intro!: exI [of _ d])
  have again: ?thesis if "(c', out) = (c, send_ack_or_nack UControlAck seq [] c)" "unat seq \<le> d" for seq
    using ok that send_ack_or_nack_forms [of _ UControlAck seq "[]" c d] rx(1)
    by (auto intro!: exI [of _ d])
  from x consider (frag) j i where "j < length M" "j \<le> k" "i < frag_count F (M ! j)"
      "x = fragment_bytes s F (of_nat (Suc j)) (M ! j) i"
    | (probe) seq where "unat seq \<le> k" "x = probe_bytes s seq"
    unfolding data_ok_def by blast
  then show ?thesis
  proof cases
    case probe
    have res': "(c', out) = (if ch_closed c then (c, []) else handle_data (probe_header s seq) [] t c)"
      using res rx(1) unfolding probe(2) on_packet_probe by simp
    have "seq \<le> of_nat d" using probe(1) kd unat_d by (simp add: word_le_nat_alt)
    then have "handle_data (probe_header s seq) [] t c = (c, send_ack_or_nack UControlAck seq [] c)"
      by (simp add: handle_data_def rx(2) probe_header_def)
    then show ?thesis using res' idle again [of seq] probe(1) kd by (cases "ch_closed c") auto
  next
    case frag
    let ?m = "M ! j" and ?h = "fragment_header s F (of_nat (Suc j)) (M ! j) i"
    have m: "message_ok F ?m" using M(1) frag(1) by simp
    have seq: "cc_messageSeq ?h = of_nat (Suc j)" by (simp add: fragment_header_def)
    have unat_j: "unat (of_nat (Suc j) :: u32) = Suc j" using frag(1) M(2) by (simp add: unat_of_nat_small)
    have res': "(c', out) = (if ch_closed c then (c, []) else handle_data ?h (chunk_bytes ?m (unat F) i) t c)"
      using res rx(1) unfolding frag(4) on_packet_fragment [OF F m frag(3)] by simp
    show ?thesis
    proof (cases "ch_closed c \<or> j < d")
      case True
      have "j < d \<Longrightarrow> handle_data ?h (chunk_bytes ?m (unat F) i) t c =
          (c, send_ack_or_nack UControlAck (of_nat (Suc j)) [] c)"
        using unat_j unat_d by (simp add: handle_data_def Let_def seq rx(2) word_le_nat_alt)
      then show ?thesis using True res' idle again [of "of_nat (Suc j)"] unat_j by (cases "ch_closed c") auto
    next
      case False
      then have jd: "j = d" using frag(2) kd by simp
      note sizes = fragment_sizes [OF F m frag(3)]
      have new: "\<not> of_nat (Suc j) \<le> (of_nat d :: u32)"
        using unat_j unat_d jd by (simp add: word_le_nat_alt)
      have "length ?m \<le> kMaxMessageBytes" "0 < frag_count F ?m"
        using m frag(3) by (auto simp: message_ok_def)
      moreover have "cc_fragCount ?h \<noteq> 0" "cc_totalSize ?h \<noteq> 0"
        using sizes(1) sizes(6,8) [of s "of_nat (Suc j)"] frag(3) by (metis less_nat_zero_code unat_0)+
      ultimately have shape: "\<not> malformed_fragment ?h (length (chunk_bytes ?m (unat F) i))"
        using sizes frag(3) by (auto simp: malformed_fragment_def word_le_nat_alt word_less_nat_alt)
      have res2: "(c', out) = (case map_of (ch_rxPending c) (of_nat (Suc j)) of
          Some slot \<Rightarrow> accept_fragment ?h (chunk_bytes ?m (unat F) i) t slot c
        | None \<Rightarrow> if inbound_limits_exceeded ?h c then (close_channel ResourceLimit c, [])
            else accept_fragment ?h (chunk_bytes ?m (unat F) i) t (new_inbound ?h t) c)"
        using res' False new shape unfolding handle_data_def Let_def seq rx(2) by auto
      have accept: ?thesis if "slot_ok F ?m slot"
          "(c', out) = accept_fragment ?h (chunk_bytes ?m (unat F) i) t slot c" for slot
      proof -
        have "accept_fragment (fragment_header s F (of_nat (Suc d)) ?m i) (chunk_bytes ?m (unat F) i) t slot c = (c', out)"
          using that(2) jd by simp
        note acc = accept_fragment_ok [OF F m _ _ M(2) frag(3) ok that(1) this]
        have "same_tx c c'" "ch_closeReason c' = ch_closeReason c"
          using acc(1,2) jd frag(1) by blast+
        moreover obtain d' where "receiver_ok s F M d' c'" "\<forall>y\<in>set out. ack_form s d' y"
          "d' = d \<and> ch_rxReady c' = ch_rxReady c \<or> d' = Suc d \<and> ch_rxReady c' = ch_rxReady c @ [?m]"
          using acc(3) jd frag(1) by blast
        moreover have "drop d (take (Suc d) M) = [M ! d]"
          using frag(1) jd by (simp add: take_Suc_conv_app_nth)
        ultimately show ?thesis using jd by auto
      qed
      show ?thesis
      proof (cases "map_of (ch_rxPending c) (of_nat (Suc j))")
        case None
        have new_ok: "slot_ok F ?m (new_inbound ?h t)" by (rule slot_ok_new [OF F m frag(3)])
        show ?thesis
        proof (cases "inbound_limits_exceeded ?h c")
          case True
          then have out: "c' = close_channel ResourceLimit c" "out = []" using res2 None by simp_all
          have "receiver_ok s F M d c'" unfolding out(1) by (rule receiver_ok_same [OF ok close_same(2)])
          then show ?thesis using out by (auto simp: close_channel_def same_tx_def intro!: exI [of _ d])
        next
          case False
          then show ?thesis using accept [OF new_ok] res2 None by simp
        qed
      next
        case (Some slot)
        then have "(of_nat (Suc j), slot) \<in> set (ch_rxPending c)" by (rule map_of_SomeD)
        then have "slot_ok F ?m slot" using ok unat_j jd unfolding receiver_ok_def by fastforce
        from accept [OF this] show ?thesis using res2 Some by simp
      qed
    qed
  qed
qed

section \<open>The sending half\<close>

text \<open>
  The queue holds the messages after the \<open>k\<close> acknowledged ones, numbered from 1 in the order in
  which they were accepted.
\<close>

definition sender_ok :: "u32 \<Rightarrow> u32 \<Rightarrow> bytes list \<Rightarrow> nat \<Rightarrow> channel \<Rightarrow> bool" where
  "sender_ok s F M k c \<longleftrightarrow> ch_txStreamId c = s \<and> ch_fragBytes c = F \<and> k \<le> length M \<and>
     ch_nextTxSeq c = of_nat (Suc (length M)) \<and>
     map (\<lambda>m. (ob_seq m, ob_payload m)) (ch_txQueue c) = map (\<lambda>i. (of_nat (Suc i), M ! i)) [k..<length M] \<and>
     (\<forall>m\<in>set (ch_txQueue c). ob_fragCount m = of_nat (frag_count F (ob_payload m))) \<and>
     ch_lastAckedTxSeq c = of_nat k \<and> (ch_probeState c = ProbePending \<longrightarrow> unat (ch_probeSeq c) \<le> k)"

lemma sender_ok_same: "sender_ok s F M k c \<Longrightarrow> same_tx c c' \<Longrightarrow> sender_ok s F M k c'"
  by (simp add: sender_ok_def same_tx_def)

lemma sender_ok_head:
  assumes "sender_ok s F M k c" and "ch_txQueue c = msg # rest"
  shows "k < length M" "ob_seq msg = of_nat (Suc k)" "ob_payload msg = M ! k"
    "ob_fragCount msg = of_nat (frag_count F (M ! k))"
    "map (\<lambda>m. (ob_seq m, ob_payload m)) rest = map (\<lambda>i. (of_nat (Suc i), M ! i)) [Suc k..<length M]"
proof -
  have eq: "map (\<lambda>m. (ob_seq m, ob_payload m)) (msg # rest) = map (\<lambda>i. (of_nat (Suc i), M ! i)) [k..<length M]"
    and count: "ob_fragCount msg = of_nat (frag_count F (ob_payload msg))"
    using assms by (auto simp: sender_ok_def)
  then show k: "k < length M" by (cases "k < length M") simp_all
  then have "[k..<length M] = k # [Suc k..<length M]" by (rule upt_conv_Cons)
  with eq count show "ob_seq msg = of_nat (Suc k)" "ob_payload msg = M ! k"
    "ob_fragCount msg = of_nat (frag_count F (M ! k))"
    "map (\<lambda>m. (ob_seq m, ob_payload m)) rest = map (\<lambda>i. (of_nat (Suc i), M ! i)) [Suc k..<length M]"
    by simp_all
qed

text \<open>What the message in flight puts on the wire.\<close>

lemma send_fragments_data:
  assumes F: "0 < unat F" and M: "message_ok F (M ! k)" "k < length M"
    and c: "ch_txStreamId c = s" "ch_fragBytes c = F"
    and msg: "ob_seq msg = of_nat (Suc k)" "ob_payload msg = M ! k"
      "ob_fragCount msg = of_nat (frag_count F (M ! k))"
    and x: "x \<in> set (snd (send_fragments msg only c))"
  shows "data_ok s F M k x"
proof -
  obtain index where some: "fragment_datagram c msg index = Some x"
    using x unfolding send_fragments_def Let_def fragment_datagrams_def
    by (auto simp: List.map_filter_def split: if_splits)
  have "0 < unat (ch_fragBytes c)" "message_ok (ch_fragBytes c) (ob_payload msg)"
    "ob_fragCount msg = of_nat (frag_count (ch_fragBytes c) (ob_payload msg))"
    using F M c msg by simp_all
  note eq = fragment_datagram_eq [OF this some]
  show ?thesis unfolding data_ok_def
    using eq M(2) by (intro disjI1 exI [of _ k] exI [of _ "unat index"]) (simp add: c msg)
qed

lemma probe_datagram_data: "unat (ch_probeSeq c) \<le> k \<Longrightarrow> ch_txStreamId c = s \<Longrightarrow>
    x \<in> set (send_probe_chunk c) \<Longrightarrow> data_ok s F M k x"
  by (auto simp: send_probe_chunk_def probe_datagram_def data_ok_def probe_bytes_def probe_header_def
      split: if_splits)

text \<open>An acknowledgement or a request arrives at the sender.\<close>

lemma ack_packet_fields [simp]:
  "ca_kind (ack_packet s kind seq missing) = udp_packet_kind_code kind"
  "ca_messageSeq (ack_packet s kind seq missing) = seq"
  by (simp_all add: ack_packet_def)

lemma handle_ack_same_rx: "same_rx c (fst (handle_ack p t c))" "ch_closeReason (fst (handle_ack p t c)) = ch_closeReason c"
  by (auto simp: handle_ack_def same_rx_def send_fragments_def Let_def split: list.splits)

lemma handle_ack_ok:
  assumes F: "0 < unat F" and M: "\<forall>m\<in>set M. message_ok F m" "length M < 4294967295"
    and ok: "sender_ok s F M k c" and kd: "k \<le> d"
    and kind: "kind = UControlAck \<or> kind = UControlNack" "kind = UControlAck \<Longrightarrow> unat seq \<le> d"
    and res: "handle_ack (ack_packet s kind seq missing) t c = (c', out)"
  shows "\<exists>k'. sender_ok s F M k' c' \<and> k \<le> k' \<and> k' \<le> d \<and> (\<forall>x\<in>set out. data_ok s F M k' x)"
proof -
  let ?p = "ack_packet s kind seq missing"
  note p = ack_packet_fields
  have idle: ?thesis if "same_tx c c'" "out = []"
    using sender_ok_same [OF ok that(1)] that(2) kd by auto
  have len: "k \<le> length M" and c: "ch_txStreamId c = s" "ch_fragBytes c = F" using ok by (auto simp: sender_ok_def)
  show ?thesis
  proof (cases "ch_probeState c = ProbePending \<and> seq = ch_probeSeq c \<and> kind = UControlAck")
    case True
    then have "c' = c\<lparr>ch_probeState := ProbeAlive, ch_probeDecidedUs := t\<rparr>" "out = []"
      using res by (simp_all add: handle_ack_def)
    then show ?thesis using ok kd by (auto simp: sender_ok_def)
  next
    case probe: False
    have notprobe: "\<not> (ch_probeState c = ProbePending \<and> ca_messageSeq ?p = ch_probeSeq c \<and>
          ca_kind ?p = udp_packet_kind_code UControlAck)"
      using probe kind(1) by auto
    have kinds: "udp_packet_kind_code kind = udp_packet_kind_code UControlNack \<longleftrightarrow> kind = UControlNack"
      using kind(1) by auto
    show ?thesis
    proof (cases "ch_txQueue c")
      case Nil
      have "(c', out) = (c, [])"
        using res unfolding handle_ack_def if_not_P [OF notprobe] Nil list.case by simp
      then show ?thesis using idle by simp
    next
      case (Cons msg rest)
      note head = sender_ok_head [OF ok Cons]
      have m: "message_ok F (M ! k)" using M(1) head(1) by simp
      have step: "(c', out) =
        (if ob_seq msg \<noteq> seq then (c, [])
         else if kind = UControlNack
         then let missing = take (unat (ca_missingCount ?p)) (ca_missing ?p);
                (c, out) = (if missing = [] then (c, []) else send_fragments msg (Some missing) c) in
           (c\<lparr>ch_txQueue := msg\<lparr>ob_lastSendUs := t\<rparr> # rest\<rparr>, out)
         else let c = c\<lparr>ch_lastAckedTxSeq := seq, ch_txQueue := rest\<rparr> in
           (case rest of [] \<Rightarrow> (c, [])
           | msg # later \<Rightarrow>
               let msg = msg\<lparr>ob_lastSendUs := t, ob_attempts := 1\<rparr> in
               send_fragments msg None (c\<lparr>ch_txQueue := msg # later\<rparr>)))"
        using res [symmetric] unfolding handle_ack_def if_not_P [OF notprobe] Cons list.case
        unfolding p kinds by simp
      consider (other) "ob_seq msg \<noteq> seq" | (nack) "ob_seq msg = seq" "kind = UControlNack"
        | (ack) "ob_seq msg = seq" "kind = UControlAck" using kind(1) by blast
      then show ?thesis
      proof cases
        case other
        then show ?thesis using step idle by simp
      next
        case nack
        let ?ms = "take (unat (ca_missingCount ?p)) (ca_missing ?p)"
        define r where "r = (if ?ms = [] then (c, []) else send_fragments msg (Some ?ms) c)"
        have same: "same_tx c (fst r)" by (simp add: r_def)
        have data: "\<forall>x\<in>set (snd r). data_ok s F M k x"
          using send_fragments_data [OF F m head(1) c head(2-4)] by (simp add: r_def)
        have "c' = (fst r)\<lparr>ch_txQueue := msg\<lparr>ob_lastSendUs := t\<rparr> # rest\<rparr>" "out = snd r"
          using step nack unfolding Let_def r_def [symmetric] by (simp_all add: case_prod_beta)
        moreover have "sender_ok s F M k ((fst r)\<lparr>ch_txQueue := msg\<lparr>ob_lastSendUs := t\<rparr> # rest\<rparr>)"
          using sender_ok_same [OF ok same] same Cons by (simp add: sender_ok_def same_tx_def)
        ultimately show ?thesis using data kd by (auto intro!: exI [of _ k])
      next
        case ack
        let ?c1 = "c\<lparr>ch_lastAckedTxSeq := seq, ch_txQueue := rest\<rparr>"
        have unat_k: "unat seq = Suc k" using ack(1) head(1,2) M(2) by (simp flip: ack(1) add: unat_of_nat_small)
        then have k: "Suc k \<le> d" using kind(2) ack(2) by simp
        have probe_le: "ch_probeState c = ProbePending \<longrightarrow> unat (ch_probeSeq c) \<le> Suc k"
          using ok by (auto simp: sender_ok_def)
        have ok1: "sender_ok s F M (Suc k) ?c1"
          using ok head ack(1) probe_le Cons by (simp add: sender_ok_def)
        have k': "k \<le> Suc k" by simp
        show ?thesis
        proof (cases rest)
          case Nil
          then have "c' = ?c1" "out = []" using step ack by simp_all
          then show ?thesis using ok1 k k' by auto
        next
          case (Cons nxt later)
          let ?m = "nxt\<lparr>ob_lastSendUs := t, ob_attempts := 1\<rparr>"
          let ?c2 = "?c1\<lparr>ch_txQueue := ?m # later\<rparr>"
          have ok2: "sender_ok s F M (Suc k) ?c2" using ok1 Cons by (simp add: sender_ok_def)
          then have "ch_txQueue ?c2 = ?m # later" by simp
          note head2 = sender_ok_head [OF ok2 this]
          have res2: "(c', out) = send_fragments ?m None ?c2" using step ack Cons by (simp add: Let_def)
          have "sender_ok s F M (Suc k) c'"
            using sender_ok_same [OF ok2 send_fragments_same(2)] res2 by (metis fst_conv)
          moreover have "message_ok F (M ! Suc k)" "ch_txStreamId ?c2 = s" "ch_fragBytes ?c2 = F"
            using head2(1) M(1) c by simp_all
          then have "\<forall>x\<in>set out. data_ok s F M (Suc k) x"
            using send_fragments_data [OF F _ head2(1) _ _ head2(2-4)] res2 by (metis snd_conv)
          ultimately show ?thesis using k k' by auto
        qed
      qed
    qed
  qed
qed

section \<open>The operations of one end\<close>

text \<open>What an end does by itself: the calls of its owner and the timer.\<close>

datatype channel_op = OpSend bytes | OpReceive | OpTick | OpStartProbe u32 u64 | OpClearProbe
  | OpSetTimings channel_timings | OpClose control_close_reason

text \<open>The messages accepted and handed out, the channel after the call, the datagrams sent.\<close>

fun run_op :: "channel_op \<Rightarrow> u64 \<Rightarrow> channel \<Rightarrow> bytes list \<times> bytes list \<times> channel sends" where
  "run_op (OpSend m) t c = (let (ok, r) = send_message m t c in (if ok then [m] else [], [], r))"
| "run_op OpReceive t c = (let (m, c) = receive_message c in ([], case m of None \<Rightarrow> [] | Some m \<Rightarrow> [m], c, []))"
| "run_op OpTick t c = ([], [], tick t c)"
| "run_op (OpStartProbe n interval) t c = ([], [], start_probe n interval t c)"
| "run_op OpClearProbe t c = ([], [], clear_probe c, [])"
| "run_op (OpSetTimings tm) t c = ([], [], set_timings tm c, [])"
| "run_op (OpClose reason) t c = ([], [], close_channel reason c, [])"

text \<open>Both halves of an end, after \<open>k\<close> acknowledged and \<open>d\<close> delivered messages.\<close>

definition endpoint_ok ::
    "u32 \<Rightarrow> u32 \<Rightarrow> bytes list \<Rightarrow> nat \<Rightarrow> u32 \<Rightarrow> u32 \<Rightarrow> bytes list \<Rightarrow> nat \<Rightarrow> channel \<Rightarrow> bool" where
  "endpoint_ok s F M k r G N d c \<longleftrightarrow> sender_ok s F M k c \<and> receiver_ok r G N d c"

definition emitted_ok :: "u32 \<Rightarrow> u32 \<Rightarrow> bytes list \<Rightarrow> nat \<Rightarrow> u32 \<Rightarrow> nat \<Rightarrow> bytes list \<Rightarrow> bool" where
  "emitted_ok s F M k r d out \<longleftrightarrow> (\<forall>x\<in>set out. data_ok s F M k x \<or> ack_form r d x)"

lemma emitted_ok_simps [simp]:
  "emitted_ok s F M k r d []"
  "emitted_ok s F M k r d (xs @ ys) \<longleftrightarrow> emitted_ok s F M k r d xs \<and> emitted_ok s F M k r d ys"
  by (auto simp: emitted_ok_def)

lemma emitted_ok_mono:
  "emitted_ok s F M k r d out \<Longrightarrow> k \<le> k' \<Longrightarrow> d \<le> d' \<Longrightarrow> emitted_ok s F (M @ ms) k' r d' out"
  by (auto simp: emitted_ok_def dest: data_ok_mono ack_form_mono)

lemma endpoint_ok_same:
  "endpoint_ok s F M k r G N d c \<Longrightarrow> same_tx c c' \<Longrightarrow> same_rx c c' \<Longrightarrow> endpoint_ok s F M k r G N d c'"
  by (auto simp: endpoint_ok_def intro: sender_ok_same receiver_ok_same)

lemma send_message_ok:
  assumes F: "0 < unat F" and M: "\<forall>m\<in>set M. message_ok F m"
    and ok: "endpoint_ok s F M k r G N d c" and res: "send_message m t c = (acc, c', out)"
  shows "let M' = M @ (if acc then [m] else []) in endpoint_ok s F M' k r G N d c' \<and>
    (\<forall>m\<in>set M'. message_ok F m) \<and> emitted_ok s F M' k r d out \<and> same_rx c c' \<and>
    (ch_closeReason c' = ch_closeReason c \<or> ch_closeReason c' = ResourceLimit)"
proof -
  have snd: "sender_ok s F M k c" and rcv: "receiver_ok r G N d c" using ok by (auto simp: endpoint_ok_def)
  have FB: "ch_fragBytes c = F" "k \<le> length M" "ch_txStreamId c = s" using snd by (auto simp: sender_ok_def)
  consider (same) "(acc, c', out) = (False, c, [])"
    | (limit) "(acc, c', out) = (False, close_channel ResourceLimit c, [])"
    | (go) "m \<noteq> []" "\<not> send_limits_exceeded (length m) c" "send_message m t c = (acc, c', out)"
        "\<not> (ch_closed c \<or> m = [])" "ch_hasSend c"
    using res unfolding send_message_def by (auto simp: Let_def split: if_splits)
  then show ?thesis
  proof cases
    case same
    then show ?thesis using ok M by (simp add: Let_def)
  next
    case limit
    have "endpoint_ok s F M k r G N d (close_channel ResourceLimit c)" using endpoint_ok_same [OF ok] by simp
    then show ?thesis using limit M by (auto simp: Let_def close_channel_def same_rx_def)
  next
    case go
    let ?msg = "new_outbound (ch_nextTxSeq c) m t c"
    let ?c1 = "c\<lparr>ch_nextTxSeq := ch_nextTxSeq c + 1, ch_txQueue := ch_txQueue c @ [?msg],
        ch_stats := (ch_stats c)\<lparr>cs_messagesSent := cs_messagesSent (ch_stats c) + 1\<rparr>\<rparr>"
    have m: "message_ok F m"
      using go(1,2) FB by (auto simp: send_limits_exceeded_def message_ok_def frag_count_def)
    have step: "(acc, c', out) = (True, if length (ch_txQueue ?c1) = 1
        then send_fragments (hd (ch_txQueue ?c1)) None ?c1 else (?c1, []))"
      using go(3) [symmetric] go(2,4,5) unfolding send_message_def Let_def by simp
    have "[k..<length (M @ [m])] = [k..<length M] @ [length M]" using FB(2) by simp
    moreover have "map (\<lambda>i. (of_nat (Suc i), (M @ [m]) ! i)) [k..<length M] =
        (map (\<lambda>i. (of_nat (Suc i), M ! i)) [k..<length M] :: (u32 \<times> bytes) list)"
      by (simp add: nth_append)
    ultimately have ok1: "sender_ok s F (M @ [m]) k ?c1"
      using snd FB by (auto simp: sender_ok_def new_outbound_def frag_count_def of_nat_Suc)
    have rx1: "same_rx c ?c1" by (simp add: same_rx_def)
    have all: "\<forall>m\<in>set (M @ [m]). message_ok F m" using M m by simp
    show ?thesis
    proof (cases "ch_txQueue ?c1")
      case (Cons msg rest)
      note head = sender_ok_head [OF ok1 Cons]
      have c': "c' = (if rest = [] then fst (send_fragments msg None ?c1) else ?c1)"
        and out: "out = (if rest = [] then snd (send_fragments msg None ?c1) else [])" and acc
        using step unfolding Cons by (cases rest; simp add: prod_eq_iff)+
      have tx: "same_tx ?c1 c'" and rx: "same_rx c c'" and cr: "ch_closeReason c' = ch_closeReason c"
        unfolding c' using rx1 send_fragments_same [where c = ?c1 and msg = msg and only = None] by (auto simp: same_rx_def)
      have "message_ok F ((M @ [m]) ! k)" using all head(1) by (metis nth_mem)
      moreover have "ch_txStreamId ?c1 = s" "ch_fragBytes ?c1 = F" using FB by simp_all
      ultimately have "data_ok s F (M @ [m]) k x" if "x \<in> set (snd (send_fragments msg None ?c1))" for x
        using send_fragments_data [OF F _ head(1) _ _ head(2-4) that] by blast
      then have "emitted_ok s F (M @ [m]) k r d out" unfolding out emitted_ok_def by simp
      then show ?thesis
        using sender_ok_same [OF ok1 tx] receiver_ok_same [OF rcv rx] all rx cr \<open>acc\<close>
        by (simp add: Let_def endpoint_ok_def)
    qed simp
  qed
qed

lemma tick_nacks_same: "same_tx c (fst (tick_nacks t c))" "ch_closeReason (fst (tick_nacks t c)) = ch_closeReason c"
    "ch_rxReady (fst (tick_nacks t c)) = ch_rxReady c"
  by (simp_all add: tick_nacks_def Let_def same_tx_def)

lemma slot_ok_nacked [simp]: "slot_ok F m (slot\<lparr>ib_lastNackUs := t\<rparr>) = slot_ok F m slot"
  by (simp add: slot_ok_def)

lemma tick_nacks_rx: "receiver_ok r G N d c \<Longrightarrow> receiver_ok r G N d (fst (tick_nacks t c))"
  by (fastforce simp: tick_nacks_def Let_def receiver_ok_def)

lemma tick_nacks_out: "x \<in> set (snd (tick_nacks t c)) \<Longrightarrow> ch_rxStreamId c = r \<Longrightarrow> ack_form r d x"
  using send_ack_or_nack_forms [of x UControlNack] by (auto simp: tick_nacks_def Let_def)

lemma tick_ok:
  assumes F: "0 < unat F" and M: "\<forall>m\<in>set M. message_ok F m"
    and ok: "endpoint_ok s F M k r G N d c" and res: "tick t c = (c', out)"
  shows "endpoint_ok s F M k r G N d c' \<and> emitted_ok s F M k r d out \<and> ch_rxReady c' = ch_rxReady c \<and>
    (ch_closeReason c' = ch_closeReason c \<or> ch_closeReason c' = PeerLost)"
proof -
  obtain c1 out1 where probe: "tick_probe t c = (c1, out1)" by fastforce
  have snd: "sender_ok s F M k c" and rcv: "receiver_ok r G N d c" using ok by (auto simp: endpoint_ok_def)
  have c1: "sender_ok s F M k c1" "same_rx c c1" "ch_closeReason c1 = ch_closeReason c" "emitted_ok s F M k r d out1"
  proof -
    show "sender_ok s F M k c1" "same_rx c c1" "ch_closeReason c1 = ch_closeReason c"
      using probe snd by (auto simp: tick_probe_def Let_def sender_ok_def same_rx_def split: if_splits)
    show "emitted_ok s F M k r d out1"
    proof (cases "ch_probeState c = ProbePending")
      case True
      then have "data_ok s F M k x" if "x \<in> set out1" for x
        using that probe snd probe_datagram_data [of "c\<lparr>ch_probeAttempts := ch_probeAttempts c + 1\<rparr>" k s x F M]
        by (auto simp: tick_probe_def Let_def sender_ok_def split: if_splits)
      then show ?thesis by (simp add: emitted_ok_def)
    next
      case False
      then show ?thesis using probe by (auto simp: tick_probe_def)
    qed
  qed
  let ?c2 = "tick_expire t c1"
  have tx2: "same_tx c1 ?c2" and keep2: "ch_rxReady ?c2 = ch_rxReady c" "ch_closeReason ?c2 = ch_closeReason c"
    using c1 by (auto simp: tick_expire_def same_tx_def same_rx_def)
  have snd2: "sender_ok s F M k ?c2" by (rule sender_ok_same [OF c1(1) tx2])
  have rcv2: "receiver_ok r G N d ?c2"
    using receiver_ok_same [OF rcv c1(2)] by (auto simp: tick_expire_def receiver_ok_def)
  have c: "ch_txStreamId ?c2 = s" "ch_fragBytes ?c2 = F" using snd2 by (auto simp: sender_ok_def)
  show ?thesis
  proof (cases "tick_retransmit t ?c2")
    case None
    then obtain msg rest where q: "ch_txQueue ?c2 = msg # rest"
      by (auto simp: tick_retransmit_def split: list.splits)
    have eqs: "c' = (close_channel PeerLost ?c2)\<lparr>ch_txQueue := msg\<lparr>ob_attempts := ob_attempts msg + 1\<rparr> # rest\<rparr>"
      "out = out1"
      using res None q by (simp_all add: tick_def probe Let_def)
    have "sender_ok s F M k c'" unfolding eqs using snd2 q by (simp add: sender_ok_def close_channel_def)
    moreover have "receiver_ok r G N d c'"
      unfolding eqs by (rule receiver_ok_same [OF rcv2]) (simp add: same_rx_def close_channel_def)
    ultimately show ?thesis using eqs c1(4) keep2 by (auto simp: endpoint_ok_def close_channel_def)
  next
    case (Some r2)
    obtain c3 out2 where r2: "r2 = (c3, out2)" by fastforce
    obtain c4 out3 where nacks: "tick_nacks t c3 = (c4, out3)" by fastforce
    have eqs: "c' = c4" "out = out1 @ out2 @ out3"
      using res Some r2 nacks by (simp_all add: tick_def probe Let_def)
    have c3: "sender_ok s F M k c3 \<and> same_rx ?c2 c3 \<and> ch_closeReason c3 = ch_closeReason c \<and> emitted_ok s F M k r d out2"
    proof (cases "ch_txQueue ?c2")
      case Nil
      then show ?thesis using Some r2 snd2 keep2 by (simp add: tick_retransmit_def)
    next
      case (Cons msg rest)
      show ?thesis
      proof (cases "(c3, out2) = (?c2, [])")
        case True
        then show ?thesis using snd2 keep2 by simp
      next
        case False
        let ?m = "msg\<lparr>ob_attempts := ob_attempts msg + 1, ob_lastSendUs := t\<rparr>"
        let ?c3 = "?c2\<lparr>ch_txQueue := ?m # rest\<rparr>"
        have step: "(c3, out2) = send_fragments ?m None ?c3"
          using Some False Cons r2 by (auto simp: tick_retransmit_def Let_def split: if_splits)
        have ok3: "sender_ok s F M k ?c3" using snd2 Cons by (simp add: sender_ok_def)
        then have "ch_txQueue ?c3 = ?m # rest" by simp
        note head = sender_ok_head [OF ok3 this]
        have "message_ok F (M ! k)" "ch_txStreamId ?c3 = s" "ch_fragBytes ?c3 = F"
          using M head(1) c by simp_all
        then have "\<forall>x\<in>set out2. data_ok s F M k x"
          using send_fragments_data [OF F _ head(1) _ _ head(2-4)] step by (metis snd_conv)
        moreover have "sender_ok s F M k c3"
          using sender_ok_same [OF ok3 send_fragments_same(2)] step by (metis fst_conv)
        moreover have "same_rx ?c2 c3" "ch_closeReason c3 = ch_closeReason c"
          using send_fragments_same(1,3) [where c = ?c3 and msg = ?m and only = None]
            arg_cong [OF step, of fst] keep2(2)
          by (simp_all add: same_rx_def)
        ultimately show ?thesis by (simp add: emitted_ok_def)
      qed
    qed
    have c4: "c4 = fst (tick_nacks t c3)" "out3 = snd (tick_nacks t c3)" using nacks by simp_all
    have rcv3: "receiver_ok r G N d c3" using receiver_ok_same [OF rcv2] c3 by blast
    then have "emitted_ok s F M k r d out3"
      unfolding c4(2) emitted_ok_def using tick_nacks_out [of _ t c3 r] by (auto simp: receiver_ok_def)
    moreover have "endpoint_ok s F M k r G N d c4"
      unfolding c4(1) endpoint_ok_def using sender_ok_same [of s F M k c3] tick_nacks_same(1) c3 tick_nacks_rx [OF rcv3] by blast
    moreover have "ch_rxReady c4 = ch_rxReady c" "ch_closeReason c4 = ch_closeReason c"
      unfolding c4(1) using c3 keep2 by (auto simp: tick_nacks_same same_rx_def)
    ultimately show ?thesis using eqs c1(4) c3 by simp
  qed
qed

lemma run_op_ok:
  assumes F: "0 < unat F" and M: "\<forall>m\<in>set M. message_ok F m"
    and ok: "endpoint_ok s F M k r G N d c" and op: "op \<noteq> OpClose MalformedMessage"
    and res: "run_op op t c = (acc, got, c', out)"
  shows "endpoint_ok s F (M @ acc) k r G N d c' \<and> (\<forall>m\<in>set (M @ acc). message_ok F m) \<and>
    emitted_ok s F (M @ acc) k r d out \<and> got @ ch_rxReady c' = ch_rxReady c \<and>
    (ch_closeReason c' = MalformedMessage \<longrightarrow> ch_closeReason c = MalformedMessage)"
proof (cases op)
  case (OpSend m)
  obtain acc' where "send_message m t c = (acc', c', out)" "acc = (if acc' then [m] else [])" "got = []"
    using res OpSend by (auto simp: Let_def split: prod.splits)
  then show ?thesis using send_message_ok [OF F M ok, of m t acc' c' out] by (auto simp: Let_def same_rx_def)
next
  case OpReceive
  have "same_tx c c'" "acc = []" "out = []" "got @ ch_rxReady c' = ch_rxReady c" "ch_closeReason c' = ch_closeReason c"
    "receiver_ok r G N d c'"
    using res OpReceive ok
    by (auto simp: receive_message_def same_tx_def endpoint_ok_def receiver_ok_def split: list.splits)
  then show ?thesis using ok M sender_ok_same [of s F M k c c'] by (simp add: endpoint_ok_def)
next
  case OpTick
  then show ?thesis using res ok M tick_ok [OF F M ok, of t c' out] by (auto split: if_splits)
next
  case (OpStartProbe n interval)
  have snd: "sender_ok s F M k c" using ok by (simp add: endpoint_ok_def)
  have "unat (ch_lastAckedTxSeq c) \<le> k"
    using snd unat_of_nat [of k, where 'a = 32] by (simp add: sender_ok_def)
  then have facts: "sender_ok s F M k c' \<and> same_rx c c'"
    "out = [] \<or> out = send_probe_chunk c' \<and> unat (ch_probeSeq c') \<le> k"
    using res OpStartProbe snd
    by (auto simp: start_probe_def Let_def sender_ok_def same_rx_def send_probe_chunk_def probe_datagram_def
        split: if_splits)
  then have "emitted_ok s F M k r d out"
    using probe_datagram_data [of c' k s _ F M] by (auto simp: emitted_ok_def sender_ok_def)
  moreover note facts(1)
  moreover have "acc = []" "got = []" "ch_closeReason c' = ch_closeReason c"
    using res OpStartProbe by (auto simp: start_probe_def Let_def split: if_splits)
  ultimately show ?thesis using ok M receiver_ok_same [of r G N d c c'] by (simp add: endpoint_ok_def same_rx_def)
next
  case OpClearProbe
  have "sender_ok s F M k c'" "same_rx c c'" "acc = []" "got = []" "out = []" "ch_closeReason c' = ch_closeReason c"
    using res OpClearProbe ok by (auto simp: clear_probe_def endpoint_ok_def sender_ok_def same_rx_def)
  then show ?thesis using ok M receiver_ok_same [of r G N d c c'] by (simp add: endpoint_ok_def same_rx_def)
next
  case (OpSetTimings tm)
  have "same_tx c c'" "same_rx c c'" "acc = []" "got = []" "out = []" "ch_closeReason c' = ch_closeReason c"
    using res OpSetTimings by (auto simp: set_timings_def same_tx_def same_rx_def)
  then show ?thesis using endpoint_ok_same [OF ok, of c'] M by (simp add: same_rx_def)
next
  case (OpClose reason)
  have "c' = close_channel reason c" "acc = []" "got = []" "out = []" using res OpClose by auto
  then show ?thesis using endpoint_ok_same [OF ok, of c'] M op OpClose
    by (auto simp: close_channel_def same_tx_def same_rx_def)
qed

lemma receive_ack_ok:
  assumes F: "0 < unat F" and M: "\<forall>m\<in>set M. message_ok F m" "length M < 4294967295"
    and ok: "sender_ok s F M k c" and kd: "k \<le> d" and x: "ack_form s d x"
    and res: "on_packet x t c = (mine, c', out)"
  shows "same_rx c c' \<and> ch_closeReason c' = ch_closeReason c \<and>
    (\<exists>k'. sender_ok s F M k' c' \<and> k \<le> k' \<and> k' \<le> d \<and> (\<forall>y\<in>set out. data_ok s F M k' y))"
proof -
  obtain kind seq missing where a: "kind \<in> {UControlAck, UControlNack}"
    "length missing \<le> kUdpControlMaxMissingPerNack" "kind = UControlAck \<longrightarrow> unat seq \<le> d"
    and x': "x = encode_control_ack_packet (ack_packet s kind seq missing)"
    using x unfolding ack_form_def by blast
  have "ch_txStreamId c = s" using ok by (simp add: sender_ok_def)
  then have res': "(c', out) = (if ch_closed c then (c, []) else handle_ack (ack_packet s kind seq missing) t c)"
    using res unfolding x' on_packet_ack [OF a(1,2)] by simp
  show ?thesis
  proof (cases "ch_closed c")
    case True
    then show ?thesis using res' ok kd by auto
  next
    case False
    then have step: "handle_ack (ack_packet s kind seq missing) t c = (c', out)" using res' by simp
    have kind: "kind = UControlAck \<or> kind = UControlNack" "kind = UControlAck \<Longrightarrow> unat seq \<le> d" using a by auto
    have "same_rx c c'" "ch_closeReason c' = ch_closeReason c"
      using handle_ack_same_rx [where c = c and p = "ack_packet s kind seq missing" and t = t] step by simp_all
    then show ?thesis using handle_ack_ok [OF F M ok kd kind step] by simp
  qed
qed

lemma packet_ok:
  assumes F: "0 < unat F" and M: "\<forall>m\<in>set M. message_ok F m" "length M < 4294967295"
    and G: "0 < unat G" and N: "\<forall>m\<in>set N. message_ok G m" "length N < 4294967295"
    and ok: "endpoint_ok s F M k r G N d c" and le: "k \<le> dm" "kn \<le> d"
    and x: "data_ok r G N kn x \<or> ack_form s dm x"
    and res: "on_packet x t c = (mine, c', out)"
  shows "\<exists>k' d'. endpoint_ok s F M k' r G N d' c' \<and> k \<le> k' \<and> k' \<le> dm \<and> d \<le> d' \<and>
    emitted_ok s F M k' r d' out \<and> ch_rxReady c' = ch_rxReady c @ drop d (take d' N) \<and>
    (ch_closeReason c' = MalformedMessage \<longrightarrow> ch_closeReason c = MalformedMessage)"
proof -
  have snd: "sender_ok s F M k c" and rcv: "receiver_ok r G N d c" using ok by (auto simp: endpoint_ok_def)
  from x show ?thesis
  proof
    assume "data_ok r G N kn x"
    note step = receive_data_ok [OF G N rcv this le(2) res]
    then obtain d' where d': "receiver_ok r G N d' c'" "d \<le> d'" "\<forall>y\<in>set out. ack_form r d' y"
      "ch_rxReady c' = ch_rxReady c @ drop d (take d' N)" by blast
    have "sender_ok s F M k c'" using sender_ok_same [OF snd] step by blast
    then show ?thesis using d' le step by (intro exI [of _ k] exI [of _ d']) (auto simp: endpoint_ok_def emitted_ok_def)
  next
    assume "ack_form s dm x"
    note step = receive_ack_ok [OF F M snd le(1) this res]
    then obtain k' where k': "sender_ok s F M k' c'" "k \<le> k'" "k' \<le> dm" "\<forall>y\<in>set out. data_ok s F M k' y" by blast
    have "receiver_ok r G N d c'" "ch_rxReady c' = ch_rxReady c"
      using receiver_ok_same [OF rcv] step by (auto simp: same_rx_def)
    then show ?thesis using k' step by (intro exI [of _ k'] exI [of _ d]) (auto simp: endpoint_ok_def emitted_ok_def)
  qed
qed

section \<open>Two ends and the network\<close>

text \<open>
  An end with everything it has ever sent, the messages \<open>Send\<close> accepted and those \<open>Receive\<close> handed out.
\<close>

record node =
  nd_chan :: channel
  nd_sent :: "bytes list"
  nd_accepted :: "bytes list"
  nd_received :: "bytes list"

definition start_node :: "u32 \<Rightarrow> u32 \<Rightarrow> u32 \<Rightarrow> node" where
  "start_node tx rx mtu = \<lparr>nd_chan = configure_channel tx rx mtu initial_channel, nd_sent = [],
     nd_accepted = [], nd_received = []\<rparr>"

definition node_op :: "channel_op \<Rightarrow> u64 \<Rightarrow> node \<Rightarrow> node" where
  "node_op op t a = (let (acc, got, c, out) = run_op op t (nd_chan a) in
     a\<lparr>nd_chan := c, nd_sent := nd_sent a @ out, nd_accepted := nd_accepted a @ acc,
       nd_received := nd_received a @ got\<rparr>)"

definition node_packet :: "bytes \<Rightarrow> u64 \<Rightarrow> node \<Rightarrow> node" where
  "node_packet x t a = (let (_, c, out) = on_packet x t (nd_chan a) in
     a\<lparr>nd_chan := c, nd_sent := nd_sent a @ out\<rparr>)"

text \<open>Traffic that is not of this pair of streams: other protocols, an earlier session.\<close>

definition foreign :: "channel \<Rightarrow> bytes \<Rightarrow> bool" where
  "foreign c x \<longleftrightarrow> \<not> is_control_datagram x \<or>
     cc_streamId (decode_control_chunk_header x) \<noteq> ch_rxStreamId c \<and>
     ca_streamId (decode_control_ack_packet x) \<noteq> ch_txStreamId c"

definition net_frag_bytes :: "u32 \<Rightarrow> u32" where
  "net_frag_bytes mtu = ch_fragBytes (configure_channel 0 0 mtu initial_channel)"

definition resumed_node :: "channel \<Rightarrow> node" where
  "resumed_node c = \<lparr>nd_chan = c, nd_sent = [], nd_accepted = [], nd_received = []\<rparr>"

text \<open>
  Two freshly configured ends, or two ends that have resumed onto a common pair of streams, in
  whatever state they were before. Any datagram ever sent may arrive, at any time, any number of
  times or never. Only the channel itself closes with \<open>MalformedMessage\<close>.
\<close>

inductive control_net :: "u32 \<Rightarrow> u32 \<Rightarrow> u32 \<Rightarrow> u32 \<Rightarrow> node \<Rightarrow> node \<Rightarrow> bool" for sa sb mtua mtub where
  net_start: "control_net sa sb mtua mtub (start_node sa sb mtua) (start_node sb sa mtub)"
| net_resumed: "resume_with sa sb c = (True, c') \<Longrightarrow> resume_with sb sa d = (True, d') \<Longrightarrow>
    ch_fragBytes c = net_frag_bytes mtua \<Longrightarrow> ch_fragBytes d = net_frag_bytes mtub \<Longrightarrow>
    control_net sa sb mtua mtub (resumed_node c') (resumed_node d')"
| net_op_a: "control_net sa sb mtua mtub a b \<Longrightarrow> op \<noteq> OpClose MalformedMessage \<Longrightarrow>
    control_net sa sb mtua mtub (node_op op t a) b"
| net_op_b: "control_net sa sb mtua mtub a b \<Longrightarrow> op \<noteq> OpClose MalformedMessage \<Longrightarrow>
    control_net sa sb mtua mtub a (node_op op t b)"
| net_packet_a: "control_net sa sb mtua mtub a b \<Longrightarrow> x \<in> set (nd_sent b) \<or> foreign (nd_chan a) x \<Longrightarrow>
    control_net sa sb mtua mtub (node_packet x t a) b"
| net_packet_b: "control_net sa sb mtua mtub a b \<Longrightarrow> x \<in> set (nd_sent a) \<or> foreign (nd_chan b) x \<Longrightarrow>
    control_net sa sb mtua mtub a (node_packet x t b)"

text \<open>The direction from \<open>a\<close> to \<open>b\<close>, and the whole.\<close>

definition half_ok :: "u32 \<Rightarrow> u32 \<Rightarrow> nat \<Rightarrow> nat \<Rightarrow> node \<Rightarrow> node \<Rightarrow> bool" where
  "half_ok s F k d a b \<longleftrightarrow> 0 < unat F \<and> (\<forall>m\<in>set (nd_accepted a). message_ok F m) \<and>
     sender_ok s F (nd_accepted a) k (nd_chan a) \<and> receiver_ok s F (nd_accepted a) d (nd_chan b) \<and> k \<le> d \<and>
     nd_received b @ ch_rxReady (nd_chan b) = take d (nd_accepted a) \<and>
     ch_closeReason (nd_chan b) \<noteq> MalformedMessage"

definition net_ok :: "u32 \<Rightarrow> u32 \<Rightarrow> u32 \<Rightarrow> u32 \<Rightarrow> node \<Rightarrow> node \<Rightarrow> bool" where
  "net_ok s F r G a b \<longleftrightarrow> (\<exists>k d kn dn. half_ok s F k d a b \<and> half_ok r G kn dn b a \<and>
     emitted_ok s F (nd_accepted a) k r dn (nd_sent a) \<and> emitted_ok r G (nd_accepted b) kn s d (nd_sent b))"

lemma net_ok_swap: "net_ok s F r G a b \<Longrightarrow> net_ok r G s F b a"
  by (auto simp: net_ok_def)

lemma net_ok_op:
  assumes ok: "net_ok s F r G a b" and op: "op \<noteq> OpClose MalformedMessage"
  shows "net_ok s F r G (node_op op t a) b"
proof -
  obtain k d kn dn where out: "half_ok s F k d a b" and inn: "half_ok r G kn dn b a"
    and sent: "emitted_ok s F (nd_accepted a) k r dn (nd_sent a)" "emitted_ok r G (nd_accepted b) kn s d (nd_sent b)"
    using ok by (auto simp: net_ok_def)
  obtain acc got c' xs where res: "run_op op t (nd_chan a) = (acc, got, c', xs)" by (metis surj_pair)
  have end_ok: "endpoint_ok s F (nd_accepted a) k r G (nd_accepted b) dn (nd_chan a)"
    and F: "0 < unat F" and M: "\<forall>m\<in>set (nd_accepted a). message_ok F m"
    using out inn by (auto simp: half_ok_def endpoint_ok_def)
  note step = run_op_ok [OF F M end_ok op res]
  have a': "node_op op t a = a\<lparr>nd_chan := c', nd_sent := nd_sent a @ xs, nd_accepted := nd_accepted a @ acc,
      nd_received := nd_received a @ got\<rparr>" by (simp add: node_op_def res)
  have "d \<le> length (nd_accepted a)" using out by (simp add: half_ok_def receiver_ok_def)
  then have "half_ok s F k d (node_op op t a) b"
    using out step unfolding a' by (auto simp: half_ok_def endpoint_ok_def intro: receiver_ok_append)
  moreover have "half_ok r G kn dn b (node_op op t a)"
    using inn step unfolding a' by (auto simp: half_ok_def endpoint_ok_def)
  moreover have "emitted_ok s F (nd_accepted (node_op op t a)) k r dn (nd_sent (node_op op t a))"
    using emitted_ok_mono [OF sent(1) order_refl order_refl, of acc] step unfolding a' by simp
  ultimately show ?thesis using sent(2) unfolding net_ok_def by blast
qed

lemma foreign_ignored: "foreign c x \<Longrightarrow> snd (on_packet x t c) = (c, [])"
  by (auto simp: foreign_def on_packet_def Let_def)

lemma net_ok_packet:
  assumes ok: "net_ok s F r G a b" and x: "x \<in> set (nd_sent b) \<or> foreign (nd_chan a) x"
    and len: "length (nd_accepted a) < 4294967295" "length (nd_accepted b) < 4294967295"
  shows "net_ok s F r G (node_packet x t a) b"
proof (cases "foreign (nd_chan a) x")
  case True
  then have "node_packet x t a = a" using foreign_ignored [OF True, of t] by (simp add: node_packet_def case_prod_beta)
  then show ?thesis using ok by simp
next
  case False
  obtain k d kn dn where out: "half_ok s F k d a b" and inn: "half_ok r G kn dn b a"
    and sent: "emitted_ok s F (nd_accepted a) k r dn (nd_sent a)" "emitted_ok r G (nd_accepted b) kn s d (nd_sent b)"
    using ok by (auto simp: net_ok_def)
  obtain mine c' xs where res: "on_packet x t (nd_chan a) = (mine, c', xs)" by (metis surj_pair)
  have end_ok: "endpoint_ok s F (nd_accepted a) k r G (nd_accepted b) dn (nd_chan a)"
    and F: "0 < unat F" "\<forall>m\<in>set (nd_accepted a). message_ok F m" "k \<le> d"
    and G: "0 < unat G" "\<forall>m\<in>set (nd_accepted b). message_ok G m" "kn \<le> dn"
    using out inn by (auto simp: half_ok_def endpoint_ok_def)
  have form: "data_ok r G (nd_accepted b) kn x \<or> ack_form s d x"
    using x False sent(2) by (auto simp: emitted_ok_def)
  obtain k' dn' where step: "endpoint_ok s F (nd_accepted a) k' r G (nd_accepted b) dn' c'" "k \<le> k'" "k' \<le> d" "dn \<le> dn'"
    "emitted_ok s F (nd_accepted a) k' r dn' xs"
    "ch_rxReady c' = ch_rxReady (nd_chan a) @ drop dn (take dn' (nd_accepted b))"
    "ch_closeReason c' = MalformedMessage \<longrightarrow> ch_closeReason (nd_chan a) = MalformedMessage"
    using packet_ok [OF F(1,2) len(1) G(1,2) len(2) end_ok F(3) G(3) form res] by blast
  have a': "node_packet x t a = a\<lparr>nd_chan := c', nd_sent := nd_sent a @ xs\<rparr>" by (simp add: node_packet_def res)
  have "half_ok s F k' d (node_packet x t a) b"
    using out step unfolding a' by (simp add: half_ok_def endpoint_ok_def)
  moreover have "take dn (nd_accepted b) @ drop dn (take dn' (nd_accepted b)) = take dn' (nd_accepted b)"
    using step(4) by (metis append_take_drop_id min.absorb1 take_take)
  then have "half_ok r G kn dn' b (node_packet x t a)"
    using inn step unfolding a' by (auto simp: half_ok_def endpoint_ok_def simp flip: append_assoc)
  moreover have "emitted_ok s F (nd_accepted a) k' r dn' (nd_sent a @ xs)"
    using emitted_ok_mono [OF sent(1) step(2,4), of "[]"] step(5) by simp
  then have "emitted_ok s F (nd_accepted (node_packet x t a)) k' r dn' (nd_sent (node_packet x t a))" unfolding a' by simp
  ultimately show ?thesis using sent(2) unfolding net_ok_def by blast
qed

lemma net_frag_bytes_pos: "0 < unat (net_frag_bytes mtu)"
proof -
  have "(96::u32) \<le> max mtu 96" by simp
  then have "32 < unat (max mtu 96)" unfolding word_le_nat_alt by simp
  then have "0 < unat (max mtu 96 - 32)" by (simp add: unat_sub_if')
  then show ?thesis by (simp add: net_frag_bytes_def configure_channel_def Let_def)
qed

lemma start_half_ok: "half_ok s (net_frag_bytes mtu) 0 0 (start_node s r mtu) (start_node r s mtu')"
  using net_frag_bytes_pos [of mtu]
  by (simp add: half_ok_def start_node_def sender_ok_def receiver_ok_def net_frag_bytes_def configure_channel_def
      initial_channel_def Let_def of_nat_Suc)

lemma accepted_grows: "length (nd_accepted a) \<le> length (nd_accepted (node_op op t a))"
  "nd_accepted (node_packet x t a) = nd_accepted a"
  by (simp_all add: node_op_def node_packet_def case_prod_beta Let_def)

lemma control_net_ok:
  "control_net sa sb mtua mtub a b \<Longrightarrow> length (nd_accepted a) < 4294967295 \<Longrightarrow> length (nd_accepted b) < 4294967295 \<Longrightarrow>
   net_ok sa (net_frag_bytes mtua) sb (net_frag_bytes mtub) a b"
proof (induction rule: control_net.induct)
  case net_start
  have "emitted_ok s F M k r d (nd_sent (start_node x y z))" for s F M k r d x y z by (simp add: start_node_def)
  then show ?case using start_half_ok unfolding net_ok_def by blast
next
  case (net_resumed c c' d d')
  have half: "half_ok s F 0 0 (resumed_node x') (resumed_node y')"
    if "resume_with s r x = (True, x')" "resume_with r s y = (True, y')" "ch_fragBytes x = F" "0 < unat F" for s r F x x' y y'
    using that by (auto simp: half_ok_def resumed_node_def resume_with_def clear_session_def sender_ok_def
        receiver_ok_def of_nat_Suc split: if_splits)
  have none: "emitted_ok s F M k r d (nd_sent (resumed_node x))" for s F M k r d x by (simp add: resumed_node_def)
  have "half_ok sa (net_frag_bytes mtua) 0 0 (resumed_node c') (resumed_node d')"
    by (rule half [OF net_resumed(1,2,3) net_frag_bytes_pos])
  moreover have "half_ok sb (net_frag_bytes mtub) 0 0 (resumed_node d') (resumed_node c')"
    by (rule half [OF net_resumed(2,1,4) net_frag_bytes_pos])
  ultimately show ?case using none unfolding net_ok_def by blast
next
  case (net_op_a a b op t)
  then show ?case using net_ok_op [OF _ net_op_a.hyps(2)] accepted_grows(1) [of a op t] by simp
next
  case (net_op_b a b op t)
  then show ?case using net_ok_swap [OF net_ok_op [OF net_ok_swap net_op_b.hyps(2)]] accepted_grows(1) [of b op t] by simp
next
  case (net_packet_a a b x t)
  then show ?case using net_ok_packet [OF _ net_packet_a.hyps(2)] by (simp add: accepted_grows)
next
  case (net_packet_b a b x t)
  then show ?case using net_ok_swap [OF net_ok_packet [OF net_ok_swap net_packet_b.hyps(2)]] by (simp add: accepted_grows)
qed

declare of_nat_Suc [simp]

section \<open>Reliable, in order, exactly once\<close>

text \<open>
  C3. Two control channels, freshly configured or resumed onto new streams, over a network that
  loses, repeats, reorders and delays datagrams and carries traffic of other streams: in both directions the messages handed out and those waiting
  are a prefix of the messages accepted, byte for byte; a message that its sender counts as
  acknowledged has reached the other end; and no end ever closes for a malformed message. The
  bound is that of the 32-bit message numbers.
\<close>

theorem control_stream_reliable:
  assumes "control_net sa sb mtua mtub a b"
    and "length (nd_accepted a) < 4294967295" and "length (nd_accepted b) < 4294967295"
  shows "prefix (nd_received b @ ch_rxReady (nd_chan b)) (nd_accepted a) \<and>
    prefix (nd_received a @ ch_rxReady (nd_chan a)) (nd_accepted b) \<and>
    unat (ch_lastAckedTxSeq (nd_chan a)) \<le> length (nd_received b @ ch_rxReady (nd_chan b)) \<and>
    unat (ch_lastAckedTxSeq (nd_chan b)) \<le> length (nd_received a @ ch_rxReady (nd_chan a)) \<and>
    ch_closeReason (nd_chan a) \<noteq> MalformedMessage \<and> ch_closeReason (nd_chan b) \<noteq> MalformedMessage"
proof -
  have half: "prefix (nd_received y @ ch_rxReady (nd_chan y)) (nd_accepted x) \<and>
      unat (ch_lastAckedTxSeq (nd_chan x)) \<le> length (nd_received y @ ch_rxReady (nd_chan y)) \<and>
      ch_closeReason (nd_chan y) \<noteq> MalformedMessage"
    if "half_ok s F k d x y" for s F k d x y
  proof -
    have "ch_lastAckedTxSeq (nd_chan x) = of_nat k" "k \<le> d" "d \<le> length (nd_accepted x)"
      and eq: "nd_received y @ ch_rxReady (nd_chan y) = take d (nd_accepted x)"
      "ch_closeReason (nd_chan y) \<noteq> MalformedMessage"
      using that by (auto simp: half_ok_def sender_ok_def receiver_ok_def)
    moreover have "unat (of_nat k :: u32) \<le> k" by (simp add: unat_of_nat)
    ultimately show ?thesis unfolding eq by (simp add: take_is_prefix)
  qed
  show ?thesis
    using control_net_ok [OF assms] half unfolding net_ok_def by blast
qed

text \<open>One message: sent, delivered twice over the network, handed out, acknowledged.\<close>

definition example_sender :: node where
  "example_sender = node_op (OpSend [1, 2, 3]) 5 (start_node 1 2 1200)"

definition example_datagram :: bytes where
  "example_datagram = fragment_bytes 1 1168 1 [1, 2, 3] 0"

definition example_ack :: bytes where
  "example_ack = encode_control_ack_packet (ack_packet 1 UControlAck 1 [])"

definition example_receiver :: node where
  "example_receiver =
     node_op OpReceive 8 (node_packet example_datagram 7 (node_packet example_datagram 6 (start_node 2 1 1200)))"

definition example_done :: node where
  "example_done = node_packet example_ack 9 example_sender"

lemmas example_simps = start_node_def configure_channel_def initial_channel_def Let_def node_op_def node_packet_def

lemma example_message: "message_ok 1168 [1, 2, 3]" "frag_count 1168 [1, 2, 3] = 1" "0 < unat (1168 :: u32)"
  by (simp_all add: message_ok_def frag_count_def kMaxMessageBytes_def)

lemma example_sent:
  "nd_sent example_sender = [example_datagram]" "nd_accepted example_sender = [[1, 2, 3]]"
  "ch_closed (nd_chan example_sender) = False" "ch_txStreamId (nd_chan example_sender) = 1"
  "ch_probeState (nd_chan example_sender) = ProbeIdle"
  "map ob_seq (ch_txQueue (nd_chan example_sender)) = [1]"
  by (simp_all add: example_sender_def example_simps send_message_def send_limits_exceeded_def new_outbound_def
      kMaxMessageBytes_def kMaxQueuedMessages_def kMaxQueuedBytes_def queued_bytes_def send_fragments_def
      fragment_datagrams_def fragment_datagram_def List.map_filter_def example_datagram_def fragment_bytes_def
      fragment_header_def frag_count_def chunk_bytes_def chunk_size_def slice_def)

lemma example_header: "fragment_header 1 1168 1 [1, 2, 3] 0 = default_control_chunk_header
   \<lparr>cc_streamId := 1, cc_messageSeq := 1, cc_totalSize := 3, cc_fragIndex := 0, cc_fragCount := 1,
    cc_fragOffset := 0, cc_fragSize := 3\<rparr>"
  by (simp add: fragment_header_def frag_count_def chunk_size_def)

lemma replicate_3: "replicate 3 x = [x, x, x]"
  by (simp add: numeral_3_eq_3)

lemma example_slot: "new_inbound (fragment_header 1 1168 1 [1, 2, 3] 0) t = \<lparr>ib_totalSize = 3, ib_fragCount = 1,
    ib_bytes = [0, 0, 0], ib_have = [False], ib_ranges = [(0, 0)], ib_haveCount = 0, ib_lastProgressUs = t,
    ib_lastNackUs = 0, ib_createdUs = t\<rparr>"
  by (simp add: new_inbound_def example_header replicate_3)

lemma example_data:
  "on_packet example_datagram t c = (True, if ch_closed c \<or> ch_rxStreamId c \<noteq> 1 then (c, [])
     else handle_data (fragment_header 1 1168 1 [1, 2, 3] 0) [1, 2, 3] t c)"
proof -
  have "chunk_bytes [1, 2, 3] (unat (1168 :: u32)) 0 = [1, 2, 3 :: u8]"
    by (simp add: chunk_bytes_def chunk_size_def slice_def)
  moreover have "0 < frag_count 1168 [1, 2, 3]" by (simp add: example_message)
  ultimately show ?thesis
    using on_packet_fragment [OF example_message(3,1), of 0 1 1 t c] by (auto simp: example_datagram_def)
qed

lemma example_first:
  assumes "ch_rxPending c = []" "ch_rxReady c = []" "ch_rxDeliveredSeq c = 0" "ch_hasSend c" "ch_rxStreamId c = 1"
  shows "handle_data (fragment_header 1 1168 1 [1, 2, 3] 0) [1, 2, 3] t c =
    (c\<lparr>ch_rxDeliveredSeq := 1, ch_rxReady := [[1, 2, 3]], ch_rxPending := [],
       ch_stats := (ch_stats c)\<lparr>cs_messagesReceived := cs_messagesReceived (ch_stats c) + 1\<rparr>\<rparr>, [example_ack])"
proof -
  have "\<not> inbound_limits_exceeded (fragment_header 1 1168 1 [1, 2, 3] 0) c"
    using assms by (simp add: inbound_limits_exceeded_def held_inbound_bytes_def kMaxQueuedMessages_def
        kMaxQueuedBytes_def example_header)
  moreover have "\<not> malformed_fragment (fragment_header 1 1168 1 [1, 2, 3] 0) (length [1, 2, 3 :: u8])"
    by (simp add: malformed_fragment_def example_header default_control_chunk_header_def kMaxMessageBytes_def)
  moreover have "accept_fragment (fragment_header 1 1168 1 [1, 2, 3] 0) [1, 2, 3] t
      (new_inbound (fragment_header 1 1168 1 [1, 2, 3] 0) t) c =
    (c\<lparr>ch_rxDeliveredSeq := 1, ch_rxReady := [[1, 2, 3]], ch_rxPending := [],
       ch_stats := (ch_stats c)\<lparr>cs_messagesReceived := cs_messagesReceived (ch_stats c) + 1\<rparr>\<rparr>, [example_ack])"
    using assms unfolding example_slot accept_fragment_def Let_def
    by (simp add: example_header store_fragment_def overwrite_def inbound_covered_def deliver_message_def
        send_ack_or_nack_def ack_packets.simps example_ack_def)
  ultimately show ?thesis using assms by (simp add: handle_data_def example_header)
qed

lemma example_received:
  "nd_received example_receiver = [[1, 2, 3]]" "nd_accepted example_receiver = []"
  "nd_sent example_receiver = [example_ack, example_ack]" "ch_rxReady (nd_chan example_receiver) = []"
proof -
  define c where "c = configure_channel 2 1 1200 initial_channel"
  have c: "ch_rxPending c = []" "ch_rxReady c = []" "ch_rxDeliveredSeq c = 0" "ch_hasSend c" "ch_rxStreamId c = 1"
    "\<not> ch_closed c"
    by (simp_all add: c_def configure_channel_def initial_channel_def Let_def)
  have again: "handle_data (fragment_header 1 1168 1 [1, 2, 3] 0) [1, 2, 3] t x =
      (x, [example_ack])" if "ch_rxDeliveredSeq x = 1" "ch_hasSend x" "ch_rxStreamId x = 1" for t x
    using that by (simp add: handle_data_def example_header send_ack_or_nack_def ack_packets.simps example_ack_def)
  show "nd_received example_receiver = [[1, 2, 3]]" "nd_accepted example_receiver = []"
    "nd_sent example_receiver = [example_ack, example_ack]" "ch_rxReady (nd_chan example_receiver) = []"
    using c by (simp_all add: example_receiver_def start_node_def node_op_def node_packet_def Let_def
        flip: c_def) (simp_all add: example_data example_first again receive_message_def)
qed

lemma example_acked:
  "ch_lastAckedTxSeq (nd_chan example_done) = 1" "nd_accepted example_done = [[1, 2, 3]]"
proof -
  obtain msg where q: "ch_txQueue (nd_chan example_sender) = [msg]" "ob_seq msg = 1"
    using example_sent(6) by auto
  have "on_packet example_ack 9 (nd_chan example_sender) =
      (True, handle_ack (ack_packet 1 UControlAck 1 []) 9 (nd_chan example_sender))"
    using on_packet_ack [of UControlAck "[]" 1 1 9 "nd_chan example_sender"] example_sent(3,4)
    by (simp add: example_ack_def)
  then show "ch_lastAckedTxSeq (nd_chan example_done) = 1" "nd_accepted example_done = [[1, 2, 3]]"
    using q example_sent(2,5) by (simp_all add: example_done_def node_packet_def Let_def handle_ack_def)
qed

lemma example_net: "control_net 1 2 1200 1200 example_done example_receiver"
proof -
  have 1: "control_net 1 2 1200 1200 example_sender (start_node 2 1 1200)"
    unfolding example_sender_def by (intro net_op_a net_start) simp
  have 2: "control_net 1 2 1200 1200 example_sender example_receiver"
    unfolding example_receiver_def
    by (intro net_op_b net_packet_b 1 disjI1) (simp_all add: example_sent)
  show ?thesis unfolding example_done_def
    by (intro net_packet_a 2 disjI1) (simp add: example_received)
qed

lemma control_stream_reliable_witness:
  "nd_received example_receiver = [[1, 2, 3]] \<and> unat (ch_lastAckedTxSeq (nd_chan example_done)) = 1 \<and>
   prefix (nd_received example_receiver @ ch_rxReady (nd_chan example_receiver)) (nd_accepted example_done)"
  using control_stream_reliable [OF example_net] example_received example_acked by simp

end
