(* ===== verification/ControlResume.thy ===== *)
theory ControlResume
  imports ControlNetwork TokenBucket
begin

text \<open>
  \<open>control_resume.hpp\<close>: the decisions of a control-channel resume. When the viewer asks, when the
  host repeats an answer, serves, probes or refuses, the stream ids both derive, and the budget of
  repeated answers.
\<close>

section \<open>When the viewer asks\<close>

record control_resume_config =
  rc_retryIntervalUs :: u64
  rc_giveUpAfterUs :: u64

definition default_resume_config :: control_resume_config where
  "default_resume_config = \<lparr>rc_retryIntervalUs = 500000, rc_giveUpAfterUs = 30000000\<rparr>"

record control_resume_inputs =
  ri_negotiated :: bool
  ri_controlDead :: bool
  ri_videoAlive :: bool
  ri_controlDeadForUs :: u64
  ri_sinceLastAttemptUs :: u64

datatype control_resume_action = ResumeIdle | ResumeSend | ResumeGiveUp

definition control_resume_decide :: "control_resume_config \<Rightarrow> control_resume_inputs \<Rightarrow> control_resume_action" where
  "control_resume_decide config inp =
    (if \<not> ri_negotiated inp then ResumeIdle
     else if \<not> ri_controlDead inp then ResumeIdle
     else if \<not> ri_videoAlive inp then ResumeIdle
     else if 0 < rc_giveUpAfterUs config \<and> rc_giveUpAfterUs config \<le> ri_controlDeadForUs inp then ResumeGiveUp
     else if ri_sinceLastAttemptUs inp < rc_retryIntervalUs config then ResumeIdle
     else ResumeSend)"

section \<open>Stream ids\<close>

definition kUdpControlStreamClientToHost :: u32 where "kUdpControlStreamClientToHost = 1"
definition kUdpControlStreamHostToClient :: u32 where "kUdpControlStreamHostToClient = 2"

definition control_resume_stream_id :: "u32 \<Rightarrow> u32 \<Rightarrow> u32" where
  "control_resume_stream_id baseStreamId resumeId =
    0x80000000 OR (push_bit 2 resumeId AND 0x7FFFFFFC) OR (baseStreamId AND 3)"

section \<open>What the host answers\<close>

record host_resume_ack =
  ra_valid :: bool
  ra_epoch :: u64
  ra_peerIpNet :: u32
  ra_peerPortNet :: u16
  ra_resumeId :: u32
  ra_requestStreamId :: u32
  ra_txStreamId :: u32
  ra_rxStreamId :: u32
  ra_ackStreamId :: u32

definition no_resume_ack :: host_resume_ack where
  "no_resume_ack = \<lparr>ra_valid = False, ra_epoch = 0, ra_peerIpNet = 0, ra_peerPortNet = 0, ra_resumeId = 0,
     ra_requestStreamId = 0, ra_txStreamId = 0, ra_rxStreamId = 0, ra_ackStreamId = 0\<rparr>"

record host_resume_replay_inputs =
  rp_negotiated :: bool
  rp_sessionActive :: bool
  rp_epoch :: u64
  rp_peerIpNet :: u32
  rp_peerPortNet :: u16
  rp_resumeId :: u32
  rp_requestStreamId :: u32
  rp_channelTxStreamId :: u32
  rp_channelRxStreamId :: u32

definition host_should_replay_resume_ack :: "host_resume_ack \<Rightarrow> host_resume_replay_inputs \<Rightarrow> bool" where
  "host_should_replay_resume_ack cached inp \<longleftrightarrow>
     ra_valid cached \<and> rp_negotiated inp \<and> rp_sessionActive inp \<and> ra_epoch cached = rp_epoch inp \<and>
     ra_peerIpNet cached = rp_peerIpNet inp \<and> ra_peerPortNet cached = rp_peerPortNet inp \<and>
     ra_resumeId cached = rp_resumeId inp \<and> ra_requestStreamId cached = rp_requestStreamId inp \<and>
     ra_txStreamId cached = rp_channelTxStreamId inp \<and> ra_rxStreamId cached = rp_channelRxStreamId inp"

datatype host_resume_verdict = VerdictIgnore | VerdictReplayAck | VerdictServe | VerdictProbe | VerdictRefuse

record host_resume_eligibility =
  el_negotiated :: bool
  el_sessionActive :: bool
  el_servingControl :: bool
  el_cacheMatches :: bool
  el_sameIdAsCache :: bool
  el_channelPeerLost :: bool
  el_probe :: control_probe_state

definition host_resume_verdict :: "host_resume_eligibility \<Rightarrow> host_resume_verdict" where
  "host_resume_verdict inp =
    (if \<not> el_negotiated inp \<or> \<not> el_sessionActive inp then VerdictIgnore
     else if el_cacheMatches inp then VerdictReplayAck
     else if \<not> el_servingControl inp then VerdictServe
     else if el_sameIdAsCache inp then VerdictRefuse
     else if el_channelPeerLost inp then VerdictServe
     else if el_probe inp = ProbeAlive then VerdictRefuse
     else if el_probe inp = ProbeDead then VerdictServe
     else VerdictProbe)"

definition host_resume_should_raise_wake :: "bool \<Rightarrow> bool \<Rightarrow> bool \<Rightarrow> bool" where
  "host_resume_should_raise_wake accepted wakePending pendingIsSameAsk \<longleftrightarrow>
     accepted \<and> \<not> (wakePending \<and> pendingIsSameAsk)"

definition kResumeProbeMaxAttempts :: u32 where "kResumeProbeMaxAttempts = 6"
definition kResumeProbeIntervalUs :: u64 where "kResumeProbeIntervalUs = 250000"
definition kResumeProbeFreshUs :: u64 where "kResumeProbeFreshUs = 750000"
definition kResumeProbeMaxPerRecovery :: u32 where "kResumeProbeMaxPerRecovery = 64"

datatype resume_probe_action = ProbeUse | ProbeRestart

record resume_probe_freshness =
  pf_state :: control_probe_state
  pf_ageUs :: u64
  pf_probesThisRecovery :: u32
  pf_freshUs :: u64
  pf_maxProbes :: u32

definition resume_probe_action :: "resume_probe_freshness \<Rightarrow> resume_probe_action" where
  "resume_probe_action inp =
    (if pf_state inp = ProbePending then ProbeUse
     else if pf_state inp = ProbeDead then ProbeUse
     else if pf_maxProbes inp \<le> pf_probesThisRecovery inp then ProbeUse
     else if pf_state inp = ProbeIdle then ProbeRestart
     else if pf_freshUs inp \<le> pf_ageUs inp then ProbeRestart else ProbeUse)"

record control_dispatch_inputs =
  di_stop :: bool
  di_epoch :: u64
  di_servedEpoch :: u64
  di_resumeSeq :: u64
  di_servedResumeSeq :: u64

record control_dispatch_decision =
  dd_wake :: bool
  dd_resuming :: bool

definition control_dispatch_decide :: "control_dispatch_inputs \<Rightarrow> control_dispatch_decision" where
  "control_dispatch_decide inp =
    (let wake = di_stop inp \<or> di_servedEpoch inp < di_epoch inp \<or> di_servedResumeSeq inp < di_resumeSeq inp in
     \<lparr>dd_wake = wake, dd_resuming = wake \<and> \<not> di_stop inp \<and> di_epoch inp \<le> di_servedEpoch inp\<rparr>)"

section \<open>The budget of repeated answers\<close>

record resume_ack_budget =
  bu_perSecond :: u32
  bu_burst :: u32
  bu_tokensMilli :: u64
  bu_lastUs :: u64
  bu_started :: bool

definition resume_ack_budget_init :: "u32 \<Rightarrow> u32 \<Rightarrow> resume_ack_budget" where
  "resume_ack_budget_init perSecond burst = \<lparr>bu_perSecond = perSecond, bu_burst = burst,
     bu_tokensMilli = ucast burst * 1000, bu_lastUs = 0, bu_started = False\<rparr>"

definition budget_refill :: "u64 \<Rightarrow> resume_ack_budget \<Rightarrow> resume_ack_budget" where
  "budget_refill nowUs b =
    (if \<not> bu_started b then b\<lparr>bu_started := True, bu_lastUs := nowUs\<rparr>
     else if bu_lastUs b < nowUs
     then let tokens = bu_tokensMilli b + (nowUs - bu_lastUs b) * ucast (bu_perSecond b) div 1000;
              cap = ucast (bu_burst b) * 1000 in
       b\<lparr>bu_tokensMilli := (if cap < tokens then cap else tokens), bu_lastUs := nowUs\<rparr>
     else b)"

definition budget_take :: "u64 \<Rightarrow> resume_ack_budget \<Rightarrow> bool \<times> resume_ack_budget" where
  "budget_take nowUs b =
    (let b = budget_refill nowUs b in
     if bu_tokensMilli b < 1000 then (False, b)
     else (True, b\<lparr>bu_tokensMilli := bu_tokensMilli b - 1000\<rparr>))"

definition budget_restart :: "u64 \<Rightarrow> resume_ack_budget \<Rightarrow> resume_ack_budget" where
  "budget_restart nowUs b =
     b\<lparr>bu_started := True, bu_lastUs := nowUs, bu_tokensMilli := ucast (bu_burst b) * 1000\<rparr>"

definition kResumeAckReplayPerSecond :: u32 where "kResumeAckReplayPerSecond = 4"
definition kResumeAckReplayBurst :: u32 where "kResumeAckReplayBurst = 2"
definition kResumeAckGlobalPerSecond :: u32 where "kResumeAckGlobalPerSecond = 32"
definition kResumeAckGlobalBurst :: u32 where "kResumeAckGlobalBurst = 16"

text \<open>
  Millionths of an answer. The product in the refill may wrap; it only ever earns less then. A
  budget that has not started counts as started at the time of its first request.
\<close>

definition budget_level :: "resume_ack_budget \<Rightarrow> nat" where
  "budget_level b = unat (bu_tokensMilli b) * 1000"

definition budget_inv :: "u32 \<Rightarrow> u32 \<Rightarrow> resume_ack_budget \<Rightarrow> bool" where
  "budget_inv perSecond burst b \<longleftrightarrow> bu_started b \<and> bu_perSecond b = perSecond \<and> bu_burst b = burst \<and>
     unat (bu_tokensMilli b) \<le> unat burst * 1000"

lemma unat_budget_cap: "unat (ucast (burst :: u32) * 1000 :: u64) = unat burst * 1000"
proof -
  have "unat (ucast burst :: u64) = unat burst"
    using unat_bounds(3) [of burst] by (simp add: unsigned_ucast_eq take_bit_nat_eq_self)
  then show ?thesis using unat_bounds(3) [of burst] by (simp add: unat_word_ariths)
qed

lemma budget_take_step:
  assumes inv: "budget_inv perSecond burst b"
  shows "budget_inv perSecond burst (snd (budget_take t b))"
    "unat (bu_lastUs b) \<le> unat (bu_lastUs (snd (budget_take t b)))"
    "budget_level (snd (budget_take t b)) + 1000000 * (if fst (budget_take t b) then 1 else 0) \<le>
      budget_level b + unat perSecond * (unat (bu_lastUs (snd (budget_take t b))) - unat (bu_lastUs b))"
proof -
  let ?r = "budget_refill t b"
  have b: "bu_started b" "bu_perSecond b = perSecond" "bu_burst b = burst" "unat (bu_tokensMilli b) \<le> unat burst * 1000"
    using inv by (auto simp: budget_inv_def)
  have r: "budget_inv perSecond burst ?r" "unat (bu_lastUs b) \<le> unat (bu_lastUs ?r)"
    "budget_level ?r \<le> budget_level b + unat perSecond * (unat (bu_lastUs ?r) - unat (bu_lastUs b))"
  proof -
    let ?e = "t - bu_lastUs b"
    let ?earn = "?e * ucast perSecond div 1000"
    have e: "unat ?e = unat t - unat (bu_lastUs b)" if "bu_lastUs b < t"
      using that by (simp add: unat_sub order_less_imp_le)
    have "unat (?e * ucast perSecond) \<le> unat ?e * unat perSecond"
      by (simp add: unat_word_ariths unat_u32_u64)
    then have earn: "unat ?earn * 1000 \<le> unat ?e * unat perSecond"
      unfolding unat_div by (simp add: le_trans [OF div_times_less_eq_dividend])
    have sum: "unat (bu_tokensMilli b + ?earn) \<le> unat (bu_tokensMilli b) + unat ?earn"
      by (simp add: unat_word_ariths)
    show "budget_inv perSecond burst ?r"
      using b by (auto simp: budget_inv_def budget_refill_def Let_def unat_budget_cap word_less_nat_alt)
    show "unat (bu_lastUs b) \<le> unat (bu_lastUs ?r)"
      using b(1) by (auto simp: budget_refill_def Let_def word_less_nat_alt)
    show "budget_level ?r \<le> budget_level b + unat perSecond * (unat (bu_lastUs ?r) - unat (bu_lastUs b))"
    proof (cases "bu_lastUs b < t")
      case True
      have "unat (bu_tokensMilli ?r) \<le> unat (bu_tokensMilli b) + unat ?earn"
        using True b sum by (auto simp: budget_refill_def Let_def unat_budget_cap word_less_nat_alt)
      moreover have "bu_lastUs ?r = t" using True b(1) by (simp add: budget_refill_def Let_def)
      ultimately show ?thesis using earn e [OF True] by (simp add: budget_level_def mult.commute)
    next
      case False
      then show ?thesis using b(1) by (simp add: budget_refill_def)
    qed
  qed
  show "budget_inv perSecond burst (snd (budget_take t b))"
    "unat (bu_lastUs b) \<le> unat (bu_lastUs (snd (budget_take t b)))"
    "budget_level (snd (budget_take t b)) + 1000000 * (if fst (budget_take t b) then 1 else 0) \<le>
      budget_level b + unat perSecond * (unat (bu_lastUs (snd (budget_take t b))) - unat (bu_lastUs b))"
    using r by (auto simp: budget_take_def Let_def budget_inv_def budget_level_def word_less_nat_alt unat_sub_if')
qed

interpretation budget: token_bucket "budget_inv perSecond burst" budget_level "\<lambda>b. unat (bu_lastUs b)"
    "\<lambda>t b. snd (budget_take t b)" "\<lambda>t b. if fst (budget_take t b) then 1 else 0" "\<lambda>_ _. 0" "\<lambda>_ _. True"
    "unat perSecond" "unat burst * 1000000" 1000000 for perSecond burst
proof unfold_locales
  fix b t assume "budget_inv perSecond burst b"
  note step = budget_take_step [OF this, of t]
  show "budget_inv perSecond burst (snd (budget_take t b))" "unat (bu_lastUs b) \<le> unat (bu_lastUs (snd (budget_take t b)))"
    by (rule step)+
  show "budget_level (snd (budget_take t b)) + 1000000 * (if fst (budget_take t b) then 1 else 0) \<le>
      budget_level b + 1000000 * 0 + unat perSecond * (unat (bu_lastUs (snd (budget_take t b))) - unat (bu_lastUs b))"
    using step(3) by simp
next
  fix b assume "budget_inv perSecond burst b"
  then show "budget_level b \<le> unat burst * 1000000" by (simp add: budget_inv_def budget_level_def)
qed

text \<open>The answers of a budget to requests at the given times.\<close>

fun budget_run :: "u64 list \<Rightarrow> resume_ack_budget \<Rightarrow> bool list" where
  "budget_run [] b = []"
| "budget_run (t # ts) b = (let (ok, b') = budget_take t b in ok # budget_run ts b')"

lemma budget_run_bucket:
  "count_true (budget_run ts b) = budget.granted ts b"
  by (induction ts arbitrary: b) (simp_all add: count_true_def Let_def case_prod_beta)

lemma budget_run_legal: "budget.legal ts b" "budget.returned ts b = 0"
  by (induction ts arbitrary: b) simp_all

lemma budget_run_clock:
  "\<forall>x\<in>set ts. x \<le> T \<Longrightarrow> bu_lastUs b \<le> T \<Longrightarrow> bu_lastUs (budget.run ts b) \<le> T"
proof (induction ts arbitrary: b)
  case (Cons t ts)
  have "bu_lastUs (snd (budget_take t b)) \<le> T"
    using Cons.prems by (auto simp: budget_take_def budget_refill_def Let_def)
  then show ?case using Cons by simp
qed simp

lemma budget_start:
  "budget_take t (resume_ack_budget_init perSecond burst) =
   budget_take t ((resume_ack_budget_init perSecond burst)\<lparr>bu_started := True, bu_lastUs := t\<rparr>)"
  by (simp add: budget_take_def budget_refill_def resume_ack_budget_init_def)

lemma budget_started_inv:
  "budget_inv perSecond burst ((resume_ack_budget_init perSecond burst)\<lparr>bu_started := True, bu_lastUs := t\<rparr>)"
  by (simp add: budget_inv_def resume_ack_budget_init_def unat_budget_cap)

text \<open>
  However many requests arrive, at whatever times between the first and \<open>T\<close>, a budget grants
  at most its burst plus its rate times the time since the first request.
\<close>

theorem resume_answers_limited:
  assumes "t \<le> T" and "\<forall>x\<in>set ts. x \<le> T"
  shows "1000000 * count_true (budget_run (t # ts) (resume_ack_budget_init perSecond burst)) \<le>
    1000000 * unat burst + unat perSecond * (unat T - unat t)"
proof -
  let ?b = "(resume_ack_budget_init perSecond burst)\<lparr>bu_started := True, bu_lastUs := t\<rparr>"
  have "count_true (budget_run (t # ts) (resume_ack_budget_init perSecond burst)) = budget.granted (t # ts) ?b"
    unfolding budget_run_bucket [symmetric] by (simp add: budget_start)
  moreover have "1000000 * budget.granted (t # ts) ?b \<le> unat burst * 1000000 +
      unat perSecond * (unat (bu_lastUs (budget.run (t # ts) ?b)) - unat t)"
    using budget.envelope [OF budget_started_inv [of perSecond burst t] budget_run_legal(1) [of "t # ts" ?b]]
      budget_run_legal(2) [of "t # ts" ?b] by simp
  moreover have "bu_lastUs (budget.run (t # ts) ?b) \<le> T"
    using assms by (intro budget_run_clock) simp_all
  then have "unat perSecond * (unat (bu_lastUs (budget.run (t # ts) ?b)) - unat t) \<le> unat perSecond * (unat T - unat t)"
    by (intro mult_le_mono diff_le_mono) (simp_all add: word_le_nat_alt)
  ultimately show ?thesis by linarith
qed

text \<open>
  A request costs the fraction of a thousandth that it has earned: the product is divided by 1000
  and the clock still moves on. Requests that come often enough earn nothing.
\<close>

lemma budget_starved_run:
  "bu_started b \<Longrightarrow>
   successively (\<lambda>x y. x \<le> y \<and> unat (y - x) * unat (bu_perSecond b) < 1000) (bu_lastUs b # ts) \<Longrightarrow>
   1000 * count_true (budget_run ts b) \<le> unat (bu_tokensMilli b)"
proof (induction ts arbitrary: b)
  case (Cons t ts)
  have gap: "bu_lastUs b \<le> t" "unat (t - bu_lastUs b) * unat (bu_perSecond b) < 1000"
    using Cons.prems(2) by simp_all
  have none: "(t - bu_lastUs b) * ucast (bu_perSecond b) div 1000 = 0"
    using gap(2) by (simp add: word_unat_eq_iff unat_div unat_word_ariths(2) unat_u32_u64)
  let ?r = "budget_refill t b"
  have r: "bu_started ?r" "bu_perSecond ?r = bu_perSecond b" "bu_lastUs ?r = t" "bu_tokensMilli ?r \<le> bu_tokensMilli b"
    using Cons.prems(1) gap(1) none by (auto simp: budget_refill_def Let_def)
  obtain ok b' where take: "budget_take t b = (ok, b')" by fastforce
  then have b': "bu_started b'" "bu_perSecond b' = bu_perSecond b" "bu_lastUs b' = t"
    "unat (bu_tokensMilli b') + (if ok then 1000 else 0) \<le> unat (bu_tokensMilli b)"
    using r by (auto simp: budget_take_def Let_def unat_sub word_le_nat_alt word_less_nat_alt split: if_splits)
  have "1000 * count_true (budget_run ts b') \<le> unat (bu_tokensMilli b')"
    using Cons.IH [of b'] Cons.prems(2) b' by simp
  then show ?case using b'(4) by (cases ok) (simp_all add: take count_true_def)
qed (simp add: count_true_def)

text \<open>
  The refill rounds down at every request and keeps no remainder: while requests keep coming
  so often that none earns a thousandth of an answer (at four a second: closer together than
  250 microseconds), the burst is all that is ever granted, however long they go on.
\<close>

theorem resume_budget_starves:
  assumes "successively (\<lambda>x y. x \<le> y \<and> unat (y - x) * unat perSecond < 1000) asks"
  shows "count_true (budget_run asks (resume_ack_budget_init perSecond burst)) \<le> unat burst"
proof (cases asks)
  case (Cons t ts)
  let ?b = "(resume_ack_budget_init perSecond burst)\<lparr>bu_started := True, bu_lastUs := t\<rparr>"
  have b: "bu_started ?b" "bu_perSecond ?b = perSecond" "bu_lastUs ?b = t"
    by (simp_all add: resume_ack_budget_init_def)
  have "budget_run asks (resume_ack_budget_init perSecond burst) = budget_run asks ?b"
    by (simp add: Cons budget_start)
  moreover have "1000 * count_true (budget_run asks ?b) \<le> unat (bu_tokensMilli ?b)"
    using assms by (intro budget_starved_run [OF b(1)]) (simp add: b Cons)
  moreover have "unat (bu_tokensMilli ?b) = unat burst * 1000"
    by (simp add: resume_ack_budget_init_def unat_budget_cap)
  ultimately show ?thesis by simp
qed (simp add: count_true_def)

section \<open>Fresh streams\<close>

lemma resume_bits:
  "bit (control_resume_stream_id base r) n \<longleftrightarrow>
    n = 31 \<or> (2 \<le> n \<and> n < 31 \<and> bit r (n - 2)) \<or> (n < 2 \<and> bit base n)"
proof -
  have "(0x80000000 :: u32) = push_bit 31 1" and mid: "(0x7FFFFFFC :: u32) = push_bit 2 (mask 29)"
    and low: "(3 :: u32) = mask 2"
    by (simp_all add: push_bit_eq_mult mask_eq_exp_minus_1)
  then have top: "bit (0x80000000 :: u32) n \<longleftrightarrow> n = 31" by (simp only: bit_push_bit_iff bit_1_iff) auto
  have r: "bit r k \<Longrightarrow> k < 32" for k using bit_imp_le_length [of r k] by simp
  show ?thesis unfolding control_resume_stream_id_def bit_or_iff bit_and_iff top mid low
    by (auto simp: bit_simps dest: r)
qed

lemma resume_stream_id_inj:
  assumes "control_resume_stream_id base r = control_resume_stream_id base' r'"
  shows "base AND 3 = base' AND 3" "take_bit 29 r = take_bit 29 r'"
proof -
  have low: "(3 :: u32) = mask 2" by (simp add: mask_eq_exp_minus_1)
  have bits: "bit (control_resume_stream_id base r) n = bit (control_resume_stream_id base' r') n" for n
    using assms by simp
  show "base AND 3 = base' AND 3"
  proof (rule bit_word_eqI)
    fix n
    have "n < 2 \<Longrightarrow> bit base n = bit base' n" using bits [of n] by (simp add: resume_bits)
    then show "bit (base AND 3) n = bit (base' AND 3) n" unfolding low by (auto simp: bit_simps)
  qed
  have "bit r n = bit r' n" if "n < 29" for n using bits [of "n + 2"] that by (simp add: resume_bits)
  then show "take_bit 29 r = take_bit 29 r'" by (intro bit_word_eqI) (auto simp: bit_simps)
qed

lemma resume_stream_id_not_base: "b < 0x80000000 \<Longrightarrow> control_resume_stream_id base r \<noteq> b"
proof
  assume small: "b < 0x80000000" and eq: "control_resume_stream_id base r = b"
  have "bit b 31" using resume_bits [of base r 31] eq by simp
  moreover have "b = take_bit 31 b"
    using small by (simp add: word_less_nat_alt take_bit_eq_mod word_unat_eq_iff unat_mod)
  then have "\<not> bit b 31" by (metis bit_take_bit_iff less_irrefl)
  ultimately show False by simp
qed

text \<open>The stream a control datagram names, in either layout.\<close>

definition datagram_stream :: "bytes \<Rightarrow> u32" where
  "datagram_stream x = of_nat (le_value (slice x 8 4))"

lemma datagram_stream: "cc_streamId (decode_control_chunk_header x) = datagram_stream x"
  "ca_streamId (decode_control_ack_packet x) = datagram_stream x"
  by (simp_all add: datagram_stream_def decode_control_chunk_header_def decode_control_ack_packet_def
      control_chunk_layout_def control_ack_layout_def slice_def)

text \<open>
  After a resume every datagram of an earlier stream, be it a base stream or one derived from
  another resume id (modulo 2^29), in either direction, is ignored: nothing is delivered, nothing
  acknowledged, nothing answered.
\<close>

theorem resume_ignores_stale:
  assumes "resume_with (control_resume_stream_id tx r) (control_resume_stream_id rx r) c = (True, c')"
    and "datagram_stream x < 0x80000000 \<or>
      (\<exists>base r'. datagram_stream x = control_resume_stream_id base r' \<and> take_bit 29 r' \<noteq> take_bit 29 r)"
  shows "snd (on_packet x t c') = (c', [])"
proof -
  have ids: "ch_txStreamId c' = control_resume_stream_id tx r" "ch_rxStreamId c' = control_resume_stream_id rx r"
    using assms(1) by (auto simp: resume_with_def split: if_splits)
  have "datagram_stream x \<noteq> control_resume_stream_id base r" for base
    using assms(2) resume_stream_id_not_base [of "datagram_stream x" base r] resume_stream_id_inj(2) by metis
  then have "foreign c' x" by (simp add: foreign_def datagram_stream ids)
  then show ?thesis by (rule foreign_ignored)
qed

text \<open>The two directions of a resumed session stay apart.\<close>

lemma resume_directions: "control_resume_stream_id kUdpControlStreamClientToHost r \<noteq>
    control_resume_stream_id kUdpControlStreamHostToClient r'"
proof
  assume "control_resume_stream_id kUdpControlStreamClientToHost r = control_resume_stream_id kUdpControlStreamHostToClient r'"
  from resume_stream_id_inj(1) [OF this] show False
    by (simp add: kUdpControlStreamClientToHost_def kUdpControlStreamHostToClient_def)
qed

theorem resume_answers_limited_witness:
  "count_true (budget_run [0, 10, 20, 400000] (resume_ack_budget_init 4 2)) = 3 \<and>
   1000000 * count_true (budget_run [0, 10, 20, 400000] (resume_ack_budget_init 4 2)) \<le> 1000000 * 2 + 4 * 400000"
proof
  show "count_true (budget_run [0, 10, 20, 400000] (resume_ack_budget_init 4 2)) = 3"
    by (simp add: resume_ack_budget_init_def budget_take_def budget_refill_def count_true_def)
  show "1000000 * count_true (budget_run [0, 10, 20, 400000] (resume_ack_budget_init 4 2)) \<le> 1000000 * 2 + 4 * 400000"
    using resume_answers_limited [of 0 400000 "[10, 20, 400000]" 4 2] by simp
qed

theorem resume_budget_starves_witness:
  "count_true (budget_run [0, 200, 400, 600, 800] (resume_ack_budget_init 4 2)) \<le> unat (2 :: u32)"
  by (rule resume_budget_starves) simp

theorem resume_ignores_stale_witness:
  "\<exists>c'. resume_with (control_resume_stream_id 2 7) (control_resume_stream_id 1 7) (nd_chan example_sender) = (True, c') \<and>
     snd (on_packet example_datagram 9 c') = (c', [])"
proof -
  have "\<not> ch_shutdown (nd_chan example_sender)"
    by (simp add: example_sender_def example_simps send_message_def send_fragments_def
        close_channel_def)
  then obtain c' where c': "resume_with (control_resume_stream_id 2 7) (control_resume_stream_id 1 7)
      (nd_chan example_sender) = (True, c')"
    by (simp add: resume_with_def)
  have "datagram_stream example_datagram = 1"
    by (simp add: example_datagram_def fragment_bytes_def example_header flip: datagram_stream(1))
      (simp add: decode_encode_control_chunk_header)
  then have "datagram_stream example_datagram < 0x80000000" by simp
  with c' show ?thesis using resume_ignores_stale [OF c', of example_datagram 9] by simp
qed

end
