(* ===== verification/ViewerResume.thy ===== *)
theory ViewerResume
  imports ControlResume
begin

text \<open>
  \<open>ViewerControlResume\<close> of \<open>viewer_control_resume.hpp\<close>: one recovery per break. The ingress thread
  validates answers and records them, the worker re-keys the channel and asks. Log lines, the
  explanations of a verdict and null checks of hooks are left out; the id generator, the session's
  generation, the clock and the outcome of the proving round trip are arguments of the operations
  that read them.
\<close>

section \<open>The packet\<close>

record control_resume_packet =
  rk_magic :: u32
  rk_kind :: u16
  rk_size :: u16
  rk_streamId :: u32
  rk_resumeId :: u32
  rk_accepted :: u32
  rk_reserved :: u32

definition control_resume_layout :: "nat list" where
  "control_resume_layout = [4, 2, 2, 4, 4, 4, 4]"

definition control_resume_packet_size :: nat where
  "control_resume_packet_size = sum_list control_resume_layout"

definition kKindControlResume :: u16 where "kKindControlResume = 309"
definition kKindControlResumeAck :: u16 where "kKindControlResumeAck = 310"

definition resume_packet :: "u16 \<Rightarrow> u32 \<Rightarrow> u32 \<Rightarrow> u32 \<Rightarrow> control_resume_packet" where
  "resume_packet kind streamId resumeId accepted = \<lparr>rk_magic = kMagic, rk_kind = kind,
     rk_size = of_nat control_resume_packet_size, rk_streamId = streamId, rk_resumeId = resumeId,
     rk_accepted = accepted, rk_reserved = 0\<rparr>"

definition encode_control_resume :: "control_resume_packet \<Rightarrow> bytes" where
  "encode_control_resume p = pack control_resume_layout [unat (rk_magic p), unat (rk_kind p), unat (rk_size p),
     unat (rk_streamId p), unat (rk_resumeId p), unat (rk_accepted p), unat (rk_reserved p)]"

definition decode_control_resume :: "bytes \<Rightarrow> control_resume_packet" where
  "decode_control_resume data = (let v = unpack control_resume_layout data in
     \<lparr>rk_magic = of_nat (v ! 0), rk_kind = of_nat (v ! 1), rk_size = of_nat (v ! 2), rk_streamId = of_nat (v ! 3),
      rk_resumeId = of_nat (v ! 4), rk_accepted = of_nat (v ! 5), rk_reserved = of_nat (v ! 6)\<rparr>)"

lemma control_resume_packet_size [simp]: "control_resume_packet_size = 24"
  by (simp add: control_resume_packet_size_def control_resume_layout_def)

lemma decode_encode_control_resume [wire_simps]:
  "decode_control_resume (encode_control_resume p @ rest) = p" "length (encode_control_resume p) = 24"
  "decode_control_resume (encode_control_resume p) = p"
  by (simp_all add: decode_control_resume_def encode_control_resume_def control_resume_layout_def wire_simps)

section \<open>Checking an answer\<close>

datatype viewer_resume_ack_verdict = AckRekey | AckAlreadyApplied | AckRefused | AckIgnore

record viewer_resume_expectation =
  ve_negotiated :: bool
  ve_sessionActive :: bool
  ve_attemptInFlight :: bool
  ve_rekeyedForThisId :: bool
  ve_sessionGeneration :: u64
  ve_peerIpNet :: u32
  ve_peerPortNet :: u16
  ve_baseRxStreamId :: u32
  ve_resumeId :: u32

record viewer_resume_ack_facts =
  vf_datagramLen :: nat
  vf_magic :: u32
  vf_kind :: u16
  vf_size :: u16
  vf_streamId :: u32
  vf_resumeId :: u32
  vf_accepted :: u32
  vf_peerIpNet :: u32
  vf_peerPortNet :: u16
  vf_sessionGeneration :: u64

definition viewer_check_resume_ack ::
    "viewer_resume_expectation \<Rightarrow> viewer_resume_ack_facts \<Rightarrow> viewer_resume_ack_verdict" where
  "viewer_check_resume_ack expect inp =
    (if vf_datagramLen inp \<noteq> control_resume_packet_size then AckIgnore
     else if vf_magic inp \<noteq> kMagic then AckIgnore
     else if vf_kind inp \<noteq> kKindControlResumeAck then AckIgnore
     else if unat (vf_size inp) \<noteq> control_resume_packet_size then AckIgnore
     else if \<not> ve_negotiated expect then AckIgnore
     else if \<not> ve_sessionActive expect then AckIgnore
     else if vf_peerIpNet inp \<noteq> ve_peerIpNet expect \<or> vf_peerPortNet inp \<noteq> ve_peerPortNet expect then AckIgnore
     else if vf_sessionGeneration inp \<noteq> ve_sessionGeneration expect then AckIgnore
     else if \<not> ve_attemptInFlight expect then AckIgnore
     else if vf_resumeId inp \<noteq> ve_resumeId expect then AckIgnore
     else if vf_accepted inp = 0 then AckRefused
     else if vf_streamId inp \<noteq> control_resume_stream_id (ve_baseRxStreamId expect) (ve_resumeId expect) then AckIgnore
     else if ve_rekeyedForThisId expect then AckAlreadyApplied
     else AckRekey)"

section \<open>The episode\<close>

record viewer_resume_episode =
  ep_active :: bool
  ep_rekeyed :: bool
  ep_resumeId :: u32
  ep_attempts :: u32
  ep_generation :: u64
  ep_beganUs :: u64
  ep_firstSendUs :: u64
  ep_lastAttemptUs :: u64

definition no_episode :: viewer_resume_episode where
  "no_episode = \<lparr>ep_active = False, ep_rekeyed = False, ep_resumeId = 0, ep_attempts = 0, ep_generation = 0,
     ep_beganUs = 0, ep_firstSendUs = 0, ep_lastAttemptUs = 0\<rparr>"

definition viewer_resume_begin :: "u32 \<Rightarrow> u64 \<Rightarrow> viewer_resume_episode \<Rightarrow> viewer_resume_episode" where
  "viewer_resume_begin freshId nowUs ep =
    (if ep_active ep then ep
     else ep\<lparr>ep_active := True, ep_rekeyed := False, ep_resumeId := freshId, ep_attempts := 0,
       ep_beganUs := nowUs, ep_firstSendUs := 0, ep_lastAttemptUs := 0\<rparr>)"

definition viewer_resume_end :: "viewer_resume_episode \<Rightarrow> viewer_resume_episode" where
  "viewer_resume_end ep = ep\<lparr>ep_active := False, ep_rekeyed := False\<rparr>"

section \<open>The component\<close>

record viewer_resume =
  vr_channel :: channel
  vr_decide :: control_resume_config
  vr_baseTxStreamId :: u32
  vr_baseRxStreamId :: u32
  vr_negotiated :: bool
  vr_sessionActive :: bool
  vr_peerIpNet :: u32
  vr_peerPortNet :: u16
  vr_episode :: viewer_resume_episode
  vr_havePendingServed :: bool
  vr_pendingServedId :: u32
  vr_duplicateAcks :: u64
  vr_refusedAcks :: u64
  vr_ignoredAcks :: u64

definition vr_configure :: "channel \<Rightarrow> control_resume_config \<Rightarrow> bool \<Rightarrow> u32 \<Rightarrow> u16 \<Rightarrow> viewer_resume \<Rightarrow> viewer_resume" where
  "vr_configure channel config negotiated peerIpNet peerPortNet v =
    v\<lparr>vr_channel := channel, vr_decide := config, vr_baseTxStreamId := kUdpControlStreamClientToHost,
      vr_baseRxStreamId := kUdpControlStreamHostToClient, vr_negotiated := negotiated, vr_peerIpNet := peerIpNet,
      vr_peerPortNet := peerPortNet, vr_sessionActive := True, vr_episode := no_episode,
      vr_pendingServedId := 0, vr_havePendingServed := False\<rparr>"

definition vr_end_session :: "viewer_resume \<Rightarrow> viewer_resume" where
  "vr_end_session v = v\<lparr>vr_sessionActive := False\<rparr>"

definition vr_begin_break :: "u32 \<Rightarrow> u64 \<Rightarrow> u64 \<Rightarrow> viewer_resume \<Rightarrow> viewer_resume" where
  "vr_begin_break freshId generation nowUs v =
    (if \<not> vr_sessionActive v \<or> \<not> vr_negotiated v then v
     else let wasActive = ep_active (vr_episode v);
            ep = viewer_resume_begin freshId nowUs (vr_episode v) in
       v\<lparr>vr_episode := (if \<not> wasActive then ep\<lparr>ep_generation := generation\<rparr> else ep)\<rparr>)"

definition vr_retry_with_new_id :: "u32 \<Rightarrow> u64 \<Rightarrow> viewer_resume \<Rightarrow> viewer_resume" where
  "vr_retry_with_new_id freshId nowUs v =
    (if \<not> vr_sessionActive v \<or> \<not> ep_active (vr_episode v) then v
     else let old = vr_episode v;
            ep = viewer_resume_begin freshId (ep_beganUs old) (viewer_resume_end old) in
       v\<lparr>vr_episode := ep\<lparr>ep_generation := ep_generation old, ep_beganUs := ep_beganUs old,
           ep_firstSendUs := ep_firstSendUs old, ep_attempts := ep_attempts old, ep_lastAttemptUs := nowUs\<rparr>,
         vr_havePendingServed := False\<rparr>)"

definition vr_begin_break_if_possible ::
    "u32 \<Rightarrow> u64 \<Rightarrow> u64 \<Rightarrow> bool \<Rightarrow> bool \<Rightarrow> viewer_resume \<Rightarrow> bool \<times> viewer_resume" where
  "vr_begin_break_if_possible freshId generation nowUs videoAlive cancelled v =
    (if cancelled then (False, v)
     else if \<not> videoAlive then (False, v)
     else let v = vr_begin_break freshId generation nowUs v in (ep_active (vr_episode v), v))"

definition vr_finish :: "viewer_resume \<Rightarrow> viewer_resume" where
  "vr_finish v = v\<lparr>vr_episode := viewer_resume_end (vr_episode v)\<rparr>"

definition vr_expectation :: "viewer_resume \<Rightarrow> viewer_resume_expectation" where
  "vr_expectation v = \<lparr>ve_negotiated = vr_negotiated v, ve_sessionActive = vr_sessionActive v,
     ve_attemptInFlight = ep_active (vr_episode v), ve_rekeyedForThisId = ep_rekeyed (vr_episode v),
     ve_sessionGeneration = ep_generation (vr_episode v), ve_peerIpNet = vr_peerIpNet v,
     ve_peerPortNet = vr_peerPortNet v, ve_baseRxStreamId = vr_baseRxStreamId v,
     ve_resumeId = ep_resumeId (vr_episode v)\<rparr>"

definition vr_on_datagram :: "bytes \<Rightarrow> u64 \<Rightarrow> viewer_resume \<Rightarrow> bool \<times> viewer_resume" where
  "vr_on_datagram data generation v =
    (if length data < control_resume_packet_size then (False, v)
     else let packet = decode_control_resume data in
     if rk_magic packet \<noteq> kMagic then (False, v)
     else if rk_kind packet \<noteq> kKindControlResumeAck then (False, v)
     else let facts = \<lparr>vf_datagramLen = length data, vf_magic = rk_magic packet, vf_kind = rk_kind packet,
              vf_size = rk_size packet, vf_streamId = rk_streamId packet, vf_resumeId = rk_resumeId packet,
              vf_accepted = rk_accepted packet, vf_peerIpNet = vr_peerIpNet v, vf_peerPortNet = vr_peerPortNet v,
              vf_sessionGeneration = generation\<rparr> in
       (True, case viewer_check_resume_ack (vr_expectation v) facts of
         AckRekey \<Rightarrow> v\<lparr>vr_havePendingServed := True, vr_pendingServedId := vf_resumeId facts\<rparr>
       | AckRefused \<Rightarrow> v\<lparr>vr_refusedAcks := vr_refusedAcks v + 1\<rparr>
       | AckAlreadyApplied \<Rightarrow> v\<lparr>vr_duplicateAcks := vr_duplicateAcks v + 1\<rparr>
       | AckIgnore \<Rightarrow> v\<lparr>vr_ignoredAcks := vr_ignoredAcks v + 1\<rparr>))"

definition vr_apply_pending_rekey :: "viewer_resume \<Rightarrow> bool \<times> viewer_resume" where
  "vr_apply_pending_rekey v =
    (if \<not> vr_sessionActive v \<or> \<not> vr_havePendingServed v then (False, v)
     else if \<not> ep_active (vr_episode v) \<or> ep_rekeyed (vr_episode v) then (False, v\<lparr>vr_havePendingServed := False\<rparr>)
     else if vr_pendingServedId v \<noteq> ep_resumeId (vr_episode v) then (False, v\<lparr>vr_havePendingServed := False\<rparr>)
     else case resume_with (control_resume_stream_id (vr_baseTxStreamId v) (ep_resumeId (vr_episode v)))
         (control_resume_stream_id (vr_baseRxStreamId v) (ep_resumeId (vr_episode v))) (vr_channel v) of
       (False, c) \<Rightarrow> (False, v\<lparr>vr_channel := c, vr_havePendingServed := False\<rparr>)
     | (True, c) \<Rightarrow> (True, v\<lparr>vr_channel := c, vr_episode := (vr_episode v)\<lparr>ep_rekeyed := True\<rparr>,
         vr_havePendingServed := False\<rparr>))"

definition vr_poll_inputs :: "bool \<Rightarrow> u64 \<Rightarrow> viewer_resume \<Rightarrow> control_resume_inputs" where
  "vr_poll_inputs videoAlive nowUs v = (let ep = vr_episode v in
     \<lparr>ri_negotiated = vr_negotiated v, ri_controlDead = ep_active ep, ri_videoAlive = videoAlive,
      ri_controlDeadForUs = (if ep_active ep \<and> ep_beganUs ep \<le> nowUs then nowUs - ep_beganUs ep else 0),
      ri_sinceLastAttemptUs = (if ep_lastAttemptUs ep = 0 then rc_retryIntervalUs (vr_decide v) * 2
        else if ep_lastAttemptUs ep \<le> nowUs then nowUs - ep_lastAttemptUs ep else 0)\<rparr>)"

text \<open>The ask, where one is due, with the action.\<close>

definition vr_poll :: "bool \<Rightarrow> u64 \<Rightarrow> viewer_resume \<Rightarrow> control_resume_action \<times> viewer_resume \<times> bytes list" where
  "vr_poll videoAlive nowUs v =
    (if \<not> vr_sessionActive v then (ResumeIdle, v, [])
     else case control_resume_decide (vr_decide v) (vr_poll_inputs videoAlive nowUs v) of
       ResumeSend \<Rightarrow>
         let ep = vr_episode v in (ResumeSend,
         v\<lparr>vr_episode := ep\<lparr>ep_lastAttemptUs := nowUs, ep_attempts := ep_attempts ep + 1,
             ep_firstSendUs := (if ep_firstSendUs ep = 0 then nowUs else ep_firstSendUs ep)\<rparr>\<rparr>,
         [encode_control_resume (resume_packet kKindControlResume (vr_baseTxStreamId v) (ep_resumeId ep) 0)])
     | action \<Rightarrow> (action, v, []))"

datatype resume_pump_result = PumpContinue | PumpResumed | PumpGaveUp | PumpCancelled

text \<open>
  One turn. \<open>prove\<close> is the round trip over the re-keyed channel: whether it succeeded, and the
  channel after it; \<open>nowUs2\<close> the clock after it.
\<close>

definition vr_pump ::
    "bool \<Rightarrow> bool \<Rightarrow> (channel \<Rightarrow> bool \<times> channel) \<Rightarrow> u32 \<Rightarrow> u64 \<Rightarrow> u64 \<Rightarrow> viewer_resume \<Rightarrow>
     resume_pump_result \<times> viewer_resume \<times> bytes list" where
  "vr_pump cancelled videoAlive prove freshId nowUs nowUs2 v =
    (if cancelled then (PumpCancelled, vr_finish v, [])
     else let (applied, v) = vr_apply_pending_rekey v;
            (proved, c) = (if applied then prove (vr_channel v) else (False, vr_channel v));
            v = v\<lparr>vr_channel := c\<rparr> in
     if applied \<and> proved then (PumpResumed, vr_finish v, [])
     else let v = (if applied then vr_retry_with_new_id freshId nowUs2 v else v);
            (action, v, sent) = vr_poll videoAlive nowUs v in
       if action = ResumeGiveUp then (PumpGaveUp, vr_finish v, sent) else (PumpContinue, v, sent))"

section \<open>Runs\<close>

text \<open>
  What the viewer calls, in any order: a break is noticed, a datagram arrives from anyone, a turn of
  the recovery, the end of the session; and whatever others do to the shared channel.
\<close>

datatype viewer_op = VBreak u32 u64 u64 bool bool | VDatagram bytes u64
  | VPump bool bool "channel \<Rightarrow> bool \<times> channel" u32 u64 u64 | VEndSession | VChannel "channel \<Rightarrow> channel"

fun vr_step :: "viewer_op \<Rightarrow> viewer_resume \<Rightarrow> viewer_resume" where
  "vr_step (VBreak freshId generation nowUs videoAlive cancelled) v =
     snd (vr_begin_break_if_possible freshId generation nowUs videoAlive cancelled v)"
| "vr_step (VDatagram data generation) v = snd (vr_on_datagram data generation v)"
| "vr_step (VPump cancelled videoAlive prove freshId nowUs nowUs2) v =
     fst (snd (vr_pump cancelled videoAlive prove freshId nowUs nowUs2 v))"
| "vr_step VEndSession v = vr_end_session v"
| "vr_step (VChannel f) v = v\<lparr>vr_channel := f (vr_channel v)\<rparr>"

text \<open>The ids under which an operation re-keys the channel, and its asks.\<close>

fun vr_rekeys :: "viewer_op \<Rightarrow> viewer_resume \<Rightarrow> u32 list" where
  "vr_rekeys (VPump cancelled videoAlive prove freshId nowUs nowUs2) v =
     (if \<not> cancelled \<and> fst (vr_apply_pending_rekey v) then [ep_resumeId (vr_episode v)] else [])"
| "vr_rekeys _ v = []"

fun vr_asks :: "viewer_op \<Rightarrow> viewer_resume \<Rightarrow> nat" where
  "vr_asks (VPump cancelled videoAlive prove freshId nowUs nowUs2) v =
     length (snd (snd (vr_pump cancelled videoAlive prove freshId nowUs nowUs2 v)))"
| "vr_asks _ v = 0"

fun vr_fresh_ids :: "viewer_op \<Rightarrow> u32 list" where
  "vr_fresh_ids (VBreak freshId _ _ _ _) = [freshId]"
| "vr_fresh_ids (VPump _ _ _ freshId _ _) = [freshId]"
| "vr_fresh_ids _ = []"

text \<open>The ids of the answers that say the host has re-keyed.\<close>

fun vr_served_ids :: "viewer_op \<Rightarrow> u32 set" where
  "vr_served_ids (VDatagram data _) =
     (if rk_kind (decode_control_resume data) = kKindControlResumeAck \<and> rk_accepted (decode_control_resume data) \<noteq> 0
      then {rk_resumeId (decode_control_resume data)} else {})"
| "vr_served_ids _ = {}"

fun vr_run_rekeys :: "viewer_op list \<Rightarrow> viewer_resume \<Rightarrow> u32 list" where
  "vr_run_rekeys [] v = []"
| "vr_run_rekeys (op # ops) v = vr_rekeys op v @ vr_run_rekeys ops (vr_step op v)"

fun vr_run_asks :: "viewer_op list \<Rightarrow> viewer_resume \<Rightarrow> nat" where
  "vr_run_asks [] v = 0"
| "vr_run_asks (op # ops) v = vr_asks op v + vr_run_asks ops (vr_step op v)"

section \<open>One re-key for one recovery\<close>

definition rekey_inv :: "u32 set \<Rightarrow> u32 set \<Rightarrow> u32 set \<Rightarrow> viewer_resume \<Rightarrow> bool" where
  "rekey_inv used served rekeyed v \<longleftrightarrow> rekeyed \<subseteq> used \<and>
     (ep_active (vr_episode v) \<longrightarrow> ep_resumeId (vr_episode v) \<in> used) \<and>
     (ep_active (vr_episode v) \<and> \<not> ep_rekeyed (vr_episode v) \<longrightarrow> ep_resumeId (vr_episode v) \<notin> rekeyed) \<and>
     (vr_havePendingServed v \<longrightarrow> vr_pendingServedId v \<in> served)"

lemma rekey_inv_apply:
  assumes "rekey_inv used served rekeyed v" and "vr_apply_pending_rekey v = (ok, v')"
  shows "rekey_inv used served (rekeyed \<union> set (if ok then [ep_resumeId (vr_episode v)] else [])) v'"
    "ok \<Longrightarrow> ep_resumeId (vr_episode v) \<in> served - rekeyed"
    "ep_resumeId (vr_episode v') = ep_resumeId (vr_episode v)"
proof -
  let ?ep = "vr_episode v"
  obtain b c where r: "resume_with (control_resume_stream_id (vr_baseTxStreamId v) (ep_resumeId ?ep))
      (control_resume_stream_id (vr_baseRxStreamId v) (ep_resumeId ?ep)) (vr_channel v) = (b, c)" by fastforce
  have eq: "(ok, v') =
    (if \<not> vr_sessionActive v \<or> \<not> vr_havePendingServed v then (False, v)
     else if \<not> ep_active ?ep \<or> ep_rekeyed ?ep then (False, v\<lparr>vr_havePendingServed := False\<rparr>)
     else if vr_pendingServedId v \<noteq> ep_resumeId ?ep then (False, v\<lparr>vr_havePendingServed := False\<rparr>)
     else if \<not> b then (False, v\<lparr>vr_channel := c, vr_havePendingServed := False\<rparr>)
     else (True, v\<lparr>vr_channel := c, vr_episode := ?ep\<lparr>ep_rekeyed := True\<rparr>, vr_havePendingServed := False\<rparr>))"
    using assms(2) [symmetric] unfolding vr_apply_pending_rekey_def r by (cases b) simp_all
  have "(ok = False \<and> vr_episode v' = ?ep \<and>
      (vr_havePendingServed v' \<longrightarrow> vr_havePendingServed v \<and> vr_pendingServedId v' = vr_pendingServedId v)) \<or>
    (ok = True \<and> vr_episode v' = ?ep\<lparr>ep_rekeyed := True\<rparr> \<and> \<not> vr_havePendingServed v' \<and>
      vr_havePendingServed v \<and> ep_active ?ep \<and> \<not> ep_rekeyed ?ep \<and> vr_pendingServedId v = ep_resumeId ?ep)"
    using eq by (auto split: if_split_asm)
  then consider (idle) "ok = False" "vr_episode v' = ?ep"
      "vr_havePendingServed v' \<longrightarrow> vr_havePendingServed v \<and> vr_pendingServedId v' = vr_pendingServedId v"
    | (rekey) "ok = True" "vr_episode v' = ?ep\<lparr>ep_rekeyed := True\<rparr>" "\<not> vr_havePendingServed v'"
        "vr_havePendingServed v" "ep_active ?ep" "\<not> ep_rekeyed ?ep" "vr_pendingServedId v = ep_resumeId ?ep"
    by blast
  then have "rekey_inv used served (rekeyed \<union> set (if ok then [ep_resumeId ?ep] else [])) v' \<and>
    (ok \<longrightarrow> ep_resumeId ?ep \<in> served - rekeyed) \<and> ep_resumeId (vr_episode v') = ep_resumeId ?ep"
    using assms(1) by cases (auto simp: rekey_inv_def)
  then show "rekey_inv used served (rekeyed \<union> set (if ok then [ep_resumeId ?ep] else [])) v'"
    "ok \<Longrightarrow> ep_resumeId ?ep \<in> served - rekeyed" "ep_resumeId (vr_episode v') = ep_resumeId ?ep"
    by blast+
qed

lemma vr_poll_shape:
  assumes "vr_poll alive t v = (action, v', out)"
  shows "(v' = v \<and> out = [] \<and> action \<noteq> ResumeSend) \<or>
    (action = ResumeSend \<and> vr_sessionActive v \<and> length out = 1 \<and>
     control_resume_decide (vr_decide v) (vr_poll_inputs alive t v) = ResumeSend \<and>
     v' = v\<lparr>vr_episode := (vr_episode v)\<lparr>ep_lastAttemptUs := t, ep_attempts := ep_attempts (vr_episode v) + 1,
       ep_firstSendUs := (if ep_firstSendUs (vr_episode v) = 0 then t else ep_firstSendUs (vr_episode v))\<rparr>\<rparr>)"
proof (cases "vr_sessionActive v")
  case True
  then show ?thesis
    using assms unfolding vr_poll_def Let_def
    by (cases "control_resume_decide (vr_decide v) (vr_poll_inputs alive t v)") auto
next
  case False
  then show ?thesis using assms unfolding vr_poll_def by auto
qed

lemma rekey_inv_poll:
  assumes "rekey_inv used served rekeyed v"
  shows "rekey_inv used served rekeyed (fst (snd (vr_poll alive t v)))"
proof -
  obtain action v' out where p: "vr_poll alive t v = (action, v', out)" by (metis surj_pair)
  from vr_poll_shape [OF p] show ?thesis using assms by (elim disjE) (simp_all add: p rekey_inv_def)
qed

lemma rekey_inv_retry:
  "rekey_inv used served rekeyed v \<Longrightarrow> freshId \<notin> used \<Longrightarrow>
   rekey_inv (insert freshId used) served rekeyed (vr_retry_with_new_id freshId t v)"
  by (auto simp: vr_retry_with_new_id_def rekey_inv_def Let_def viewer_resume_begin_def viewer_resume_end_def)

lemma rekey_inv_finish: "rekey_inv used served rekeyed v \<Longrightarrow> rekey_inv used served rekeyed (vr_finish v)"
  by (auto simp: vr_finish_def rekey_inv_def viewer_resume_end_def)

lemma rekey_inv_channel: "rekey_inv used served rekeyed (v\<lparr>vr_channel := c\<rparr>) = rekey_inv used served rekeyed v"
  by (simp add: rekey_inv_def)

lemma rekey_inv_used: "rekey_inv used served rekeyed v \<Longrightarrow> rekey_inv (insert x used) served rekeyed v"
  by (auto simp: rekey_inv_def)

lemma rekey_inv_pump:
  assumes inv: "rekey_inv used served rekeyed v" and freshId: "freshId \<notin> used"
    and op: "op = VPump cancelled alive prove freshId t t2"
  shows "rekey_inv (insert freshId used) served (rekeyed \<union> set (vr_rekeys op v)) (vr_step op v)"
proof (cases cancelled)
  case True
  then show ?thesis using rekey_inv_finish [OF rekey_inv_used [OF inv]] by (simp add: op vr_pump_def)
next
  case False
  obtain ok v1 where ap: "vr_apply_pending_rekey v = (ok, v1)" by fastforce
  let ?rk = "rekeyed \<union> set (if ok then [ep_resumeId (vr_episode v)] else [])"
  have rk: "rekeyed \<union> set (vr_rekeys op v) = ?rk" using False ap by (simp add: op)
  obtain pr c where c: "(if ok then prove (vr_channel v1) else (False, vr_channel v1)) = (pr, c)" by fastforce
  let ?v2 = "v1\<lparr>vr_channel := c\<rparr>"
  have v2: "rekey_inv used served ?rk ?v2" using rekey_inv_apply(1) [OF inv ap] by (simp only: rekey_inv_channel)
  let ?v3 = "if ok then vr_retry_with_new_id freshId t2 ?v2 else ?v2"
  have v3: "rekey_inv (insert freshId used) served ?rk ?v3"
    using rekey_inv_retry [OF v2 freshId] rekey_inv_used [OF v2] by auto
  obtain action v4 xs where po: "vr_poll alive t ?v3 = (action, v4, xs)" by (metis surj_pair)
  have v4: "rekey_inv (insert freshId used) served ?rk v4" using rekey_inv_poll [OF v3, of alive t] po by simp
  have "vr_step op v = (if ok \<and> pr then vr_finish ?v2 else if action = ResumeGiveUp then vr_finish v4 else v4)"
    using False by (simp add: op vr_pump_def ap c po Let_def)
  then show ?thesis
    unfolding rk using rekey_inv_finish [OF rekey_inv_used [OF v2, of freshId]] rekey_inv_finish [OF v4] v4
    by (cases "ok \<and> pr"; cases "action = ResumeGiveUp") (simp_all only: if_True if_False simp_thms)
qed

lemma rekey_inv_step:
  assumes inv: "rekey_inv used served rekeyed v" and freshId: "set (vr_fresh_ids op) \<inter> used = {}"
  shows "rekey_inv (used \<union> set (vr_fresh_ids op)) (served \<union> vr_served_ids op) (rekeyed \<union> set (vr_rekeys op v)) (vr_step op v)"
    "set (vr_rekeys op v) \<subseteq> served - rekeyed" "distinct (vr_rekeys op v)"
proof -
  show "set (vr_rekeys op v) \<subseteq> served - rekeyed" "distinct (vr_rekeys op v)"
    using rekey_inv_apply(2) [OF inv] by (cases op; auto simp: prod_eq_iff)+
  show "rekey_inv (used \<union> set (vr_fresh_ids op)) (served \<union> vr_served_ids op) (rekeyed \<union> set (vr_rekeys op v)) (vr_step op v)"
  proof (cases op)
    case (VBreak freshId generation t alive cancelled)
    then show ?thesis using inv freshId
      by (auto simp: vr_begin_break_if_possible_def vr_begin_break_def viewer_resume_begin_def rekey_inv_def Let_def)
  next
    case (VDatagram data generation)
    then show ?thesis using inv
      by (auto simp: vr_on_datagram_def rekey_inv_def Let_def viewer_check_resume_ack_def)
  next
    case (VPump cancelled alive prove freshId t t2)
    then show ?thesis using rekey_inv_pump [OF inv _ VPump] freshId by simp
  qed (use inv in \<open>simp_all add: rekey_inv_def vr_end_session_def\<close>)
qed

lemma rekey_inv_run:
  "rekey_inv used served rekeyed v \<Longrightarrow> distinct (concat (map vr_fresh_ids ops)) \<Longrightarrow>
   set (concat (map vr_fresh_ids ops)) \<inter> used = {} \<Longrightarrow>
   distinct (vr_run_rekeys ops v) \<and> set (vr_run_rekeys ops v) \<inter> rekeyed = {} \<and>
   set (vr_run_rekeys ops v) \<subseteq> served \<union> (\<Union>op\<in>set ops. vr_served_ids op)"
proof (induction ops arbitrary: used served rekeyed v)
  case (Cons op ops)
  have "set (vr_fresh_ids op) \<inter> used = {}" using Cons.prems(3) by auto
  note step = rekey_inv_step [OF Cons.prems(1) this]
  have "distinct (concat (map vr_fresh_ids ops))"
    "set (concat (map vr_fresh_ids ops)) \<inter> (used \<union> set (vr_fresh_ids op)) = {}"
    using Cons.prems(2,3) by auto
  from Cons.IH [OF step(1) this] step(2,3) show ?case by auto
qed simp


section \<open>How often the viewer asks\<close>

text \<open>Whether an operation notices a break.\<close>

fun is_break :: "viewer_op \<Rightarrow> bool" where
  "is_break (VBreak _ _ _ _ _) = True"
| "is_break _ = False"

text \<open>
  The asks so far are paid by the breaks so far: those of a past break by the ceiling, those of the
  break in hand by the time between its beginning and its last ask. \<open>T\<close> is the clock, \<open>I\<close> the
  interval and \<open>G\<close> the ceiling.
\<close>

definition ask_paid :: "nat \<Rightarrow> viewer_resume_episode \<Rightarrow> nat \<Rightarrow> bool" where
  "ask_paid I ep n \<longleftrightarrow> (if ep_lastAttemptUs ep = 0 then n = 0
     else ep_beganUs ep \<le> ep_lastAttemptUs ep \<and> n * I \<le> unat (ep_lastAttemptUs ep) - unat (ep_beganUs ep) + I)"

definition asks_open :: "nat \<Rightarrow> nat \<Rightarrow> nat \<Rightarrow> nat \<Rightarrow> u64 \<Rightarrow> viewer_resume_episode \<Rightarrow> bool" where
  "asks_open I G asks breaks T ep \<longleftrightarrow> (\<exists>d n b. asks = d + n \<and> breaks = Suc b \<and> d * I \<le> b * (G + I) \<and> n * I \<le> G + I \<and>
     ep_beganUs ep \<le> T \<and> ep_lastAttemptUs ep \<le> T \<and> ask_paid I ep n)"

definition asks_inv :: "nat \<Rightarrow> nat \<Rightarrow> nat \<Rightarrow> nat \<Rightarrow> u64 \<Rightarrow> viewer_resume \<Rightarrow> bool" where
  "asks_inv I G asks breaks T v \<longleftrightarrow> unat (rc_retryIntervalUs (vr_decide v)) = I \<and> unat (rc_giveUpAfterUs (vr_decide v)) = G \<and>
     (if ep_active (vr_episode v) then asks_open I G asks breaks T (vr_episode v) else asks * I \<le> breaks * (G + I))"

lemma asks_openI:
  "asks = d + n \<Longrightarrow> breaks = Suc b \<Longrightarrow> d * I \<le> b * (G + I) \<Longrightarrow> n * I \<le> G + I \<Longrightarrow> ep_beganUs ep \<le> T \<Longrightarrow>
   ep_lastAttemptUs ep \<le> T \<Longrightarrow> ask_paid I ep n \<Longrightarrow> asks_open I G asks breaks T ep"
  unfolding asks_open_def by blast

lemma asks_open_rekeyed [simp]: "asks_open I G asks breaks T (ep\<lparr>ep_rekeyed := r\<rparr>) = asks_open I G asks breaks T ep"
  by (simp add: asks_open_def ask_paid_def)

lemma asks_open_later: "asks_open I G asks breaks T ep \<Longrightarrow> T \<le> T' \<Longrightarrow> asks_open I G asks breaks T' ep"
  unfolding asks_open_def by (elim exE conjE) (intro exI conjI, assumption+, auto)

lemma asks_open_total:
  assumes "asks_open I G asks breaks T ep"
  shows "asks * I \<le> breaks * (G + I)"
proof -
  obtain d n b where "asks = d + n" "breaks = Suc b" "d * I \<le> b * (G + I)" "n * I \<le> G + I"
    using assms by (auto simp: asks_open_def)
  then show ?thesis by (simp add: distrib_right)
qed

lemma asks_open_break:
  assumes "asks_open I G asks breaks T ep"
  shows "asks_open I G asks (Suc breaks) T ep"
proof -
  obtain d n b where o: "asks = d + n" "breaks = Suc b" "d * I \<le> b * (G + I)" "n * I \<le> G + I"
    "ep_beganUs ep \<le> T" "ep_lastAttemptUs ep \<le> T" "ask_paid I ep n"
    using assms by (auto simp: asks_open_def)
  have "d * I \<le> Suc b * (G + I)" using o(3) by simp
  with o show ?thesis by (intro asks_openI [of _ d n _ "Suc b"]) simp_all
qed

lemma asks_inv_later: "asks_inv I G asks breaks T v \<Longrightarrow> T \<le> T' \<Longrightarrow> asks_inv I G asks breaks T' v"
  by (cases "ep_active (vr_episode v)") (auto simp: asks_inv_def intro: asks_open_later)

lemma asks_inv_same:
  assumes "asks_inv I G asks breaks T v" and "vr_decide v' = vr_decide v"
    and "vr_episode v' = (vr_episode v)\<lparr>ep_rekeyed := True\<rparr> \<or> vr_episode v' = vr_episode v"
  shows "asks_inv I G asks breaks T v'"
  using assms(3)
proof
  assume "vr_episode v' = (vr_episode v)\<lparr>ep_rekeyed := True\<rparr>"
  then show ?thesis using assms(1,2) by (simp add: asks_inv_def)
next
  assume "vr_episode v' = vr_episode v"
  then show ?thesis using assms(1,2) by (simp add: asks_inv_def)
qed

lemma asks_inv_finish: "asks_inv I G asks breaks T v \<Longrightarrow> asks_inv I G asks breaks T (vr_finish v)"
  by (cases "ep_active (vr_episode v)") (auto simp: asks_inv_def vr_finish_def viewer_resume_end_def dest: asks_open_total)

lemma asks_inv_break:
  assumes "asks_inv I G asks breaks T v" and "T \<le> t"
  shows "asks_inv I G asks (Suc breaks) t (vr_begin_break freshId generation t v)"
proof (cases "vr_sessionActive v \<and> vr_negotiated v \<and> \<not> ep_active (vr_episode v)")
  case True
  then have "asks * I \<le> breaks * (G + I)" using assms(1) by (simp add: asks_inv_def)
  then have "asks_open I G asks (Suc breaks) t (vr_episode (vr_begin_break freshId generation t v))"
    using True by (intro asks_openI [of _ asks 0 _ breaks])
      (simp_all add: vr_begin_break_def viewer_resume_begin_def ask_paid_def Let_def)
  then show ?thesis using True assms(1)
    by (simp add: vr_begin_break_def viewer_resume_begin_def asks_inv_def Let_def)
next
  case False
  then have "vr_begin_break freshId generation t v = v"
    by (auto simp: vr_begin_break_def viewer_resume_begin_def Let_def)
  then show ?thesis using asks_inv_later [OF assms]
    by (cases "ep_active (vr_episode v)") (simp_all add: asks_inv_def asks_open_break)
qed

lemma asks_inv_retry:
  assumes "asks_inv I G asks breaks T v" and "T \<le> t" and "t \<noteq> 0"
  shows "asks_inv I G asks breaks t (vr_retry_with_new_id freshId t v)"
proof (cases "vr_sessionActive v \<and> ep_active (vr_episode v)")
  case True
  let ?ep = "vr_episode v" and ?ep' = "vr_episode (vr_retry_with_new_id freshId t v)"
  obtain d n b where o: "asks = d + n" "breaks = Suc b" "d * I \<le> b * (G + I)" "n * I \<le> G + I"
    "ep_beganUs ?ep \<le> T" "ep_lastAttemptUs ?ep \<le> T" "ask_paid I ?ep n"
    using assms(1) True by (auto simp: asks_inv_def asks_open_def)
  have ep': "ep_beganUs ?ep' = ep_beganUs ?ep" "ep_lastAttemptUs ?ep' = t" "ep_active ?ep'"
    using True by (simp_all add: vr_retry_with_new_id_def viewer_resume_begin_def viewer_resume_end_def Let_def)
  have "unat (ep_lastAttemptUs ?ep) \<le> unat t" "ep_beganUs ?ep \<le> t"
    using o(5,6) assms(2) by (simp_all add: word_le_nat_alt)
  then have "ask_paid I ?ep' n" using o(7) assms(3) by (auto simp: ask_paid_def ep' split: if_splits)
  then have "asks_open I G asks breaks t ?ep'"
    using o(1-4) \<open>ep_beganUs ?ep \<le> t\<close> by (intro asks_openI [of _ d n _ b]) (simp_all add: ep')
  then show ?thesis using assms(1) ep'(3) by (simp add: asks_inv_def vr_retry_with_new_id_def Let_def)
next
  case False
  then have "vr_retry_with_new_id freshId t v = v" by (auto simp: vr_retry_with_new_id_def)
  then show ?thesis using asks_inv_later [OF assms(1,2)] by simp
qed

lemma vr_send_when:
  assumes "control_resume_decide (vr_decide v) (vr_poll_inputs alive t v) = ResumeSend"
    and "0 < unat (rc_giveUpAfterUs (vr_decide v))" and "ep_beganUs (vr_episode v) \<le> t"
  shows "ep_active (vr_episode v)"
    "unat t - unat (ep_beganUs (vr_episode v)) < unat (rc_giveUpAfterUs (vr_decide v))"
    "ep_lastAttemptUs (vr_episode v) \<noteq> 0 \<Longrightarrow> ep_lastAttemptUs (vr_episode v) \<le> t \<Longrightarrow>
     unat (rc_retryIntervalUs (vr_decide v)) \<le> unat t - unat (ep_lastAttemptUs (vr_episode v))"
    "ep_lastAttemptUs (vr_episode v) \<noteq> 0 \<Longrightarrow> \<not> ep_lastAttemptUs (vr_episode v) \<le> t \<Longrightarrow> rc_retryIntervalUs (vr_decide v) = 0"
proof -
  let ?in = "vr_poll_inputs alive t v"
  show active: "ep_active (vr_episode v)"
    using assms(1) by (auto simp: control_resume_decide_def vr_poll_inputs_def Let_def split: if_split_asm)
  have ceiling: "ri_controlDeadForUs ?in < rc_giveUpAfterUs (vr_decide v)"
    and due: "rc_retryIntervalUs (vr_decide v) \<le> ri_sinceLastAttemptUs ?in"
    using assms(1,2) by (auto simp: control_resume_decide_def word_less_nat_alt word_le_nat_alt split: if_split_asm)
  show "unat t - unat (ep_beganUs (vr_episode v)) < unat (rc_giveUpAfterUs (vr_decide v))"
    using ceiling active assms(3) by (simp add: vr_poll_inputs_def Let_def word_less_nat_alt unat_sub)
  show "unat (rc_retryIntervalUs (vr_decide v)) \<le> unat t - unat (ep_lastAttemptUs (vr_episode v))"
    if "ep_lastAttemptUs (vr_episode v) \<noteq> 0" "ep_lastAttemptUs (vr_episode v) \<le> t"
    using due that by (simp add: vr_poll_inputs_def Let_def word_le_nat_alt unat_sub)
  show "rc_retryIntervalUs (vr_decide v) = 0"
    if "ep_lastAttemptUs (vr_episode v) \<noteq> 0" "\<not> ep_lastAttemptUs (vr_episode v) \<le> t"
    using due that by (simp add: vr_poll_inputs_def Let_def)
qed

lemma asks_inv_poll:
  assumes inv: "asks_inv I G asks breaks T v" and G: "0 < G" and t: "T \<le> t" "t \<noteq> 0"
    and p: "vr_poll alive t v = (action, v', out)"
  shows "asks_inv I G (asks + length out) breaks t v'"
  using vr_poll_shape [OF p]
proof (elim disjE conjE)
  assume "v' = v" "out = []"
  then show ?thesis using asks_inv_later [OF inv t(1)] by simp
next
  let ?ep = "vr_episode v"
  assume send: "control_resume_decide (vr_decide v) (vr_poll_inputs alive t v) = ResumeSend" and out: "length out = 1"
    and v': "v' = v\<lparr>vr_episode := ?ep\<lparr>ep_lastAttemptUs := t, ep_attempts := ep_attempts ?ep + 1,
       ep_firstSendUs := (if ep_firstSendUs ?ep = 0 then t else ep_firstSendUs ?ep)\<rparr>\<rparr>"
  have cfg: "unat (rc_retryIntervalUs (vr_decide v)) = I" "unat (rc_giveUpAfterUs (vr_decide v)) = G"
    using inv by (simp_all add: asks_inv_def)
  have active: "ep_active ?ep"
    using send by (auto simp: control_resume_decide_def vr_poll_inputs_def Let_def split: if_split_asm)
  obtain d n b where o: "asks = d + n" "breaks = Suc b" "d * I \<le> b * (G + I)" "n * I \<le> G + I"
    "ep_beganUs ?ep \<le> T" "ep_lastAttemptUs ?ep \<le> T" "ask_paid I ?ep n"
    using inv active by (auto simp: asks_inv_def asks_open_def)
  have le: "ep_beganUs ?ep \<le> t" "ep_lastAttemptUs ?ep \<le> t" using o(5,6) t(1) by auto
  note sw = vr_send_when [OF send, unfolded cfg, OF G le(1)]
  have "Suc n * I \<le> unat t - unat (ep_beganUs ?ep) + I"
  proof (cases "ep_lastAttemptUs ?ep = 0")
    case False
    then have "n * I \<le> unat (ep_lastAttemptUs ?ep) - unat (ep_beganUs ?ep) + I"
      "unat (ep_beganUs ?ep) \<le> unat (ep_lastAttemptUs ?ep)" "unat (ep_lastAttemptUs ?ep) \<le> unat t"
      using o(7) le(2) unfolding ask_paid_def word_le_nat_alt if_not_P [OF False] by blast+
    with sw(3) [OF False le(2)] show ?thesis unfolding mult_Suc by linarith
  qed (use o(7) in \<open>simp add: ask_paid_def\<close>)
  then have "asks_open I G (asks + 1) breaks t (vr_episode v')"
    using o(1-3) le t(2) sw(2)
    by (intro asks_openI [of _ d "Suc n" _ b]) (simp_all add: v' ask_paid_def)
  then show ?thesis using out active cfg by (simp add: asks_inv_def v')
qed

lemma no_ask_after_retry:
  assumes active: "vr_sessionActive v" "ep_active (vr_episode v)" and inv: "asks_inv I G asks breaks T v"
    and pos: "0 < I" "0 < G" and t: "T \<le> t" "t \<le> t2" "t2 \<noteq> 0"
    and p: "vr_poll alive t (vr_retry_with_new_id freshId t2 v) = (action, v', out)"
  shows "v' = vr_retry_with_new_id freshId t2 v" "out = []"
proof -
  let ?v = "vr_retry_with_new_id freshId t2 v"
  have ep: "ep_lastAttemptUs (vr_episode ?v) = t2" "ep_beganUs (vr_episode ?v) = ep_beganUs (vr_episode v)"
    "vr_decide ?v = vr_decide v"
    using active by (simp_all add: vr_retry_with_new_id_def viewer_resume_begin_def viewer_resume_end_def Let_def)
  have cfg: "unat (rc_retryIntervalUs (vr_decide v)) = I" "unat (rc_giveUpAfterUs (vr_decide v)) = G"
    and began: "ep_beganUs (vr_episode v) \<le> T"
    using inv active by (auto simp: asks_inv_def asks_open_def)
  have "control_resume_decide (vr_decide ?v) (vr_poll_inputs alive t ?v) \<noteq> ResumeSend"
  proof
    assume send: "control_resume_decide (vr_decide ?v) (vr_poll_inputs alive t ?v) = ResumeSend"
    have "ep_beganUs (vr_episode ?v) \<le> t" using ep(2) began t(1) by auto
    note sw = vr_send_when [OF send, unfolded ep(1,3) cfg, OF pos(2) this]
    show False
    proof (cases "t2 \<le> t")
      case True
      then have "t2 = t" using t(2) by simp
      then show False using sw(3) t(3) pos(1) by simp
    next
      case False
      then show False using sw(4) t(3) pos(1) cfg(1) by simp
    qed
  qed
  then show "v' = ?v" "out = []" using vr_poll_shape [OF p] by blast+
qed

lemma asks_inv_apply:
  assumes inv: "asks_inv I G asks breaks T v" and ap: "vr_apply_pending_rekey v = (ok, v')"
  shows "asks_inv I G asks breaks T v'" "ok \<Longrightarrow> vr_sessionActive v' \<and> ep_active (vr_episode v')"
proof -
  let ?ep = "vr_episode v"
  obtain b c where r: "resume_with (control_resume_stream_id (vr_baseTxStreamId v) (ep_resumeId ?ep))
      (control_resume_stream_id (vr_baseRxStreamId v) (ep_resumeId ?ep)) (vr_channel v) = (b, c)" by fastforce
  have "vr_decide v' = vr_decide v \<and> (vr_episode v' = ?ep\<lparr>ep_rekeyed := True\<rparr> \<or> vr_episode v' = ?ep) \<and>
    (ok \<longrightarrow> vr_sessionActive v' \<and> ep_active (vr_episode v'))"
    using ap unfolding vr_apply_pending_rekey_def r by (cases b) (auto split: if_split_asm)
  then show "asks_inv I G asks breaks T v'" "ok \<Longrightarrow> vr_sessionActive v' \<and> ep_active (vr_episode v')"
    using asks_inv_same [OF inv] by blast+
qed

lemma asks_inv_pump:
  assumes inv: "asks_inv I G asks breaks T v" and pos: "0 < I" "0 < G" and t: "T \<le> t" "t \<le> t2" "t \<noteq> 0"
    and p: "vr_pump cancelled alive prove freshId t t2 v = (r, v', out)"
  shows "asks_inv I G (asks + length out) breaks t2 v'"
proof (cases cancelled)
  case True
  then have "v' = vr_finish v" "out = []" using p by (simp_all add: vr_pump_def)
  then show ?thesis using asks_inv_later [OF asks_inv_finish [OF inv] order_trans [OF t(1,2)]] by simp
next
  case False
  obtain ok v1 where ap: "vr_apply_pending_rekey v = (ok, v1)" by fastforce
  obtain pr c where c: "(if ok then prove (vr_channel v1) else (False, vr_channel v1)) = (pr, c)" by fastforce
  let ?v2 = "v1\<lparr>vr_channel := c\<rparr>"
  note v1 = asks_inv_apply [OF inv ap]
  have v2: "asks_inv I G asks breaks T ?v2" using v1(1) by (rule asks_inv_same) simp_all
  let ?v3 = "if ok then vr_retry_with_new_id freshId t2 ?v2 else ?v2"
  obtain action v4 xs where po: "vr_poll alive t ?v3 = (action, v4, xs)" by (metis surj_pair)
  have "vr_pump cancelled alive prove freshId t t2 v = (if ok \<and> pr then (PumpResumed, vr_finish ?v2, [])
      else if action = ResumeGiveUp then (PumpGaveUp, vr_finish v4, xs) else (PumpContinue, v4, xs))"
    using False by (simp add: vr_pump_def ap c po Let_def)
  then have eq: "(v' = vr_finish ?v2 \<and> out = []) \<or> (v' = vr_finish v4 \<and> out = xs) \<or> (v' = v4 \<and> out = xs)"
    unfolding p by (simp only: split: if_split_asm) simp_all
  have T: "T \<le> t2" "t2 \<noteq> 0" using t by (auto simp: word_le_nat_alt unat_eq_zero)
  have v4: "asks_inv I G (asks + length xs) breaks t2 v4"
  proof (cases ok)
    case True
    have act: "vr_sessionActive ?v2" "ep_active (vr_episode ?v2)" using v1(2) True by simp_all
    have "vr_poll alive t (vr_retry_with_new_id freshId t2 ?v2) = (action, v4, xs)" using po True by simp
    from no_ask_after_retry [OF act v2 pos t(1,2) T(2) this] show ?thesis
      using asks_inv_retry [OF v2 T] by simp
  next
    case False
    then show ?thesis using asks_inv_poll [OF v2 pos(2) t(1,3), of alive action v4 xs] po asks_inv_later [OF _ t(2)] by simp
  qed
  have fin: "asks_inv I G asks breaks t2 (vr_finish ?v2)" by (rule asks_inv_later [OF asks_inv_finish [OF v2] T(1)])
  from eq show ?thesis
  proof (elim disjE conjE)
    assume "v' = vr_finish ?v2" "out = []"
    then show ?thesis using fin by simp
  next
    assume "v' = vr_finish v4" "out = xs"
    then show ?thesis using asks_inv_finish [OF v4] by simp
  next
    assume "v' = v4" "out = xs"
    then show ?thesis using v4 by simp
  qed
qed

text \<open>A clock that does not run backwards and has left zero.\<close>

fun clocks_from :: "u64 \<Rightarrow> viewer_op list \<Rightarrow> bool" where
  "clocks_from T [] = True"
| "clocks_from T (VBreak freshId generation t alive cancelled # ops) = (T \<le> t \<and> t \<noteq> 0 \<and> clocks_from t ops)"
| "clocks_from T (VPump cancelled alive prove freshId t t2 # ops) = (T \<le> t \<and> t \<le> t2 \<and> t \<noteq> 0 \<and> clocks_from t2 ops)"
| "clocks_from T (op # ops) = clocks_from T ops"

lemma asks_inv_step:
  assumes inv: "asks_inv I G asks breaks T v" and pos: "0 < I" "0 < G" and clocks: "clocks_from T (op # ops)"
  obtains T' where "clocks_from T' ops"
    "asks_inv I G (asks + vr_asks op v) (breaks + (if is_break op then 1 else 0)) T' (vr_step op v)"
proof (cases op)
  case (VBreak freshId generation t alive cancelled)
  have t: "T \<le> t" "clocks_from t ops" using clocks VBreak by simp_all
  have more: "asks_inv I G asks (Suc breaks) t v"
    using asks_inv_later [OF inv t(1)]
    by (cases "ep_active (vr_episode v)") (simp_all add: asks_inv_def asks_open_break)
  show ?thesis
    by (rule that [OF t(2)])
      (use more asks_inv_break [OF inv t(1), of freshId generation] in \<open>simp add: VBreak vr_begin_break_if_possible_def Let_def\<close>)
next
  case (VDatagram data generation)
  have "asks_inv I G asks breaks T (snd (vr_on_datagram data generation v))"
    by (rule asks_inv_same [OF inv])
      (auto simp: vr_on_datagram_def Let_def split: viewer_resume_ack_verdict.split)
  then show ?thesis by (intro that [of T]) (use clocks VDatagram in simp_all)
next
  case (VPump cancelled alive prove freshId t t2)
  have t: "T \<le> t" "t \<le> t2" "t \<noteq> 0" "clocks_from t2 ops" using clocks VPump by simp_all
  obtain r v' out where p: "vr_pump cancelled alive prove freshId t t2 v = (r, v', out)" by (metis surj_pair)
  show ?thesis
    by (rule that [OF t(4)]) (use asks_inv_pump [OF inv pos t(1-3) p] in \<open>simp add: VPump p\<close>)
next
  case VEndSession
  have "asks_inv I G asks breaks T (vr_end_session v)"
    by (rule asks_inv_same [OF inv]) (simp_all add: vr_end_session_def)
  then show ?thesis by (intro that [of T]) (use clocks VEndSession in simp_all)
next
  case (VChannel f)
  have "asks_inv I G asks breaks T (v\<lparr>vr_channel := f (vr_channel v)\<rparr>)" by (rule asks_inv_same [OF inv]) simp_all
  then show ?thesis by (intro that [of T]) (use clocks VChannel in simp_all)
qed

lemma asks_inv_run:
  "asks_inv I G asks breaks T v \<Longrightarrow> 0 < I \<Longrightarrow> 0 < G \<Longrightarrow> clocks_from T ops \<Longrightarrow>
   (asks + vr_run_asks ops v) * I \<le> (breaks + length (filter is_break ops)) * (G + I)"
proof (induction ops arbitrary: asks breaks T v)
  case Nil
  then show ?case by (cases "ep_active (vr_episode v)") (auto simp: asks_inv_def dest: asks_open_total)
next
  case (Cons op ops)
  obtain T' where "clocks_from T' ops"
    "asks_inv I G (asks + vr_asks op v) (breaks + (if is_break op then 1 else 0)) T' (vr_step op v)"
    using asks_inv_step [OF Cons.prems] by blast
  from Cons.IH [OF this(2) Cons.prems(2,3) this(1)] show ?case by (simp add: add.assoc split: if_split_asm)
qed

text \<open>
  However the recovery is driven - answers lost, refused or duplicated, re-keys that fail their
  round trip and start again under a fresh id - a viewer asks at most once per retry interval for
  as long as the ceiling allows: over a whole run the asks take at most (ceiling + interval) per
  break noticed.
\<close>

theorem viewer_asks_bounded:
  assumes "clocks_from 0 ops" and "rc_retryIntervalUs config \<noteq> 0" and "rc_giveUpAfterUs config \<noteq> 0"
  shows "vr_run_asks ops (vr_configure channel config negotiated ip port v) * unat (rc_retryIntervalUs config)
    \<le> length (filter is_break ops) * (unat (rc_giveUpAfterUs config) + unat (rc_retryIntervalUs config))"
proof -
  have "asks_inv (unat (rc_retryIntervalUs config)) (unat (rc_giveUpAfterUs config)) 0 0 0
      (vr_configure channel config negotiated ip port v)"
    by (simp add: asks_inv_def vr_configure_def no_episode_def)
  from asks_inv_run [OF this _ _ assms(1)] assms(2,3) show ?thesis by (simp add: unat_eq_zero unat_gt_0)
qed

section \<open>Witnesses\<close>

text \<open>A break, an ask, an answer, a re-key whose round trip fails, and the ask that follows it.\<close>

definition example_recovery :: "viewer_op list" where
  "example_recovery = [VBreak 7 1 1000 True False, VPump False True (Pair False) 8 2000 2000,
     VDatagram (encode_control_resume (resume_packet kKindControlResumeAck
       (control_resume_stream_id kUdpControlStreamHostToClient 7) 7 1)) 1,
     VPump False True (Pair False) 9 3000 4000]"

definition idle_viewer :: viewer_resume where
  "idle_viewer = \<lparr>vr_channel = initial_channel, vr_decide = default_resume_config, vr_baseTxStreamId = 0, vr_baseRxStreamId = 0,
      vr_negotiated = False, vr_sessionActive = False, vr_peerIpNet = 0, vr_peerPortNet = 0, vr_episode = no_episode,
      vr_havePendingServed = False, vr_pendingServedId = 0, vr_duplicateAcks = 0, vr_refusedAcks = 0, vr_ignoredAcks = 0\<rparr>"


theorem viewer_asks_bounded_witness:
  "vr_run_asks example_recovery (vr_configure initial_channel default_resume_config True 0 0 idle_viewer) \<le> 61"
proof -
  have "clocks_from 0 example_recovery" by (simp add: example_recovery_def)
  from viewer_asks_bounded [OF this, of default_resume_config initial_channel True 0 0 idle_viewer] show ?thesis
    by (simp add: default_resume_config_def example_recovery_def)
qed

end
