(* ===== verification/HostResume.thy ===== *)
theory HostResume
  imports ViewerResume
begin

text \<open>
  The host's side of a control resume: the session state of \<open>host_session.hpp\<close> that concerns the
  control channel, the resume part of the UDP reader and the dispatcher of
  \<open>host_startup_control.cpp\<close>, and the admission of a Hello. Fields \<open>rd_\<close> are locals of the reader's
  thread, \<open>dp_\<close> of the dispatcher's. An operation runs from one wait of its thread to the next. The
  log lines with their counters, and the clipboard, file and mailbox services are left out; what
  the dispatcher does to the mailbox is part of its result.
\<close>

section \<open>State\<close>

record host_control =
  hc_channel :: channel
  hc_stop :: bool
  hc_peerIpNet :: u32
  hc_peerPortNet :: u16
  hc_peerChanged :: bool
  hc_fecInterleaved :: bool
  hc_nackEnabled :: bool
  hc_bandwidthObserve :: bool
  hc_directoryAuthenticated :: bool
  hc_directoryAuthEpoch :: u64
  hc_epoch :: u64
  hc_readyEpoch :: u64
  hc_resumeSeq :: u64
  hc_resumeServedSeq :: u64
  hc_resumeId :: u32
  hc_resumeNegotiated :: bool
  hc_serving :: bool
  hc_resumePending :: bool
  rd_resumeAck :: host_resume_ack
  rd_replayBudget :: resume_ack_budget
  rd_globalBudget :: resume_ack_budget
  rd_probeId :: u32
  rd_probeEpoch :: u64
  rd_probeCount :: u32
  rd_wakeId :: u32
  rd_wakeWaitFor :: u64
  dp_servedEpoch :: u64
  dp_servedResumeSeq :: u64

definition initial_host_control :: "channel \<Rightarrow> host_control" where
  "initial_host_control channel = \<lparr>hc_channel = channel, hc_stop = False, hc_peerIpNet = 0, hc_peerPortNet = 0,
     hc_peerChanged = False, hc_fecInterleaved = False, hc_nackEnabled = False, hc_bandwidthObserve = False,
     hc_directoryAuthenticated = False, hc_directoryAuthEpoch = 0, hc_epoch = 1, hc_readyEpoch = 0,
     hc_resumeSeq = 0, hc_resumeServedSeq = 0, hc_resumeId = 0, hc_resumeNegotiated = False,
     hc_serving = False, hc_resumePending = False, rd_resumeAck = no_resume_ack,
     rd_replayBudget = resume_ack_budget_init kResumeAckReplayPerSecond kResumeAckReplayBurst,
     rd_globalBudget = resume_ack_budget_init kResumeAckGlobalPerSecond kResumeAckGlobalBurst,
     rd_probeId = 0, rd_probeEpoch = 0, rd_probeCount = 0, rd_wakeId = 0, rd_wakeWaitFor = 0,
     dp_servedEpoch = 0, dp_servedResumeSeq = 0\<rparr>"

section \<open>Sessions\<close>

definition begin_epoch :: "host_control \<Rightarrow> host_control" where
  "begin_epoch h = h\<lparr>hc_epoch := hc_epoch h + 1, hc_channel := close_channel SessionRollover (hc_channel h)\<rparr>"

text \<open>The states after each write of \<open>AdmitHello\<close>.\<close>

definition admit_hello_steps :: "bool \<Rightarrow> bool \<Rightarrow> host_control \<Rightarrow> host_control list" where
  "admit_hello_steps directoryAuth startsSession h =
    (let h1 = (if startsSession then begin_epoch h else h);
         e = hc_epoch h1;
         h2 = h1\<lparr>hc_directoryAuthEpoch := (if directoryAuth then e else 0)\<rparr>;
         h3 = h2\<lparr>hc_directoryAuthenticated := directoryAuth\<rparr> in [h1, h2, h3])"

definition admit_hello :: "bool \<Rightarrow> bool \<Rightarrow> host_control \<Rightarrow> host_control" where
  "admit_hello directoryAuth startsSession h = last (admit_hello_steps directoryAuth startsSession h)"

definition directory_authenticated_for :: "u64 \<Rightarrow> host_control \<Rightarrow> bool" where
  "directory_authenticated_for servedEpoch h \<longleftrightarrow>
     hc_directoryAuthenticated h \<and> hc_directoryAuthEpoch h = servedEpoch \<and> hc_epoch h = servedEpoch"

definition kUdpFeatureVideoFecInterleaved :: u32 where "kUdpFeatureVideoFecInterleaved = 0x8"
definition kUdpFeatureVideoNack :: u32 where "kUdpFeatureVideoNack = 0x10"
definition kUdpFeatureControlResume :: u32 where "kUdpFeatureControlResume = 0x20"
definition kUdpFeatureBandwidthObserve :: u32 where "kUdpFeatureBandwidthObserve = 0x40"

definition host_resume_negotiated :: "u32 \<Rightarrow> bool" where
  "host_resume_negotiated helloFeatures \<longleftrightarrow> helloFeatures AND kUdpFeatureControlResume \<noteq> 0"

text \<open>An accepted Hello; \<open>directoryAuth\<close> and \<open>newSession\<close> come from the directory's check.\<close>

definition accept_hello :: "u32 \<Rightarrow> u32 \<Rightarrow> u16 \<Rightarrow> bool \<Rightarrow> bool \<Rightarrow> host_control \<Rightarrow> host_control" where
  "accept_hello features peerIp peerPort directoryAuth newSession h =
    (let h = h\<lparr>hc_resumeNegotiated := host_resume_negotiated features,
           hc_fecInterleaved := (features AND kUdpFeatureVideoFecInterleaved \<noteq> 0),
           hc_nackEnabled := (features AND kUdpFeatureVideoNack \<noteq> 0),
           hc_bandwidthObserve := (features AND kUdpFeatureBandwidthObserve \<noteq> 0)\<rparr>;
         changed = (hc_peerIpNet h \<noteq> peerIp \<or> hc_peerPortNet h \<noteq> peerPort);
         startsSession = (if directoryAuth then newSession else changed);
         h = (if changed then h\<lparr>hc_peerIpNet := peerIp, hc_peerPortNet := peerPort\<rparr> else h);
         h = (if startsSession then h\<lparr>hc_peerChanged := True\<rparr> else h) in
     admit_hello directoryAuth startsSession h)"

section \<open>The reader: an ask\<close>

definition is_resume_ask :: "bytes \<Rightarrow> bool" where
  "is_resume_ask data \<longleftrightarrow> control_resume_packet_size \<le> length data \<and>
    (let p = decode_control_resume data in
     rk_magic p = kMagic \<and> rk_kind p = kKindControlResume \<and> unat (rk_size p) = control_resume_packet_size)"

definition from_current_peer :: "u32 \<Rightarrow> u16 \<Rightarrow> host_control \<Rightarrow> bool" where
  "from_current_peer peerIp peerPort h \<longleftrightarrow> hc_peerIpNet h = peerIp \<and> hc_peerPortNet h = peerPort"

definition resume_replay_inputs :: "control_resume_packet \<Rightarrow> u32 \<Rightarrow> u16 \<Rightarrow> host_control \<Rightarrow> host_resume_replay_inputs" where
  "resume_replay_inputs p peerIp peerPort h = \<lparr>rp_negotiated = hc_resumeNegotiated h,
     rp_sessionActive = (from_current_peer peerIp peerPort h \<and> 0 < hc_readyEpoch h), rp_epoch = hc_readyEpoch h,
     rp_peerIpNet = peerIp, rp_peerPortNet = peerPort, rp_resumeId = rk_resumeId p,
     rp_requestStreamId = rk_streamId p, rp_channelTxStreamId = ch_txStreamId (hc_channel h),
     rp_channelRxStreamId = ch_rxStreamId (hc_channel h)\<rparr>"

text \<open>
  The reader's part up to its wait: not an ask, dropped in silence, answered from the cache, or
  waiting to answer (accepted or not, the sequence number it waits for, the epoch it read).
\<close>

datatype ask_result = AskOther | AskSilent | AskReplay bytes | AskWait bool u64 u64

definition replay_resume_ack :: "u64 \<Rightarrow> host_control \<Rightarrow> ask_result \<times> host_control" where
  "replay_resume_ack nowUs h =
    (let (mine, b) = budget_take nowUs (rd_replayBudget h); h = h\<lparr>rd_replayBudget := b\<rparr> in
     if \<not> mine then (AskSilent, h)
     else let (all, g) = budget_take nowUs (rd_globalBudget h); h = h\<lparr>rd_globalBudget := g\<rparr> in
     if \<not> all then (AskSilent, h)
     else (AskReplay (encode_control_resume (resume_packet kKindControlResumeAck (ra_ackStreamId (rd_resumeAck h))
        (ra_resumeId (rd_resumeAck h)) 1)), h))"

definition forget_other_ask :: "u32 \<Rightarrow> u64 \<Rightarrow> host_control \<Rightarrow> host_control" where
  "forget_other_ask resumeId nowUs h =
    (if \<not> ra_valid (rd_resumeAck h) \<or> ra_resumeId (rd_resumeAck h) \<noteq> resumeId
     then h\<lparr>rd_resumeAck := no_resume_ack, rd_replayBudget := budget_restart nowUs (rd_replayBudget h)\<rparr> else h)"

definition forget_other_probe :: "u32 \<Rightarrow> host_control \<Rightarrow> host_control" where
  "forget_other_probe resumeId h =
    (if rd_probeId h \<noteq> resumeId \<or> rd_probeEpoch h \<noteq> hc_readyEpoch h
     then h\<lparr>hc_channel := clear_probe (hc_channel h), rd_probeId := resumeId, rd_probeEpoch := hc_readyEpoch h,
       rd_probeCount := 0\<rparr> else h)"

text \<open>The probe's answer as it may be used now, with a stale one discarded. \<open>steadyUs\<close> is the channel's clock.\<close>

definition fresh_probe :: "u64 \<Rightarrow> host_control \<Rightarrow> control_probe_state \<times> host_control" where
  "fresh_probe steadyUs h =
    (let fresh = \<lparr>pf_state = probe_status (hc_channel h), pf_ageUs = probe_age_us steadyUs (hc_channel h),
           pf_probesThisRecovery = rd_probeCount h, pf_freshUs = kResumeProbeFreshUs,
           pf_maxProbes = kResumeProbeMaxPerRecovery\<rparr> in
     if resume_probe_action fresh = ProbeRestart
     then (ProbeIdle, h\<lparr>hc_channel := clear_probe (hc_channel h)\<rparr>) else (pf_state fresh, h))"

definition resume_eligibility ::
    "bool \<Rightarrow> bool \<Rightarrow> u32 \<Rightarrow> control_probe_state \<Rightarrow> host_control \<Rightarrow> host_resume_eligibility" where
  "resume_eligibility negotiated sessionActive resumeId probe h = \<lparr>el_negotiated = negotiated,
     el_sessionActive = sessionActive,
     el_servingControl = hc_serving h, el_cacheMatches = False,
     el_sameIdAsCache = (ra_valid (rd_resumeAck h) \<and> ra_resumeId (rd_resumeAck h) = resumeId),
     el_channelPeerLost = (ch_closed (hc_channel h) \<and> ch_closeReason (hc_channel h) = PeerLost), el_probe = probe\<rparr>"

definition start_resume_probe :: "u64 \<Rightarrow> host_control \<Rightarrow> host_control \<times> bytes list" where
  "start_resume_probe steadyUs h =
    (let (c, sent) = start_probe kResumeProbeMaxAttempts kResumeProbeIntervalUs steadyUs (hc_channel h) in
     (h\<lparr>rd_probeCount := rd_probeCount h + 1, hc_channel := c\<rparr>, sent))"

text \<open>The wake, with the number to wait for.\<close>

definition raise_wake :: "u32 \<Rightarrow> bool \<Rightarrow> host_control \<Rightarrow> u64 \<times> host_control" where
  "raise_wake resumeId accept h =
    (let same = (rd_wakeId h = resumeId);
         waitFor = (if hc_resumePending h \<and> same then rd_wakeWaitFor h else 0) in
     if \<not> host_resume_should_raise_wake accept (hc_resumePending h) same then (waitFor, h)
     else let waitFor = hc_resumeSeq h + 1;
            h = h\<lparr>hc_resumeId := resumeId, hc_resumeSeq := waitFor, rd_wakeId := resumeId, rd_wakeWaitFor := waitFor\<rparr> in
       (waitFor, if accept \<and> hc_serving h
         then h\<lparr>hc_resumePending := True, hc_channel := close_channel PeerLost (hc_channel h)\<rparr> else h))"

definition reader_resume_ask ::
    "bytes \<Rightarrow> u32 \<Rightarrow> u16 \<Rightarrow> u64 \<Rightarrow> u64 \<Rightarrow> host_control \<Rightarrow> ask_result \<times> host_control \<times> bytes list" where
  "reader_resume_ask data peerIp peerPort nowUs steadyUs h =
    (if \<not> is_resume_ask data then (AskOther, h, [])
     else let p = decode_control_resume data; resumeId = rk_resumeId p; negotiated = hc_resumeNegotiated h;
            sessionActive = (from_current_peer peerIp peerPort h \<and> 0 < hc_readyEpoch h) in
     if \<not> negotiated \<or> \<not> sessionActive then (AskSilent, h, [])
     else if host_should_replay_resume_ack (rd_resumeAck h) (resume_replay_inputs p peerIp peerPort h)
     then (let (r, h) = replay_resume_ack nowUs h in (r, h, []))
     else let h = forget_other_ask resumeId nowUs h; (all, g) = budget_take nowUs (rd_globalBudget h);
            h = h\<lparr>rd_globalBudget := g\<rparr> in
     if \<not> all then (AskSilent, h, [])
     else let h = forget_other_probe resumeId h; (probe, h) = fresh_probe steadyUs h;
            verdict = host_resume_verdict (resume_eligibility negotiated sessionActive resumeId probe h);
            (h, sent) = (if verdict = VerdictProbe \<and> probe = ProbeIdle then start_resume_probe steadyUs h else (h, []));
            accept = (verdict = VerdictServe);
            (waitFor, h) = raise_wake resumeId accept h in
       (AskWait accept waitFor (hc_readyEpoch h), h, sent))"

text \<open>The reader after its wait: whether it was served by now, the cache, the answer.\<close>

definition reader_resume_answer ::
    "bytes \<Rightarrow> u32 \<Rightarrow> u16 \<Rightarrow> bool \<Rightarrow> u64 \<Rightarrow> u64 \<Rightarrow> host_control \<Rightarrow> bytes \<times> host_control" where
  "reader_resume_answer data peerIp peerPort accept waitFor readyEpoch h =
    (let p = decode_control_resume data; resumeId = rk_resumeId p;
         served = (accept \<and> waitFor \<le> hc_resumeServedSeq h);
         h = (if served then h\<lparr>hc_resumePending := False, rd_wakeId := 0, rd_wakeWaitFor := 0\<rparr> else h);
         streamId = (if served then control_resume_stream_id kUdpControlStreamHostToClient resumeId
           else kUdpControlStreamHostToClient);
         h = (if served then h\<lparr>rd_resumeAck := \<lparr>ra_valid = True, ra_epoch = readyEpoch, ra_peerIpNet = peerIp,
             ra_peerPortNet = peerPort, ra_resumeId = resumeId, ra_requestStreamId = rk_streamId p,
             ra_txStreamId = ch_txStreamId (hc_channel h), ra_rxStreamId = ch_rxStreamId (hc_channel h),
             ra_ackStreamId = streamId\<rparr>\<rparr> else h) in
     (encode_control_resume (resume_packet kKindControlResumeAck streamId resumeId (if served then 1 else 0)), h))"

text \<open>Control datagrams reach the channel from the adopted peer only.\<close>

definition reader_control_datagram ::
    "bytes \<Rightarrow> bool \<Rightarrow> u32 \<Rightarrow> u16 \<Rightarrow> u64 \<Rightarrow> host_control \<Rightarrow> bool \<times> host_control \<times> bytes list" where
  "reader_control_datagram data ipv4 peerIp peerPort steadyUs h =
    (if ipv4 \<and> from_current_peer peerIp peerPort h
     then (let (mine, c, sent) = on_packet data steadyUs (hc_channel h) in (mine, h\<lparr>hc_channel := c\<rparr>, sent))
     else (is_control_datagram data, h, []))"

section \<open>The dispatcher\<close>

definition dispatch_look :: "host_control \<Rightarrow> control_dispatch_decision" where
  "dispatch_look h = control_dispatch_decide \<lparr>di_stop = hc_stop h, di_epoch = hc_epoch h,
     di_servedEpoch = dp_servedEpoch h, di_resumeSeq = hc_resumeSeq h, di_servedResumeSeq = dp_servedResumeSeq h\<rparr>"

text \<open>One turn, up to the start of \<open>Serve\<close>; a rollover also clears the main loop's mailbox.\<close>

datatype dispatch_result = DispatchSleep | DispatchStop | ServeResumed | ServeNewSession

definition dispatch_turn :: "host_control \<Rightarrow> dispatch_result \<times> host_control" where
  "dispatch_turn h =
    (if \<not> dd_wake (dispatch_look h) then (DispatchSleep, h)
     else if hc_stop h then (DispatchStop, h)
     else let resuming = dd_resuming (dispatch_look h); h = h\<lparr>dp_servedEpoch := hc_epoch h\<rparr> in
     if resuming
     then (ServeResumed, h\<lparr>hc_channel := snd (resume_with
           (control_resume_stream_id kUdpControlStreamHostToClient (hc_resumeId h))
           (control_resume_stream_id kUdpControlStreamClientToHost (hc_resumeId h)) (hc_channel h)),
         dp_servedResumeSeq := hc_resumeSeq h, hc_resumeServedSeq := hc_resumeSeq h, hc_resumePending := False\<rparr>)
     else (ServeNewSession, h\<lparr>hc_channel := reset_channel (hc_channel h), hc_readyEpoch := dp_servedEpoch h,
         dp_servedResumeSeq := hc_resumeSeq h, hc_resumePending := False\<rparr>))"

definition serve_begin :: "host_control \<Rightarrow> host_control" where
  "serve_begin h = h\<lparr>hc_serving := True\<rparr>"

definition serve_end :: "host_control \<Rightarrow> host_control" where
  "serve_end h = h\<lparr>hc_serving := False\<rparr>"

section \<open>A resume from end to end\<close>

lemma u64_next: "(x :: u64) \<noteq> -1 \<Longrightarrow> x < x + 1"
proof -
  assume x: "x \<noteq> -1"
  have "unat x \<noteq> 18446744073709551615"
  proof
    assume "unat x = 18446744073709551615"
    then have "of_nat (unat x) = (of_nat 18446744073709551615 :: u64)" by simp
    then show False using x by simp
  qed
  then have "unat x + 1 < 2 ^ 64" using unat_bounds(4) [of x] by simp
  then show ?thesis by (simp add: word_less_nat_alt unat_word_ariths)
qed

definition viewer_ask :: "u32 \<Rightarrow> bytes" where
  "viewer_ask r = encode_control_resume (resume_packet kKindControlResume kUdpControlStreamClientToHost r 0)"

lemma resume_packet_fields [simp]:
  "rk_magic (resume_packet k s r a) = kMagic" "rk_kind (resume_packet k s r a) = k"
  "rk_size (resume_packet k s r a) = 24" "rk_streamId (resume_packet k s r a) = s"
  "rk_resumeId (resume_packet k s r a) = r" "rk_accepted (resume_packet k s r a) = a"
  by (simp_all add: resume_packet_def)

lemma viewer_ask_is_ask: "is_resume_ask (viewer_ask r)" "decode_control_resume (viewer_ask r) =
    resume_packet kKindControlResume kUdpControlStreamClientToHost r 0"
  by (simp_all add: is_resume_ask_def viewer_ask_def decode_encode_control_resume Let_def)

lemma fresh_probe_state:
  "fresh_probe t h = (p, h') \<Longrightarrow> h' = h \<or> h' = h\<lparr>hc_channel := clear_probe (hc_channel h)\<rparr>"
  by (auto simp: fresh_probe_def Let_def split: if_split_asm)

lemma clear_probe_fields [simp]:
  "ch_closed (clear_probe c) = ch_closed c" "ch_closeReason (clear_probe c) = ch_closeReason c"
  "ch_shutdown (clear_probe c) = ch_shutdown c" "ch_fragBytes (clear_probe c) = ch_fragBytes c"
  "ch_txStreamId (clear_probe c) = ch_txStreamId c" "ch_rxStreamId (clear_probe c) = ch_rxStreamId c"
  by (simp_all add: clear_probe_def)

text \<open>What an ask does not change before it raises a wake: of the channel, of the session.\<close>

definition channel_key :: "channel \<Rightarrow> bool \<times> control_close_reason \<times> bool \<times> u32 \<times> u32 \<times> u32" where
  "channel_key c = (ch_closed c, ch_closeReason c, ch_shutdown c, ch_fragBytes c, ch_txStreamId c, ch_rxStreamId c)"

definition session_key where
  "session_key h = (hc_stop h, hc_peerIpNet h, hc_peerPortNet h, hc_epoch h, hc_readyEpoch h, hc_resumeSeq h,
     hc_resumeServedSeq h, hc_resumeId h, hc_resumeNegotiated h, hc_serving h, hc_resumePending h,
     rd_wakeId h, rd_wakeWaitFor h, dp_servedEpoch h, dp_servedResumeSeq h)"

definition same_host :: "host_control \<Rightarrow> host_control \<Rightarrow> bool" where
  "same_host h h' \<longleftrightarrow> channel_key (hc_channel h') = channel_key (hc_channel h) \<and> session_key h' = session_key h"

lemma same_host_refl [simp]: "same_host h h" by (simp add: same_host_def)

lemma same_host_trans: "same_host h h' \<Longrightarrow> same_host h' h'' \<Longrightarrow> same_host h h''" by (simp add: same_host_def)

lemma start_probe_key: "channel_key (fst (start_probe n i t c)) = channel_key c"
  by (simp add: start_probe_def channel_key_def Let_def)

lemma same_host_parts:
  "same_host h (forget_other_ask r t h)" "same_host h (h\<lparr>rd_globalBudget := g\<rparr>)" "same_host h (forget_other_probe r h)"
  "same_host h (snd (fresh_probe t h))" "same_host h (fst (start_resume_probe t h))"
  by (simp_all add: forget_other_ask_def forget_other_probe_def fresh_probe_def start_resume_probe_def same_host_def
      session_key_def Let_def case_prod_beta start_probe_key channel_key_def [of "clear_probe _"] flip: channel_key_def)

text \<open>
  An ask from the session's viewer that the cache does not answer and the budget allows: the verdict
  is that of the state it found, and a wake is raised on top of it.
\<close>

lemma ask_waits:
  assumes "is_resume_ask data" and "decode_control_resume data = p" and "hc_resumeNegotiated h"
    and "from_current_peer ip port h" and "0 < hc_readyEpoch h"
    and "\<not> host_should_replay_resume_ack (rd_resumeAck h) (resume_replay_inputs p ip port h)"
    and "fst (budget_take now (rd_globalBudget h))"
  obtains probe h' sent v where "same_host h h'" "v = host_resume_verdict (resume_eligibility True True (rk_resumeId p) probe h)"
    "reader_resume_ask data ip port now steady h =
      (AskWait (v = VerdictServe) (fst (raise_wake (rk_resumeId p) (v = VerdictServe) h')) (hc_readyEpoch h),
       snd (raise_wake (rk_resumeId p) (v = VerdictServe) h'), sent)"
    "probe = ProbeIdle \<or> probe = probe_status (hc_channel h)"
proof -
  let ?r = "rk_resumeId p"
  obtain g where g: "budget_take now (rd_globalBudget h) = (True, g)" using assms(7) by (cases "budget_take now (rd_globalBudget h)") simp
  define h1 where "h1 = (forget_other_ask ?r now h)\<lparr>rd_globalBudget := g\<rparr>"
  define h2 where "h2 = forget_other_probe ?r h1"
  obtain probe h3 where fp: "fresh_probe steady h2 = (probe, h3)" by fastforce
  define el where "el = resume_eligibility True True ?r probe h3"
  define v where "v = host_resume_verdict el"
  obtain h4 sent where h4: "(if v = VerdictProbe \<and> probe = ProbeIdle then start_resume_probe steady h3 else (h3, [])) = (h4, sent)"
    by fastforce
  have gb: "rd_globalBudget (forget_other_ask ?r now h) = rd_globalBudget h" by (simp add: forget_other_ask_def)
  have s2: "same_host h h2" unfolding h1_def h2_def
    by (blast intro: same_host_trans same_host_parts)
  have s3: "same_host h h3" using same_host_trans [OF s2 same_host_parts(4) [of h2 steady]] fp by simp
  have s4: "same_host h h4"
    using h4 s3 same_host_trans [OF s3 same_host_parts(5) [of h3 steady]] by (auto split: if_split_asm)
  have ack: "(ra_valid (rd_resumeAck h3) \<and> ra_resumeId (rd_resumeAck h3) = ?r) = (ra_valid (rd_resumeAck h) \<and> ra_resumeId (rd_resumeAck h) = ?r)"
  proof -
    have "rd_resumeAck h3 = rd_resumeAck (forget_other_ask ?r now h)"
      using fresh_probe_state [OF fp] by (auto simp: h2_def h1_def forget_other_probe_def)
    then show ?thesis by (auto simp: forget_other_ask_def no_resume_ack_def)
  qed
  have status: "probe_status (hc_channel h2) = probe_status (hc_channel h) \<or> probe_status (hc_channel h2) = ProbeIdle"
    by (auto simp: h2_def h1_def forget_other_probe_def forget_other_ask_def probe_status_def clear_probe_def)
  have probe: "probe = ProbeIdle \<or> probe = probe_status (hc_channel h)"
    using fp status by (auto simp: fresh_probe_def Let_def split: if_split_asm)
  have el: "el = resume_eligibility True True ?r probe h"
    using s3 ack by (simp add: el_def resume_eligibility_def same_host_def session_key_def channel_key_def)
  have "hc_readyEpoch (snd (raise_wake ?r (v = VerdictServe) h4)) = hc_readyEpoch h"
    using s4 by (simp add: raise_wake_def same_host_def session_key_def Let_def)
  then have "reader_resume_ask data ip port now steady h =
      (AskWait (v = VerdictServe) (fst (raise_wake ?r (v = VerdictServe) h4)) (hc_readyEpoch h),
       snd (raise_wake ?r (v = VerdictServe) h4), sent)"
    using assms(1-6) unfolding reader_resume_ask_def
    by (cases "raise_wake ?r (v = VerdictServe) h4")
      (simp add: g gb fp h4 Let_def flip: h1_def h2_def el_def v_def)
  then show thesis using that [of h4 v probe sent] s4 el probe v_def by blast
qed

lemma no_replay_of_other:
  "\<not> ra_valid a \<or> ra_resumeId a \<noteq> rk_resumeId p \<Longrightarrow>
   \<not> host_should_replay_resume_ack a (resume_replay_inputs p ip port h)"
  by (auto simp: host_should_replay_resume_ack_def resume_replay_inputs_def)


section \<open>The answer to a repeated ask\<close>

text \<open>
  A lost answer is repeated and not redone: as long as the cache, the streams and the epoch stand
  as they were when an ask was answered as served, the same ask from the same place gets the very
  same bytes, or silence when a budget is spent; the channel, the wakes and the session do not
  change either way.
\<close>

theorem lost_answer_repeated:
  assumes "is_resume_ask data"
    and "reader_resume_answer data ip port True waitFor readyEpoch h = (answer, h')" and "waitFor \<le> hc_resumeServedSeq h"
    and "hc_resumeNegotiated h''" and "from_current_peer ip port h''" and "0 < readyEpoch" and "hc_readyEpoch h'' = readyEpoch"
    and "rd_resumeAck h'' = rd_resumeAck h'" and "ch_txStreamId (hc_channel h'') = ch_txStreamId (hc_channel h)"
    and "ch_rxStreamId (hc_channel h'') = ch_rxStreamId (hc_channel h)"
  shows "fst (reader_resume_ask data ip port now steady h'') \<in> {AskReplay answer, AskSilent} \<and>
    (fst (budget_take now (rd_replayBudget h'')) \<and> fst (budget_take now (rd_globalBudget h'')) \<longrightarrow>
      fst (reader_resume_ask data ip port now steady h'') = AskReplay answer) \<and>
    (\<exists>b g. snd (reader_resume_ask data ip port now steady h'') = (h''\<lparr>rd_replayBudget := b, rd_globalBudget := g\<rparr>, []))"
proof -
  let ?p = "decode_control_resume data"
  let ?rx = "control_resume_stream_id kUdpControlStreamHostToClient (rk_resumeId ?p)"
  have kept: "rd_resumeAck h' = \<lparr>ra_valid = True, ra_epoch = readyEpoch, ra_peerIpNet = ip, ra_peerPortNet = port,
      ra_resumeId = rk_resumeId ?p, ra_requestStreamId = rk_streamId ?p, ra_txStreamId = ch_txStreamId (hc_channel h),
      ra_rxStreamId = ch_rxStreamId (hc_channel h), ra_ackStreamId = ?rx\<rparr>"
    and answer: "answer = encode_control_resume (resume_packet kKindControlResumeAck ?rx (rk_resumeId ?p) 1)"
    using assms(2,3) by (auto simp: reader_resume_answer_def Let_def)
  have ack: "ra_ackStreamId (rd_resumeAck h'') = ?rx" "ra_resumeId (rd_resumeAck h'') = rk_resumeId ?p"
    by (simp_all add: assms(8) kept)
  have replay: "host_should_replay_resume_ack (rd_resumeAck h'') (resume_replay_inputs ?p ip port h'')"
    unfolding host_should_replay_resume_ack_def resume_replay_inputs_def assms(8) kept
    using assms(4-7,9,10) by simp
  have eq: "reader_resume_ask data ip port now steady h'' = (let (r, h) = replay_resume_ack now h'' in (r, h, []))"
    using assms(1,4-7) replay unfolding reader_resume_ask_def Let_def by simp
  obtain mine b where mine: "budget_take now (rd_replayBudget h'') = (mine, b)" by fastforce
  obtain all g where all: "budget_take now (rd_globalBudget h'') = (all, g)" by fastforce
  have "replay_resume_ack now h'' =
    (if \<not> mine then (AskSilent, h''\<lparr>rd_replayBudget := b, rd_globalBudget := rd_globalBudget h''\<rparr>)
     else (if all then AskReplay answer else AskSilent, h''\<lparr>rd_replayBudget := b, rd_globalBudget := g\<rparr>))"
    by (simp add: replay_resume_ack_def mine all answer ack Let_def)
  then have "\<exists>r b g. replay_resume_ack now h'' = (r, h''\<lparr>rd_replayBudget := b, rd_globalBudget := g\<rparr>) \<and>
      r \<in> {AskReplay answer, AskSilent} \<and> (mine \<and> all \<longrightarrow> r = AskReplay answer)"
    by (intro exI [of _ "if mine \<and> all then AskReplay answer else AskSilent"] exI [of _ b]
        exI [of _ "if mine then g else rd_globalBudget h''"]) (cases mine; cases all; simp)
  then obtain r b' g' where "replay_resume_ack now h'' = (r, h''\<lparr>rd_replayBudget := b', rd_globalBudget := g'\<rparr>)"
    and "r \<in> {AskReplay answer, AskSilent}" "mine \<and> all \<longrightarrow> r = AskReplay answer" by blast
  then show ?thesis unfolding eq mine all by simp blast
qed

section \<open>Evidence\<close>

text \<open>
  C15. A session that is being served is interrupted only on evidence: an ask that closes the channel
  of a serving dispatcher, raises a wake or is accepted comes from the session's own viewer, which
  has negotiated resumes, and finds the channel closed by its own retransmissions or a probe that
  went unanswered; and it was not already answered for this id.
\<close>

theorem resume_needs_evidence:
  assumes "reader_resume_ask data ip port now steady h = (result, h', sent)" and "hc_serving h"
    and "hc_resumeSeq h' \<noteq> hc_resumeSeq h \<or> ch_closed (hc_channel h') \<noteq> ch_closed (hc_channel h) \<or>
      (\<exists>w e. result = AskWait True w e)"
  shows "is_resume_ask data \<and> hc_resumeNegotiated h \<and> from_current_peer ip port h \<and> 0 < hc_readyEpoch h \<and>
    ((ch_closed (hc_channel h) \<and> ch_closeReason (hc_channel h) = PeerLost) \<or> probe_status (hc_channel h) = ProbeDead) \<and>
    \<not> (ra_valid (rd_resumeAck h) \<and> ra_resumeId (rd_resumeAck h) = rk_resumeId (decode_control_resume data))"
proof -
  let ?p = "decode_control_resume data"
  have silent: "hc_resumeSeq h' = hc_resumeSeq h \<and> ch_closed (hc_channel h') = ch_closed (hc_channel h) \<and>
      (result = AskSilent \<or> result = AskOther \<or> (\<exists>x. result = AskReplay x)) \<Longrightarrow> False"
    using assms(3) by auto
  have ask: "is_resume_ask data"
  proof (rule ccontr)
    assume "\<not> is_resume_ask data"
    then have "result = AskOther" "h' = h" using assms(1) by (simp_all add: reader_resume_ask_def)
    then show False using silent by simp
  qed
  have gate: "hc_resumeNegotiated h" "from_current_peer ip port h" "0 < hc_readyEpoch h"
  proof -
    have "hc_resumeNegotiated h \<and> from_current_peer ip port h \<and> 0 < hc_readyEpoch h"
    proof (rule ccontr)
      assume "\<not> (hc_resumeNegotiated h \<and> from_current_peer ip port h \<and> 0 < hc_readyEpoch h)"
      then have "result = AskSilent" "h' = h" using assms(1) ask by (auto simp: reader_resume_ask_def Let_def)
      then show False using silent by simp
    qed
    then show "hc_resumeNegotiated h" "from_current_peer ip port h" "0 < hc_readyEpoch h" by blast+
  qed
  have unseen: "\<not> host_should_replay_resume_ack (rd_resumeAck h) (resume_replay_inputs ?p ip port h)"
  proof
    assume "host_should_replay_resume_ack (rd_resumeAck h) (resume_replay_inputs ?p ip port h)"
    then have "(result, h', sent) = (let (r, h) = replay_resume_ack now h in (r, h, []))"
      using assms(1) ask gate by (simp add: reader_resume_ask_def Let_def)
    then show False using silent
      by (auto simp: replay_resume_ack_def Let_def case_prod_beta split: if_split_asm)
  qed
  have budget: "fst (budget_take now (rd_globalBudget h))"
  proof (rule ccontr)
    assume none: "\<not> fst (budget_take now (rd_globalBudget h))"
    have "rd_globalBudget (forget_other_ask r t h) = rd_globalBudget h" for r t by (simp add: forget_other_ask_def)
    then have "result = AskSilent \<and> h' = (forget_other_ask (rk_resumeId ?p) now h)\<lparr>rd_globalBudget := snd (budget_take now (rd_globalBudget h))\<rparr>"
      using assms(1) ask gate unseen none by (simp add: reader_resume_ask_def Let_def case_prod_beta)
    then show False using silent by (simp add: forget_other_ask_def split: if_split_asm)
  qed
  obtain probe h1 sent' v where same: "same_host h h1"
    and v: "v = host_resume_verdict (resume_eligibility True True (rk_resumeId ?p) probe h)"
    and eq: "reader_resume_ask data ip port now steady h =
      (AskWait (v = VerdictServe) (fst (raise_wake (rk_resumeId ?p) (v = VerdictServe) h1)) (hc_readyEpoch h),
       snd (raise_wake (rk_resumeId ?p) (v = VerdictServe) h1), sent')"
    and probe: "probe = ProbeIdle \<or> probe = probe_status (hc_channel h)"
    by (rule ask_waits [OF ask refl gate unseen budget, of steady])
  have "v = VerdictServe"
  proof (rule ccontr)
    assume "v \<noteq> VerdictServe"
    then have "h' = h1" "\<exists>w e. result = AskWait False w e" using assms(1) eq
      by (auto simp: raise_wake_def host_resume_should_raise_wake_def Let_def)
    then show False using assms(3) same by (auto simp: same_host_def session_key_def channel_key_def)
  qed
  then show ?thesis using ask gate assms(2) probe
    by (auto simp: v host_resume_verdict_def resume_eligibility_def split: if_split_asm)
qed

section \<open>After a resume, a new session\<close>

lemma rollover_turn:
  assumes "dp_servedEpoch h < hc_epoch h" and "\<not> hc_stop h"
  shows "fst (dispatch_turn h) = ServeNewSession" "hc_channel (snd (dispatch_turn h)) = reset_channel (hc_channel h)"
    "hc_readyEpoch (snd (dispatch_turn h)) = hc_epoch h"
proof -
  have "\<not> hc_epoch h \<le> dp_servedEpoch h" using assms(1) by simp
  then show "fst (dispatch_turn h) = ServeNewSession" "hc_channel (snd (dispatch_turn h)) = reset_channel (hc_channel h)"
    "hc_readyEpoch (snd (dispatch_turn h)) = hc_epoch h"
    using assms by (simp_all add: dispatch_turn_def dispatch_look_def control_dispatch_decide_def Let_def)
qed

lemma resumed_turn:
  assumes "dispatch_turn h = (ServeResumed, h')" and "\<not> ch_shutdown (hc_channel h)"
  shows "ch_txStreamId (hc_channel h') = control_resume_stream_id kUdpControlStreamHostToClient (hc_resumeId h)"
    "ch_rxStreamId (hc_channel h') = control_resume_stream_id kUdpControlStreamClientToHost (hc_resumeId h)"
  using assms by (auto simp: dispatch_turn_def resume_with_def Let_def split: if_split_asm)

text \<open>
  C17. A channel that has served a resume stays on the derived streams. The dispatcher's turn for the
  next session clears the channel but does not put the base streams back, and nothing else does:
  whatever the next viewer sends over the streams it was given is claimed by the channel and ignored.
\<close>

theorem rollover_after_resume_deaf:
  assumes "dispatch_turn h1 = (ServeResumed, h2)" and "\<not> ch_shutdown (hc_channel h1)"
    and "ch_txStreamId (hc_channel h3) = ch_txStreamId (hc_channel h2)"
    and "ch_rxStreamId (hc_channel h3) = ch_rxStreamId (hc_channel h2)"
    and "dp_servedEpoch h3 < hc_epoch h3" and "\<not> hc_stop h3" and "dispatch_turn h3 = (result, h4)"
    and "is_control_datagram x" and "datagram_stream x \<in> {kUdpControlStreamClientToHost, kUdpControlStreamHostToClient}"
    and "from_current_peer ip port h4"
  shows "result = ServeNewSession \<and> hc_readyEpoch h4 = hc_epoch h3 \<and>
    reader_control_datagram x True ip port steady h4 = (True, h4, [])"
proof -
  have turn: "result = ServeNewSession" "hc_channel h4 = reset_channel (hc_channel h3)" "hc_readyEpoch h4 = hc_epoch h3"
    using rollover_turn [OF assms(5,6)] assms(7) by simp_all
  have ids: "ch_txStreamId (hc_channel h4) = control_resume_stream_id kUdpControlStreamHostToClient (hc_resumeId h1)"
    "ch_rxStreamId (hc_channel h4) = control_resume_stream_id kUdpControlStreamClientToHost (hc_resumeId h1)"
    using resumed_turn [OF assms(1,2)] assms(3,4) turn(2) by (simp_all add: reset_channel_def clear_session_def)
  have "datagram_stream x < 0x80000000"
    using assms(9) by (auto simp: kUdpControlStreamClientToHost_def kUdpControlStreamHostToClient_def)
  then have "foreign (hc_channel h4) x"
    using resume_stream_id_not_base [of "datagram_stream x"] by (simp add: foreign_def datagram_stream ids) metis
  then have "on_packet x steady (hc_channel h4) = (True, hc_channel h4, [])"
    using foreign_ignored [of "hc_channel h4" x steady] assms(8) by (auto simp: prod_eq_iff on_packet_def)
  then show ?thesis using turn assms(10) by (simp add: reader_control_datagram_def)
qed

section \<open>Whose authorisation\<close>

text \<open>
  While a Hello that starts a session is admitted, at no point between its writes does a
  dispatcher of an earlier epoch count as authorised by the directory, whatever the newcomer's
  standing; and at its end the newcomer's own epoch counts exactly if the newcomer was authorised.
\<close>

theorem directory_auth_not_inherited:
  assumes "servedEpoch \<le> hc_epoch h" and "hc_epoch h \<noteq> -1"
  shows "(\<forall>s\<in>set (admit_hello_steps directoryAuth True h). \<not> directory_authenticated_for servedEpoch s) \<and>
    directory_authenticated_for (hc_epoch h + 1) (admit_hello directoryAuth True h) = directoryAuth"
proof -
  have "hc_epoch h < hc_epoch h + 1" using assms(2) by (rule u64_next)
  then have "servedEpoch \<noteq> hc_epoch h + 1" using assms(1) by auto
  then show ?thesis
    by (auto simp: admit_hello_def admit_hello_steps_def directory_authenticated_for_def begin_epoch_def Let_def)
qed

section \<open>Witnesses\<close>

definition example_host :: host_control where
  "example_host = (initial_host_control (configure_channel kUdpControlStreamHostToClient kUdpControlStreamClientToHost
     1200 initial_channel))\<lparr>hc_resumeNegotiated := True, hc_readyEpoch := 1, dp_servedEpoch := 1\<rparr>"

definition example_viewer :: viewer_resume where
  "example_viewer = vr_begin_break 7 1 1000 (vr_configure (configure_channel kUdpControlStreamClientToHost
     kUdpControlStreamHostToClient 1200 initial_channel) default_resume_config True 0 0
     idle_viewer)"

lemmas example_resume_defs = example_host_def example_viewer_def idle_viewer_def initial_host_control_def configure_channel_def
  initial_channel_def vr_begin_break_def vr_configure_def viewer_resume_begin_def no_episode_def no_resume_ack_def
  from_current_peer_def Let_def

lemma example_budgets:
  "fst (budget_take 5 (rd_globalBudget example_host))" "rd_resumeAck example_host = no_resume_ack"
  by (simp_all add: example_resume_defs budget_take_def budget_refill_def resume_ack_budget_init_def
      kResumeAckGlobalPerSecond_def kResumeAckGlobalBurst_def)

lemma example_viewer_state: "vr_sessionActive example_viewer" "vr_negotiated example_viewer"
  "ep_active (vr_episode example_viewer)" "\<not> ep_rekeyed (vr_episode example_viewer)"
  "ep_resumeId (vr_episode example_viewer) = 7" "ep_generation (vr_episode example_viewer) = 1"
  "vr_baseTxStreamId example_viewer = kUdpControlStreamClientToHost"
  "vr_baseRxStreamId example_viewer = kUdpControlStreamHostToClient"
  "\<not> ch_shutdown (vr_channel example_viewer)" "ch_fragBytes (vr_channel example_viewer) = net_frag_bytes 1200"
  by (simp_all add: example_resume_defs net_frag_bytes_def)


theorem lost_answer_repeated_witness:
  "fst (reader_resume_ask (viewer_ask 7) 0 0 5 5 (snd (reader_resume_answer (viewer_ask 7) 0 0 True 0 1 example_host))) =
    AskReplay (fst (reader_resume_answer (viewer_ask 7) 0 0 True 0 1 example_host))"
proof -
  let ?a = "reader_resume_answer (viewer_ask 7) 0 0 True 0 1 example_host"
  have same: "hc_resumeNegotiated (snd ?a)" "from_current_peer 0 0 (snd ?a)" "hc_readyEpoch (snd ?a) = 1"
    "hc_channel (snd ?a) = hc_channel example_host" "rd_replayBudget (snd ?a) = rd_replayBudget example_host"
    "rd_globalBudget (snd ?a) = rd_globalBudget example_host"
    by (simp_all add: reader_resume_answer_def example_resume_defs)
  have "fst (budget_take 5 (rd_replayBudget example_host))"
    by (simp add: example_resume_defs budget_take_def budget_refill_def resume_ack_budget_init_def
        kResumeAckReplayPerSecond_def kResumeAckReplayBurst_def)
  then show ?thesis
    using lost_answer_repeated [OF viewer_ask_is_ask(1) [of 7], of 0 0 0 1 example_host "fst ?a" "snd ?a" "snd ?a" 5 5]
      same example_budgets(1) by simp
qed

text \<open>A serving host whose channel has lost its peer.\<close>

definition example_broken_host :: host_control where
  "example_broken_host = example_host\<lparr>hc_serving := True, hc_channel := close_channel PeerLost (hc_channel example_host)\<rparr>"

theorem resume_needs_evidence_witness:
  "\<exists>w h' sent. reader_resume_ask (viewer_ask 7) 0 0 5 5 example_broken_host = (AskWait True w 1, h', sent) \<and>
     ch_closed (hc_channel example_broken_host) \<and> ch_closeReason (hc_channel example_broken_host) = PeerLost \<and>
     hc_resumeNegotiated example_broken_host"
proof -
  have same: "hc_resumeNegotiated example_broken_host" "from_current_peer 0 0 example_broken_host"
    "0 < hc_readyEpoch example_broken_host" "\<not> hc_stop example_broken_host" "\<not> ch_shutdown (hc_channel example_broken_host)"
    "dp_servedEpoch example_broken_host = hc_epoch example_broken_host"
    "dp_servedResumeSeq example_broken_host = hc_resumeSeq example_broken_host" "hc_resumeSeq example_broken_host \<noteq> -1"
    "\<not> hc_resumePending example_broken_host" "hc_serving example_broken_host" "hc_readyEpoch example_broken_host = 1"
    "rd_resumeAck example_broken_host = no_resume_ack" "rd_globalBudget example_broken_host = rd_globalBudget example_host"
    by (simp_all add: example_broken_host_def example_resume_defs close_channel_def)
  have closed: "ch_closed (hc_channel example_broken_host)" "ch_closeReason (hc_channel example_broken_host) = PeerLost"
    by (simp_all add: example_broken_host_def example_resume_defs close_channel_def)
  have unseen: "\<not> host_should_replay_resume_ack (rd_resumeAck example_broken_host)
      (resume_replay_inputs (resume_packet kKindControlResume kUdpControlStreamClientToHost 7 0) 0 0 example_broken_host)"
    by (simp add: same host_should_replay_resume_ack_def no_resume_ack_def)
  have budget: "fst (budget_take 5 (rd_globalBudget example_broken_host))" using example_budgets(1) same by simp
  obtain probe h' sent v where "v = host_resume_verdict (resume_eligibility True True 7 probe example_broken_host)"
    and eq: "reader_resume_ask (viewer_ask 7) 0 0 5 5 example_broken_host =
      (AskWait (v = VerdictServe) (fst (raise_wake 7 (v = VerdictServe) h')) (hc_readyEpoch example_broken_host),
       snd (raise_wake 7 (v = VerdictServe) h'), sent)"
    by (rule ask_waits [OF viewer_ask_is_ask [of 7] same(1-3) unseen budget, of 5, unfolded resume_packet_fields]) blast
  then have "v = VerdictServe"
    by (simp add: host_resume_verdict_def resume_eligibility_def same closed no_resume_ack_def)
  with eq have run: "reader_resume_ask (viewer_ask 7) 0 0 5 5 example_broken_host =
      (AskWait True (fst (raise_wake 7 True h')) 1, snd (raise_wake 7 True h'), sent)" using same by simp
  have "\<exists>w e. AskWait True (fst (raise_wake 7 True h')) 1 = AskWait True w e" by blast
  then show ?thesis using run closed resume_needs_evidence [OF run same(10)] by blast
qed

theorem rollover_after_resume_deaf_witness:
  "\<exists>h4. dispatch_turn (begin_epoch (snd (dispatch_turn (example_host\<lparr>hc_resumeId := 7, hc_resumeSeq := 1\<rparr>)))) =
      (ServeNewSession, h4) \<and>
    reader_control_datagram example_datagram True 0 0 9 h4 = (True, h4, [])"
proof -
  let ?h1 = "example_host\<lparr>hc_resumeId := 7, hc_resumeSeq := 1\<rparr>"
  have fields: "hc_stop example_host = False" "hc_epoch example_host = 1" "dp_servedEpoch example_host = 1"
    "dp_servedResumeSeq example_host = 0" "\<not> ch_shutdown (hc_channel example_host)" "from_current_peer 0 0 example_host"
    by (simp_all add: example_resume_defs)
  obtain h2 where h2: "dispatch_turn ?h1 = (ServeResumed, h2)" "hc_epoch h2 = 1" "dp_servedEpoch h2 = 1" "\<not> hc_stop h2"
    "from_current_peer 0 0 h2"
    using fields by (simp add: dispatch_turn_def dispatch_look_def control_dispatch_decide_def Let_def from_current_peer_def)
  let ?h3 = "begin_epoch h2"
  have h3: "dp_servedEpoch ?h3 < hc_epoch ?h3" "\<not> hc_stop ?h3" "ch_txStreamId (hc_channel ?h3) = ch_txStreamId (hc_channel h2)"
    "ch_rxStreamId (hc_channel ?h3) = ch_rxStreamId (hc_channel h2)"
    using h2 by (simp_all add: begin_epoch_def close_channel_def)
  obtain result h4 where h4: "dispatch_turn ?h3 = (result, h4)" by fastforce
  have peer: "from_current_peer 0 0 h4"
    using h2(5) h4 by (auto simp: dispatch_turn_def begin_epoch_def from_current_peer_def Let_def split: if_split_asm)
  have stream: "datagram_stream example_datagram = 1"
    by (simp add: example_datagram_def fragment_bytes_def example_header flip: datagram_stream(1))
      (simp add: decode_encode_control_chunk_header)
  have control: "is_control_datagram example_datagram"
    unfolding example_datagram_def fragment_bytes_def is_control_datagram_def control_chunk_prefix
    by (simp add: control_chunk_prefix(1) example_header default_control_chunk_header_def)
  have sh: "\<not> ch_shutdown (hc_channel ?h1)" using fields by simp
  show ?thesis
    using rollover_after_resume_deaf [OF h2(1) sh h3(3,4,1,2) h4 control _ peer, of 9] h4 stream h2(1)
    by (simp add: kUdpControlStreamClientToHost_def)
qed

theorem directory_auth_not_inherited_witness:
  "\<not> directory_authenticated_for 1 (admit_hello True True example_host) \<and>
    directory_authenticated_for 2 (admit_hello True True example_host)"
proof -
  have "hc_epoch example_host = 1" by (simp add: example_resume_defs)
  moreover have "admit_hello True True example_host \<in> set (admit_hello_steps True True example_host)"
    by (simp add: admit_hello_def admit_hello_steps_def Let_def)
  ultimately show ?thesis using directory_auth_not_inherited [of 1 example_host True] by auto
qed

end
