(* ===== verification/ClipImageCore.thy ===== *)
theory ClipImageCore
  imports ControlResume
begin

text \<open>
  \<open>clip_image_core.hpp\<close>: the limits of an image transfer, the check of a device-independent bitmap
  that another program put on the clipboard, the stream ids of the bulk channel and the allocator of
  their generations. Null pointers are left out.
\<close>

section \<open>Limits\<close>

definition kClipboardTextMaxUtf16 :: u32 where "kClipboardTextMaxUtf16 = 512 * 1024"
definition kClipImageMaxSide :: u32 where "kClipImageMaxSide = 8192"
definition kClipImageMaxDecodedBytes :: u64 where "kClipImageMaxDecodedBytes = 64 * 1024 * 1024"
definition kClipImageMaxPngBytes :: u64 where "kClipImageMaxPngBytes = 16 * 1024 * 1024"
definition kClipImageMaxTextBytes :: u64 where "kClipImageMaxTextBytes = 2 * ucast kClipboardTextMaxUtf16"
definition kClipImagePeakBudgetBytes :: u64 where "kClipImagePeakBudgetBytes = 100 * 1024 * 1024"
definition kClipImageSlackBytes :: u64 where "kClipImageSlackBytes = 1024 * 1024"

datatype gate_reason = GateOk | ZeroSize | SideTooLarge | DecodedTooLarge | PngTooLarge | TextTooLarge | PeakTooLarge

record clip_image_gate =
  cg_reason :: gate_reason
  cg_decodedBytes :: u64
  cg_receiverPeakBytes :: u64
  cg_senderPeakBytes :: u64

definition no_gate :: clip_image_gate where
  "no_gate = \<lparr>cg_reason = GateOk, cg_decodedBytes = 0, cg_receiverPeakBytes = 0, cg_senderPeakBytes = 0\<rparr>"

definition clip_image_gate :: "u32 \<Rightarrow> u32 \<Rightarrow> u64 \<Rightarrow> u64 \<Rightarrow> clip_image_gate" where
  "clip_image_gate w h pngBytes textBytes =
    (if w = 0 \<or> h = 0 then no_gate\<lparr>cg_reason := ZeroSize\<rparr>
     else if kClipImageMaxSide < w \<or> kClipImageMaxSide < h then no_gate\<lparr>cg_reason := SideTooLarge\<rparr>
     else let decoded = ucast w * ucast h * 4;
            receiver = 2 * pngBytes + textBytes + decoded + kClipImageSlackBytes;
            sender = decoded + pngBytes + kClipImageSlackBytes in
       \<lparr>cg_reason = (if kClipImageMaxDecodedBytes < decoded then DecodedTooLarge
           else if kClipImageMaxPngBytes < pngBytes then PngTooLarge
           else if kClipImageMaxTextBytes < textBytes then TextTooLarge
           else if kClipImagePeakBudgetBytes < receiver \<or> kClipImagePeakBudgetBytes < sender then PeakTooLarge
           else GateOk),
         cg_decodedBytes = decoded, cg_receiverPeakBytes = receiver, cg_senderPeakBytes = sender\<rparr>)"

section \<open>A bitmap from the clipboard\<close>

datatype dib_reason = DibOk | Truncated | BadHeaderSize | BadDimensions | BadPlanes | BadBitCount
  | BadCompression | BadPalette | UnsupportedColorSpace

definition kDibBiRgb :: u32 where "kDibBiRgb = 0"
definition kDibBiBitfields :: u32 where "kDibBiBitfields = 3"
definition kLcsSrgb :: u32 where "kLcsSrgb = 0x73524742"
definition kLcsWindowsColorSpace :: u32 where "kLcsWindowsColorSpace = 0x57696E20"

record dib_info =
  db_reason :: dib_reason
  db_headerSize :: u32
  db_width :: u32
  db_height :: u32
  db_topDown :: bool
  db_bitCount :: u16
  db_compression :: u32
  db_paletteEntries :: u32
  db_masks :: "u32 list"
  db_stride :: u64
  db_pixelOffset :: u64
  db_pixelBytes :: u64

definition blank_dib :: dib_info where
  "blank_dib = \<lparr>db_reason = DibOk, db_headerSize = 0, db_width = 0, db_height = 0, db_topDown = False,
     db_bitCount = 0, db_compression = 0, db_paletteEntries = 0, db_masks = [0, 0, 0, 0], db_stride = 0,
     db_pixelOffset = 0, db_pixelBytes = 0\<rparr>"

definition dib_u32 :: "bytes \<Rightarrow> nat \<Rightarrow> u32" where "dib_u32 data p = of_nat (le_value (slice data p 4))"
definition dib_u16 :: "bytes \<Rightarrow> nat \<Rightarrow> u16" where "dib_u16 data p = of_nat (le_value (slice data p 2))"

text \<open>The colour masks after a header of 40 bytes, or inside a longer one.\<close>

definition dib_masks :: "bytes \<Rightarrow> u32 \<Rightarrow> bool \<Rightarrow> u32 list" where
  "dib_masks data headerSize bitfields =
    (if bitfields then [dib_u32 data 40, dib_u32 data 44, dib_u32 data 48] else [0, 0, 0]) @
    [if 56 \<le> headerSize then dib_u32 data 52 else 0]"

text \<open>From the masks on: the palette, the rows, and whether they lie inside the data.\<close>

definition dib_layout :: "bytes \<Rightarrow> u64 \<Rightarrow> dib_info \<Rightarrow> dib_info" where
  "dib_layout data offset d =
    (let clrUsed = dib_u32 data 32;
         maxColors = push_bit (unat (db_bitCount d)) 1 :: u32;
         palette = (if db_bitCount d \<le> 8 then (if clrUsed = 0 then maxColors else clrUsed) else clrUsed);
         d = d\<lparr>db_paletteEntries := palette\<rparr> in
     if db_bitCount d \<le> 8 \<and> maxColors < palette then d\<lparr>db_reason := BadPalette\<rparr>
     else if \<not> db_bitCount d \<le> 8 \<and> 256 < palette then d\<lparr>db_reason := BadPalette\<rparr>
     else let offset = offset + ucast palette * 4;
            stride = ((ucast (db_width d) * ucast (db_bitCount d) + 31) div 32) * 4;
            d = d\<lparr>db_stride := stride, db_pixelBytes := stride * ucast (db_height d), db_pixelOffset := offset\<rparr>;
            avail = of_nat (length data) in
       if avail < offset \<or> avail - offset < db_pixelBytes d then d\<lparr>db_reason := Truncated\<rparr> else d)"

definition validate_dib :: "bytes \<Rightarrow> dib_info" where
  "validate_dib data =
    (let d = blank_dib; avail = of_nat (length data) :: u64 in
     if avail < 4 then d\<lparr>db_reason := Truncated\<rparr>
     else let header = dib_u32 data 0; d = d\<lparr>db_headerSize := header\<rparr> in
     if header \<noteq> 40 \<and> header \<noteq> 52 \<and> header \<noteq> 56 \<and> header \<noteq> 108 \<and> header \<noteq> 124 then d\<lparr>db_reason := BadHeaderSize\<rparr>
     else if avail < ucast header then d\<lparr>db_reason := Truncated\<rparr>
     else let w = dib_u32 data 4; h = dib_u32 data 8 in
     if sint w \<le> 0 \<or> h = 0 \<or> sint h = - (2 ^ 31) then d\<lparr>db_reason := BadDimensions\<rparr>
     else let d = d\<lparr>db_width := w, db_height := (if sint h < 0 then - h else h), db_topDown := sint h < 0\<rparr> in
     if kClipImageMaxSide < db_width d \<or> kClipImageMaxSide < db_height d then d\<lparr>db_reason := BadDimensions\<rparr>
     else if dib_u16 data 12 \<noteq> 1 then d\<lparr>db_reason := BadPlanes\<rparr>
     else let bits = dib_u16 data 14; d = d\<lparr>db_bitCount := bits\<rparr> in
     if bits \<noteq> 1 \<and> bits \<noteq> 4 \<and> bits \<noteq> 8 \<and> bits \<noteq> 16 \<and> bits \<noteq> 24 \<and> bits \<noteq> 32 then d\<lparr>db_reason := BadBitCount\<rparr>
     else let compression = dib_u32 data 16; d = d\<lparr>db_compression := compression\<rparr>;
            bitfields = (compression = kDibBiBitfields) in
     if \<not> (compression = kDibBiRgb \<or> (bitfields \<and> (bits = 16 \<or> bits = 32))) then d\<lparr>db_reason := BadCompression\<rparr>
     else if bitfields \<and> header = 40 \<and> avail < ucast header + 12 then d\<lparr>db_reason := Truncated\<rparr>
     else let offset = ucast header + (if bitfields \<and> header = 40 then 12 else 0);
            d = d\<lparr>db_masks := dib_masks data header bitfields\<rparr> in
     if 108 \<le> header \<and> dib_u32 data 56 \<noteq> kLcsSrgb \<and> dib_u32 data 56 \<noteq> kLcsWindowsColorSpace
     then d\<lparr>db_reason := UnsupportedColorSpace\<rparr>
     else dib_layout data offset d)"

section \<open>The bulk channel's streams\<close>

definition kBulkStreamTag :: u32 where "kBulkStreamTag = 0x40000000"
definition kBulkStreamTagMask :: u32 where "kBulkStreamTagMask = 0xC0000000"
definition kBulkStreamClientToHost :: u32 where "kBulkStreamClientToHost = 1"
definition kBulkStreamHostToClient :: u32 where "kBulkStreamHostToClient = 2"
definition kFileBulkStreamClientToHost :: u32 where "kFileBulkStreamClientToHost = 3"
definition kFileBulkStreamHostToClient :: u32 where "kFileBulkStreamHostToClient = 0"
definition kBulkGenMask :: u32 where "kBulkGenMask = push_bit 28 1 - 1"

definition bulk_stream_id :: "u32 \<Rightarrow> u32 \<Rightarrow> u32" where
  "bulk_stream_id bulkGen base = kBulkStreamTag OR push_bit 2 (bulkGen AND kBulkGenMask) OR (base AND 3)"

definition bulk_stream_id_is_bulk :: "u32 \<Rightarrow> bool" where
  "bulk_stream_id_is_bulk streamId \<longleftrightarrow> streamId AND kBulkStreamTagMask = kBulkStreamTag"

definition bulk_stream_claims :: "bytes \<Rightarrow> bool" where
  "bulk_stream_claims data \<longleftrightarrow> 12 \<le> length data \<and> of_nat (le_value (take 4 data)) = kMagic \<and>
     (of_nat (le_value (slice data 4 2)) :: u16) \<in>
       {udp_packet_kind_code UControlData, udp_packet_kind_code UControlAck, udp_packet_kind_code UControlNack} \<and>
     bulk_stream_id_is_bulk (of_nat (le_value (slice data 8 4)))"

definition bulk_stream_is_file :: "u32 \<Rightarrow> bool" where
  "bulk_stream_is_file streamId \<longleftrightarrow> bulk_stream_id_is_bulk streamId \<and>
     streamId AND 3 \<in> {kFileBulkStreamClientToHost, kFileBulkStreamHostToClient}"

definition bulk_datagram_is_file :: "bytes \<Rightarrow> bool" where
  "bulk_datagram_is_file data \<longleftrightarrow> bulk_stream_claims data \<and> bulk_stream_is_file (of_nat (le_value (slice data 8 4)))"

section \<open>The allocator of generations\<close>

record bulk_gen_allocator =
  ba_next :: u32
  ba_recent :: "u32 list"

definition bulk_gen_init :: bulk_gen_allocator where "bulk_gen_init = \<lparr>ba_next = 0, ba_recent = []\<rparr>"

definition kRecentGens :: nat where "kRecentGens = 64"

text \<open>The counter where the search of \<open>Next\<close> stops; \<open>None\<close> if it does not.\<close>

partial_function (option) bulk_gen_search :: "u32 \<Rightarrow> u32 list \<Rightarrow> u32 option" where
  "bulk_gen_search counter recent =
    (let counter = counter + 1; low = counter AND kBulkGenMask in
     if low = 0 then bulk_gen_search counter recent
     else if low \<in> set recent then bulk_gen_search counter recent
     else Some counter)"

definition bulk_gen_next :: "bulk_gen_allocator \<Rightarrow> (u32 \<times> bulk_gen_allocator) option" where
  "bulk_gen_next a = map_option (\<lambda>g.
      let recent = ba_recent a @ [g AND kBulkGenMask] in
      (g, \<lparr>ba_next = g, ba_recent = (if kRecentGens + 1 < length recent then tl recent else recent)\<rparr>))
    (bulk_gen_search (ba_next a) (ba_recent a))"

section \<open>What the gate lets through\<close>

lemma u64_mult_small:
  assumes "unat a \<le> A" "unat b \<le> B" "A * B < 18446744073709551616"
  shows "unat (a * b :: u64) = unat a * unat b"
proof -
  have "unat a * unat b \<le> A * B" using assms(1,2) by (rule mult_le_mono)
  then show ?thesis using assms(3) by (simp add: unat_word_ariths)
qed

lemma u64_plus_small: "unat a + unat b < 18446744073709551616 \<Longrightarrow> unat (a + b :: u64) = unat a + unat b"
  by (simp add: unat_word_ariths)

text \<open>
  An image that passes the gate fits the budget in exact arithmetic: its sides, its decoded size,
  the compressed and the text bytes are within their limits, and so is what the receiver holds at
  its peak (twice the compressed bytes, the text and the decoded image); no 64-bit sum has wrapped.
\<close>

theorem gated_image_fits:
  assumes "cg_reason (clip_image_gate w h pngBytes textBytes) = GateOk"
  shows "0 < unat w \<and> unat w \<le> 8192 \<and> 0 < unat h \<and> unat h \<le> 8192 \<and> unat w * unat h * 4 \<le> 64 * 1024 * 1024 \<and>
    unat pngBytes \<le> 16 * 1024 * 1024 \<and> unat textBytes \<le> 1024 * 1024 \<and>
    2 * unat pngBytes + unat textBytes + unat w * unat h * 4 + 1024 * 1024 \<le> 100 * 1024 * 1024 \<and>
    unat (cg_decodedBytes (clip_image_gate w h pngBytes textBytes)) = unat w * unat h * 4"
proof -
  let ?d = "ucast w * ucast h * 4 :: u64"
  have dims: "w \<noteq> 0" "h \<noteq> 0" "w \<le> 8192" "h \<le> 8192"
    using assms by (auto simp: clip_image_gate_def no_gate_def Let_def kClipImageMaxSide_def split: if_split_asm)
  have gate: "clip_image_gate w h pngBytes textBytes = \<lparr>cg_reason = GateOk, cg_decodedBytes = ?d,
      cg_receiverPeakBytes = 2 * pngBytes + textBytes + ?d + kClipImageSlackBytes,
      cg_senderPeakBytes = ?d + pngBytes + kClipImageSlackBytes\<rparr>"
    and lims: "?d \<le> kClipImageMaxDecodedBytes" "pngBytes \<le> kClipImageMaxPngBytes" "textBytes \<le> kClipImageMaxTextBytes"
      "2 * pngBytes + textBytes + ?d + kClipImageSlackBytes \<le> kClipImagePeakBudgetBytes"
    using assms dims by (auto simp: clip_image_gate_def no_gate_def Let_def kClipImageMaxSide_def split: if_split_asm)
  have wh: "unat w \<le> 8192" "unat h \<le> 8192" using dims(3,4) by (simp_all add: word_le_nat_alt)
  have p: "unat (ucast w * ucast h :: u64) = unat w * unat h"
    using u64_mult_small [of "ucast w" 8192 "ucast h" 8192] wh by (simp add: unat_u32_u64)
  have d: "unat ?d = unat w * unat h * 4"
    using u64_mult_small [of "ucast w * ucast h" "8192 * 8192" 4 4] mult_le_mono [OF wh] p by simp
  have small: "unat ?d \<le> 67108864" "unat pngBytes \<le> 16777216" "unat textBytes \<le> 1048576"
    using lims(1-3)
    by (simp_all add: word_le_nat_alt kClipImageMaxDecodedBytes_def kClipImageMaxPngBytes_def kClipImageMaxTextBytes_def
        kClipboardTextMaxUtf16_def)
  have twice: "unat (2 * pngBytes) = 2 * unat pngBytes" using u64_mult_small [of 2 2 pngBytes 16777216] small(2) by simp
  have s1: "unat (2 * pngBytes + textBytes) = 2 * unat pngBytes + unat textBytes"
    using u64_plus_small [of "2 * pngBytes" textBytes] twice small by simp
  have s2: "unat (2 * pngBytes + textBytes + ?d) = 2 * unat pngBytes + unat textBytes + unat ?d"
    using u64_plus_small [of "2 * pngBytes + textBytes" ?d] s1 small by simp
  have s3: "unat (2 * pngBytes + textBytes + ?d + kClipImageSlackBytes) = 2 * unat pngBytes + unat textBytes + unat ?d + 1048576"
    using u64_plus_small [of "2 * pngBytes + textBytes + ?d" kClipImageSlackBytes] s2 small
    by (simp add: kClipImageSlackBytes_def)
  have "unat (2 * pngBytes + textBytes + ?d + kClipImageSlackBytes) \<le> 104857600"
    using lims(4) by (simp add: word_le_nat_alt kClipImagePeakBudgetBytes_def)
  then have peak: "2 * unat pngBytes + unat textBytes + unat w * unat h * 4 + 1024 * 1024 \<le> 100 * 1024 * 1024"
    unfolding s3 d by simp
  have decoded: "unat w * unat h * 4 \<le> 64 * 1024 * 1024" using small(1) unfolding d by simp
  have pos: "0 < unat w" "0 < unat h" using dims(1,2) by (simp_all add: unat_gt_0)
  have "unat (cg_decodedBytes (clip_image_gate w h pngBytes textBytes)) = unat w * unat h * 4"
    unfolding gate using d by simp
  moreover have "unat pngBytes \<le> 16 * 1024 * 1024" "unat textBytes \<le> 1024 * 1024" using small by simp_all
  ultimately show ?thesis using wh pos decoded peak by blast
qed

theorem gated_image_fits_witness:
  "cg_reason (clip_image_gate 1920 1080 2000000 0) = GateOk \<and> unat (1920 :: u32) * unat (1080 :: u32) * 4 \<le> 64 * 1024 * 1024"
proof -
  have "cg_reason (clip_image_gate 1920 1080 2000000 0) = GateOk"
    by (simp add: clip_image_gate_def kClipImageMaxSide_def kClipImageMaxDecodedBytes_def kClipImageMaxPngBytes_def
        kClipImageMaxTextBytes_def kClipboardTextMaxUtf16_def kClipImagePeakBudgetBytes_def kClipImageSlackBytes_def)
  with gated_image_fits [OF this] show ?thesis by simp
qed

section \<open>What the bitmap check lets through\<close>

lemma ok_branch:
  "db_reason e \<noteq> DibOk \<Longrightarrow> (db_reason (if c then e else x) = DibOk) = (\<not> c \<and> db_reason x = DibOk)"
  "db_reason (d\<lparr>db_reason := r\<rparr>) = r"
  by simp_all

lemmas ok_branches = ok_branch dib_reason.distinct not_False_eq_True

lemma ok_chain:
  "db_reason (if c then e else x) = DibOk \<Longrightarrow> db_reason e \<noteq> DibOk \<Longrightarrow> (db_reason x = DibOk \<Longrightarrow> x = y) \<Longrightarrow>
   (if c then e else x) = y"
  by auto

lemma valid_dib_layout:
  assumes "db_reason (validate_dib data) = DibOk"
  obtains d offset where "validate_dib data = dib_layout data offset d" "db_reason d = DibOk"
    "db_headerSize d \<in> {40, 52, 56, 108, 124}" "unat offset \<in> {unat (db_headerSize d), unat (db_headerSize d) + 12}"
    "0 < unat (db_width d)" "unat (db_width d) \<le> 8192" "0 < unat (db_height d)" "unat (db_height d) \<le> 8192"
    "db_bitCount d \<in> {1, 4, 8, 16, 24, 32}"
proof -
  define header where "header = dib_u32 data 0"
  define w where "w = dib_u32 data 4"
  define h where "h = dib_u32 data 8"
  define bits where "bits = dib_u16 data 14"
  define compression where "compression = dib_u32 data 16"
  define offset where "offset = ucast header + (if compression = kDibBiBitfields \<and> header = 40 then 12 else 0 :: u64)"
  define d where "d = blank_dib\<lparr>db_headerSize := header, db_width := w, db_height := (if sint h < 0 then - h else h),
    db_topDown := sint h < 0, db_bitCount := bits, db_compression := compression,
    db_masks := dib_masks data header (compression = kDibBiBitfields)\<rparr>"
  note folds = header_def w_def h_def bits_def compression_def
  note ok = assms [unfolded validate_dib_def Let_def, folded folds, simplified ok_branches]
  have eq: "validate_dib data = dib_layout data offset d"
    using assms unfolding validate_dib_def Let_def folds [symmetric] d_def offset_def
    by - ((erule ok_chain, simp only: ok_branches)+, rule refl)
  have facts: "header = 40 \<or> header = 52 \<or> header = 56 \<or> header = 108 \<or> header = 124" "0 < sint w" "h \<noteq> 0"
    "\<not> kClipImageMaxSide < w" "\<not> kClipImageMaxSide < (if sint h < 0 then - h else h)"
    "bits = 1 \<or> bits = 4 \<or> bits = 8 \<or> bits = 16 \<or> bits = 24 \<or> bits = 32"
    using ok by (blast, simp, blast, simp, simp, blast)
  have "0 < unat w" using facts(2) by (auto simp: unat_gt_0)
  moreover have "0 < unat (if sint h < 0 then - h else h)" using facts(3) by (simp add: unat_gt_0)
  moreover have "unat offset \<in> {unat header, unat header + 12}"
    using facts(1) by (auto simp: offset_def)
  ultimately show thesis
    using that [of offset d] eq facts
    by (auto simp: d_def blank_dib_def kClipImageMaxSide_def word_less_nat_alt not_less)
qed

text \<open>
  C20. The check of a bitmap that another program put on the clipboard. Whatever its header says, if the
  check accepts it then palette and rows lie inside the memory that was handed over, computed without
  wrapping: the palette ends where the pixels begin, every row holds its pixels and is a multiple of
  four bytes, and the last row ends within the data.
\<close>

theorem valid_dib_in_memory:
  assumes "db_reason (validate_dib data) = DibOk" and "length data < 2 ^ 64"
  shows "(let d = validate_dib data in
    0 < unat (db_width d) \<and> unat (db_width d) \<le> 8192 \<and> 0 < unat (db_height d) \<and> unat (db_height d) \<le> 8192 \<and>
    unat (db_pixelOffset d) \<in> {unat (db_headerSize d) + 4 * unat (db_paletteEntries d),
      unat (db_headerSize d) + 12 + 4 * unat (db_paletteEntries d)} \<and>
    unat (db_paletteEntries d) \<le> 256 \<and>
    unat (db_width d) * unat (db_bitCount d) \<le> 8 * unat (db_stride d) \<and> 4 dvd unat (db_stride d) \<and>
    unat (db_pixelOffset d) + unat (db_height d) * unat (db_stride d) \<le> length data)"
proof -
  obtain d offset where eq: "validate_dib data = dib_layout data offset d" and ok: "db_reason d = DibOk"
    and header: "db_headerSize d \<in> {40, 52, 56, 108, 124}"
    and offset: "unat offset \<in> {unat (db_headerSize d), unat (db_headerSize d) + 12}"
    and dims: "0 < unat (db_width d)" "unat (db_width d) \<le> 8192" "0 < unat (db_height d)" "unat (db_height d) \<le> 8192"
    and bits: "db_bitCount d \<in> {1, 4, 8, 16, 24, 32}"
    by (rule valid_dib_layout [OF assms(1)])
  define palette where "palette = (if db_bitCount d \<le> 8 then (if dib_u32 data 32 = 0 then push_bit (unat (db_bitCount d)) 1
    else dib_u32 data 32) else dib_u32 data 32)"
  define start where "start = offset + ucast palette * 4"
  define stride where "stride = ((ucast (db_width d) * ucast (db_bitCount d) + 31) div 32) * (4 :: u64)"
  let ?r = "d\<lparr>db_paletteEntries := palette, db_stride := stride, db_pixelBytes := stride * ucast (db_height d), db_pixelOffset := start\<rparr>"
  note lay = assms(1) [unfolded eq dib_layout_def Let_def, folded palette_def, folded start_def stride_def]
  have run: "dib_layout data offset d = ?r"
    using lay unfolding dib_layout_def Let_def palette_def [symmetric] start_def [symmetric]
    by - ((erule ok_chain, simp only: ok_branches)+, simp add: stride_def)
  have conds: "\<not> (db_bitCount d \<le> 8 \<and> push_bit (unat (db_bitCount d)) 1 < palette)"
    "\<not> (\<not> db_bitCount d \<le> 8 \<and> 256 < palette)" "\<not> of_nat (length data) < start"
    "\<not> of_nat (length data) - start < stride * ucast (db_height d)"
    using lay [simplified ok_branches] by (simp_all add: stride_def)
  have small: "palette \<le> 256"
  proof (cases "db_bitCount d \<le> 8")
    case True
    then have "db_bitCount d \<in> {1, 4, 8}" using bits by auto
    then have "push_bit (unat (db_bitCount d)) 1 \<le> (256 :: u32)" by auto
    moreover have "\<not> push_bit (unat (db_bitCount d)) 1 < palette" using conds True by blast
    ultimately show ?thesis by simp
  next
    case False
    then have "\<not> 256 < palette" using conds by blast
    then show ?thesis by simp
  qed
  have room: "\<not> of_nat (length data) < start" "\<not> of_nat (length data) - start < stride * ucast (db_height d)"
    using conds(3,4) by simp_all
  have b: "unat (db_bitCount d) \<le> 32" using bits by auto
  have ub: "unat (ucast (db_bitCount d) :: u64) = unat (db_bitCount d)"
    using bits by auto
  have pal: "unat palette \<le> 256" using small by (simp add: word_le_nat_alt)
  have p4: "unat (ucast palette * 4 :: u64) = unat palette * 4"
    using u64_mult_small [of "ucast palette" 256 4 4] pal by (simp add: unat_u32_u64)
  have off: "unat offset \<le> 136" using header offset by auto
  have start: "unat start = unat offset + 4 * unat palette"
    using u64_plus_small [of offset "ucast palette * 4"] p4 pal off by (simp add: start_def)
  have wb: "unat (ucast (db_width d) * ucast (db_bitCount d) :: u64) = unat (db_width d) * unat (db_bitCount d)"
    using u64_mult_small [of "ucast (db_width d)" 8192 "ucast (db_bitCount d)" 32] dims(2) b by (simp add: unat_u32_u64 ub)
  have wbs: "unat (db_width d) * unat (db_bitCount d) \<le> 262144" using mult_le_mono [OF dims(2) b] by simp
  have row: "unat (ucast (db_width d) * ucast (db_bitCount d) + 31 :: u64) = unat (db_width d) * unat (db_bitCount d) + 31"
    using u64_plus_small [of "ucast (db_width d) * ucast (db_bitCount d)" 31] wb wbs by simp
  define q where "q = (unat (db_width d) * unat (db_bitCount d) + 31) div 32"
  have q: "unat ((ucast (db_width d) * ucast (db_bitCount d) + 31) div 32 :: u64) = q"
    by (simp add: unat_div row q_def)
  have qs: "q \<le> 8192" using wbs by (simp add: q_def)
  have stride: "unat stride = q * 4"
    unfolding stride_def using u64_mult_small [of "(ucast (db_width d) * ucast (db_bitCount d) + 31) div 32" 8192 4 4] q qs by simp
  have pixels: "unat (stride * ucast (db_height d)) = unat stride * unat (db_height d)"
    using u64_mult_small [of stride 32768 "ucast (db_height d)" 8192] stride qs dims(4) by (simp add: unat_u32_u64)
  have len: "unat (of_nat (length data) :: u64) = length data" using assms(2) by (simp add: unat_of_nat)
  have le: "start \<le> of_nat (length data)" using room(1) by simp
  have fit: "unat start \<le> length data" using le len by (simp add: word_le_nat_alt)
  have "unat stride * unat (db_height d) \<le> length data - unat start"
    using room(2) le by (simp add: word_less_nat_alt not_less unat_sub pixels len)
  then have "unat start + unat (db_height d) * unat stride \<le> length data" using fit by (simp add: mult.commute)
  moreover have "unat (db_width d) * unat (db_bitCount d) \<le> 8 * unat stride"
    unfolding stride q_def by simp
  ultimately show ?thesis
    using dims offset start pal stride unfolding eq run Let_def by auto
qed

text \<open>A single pixel of 24 bits, with its header.\<close>

definition example_dib :: bytes where
  "example_dib = [40, 0, 0, 0, 1, 0, 0, 0, 1, 0, 0, 0, 1, 0, 24, 0] @ replicate 24 0 @ [9, 9, 9, 0]"

theorem valid_dib_in_memory_witness:
  "db_reason (validate_dib example_dib) = DibOk \<and>
   unat (db_pixelOffset (validate_dib example_dib)) + unat (db_height (validate_dib example_dib)) *
     unat (db_stride (validate_dib example_dib)) \<le> 44"
proof -
  have ok: "db_reason (validate_dib example_dib) = DibOk" by code_simp
  have "length example_dib = 44" by (simp add: example_dib_def)
  with valid_dib_in_memory [OF ok] show ?thesis using ok by (simp add: Let_def)
qed

section \<open>Streams that never meet\<close>

lemma bulk_bits:
  "bit (bulk_stream_id g base) n \<longleftrightarrow> n = 30 \<or> (2 \<le> n \<and> n < 30 \<and> bit g (n - 2)) \<or> (n < 2 \<and> bit base n)"
proof -
  have tag: "(0x40000000 :: u32) = push_bit 30 1" and low: "(3 :: u32) = mask 2"
    and gen: "kBulkGenMask = mask 28"
    by (simp_all add: push_bit_eq_mult mask_eq_exp_minus_1 kBulkGenMask_def)
  have top: "bit (0x40000000 :: u32) n \<longleftrightarrow> n = 30" unfolding tag by (simp only: bit_push_bit_iff bit_1_iff) auto
  have r: "bit g k \<Longrightarrow> k < 32" "bit base k \<Longrightarrow> k < 32" for k
    using bit_imp_le_length [of g k] bit_imp_le_length [of base k] by simp_all
  show ?thesis unfolding bulk_stream_id_def kBulkStreamTag_def bit_or_iff top low gen
    by (auto simp: bit_simps dest: r)
qed

lemma bulk_stream_id_inj:
  assumes "bulk_stream_id g base = bulk_stream_id g' base'"
  shows "g AND kBulkGenMask = g' AND kBulkGenMask" "base AND 3 = base' AND 3"
proof -
  have low: "(3 :: u32) = mask 2" and gen: "kBulkGenMask = mask 28"
    by (simp_all add: mask_eq_exp_minus_1 kBulkGenMask_def push_bit_eq_mult)
  have bits: "bit (bulk_stream_id g base) n = bit (bulk_stream_id g' base') n" for n using assms by simp
  have g: "bit g n = bit g' n" if "n < 28" for n using bits [of "n + 2"] that by (simp add: bulk_bits)
  have b: "bit base n = bit base' n" if "n < 2" for n using bits [of n] that by (simp add: bulk_bits)
  show "g AND kBulkGenMask = g' AND kBulkGenMask" unfolding gen
    by (rule bit_word_eqI) (use g in \<open>auto simp: bit_simps\<close>)
  show "base AND 3 = base' AND 3" unfolding low
    by (rule bit_word_eqI) (use b in \<open>auto simp: bit_simps\<close>)
qed

lemma bulk_stream_id_bulk: "bulk_stream_id_is_bulk (bulk_stream_id g base)"
proof -
  have m: "kBulkStreamTagMask = push_bit 30 (mask 2)" "kBulkStreamTag = push_bit 30 (1 :: u32)"
    by (simp_all add: kBulkStreamTagMask_def kBulkStreamTag_def push_bit_eq_mult mask_eq_exp_minus_1)
  show ?thesis unfolding bulk_stream_id_is_bulk_def m
  proof (rule bit_word_eqI)
    fix n
    show "bit (bulk_stream_id g base AND push_bit 30 (mask 2)) n = bit (push_bit 30 (1 :: u32)) n"
      unfolding bit_and_iff bit_push_bit_iff bulk_bits by (auto simp: bit_simps)
  qed
qed

lemma bulk_not_resume: "bulk_stream_id g base \<noteq> control_resume_stream_id b r"
proof
  assume eq: "bulk_stream_id g base = control_resume_stream_id b r"
  have "\<not> bit (bulk_stream_id g base) 31" "bit (control_resume_stream_id b r) 31"
    by (simp_all add: bulk_bits resume_bits)
  then show False by (simp add: eq)
qed

lemma bulk_stream_file: "bulk_stream_is_file (bulk_stream_id g base) \<longleftrightarrow> base AND 3 = 0 \<or> base AND 3 = 3"
proof -
  have low: "(3 :: u32) = mask 2" by (simp add: mask_eq_exp_minus_1)
  have "bulk_stream_id g base AND 3 = base AND 3" unfolding low
    by (rule bit_word_eqI) (auto simp: bit_simps bulk_bits)
  then show ?thesis using bulk_stream_id_bulk
    by (auto simp: bulk_stream_is_file_def kFileBulkStreamClientToHost_def kFileBulkStreamHostToClient_def)
qed

section \<open>Fresh generations\<close>

lemma bulk_gen_search_step:
  "bulk_gen_search counter recent = (if (counter + 1) AND kBulkGenMask = 0 \<or> (counter + 1) AND kBulkGenMask \<in> set recent
    then bulk_gen_search (counter + 1) recent else Some (counter + 1))"
  by (subst bulk_gen_search.simps) (simp add: Let_def)

lemma bulk_gen_search_finds:
  "\<forall>j. 1 \<le> j \<and> j < k \<longrightarrow> (counter + of_nat j) AND kBulkGenMask \<in> insert 0 (set recent) \<Longrightarrow> 1 \<le> k \<Longrightarrow>
   (counter + of_nat k) AND kBulkGenMask \<notin> insert 0 (set recent) \<Longrightarrow>
   bulk_gen_search counter recent = Some (counter + of_nat k)"
proof (induction k arbitrary: counter)
  case (Suc k)
  show ?case
  proof (cases "k = 0")
    case True
    then show ?thesis using Suc.prems(3) by (subst bulk_gen_search_step) simp
  next
    case False
    have first: "(counter + 1) AND kBulkGenMask \<in> insert 0 (set recent)"
      using Suc.prems(1) [rule_format, of 1] False by simp
    have "bulk_gen_search (counter + 1) recent = Some (counter + 1 + of_nat k)"
    proof (rule Suc.IH)
      show "\<forall>j. 1 \<le> j \<and> j < k \<longrightarrow> (counter + 1 + of_nat j) AND kBulkGenMask \<in> insert 0 (set recent)"
        using Suc.prems(1) by (metis Suc_less_eq add.assoc le_SucI of_nat_Suc)
    qed (use False Suc.prems(3) in \<open>simp_all add: add.assoc\<close>)
    then show ?thesis using first by (subst bulk_gen_search_step) (simp add: add.assoc)
  qed
qed simp

lemma low_gens_distinct:
  assumes "(c + of_nat i) AND kBulkGenMask = (c + of_nat j) AND kBulkGenMask" "i < 2 ^ 28" "j < 2 ^ 28"
  shows "i = j"
proof -
  have gen: "x AND kBulkGenMask = take_bit 28 x" for x
    by (simp add: take_bit_eq_mask kBulkGenMask_def push_bit_eq_mult mask_eq_exp_minus_1)
  have low: "unat (take_bit 28 (c + of_nat n)) = (unat c + n) mod 2 ^ 28" for n
  proof -
    have "unat (c + of_nat n) = (unat c + n) mod 2 ^ 32"
      by (simp add: unat_word_ariths(1) unat_of_nat mod_simps)
    moreover have "unat (take_bit 28 (c + of_nat n)) = take_bit 28 (unat (c + of_nat n))" by (rule unsigned_take_bit_eq)
    ultimately have "unat (take_bit 28 (c + of_nat n)) = (unat c + n) mod 2 ^ 32 mod 2 ^ 28"
      using take_bit_eq_mod [of 28 "unat (c + of_nat n)"] by simp
    also have "\<dots> = (unat c + n) mod 2 ^ 28" by (rule mod_mod_cancel) (simp add: le_imp_power_dvd)
    finally show ?thesis .
  qed
  have eq: "(unat c + i) mod 2 ^ 28 = (unat c + j) mod 2 ^ 28"
    using assms(1) unfolding gen by (simp only: low [symmetric])
  have "(2 :: nat) ^ 28 dvd i - j"
  proof (cases "j \<le> i")
    case True
    then have "(2 :: nat) ^ 28 dvd (unat c + i) - (unat c + j)" using eq by (subst mod_eq_dvd_iff_nat [symmetric]) simp_all
    then show ?thesis by simp
  qed simp
  moreover have "(2 :: nat) ^ 28 dvd j - i"
  proof (cases "i \<le> j")
    case True
    then have "(2 :: nat) ^ 28 dvd (unat c + j) - (unat c + i)" using eq by (subst mod_eq_dvd_iff_nat [symmetric]) simp_all
    then show ?thesis by simp
  qed simp
  ultimately have "i - j = 0" "j - i = 0"
    using assms(2,3) nat_dvd_not_less [of "i - j" "2 ^ 28"] nat_dvd_not_less [of "j - i" "2 ^ 28"] by linarith+
  then show ?thesis by simp
qed

lemma bulk_gen_search_returns:
  assumes "length recent \<le> 65"
  obtains g where "bulk_gen_search counter recent = Some g" "g AND kBulkGenMask \<notin> insert 0 (set recent)"
proof -
  let ?low = "\<lambda>j. (counter + of_nat j) AND kBulkGenMask" and ?taken = "insert 0 (set recent)"
  have card: "card ?taken \<le> 66"
    using card_insert_le_m1 [of 66 "set recent" 0] card_length [of recent] assms by (simp add: card_insert_if)
  have "\<exists>k. 1 \<le> k \<and> ?low k \<notin> ?taken"
  proof (rule ccontr)
    assume "\<not> ?thesis"
    then have "?low ` {1..67} \<subseteq> ?taken" by auto
    moreover have "inj_on ?low {1..67}" by (rule inj_onI) (rule low_gens_distinct; simp)
    ultimately have "card {1..67 :: nat} \<le> card ?taken" by (metis card_image card_mono finite_insert List.finite_set)
    then show False using card by simp
  qed
  then obtain k where "1 \<le> k \<and> ?low k \<notin> ?taken" "\<And>j. j < k \<Longrightarrow> \<not> (1 \<le> j \<and> ?low j \<notin> ?taken)"
    using exists_least_iff [of "\<lambda>k. 1 \<le> k \<and> ?low k \<notin> ?taken"] by blast
  then have "bulk_gen_search counter recent = Some (counter + of_nat k)" "?low k \<notin> ?taken"
    using bulk_gen_search_finds [of k counter recent] by blast+
  then show thesis using that by blast
qed

text \<open>The next \<open>n\<close> generations, and the allocator after them; \<open>None\<close> if one search does not return.\<close>

fun bulk_gens :: "nat \<Rightarrow> bulk_gen_allocator \<Rightarrow> (u32 list \<times> bulk_gen_allocator) option" where
  "bulk_gens 0 a = Some ([], a)"
| "bulk_gens (Suc n) a = (case bulk_gen_next a of None \<Rightarrow> None
   | Some (g, a) \<Rightarrow> (case bulk_gens n a of None \<Rightarrow> None | Some (gs, a) \<Rightarrow> Some (g # gs, a)))"

text \<open>The allocator remembers the last 65 generations of a history.\<close>

definition remembers :: "u32 list \<Rightarrow> bulk_gen_allocator \<Rightarrow> bool" where
  "remembers gs a \<longleftrightarrow> ba_recent a = map (\<lambda>g. g AND kBulkGenMask) (drop (length gs - 65) gs)"

lemma bulk_gen_next_remembers:
  assumes "remembers gs a"
  obtains g a' where "bulk_gen_next a = Some (g, a')" "remembers (gs @ [g]) a'"
    "g AND kBulkGenMask \<notin> insert 0 (set (ba_recent a))"
proof -
  have len: "length (ba_recent a) = min 65 (length gs)" using assms by (auto simp: remembers_def min_def)
  obtain g where g: "bulk_gen_search (ba_next a) (ba_recent a) = Some g"
    and fresh: "g AND kBulkGenMask \<notin> insert 0 (set (ba_recent a))"
    by (rule bulk_gen_search_returns [of "ba_recent a" "ba_next a"]) (use len in simp)
  define a' where "a' = \<lparr>ba_next = g, ba_recent = (if kRecentGens + 1 < length (ba_recent a @ [g AND kBulkGenMask])
    then tl (ba_recent a @ [g AND kBulkGenMask]) else ba_recent a @ [g AND kBulkGenMask])\<rparr>"
  have "bulk_gen_next a = Some (g, a')" using g by (simp add: bulk_gen_next_def a'_def Let_def)
  moreover have "remembers (gs @ [g]) a'"
  proof (cases "65 \<le> length gs")
    case True
    then have "drop (length gs - 65) gs \<noteq> []" by simp
    then have "tl (drop (length gs - 65) gs @ [g]) = drop (Suc (length gs - 65)) gs @ [g]"
      by (simp add: drop_Suc tl_drop)
    moreover have "Suc (length gs - 65) = length gs - 64" using True by simp
    ultimately show ?thesis using True assms len
      by (simp add: remembers_def a'_def kRecentGens_def Suc_diff_le flip: map_tl)
  next
    case False
    then show ?thesis using assms len by (simp add: remembers_def a'_def kRecentGens_def)
  qed
  ultimately show thesis using that fresh by blast
qed

lemma bulk_gens_fresh:
  "remembers gs a \<Longrightarrow> \<exists>new a'. bulk_gens n a = Some (new, a') \<and> length new = n \<and>
     (\<forall>i j. i < j \<and> j < length gs + n \<and> length gs \<le> j \<and> j - i \<le> 65 \<longrightarrow>
        ((gs @ new) ! i) AND kBulkGenMask \<noteq> ((gs @ new) ! j) AND kBulkGenMask) \<and>
     (\<forall>g\<in>set new. g AND kBulkGenMask \<noteq> 0)"
proof (induction n arbitrary: gs a)
  case (Suc n)
  obtain g a' where g: "bulk_gen_next a = Some (g, a')" and rem: "remembers (gs @ [g]) a'"
    and fresh: "g AND kBulkGenMask \<notin> insert 0 (set (ba_recent a))"
    by (rule bulk_gen_next_remembers [OF Suc.prems])
  obtain new a'' where new: "bulk_gens n a' = Some (new, a'')" "length new = n"
    and apart: "\<And>i j. i < j \<Longrightarrow> j < length (gs @ [g]) + n \<Longrightarrow> length (gs @ [g]) \<le> j \<Longrightarrow> j - i \<le> 65 \<Longrightarrow>
        ((gs @ [g] @ new) ! i) AND kBulkGenMask \<noteq> ((gs @ [g] @ new) ! j) AND kBulkGenMask"
    and nz: "\<forall>g\<in>set new. g AND kBulkGenMask \<noteq> 0"
    using Suc.IH [OF rem] by auto
  have mine: "(gs ! i) AND kBulkGenMask \<noteq> g AND kBulkGenMask" if "i < length gs" "length gs - i \<le> 65" for i
  proof -
    have "gs ! i \<in> set (drop (length gs - 65) gs)"
      using that by (auto simp: in_set_conv_nth intro!: exI [of _ "i - (length gs - 65)"])
    then have "(gs ! i) AND kBulkGenMask \<in> set (ba_recent a)" using Suc.prems by (auto simp: remembers_def)
    then show ?thesis using fresh by auto
  qed
  have "((gs @ g # new) ! i) AND kBulkGenMask \<noteq> ((gs @ g # new) ! j) AND kBulkGenMask"
    if "i < j" "j < length gs + Suc n" "length gs \<le> j" "j - i \<le> 65" for i j
  proof (cases "j = length gs")
    case True
    then show ?thesis using mine [of i] that by (simp add: nth_append)
  next
    case False
    then show ?thesis using apart [of i j] that by simp
  qed
  then show ?case using g new nz fresh by auto
qed auto

text \<open>
  Every search of the allocator returns, and two transfers of one process at most 65 apart never
  share a bulk stream, in either direction and for either kind of transfer; so a late datagram of
  one of the last 65 transfers cannot reach the current one. A bulk stream is none of the control
  streams, plain or resumed.
\<close>

theorem bulk_streams_apart:
  "\<exists>gs a. bulk_gens n bulk_gen_init = Some (gs, a) \<and> length gs = n \<and>
    (\<forall>i j b b'. i < j \<and> j < n \<and> j - i \<le> 65 \<longrightarrow> bulk_stream_id (gs ! i) b \<noteq> bulk_stream_id (gs ! j) b') \<and>
    (\<forall>g b r c. bulk_stream_id g b \<noteq> control_resume_stream_id c r \<and>
      bulk_stream_id g b \<notin> {kUdpControlStreamClientToHost, kUdpControlStreamHostToClient} \<and>
      bulk_stream_id g kFileBulkStreamClientToHost \<noteq> bulk_stream_id g kBulkStreamClientToHost)"
proof -
  have "remembers [] bulk_gen_init" by (simp add: remembers_def bulk_gen_init_def)
  from bulk_gens_fresh [OF this, of n] obtain gs a where gs: "bulk_gens n bulk_gen_init = Some (gs, a)" "length gs = n"
    and apart: "\<And>i j. i < j \<Longrightarrow> j < n \<Longrightarrow> j - i \<le> 65 \<Longrightarrow> (gs ! i) AND kBulkGenMask \<noteq> (gs ! j) AND kBulkGenMask"
    by auto
  have "bulk_stream_id g b \<notin> {kUdpControlStreamClientToHost, kUdpControlStreamHostToClient}" for g b
    using bulk_bits [of g b 30] by (auto simp: kUdpControlStreamClientToHost_def kUdpControlStreamHostToClient_def bit_simps)
  moreover have "bulk_stream_id g kFileBulkStreamClientToHost \<noteq> bulk_stream_id g kBulkStreamClientToHost" for g
    using bulk_stream_id_inj(2) [of g 3 g 1] by (auto simp: kFileBulkStreamClientToHost_def kBulkStreamClientToHost_def)
  moreover have "bulk_stream_id (gs ! i) b \<noteq> bulk_stream_id (gs ! j) b'" if "i < j" "j < n" "j - i \<le> 65" for i j b b'
    using apart [OF that] bulk_stream_id_inj(1) [of "gs ! i" b "gs ! j" b'] by blast
  ultimately show ?thesis using gs bulk_not_resume by (intro exI [of _ gs] exI [of _ a] conjI allI impI) blast+
qed

end
