(* ===== verification/ClipImageTransfer.thy ===== *)
theory ClipImageTransfer
  imports ClipImageCore
begin

text \<open>
  \<open>clip_image_transfer.hpp\<close>: the two ends of an image transfer from the viewer to the host. The
  receiver judges an offer, asks for chunks and takes only those it asked for; the sender answers
  pulls of its current transfer. Message headers and reserved fields are left out; whether the
  receiver's buffer can be allocated is an argument.
\<close>

section \<open>Messages\<close>

definition kClipImageChunkBytes :: u32 where "kClipImageChunkBytes = 16 * 1024"
definition kClipImageMaxChunkBytes :: u32 where "kClipImageMaxChunkBytes = 64 * 1024"
definition kClipImagePullWindowMax :: u32 where "kClipImagePullWindowMax = 4"
definition kClipImageStallUs :: u64 where "kClipImageStallUs = 30000000"
definition kClipImageTimeoutFloorBps :: u64 where "kClipImageTimeoutFloorBps = 128000"
definition kClipImageTimeoutSlackUs :: u64 where "kClipImageTimeoutSlackUs = 30000000"
definition kClipImageTimeoutCapUs :: u64 where "kClipImageTimeoutCapUs = 20 * 60 * 1000000"
definition kClipImageFormatPng :: u8 where "kClipImageFormatPng = 1"
definition kClipImageFormatText :: u8 where "kClipImageFormatText = 2"

definition clip_image_total_timeout_us :: "u64 \<Rightarrow> u64" where
  "clip_image_total_timeout_us packageBytes =
    min (packageBytes * 8 * 1000000 div kClipImageTimeoutFloorBps + kClipImageTimeoutSlackUs) kClipImageTimeoutCapUs"

datatype clip_image_verdict = VerdictAccept | VerdictBusy | VerdictTooLarge | VerdictDisabled | VerdictStaleEpoch
  | VerdictBadDims | VerdictBadRequest

datatype clip_image_state = StateUnknown | Pulling | Verifying | Publishing | Published | TransferFailed
  | TransferCancelled | TransferSuperseded

datatype clip_image_reason = NoReason | Stalled | TransferTimeout | VerifyFailed | DecodeFailed | SizeMismatch
  | PublishFailed | SessionEnded | LimitReached | UserCancelled | ReasonSuperseded | ColorProfile

definition clip_image_state_terminal :: "clip_image_state \<Rightarrow> bool" where
  "clip_image_state_terminal s \<longleftrightarrow> s = Published \<or> s = TransferFailed \<or> s = TransferCancelled \<or> s = TransferSuperseded"

record clip_image_offer =
  co_transferId :: u64
  co_revision :: u64
  co_formats :: u8
  co_pngBytes :: u32
  co_textUtf16 :: u32
  co_width :: u32
  co_height :: u32
  co_sha256 :: bytes

definition no_offer :: clip_image_offer where
  "no_offer = \<lparr>co_transferId = 0, co_revision = 0, co_formats = 0, co_pngBytes = 0, co_textUtf16 = 0,
     co_width = 0, co_height = 0, co_sha256 = replicate 32 0\<rparr>"

definition package_bytes :: "clip_image_offer \<Rightarrow> u64" where
  "package_bytes o' = ucast (co_pngBytes o') + 2 * ucast (co_textUtf16 o')"

definition clip_image_offer_well_formed :: "clip_image_offer \<Rightarrow> bool" where
  "clip_image_offer_well_formed o' \<longleftrightarrow> co_transferId o' \<noteq> 0 \<and> co_formats o' AND kClipImageFormatPng \<noteq> 0 \<and>
     co_formats o' AND NOT (kClipImageFormatPng OR kClipImageFormatText) = 0 \<and> \<not> co_pngBytes o' < 8 \<and>
     (co_formats o' AND kClipImageFormatText \<noteq> 0) = (0 < co_textUtf16 o')"

definition clip_image_offer_verdict :: "clip_image_offer \<Rightarrow> clip_image_verdict" where
  "clip_image_offer_verdict o' =
    (if \<not> clip_image_offer_well_formed o' then VerdictBadRequest
     else if co_width o' = 0 \<or> co_height o' = 0 then VerdictBadDims
     else let textBytes = 2 * ucast (co_textUtf16 o');
            g = clip_image_gate (co_width o') (co_height o') (ucast (co_pngBytes o')) textBytes in
       if cg_reason g \<noteq> GateOk then (if cg_reason g = ZeroSize then VerdictBadDims else VerdictTooLarge)
       else VerdictAccept)"

record bulk_pull =
  bp_transferId :: u64
  bp_epochTag :: u64
  bp_bulkGen :: u32
  bp_offset :: u32
  bp_len :: u32
  bp_triggerOffset :: u32
  bp_bytesReceived :: u32

record bulk_chunk =
  bc_transferId :: u64
  bc_epochTag :: u64
  bc_bulkGen :: u32
  bc_offset :: u32
  bc_len :: u32

record offer_reply =
  or_transferId :: u64
  or_verdict :: clip_image_verdict
  or_epochTag :: u64
  or_bulkGen :: u32

record transfer_status =
  ts_transferId :: u64
  ts_state :: clip_image_state
  ts_reason :: clip_image_reason
  ts_bytesReceived :: u32
  ts_totalBytes :: u32

section \<open>The receiver\<close>

record clip_receiver =
  cr_processRandom :: u32
  cr_pullWindow :: u32
  cr_chunkBytes :: u32
  cr_gens :: bulk_gen_allocator
  cr_offer :: clip_image_offer
  cr_package :: bytes
  cr_epochTag :: u64
  cr_bulkGen :: u32
  cr_state :: clip_image_state
  cr_reason :: clip_image_reason
  cr_received :: u64
  cr_nextOffset :: u64
  cr_outstanding :: "(u32 \<times> u32) list"
  cr_acceptedUs :: u64
  cr_lastProgressUs :: u64
  cr_deadlineUs :: u64
  cr_localSeqAtAccept :: u64
  cr_cancelRequested :: bool
  cr_cancelReason :: clip_image_reason

definition receiver_init :: "u32 \<Rightarrow> u32 \<Rightarrow> clip_receiver" where
  "receiver_init processRandom pullWindow = \<lparr>cr_processRandom = processRandom,
     cr_pullWindow = max 1 (min pullWindow kClipImagePullWindowMax), cr_chunkBytes = kClipImageChunkBytes,
     cr_gens = bulk_gen_init, cr_offer = no_offer, cr_package = [], cr_epochTag = 0, cr_bulkGen = 0,
     cr_state = StateUnknown, cr_reason = NoReason, cr_received = 0, cr_nextOffset = 0, cr_outstanding = [],
     cr_acceptedUs = 0, cr_lastProgressUs = 0, cr_deadlineUs = 0, cr_localSeqAtAccept = 0,
     cr_cancelRequested = False, cr_cancelReason = NoReason\<rparr>"

definition receiver_active :: "clip_receiver \<Rightarrow> bool" where
  "receiver_active r \<longleftrightarrow> cr_state r = Pulling \<or> cr_state r = Verifying \<or> cr_state r = Publishing"

definition receiver_end :: "clip_image_state \<Rightarrow> clip_image_reason \<Rightarrow> clip_receiver \<Rightarrow> clip_receiver" where
  "receiver_end s why r = r\<lparr>cr_state := s, cr_reason := why, cr_outstanding := [], cr_package := [],
     cr_cancelRequested := False\<rparr>"

text \<open>\<open>None\<close> if the allocator does not return.\<close>

definition on_offer ::
    "clip_image_offer \<Rightarrow> u64 \<Rightarrow> bool \<Rightarrow> u64 \<Rightarrow> bool \<Rightarrow> u64 \<Rightarrow> clip_receiver \<Rightarrow>
     (clip_image_verdict \<times> clip_receiver) option" where
  "on_offer o' sessionEpoch enabled localSeq allocOk nowUs r =
    (if \<not> enabled then Some (VerdictDisabled, r)
     else if receiver_active r then Some (VerdictBusy, r)
     else if clip_image_offer_verdict o' \<noteq> VerdictAccept then Some (clip_image_offer_verdict o', r)
     else if \<not> allocOk then Some (VerdictTooLarge, r)
     else map_option (\<lambda>(g, gens). (VerdictAccept,
       r\<lparr>cr_offer := o', cr_package := replicate (unat (package_bytes o')) 0,
         cr_epochTag := push_bit 32 (ucast (cr_processRandom r)) OR (sessionEpoch AND 0xFFFFFFFF),
         cr_bulkGen := g, cr_gens := gens, cr_state := Pulling, cr_reason := NoReason, cr_received := 0,
         cr_nextOffset := 0, cr_outstanding := [], cr_acceptedUs := nowUs, cr_lastProgressUs := nowUs,
         cr_deadlineUs := nowUs + clip_image_total_timeout_us (package_bytes o'),
         cr_localSeqAtAccept := localSeq, cr_cancelRequested := False\<rparr>)) (bulk_gen_next (cr_gens r)))"

definition offer_answer :: "clip_image_offer \<Rightarrow> clip_image_verdict \<Rightarrow> clip_receiver \<Rightarrow> offer_reply" where
  "offer_answer o' v r = \<lparr>or_transferId = co_transferId o', or_verdict = v,
     or_epochTag = (if v = VerdictAccept then cr_epochTag r else 0),
     or_bulkGen = (if v = VerdictAccept then cr_bulkGen r else 0)\<rparr>"

definition next_pull :: "u32 \<Rightarrow> clip_receiver \<Rightarrow> (bulk_pull \<times> clip_receiver) option" where
  "next_pull triggerOffset r =
    (let total = of_nat (length (cr_package r)) in
     if cr_state r \<noteq> Pulling then None
     else if unat (cr_pullWindow r) \<le> length (cr_outstanding r) then None
     else if total \<le> cr_nextOffset r then None
     else let len = ucast (min (ucast (cr_chunkBytes r)) (total - cr_nextOffset r)) :: u32;
            p = \<lparr>bp_transferId = co_transferId (cr_offer r), bp_epochTag = cr_epochTag r, bp_bulkGen = cr_bulkGen r,
              bp_offset = ucast (cr_nextOffset r), bp_len = len, bp_triggerOffset = triggerOffset,
              bp_bytesReceived = ucast (cr_received r)\<rparr> in
       Some (p, r\<lparr>cr_outstanding := cr_outstanding r @ [(bp_offset p, len)],
         cr_nextOffset := cr_nextOffset r + ucast len\<rparr>))"

datatype chunk_result = ChunkDropped | ChunkAccepted | ChunkComplete

definition on_chunk :: "bulk_chunk \<Rightarrow> bytes \<Rightarrow> u64 \<Rightarrow> clip_receiver \<Rightarrow> chunk_result \<times> clip_receiver" where
  "on_chunk h data nowUs r =
    (if cr_state r \<noteq> Pulling then (ChunkDropped, r)
     else if bc_transferId h \<noteq> co_transferId (cr_offer r) \<or> bc_epochTag h \<noteq> cr_epochTag r \<or>
       bc_bulkGen h \<noteq> cr_bulkGen r then (ChunkDropped, r)
     else if bc_len h = 0 \<or> unat (bc_len h) \<noteq> length data then (ChunkDropped, r)
     else if (bc_offset h, bc_len h) \<notin> set (cr_outstanding r) then (ChunkDropped, r)
     else if length (cr_package r) < unat (bc_offset h) + unat (bc_len h) then (ChunkDropped, r)
     else let r = r\<lparr>cr_package := overwrite (cr_package r) (unat (bc_offset h)) data,
              cr_outstanding := remove1 (bc_offset h, bc_len h) (cr_outstanding r),
              cr_received := cr_received r + ucast (bc_len h), cr_lastProgressUs := nowUs\<rparr> in
       if unat (cr_received r) = length (cr_package r) then (ChunkComplete, r\<lparr>cr_state := Verifying\<rparr>)
       else (ChunkAccepted, r))"

definition receiver_tick :: "u64 \<Rightarrow> clip_receiver \<Rightarrow> bool \<times> clip_receiver" where
  "receiver_tick nowUs r =
    (if cr_state r \<noteq> Pulling then (False, r)
     else if kClipImageStallUs \<le> nowUs - cr_lastProgressUs r then (True, receiver_end TransferFailed Stalled r)
     else if cr_deadlineUs r \<le> nowUs then (True, receiver_end TransferFailed TransferTimeout r)
     else (False, r))"

definition receiver_status :: "u64 \<Rightarrow> clip_receiver \<Rightarrow> transfer_status" where
  "receiver_status transferId r =
    (if transferId = 0 \<or> transferId \<noteq> co_transferId (cr_offer r) \<or> cr_state r = StateUnknown
     then \<lparr>ts_transferId = transferId, ts_state = StateUnknown, ts_reason = NoReason, ts_bytesReceived = 0, ts_totalBytes = 0\<rparr>
     else \<lparr>ts_transferId = transferId, ts_state = cr_state r, ts_reason = cr_reason r,
       ts_bytesReceived = ucast (cr_received r), ts_totalBytes = ucast (package_bytes (cr_offer r))\<rparr>)"

definition receiver_cancel :: "u64 \<Rightarrow> u64 \<Rightarrow> clip_image_reason \<Rightarrow> clip_receiver \<Rightarrow> transfer_status \<times> clip_receiver" where
  "receiver_cancel transferId epochTag why r =
    (let r = (if transferId \<noteq> 0 \<and> transferId = co_transferId (cr_offer r) \<and> epochTag = cr_epochTag r \<and> receiver_active r
       then (if cr_state r = Pulling then receiver_end TransferCancelled why r
         else r\<lparr>cr_cancelRequested := True, cr_cancelReason := why\<rparr>)
       else r) in (receiver_status transferId r, r))"

definition receiver_session_end :: "clip_receiver \<Rightarrow> clip_receiver" where
  "receiver_session_end r =
    (if cr_state r = Pulling then receiver_end TransferCancelled SessionEnded r
     else if receiver_active r then r\<lparr>cr_cancelRequested := True, cr_cancelReason := SessionEnded\<rparr> else r)"

definition begin_publishing :: "clip_receiver \<Rightarrow> clip_receiver" where
  "begin_publishing r = (if cr_state r = Verifying then r\<lparr>cr_state := Publishing\<rparr> else r)"

definition receiver_finish :: "clip_image_state \<Rightarrow> clip_image_reason \<Rightarrow> clip_receiver \<Rightarrow> clip_receiver" where
  "receiver_finish s why r =
    (if \<not> receiver_active r then r
     else if cr_cancelRequested r \<and> s \<noteq> Published then receiver_end TransferCancelled (cr_cancelReason r) r
     else receiver_end s why r)"

definition set_chunk_bytes :: "u32 \<Rightarrow> clip_receiver \<Rightarrow> clip_receiver" where
  "set_chunk_bytes n r = r\<lparr>cr_chunkBytes := max kClipImageChunkBytes (min n kClipImageMaxChunkBytes)\<rparr>"

section \<open>The sender\<close>

datatype sender_phase = PhaseIdle | PhaseOffering | PhaseServing

record clip_sender =
  cs_package :: "bytes option"
  cs_offer :: clip_image_offer
  cs_phase :: sender_phase
  cs_epochTag :: u64
  cs_bulkGen :: u32
  cs_served :: u64
  cs_startedUs :: u64
  cs_lastPullUs :: u64
  cs_sent :: "(u32 \<times> u32) list"

definition sender_init :: clip_sender where
  "sender_init = \<lparr>cs_package = None, cs_offer = no_offer, cs_phase = PhaseIdle, cs_epochTag = 0, cs_bulkGen = 0,
     cs_served = 0, cs_startedUs = 0, cs_lastPullUs = 0, cs_sent = []\<rparr>"

definition sender_begin :: "bytes \<Rightarrow> clip_image_offer \<Rightarrow> u64 \<Rightarrow> clip_sender \<Rightarrow> clip_sender" where
  "sender_begin package o' nowUs s = s\<lparr>cs_package := Some package, cs_offer := o', cs_phase := PhaseOffering,
     cs_epochTag := 0, cs_bulkGen := 0, cs_served := 0, cs_startedUs := nowUs, cs_lastPullUs := nowUs, cs_sent := []\<rparr>"

definition sender_end :: "clip_sender \<Rightarrow> clip_sender" where
  "sender_end s = s\<lparr>cs_phase := PhaseIdle, cs_package := None, cs_sent := []\<rparr>"

definition on_offer_reply :: "offer_reply \<Rightarrow> clip_sender \<Rightarrow> bool \<times> clip_sender" where
  "on_offer_reply m s =
    (if cs_phase s \<noteq> PhaseOffering \<or> or_transferId m \<noteq> co_transferId (cs_offer s) then (False, s)
     else if or_verdict m \<noteq> VerdictAccept then (False, sender_end s)
     else (True, s\<lparr>cs_epochTag := or_epochTag m, cs_bulkGen := or_bulkGen m, cs_phase := PhaseServing\<rparr>))"

record served_chunk =
  sv_header :: bulk_chunk
  sv_data :: bytes
  sv_completedChunk :: bool
  sv_completedBytes :: u32

definition on_pull :: "bulk_pull \<Rightarrow> u64 \<Rightarrow> clip_sender \<Rightarrow> (served_chunk \<times> clip_sender) option" where
  "on_pull p nowUs s = (case cs_package s of None \<Rightarrow> None | Some package \<Rightarrow>
    (if cs_phase s \<noteq> PhaseServing then None
     else if bp_transferId p \<noteq> co_transferId (cs_offer s) \<or> bp_epochTag p \<noteq> cs_epochTag s \<or> bp_bulkGen p \<noteq> cs_bulkGen s then None
     else if bp_len p = 0 \<or> kClipImageMaxChunkBytes < bp_len p then None
     else if length package < unat (bp_offset p) + unat (bp_len p) then None
     else let done' = (if bp_triggerOffset p = 0xFFFFFFFF then None
              else find (\<lambda>x. fst x = bp_triggerOffset p) (cs_sent s));
            sent = (case done' of None \<Rightarrow> cs_sent s | Some x \<Rightarrow> remove1 x (cs_sent s)) @ [(bp_offset p, bp_len p)] in
       Some (\<lparr>sv_header = \<lparr>bc_transferId = co_transferId (cs_offer s), bc_epochTag = cs_epochTag s,
             bc_bulkGen = cs_bulkGen s, bc_offset = bp_offset p, bc_len = bp_len p\<rparr>,
           sv_data = slice package (unat (bp_offset p)) (unat (bp_len p)),
           sv_completedChunk = (done' \<noteq> None), sv_completedBytes = (case done' of None \<Rightarrow> 0 | Some x \<Rightarrow> snd x)\<rparr>,
         s\<lparr>cs_sent := (if 16 < length sent then tl sent else sent), cs_served := cs_served s + ucast (bp_len p),
           cs_lastPullUs := nowUs\<rparr>)))"

section \<open>The package arrives as it was\<close>

definition asked :: "(u32 \<times> u32) list \<Rightarrow> nat" where
  "asked out = sum_list (map (\<lambda>x. unat (snd x)) out)"

definition range_of :: "u32 \<times> u32 \<Rightarrow> nat set" where
  "range_of x = {unat (fst x)..<unat (fst x) + unat (snd x)}"

text \<open>While it pulls, the receiver holds the source's bytes wherever it has asked and been answered.\<close>

definition holds_answers :: "bytes \<Rightarrow> clip_receiver \<Rightarrow> bool" where
  "holds_answers src r \<longleftrightarrow> length (cr_package r) = length src \<and> length src < 2 ^ 32 \<and>
     (\<forall>x\<in>set (cr_outstanding r). 0 < unat (snd x)) \<and>
     unat (cr_received r) + asked (cr_outstanding r) = unat (cr_nextOffset r) \<and> unat (cr_nextOffset r) \<le> length src \<and>
     (\<forall>i<unat (cr_nextOffset r). (\<forall>x\<in>set (cr_outstanding r). i \<notin> range_of x) \<longrightarrow> cr_package r ! i = src ! i)"

lemma asked_remove1: "x \<in> set out \<Longrightarrow> asked (remove1 x out) + unat (snd x) = asked out"
  by (induction out) (auto simp: asked_def)

lemma asked_append [simp]: "asked (out @ [x]) = asked out + unat (snd x)" "asked [] = 0"
  by (simp_all add: asked_def)

lemma asked_none: "asked out = 0 \<Longrightarrow> \<forall>x\<in>set out. 0 < unat (snd x) \<Longrightarrow> out = []"
  by (cases out) (auto simp: asked_def)

lemma holds_next_pull:
  assumes "holds_answers src r" and "next_pull t r = Some (p, r')" and "16384 \<le> unat (cr_chunkBytes r)"
  shows "holds_answers src r'" "cr_offer r' = cr_offer r" "cr_state r' = cr_state r" "cr_chunkBytes r' = cr_chunkBytes r"
    "cr_package r' = cr_package r" "cr_gens r' = cr_gens r"
    "cr_outstanding r' = cr_outstanding r @ [(bp_offset p, bp_len p)]" "unat (bp_offset p) = unat (cr_nextOffset r)"
    "unat (bp_len p) = min (unat (cr_chunkBytes r)) (length src - unat (cr_nextOffset r))" "0 < unat (bp_len p)"
    "unat (cr_nextOffset r') = unat (cr_nextOffset r) + unat (bp_len p)" "unat (cr_received r') = unat (cr_received r)"
    "cr_epochTag r' = cr_epochTag r" "cr_bulkGen r' = cr_bulkGen r" "cr_pullWindow r' = cr_pullWindow r"
    "bp_transferId p = co_transferId (cr_offer r)" "bp_epochTag p = cr_epochTag r" "bp_bulkGen p = cr_bulkGen r"
proof -
  let ?total = "of_nat (length (cr_package r)) :: u64"
  let ?m = "min (ucast (cr_chunkBytes r)) (?total - cr_nextOffset r)"
  define len :: u32 where "len = ucast ?m"
  have h: "length (cr_package r) = length src" "length src < 2 ^ 32" "unat (cr_nextOffset r) \<le> length src"
    using assms(1) by (auto simp: holds_answers_def)
  have total: "unat ?total = length src" using h(1,2) by (simp add: unat_of_nat)
  have room: "\<not> ?total \<le> cr_nextOffset r" and p: "p = \<lparr>bp_transferId = co_transferId (cr_offer r), bp_epochTag = cr_epochTag r,
      bp_bulkGen = cr_bulkGen r, bp_offset = ucast (cr_nextOffset r), bp_len = len, bp_triggerOffset = t,
      bp_bytesReceived = ucast (cr_received r)\<rparr>"
    and r': "r' = r\<lparr>cr_outstanding := cr_outstanding r @ [(ucast (cr_nextOffset r), len)],
         cr_nextOffset := cr_nextOffset r + ucast len\<rparr>"
    using assms(2) by (auto simp: next_pull_def Let_def len_def split: if_split_asm)
  have lt: "unat (cr_nextOffset r) < length src" using room total by (simp add: word_le_nat_alt)
  have diff: "unat (?total - cr_nextOffset r) = length src - unat (cr_nextOffset r)"
    using room total by (simp add: unat_sub)
  have m: "unat ?m = min (unat (cr_chunkBytes r)) (length src - unat (cr_nextOffset r))"
    using diff by (simp add: min_def word_le_nat_alt unat_u32_u64)
  have small: "unat ?m < 2 ^ 32" using m unat_bounds(3) [of "cr_chunkBytes r"] by simp
  have len: "unat len = min (unat (cr_chunkBytes r)) (length src - unat (cr_nextOffset r))"
    unfolding len_def m [symmetric] using small by (simp add: unsigned_ucast_eq take_bit_nat_eq_self)
  have off: "unat (ucast (cr_nextOffset r) :: u32) = unat (cr_nextOffset r)"
    using lt h(2) by (simp add: unsigned_ucast_eq take_bit_nat_eq_self)
  have adv: "unat (cr_nextOffset r + ucast len) = unat (cr_nextOffset r) + unat len"
    using lt h(2) len by (intro trans [OF u64_plus_small]) (simp_all add: unat_u32_u64)
  show "unat (bp_len p) = min (unat (cr_chunkBytes r)) (length src - unat (cr_nextOffset r))" "0 < unat (bp_len p)"
    "unat (bp_offset p) = unat (cr_nextOffset r)" "unat (cr_nextOffset r') = unat (cr_nextOffset r) + unat (bp_len p)"
    using len off adv lt assms(3) by (simp_all add: p r')
  show "holds_answers src r'"
    using assms(1) len off adv lt assms(3) unfolding holds_answers_def r'
    by (auto simp: range_of_def ball_Un)
qed (use assms(2) in \<open>auto simp: next_pull_def Let_def split: if_split_asm\<close>)

lemma holds_on_chunk:
  assumes "holds_answers src r" and "on_chunk h data t r = (res, r')"
    and "res \<noteq> ChunkDropped \<Longrightarrow> data = slice src (unat (bc_offset h)) (unat (bc_len h))"
  shows "res = ChunkDropped \<and> r' = r \<or> res = ChunkAccepted \<and> cr_state r' = Pulling \<and> holds_answers src r' \<or>
    res = ChunkComplete \<and> cr_state r' = Verifying \<and> cr_package r' = src"
    "res \<noteq> ChunkDropped \<Longrightarrow> cr_outstanding r' = remove1 (bc_offset h, bc_len h) (cr_outstanding r) \<and>
       unat (cr_received r') = unat (cr_received r) + unat (bc_len h) \<and> cr_nextOffset r' = cr_nextOffset r"
    "cr_offer r' = cr_offer r" "cr_chunkBytes r' = cr_chunkBytes r" "cr_gens r' = cr_gens r"
    "cr_epochTag r' = cr_epochTag r" "cr_bulkGen r' = cr_bulkGen r" "cr_pullWindow r' = cr_pullWindow r"
proof -
  let ?x = "(bc_offset h, bc_len h)" and ?off = "unat (bc_offset h)" and ?len = "unat (bc_len h)"
  show "cr_offer r' = cr_offer r" "cr_chunkBytes r' = cr_chunkBytes r" "cr_gens r' = cr_gens r"
    "cr_epochTag r' = cr_epochTag r" "cr_bulkGen r' = cr_bulkGen r" "cr_pullWindow r' = cr_pullWindow r"
    using assms(2) by (auto simp: on_chunk_def Let_def split: if_split_asm)
  define q where "q = r\<lparr>cr_package := overwrite (cr_package r) ?off data, cr_outstanding := remove1 ?x (cr_outstanding r),
    cr_received := cr_received r + ucast (bc_len h), cr_lastProgressUs := t\<rparr>"
  have "res = ChunkDropped \<and> r' = r \<or> (cr_state r = Pulling \<and> length data = ?len \<and> ?x \<in> set (cr_outstanding r) \<and>
      ?off + ?len \<le> length (cr_package r) \<and>
      (if unat (cr_received q) = length (cr_package q) then res = ChunkComplete \<and> r' = q\<lparr>cr_state := Verifying\<rparr>
       else res = ChunkAccepted \<and> r' = q))"
    using assms(2) by (auto simp: on_chunk_def Let_def q_def split: if_split_asm)
  then have "(res = ChunkDropped \<and> r' = r) \<or>
      (cr_state r = Pulling \<and> length data = ?len \<and> ?x \<in> set (cr_outstanding r) \<and> ?off + ?len \<le> length (cr_package r) \<and>
       ((unat (cr_received q) = length (cr_package q) \<and> res = ChunkComplete \<and> r' = q\<lparr>cr_state := Verifying\<rparr>) \<or>
        (unat (cr_received q) \<noteq> length (cr_package q) \<and> res = ChunkAccepted \<and> r' = q)))"
    by (simp split: if_split_asm)
  moreover have "(res = ChunkComplete \<and> cr_package q = src \<or> res \<noteq> ChunkComplete) \<and> holds_answers src q \<and>
      unat (cr_received q) = unat (cr_received r) + ?len"
    if x: "?x \<in> set (cr_outstanding r)" and len: "length data = ?len" and fit: "?off + ?len \<le> length (cr_package r)"
      and res: "res \<noteq> ChunkDropped" "res = ChunkComplete \<longrightarrow> unat (cr_received q) = length (cr_package q)"
  proof -
    have h: "length (cr_package r) = length src" "length src < 2 ^ 32" "\<forall>x\<in>set (cr_outstanding r). 0 < unat (snd x)"
      "unat (cr_received r) + asked (cr_outstanding r) = unat (cr_nextOffset r)" "unat (cr_nextOffset r) \<le> length src"
      "\<forall>i<unat (cr_nextOffset r). (\<forall>x\<in>set (cr_outstanding r). i \<notin> range_of x) \<longrightarrow> cr_package r ! i = src ! i"
      using assms(1) by (auto simp: holds_answers_def)
    have a: "asked (remove1 ?x (cr_outstanding r)) + ?len = asked (cr_outstanding r)" using asked_remove1 [OF x] by simp
    have rec: "unat (cr_received q) = unat (cr_received r) + ?len"
      using h(2,4,5) a unfolding q_def by (simp, intro trans [OF u64_plus_small]) (simp_all add: unat_u32_u64)
    have data: "data = slice src ?off ?len" using assms(3) res(1) by simp
    have set1: "set (remove1 ?x (cr_outstanding r)) \<subseteq> set (cr_outstanding r)" by (rule set_remove1_subset)
    have pos: "\<forall>x\<in>set (cr_outstanding q). 0 < unat (snd x)" using h(3) set1 by (auto simp: q_def)
    have same: "cr_package q ! i = src ! i"
      if i: "i < unat (cr_nextOffset r)" "\<forall>y\<in>set (cr_outstanding q). i \<notin> range_of y" for i
    proof (cases "i \<in> range_of ?x")
      case True
      then have r: "?off \<le> i" "i < ?off + ?len" by (simp_all add: range_of_def)
      then have "slice src ?off ?len ! (i - ?off) = src ! i"
        using nth_slice [of "i - ?off" ?len ?off src] fit h(1) by simp
      then show ?thesis using r fit len h(1) by (simp add: q_def nth_overwrite) (simp add: data)
    next
      case False
      have "\<forall>y\<in>set (cr_outstanding r). i \<notin> range_of y"
      proof
        fix y assume "y \<in> set (cr_outstanding r)"
        then show "i \<notin> range_of y" using i(2) False by (cases "y = ?x") (auto simp: q_def)
      qed
      then have "cr_package r ! i = src ! i" using h(6) i(1) by blast
      then show ?thesis using False fit len i(1) h(1,5) by (auto simp: q_def nth_overwrite range_of_def)
    qed
    have holds: "holds_answers src q"
    proof -
      have "length (cr_package q) = length src" using fit len h(1) by (simp add: q_def length_overwrite)
      moreover have "cr_nextOffset q = cr_nextOffset r" "cr_outstanding q = remove1 ?x (cr_outstanding r)"
        by (simp_all add: q_def)
      ultimately show ?thesis unfolding holds_answers_def using h(2,4,5) a rec pos same by simp
    qed
    have "cr_package q = src" if "unat (cr_received q) = length (cr_package q)"
    proof -
      have "unat (cr_received q) + asked (cr_outstanding q) = unat (cr_nextOffset q)" "unat (cr_nextOffset q) \<le> length src"
        "length (cr_package q) = length src" using holds by (auto simp: holds_answers_def)
      then have "asked (cr_outstanding q) = 0" "unat (cr_nextOffset q) = length src" using that by simp_all
      then have "cr_outstanding q = []" "unat (cr_nextOffset r) = length src" using asked_none pos by (auto simp: q_def)
      then show ?thesis using same \<open>length (cr_package q) = length src\<close> by (intro nth_equalityI) simp_all
    qed
    then show ?thesis using holds rec res(2) by blast
  qed
  ultimately have all: "(res = ChunkDropped \<and> r' = r) \<or>
     (res = ChunkComplete \<and> r' = q\<lparr>cr_state := Verifying\<rparr> \<and> cr_package q = src \<and> unat (cr_received q) = unat (cr_received r) + ?len) \<or>
     (res = ChunkAccepted \<and> r' = q \<and> cr_state r = Pulling \<and> holds_answers src q \<and> unat (cr_received q) = unat (cr_received r) + ?len)"
    by (metis chunk_result.distinct(2,4,6))
  then show "res = ChunkDropped \<and> r' = r \<or> res = ChunkAccepted \<and> cr_state r' = Pulling \<and> holds_answers src r' \<or>
    res = ChunkComplete \<and> cr_state r' = Verifying \<and> cr_package r' = src"
    by (auto simp: q_def)
  show "cr_outstanding r' = remove1 ?x (cr_outstanding r) \<and> unat (cr_received r') = unat (cr_received r) + ?len \<and>
      cr_nextOffset r' = cr_nextOffset r" if "res \<noteq> ChunkDropped"
    using all that by (auto simp: q_def)
qed

text \<open>
  Both ends and the chunks the sender has ever put on the wire. \<open>pkg\<close> gives the package of a transfer
  id: ids are random and name one package each. An offer reaches the receiver with the sizes of its
  package. Pulls and offer replies are arbitrary; a chunk that arrives, any number of times and at
  any time, was served by this sender at some time, or does not name the receiver's transfer.
\<close>

definition names :: "bulk_chunk \<Rightarrow> clip_receiver \<Rightarrow> bool" where
  "names h r \<longleftrightarrow> bc_transferId h = co_transferId (cr_offer r) \<and> bc_epochTag h = cr_epochTag r \<and> bc_bulkGen h = cr_bulkGen r"

definition fits :: "(u64 \<Rightarrow> bytes) \<Rightarrow> clip_image_offer \<Rightarrow> bool" where
  "fits pkg o' \<longleftrightarrow> length (pkg (co_transferId o')) = unat (package_bytes o')"

inductive clip_net :: "(u64 \<Rightarrow> bytes) \<Rightarrow> clip_sender \<Rightarrow> clip_receiver \<Rightarrow> (bulk_chunk \<times> bytes) set \<Rightarrow> bool" for pkg where
  net_init: "clip_net pkg sender_init (receiver_init rnd window) {}"
| net_begin: "clip_net pkg s r C \<Longrightarrow> clip_net pkg (sender_begin (pkg (co_transferId o')) o' t s) r C"
| net_offer: "clip_net pkg s r C \<Longrightarrow> fits pkg o' \<Longrightarrow> on_offer o' epoch enabled localSeq allocOk t r = Some (v, r') \<Longrightarrow>
    clip_net pkg s r' C"
| net_reply: "clip_net pkg s r C \<Longrightarrow> clip_net pkg (snd (on_offer_reply m s)) r C"
| net_drop: "clip_net pkg s r C \<Longrightarrow> clip_net pkg (sender_end s) r C"
| net_ask: "clip_net pkg s r C \<Longrightarrow> next_pull trigger r = Some (p, r') \<Longrightarrow> clip_net pkg s r' C"
| net_serve: "clip_net pkg s r C \<Longrightarrow> on_pull p t s = Some (x, s') \<Longrightarrow> clip_net pkg s' r (insert (sv_header x, sv_data x) C)"
| net_chunk: "clip_net pkg s r C \<Longrightarrow> (h, data) \<in> C \<or> \<not> names h r \<Longrightarrow> clip_net pkg s (snd (on_chunk h data t r)) C"
| net_tick: "clip_net pkg s r C \<Longrightarrow> clip_net pkg s (snd (receiver_tick t r)) C"
| net_cancel: "clip_net pkg s r C \<Longrightarrow> clip_net pkg s (snd (receiver_cancel tid tag why r)) C"
| net_session_end: "clip_net pkg s r C \<Longrightarrow> clip_net pkg s (receiver_session_end r) C"
| net_publish: "clip_net pkg s r C \<Longrightarrow> clip_net pkg s (begin_publishing r) C"
| net_finish: "clip_net pkg s r C \<Longrightarrow> clip_image_state_terminal st \<Longrightarrow> clip_net pkg s (receiver_finish st why r) C"
| net_chunk_size: "clip_net pkg s r C \<Longrightarrow> clip_net pkg s (set_chunk_bytes n r) C"

definition receiver_good :: "(u64 \<Rightarrow> bytes) \<Rightarrow> clip_receiver \<Rightarrow> bool" where
  "receiver_good pkg r \<longleftrightarrow> 16384 \<le> unat (cr_chunkBytes r) \<and>
     (cr_state r = Pulling \<longrightarrow> holds_answers (pkg (co_transferId (cr_offer r))) r) \<and>
     (cr_state r = Verifying \<or> cr_state r = Publishing \<longrightarrow> cr_package r = pkg (co_transferId (cr_offer r)))"

definition chunk_true :: "(u64 \<Rightarrow> bytes) \<Rightarrow> bulk_chunk \<times> bytes \<Rightarrow> bool" where
  "chunk_true pkg c \<longleftrightarrow> snd c = slice (pkg (bc_transferId (fst c))) (unat (bc_offset (fst c))) (unat (bc_len (fst c)))"

definition clip_good :: "(u64 \<Rightarrow> bytes) \<Rightarrow> clip_sender \<Rightarrow> clip_receiver \<Rightarrow> (bulk_chunk \<times> bytes) set \<Rightarrow> bool" where
  "clip_good pkg s r C \<longleftrightarrow> receiver_good pkg r \<and> (\<forall>c\<in>C. chunk_true pkg c) \<and>
     (\<forall>p. cs_package s = Some p \<longrightarrow> p = pkg (co_transferId (cs_offer s)))"

lemma accepted_offer:
  assumes "clip_image_offer_verdict o' = VerdictAccept"
  shows "0 < unat (package_bytes o')" "unat (package_bytes o') \<le> 17 * 1024 * 1024"
proof -
  let ?text = "2 * ucast (co_textUtf16 o') :: u64"
  let ?gate = "clip_image_gate (co_width o') (co_height o') (ucast (co_pngBytes o')) ?text"
  have wf: "\<not> co_pngBytes o' < 8" and ok: "cg_reason ?gate = GateOk"
    using assms by (auto simp: clip_image_offer_verdict_def clip_image_offer_well_formed_def Let_def split: if_split_asm)
  have dims: "\<not> (co_width o' = 0 \<or> co_height o' = 0)" "\<not> (8192 < co_width o' \<or> 8192 < co_height o')"
    using ok by (auto simp: clip_image_gate_def no_gate_def Let_def kClipImageMaxSide_def split: if_split_asm)
  have lims: "ucast (co_pngBytes o') \<le> kClipImageMaxPngBytes" "?text \<le> kClipImageMaxTextBytes"
    using ok dims by (auto simp: clip_image_gate_def kClipImageMaxSide_def Let_def split: if_split_asm)
  have png: "unat (ucast (co_pngBytes o') :: u64) \<le> 16777216" and units: "unat ?text \<le> 1048576"
    using lims by (simp_all add: word_le_nat_alt kClipImageMaxPngBytes_def kClipImageMaxTextBytes_def kClipboardTextMaxUtf16_def)
  have "unat (package_bytes o') = unat (ucast (co_pngBytes o') :: u64) + unat ?text"
    unfolding package_bytes_def using png units by (intro u64_plus_small) simp
  moreover have "8 \<le> unat (ucast (co_pngBytes o') :: u64)" using wf by (simp add: word_less_nat_alt unat_u32_u64)
  ultimately show "0 < unat (package_bytes o')" "unat (package_bytes o') \<le> 17 * 1024 * 1024" using png units by simp_all
qed

lemma good_offer:
  assumes "receiver_good pkg r" and "fits pkg o'" and "on_offer o' epoch enabled localSeq allocOk t r = Some (v, r')"
  shows "receiver_good pkg r'"
proof (cases "v = VerdictAccept \<and> r' \<noteq> r")
  case True
  then have acc: "clip_image_offer_verdict o' = VerdictAccept" and st: "cr_state r' = Pulling" "cr_offer r' = o'"
    "cr_package r' = replicate (unat (package_bytes o')) 0" "cr_received r' = 0" "cr_nextOffset r' = 0"
    "cr_outstanding r' = []" "cr_chunkBytes r' = cr_chunkBytes r"
    using assms(3) by (auto simp: on_offer_def split: if_split_asm)
  then show ?thesis using assms(1,2) accepted_offer(2) [OF acc]
    by (simp add: receiver_good_def holds_answers_def fits_def)
next
  case False
  then have "r' = r" using assms(3) by (auto simp: on_offer_def split: if_split_asm)
  then show ?thesis using assms(1) by simp
qed

lemma on_chunk_foreign: "\<not> names h r \<Longrightarrow> on_chunk h data t r = (ChunkDropped, r)"
  by (auto simp: on_chunk_def names_def)

lemma good_chunk:
  assumes "receiver_good pkg r" and "chunk_true pkg (h, data) \<or> \<not> names h r"
  shows "receiver_good pkg (snd (on_chunk h data t r))"
proof (cases "cr_state r = Pulling \<and> names h r")
  case True
  obtain res r' where c: "on_chunk h data t r = (res, r')" by fastforce
  have holds: "holds_answers (pkg (co_transferId (cr_offer r))) r" using assms(1) True by (simp add: receiver_good_def)
  have "data = slice (pkg (co_transferId (cr_offer r))) (unat (bc_offset h)) (unat (bc_len h))"
    using assms(2) True by (auto simp: chunk_true_def names_def)
  from holds_on_chunk [OF holds c this] show ?thesis using assms(1) c by (auto simp: receiver_good_def)
next
  case False
  then have "snd (on_chunk h data t r) = r"
    by (cases "names h r") (simp_all add: on_chunk_foreign, simp add: on_chunk_def)
  then show ?thesis using assms(1) by simp
qed

lemma good_ask:
  assumes "receiver_good pkg r" and "next_pull trigger r = Some (p, r')"
  shows "receiver_good pkg r'"
proof -
  have st: "cr_state r = Pulling" using assms(2) by (simp add: next_pull_def Let_def split: if_split_asm)
  note n = holds_next_pull [of "pkg (co_transferId (cr_offer r))", OF _ assms(2)]
  show ?thesis using assms(1) st n(1-4) by (simp add: receiver_good_def)
qed

lemma good_end: "receiver_good pkg r \<Longrightarrow> s \<noteq> Pulling \<Longrightarrow> s \<noteq> Verifying \<Longrightarrow> s \<noteq> Publishing \<Longrightarrow>
    receiver_good pkg (receiver_end s why r)"
  by (simp add: receiver_good_def receiver_end_def)

lemma good_flags: "receiver_good pkg (r\<lparr>cr_cancelRequested := b, cr_cancelReason := w\<rparr>) = receiver_good pkg r"
  by (simp add: receiver_good_def holds_answers_def)

lemma served_true:
  assumes "on_pull p t s = Some (x, s')" and "\<forall>p. cs_package s = Some p \<longrightarrow> p = pkg (co_transferId (cs_offer s))"
  shows "chunk_true pkg (sv_header x, sv_data x)" "\<forall>p. cs_package s' = Some p \<longrightarrow> p = pkg (co_transferId (cs_offer s'))"
  using assms by (auto simp: on_pull_def chunk_true_def Let_def split: option.splits if_split_asm)

lemma clip_net_good: "clip_net pkg s r C \<Longrightarrow> clip_good pkg s r C"
proof (induction rule: clip_net.induct)
  case (net_init rnd window)
  then show ?case
    by (simp add: clip_good_def receiver_good_def receiver_init_def sender_init_def kClipImageChunkBytes_def)
next
  case (net_begin s r C o' t)
  then show ?case by (simp add: clip_good_def sender_begin_def)
next
  case (net_offer s r C o' epoch enabled localSeq allocOk t v r')
  then show ?case using good_offer by (auto simp: clip_good_def)
next
  case (net_reply s r C m)
  then show ?case by (auto simp: clip_good_def on_offer_reply_def sender_end_def)
next
  case (net_drop s r C)
  then show ?case by (simp add: clip_good_def sender_end_def)
next
  case (net_ask s r C trigger p r')
  then show ?case using good_ask by (auto simp: clip_good_def)
next
  case (net_serve s r C p t x s')
  then show ?case using served_true [OF net_serve.hyps(2)] by (auto simp: clip_good_def)
next
  case (net_chunk s r C h data t)
  then show ?case using good_chunk by (auto simp: clip_good_def)
next
  case (net_tick s r C t)
  then show ?case by (auto simp: clip_good_def receiver_tick_def intro: good_end)
next
  case (net_cancel s r C tid tag why)
  then show ?case by (auto simp: clip_good_def receiver_cancel_def Let_def good_flags intro: good_end)
next
  case (net_session_end s r C)
  then show ?case by (auto simp: clip_good_def receiver_session_end_def good_flags intro: good_end)
next
  case (net_publish s r C)
  then show ?case by (auto simp: clip_good_def begin_publishing_def receiver_good_def)
next
  case (net_finish s r C st why)
  then show ?case by (auto simp: clip_good_def receiver_finish_def clip_image_state_terminal_def intro!: good_end)
next
  case (net_chunk_size s r C n)
  then show ?case
    by (auto simp: clip_good_def receiver_good_def set_chunk_bytes_def holds_answers_def kClipImageChunkBytes_def
        max_def word_le_nat_alt)
qed


section \<open>A transfer completes\<close>

text \<open>One pull, its answer and the chunk's arrival; nothing where one of them does not happen.\<close>

fun transfer_round :: "u64 \<Rightarrow> clip_receiver \<times> clip_sender \<Rightarrow> clip_receiver \<times> clip_sender" where
  "transfer_round t (r, s) = (case next_pull 0xFFFFFFFF r of None \<Rightarrow> (r, s)
   | Some (p, r) \<Rightarrow> (case on_pull p t s of None \<Rightarrow> (r, s)
     | Some (x, s) \<Rightarrow> (snd (on_chunk (sv_header x) (sv_data x) t r), s)))"

definition in_step :: "bytes \<Rightarrow> clip_receiver \<Rightarrow> clip_sender \<Rightarrow> bool" where
  "in_step src r s \<longleftrightarrow> cr_state r = Pulling \<and> holds_answers src r \<and> cr_outstanding r = [] \<and>
     16384 \<le> unat (cr_chunkBytes r) \<and> unat (cr_chunkBytes r) \<le> 65536 \<and> 0 < unat (cr_pullWindow r) \<and>
     unat (cr_nextOffset r) < length src \<and>
     cs_phase s = PhaseServing \<and> cs_package s = Some src \<and> co_transferId (cs_offer s) = co_transferId (cr_offer r) \<and>
     cs_epochTag s = cr_epochTag r \<and> cs_bulkGen s = cr_bulkGen r"

lemma in_step_round:
  assumes "in_step src r s" and "transfer_round t (r, s) = (r', s')"
  shows "cr_state r' = Verifying \<and> cr_package r' = src \<or>
    in_step src r' s' \<and> unat (cr_nextOffset r) + 16384 \<le> unat (cr_nextOffset r')"
proof -
  have r: "cr_state r = Pulling" "holds_answers src r" "cr_outstanding r = []" "16384 \<le> unat (cr_chunkBytes r)"
    "unat (cr_chunkBytes r) \<le> 65536" "0 < unat (cr_pullWindow r)" "unat (cr_nextOffset r) < length src"
    and s: "cs_phase s = PhaseServing" "cs_package s = Some src" "co_transferId (cs_offer s) = co_transferId (cr_offer r)"
      "cs_epochTag s = cr_epochTag r" "cs_bulkGen s = cr_bulkGen r"
    using assms(1) by (auto simp: in_step_def)
  have len: "length (cr_package r) = length src" "length src < 2 ^ 32" using r(2) by (auto simp: holds_answers_def)
  then have "unat (of_nat (length (cr_package r)) :: u64) = length src" by (simp add: unat_of_nat)
  then have "\<not> of_nat (length (cr_package r)) \<le> cr_nextOffset r" using r(7) by (simp add: word_le_nat_alt)
  then obtain p q where np: "next_pull 0xFFFFFFFF r = Some (p, q)" using r(1,3,6) by (simp add: next_pull_def Let_def)
  note n = holds_next_pull [OF r(2) np r(4)]
  have small: "unat (bp_len p) \<le> 65536" "unat (bp_offset p) + unat (bp_len p) \<le> length src"
    using n(8,9) r(5,7) by simp_all
  have len_ok: "\<not> kClipImageMaxChunkBytes < bp_len p" "bp_len p \<noteq> 0"
    using small(1) n(10) by (auto simp: kClipImageMaxChunkBytes_def word_less_nat_alt)
  have first_pull: "bp_triggerOffset p = 0xFFFFFFFF" using np by (auto simp: next_pull_def Let_def split: if_split_asm)
  have serve: "\<exists>s1. on_pull p t s = Some (\<lparr>sv_header = \<lparr>bc_transferId = co_transferId (cs_offer s), bc_epochTag = cs_epochTag s,
      bc_bulkGen = cs_bulkGen s, bc_offset = bp_offset p, bc_len = bp_len p\<rparr>,
      sv_data = slice src (unat (bp_offset p)) (unat (bp_len p)), sv_completedChunk = False, sv_completedBytes = 0\<rparr>, s1) \<and>
      cs_phase s1 = cs_phase s \<and> cs_package s1 = cs_package s \<and> cs_offer s1 = cs_offer s \<and> cs_epochTag s1 = cs_epochTag s \<and>
      cs_bulkGen s1 = cs_bulkGen s"
    using s n(16-18) small(2) len_ok first_pull
    by (simp add: on_pull_def Let_def)
  define hd' where "hd' = \<lparr>bc_transferId = co_transferId (cs_offer s), bc_epochTag = cs_epochTag s,
      bc_bulkGen = cs_bulkGen s, bc_offset = bp_offset p, bc_len = bp_len p\<rparr>"
  define data where "data = slice src (unat (bp_offset p)) (unat (bp_len p))"
  obtain res where c: "on_chunk hd' data t q = (res, r')"
    and s': "cs_phase s' = cs_phase s" "cs_package s' = cs_package s" "cs_offer s' = cs_offer s" "cs_epochTag s' = cs_epochTag s"
      "cs_bulkGen s' = cs_bulkGen s"
    using assms(2) serve by (cases "on_chunk hd' data t q") (auto simp: np hd'_def data_def)
  have dl: "length data = unat (bp_len p)" using small(2) by (simp add: data_def length_slice)
  have "length (cr_package q) = length src" using n(5) len by simp
  then have "res \<noteq> ChunkDropped"
    using c r(1) n(3) s n(2,7,13,14) small(2) dl len_ok(2) r(3)
    by (auto simp: on_chunk_def hd'_def Let_def split: if_split_asm)
  moreover have "bc_offset hd' = bp_offset p" "bc_len hd' = bp_len p" by (simp_all add: hd'_def)
  moreover note h = holds_on_chunk [OF n(1) c]
  have d: "res \<noteq> ChunkDropped \<Longrightarrow> data = slice src (unat (bc_offset hd')) (unat (bc_len hd'))"
    by (simp add: hd'_def data_def)
  note h = h [OF d]
  consider "cr_state r' = Verifying" "cr_package r' = src" | "cr_state r' = Pulling" "holds_answers src r'"
    using h(1) \<open>res \<noteq> ChunkDropped\<close> by blast
  then show ?thesis
  proof cases
    case 2
    have out: "cr_outstanding r' = []" "unat (cr_nextOffset r') = unat (cr_nextOffset q)"
      using h(2) \<open>res \<noteq> ChunkDropped\<close> n(7) r(3) by (simp_all add: hd'_def)
    have q: "unat (cr_nextOffset q) = unat (cr_nextOffset r) + unat (bp_len p)" by (rule n(11))
    have notyet: "unat (cr_nextOffset r') < length src"
    proof (rule ccontr)
      assume "\<not> ?thesis"
      then have "unat (cr_received r') = length src"
        using 2(2) out(1) by (simp add: holds_answers_def)
      moreover have "length (cr_package r') = length src" using 2(2) by (simp add: holds_answers_def)
      ultimately show False using c 2(1) \<open>res \<noteq> ChunkDropped\<close>
        by (auto simp: on_chunk_def Let_def split: if_split_asm)
    qed
    then have "unat (bp_len p) = unat (cr_chunkBytes r)" using n(9) q out(2) by simp
    then show ?thesis using 2 out q notyet r s s' n(2,4,13,14,15) h(3-8) by (simp add: in_step_def)
  qed blast
qed

lemma transfer_rounds_finish:
  "in_step src r s \<Longrightarrow> length src \<le> unat (cr_nextOffset r) + n * 16384 \<Longrightarrow>
   \<exists>k r' s'. k \<le> n \<and> (transfer_round t ^^ k) (r, s) = (r', s') \<and> cr_state r' = Verifying \<and> cr_package r' = src"
proof (induction n arbitrary: r s)
  case 0
  then show ?case by (simp add: in_step_def)
next
  case (Suc n)
  obtain r1 s1 where step: "transfer_round t (r, s) = (r1, s1)" by fastforce
  from in_step_round [OF Suc.prems(1) step] show ?case
  proof (elim disjE conjE)
    assume "cr_state r1 = Verifying" "cr_package r1 = src"
    then show ?thesis using step by (intro exI [of _ 1] exI [of _ r1] exI [of _ s1]) simp
  next
    assume a: "in_step src r1 s1" "unat (cr_nextOffset r) + 16384 \<le> unat (cr_nextOffset r1)"
    then obtain k r' s' where "k \<le> n" "(transfer_round t ^^ k) (r1, s1) = (r', s')" "cr_state r' = Verifying" "cr_package r' = src"
      using Suc.IH [of r1 s1] Suc.prems(2) by auto
    then show ?thesis using step
      by (intro exI [of _ "Suc k"] exI [of _ r'] exI [of _ s']) (simp add: funpow_Suc_right del: funpow.simps transfer_round.simps)
  qed
qed

text \<open>
  C19. A transfer completes. Once the host has accepted an offer and the viewer has its answer, at most
  one round - a pull, its chunk - per 16 KiB of the package brings the host to verifying exactly the
  package that was offered; with larger chunks, fewer.
\<close>

theorem image_transfer_completes:
  assumes "on_offer o' epoch enabled localSeq allocOk t r = Some (VerdictAccept, r1)"
    and "length package = unat (package_bytes o')"
    and "16384 \<le> unat (cr_chunkBytes r)" and "unat (cr_chunkBytes r) \<le> 65536" and "0 < unat (cr_pullWindow r)"
  shows "\<exists>k r' s'. k \<le> (length package + 16383) div 16384 \<and>
    (transfer_round t' ^^ k) (r1, snd (on_offer_reply (offer_answer o' VerdictAccept r1) (sender_begin package o' t0 s))) = (r', s') \<and>
    cr_state r' = Verifying \<and> cr_package r' = package"
proof -
  have acc: "clip_image_offer_verdict o' = VerdictAccept" and st: "cr_state r1 = Pulling" "cr_offer r1 = o'"
    "cr_package r1 = replicate (unat (package_bytes o')) 0" "cr_received r1 = 0" "cr_nextOffset r1 = 0"
    "cr_outstanding r1 = []" "cr_chunkBytes r1 = cr_chunkBytes r" "cr_pullWindow r1 = cr_pullWindow r"
    using assms(1) by (auto simp: on_offer_def split: if_split_asm)
  have "in_step package r1 (snd (on_offer_reply (offer_answer o' VerdictAccept r1) (sender_begin package o' t0 s)))"
    using st assms(2-5) accepted_offer [OF acc]
    by (simp add: in_step_def holds_answers_def on_offer_reply_def offer_answer_def sender_begin_def)
  moreover have "length package \<le> unat (cr_nextOffset r1) + (length package + 16383) div 16384 * 16384"
    using div_mult_mod_eq [of "length package + 16383" 16384] mod_less_divisor [of 16384 "length package + 16383"]
    unfolding st by simp
  ultimately show ?thesis by (rule transfer_rounds_finish)
qed

section \<open>Witnesses\<close>

lemma round_net:
  assumes "clip_net pkg s r C" and "transfer_round t (r, s) = (r', s')"
  shows "\<exists>C'. clip_net pkg s' r' C'"
proof (cases "next_pull 0xFFFFFFFF r")
  case None
  then show ?thesis using assms by auto
next
  case (Some pr)
  obtain p q where np: "next_pull 0xFFFFFFFF r = Some (p, q)" using Some by (cases pr) simp
  have q: "clip_net pkg s q C" by (rule net_ask [OF assms(1) np])
  show ?thesis
  proof (cases "on_pull p t s")
    case None
    then show ?thesis using assms(2) np q by auto
  next
    case (Some xs)
    obtain x s1 where op: "on_pull p t s = Some (x, s1)" using Some by (cases xs) simp
    have "clip_net pkg s1 (snd (on_chunk (sv_header x) (sv_data x) t q)) (insert (sv_header x, sv_data x) C)"
      by (rule net_chunk [OF net_serve [OF q op]]) simp
    then show ?thesis using assms(2) np op by auto
  qed
qed

lemma rounds_net:
  "clip_net pkg s r C \<Longrightarrow> (transfer_round t ^^ k) (r, s) = (r', s') \<Longrightarrow> \<exists>C'. clip_net pkg s' r' C'"
proof (induction k arbitrary: r s C)
  case (Suc k)
  obtain r1 s1 where step: "transfer_round t (r, s) = (r1, s1)" by fastforce
  obtain C' where "clip_net pkg s1 r1 C'" using round_net [OF Suc.prems(1) step] by blast
  then show ?case using Suc.IH Suc.prems(2) step by (simp add: funpow_Suc_right del: funpow.simps transfer_round.simps)
qed auto

definition example_offer :: clip_image_offer where
  "example_offer = \<lparr>co_transferId = 5, co_revision = 1, co_formats = 1, co_pngBytes = 8, co_textUtf16 = 0,
     co_width = 1, co_height = 1, co_sha256 = replicate 32 0\<rparr>"

definition example_package :: bytes where "example_package = [137, 80, 78, 71, 13, 10, 26, 10]"

lemma example_offer_accepted:
  obtains r1 where "on_offer example_offer 1 True 0 True 0 (receiver_init 7 2) = Some (VerdictAccept, r1)"
    "cr_offer r1 = example_offer"
proof -
  have "clip_image_offer_verdict example_offer = VerdictAccept"
    by (simp add: clip_image_offer_verdict_def clip_image_offer_well_formed_def example_offer_def clip_image_gate_def
        kClipImageFormatPng_def kClipImageFormatText_def kClipImageMaxSide_def kClipImageMaxDecodedBytes_def
        kClipImageMaxPngBytes_def kClipImageMaxTextBytes_def kClipImagePeakBudgetBytes_def kClipImageSlackBytes_def)
  moreover have "remembers [] bulk_gen_init" by (simp add: remembers_def bulk_gen_init_def)
  then obtain g a where "bulk_gen_next bulk_gen_init = Some (g, a)" by (rule bulk_gen_next_remembers)
  ultimately show thesis using that by (simp add: on_offer_def receiver_init_def receiver_active_def)
qed

lemma example_sizes: "length example_package = 8" "unat (package_bytes example_offer) = 8"
  by (simp_all add: example_package_def package_bytes_def example_offer_def)

theorem image_transfer_completes_witness:
  "\<exists>r1 k r' s'. on_offer example_offer 1 True 0 True 0 (receiver_init 7 2) = Some (VerdictAccept, r1) \<and> k \<le> 1 \<and>
    (transfer_round 9 ^^ k) (r1, snd (on_offer_reply (offer_answer example_offer VerdictAccept r1)
       (sender_begin example_package example_offer 0 sender_init))) = (r', s') \<and>
    cr_state r' = Verifying \<and> cr_package r' = example_package"
proof -
  obtain r1 where r1: "on_offer example_offer 1 True 0 True 0 (receiver_init 7 2) = Some (VerdictAccept, r1)"
    by (rule example_offer_accepted)
  have "length example_package = unat (package_bytes example_offer)" by (simp add: example_sizes)
  from image_transfer_completes [OF r1 this, of 9 0 sender_init] r1 show ?thesis
    by (simp add: receiver_init_def kClipImageChunkBytes_def kClipImagePullWindowMax_def example_sizes)
qed


end
