(* ===== verification/FileBytes.thy ===== *)
theory FileBytes
  imports Wire "HOL-Library.Monad_Syntax"
begin

text \<open>
  \<open>ByteWriter\<close> and \<open>ByteReader\<close> of \<open>file_copy_pipe.hpp\<close>, the byte codec of the file copy: every
  field little-endian, strings and blobs behind a 32-bit count. A writer is the bytes it appends; a
  reader takes the bytes not yet read and gives the value and the rest, or nothing once it fails.
  The locale \<open>codec\<close> states what a pair of them promises - the reader accepts exactly what the
  writer writes - and every pair of the codec is an interpretation of it.
\<close>

named_theorems codecs "what a reader accepts is what its writer writes"

lemma guarded_some [codecs]: "(if P then Some x else None) = Some y \<longleftrightarrow> P \<and> x = y"
  by simp

type_synonym 'a reader = "bytes \<Rightarrow> ('a \<times> bytes) option"

section \<open>The contract of a writer and a reader\<close>

text \<open>Reading \<open>n\<close> values, one after the other.\<close>

fun get_n :: "'a reader \<Rightarrow> nat \<Rightarrow> 'a list reader" where
  "get_n get 0 b = Some ([], b)"
| "get_n get (Suc n) b = do { (v, b) \<leftarrow> get b; (vs, b) \<leftarrow> get_n get n b; Some (v # vs, b) }"

locale codec =
  fixes put :: "'a \<Rightarrow> bytes" and get :: "bytes \<Rightarrow> ('a \<times> bytes) option" and ok :: "'a \<Rightarrow> bool"
  assumes reads: "get b = Some (v, r) \<longleftrightarrow> ok v \<and> b = put v @ r"
begin

lemma read_back: "ok v \<Longrightarrow> get (put v @ r) = Some (v, r)"
  by (simp add: reads)

text \<open>No encoding is a proper beginning of another.\<close>

lemma prefix_free: "ok v \<Longrightarrow> ok w \<Longrightarrow> put v @ r = put w @ s \<Longrightarrow> v = w \<and> r = s"
  by (metis read_back option.inject prod.inject)

lemma reads_n: "get_n get n b = Some (vs, r) \<longleftrightarrow> length vs = n \<and> (\<forall>v\<in>set vs. ok v) \<and> b = concat (map put vs) @ r"
proof
  show "get_n get n b = Some (vs, r) \<Longrightarrow> length vs = n \<and> (\<forall>v\<in>set vs. ok v) \<and> b = concat (map put vs) @ r"
  proof (induction n arbitrary: b vs)
    case (Suc n)
    obtain v d ws where one: "get b = Some (v, d)" and rest: "get_n get n d = Some (ws, r)" and vs: "vs = v # ws"
      using Suc.prems by (cases "get b") (auto simp: bind_eq_Some_conv simp del: split_paired_Ex)
    have "ok v \<and> b = put v @ d" using one reads by blast
    with Suc.IH [OF rest] show ?case unfolding vs by auto
  qed simp
  have "(\<forall>v\<in>set vs. ok v) \<Longrightarrow> get_n get (length vs) (concat (map put vs) @ r) = Some (vs, r)"
  proof (induction vs)
    case (Cons v vs)
    have "get (put v @ concat (map put vs) @ r) = Some (v, concat (map put vs) @ r)"
      by (rule read_back) (use Cons.prems in simp)
    then show ?case using Cons by simp
  qed simp
  then show "length vs = n \<and> (\<forall>v\<in>set vs. ok v) \<and> b = concat (map put vs) @ r \<Longrightarrow> get_n get n b = Some (vs, r)"
    by blast
qed

end

section \<open>Numbers\<close>

definition get_le :: "nat \<Rightarrow> nat reader" where
  "get_le n b = (if length b < n then None else Some (le_value (take n b), drop n b))"

definition put_u8 :: "u8 \<Rightarrow> bytes" where "put_u8 v = [v]"
definition put_u16 :: "u16 \<Rightarrow> bytes" where "put_u16 v = le_bytes 2 (unat v)"
definition put_u32 :: "u32 \<Rightarrow> bytes" where "put_u32 v = le_bytes 4 (unat v)"
definition put_u64 :: "u64 \<Rightarrow> bytes" where "put_u64 v = le_bytes 8 (unat v)"

definition get_u8 :: "u8 reader" where "get_u8 b = map_option (apfst of_nat) (get_le 1 b)"
definition get_u16 :: "u16 reader" where "get_u16 b = map_option (apfst of_nat) (get_le 2 b)"
definition get_u32 :: "u32 reader" where "get_u32 b = map_option (apfst of_nat) (get_le 4 b)"
definition get_u64 :: "u64 reader" where "get_u64 b = map_option (apfst of_nat) (get_le 8 b)"

lemma le_value_less: "le_value bs < 256 ^ length bs"
proof (induction bs)
  case (Cons b bs)
  have "le_value (b # bs) \<le> 255 + 256 * (256 ^ length bs - 1)"
    using Cons unat_bounds(1) [of b] by (simp add: mult_le_mono add_mono)
  also have "\<dots> < 256 ^ length (b # bs)" using one_le_power [of "256 :: nat" "length bs"] by (cases "256 ^ length bs :: nat") simp_all
  finally show ?case .
qed simp

lemma le_bytes_le_value: "le_bytes (length bs) (le_value bs) = bs"
proof (induction bs)
  case (Cons b bs)
  have "(unat b + 256 * le_value bs) mod 256 = unat b" "(unat b + 256 * le_value bs) div 256 = le_value bs"
    using unat_bounds(1) [of b] by simp_all
  with Cons show ?case by simp
qed simp

lemma get_le_exact: "get_le n b = Some (v, r) \<longleftrightarrow> v < 256 ^ n \<and> b = le_bytes n v @ r"
proof
  assume "get_le n b = Some (v, r)"
  then have n: "n \<le> length b" and v: "v = le_value (take n b)" "r = drop n b" by (auto simp: get_le_def split: if_splits)
  then have "le_bytes n v = take n b" using le_bytes_le_value [of "take n b"] by simp
  then show "v < 256 ^ n \<and> b = le_bytes n v @ r" using n v le_value_less [of "take n b"] by simp
next
  assume "v < 256 ^ n \<and> b = le_bytes n v @ r"
  then show "get_le n b = Some (v, r)" by (simp add: get_le_def le_value_le_bytes)
qed

lemma get_word_exact:
  assumes "(256 :: nat) ^ n = 2 ^ LENGTH('a :: len)"
  shows "map_option (apfst (of_nat :: nat \<Rightarrow> 'a word)) (get_le n b) = Some (v, r) \<longleftrightarrow> b = le_bytes n (unat v) @ r"
proof
  assume "map_option (apfst (of_nat :: nat \<Rightarrow> 'a word)) (get_le n b) = Some (v, r)"
  then obtain k where k: "get_le n b = Some (k, r)" "v = of_nat k" by auto
  then show "b = le_bytes n (unat v) @ r" using assms by (simp add: get_le_exact unat_of_nat)
next
  assume b: "b = le_bytes n (unat v) @ r"
  have "get_le n b = Some (unat v, r)" using unsigned_less [of v] assms b by (simp add: get_le_exact)
  then show "map_option (apfst (of_nat :: nat \<Rightarrow> 'a word)) (get_le n b) = Some (v, r)" by simp
qed

lemma le_bytes_byte: "le_bytes 1 (unat (v :: u8)) = [v]"
  using le_bytes_le_value [of "[v]"] by simp

interpretation u8_codec: codec put_u8 get_u8 "\<lambda>_. True"
  by unfold_locales (use get_word_exact [where 'a = 8 and n = 1] in \<open>simp only: put_u8_def get_u8_def flip: le_bytes_byte, simp\<close>)

interpretation u16_codec: codec put_u16 get_u16 "\<lambda>_. True"
  by unfold_locales (use get_word_exact [where 'a = 16 and n = 2] in \<open>simp add: put_u16_def get_u16_def\<close>)

interpretation u32_codec: codec put_u32 get_u32 "\<lambda>_. True"
  by unfold_locales (use get_word_exact [where 'a = 32 and n = 4] in \<open>simp add: put_u32_def get_u32_def\<close>)

interpretation u64_codec: codec put_u64 get_u64 "\<lambda>_. True"
  by unfold_locales (use get_word_exact [where 'a = 64 and n = 8] in \<open>simp add: put_u64_def get_u64_def\<close>)

lemmas number_codecs [codecs] = u8_codec.reads u16_codec.reads u32_codec.reads u64_codec.reads

lemma length_put [simp]:
  "length (put_u8 a) = 1" "length (put_u16 b) = 2" "length (put_u32 c) = 4" "length (put_u64 d) = 8"
  by (simp_all add: put_u8_def put_u16_def put_u32_def put_u64_def)

section \<open>Raw bytes, strings and blobs\<close>

definition get_bytes :: "nat \<Rightarrow> bytes reader" where
  "get_bytes n b = (if length b < n then None else Some (take n b, drop n b))"

interpretation bytes_codec: codec "\<lambda>v. v" "get_bytes n" "\<lambda>v. length v = n" for n
  by unfold_locales (auto simp: get_bytes_def)

type_synonym u16string = "u16 list"

definition put_str16 :: "u16string \<Rightarrow> bytes" where
  "put_str16 s = put_u32 (of_nat (length s)) @ concat (map put_u16 s)"

definition get_str16 :: "u32 \<Rightarrow> u16string reader" where
  "get_str16 maxUnits b = do { (count, b) \<leftarrow> get_u32 b;
     if maxUnits < count \<or> length b < unat count * 2 then None else get_n get_u16 (unat count) b }"

definition put_blob :: "bytes \<Rightarrow> bytes" where
  "put_blob v = put_u32 (of_nat (length v)) @ v"

definition get_blob :: "u32 \<Rightarrow> bytes reader" where
  "get_blob maxBytes b = do { (count, b) \<leftarrow> get_u32 b;
     if maxBytes < count \<or> length b < unat count then None else Some (take (unat count) b, drop (unat count) b) }"

lemma length_units [simp]: "length (concat (map put_u16 s)) = 2 * length s"
  by (induction s) auto

lemma count_exact: "n \<le> unat (m :: u32) \<Longrightarrow> unat (of_nat n :: u32) = n"
  using unat_bounds(3) [of m] by (simp add: unat_of_nat)

lemma get_str16_exact: "get_str16 m b = Some (s, r) \<longleftrightarrow> length s \<le> unat m \<and> b = put_str16 s @ r"
proof
  assume "get_str16 m b = Some (s, r)"
  then obtain c d where "get_u32 b = Some (c, d)" "\<not> m < c" "get_n get_u16 (unat c) d = Some (s, r)"
    by (auto simp: get_str16_def bind_eq_Some_conv split: if_splits)
  then show "length s \<le> unat m \<and> b = put_str16 s @ r"
    by (auto simp: codecs u16_codec.reads_n put_str16_def word_le_nat_alt not_less)
next
  assume s: "length s \<le> unat m \<and> b = put_str16 s @ r"
  then have c: "unat (of_nat (length s) :: u32) = length s" by (intro count_exact) blast
  have "get_u32 b = Some (of_nat (length s), concat (map put_u16 s) @ r)" using s by (simp add: codecs put_str16_def)
  moreover have "get_n get_u16 (length s) (concat (map put_u16 s) @ r) = Some (s, r)" by (simp add: u16_codec.reads_n)
  ultimately show "get_str16 m b = Some (s, r)" using s c by (simp add: get_str16_def word_less_nat_alt)
qed

interpretation str16_codec: codec put_str16 "get_str16 m" "\<lambda>s. length s \<le> unat m" for m
  by unfold_locales (rule get_str16_exact)

lemma get_blob_exact: "get_blob m b = Some (v, r) \<longleftrightarrow> length v \<le> unat m \<and> b = put_blob v @ r"
proof
  assume "get_blob m b = Some (v, r)"
  then obtain c d where "get_u32 b = Some (c, d)" "\<not> m < c" "unat c \<le> length d" "v = take (unat c) d" "r = drop (unat c) d"
    by (auto simp: get_blob_def bind_eq_Some_conv split: if_splits)
  then show "length v \<le> unat m \<and> b = put_blob v @ r"
    by (auto simp: codecs put_blob_def word_le_nat_alt not_less min_def)
next
  assume v: "length v \<le> unat m \<and> b = put_blob v @ r"
  then have c: "unat (of_nat (length v) :: u32) = length v" by (intro count_exact) blast
  have "get_u32 b = Some (of_nat (length v), v @ r)" using v by (simp add: codecs put_blob_def)
  then show "get_blob m b = Some (v, r)" using v c by (simp add: get_blob_def word_less_nat_alt)
qed

interpretation blob_codec: codec put_blob "get_blob m" "\<lambda>v. length v \<le> unat m" for m
  by unfold_locales (rule get_blob_exact)

lemmas run_codecs [codecs] = bytes_codec.reads str16_codec.reads blob_codec.reads

lemma length_put_str16 [simp]: "length (put_str16 s) = 4 + 2 * length s"
  by (simp add: put_str16_def)

lemma length_put_blob [simp]: "length (put_blob v) = 4 + length v"
  by (simp add: put_blob_def)

section \<open>Lists behind a count\<close>

definition put_list :: "('a \<Rightarrow> bytes) \<Rightarrow> 'a list \<Rightarrow> bytes" where
  "put_list put vs = put_u32 (of_nat (length vs)) @ concat (map put vs)"

definition get_list :: "'a reader \<Rightarrow> u32 \<Rightarrow> 'a list reader" where
  "get_list get maxCount b = do { (n, b) \<leftarrow> get_u32 b; if maxCount < n then None else get_n get (unat n) b }"

context codec
begin

lemma reads_list:
  "get_list get m b = Some (vs, r) \<longleftrightarrow> (length vs \<le> unat m \<and> (\<forall>v\<in>set vs. ok v)) \<and> b = put_list put vs @ r"
proof
  assume "get_list get m b = Some (vs, r)"
  then obtain c d where "get_u32 b = Some (c, d)" "\<not> m < c" "get_n get (unat c) d = Some (vs, r)"
    by (auto simp: get_list_def bind_eq_Some_conv split: if_splits)
  then show "(length vs \<le> unat m \<and> (\<forall>v\<in>set vs. ok v)) \<and> b = put_list put vs @ r"
    by (auto simp: codecs reads_n put_list_def word_le_nat_alt not_less)
next
  assume a: "(length vs \<le> unat m \<and> (\<forall>v\<in>set vs. ok v)) \<and> b = put_list put vs @ r"
  then have c: "unat (of_nat (length vs) :: u32) = length vs" by (intro count_exact) blast
  have "get_u32 b = Some (of_nat (length vs), concat (map put vs) @ r)" using a by (simp add: codecs put_list_def)
  moreover have "get_n get (length vs) (concat (map put vs) @ r) = Some (vs, r)" using a by (simp add: reads_n)
  ultimately show "get_list get m b = Some (vs, r)" using a c by (simp add: get_list_def word_less_nat_alt)
qed

text \<open>Encodings of at most \<open>k\<close> bytes each.\<close>

lemma length_put_list: "(\<And>v. v \<in> set vs \<Longrightarrow> length (put v) \<le> k) \<Longrightarrow> length (put_list put vs) \<le> 4 + length vs * k"
  by (induction vs) (auto simp: put_list_def length_concat add_mono)

end

section \<open>Values out of a closed set\<close>

text \<open>An enumeration in one byte: its values by their numbers, from zero.\<close>

definition get_enum :: "'a list \<Rightarrow> 'a reader" where
  "get_enum es b = do { (v, b) \<leftarrow> get_u8 b; if length es \<le> unat v then None else Some (es ! unat v, b) }"

definition enum_code :: "'a list \<Rightarrow> 'a \<Rightarrow> u8" where
  "enum_code es e = of_nat (length (takeWhile (\<lambda>x. x \<noteq> e) es))"

locale enumeration =
  fixes es :: "'a list"
  assumes distinct: "distinct es" and complete: "set es = UNIV" and small: "length es \<le> 256"
begin

lemma position: "length (takeWhile (\<lambda>x. x \<noteq> e) es) < length es \<and> es ! length (takeWhile (\<lambda>x. x \<noteq> e) es) = e"
proof -
  have "e \<in> set es" using complete by simp
  then have "length (takeWhile (\<lambda>x. x \<noteq> e) es) < length es"
    using length_takeWhile_le [of "\<lambda>x. x \<noteq> e" es] takeWhile_eq_take [of "\<lambda>x. x \<noteq> e" es]
      takeWhile_eq_all_conv [of "\<lambda>x. x \<noteq> e" es] by fastforce
  then show ?thesis using nth_length_takeWhile [of "\<lambda>x. x \<noteq> e" es] by simp
qed

lemma code_value: "unat (enum_code es e) = length (takeWhile (\<lambda>x. x \<noteq> e) es)"
  using position [of e] small by (simp add: enum_code_def unat_of_nat)

lemma exact: "get_enum es b = Some (e, r) \<longleftrightarrow> True \<and> b = put_u8 (enum_code es e) @ r"
proof
  assume "get_enum es b = Some (e, r)"
  then obtain v where v: "get_u8 b = Some (v, r)" "unat v < length es" "e = es ! unat v"
    by (auto simp: get_enum_def bind_eq_Some_conv not_le split: if_splits)
  have "unat (enum_code es e) = unat v"
    using position [of e] v nth_eq_iff_index_eq [OF distinct] code_value by metis
  then have "enum_code es e = v" by (simp add: word_unat_eq_iff)
  then show "True \<and> b = put_u8 (enum_code es e) @ r" using v by (simp add: codecs)
next
  assume "True \<and> b = put_u8 (enum_code es e) @ r"
  then have "get_u8 b = Some (enum_code es e, r)" by (simp add: codecs)
  then show "get_enum es b = Some (e, r)" using position [of e] code_value by (simp add: get_enum_def)
qed

end

sublocale enumeration \<subseteq> codec "\<lambda>e. put_u8 (enum_code es e)" "get_enum es" "\<lambda>_. True"
  by unfold_locales (rule exact)

end
