(* ===== verification/FilePipe.thy ===== *)
theory FilePipe
  imports FileBytes
begin

text \<open>
  \<open>file_copy_pipe.hpp\<close>: the messages between the host and the clipboard helper, their frames, the
  names a file may carry and the hexadecimal digits of the pipe's name. A message is a record; what
  its reader accepts is exactly what its writer writes, within the bounds the reader checks. A status
  or a reason off the wire is any 16-bit number, as in the code. The answers are plain values: what a
  failed decode leaves in its output parameter is not modelled.
\<close>

section \<open>Bounds\<close>

definition kPipeMagic :: u32 where "kPipeMagic = 0x504C4347"
definition kPipeVersion :: u16 where "kPipeVersion = 2"
definition kFrameHeaderBytes :: nat where "kFrameHeaderBytes = 16"
definition kNonceBytes :: nat where "kNonceBytes = 32"
definition kMaxFiles :: u32 where "kMaxFiles = 100"
definition kMaxChunkBytes :: u32 where "kMaxChunkBytes = 256 * 1024"
definition kMaxPayloadBytes :: u32 where "kMaxPayloadBytes = kMaxChunkBytes + 512"
definition kMaxPathUnits :: u32 where "kMaxPathUnits = 32767"
definition kMaxNameUnits :: u32 where "kMaxNameUnits = 259"
definition kMaxStatCount :: u32 where "kMaxStatCount = kMaxFiles"

datatype pipe_msg = PHello | PHelloAck | PShutdown | PPublishRemoteFiles | PPublishRemoteFilesIfUnchanged
  | PClearRemoteFiles | PPasteBegin | PPasteDescriptor | PReadRequest | PReadData | PPasteEnd | PPublishResult
  | PStatFiles | PStats | PPin | PPinResult | PReadLocal | PLocalData | PUnpin | PUnpinned

fun pipe_msg_code :: "pipe_msg \<Rightarrow> u16" where
  "pipe_msg_code PHello = 1"
| "pipe_msg_code PHelloAck = 2"
| "pipe_msg_code PShutdown = 3"
| "pipe_msg_code PPublishRemoteFiles = 10"
| "pipe_msg_code PPublishRemoteFilesIfUnchanged = 18"
| "pipe_msg_code PClearRemoteFiles = 11"
| "pipe_msg_code PPasteBegin = 12"
| "pipe_msg_code PPasteDescriptor = 13"
| "pipe_msg_code PReadRequest = 14"
| "pipe_msg_code PReadData = 15"
| "pipe_msg_code PPasteEnd = 16"
| "pipe_msg_code PPublishResult = 17"
| "pipe_msg_code PStatFiles = 20"
| "pipe_msg_code PStats = 21"
| "pipe_msg_code PPin = 22"
| "pipe_msg_code PPinResult = 23"
| "pipe_msg_code PReadLocal = 24"
| "pipe_msg_code PLocalData = 25"
| "pipe_msg_code PUnpin = 26"
| "pipe_msg_code PUnpinned = 27"

text \<open>The outcomes the modelled code names; \<open>Status\<close> is a number of 16 bits on the wire.\<close>

type_synonym file_status = u16

definition StatusOk :: file_status where "StatusOk = 0"
definition StatusUnknownId :: file_status where "StatusUnknownId = 9"
definition StatusReadError :: file_status where "StatusReadError = 10"
definition StatusAborted :: file_status where "StatusAborted = 13"
definition StatusTimeout :: file_status where "StatusTimeout = 14"
definition StatusBadRequest :: file_status where "StatusBadRequest = 16"

section \<open>Frames\<close>

record pipe_frame =
  pf_type :: u16
  pf_payload :: bytes

definition encode_frame :: "pipe_frame \<Rightarrow> bytes option" where
  "encode_frame f = (if unat kMaxPayloadBytes < length (pf_payload f) then None
     else Some (put_u32 kPipeMagic @ put_u32 (of_nat (length (pf_payload f))) @ put_u16 (pf_type f) @
       put_u16 kPipeVersion @ put_u32 0 @ pf_payload f))"

definition decode_frame_header :: "bytes \<Rightarrow> (u16 \<times> u32) option" where
  "decode_frame_header b = do { (magic, b) \<leftarrow> get_u32 b; (len, b) \<leftarrow> get_u32 b; (t, b) \<leftarrow> get_u16 b;
     (version, b) \<leftarrow> get_u16 b; (reserved, b) \<leftarrow> get_u32 b;
     if magic \<noteq> kPipeMagic \<or> version \<noteq> kPipeVersion \<or> kMaxPayloadBytes < len then None else Some (t, len) }"

text \<open>The reader's end of a message: nothing may be left over.\<close>

definition parse_all :: "'a reader \<Rightarrow> bytes \<Rightarrow> 'a option" where
  "parse_all get b = do { (v, b) \<leftarrow> get b; if b = [] then Some v else None }"

definition pipe_encode :: "pipe_msg \<Rightarrow> ('a \<Rightarrow> bytes) \<Rightarrow> 'a \<Rightarrow> pipe_frame" where
  "pipe_encode t put m = \<lparr>pf_type = pipe_msg_code t, pf_payload = put m\<rparr>"

definition pipe_decode :: "pipe_msg \<Rightarrow> 'a reader \<Rightarrow> pipe_frame \<Rightarrow> 'a option" where
  "pipe_decode t get f = (if pf_type f \<noteq> pipe_msg_code t then None else parse_all get (pf_payload f))"

definition encode_hello_ack :: pipe_frame where "encode_hello_ack = \<lparr>pf_type = pipe_msg_code PHelloAck, pf_payload = []\<rparr>"
definition encode_shutdown :: pipe_frame where "encode_shutdown = \<lparr>pf_type = pipe_msg_code PShutdown, pf_payload = []\<rparr>"

context codec
begin

lemma parses: "parse_all get b = Some v \<longleftrightarrow> ok v \<and> b = put v"
proof
  assume "parse_all get b = Some v"
  then have "get b = Some (v, [])" by (auto simp: parse_all_def bind_eq_Some_conv split: if_splits)
  then show "ok v \<and> b = put v" by (simp add: reads)
next
  assume "ok v \<and> b = put v"
  then have "get b = Some (v, [])" by (simp add: reads)
  then show "parse_all get b = Some v" by (simp add: parse_all_def)
qed

lemma pipe_exact: "pipe_decode t get f = Some v \<longleftrightarrow> ok v \<and> f = pipe_encode t put v"
  by (cases f) (auto simp: pipe_decode_def pipe_encode_def parses)

end

section \<open>Entries of lists\<close>

record file_id =
  fi_volumeSerial :: u64
  fi_id :: bytes

definition put_file_id :: "file_id \<Rightarrow> bytes" where
  "put_file_id m = put_u64 (fi_volumeSerial m) @ fi_id m"

definition get_file_id :: "file_id reader" where
  "get_file_id b = do {
     (volumeSerial, b) \<leftarrow> get_u64 b;
     (id, b) \<leftarrow> get_bytes 16 b;
     Some (\<lparr>fi_volumeSerial = volumeSerial, fi_id = id\<rparr>, b) }"

definition file_id_ok :: "file_id \<Rightarrow> bool" where
  "file_id_ok m \<longleftrightarrow> length (fi_id m) = 16"

lemma file_id_exact [codecs]:
  "get_file_id b = Some (v, r) \<longleftrightarrow> file_id_ok v \<and> b = put_file_id v @ r"
  by (cases v) (auto simp: get_file_id_def put_file_id_def file_id_ok_def codecs bind_eq_Some_conv)

interpretation file_id_codec: codec put_file_id get_file_id file_id_ok
  by unfold_locales (rule file_id_exact)

record remote_file_item =
  rf_name :: u16string
  rf_size :: u64
  rf_mtime :: u64
  rf_attributes :: u32

definition put_remote_file_item :: "remote_file_item \<Rightarrow> bytes" where
  "put_remote_file_item m = put_str16 (rf_name m) @ put_u64 (rf_size m) @ put_u64 (rf_mtime m) @
     put_u32 (rf_attributes m)"

definition get_remote_file_item :: "remote_file_item reader" where
  "get_remote_file_item b = do {
     (name, b) \<leftarrow> get_str16 kMaxNameUnits b;
     (size, b) \<leftarrow> get_u64 b;
     (mtime, b) \<leftarrow> get_u64 b;
     (attributes, b) \<leftarrow> get_u32 b;
     Some (\<lparr>rf_name = name, rf_size = size, rf_mtime = mtime, rf_attributes = attributes\<rparr>, b) }"

definition remote_file_item_ok :: "remote_file_item \<Rightarrow> bool" where
  "remote_file_item_ok m \<longleftrightarrow> length (rf_name m) \<le> unat kMaxNameUnits"

lemma remote_file_item_exact [codecs]:
  "get_remote_file_item b = Some (v, r) \<longleftrightarrow> remote_file_item_ok v \<and> b = put_remote_file_item v @ r"
  by (cases v) (auto simp: get_remote_file_item_def put_remote_file_item_def remote_file_item_ok_def codecs bind_eq_Some_conv)

interpretation remote_file_item_codec: codec put_remote_file_item get_remote_file_item remote_file_item_ok
  by unfold_locales (rule remote_file_item_exact)

record stat_entry =
  se_status :: u16
  se_id :: file_id
  se_size :: u64
  se_mtime :: u64
  se_attributes :: u32
  se_name :: u16string

definition put_stat_entry :: "stat_entry \<Rightarrow> bytes" where
  "put_stat_entry m = put_u16 (se_status m) @ put_file_id (se_id m) @ put_u64 (se_size m) @
     put_u64 (se_mtime m) @ put_u32 (se_attributes m) @ put_str16 (se_name m)"

definition get_stat_entry :: "stat_entry reader" where
  "get_stat_entry b = do {
     (status, b) \<leftarrow> get_u16 b;
     (id, b) \<leftarrow> get_file_id b;
     (size, b) \<leftarrow> get_u64 b;
     (mtime, b) \<leftarrow> get_u64 b;
     (attributes, b) \<leftarrow> get_u32 b;
     (name, b) \<leftarrow> get_str16 kMaxNameUnits b;
     Some (\<lparr>se_status = status, se_id = id, se_size = size, se_mtime = mtime, se_attributes = attributes,
       se_name = name\<rparr>, b) }"

definition stat_entry_ok :: "stat_entry \<Rightarrow> bool" where
  "stat_entry_ok m \<longleftrightarrow> file_id_ok (se_id m) \<and>
     length (se_name m) \<le> unat kMaxNameUnits"

lemma stat_entry_exact [codecs]:
  "get_stat_entry b = Some (v, r) \<longleftrightarrow> stat_entry_ok v \<and> b = put_stat_entry v @ r"
  by (cases v) (auto simp: get_stat_entry_def put_stat_entry_def stat_entry_ok_def codecs bind_eq_Some_conv)

interpretation stat_entry_codec: codec put_stat_entry get_stat_entry stat_entry_ok
  by unfold_locales (rule stat_entry_exact)

record pin_request_entry =
  pq_path :: u16string
  pq_expectedId :: file_id
  pq_expectedSize :: u64
  pq_expectedMtime :: u64

definition put_pin_request_entry :: "pin_request_entry \<Rightarrow> bytes" where
  "put_pin_request_entry m = put_str16 (pq_path m) @ put_file_id (pq_expectedId m) @
     put_u64 (pq_expectedSize m) @ put_u64 (pq_expectedMtime m)"

definition get_pin_request_entry :: "pin_request_entry reader" where
  "get_pin_request_entry b = do {
     (path, b) \<leftarrow> get_str16 kMaxPathUnits b;
     (expectedId, b) \<leftarrow> get_file_id b;
     (expectedSize, b) \<leftarrow> get_u64 b;
     (expectedMtime, b) \<leftarrow> get_u64 b;
     Some (\<lparr>pq_path = path, pq_expectedId = expectedId, pq_expectedSize = expectedSize,
       pq_expectedMtime = expectedMtime\<rparr>, b) }"

definition pin_request_entry_ok :: "pin_request_entry \<Rightarrow> bool" where
  "pin_request_entry_ok m \<longleftrightarrow> length (pq_path m) \<le> unat kMaxPathUnits \<and>
     file_id_ok (pq_expectedId m)"

lemma pin_request_entry_exact [codecs]:
  "get_pin_request_entry b = Some (v, r) \<longleftrightarrow> pin_request_entry_ok v \<and> b = put_pin_request_entry v @ r"
  by (cases v) (auto simp: get_pin_request_entry_def put_pin_request_entry_def pin_request_entry_ok_def codecs bind_eq_Some_conv)

interpretation pin_request_entry_codec: codec put_pin_request_entry get_pin_request_entry pin_request_entry_ok
  by unfold_locales (rule pin_request_entry_exact)

record pin_result_entry =
  pr_status :: u16
  pr_id :: file_id
  pr_size :: u64
  pr_mtime :: u64

definition put_pin_result_entry :: "pin_result_entry \<Rightarrow> bytes" where
  "put_pin_result_entry m = put_u16 (pr_status m) @ put_file_id (pr_id m) @ put_u64 (pr_size m) @
     put_u64 (pr_mtime m)"

definition get_pin_result_entry :: "pin_result_entry reader" where
  "get_pin_result_entry b = do {
     (status, b) \<leftarrow> get_u16 b;
     (id, b) \<leftarrow> get_file_id b;
     (size, b) \<leftarrow> get_u64 b;
     (mtime, b) \<leftarrow> get_u64 b;
     Some (\<lparr>pr_status = status, pr_id = id, pr_size = size, pr_mtime = mtime\<rparr>, b) }"

definition pin_result_entry_ok :: "pin_result_entry \<Rightarrow> bool" where
  "pin_result_entry_ok m \<longleftrightarrow> file_id_ok (pr_id m)"

lemma pin_result_entry_exact [codecs]:
  "get_pin_result_entry b = Some (v, r) \<longleftrightarrow> pin_result_entry_ok v \<and> b = put_pin_result_entry v @ r"
  by (cases v) (auto simp: get_pin_result_entry_def put_pin_result_entry_def pin_result_entry_ok_def codecs bind_eq_Some_conv)

interpretation pin_result_entry_codec: codec put_pin_result_entry get_pin_result_entry pin_result_entry_ok
  by unfold_locales (rule pin_result_entry_exact)

section \<open>Messages\<close>

lemmas entry_lists [codecs] = remote_file_item_codec.reads_list stat_entry_codec.reads_list pin_request_entry_codec.reads_list
  pin_result_entry_codec.reads_list str16_codec.reads_list

record pipe_hello =
  ph_nonce :: bytes
  ph_pid :: u32
  ph_version :: u16

definition put_pipe_hello :: "pipe_hello \<Rightarrow> bytes" where
  "put_pipe_hello m = ph_nonce m @ put_u32 (ph_pid m) @ put_u16 (ph_version m)"

definition get_pipe_hello :: "pipe_hello reader" where
  "get_pipe_hello b = do {
     (nonce, b) \<leftarrow> get_bytes kNonceBytes b;
     (pid, b) \<leftarrow> get_u32 b;
     (version, b) \<leftarrow> get_u16 b;
     Some (\<lparr>ph_nonce = nonce, ph_pid = pid, ph_version = version\<rparr>, b) }"

definition pipe_hello_ok :: "pipe_hello \<Rightarrow> bool" where
  "pipe_hello_ok m \<longleftrightarrow> length (ph_nonce m) = kNonceBytes"

lemma pipe_hello_exact [codecs]:
  "get_pipe_hello b = Some (v, r) \<longleftrightarrow> pipe_hello_ok v \<and> b = put_pipe_hello v @ r"
  by (cases v) (auto simp: get_pipe_hello_def put_pipe_hello_def pipe_hello_ok_def codecs bind_eq_Some_conv)

interpretation pipe_hello_codec: codec put_pipe_hello get_pipe_hello pipe_hello_ok
  by unfold_locales (rule pipe_hello_exact)

record publish_result =
  pu_offerId :: u64
  pu_status :: u16
  pu_count :: u32

definition put_publish_result :: "publish_result \<Rightarrow> bytes" where
  "put_publish_result m = put_u64 (pu_offerId m) @ put_u16 (pu_status m) @ put_u32 (pu_count m)"

definition get_publish_result :: "publish_result reader" where
  "get_publish_result b = do {
     (offerId, b) \<leftarrow> get_u64 b;
     (status, b) \<leftarrow> get_u16 b;
     (count, b) \<leftarrow> get_u32 b;
     Some (\<lparr>pu_offerId = offerId, pu_status = status, pu_count = count\<rparr>, b) }"

lemma publish_result_exact [codecs]:
  "get_publish_result b = Some (v, r) \<longleftrightarrow> True \<and> b = put_publish_result v @ r"
  by (cases v) (auto simp: get_publish_result_def put_publish_result_def codecs bind_eq_Some_conv)

interpretation publish_result_codec: codec put_publish_result get_publish_result "\<lambda>_. True"
  by unfold_locales (rule publish_result_exact)

record clear_remote_files =
  cl_offerId :: u64

definition put_clear_remote_files :: "clear_remote_files \<Rightarrow> bytes" where
  "put_clear_remote_files m = put_u64 (cl_offerId m)"

definition get_clear_remote_files :: "clear_remote_files reader" where
  "get_clear_remote_files b = do {
     (offerId, b) \<leftarrow> get_u64 b;
     Some (\<lparr>cl_offerId = offerId\<rparr>, b) }"

lemma clear_remote_files_exact [codecs]:
  "get_clear_remote_files b = Some (v, r) \<longleftrightarrow> True \<and> b = put_clear_remote_files v @ r"
  by (cases v) (auto simp: get_clear_remote_files_def put_clear_remote_files_def codecs bind_eq_Some_conv)

interpretation clear_remote_files_codec: codec put_clear_remote_files get_clear_remote_files "\<lambda>_. True"
  by unfold_locales (rule clear_remote_files_exact)

record paste_begin =
  pb_offerId :: u64
  pb_pasteOp :: u64

definition put_paste_begin :: "paste_begin \<Rightarrow> bytes" where
  "put_paste_begin m = put_u64 (pb_offerId m) @ put_u64 (pb_pasteOp m)"

definition get_paste_begin :: "paste_begin reader" where
  "get_paste_begin b = do {
     (offerId, b) \<leftarrow> get_u64 b;
     (pasteOp, b) \<leftarrow> get_u64 b;
     Some (\<lparr>pb_offerId = offerId, pb_pasteOp = pasteOp\<rparr>, b) }"

lemma paste_begin_exact [codecs]:
  "get_paste_begin b = Some (v, r) \<longleftrightarrow> True \<and> b = put_paste_begin v @ r"
  by (cases v) (auto simp: get_paste_begin_def put_paste_begin_def codecs bind_eq_Some_conv)

interpretation paste_begin_codec: codec put_paste_begin get_paste_begin "\<lambda>_. True"
  by unfold_locales (rule paste_begin_exact)

record paste_descriptor =
  pd_offerId :: u64
  pd_pasteOp :: u64
  pd_status :: u16
  pd_items :: "remote_file_item list"

definition put_paste_descriptor :: "paste_descriptor \<Rightarrow> bytes" where
  "put_paste_descriptor m = put_u64 (pd_offerId m) @ put_u64 (pd_pasteOp m) @ put_u16 (pd_status m) @
     put_list put_remote_file_item (pd_items m)"

definition get_paste_descriptor :: "paste_descriptor reader" where
  "get_paste_descriptor b = do {
     (offerId, b) \<leftarrow> get_u64 b;
     (pasteOp, b) \<leftarrow> get_u64 b;
     (status, b) \<leftarrow> get_u16 b;
     (items, b) \<leftarrow> get_list (get_remote_file_item) kMaxFiles b;
     Some (\<lparr>pd_offerId = offerId, pd_pasteOp = pasteOp, pd_status = status, pd_items = items\<rparr>, b) }"

definition paste_descriptor_ok :: "paste_descriptor \<Rightarrow> bool" where
  "paste_descriptor_ok m \<longleftrightarrow> length (pd_items m) \<le> unat kMaxFiles \<and> (\<forall>v\<in>set (pd_items m). remote_file_item_ok v)"

lemma paste_descriptor_exact [codecs]:
  "get_paste_descriptor b = Some (v, r) \<longleftrightarrow> paste_descriptor_ok v \<and> b = put_paste_descriptor v @ r"
  by (cases v) (auto simp: get_paste_descriptor_def put_paste_descriptor_def paste_descriptor_ok_def codecs bind_eq_Some_conv)

interpretation paste_descriptor_codec: codec put_paste_descriptor get_paste_descriptor paste_descriptor_ok
  by unfold_locales (rule paste_descriptor_exact)

record read_request =
  rq_offerId :: u64
  rq_pasteOp :: u64
  rq_fileIndex :: u32
  rq_offset :: u64
  rq_len :: u32

definition put_read_request :: "read_request \<Rightarrow> bytes" where
  "put_read_request m = put_u64 (rq_offerId m) @ put_u64 (rq_pasteOp m) @ put_u32 (rq_fileIndex m) @
     put_u64 (rq_offset m) @ put_u32 (rq_len m)"

definition get_read_request :: "read_request reader" where
  "get_read_request b = do {
     (offerId, b) \<leftarrow> get_u64 b;
     (pasteOp, b) \<leftarrow> get_u64 b;
     (fileIndex, b) \<leftarrow> get_u32 b;
     (offset, b) \<leftarrow> get_u64 b;
     (len, b) \<leftarrow> get_u32 b;
     if len \<le> kMaxChunkBytes then Some (\<lparr>rq_offerId = offerId, rq_pasteOp = pasteOp, rq_fileIndex = fileIndex, rq_offset = offset,
       rq_len = len\<rparr>, b) else None }"

definition read_request_ok :: "read_request \<Rightarrow> bool" where
  "read_request_ok m \<longleftrightarrow> rq_len m \<le> kMaxChunkBytes"

lemma read_request_exact [codecs]:
  "get_read_request b = Some (v, r) \<longleftrightarrow> read_request_ok v \<and> b = put_read_request v @ r"
  by (cases v) (auto simp: get_read_request_def put_read_request_def read_request_ok_def codecs bind_eq_Some_conv)

interpretation read_request_codec: codec put_read_request get_read_request read_request_ok
  by unfold_locales (rule read_request_exact)

record read_data =
  rd_offerId :: u64
  rd_pasteOp :: u64
  rd_fileIndex :: u32
  rd_offset :: u64
  rd_status :: u16
  rd_data :: bytes

definition put_read_data :: "read_data \<Rightarrow> bytes" where
  "put_read_data m = put_u64 (rd_offerId m) @ put_u64 (rd_pasteOp m) @ put_u32 (rd_fileIndex m) @
     put_u64 (rd_offset m) @ put_u16 (rd_status m) @ put_blob (rd_data m)"

definition get_read_data :: "read_data reader" where
  "get_read_data b = do {
     (offerId, b) \<leftarrow> get_u64 b;
     (pasteOp, b) \<leftarrow> get_u64 b;
     (fileIndex, b) \<leftarrow> get_u32 b;
     (offset, b) \<leftarrow> get_u64 b;
     (status, b) \<leftarrow> get_u16 b;
     (data, b) \<leftarrow> get_blob kMaxChunkBytes b;
     Some (\<lparr>rd_offerId = offerId, rd_pasteOp = pasteOp, rd_fileIndex = fileIndex, rd_offset = offset,
       rd_status = status, rd_data = data\<rparr>, b) }"

definition read_data_ok :: "read_data \<Rightarrow> bool" where
  "read_data_ok m \<longleftrightarrow> length (rd_data m) \<le> unat kMaxChunkBytes"

lemma read_data_exact [codecs]:
  "get_read_data b = Some (v, r) \<longleftrightarrow> read_data_ok v \<and> b = put_read_data v @ r"
  by (cases v) (auto simp: get_read_data_def put_read_data_def read_data_ok_def codecs bind_eq_Some_conv)

interpretation read_data_codec: codec put_read_data get_read_data read_data_ok
  by unfold_locales (rule read_data_exact)

record paste_end =
  pe_offerId :: u64
  pe_pasteOp :: u64
  pe_reason :: u16

definition put_paste_end :: "paste_end \<Rightarrow> bytes" where
  "put_paste_end m = put_u64 (pe_offerId m) @ put_u64 (pe_pasteOp m) @ put_u16 (pe_reason m)"

definition get_paste_end :: "paste_end reader" where
  "get_paste_end b = do {
     (offerId, b) \<leftarrow> get_u64 b;
     (pasteOp, b) \<leftarrow> get_u64 b;
     (reason, b) \<leftarrow> get_u16 b;
     Some (\<lparr>pe_offerId = offerId, pe_pasteOp = pasteOp, pe_reason = reason\<rparr>, b) }"

lemma paste_end_exact [codecs]:
  "get_paste_end b = Some (v, r) \<longleftrightarrow> True \<and> b = put_paste_end v @ r"
  by (cases v) (auto simp: get_paste_end_def put_paste_end_def codecs bind_eq_Some_conv)

interpretation paste_end_codec: codec put_paste_end get_paste_end "\<lambda>_. True"
  by unfold_locales (rule paste_end_exact)

record stat_files =
  sf_requestId :: u64
  sf_paths :: "u16string list"

definition put_stat_files :: "stat_files \<Rightarrow> bytes" where
  "put_stat_files m = put_u64 (sf_requestId m) @ put_list put_str16 (sf_paths m)"

definition get_stat_files :: "stat_files reader" where
  "get_stat_files b = do {
     (requestId, b) \<leftarrow> get_u64 b;
     (paths, b) \<leftarrow> get_list (get_str16 kMaxPathUnits) kMaxStatCount b;
     Some (\<lparr>sf_requestId = requestId, sf_paths = paths\<rparr>, b) }"

definition stat_files_ok :: "stat_files \<Rightarrow> bool" where
  "stat_files_ok m \<longleftrightarrow> length (sf_paths m) \<le> unat kMaxStatCount \<and> (\<forall>v\<in>set (sf_paths m). length v \<le> unat kMaxPathUnits)"

lemma stat_files_exact [codecs]:
  "get_stat_files b = Some (v, r) \<longleftrightarrow> stat_files_ok v \<and> b = put_stat_files v @ r"
  by (cases v) (auto simp: get_stat_files_def put_stat_files_def stat_files_ok_def codecs bind_eq_Some_conv)

interpretation stat_files_codec: codec put_stat_files get_stat_files stat_files_ok
  by unfold_locales (rule stat_files_exact)

record pipe_stats =
  st_requestId :: u64
  st_entries :: "stat_entry list"

definition put_pipe_stats :: "pipe_stats \<Rightarrow> bytes" where
  "put_pipe_stats m = put_u64 (st_requestId m) @ put_list put_stat_entry (st_entries m)"

definition get_pipe_stats :: "pipe_stats reader" where
  "get_pipe_stats b = do {
     (requestId, b) \<leftarrow> get_u64 b;
     (entries, b) \<leftarrow> get_list (get_stat_entry) kMaxStatCount b;
     Some (\<lparr>st_requestId = requestId, st_entries = entries\<rparr>, b) }"

definition pipe_stats_ok :: "pipe_stats \<Rightarrow> bool" where
  "pipe_stats_ok m \<longleftrightarrow> length (st_entries m) \<le> unat kMaxStatCount \<and> (\<forall>v\<in>set (st_entries m). stat_entry_ok v)"

lemma pipe_stats_exact [codecs]:
  "get_pipe_stats b = Some (v, r) \<longleftrightarrow> pipe_stats_ok v \<and> b = put_pipe_stats v @ r"
  by (cases v) (auto simp: get_pipe_stats_def put_pipe_stats_def pipe_stats_ok_def codecs bind_eq_Some_conv)

interpretation pipe_stats_codec: codec put_pipe_stats get_pipe_stats pipe_stats_ok
  by unfold_locales (rule pipe_stats_exact)

record pipe_pin =
  pn_pinId :: u64
  pn_leaseMs :: u32
  pn_entries :: "pin_request_entry list"

definition put_pipe_pin :: "pipe_pin \<Rightarrow> bytes" where
  "put_pipe_pin m = put_u64 (pn_pinId m) @ put_u32 (pn_leaseMs m) @
     put_list put_pin_request_entry (pn_entries m)"

definition get_pipe_pin :: "pipe_pin reader" where
  "get_pipe_pin b = do {
     (pinId, b) \<leftarrow> get_u64 b;
     (leaseMs, b) \<leftarrow> get_u32 b;
     (entries, b) \<leftarrow> get_list (get_pin_request_entry) kMaxFiles b;
     Some (\<lparr>pn_pinId = pinId, pn_leaseMs = leaseMs, pn_entries = entries\<rparr>, b) }"

definition pipe_pin_ok :: "pipe_pin \<Rightarrow> bool" where
  "pipe_pin_ok m \<longleftrightarrow> length (pn_entries m) \<le> unat kMaxFiles \<and> (\<forall>v\<in>set (pn_entries m). pin_request_entry_ok v)"

lemma pipe_pin_exact [codecs]:
  "get_pipe_pin b = Some (v, r) \<longleftrightarrow> pipe_pin_ok v \<and> b = put_pipe_pin v @ r"
  by (cases v) (auto simp: get_pipe_pin_def put_pipe_pin_def pipe_pin_ok_def codecs bind_eq_Some_conv)

interpretation pipe_pin_codec: codec put_pipe_pin get_pipe_pin pipe_pin_ok
  by unfold_locales (rule pipe_pin_exact)

record pin_result =
  px_pinId :: u64
  px_entries :: "pin_result_entry list"

definition put_pin_result :: "pin_result \<Rightarrow> bytes" where
  "put_pin_result m = put_u64 (px_pinId m) @ put_list put_pin_result_entry (px_entries m)"

definition get_pin_result :: "pin_result reader" where
  "get_pin_result b = do {
     (pinId, b) \<leftarrow> get_u64 b;
     (entries, b) \<leftarrow> get_list (get_pin_result_entry) kMaxFiles b;
     Some (\<lparr>px_pinId = pinId, px_entries = entries\<rparr>, b) }"

definition pin_result_ok :: "pin_result \<Rightarrow> bool" where
  "pin_result_ok m \<longleftrightarrow> length (px_entries m) \<le> unat kMaxFiles \<and> (\<forall>v\<in>set (px_entries m). pin_result_entry_ok v)"

lemma pin_result_exact [codecs]:
  "get_pin_result b = Some (v, r) \<longleftrightarrow> pin_result_ok v \<and> b = put_pin_result v @ r"
  by (cases v) (auto simp: get_pin_result_def put_pin_result_def pin_result_ok_def codecs bind_eq_Some_conv)

interpretation pin_result_codec: codec put_pin_result get_pin_result pin_result_ok
  by unfold_locales (rule pin_result_exact)

record read_local =
  rl_pinId :: u64
  rl_fileIndex :: u32
  rl_offset :: u64
  rl_len :: u32

definition put_read_local :: "read_local \<Rightarrow> bytes" where
  "put_read_local m = put_u64 (rl_pinId m) @ put_u32 (rl_fileIndex m) @ put_u64 (rl_offset m) @
     put_u32 (rl_len m)"

definition get_read_local :: "read_local reader" where
  "get_read_local b = do {
     (pinId, b) \<leftarrow> get_u64 b;
     (fileIndex, b) \<leftarrow> get_u32 b;
     (offset, b) \<leftarrow> get_u64 b;
     (len, b) \<leftarrow> get_u32 b;
     if len \<le> kMaxChunkBytes then Some (\<lparr>rl_pinId = pinId, rl_fileIndex = fileIndex, rl_offset = offset, rl_len = len\<rparr>, b) else None }"

definition read_local_ok :: "read_local \<Rightarrow> bool" where
  "read_local_ok m \<longleftrightarrow> rl_len m \<le> kMaxChunkBytes"

lemma read_local_exact [codecs]:
  "get_read_local b = Some (v, r) \<longleftrightarrow> read_local_ok v \<and> b = put_read_local v @ r"
  by (cases v) (auto simp: get_read_local_def put_read_local_def read_local_ok_def codecs bind_eq_Some_conv)

interpretation read_local_codec: codec put_read_local get_read_local read_local_ok
  by unfold_locales (rule read_local_exact)

record local_data =
  ld_pinId :: u64
  ld_fileIndex :: u32
  ld_offset :: u64
  ld_status :: u16
  ld_data :: bytes

definition put_local_data :: "local_data \<Rightarrow> bytes" where
  "put_local_data m = put_u64 (ld_pinId m) @ put_u32 (ld_fileIndex m) @ put_u64 (ld_offset m) @
     put_u16 (ld_status m) @ put_blob (ld_data m)"

definition get_local_data :: "local_data reader" where
  "get_local_data b = do {
     (pinId, b) \<leftarrow> get_u64 b;
     (fileIndex, b) \<leftarrow> get_u32 b;
     (offset, b) \<leftarrow> get_u64 b;
     (status, b) \<leftarrow> get_u16 b;
     (data, b) \<leftarrow> get_blob kMaxChunkBytes b;
     Some (\<lparr>ld_pinId = pinId, ld_fileIndex = fileIndex, ld_offset = offset, ld_status = status, ld_data = data\<rparr>, b) }"

definition local_data_ok :: "local_data \<Rightarrow> bool" where
  "local_data_ok m \<longleftrightarrow> length (ld_data m) \<le> unat kMaxChunkBytes"

lemma local_data_exact [codecs]:
  "get_local_data b = Some (v, r) \<longleftrightarrow> local_data_ok v \<and> b = put_local_data v @ r"
  by (cases v) (auto simp: get_local_data_def put_local_data_def local_data_ok_def codecs bind_eq_Some_conv)

interpretation local_data_codec: codec put_local_data get_local_data local_data_ok
  by unfold_locales (rule local_data_exact)

record pipe_unpin =
  un_pinId :: u64

definition put_pipe_unpin :: "pipe_unpin \<Rightarrow> bytes" where
  "put_pipe_unpin m = put_u64 (un_pinId m)"

definition get_pipe_unpin :: "pipe_unpin reader" where
  "get_pipe_unpin b = do {
     (pinId, b) \<leftarrow> get_u64 b;
     Some (\<lparr>un_pinId = pinId\<rparr>, b) }"

lemma pipe_unpin_exact [codecs]:
  "get_pipe_unpin b = Some (v, r) \<longleftrightarrow> True \<and> b = put_pipe_unpin v @ r"
  by (cases v) (auto simp: get_pipe_unpin_def put_pipe_unpin_def codecs bind_eq_Some_conv)

interpretation pipe_unpin_codec: codec put_pipe_unpin get_pipe_unpin "\<lambda>_. True"
  by unfold_locales (rule pipe_unpin_exact)

record unpinned =
  up_pinId :: u64
  up_released :: u32

definition put_unpinned :: "unpinned \<Rightarrow> bytes" where
  "put_unpinned m = put_u64 (up_pinId m) @ put_u32 (up_released m)"

definition get_unpinned :: "unpinned reader" where
  "get_unpinned b = do {
     (pinId, b) \<leftarrow> get_u64 b;
     (released, b) \<leftarrow> get_u32 b;
     Some (\<lparr>up_pinId = pinId, up_released = released\<rparr>, b) }"

lemma unpinned_exact [codecs]:
  "get_unpinned b = Some (v, r) \<longleftrightarrow> True \<and> b = put_unpinned v @ r"
  by (cases v) (auto simp: get_unpinned_def put_unpinned_def codecs bind_eq_Some_conv)

interpretation unpinned_codec: codec put_unpinned get_unpinned "\<lambda>_. True"
  by unfold_locales (rule unpinned_exact)

text \<open>\<open>PublishRemoteFiles\<close> and its conditional form are one structure with two types.\<close>

record publish_remote_files =
  pp_offerId :: u64
  pp_items :: "remote_file_item list"
  pp_ifUnchanged :: bool
  pp_expectSeq :: u32

definition publish_type :: "bool \<Rightarrow> pipe_msg" where
  "publish_type ifUnchanged = (if ifUnchanged then PPublishRemoteFilesIfUnchanged else PPublishRemoteFiles)"

definition encode_publish :: "publish_remote_files \<Rightarrow> pipe_frame" where
  "encode_publish m = \<lparr>pf_type = pipe_msg_code (publish_type (pp_ifUnchanged m)),
     pf_payload = put_u64 (pp_offerId m) @ put_list put_remote_file_item (pp_items m) @
       (if pp_ifUnchanged m then put_u32 (pp_expectSeq m) else [])\<rparr>"

definition decode_publish :: "pipe_frame \<Rightarrow> publish_remote_files option" where
  "decode_publish f =
    (if pf_type f \<noteq> pipe_msg_code PPublishRemoteFiles \<and> pf_type f \<noteq> pipe_msg_code PPublishRemoteFilesIfUnchanged then None
     else let ifUnchanged = (pf_type f = pipe_msg_code PPublishRemoteFilesIfUnchanged) in
       parse_all (\<lambda>b. do {
         (offerId, b) \<leftarrow> get_u64 b;
         (items, b) \<leftarrow> get_list get_remote_file_item kMaxFiles b;
         (expectSeq, b) \<leftarrow> (if ifUnchanged then get_u32 b else Some (0, b));
         Some (\<lparr>pp_offerId = offerId, pp_items = items, pp_ifUnchanged = ifUnchanged, pp_expectSeq = expectSeq\<rparr>, b) })
       (pf_payload f))"

definition publish_ok :: "publish_remote_files \<Rightarrow> bool" where
  "publish_ok m \<longleftrightarrow> length (pp_items m) \<le> unat kMaxFiles \<and> (\<forall>v\<in>set (pp_items m). remote_file_item_ok v) \<and>
     (pp_ifUnchanged m \<or> pp_expectSeq m = 0)"

lemma publish_exact: "decode_publish f = Some m \<longleftrightarrow> publish_ok m \<and> f = encode_publish m"
proof (cases f; cases m)
  fix t p offerId items u e
  assume f: "f = \<lparr>pf_type = t, pf_payload = p\<rparr>"
    and m: "m = \<lparr>pp_offerId = offerId, pp_items = items, pp_ifUnchanged = u, pp_expectSeq = e\<rparr>"
  show ?thesis
    unfolding f m
    by (cases u) (auto simp: decode_publish_def encode_publish_def publish_ok_def publish_type_def parse_all_def Let_def codecs
        bind_eq_Some_conv split: if_splits)
qed

section \<open>Any message\<close>

datatype pipe_message =
    PublishMsg publish_remote_files | HelloMsg pipe_hello | PublishResultMsg publish_result |
  ClearRemoteFilesMsg clear_remote_files | PasteBeginMsg paste_begin | PasteDescriptorMsg paste_descriptor |
  ReadRequestMsg read_request | ReadDataMsg read_data | PasteEndMsg paste_end | StatFilesMsg stat_files |
  StatsMsg pipe_stats | PinMsg pipe_pin | PinResultMsg pin_result | ReadLocalMsg read_local |
  LocalDataMsg local_data | UnpinMsg pipe_unpin | UnpinnedMsg unpinned

fun encode_message :: "pipe_message \<Rightarrow> pipe_frame" where
  "encode_message (PublishMsg m) = encode_publish m"
| "encode_message (HelloMsg m) = pipe_encode PHello put_pipe_hello m"
| "encode_message (PublishResultMsg m) = pipe_encode PPublishResult put_publish_result m"
| "encode_message (ClearRemoteFilesMsg m) = pipe_encode PClearRemoteFiles put_clear_remote_files m"
| "encode_message (PasteBeginMsg m) = pipe_encode PPasteBegin put_paste_begin m"
| "encode_message (PasteDescriptorMsg m) = pipe_encode PPasteDescriptor put_paste_descriptor m"
| "encode_message (ReadRequestMsg m) = pipe_encode PReadRequest put_read_request m"
| "encode_message (ReadDataMsg m) = pipe_encode PReadData put_read_data m"
| "encode_message (PasteEndMsg m) = pipe_encode PPasteEnd put_paste_end m"
| "encode_message (StatFilesMsg m) = pipe_encode PStatFiles put_stat_files m"
| "encode_message (StatsMsg m) = pipe_encode PStats put_pipe_stats m"
| "encode_message (PinMsg m) = pipe_encode PPin put_pipe_pin m"
| "encode_message (PinResultMsg m) = pipe_encode PPinResult put_pin_result m"
| "encode_message (ReadLocalMsg m) = pipe_encode PReadLocal put_read_local m"
| "encode_message (LocalDataMsg m) = pipe_encode PLocalData put_local_data m"
| "encode_message (UnpinMsg m) = pipe_encode PUnpin put_pipe_unpin m"
| "encode_message (UnpinnedMsg m) = pipe_encode PUnpinned put_unpinned m"

fun message_ok :: "pipe_message \<Rightarrow> bool" where
  "message_ok (PublishMsg m) = publish_ok m"
| "message_ok (HelloMsg m) = pipe_hello_ok m"
| "message_ok (PublishResultMsg m) = True"
| "message_ok (ClearRemoteFilesMsg m) = True"
| "message_ok (PasteBeginMsg m) = True"
| "message_ok (PasteDescriptorMsg m) = paste_descriptor_ok m"
| "message_ok (ReadRequestMsg m) = read_request_ok m"
| "message_ok (ReadDataMsg m) = read_data_ok m"
| "message_ok (PasteEndMsg m) = True"
| "message_ok (StatFilesMsg m) = stat_files_ok m"
| "message_ok (StatsMsg m) = pipe_stats_ok m"
| "message_ok (PinMsg m) = pipe_pin_ok m"
| "message_ok (PinResultMsg m) = pin_result_ok m"
| "message_ok (ReadLocalMsg m) = read_local_ok m"
| "message_ok (LocalDataMsg m) = local_data_ok m"
| "message_ok (UnpinMsg m) = True"
| "message_ok (UnpinnedMsg m) = True"

text \<open>The decoder of the message the type of the frame names.\<close>

definition decode_message :: "pipe_frame \<Rightarrow> pipe_message option" where
  "decode_message f =
    (if pf_type f = pipe_msg_code PPublishRemoteFiles \<or> pf_type f = pipe_msg_code PPublishRemoteFilesIfUnchanged
     then map_option PublishMsg (decode_publish f)
     else if pf_type f = pipe_msg_code PHello then map_option HelloMsg (pipe_decode PHello get_pipe_hello f)
     else if pf_type f = pipe_msg_code PPublishResult then map_option PublishResultMsg (pipe_decode PPublishResult get_publish_result f)
     else if pf_type f = pipe_msg_code PClearRemoteFiles then map_option ClearRemoteFilesMsg (pipe_decode PClearRemoteFiles get_clear_remote_files f)
     else if pf_type f = pipe_msg_code PPasteBegin then map_option PasteBeginMsg (pipe_decode PPasteBegin get_paste_begin f)
     else if pf_type f = pipe_msg_code PPasteDescriptor then map_option PasteDescriptorMsg (pipe_decode PPasteDescriptor get_paste_descriptor f)
     else if pf_type f = pipe_msg_code PReadRequest then map_option ReadRequestMsg (pipe_decode PReadRequest get_read_request f)
     else if pf_type f = pipe_msg_code PReadData then map_option ReadDataMsg (pipe_decode PReadData get_read_data f)
     else if pf_type f = pipe_msg_code PPasteEnd then map_option PasteEndMsg (pipe_decode PPasteEnd get_paste_end f)
     else if pf_type f = pipe_msg_code PStatFiles then map_option StatFilesMsg (pipe_decode PStatFiles get_stat_files f)
     else if pf_type f = pipe_msg_code PStats then map_option StatsMsg (pipe_decode PStats get_pipe_stats f)
     else if pf_type f = pipe_msg_code PPin then map_option PinMsg (pipe_decode PPin get_pipe_pin f)
     else if pf_type f = pipe_msg_code PPinResult then map_option PinResultMsg (pipe_decode PPinResult get_pin_result f)
     else if pf_type f = pipe_msg_code PReadLocal then map_option ReadLocalMsg (pipe_decode PReadLocal get_read_local f)
     else if pf_type f = pipe_msg_code PLocalData then map_option LocalDataMsg (pipe_decode PLocalData get_local_data f)
     else if pf_type f = pipe_msg_code PUnpin then map_option UnpinMsg (pipe_decode PUnpin get_pipe_unpin f)
     else if pf_type f = pipe_msg_code PUnpinned then map_option UnpinnedMsg (pipe_decode PUnpinned get_unpinned f)
     else None)"

lemmas pipe_exacts = publish_exact
  pipe_hello_codec.pipe_exact publish_result_codec.pipe_exact clear_remote_files_codec.pipe_exact
  paste_begin_codec.pipe_exact paste_descriptor_codec.pipe_exact read_request_codec.pipe_exact
  read_data_codec.pipe_exact paste_end_codec.pipe_exact stat_files_codec.pipe_exact pipe_stats_codec.pipe_exact
  pipe_pin_codec.pipe_exact pin_result_codec.pipe_exact read_local_codec.pipe_exact local_data_codec.pipe_exact
  pipe_unpin_codec.pipe_exact unpinned_codec.pipe_exact

lemma pipe_msg_code_inj: "pipe_msg_code a = pipe_msg_code b \<longleftrightarrow> a = b"
  by (cases a; cases b; simp)

lemma encoded_type:
  "pf_type (pipe_encode t put m) = pipe_msg_code t"
  "pf_type (encode_publish p) = pipe_msg_code (publish_type (pp_ifUnchanged p))"
  by (simp_all add: pipe_encode_def encode_publish_def)

text \<open>
  C24. The pipe between the host and the clipboard helper. A frame decodes to a message exactly when the
  message is within the bounds and the frame is its encoding: every message the one side encodes within
  its bounds is read back as it was by the other, no two messages share a frame, and a frame with a
  field, an item or a byte too many or too few is refused.
\<close>

theorem pipe_messages_exact: "decode_message f = Some m \<longleftrightarrow> message_ok m \<and> f = encode_message m"
proof
  assume "decode_message f = Some m"
  then show "message_ok m \<and> f = encode_message m"
    unfolding decode_message_def by (auto simp: pipe_exacts split: if_split_asm)
next
  assume "message_ok m \<and> f = encode_message m"
  then have ok: "message_ok m" and f: "f = encode_message m" by auto
  show "decode_message f = Some m"
    unfolding f decode_message_def using ok
    by (cases m) (simp_all add: encoded_type pipe_msg_code_inj pipe_exacts publish_type_def)
qed

section \<open>A frame on the pipe\<close>

lemma frame_read_back:
  assumes "encode_frame f = Some w"
  shows "decode_frame_header (take kFrameHeaderBytes w) = Some (pf_type f, of_nat (length (pf_payload f))) \<and>
    unat (of_nat (length (pf_payload f)) :: u32) = length (pf_payload f) \<and> drop kFrameHeaderBytes w = pf_payload f"
proof -
  let ?n = "of_nat (length (pf_payload f)) :: u32"
  let ?h = "put_u32 kPipeMagic @ put_u32 ?n @ put_u16 (pf_type f) @ put_u16 kPipeVersion @ put_u32 0"
  have w: "w = ?h @ pf_payload f" and small: "length (pf_payload f) \<le> unat kMaxPayloadBytes"
    using assms by (auto simp: encode_frame_def split: if_splits)
  have n: "unat ?n = length (pf_payload f)" by (rule count_exact [OF small])
  have "length ?h = kFrameHeaderBytes" by (simp add: kFrameHeaderBytes_def)
  then have "take kFrameHeaderBytes w = ?h" "drop kFrameHeaderBytes w = pf_payload f" unfolding w by simp_all
  moreover have "\<not> kMaxPayloadBytes < ?n" using small n by (simp add: word_less_nat_alt)
  then have "decode_frame_header ?h = Some (pf_type f, ?n)"
    by (simp add: decode_frame_header_def codecs u32_codec.read_back u16_codec.read_back
        u32_codec.read_back [where r = "[]", simplified])
  ultimately show ?thesis using n by simp
qed

section \<open>Names\<close>

definition utf16 :: "string \<Rightarrow> u16string" where "utf16 s = map (\<lambda>c. of_nat (of_char c)) s"

definition forbidden_unit :: "u16 \<Rightarrow> bool" where
  "forbidden_unit c \<longleftrightarrow> c < 0x20 \<or>
     c \<in> {0x5C, 0x2F, 0x3A, 0x2A, 0x3F, 0x22, 0x3C, 0x3E, 0x7C} \<or> c = 0x7F"

definition upper_unit :: "u16 \<Rightarrow> u16" where
  "upper_unit c = (if 0x61 \<le> c \<and> c \<le> 0x7A then c - (0x61 - 0x41) else c)"

definition validate_remote_name :: "u16string \<Rightarrow> bool" where
  "validate_remote_name name \<longleftrightarrow>
    name \<noteq> [] \<and> length name \<le> unat kMaxNameUnits \<and> name \<noteq> utf16 ''.'' \<and> name \<noteq> utf16 ''..'' \<and>
    (\<forall>c\<in>set name. \<not> forbidden_unit c) \<and> last name \<noteq> 0x20 \<and> last name \<noteq> 0x2E \<and>
    (let stem = map upper_unit (takeWhile (\<lambda>c. c \<noteq> 0x2E) name) in
      stem \<notin> set (map utf16 [''CON'', ''PRN'', ''AUX'', ''NUL'', ''CONIN$'', ''CONOUT$'']) \<and>
      \<not> (length stem = 4 \<and> (take 3 stem = utf16 ''COM'' \<or> take 3 stem = utf16 ''LPT'') \<and>
         0x31 \<le> stem ! 3 \<and> stem ! 3 \<le> 0x39))"

section \<open>Hexadecimal digits\<close>

definition hex_digits :: u16string where "hex_digits = utf16 ''0123456789abcdef''"

definition hex_encode :: "bytes \<Rightarrow> u16string" where
  "hex_encode b = concat (map (\<lambda>x. [hex_digits ! unat (drop_bit 4 x), hex_digits ! unat (x AND 0xF)]) b)"

definition nib :: "u16 \<Rightarrow> u8 option" where
  "nib c = (if 0x30 \<le> c \<and> c \<le> 0x39 then Some (ucast (c - 0x30))
     else if 0x61 \<le> c \<and> c \<le> 0x66 then Some (ucast (c - 0x61 + 10))
     else if 0x41 \<le> c \<and> c \<le> 0x46 then Some (ucast (c - 0x41 + 10)) else None)"

fun hex_pairs :: "u16string \<Rightarrow> bytes option" where
  "hex_pairs (a # b # cs) = do { hi \<leftarrow> nib a; lo \<leftarrow> nib b; bs \<leftarrow> hex_pairs cs; Some ((push_bit 4 hi OR lo) # bs) }"
| "hex_pairs [] = Some []"
| "hex_pairs [_] = None"

definition hex_decode :: "u16string \<Rightarrow> nat \<Rightarrow> bytes option" where
  "hex_decode s n = (if length s \<noteq> n * 2 then None else hex_pairs s)"

lemma nib_digit: "n < 16 \<Longrightarrow> nib (hex_digits ! n) = Some (of_nat n)"
proof -
  assume "n < 16"
  then have "n \<in> {0, 1, 2, 3, 4, 5, 6, 7, 8, 9, 10, 11, 12, 13, 14, 15}" by (simp, presburger)
  then show ?thesis by (auto simp: hex_digits_def utf16_def nib_def)
qed

lemma halves: "push_bit 4 (drop_bit 4 x) OR (x AND 0xF) = (x :: u8)"
proof -
  have "(0xF :: u8) = mask 4" by (simp add: mask_eq_exp_minus_1)
  then have "x AND 0xF = take_bit 4 x" by (simp add: take_bit_eq_mask)
  then show ?thesis by (simp add: bit_eq_iff bit_simps) (metis le_add_diff_inverse not_le)
qed

lemma hex_round_trip: "hex_decode (hex_encode b) (length b) = Some b"
proof -
  have nibble: "unat (drop_bit 4 x) < 16 \<and> unat (x AND 0xF) < 16" for x :: u8
  proof -
    have "x AND 0xF \<le> 0xF" by (rule word_and_le1)
    then show ?thesis using unat_bounds(1) [of x] by (simp add: drop_bit_eq_div unat_div word_le_nat_alt)
  qed
  have "hex_pairs (hex_encode b) = Some b"
    by (induction b) (simp_all add: hex_encode_def nib_digit nibble halves)
  moreover have "length (hex_encode b) = length b * 2" by (induction b) (simp_all add: hex_encode_def)
  ultimately show ?thesis by (simp add: hex_decode_def)
qed

end
