(* ===== verification/FileWire.thy ===== *)
theory FileWire
  imports FilePipe
begin

text \<open>
  \<open>file_copy_wire.hpp\<close>: the messages of the file copy between the viewer and the host, on the control
  link (65 to 76, 86, 87) and on the bulk channel (77, 78), their framing, and how the host reads one off
  the control link. What a failed parse leaves in its output parameter is not modelled.
\<close>

section \<open>Numbers and bounds\<close>

datatype file_msg = FOffer | FOfferReply | FOfferQuery | FOfferQueryReply | FPasteQuery | FPasteQueryReply
  | FPrepare | FPrepareReply | FEnd | FEndReply | FStatus | FStatusReply | FPull | FChunk
  | FOfferQueryOrdered | FOfferQueryOrderedReply

fun file_msg_code :: "file_msg \<Rightarrow> u16" where
  "file_msg_code FOffer = 65"
| "file_msg_code FOfferReply = 66"
| "file_msg_code FOfferQuery = 67"
| "file_msg_code FOfferQueryReply = 68"
| "file_msg_code FPasteQuery = 69"
| "file_msg_code FPasteQueryReply = 70"
| "file_msg_code FPrepare = 71"
| "file_msg_code FPrepareReply = 72"
| "file_msg_code FEnd = 73"
| "file_msg_code FEndReply = 74"
| "file_msg_code FStatus = 75"
| "file_msg_code FStatusReply = 76"
| "file_msg_code FPull = 77"
| "file_msg_code FChunk = 78"
| "file_msg_code FOfferQueryOrdered = 86"
| "file_msg_code FOfferQueryOrderedReply = 87"

definition kMaxControlPayload :: u32 where "kMaxControlPayload = 64 * 1024"
definition kMaxFileChunkBytes :: u32 where "kMaxFileChunkBytes = 64 * 1024"
definition kMaxOfferFiles :: u32 where "kMaxOfferFiles = kMaxFiles"
definition kMaxOfferTotalBytes :: u64 where "kMaxOfferTotalBytes = push_bit 30 4"
definition kNoTrigger :: u64 where "kNoTrigger = NOT 0"
definition kShaBytes :: nat where "kShaBytes = 32"

section \<open>Enumerations\<close>

datatype file_direction = PtoR | RtoP

fun direction_code :: "file_direction \<Rightarrow> u8" where
  "direction_code PtoR = 1"
| "direction_code RtoP = 2"

definition get_direction :: "file_direction reader" where
  "get_direction b = do { (v, b) \<leftarrow> get_u8 b;
     if v = 1 then Some (PtoR, b) else if v = 2 then Some (RtoP, b) else None }"

lemma direction_exact [codecs]: "get_direction b = Some (d, r) \<longleftrightarrow> True \<and> b = put_u8 (direction_code d) @ r"
  by (cases d) (auto simp: get_direction_def codecs bind_eq_Some_conv intro!: exI [of _ "2 :: u8"] split: if_splits)

datatype file_verdict = FAccept | FBusy | FTooMany | FTooLarge | FDisabled | FHelperUnavailable | FBadRequest
  | FUnknownId | FStaleEpoch

definition verdict_values :: "file_verdict list" where
  "verdict_values = [FAccept, FBusy, FTooMany, FTooLarge, FDisabled, FHelperUnavailable, FBadRequest, FUnknownId, FStaleEpoch]"

datatype paste_state = PasteNone | PasteBegun | PasteActive | PasteEnded | PasteFailed | PasteWithdrawn

definition paste_state_values :: "paste_state list" where
  "paste_state_values = [PasteNone, PasteBegun, PasteActive, PasteEnded, PasteFailed, PasteWithdrawn]"

datatype paste_end_reason = EndNone | EndCompleted | EndConsumerError | EndIdle | EndCancelled | EndReplaced
  | EndChanged | EndInUse | EndVerification | EndDisabled | EndSession | EndSuperseded

definition end_reason_values :: "paste_end_reason list" where
  "end_reason_values = [EndNone, EndCompleted, EndConsumerError, EndIdle, EndCancelled, EndReplaced, EndChanged, EndInUse,
     EndVerification, EndDisabled, EndSession, EndSuperseded]"

interpretation verdict_enum: enumeration verdict_values
  by unfold_locales (auto simp: verdict_values_def intro: file_verdict.exhaust)

interpretation paste_state_enum: enumeration paste_state_values
  by unfold_locales (auto simp: paste_state_values_def intro: paste_state.exhaust)

interpretation end_reason_enum: enumeration end_reason_values
  by unfold_locales (auto simp: end_reason_values_def intro: paste_end_reason.exhaust)

lemmas enum_exacts [codecs] = verdict_enum.exact paste_state_enum.exact end_reason_enum.exact

section \<open>Items\<close>

record offer_item =
  oi_index :: u32
  oi_name :: u16string
  oi_size :: u64
  oi_mtime :: u64
  oi_attributes :: u32

definition put_offer_item :: "offer_item \<Rightarrow> bytes" where
  "put_offer_item m = put_u32 (oi_index m) @ put_str16 (oi_name m) @ put_u64 (oi_size m) @
     put_u64 (oi_mtime m) @ put_u32 (oi_attributes m)"

definition get_offer_item :: "offer_item reader" where
  "get_offer_item b = do {
     (index, b) \<leftarrow> get_u32 b;
     (name, b) \<leftarrow> get_str16 kMaxNameUnits b;
     (size, b) \<leftarrow> get_u64 b;
     (mtime, b) \<leftarrow> get_u64 b;
     (attributes, b) \<leftarrow> get_u32 b;
     Some (\<lparr>oi_index = index, oi_name = name, oi_size = size, oi_mtime = mtime, oi_attributes = attributes\<rparr>, b) }"

definition offer_item_ok :: "offer_item \<Rightarrow> bool" where
  "offer_item_ok m \<longleftrightarrow> length (oi_name m) \<le> unat kMaxNameUnits"

lemma offer_item_exact [codecs]:
  "get_offer_item b = Some (v, r) \<longleftrightarrow> offer_item_ok v \<and> b = put_offer_item v @ r"
  by (cases v) (auto simp: get_offer_item_def put_offer_item_def offer_item_ok_def codecs bind_eq_Some_conv)

interpretation offer_item_codec: codec put_offer_item get_offer_item offer_item_ok
  by unfold_locales (rule offer_item_exact)

record prepared_item =
  pi_index :: u32
  pi_status :: u16
  pi_size :: u64
  pi_mtime :: u64
  pi_attributes :: u32

definition put_prepared_item :: "prepared_item \<Rightarrow> bytes" where
  "put_prepared_item m = put_u32 (pi_index m) @ put_u16 (pi_status m) @ put_u64 (pi_size m) @
     put_u64 (pi_mtime m) @ put_u32 (pi_attributes m)"

definition get_prepared_item :: "prepared_item reader" where
  "get_prepared_item b = do {
     (index, b) \<leftarrow> get_u32 b;
     (status, b) \<leftarrow> get_u16 b;
     (size, b) \<leftarrow> get_u64 b;
     (mtime, b) \<leftarrow> get_u64 b;
     (attributes, b) \<leftarrow> get_u32 b;
     Some (\<lparr>pi_index = index, pi_status = status, pi_size = size, pi_mtime = mtime, pi_attributes = attributes\<rparr>, b) }"

lemma prepared_item_exact [codecs]:
  "get_prepared_item b = Some (v, r) \<longleftrightarrow> True \<and> b = put_prepared_item v @ r"
  by (cases v) (auto simp: get_prepared_item_def put_prepared_item_def codecs bind_eq_Some_conv)

interpretation prepared_item_codec: codec put_prepared_item get_prepared_item "\<lambda>_. True"
  by unfold_locales (rule prepared_item_exact)

lemmas item_lists [codecs] = offer_item_codec.reads_list prepared_item_codec.reads_list

section \<open>Bodies\<close>

record wire_offer =
  wo_epochTag :: u64
  wo_offerId :: u64
  wo_revision :: u64
  wo_items :: "offer_item list"

definition put_wire_offer :: "wire_offer \<Rightarrow> bytes" where
  "put_wire_offer m = put_u64 (wo_epochTag m) @ put_u64 (wo_offerId m) @ put_u64 (wo_revision m) @
     put_list put_offer_item (wo_items m)"

definition get_wire_offer :: "wire_offer reader" where
  "get_wire_offer b = do {
     (epochTag, b) \<leftarrow> get_u64 b;
     (offerId, b) \<leftarrow> get_u64 b;
     (revision, b) \<leftarrow> get_u64 b;
     (items, b) \<leftarrow> get_list (get_offer_item) kMaxOfferFiles b;
     Some (\<lparr>wo_epochTag = epochTag, wo_offerId = offerId, wo_revision = revision, wo_items = items\<rparr>, b) }"

definition wire_offer_ok :: "wire_offer \<Rightarrow> bool" where
  "wire_offer_ok m \<longleftrightarrow> length (wo_items m) \<le> unat kMaxOfferFiles \<and> (\<forall>v\<in>set (wo_items m). offer_item_ok v)"

lemma wire_offer_exact [codecs]:
  "get_wire_offer b = Some (v, r) \<longleftrightarrow> wire_offer_ok v \<and> b = put_wire_offer v @ r"
  by (cases v) (auto simp: get_wire_offer_def put_wire_offer_def wire_offer_ok_def codecs bind_eq_Some_conv)

interpretation wire_offer_codec: codec put_wire_offer get_wire_offer wire_offer_ok
  by unfold_locales (rule wire_offer_exact)

record wire_offer_reply =
  wr_offerId :: u64
  wr_verdict :: file_verdict

definition put_wire_offer_reply :: "wire_offer_reply \<Rightarrow> bytes" where
  "put_wire_offer_reply m = put_u64 (wr_offerId m) @ put_u8 (enum_code verdict_values (wr_verdict m))"

definition get_wire_offer_reply :: "wire_offer_reply reader" where
  "get_wire_offer_reply b = do {
     (offerId, b) \<leftarrow> get_u64 b;
     (verdict, b) \<leftarrow> get_enum verdict_values b;
     Some (\<lparr>wr_offerId = offerId, wr_verdict = verdict\<rparr>, b) }"

lemma wire_offer_reply_exact [codecs]:
  "get_wire_offer_reply b = Some (v, r) \<longleftrightarrow> True \<and> b = put_wire_offer_reply v @ r"
  by (cases v) (auto simp: get_wire_offer_reply_def put_wire_offer_reply_def codecs bind_eq_Some_conv)

interpretation wire_offer_reply_codec: codec put_wire_offer_reply get_wire_offer_reply "\<lambda>_. True"
  by unfold_locales (rule wire_offer_reply_exact)

record offer_query =
  wq_knownRevision :: u64

definition put_offer_query :: "offer_query \<Rightarrow> bytes" where
  "put_offer_query m = put_u64 (wq_knownRevision m)"

definition get_offer_query :: "offer_query reader" where
  "get_offer_query b = do {
     (knownRevision, b) \<leftarrow> get_u64 b;
     Some (\<lparr>wq_knownRevision = knownRevision\<rparr>, b) }"

lemma offer_query_exact [codecs]:
  "get_offer_query b = Some (v, r) \<longleftrightarrow> True \<and> b = put_offer_query v @ r"
  by (cases v) (auto simp: get_offer_query_def put_offer_query_def codecs bind_eq_Some_conv)

interpretation offer_query_codec: codec put_offer_query get_offer_query "\<lambda>_. True"
  by unfold_locales (rule offer_query_exact)

text \<open>The answer to an offer query: the list only where it has changed.\<close>

record offer_query_reply =
  oq_epochTag :: u64
  oq_revision :: u64
  oq_unchanged :: bool
  oq_offerId :: u64
  oq_items :: "offer_item list"
  oq_copyGen :: u64

definition put_offer_query_reply :: "offer_query_reply \<Rightarrow> bytes" where
  "put_offer_query_reply m = put_u64 (oq_epochTag m) @ put_u64 (oq_revision m) @
     put_u8 (if oq_unchanged m then 1 else 0) @
     (if oq_unchanged m then [] else put_u64 (oq_offerId m) @ put_list put_offer_item (oq_items m))"

definition get_offer_query_reply :: "offer_query_reply reader" where
  "get_offer_query_reply b = do {
     (epochTag, b) \<leftarrow> get_u64 b;
     (revision, b) \<leftarrow> get_u64 b;
     (unchanged, b) \<leftarrow> get_u8 b;
     if 1 < unchanged then None
     else if unchanged = 1 then Some (\<lparr>oq_epochTag = epochTag, oq_revision = revision, oq_unchanged = True,
       oq_offerId = 0, oq_items = [], oq_copyGen = 0\<rparr>, b)
     else do {
       (offerId, b) \<leftarrow> get_u64 b;
       (items, b) \<leftarrow> get_list get_offer_item kMaxOfferFiles b;
       Some (\<lparr>oq_epochTag = epochTag, oq_revision = revision, oq_unchanged = False,
         oq_offerId = offerId, oq_items = items, oq_copyGen = 0\<rparr>, b) } }"

definition offer_query_reply_ok :: "offer_query_reply \<Rightarrow> bool" where
  "offer_query_reply_ok m \<longleftrightarrow> length (oq_items m) \<le> unat kMaxOfferFiles \<and> (\<forall>v\<in>set (oq_items m). offer_item_ok v) \<and>
     (oq_unchanged m \<longrightarrow> oq_offerId m = 0 \<and> oq_items m = [])"

lemma flag_cases: "\<not> 1 < (x :: u8) \<Longrightarrow> x = 0 \<or> x = 1"
  by (auto simp: word_less_nat_alt word_unat_eq_iff)

lemma offer_query_reply_exact:
  "get_offer_query_reply b = Some (v, r) \<longleftrightarrow>
    (offer_query_reply_ok v \<and> oq_copyGen v = 0) \<and> b = put_offer_query_reply v @ r"
proof
  assume "get_offer_query_reply b = Some (v, r)"
  then show "(offer_query_reply_ok v \<and> oq_copyGen v = 0) \<and> b = put_offer_query_reply v @ r"
    by (auto simp: get_offer_query_reply_def put_offer_query_reply_def offer_query_reply_ok_def codecs bind_eq_Some_conv
        dest!: flag_cases split: if_split_asm)
next
  assume a: "(offer_query_reply_ok v \<and> oq_copyGen v = 0) \<and> b = put_offer_query_reply v @ r"
  show "get_offer_query_reply b = Some (v, r)"
  proof (cases "oq_unchanged v")
    case True
    then show ?thesis using a
      by (cases v) (simp add: get_offer_query_reply_def put_offer_query_reply_def offer_query_reply_ok_def
          u64_codec.read_back u8_codec.read_back)
  next
    case False
    then show ?thesis using a offer_item_codec.reads_list [of kMaxOfferFiles "put_list put_offer_item (oq_items v) @ r" "oq_items v" r]
      by (cases v) (simp add: get_offer_query_reply_def put_offer_query_reply_def offer_query_reply_ok_def
          u64_codec.read_back u8_codec.read_back)
  qed
qed

interpretation offer_query_reply_codec: codec put_offer_query_reply get_offer_query_reply
    "\<lambda>v. offer_query_reply_ok v \<and> oq_copyGen v = 0"
  by unfold_locales (rule offer_query_reply_exact)

text \<open>The ordered answer (87): the plain one, then the generation of the copy.\<close>

definition body_ordered :: "offer_query_reply \<Rightarrow> bytes" where
  "body_ordered m = put_offer_query_reply m @ put_u64 (oq_copyGen m)"

definition parse_ordered :: "bytes \<Rightarrow> offer_query_reply option" where
  "parse_ordered b = (if length b < 8 then None
     else do { m \<leftarrow> parse_all get_offer_query_reply (take (length b - 8) b);
       g \<leftarrow> parse_all get_u64 (drop (length b - 8) b);
       Some (m\<lparr>oq_copyGen := g\<rparr>) })"

lemma parse_ordered_exact: "parse_ordered b = Some m \<longleftrightarrow> offer_query_reply_ok m \<and> b = body_ordered m"
proof
  assume "parse_ordered b = Some m"
  then obtain n g where n: "offer_query_reply_ok n" "take (length b - 8) b = put_offer_query_reply n"
    and g: "drop (length b - 8) b = put_u64 g" and m: "m = n\<lparr>oq_copyGen := g\<rparr>"
    by (auto simp: parse_ordered_def bind_eq_Some_conv offer_query_reply_codec.parses u64_codec.parses split: if_split_asm)
  have "b = take (length b - 8) b @ drop (length b - 8) b" by simp
  also have "\<dots> = body_ordered m" unfolding n g m by (simp add: body_ordered_def put_offer_query_reply_def)
  finally show "offer_query_reply_ok m \<and> b = body_ordered m" using n(1) m by (simp add: offer_query_reply_ok_def)
next
  assume a: "offer_query_reply_ok m \<and> b = body_ordered m"
  have "put_offer_query_reply (m\<lparr>oq_copyGen := 0\<rparr>) = put_offer_query_reply m" by (simp add: put_offer_query_reply_def)
  then have "parse_all get_offer_query_reply (put_offer_query_reply m) = Some (m\<lparr>oq_copyGen := 0\<rparr>)"
    using a by (simp add: offer_query_reply_codec.parses offer_query_reply_ok_def)
  moreover have "parse_all get_u64 (put_u64 (oq_copyGen m)) = Some (oq_copyGen m)" by (simp add: u64_codec.parses)
  ultimately show "parse_ordered b = Some m" using a by (simp add: parse_ordered_def body_ordered_def)
qed

record paste_query =
  pq_offerId :: u64

definition put_paste_query :: "paste_query \<Rightarrow> bytes" where
  "put_paste_query m = put_u64 (pq_offerId m)"

definition get_paste_query :: "paste_query reader" where
  "get_paste_query b = do {
     (offerId, b) \<leftarrow> get_u64 b;
     Some (\<lparr>pq_offerId = offerId\<rparr>, b) }"

lemma paste_query_exact [codecs]:
  "get_paste_query b = Some (v, r) \<longleftrightarrow> True \<and> b = put_paste_query v @ r"
  by (cases v) (auto simp: get_paste_query_def put_paste_query_def codecs bind_eq_Some_conv)

interpretation paste_query_codec: codec put_paste_query get_paste_query "\<lambda>_. True"
  by unfold_locales (rule paste_query_exact)

record paste_query_reply =
  py_offerId :: u64
  py_state :: paste_state
  py_pasteOp :: u64
  py_reason :: paste_end_reason

definition put_paste_query_reply :: "paste_query_reply \<Rightarrow> bytes" where
  "put_paste_query_reply m = put_u64 (py_offerId m) @ put_u8 (enum_code paste_state_values (py_state m)) @
     put_u64 (py_pasteOp m) @ put_u8 (enum_code end_reason_values (py_reason m))"

definition get_paste_query_reply :: "paste_query_reply reader" where
  "get_paste_query_reply b = do {
     (offerId, b) \<leftarrow> get_u64 b;
     (state, b) \<leftarrow> get_enum paste_state_values b;
     (pasteOp, b) \<leftarrow> get_u64 b;
     (reason, b) \<leftarrow> get_enum end_reason_values b;
     Some (\<lparr>py_offerId = offerId, py_state = state, py_pasteOp = pasteOp, py_reason = reason\<rparr>, b) }"

lemma paste_query_reply_exact [codecs]:
  "get_paste_query_reply b = Some (v, r) \<longleftrightarrow> True \<and> b = put_paste_query_reply v @ r"
  by (cases v) (auto simp: get_paste_query_reply_def put_paste_query_reply_def codecs bind_eq_Some_conv)

interpretation paste_query_reply_codec: codec put_paste_query_reply get_paste_query_reply "\<lambda>_. True"
  by unfold_locales (rule paste_query_reply_exact)

record file_prepare =
  fp_direction :: file_direction
  fp_offerId :: u64
  fp_pasteOp :: u64
  fp_items :: "prepared_item list"

definition put_file_prepare :: "file_prepare \<Rightarrow> bytes" where
  "put_file_prepare m = put_u8 (direction_code (fp_direction m)) @ put_u64 (fp_offerId m) @
     put_u64 (fp_pasteOp m) @ put_list put_prepared_item (fp_items m)"

definition get_file_prepare :: "file_prepare reader" where
  "get_file_prepare b = do {
     (direction, b) \<leftarrow> get_direction b;
     (offerId, b) \<leftarrow> get_u64 b;
     (pasteOp, b) \<leftarrow> get_u64 b;
     (items, b) \<leftarrow> get_list (get_prepared_item) kMaxOfferFiles b;
     Some (\<lparr>fp_direction = direction, fp_offerId = offerId, fp_pasteOp = pasteOp, fp_items = items\<rparr>, b) }"

definition file_prepare_ok :: "file_prepare \<Rightarrow> bool" where
  "file_prepare_ok m \<longleftrightarrow> length (fp_items m) \<le> unat kMaxOfferFiles"

lemma file_prepare_exact [codecs]:
  "get_file_prepare b = Some (v, r) \<longleftrightarrow> file_prepare_ok v \<and> b = put_file_prepare v @ r"
  by (cases v) (auto simp: get_file_prepare_def put_file_prepare_def file_prepare_ok_def codecs bind_eq_Some_conv)

interpretation file_prepare_codec: codec put_file_prepare get_file_prepare file_prepare_ok
  by unfold_locales (rule file_prepare_exact)

record prepare_reply =
  fr_direction :: file_direction
  fr_offerId :: u64
  fr_pasteOp :: u64
  fr_verdict :: file_verdict
  fr_epochTag :: u64
  fr_bulkGen :: u32
  fr_items :: "prepared_item list"

definition put_prepare_reply :: "prepare_reply \<Rightarrow> bytes" where
  "put_prepare_reply m = put_u8 (direction_code (fr_direction m)) @ put_u64 (fr_offerId m) @
     put_u64 (fr_pasteOp m) @ put_u8 (enum_code verdict_values (fr_verdict m)) @ put_u64 (fr_epochTag m) @
     put_u32 (fr_bulkGen m) @ put_list put_prepared_item (fr_items m)"

definition get_prepare_reply :: "prepare_reply reader" where
  "get_prepare_reply b = do {
     (direction, b) \<leftarrow> get_direction b;
     (offerId, b) \<leftarrow> get_u64 b;
     (pasteOp, b) \<leftarrow> get_u64 b;
     (verdict, b) \<leftarrow> get_enum verdict_values b;
     (epochTag, b) \<leftarrow> get_u64 b;
     (bulkGen, b) \<leftarrow> get_u32 b;
     (items, b) \<leftarrow> get_list (get_prepared_item) kMaxOfferFiles b;
     Some (\<lparr>fr_direction = direction, fr_offerId = offerId, fr_pasteOp = pasteOp, fr_verdict = verdict,
       fr_epochTag = epochTag, fr_bulkGen = bulkGen, fr_items = items\<rparr>, b) }"

definition prepare_reply_ok :: "prepare_reply \<Rightarrow> bool" where
  "prepare_reply_ok m \<longleftrightarrow> length (fr_items m) \<le> unat kMaxOfferFiles"

lemma prepare_reply_exact [codecs]:
  "get_prepare_reply b = Some (v, r) \<longleftrightarrow> prepare_reply_ok v \<and> b = put_prepare_reply v @ r"
  by (cases v) (auto simp: get_prepare_reply_def put_prepare_reply_def prepare_reply_ok_def codecs bind_eq_Some_conv)

interpretation prepare_reply_codec: codec put_prepare_reply get_prepare_reply prepare_reply_ok
  by unfold_locales (rule prepare_reply_exact)

record file_end =
  fe_offerId :: u64
  fe_pasteOp :: u64
  fe_reason :: paste_end_reason

definition put_file_end :: "file_end \<Rightarrow> bytes" where
  "put_file_end m = put_u64 (fe_offerId m) @ put_u64 (fe_pasteOp m) @
     put_u8 (enum_code end_reason_values (fe_reason m))"

definition get_file_end :: "file_end reader" where
  "get_file_end b = do {
     (offerId, b) \<leftarrow> get_u64 b;
     (pasteOp, b) \<leftarrow> get_u64 b;
     (reason, b) \<leftarrow> get_enum end_reason_values b;
     Some (\<lparr>fe_offerId = offerId, fe_pasteOp = pasteOp, fe_reason = reason\<rparr>, b) }"

lemma file_end_exact [codecs]:
  "get_file_end b = Some (v, r) \<longleftrightarrow> True \<and> b = put_file_end v @ r"
  by (cases v) (auto simp: get_file_end_def put_file_end_def codecs bind_eq_Some_conv)

interpretation file_end_codec: codec put_file_end get_file_end "\<lambda>_. True"
  by unfold_locales (rule file_end_exact)

record end_reply =
  er_offerId :: u64
  er_pasteOp :: u64
  er_state :: paste_state

definition put_end_reply :: "end_reply \<Rightarrow> bytes" where
  "put_end_reply m = put_u64 (er_offerId m) @ put_u64 (er_pasteOp m) @
     put_u8 (enum_code paste_state_values (er_state m))"

definition get_end_reply :: "end_reply reader" where
  "get_end_reply b = do {
     (offerId, b) \<leftarrow> get_u64 b;
     (pasteOp, b) \<leftarrow> get_u64 b;
     (state, b) \<leftarrow> get_enum paste_state_values b;
     Some (\<lparr>er_offerId = offerId, er_pasteOp = pasteOp, er_state = state\<rparr>, b) }"

lemma end_reply_exact [codecs]:
  "get_end_reply b = Some (v, r) \<longleftrightarrow> True \<and> b = put_end_reply v @ r"
  by (cases v) (auto simp: get_end_reply_def put_end_reply_def codecs bind_eq_Some_conv)

interpretation end_reply_codec: codec put_end_reply get_end_reply "\<lambda>_. True"
  by unfold_locales (rule end_reply_exact)

record status_query =
  sq_offerId :: u64
  sq_pasteOp :: u64

definition put_status_query :: "status_query \<Rightarrow> bytes" where
  "put_status_query m = put_u64 (sq_offerId m) @ put_u64 (sq_pasteOp m)"

definition get_status_query :: "status_query reader" where
  "get_status_query b = do {
     (offerId, b) \<leftarrow> get_u64 b;
     (pasteOp, b) \<leftarrow> get_u64 b;
     Some (\<lparr>sq_offerId = offerId, sq_pasteOp = pasteOp\<rparr>, b) }"

lemma status_query_exact [codecs]:
  "get_status_query b = Some (v, r) \<longleftrightarrow> True \<and> b = put_status_query v @ r"
  by (cases v) (auto simp: get_status_query_def put_status_query_def codecs bind_eq_Some_conv)

interpretation status_query_codec: codec put_status_query get_status_query "\<lambda>_. True"
  by unfold_locales (rule status_query_exact)

record status_reply =
  sr_offerId :: u64
  sr_pasteOp :: u64
  sr_state :: paste_state
  sr_reason :: paste_end_reason
  sr_bytesDelivered :: u64

definition put_status_reply :: "status_reply \<Rightarrow> bytes" where
  "put_status_reply m = put_u64 (sr_offerId m) @ put_u64 (sr_pasteOp m) @
     put_u8 (enum_code paste_state_values (sr_state m)) @ put_u8 (enum_code end_reason_values (sr_reason m)) @
     put_u64 (sr_bytesDelivered m)"

definition get_status_reply :: "status_reply reader" where
  "get_status_reply b = do {
     (offerId, b) \<leftarrow> get_u64 b;
     (pasteOp, b) \<leftarrow> get_u64 b;
     (state, b) \<leftarrow> get_enum paste_state_values b;
     (reason, b) \<leftarrow> get_enum end_reason_values b;
     (bytesDelivered, b) \<leftarrow> get_u64 b;
     Some (\<lparr>sr_offerId = offerId, sr_pasteOp = pasteOp, sr_state = state, sr_reason = reason,
       sr_bytesDelivered = bytesDelivered\<rparr>, b) }"

lemma status_reply_exact [codecs]:
  "get_status_reply b = Some (v, r) \<longleftrightarrow> True \<and> b = put_status_reply v @ r"
  by (cases v) (auto simp: get_status_reply_def put_status_reply_def codecs bind_eq_Some_conv)

interpretation status_reply_codec: codec put_status_reply get_status_reply "\<lambda>_. True"
  by unfold_locales (rule status_reply_exact)

record file_pull =
  pl_epochTag :: u64
  pl_offerId :: u64
  pl_pasteOp :: u64
  pl_bulkGen :: u32
  pl_fileIndex :: u32
  pl_requestId :: u64
  pl_offset :: u64
  pl_len :: u32
  pl_triggerRequestId :: u64

definition put_file_pull :: "file_pull \<Rightarrow> bytes" where
  "put_file_pull m = put_u64 (pl_epochTag m) @ put_u64 (pl_offerId m) @ put_u64 (pl_pasteOp m) @
     put_u32 (pl_bulkGen m) @ put_u32 (pl_fileIndex m) @ put_u64 (pl_requestId m) @ put_u64 (pl_offset m) @
     put_u32 (pl_len m) @ put_u64 (pl_triggerRequestId m)"

definition get_file_pull :: "file_pull reader" where
  "get_file_pull b = do {
     (epochTag, b) \<leftarrow> get_u64 b;
     (offerId, b) \<leftarrow> get_u64 b;
     (pasteOp, b) \<leftarrow> get_u64 b;
     (bulkGen, b) \<leftarrow> get_u32 b;
     (fileIndex, b) \<leftarrow> get_u32 b;
     (requestId, b) \<leftarrow> get_u64 b;
     (offset, b) \<leftarrow> get_u64 b;
     (len, b) \<leftarrow> get_u32 b;
     (triggerRequestId, b) \<leftarrow> get_u64 b;
     if len \<le> kMaxFileChunkBytes then Some (\<lparr>pl_epochTag = epochTag, pl_offerId = offerId, pl_pasteOp = pasteOp, pl_bulkGen = bulkGen,
       pl_fileIndex = fileIndex, pl_requestId = requestId, pl_offset = offset, pl_len = len,
       pl_triggerRequestId = triggerRequestId\<rparr>, b) else None }"

definition file_pull_ok :: "file_pull \<Rightarrow> bool" where
  "file_pull_ok m \<longleftrightarrow> pl_len m \<le> kMaxFileChunkBytes"

lemma file_pull_exact [codecs]:
  "get_file_pull b = Some (v, r) \<longleftrightarrow> file_pull_ok v \<and> b = put_file_pull v @ r"
  by (cases v) (auto simp: get_file_pull_def put_file_pull_def file_pull_ok_def codecs bind_eq_Some_conv)

interpretation file_pull_codec: codec put_file_pull get_file_pull file_pull_ok
  by unfold_locales (rule file_pull_exact)

record file_chunk =
  ch_epochTag :: u64
  ch_offerId :: u64
  ch_pasteOp :: u64
  ch_bulkGen :: u32
  ch_fileIndex :: u32
  ch_requestId :: u64
  ch_offset :: u64
  ch_sha256 :: bytes
  ch_data :: bytes

definition put_file_chunk :: "file_chunk \<Rightarrow> bytes" where
  "put_file_chunk m = put_u64 (ch_epochTag m) @ put_u64 (ch_offerId m) @ put_u64 (ch_pasteOp m) @
     put_u32 (ch_bulkGen m) @ put_u32 (ch_fileIndex m) @ put_u64 (ch_requestId m) @ put_u64 (ch_offset m) @
     ch_sha256 m @ put_blob (ch_data m)"

definition get_file_chunk :: "file_chunk reader" where
  "get_file_chunk b = do {
     (epochTag, b) \<leftarrow> get_u64 b;
     (offerId, b) \<leftarrow> get_u64 b;
     (pasteOp, b) \<leftarrow> get_u64 b;
     (bulkGen, b) \<leftarrow> get_u32 b;
     (fileIndex, b) \<leftarrow> get_u32 b;
     (requestId, b) \<leftarrow> get_u64 b;
     (offset, b) \<leftarrow> get_u64 b;
     (sha256, b) \<leftarrow> get_bytes kShaBytes b;
     (data, b) \<leftarrow> get_blob kMaxFileChunkBytes b;
     Some (\<lparr>ch_epochTag = epochTag, ch_offerId = offerId, ch_pasteOp = pasteOp, ch_bulkGen = bulkGen,
       ch_fileIndex = fileIndex, ch_requestId = requestId, ch_offset = offset, ch_sha256 = sha256,
       ch_data = data\<rparr>, b) }"

definition file_chunk_ok :: "file_chunk \<Rightarrow> bool" where
  "file_chunk_ok m \<longleftrightarrow> length (ch_sha256 m) = kShaBytes \<and>
     length (ch_data m) \<le> unat kMaxFileChunkBytes"

lemma file_chunk_exact [codecs]:
  "get_file_chunk b = Some (v, r) \<longleftrightarrow> file_chunk_ok v \<and> b = put_file_chunk v @ r"
  by (cases v) (auto simp: get_file_chunk_def put_file_chunk_def file_chunk_ok_def codecs bind_eq_Some_conv)

interpretation file_chunk_codec: codec put_file_chunk get_file_chunk file_chunk_ok
  by unfold_locales (rule file_chunk_exact)

section \<open>Any control message\<close>

datatype file_message =
    WireOffer wire_offer | WireOfferReply wire_offer_reply | WireOfferQuery offer_query |
  WireOfferQueryReply offer_query_reply | WirePasteQuery paste_query | WirePasteQueryReply paste_query_reply |
  WirePrepare file_prepare | WirePrepareReply prepare_reply | WireEnd file_end | WireEndReply end_reply |
  WireStatus status_query | WireStatusReply status_reply | WireOfferQueryOrdered offer_query |
  WireOfferQueryOrderedReply offer_query_reply

fun file_message_type :: "file_message \<Rightarrow> file_msg" where
  "file_message_type (WireOffer m) = FOffer"
| "file_message_type (WireOfferReply m) = FOfferReply"
| "file_message_type (WireOfferQuery m) = FOfferQuery"
| "file_message_type (WireOfferQueryReply m) = FOfferQueryReply"
| "file_message_type (WirePasteQuery m) = FPasteQuery"
| "file_message_type (WirePasteQueryReply m) = FPasteQueryReply"
| "file_message_type (WirePrepare m) = FPrepare"
| "file_message_type (WirePrepareReply m) = FPrepareReply"
| "file_message_type (WireEnd m) = FEnd"
| "file_message_type (WireEndReply m) = FEndReply"
| "file_message_type (WireStatus m) = FStatus"
| "file_message_type (WireStatusReply m) = FStatusReply"
| "file_message_type (WireOfferQueryOrdered m) = FOfferQueryOrdered"
| "file_message_type (WireOfferQueryOrderedReply m) = FOfferQueryOrderedReply"

fun file_body :: "file_message \<Rightarrow> bytes" where
  "file_body (WireOffer m) = put_wire_offer m"
| "file_body (WireOfferReply m) = put_wire_offer_reply m"
| "file_body (WireOfferQuery m) = put_offer_query m"
| "file_body (WireOfferQueryReply m) = put_offer_query_reply m"
| "file_body (WirePasteQuery m) = put_paste_query m"
| "file_body (WirePasteQueryReply m) = put_paste_query_reply m"
| "file_body (WirePrepare m) = put_file_prepare m"
| "file_body (WirePrepareReply m) = put_prepare_reply m"
| "file_body (WireEnd m) = put_file_end m"
| "file_body (WireEndReply m) = put_end_reply m"
| "file_body (WireStatus m) = put_status_query m"
| "file_body (WireStatusReply m) = put_status_reply m"
| "file_body (WireOfferQueryOrdered m) = put_offer_query m"
| "file_body (WireOfferQueryOrderedReply m) = body_ordered m"

fun file_message_ok :: "file_message \<Rightarrow> bool" where
  "file_message_ok (WireOffer m) = wire_offer_ok m"
| "file_message_ok (WireOfferReply m) = True"
| "file_message_ok (WireOfferQuery m) = True"
| "file_message_ok (WireOfferQueryReply m) = (offer_query_reply_ok m \<and> oq_copyGen m = 0)"
| "file_message_ok (WirePasteQuery m) = True"
| "file_message_ok (WirePasteQueryReply m) = True"
| "file_message_ok (WirePrepare m) = file_prepare_ok m"
| "file_message_ok (WirePrepareReply m) = prepare_reply_ok m"
| "file_message_ok (WireEnd m) = True"
| "file_message_ok (WireEndReply m) = True"
| "file_message_ok (WireStatus m) = True"
| "file_message_ok (WireStatusReply m) = True"
| "file_message_ok (WireOfferQueryOrdered m) = True"
| "file_message_ok (WireOfferQueryOrderedReply m) = offer_query_reply_ok m"

text \<open>The parser of the message a type names.\<close>

definition parse_file_message :: "u16 \<Rightarrow> bytes \<Rightarrow> file_message option" where
  "parse_file_message t b =
    (if t = file_msg_code FOfferQueryOrderedReply then map_option WireOfferQueryOrderedReply (parse_ordered b)
     else if t = file_msg_code FOffer then map_option WireOffer (parse_all get_wire_offer b)
     else if t = file_msg_code FOfferReply then map_option WireOfferReply (parse_all get_wire_offer_reply b)
     else if t = file_msg_code FOfferQuery then map_option WireOfferQuery (parse_all get_offer_query b)
     else if t = file_msg_code FOfferQueryReply then map_option WireOfferQueryReply (parse_all get_offer_query_reply b)
     else if t = file_msg_code FPasteQuery then map_option WirePasteQuery (parse_all get_paste_query b)
     else if t = file_msg_code FPasteQueryReply then map_option WirePasteQueryReply (parse_all get_paste_query_reply b)
     else if t = file_msg_code FPrepare then map_option WirePrepare (parse_all get_file_prepare b)
     else if t = file_msg_code FPrepareReply then map_option WirePrepareReply (parse_all get_prepare_reply b)
     else if t = file_msg_code FEnd then map_option WireEnd (parse_all get_file_end b)
     else if t = file_msg_code FEndReply then map_option WireEndReply (parse_all get_end_reply b)
     else if t = file_msg_code FStatus then map_option WireStatus (parse_all get_status_query b)
     else if t = file_msg_code FStatusReply then map_option WireStatusReply (parse_all get_status_reply b)
     else if t = file_msg_code FOfferQueryOrdered then map_option WireOfferQueryOrdered (parse_all get_offer_query b)
     else None)"

lemmas file_parses = parse_ordered_exact
  wire_offer_codec.parses wire_offer_reply_codec.parses offer_query_codec.parses offer_query_reply_codec.parses
  paste_query_codec.parses paste_query_reply_codec.parses file_prepare_codec.parses prepare_reply_codec.parses
  file_end_codec.parses end_reply_codec.parses status_query_codec.parses status_reply_codec.parses

lemma file_msg_code_inj: "file_msg_code a = file_msg_code b \<longleftrightarrow> a = b"
  by (cases a; cases b; simp)

lemma parse_file_message_exact:
  "parse_file_message t b = Some m \<longleftrightarrow>
    file_message_ok m \<and> t = file_msg_code (file_message_type m) \<and> b = file_body m"
proof
  assume "parse_file_message t b = Some m"
  then show "file_message_ok m \<and> t = file_msg_code (file_message_type m) \<and> b = file_body m"
    unfolding parse_file_message_def by (auto simp: file_parses split: if_split_asm)
next
  assume "file_message_ok m \<and> t = file_msg_code (file_message_type m) \<and> b = file_body m"
  then have ok: "file_message_ok m" and t: "t = file_msg_code (file_message_type m)" and b: "b = file_body m" by auto
  show "parse_file_message t b = Some m"
    unfolding t b parse_file_message_def using ok by (cases m) (simp_all add: file_msg_code_inj file_parses)
qed

section \<open>Control messages on the link\<close>

definition frame_control :: "u16 \<Rightarrow> u32 \<Rightarrow> bytes \<Rightarrow> bytes option" where
  "frame_control type seq body = (if unat kMaxControlPayload < length body then None
     else Some (put_u32 kMagic @ put_u16 type @ put_u16 16 @ put_u32 seq @ put_u32 (of_nat (length body)) @ body))"

definition is_file_control :: "u16 \<Rightarrow> bool" where
  "is_file_control type \<longleftrightarrow> 65 \<le> type \<and> type \<le> 76 \<or> type = 86 \<or> type = 87"

text \<open>
  The host takes a request off the link: the message header, then, for a file message of the right
  size, its sequence number, its length and its body. \<open>None\<close> ends the link's session.
\<close>

definition read_file_control :: "(u16 \<times> u32 \<times> bytes) reader" where
  "read_file_control b = do {
     (magic, b) \<leftarrow> get_u32 b;
     (type, b) \<leftarrow> get_u16 b;
     (sz, b) \<leftarrow> get_u16 b;
     if magic \<noteq> kMagic \<or> sz < 8 \<or> \<not> (is_file_control type \<and> sz = 16) then None
     else do {
       (seq, b) \<leftarrow> get_u32 b;
       (payloadBytes, b) \<leftarrow> get_u32 b;
       if kMaxControlPayload < payloadBytes then None
       else do { (body, b) \<leftarrow> get_bytes (unat payloadBytes) b; Some ((type, seq, body), b) } } }"

text \<open>The viewer takes the answer to a request it numbered \<open>seq\<close>.\<close>

definition read_file_reply :: "u16 \<Rightarrow> u32 \<Rightarrow> bytes reader" where
  "read_file_reply replyType seq b = do {
     (magic, b) \<leftarrow> get_u32 b;
     (type, b) \<leftarrow> get_u16 b;
     (sz, b) \<leftarrow> get_u16 b;
     (seq', b) \<leftarrow> get_u32 b;
     (payloadBytes, b) \<leftarrow> get_u32 b;
     if magic \<noteq> kMagic \<or> type \<noteq> replyType \<or> sz \<noteq> 16 \<or> seq' \<noteq> seq \<or> kMaxControlPayload < payloadBytes then None
     else get_bytes (unat payloadBytes) b }"

lemma framed:
  assumes "length body \<le> unat kMaxControlPayload"
  obtains w where "frame_control type seq body = Some w"
    "is_file_control type \<longrightarrow> read_file_control (w @ rest) = Some ((type, seq, body), rest)"
    "read_file_reply type seq (w @ rest) = Some (body, rest)"
proof -
  let ?n = "of_nat (length body) :: u32"
  let ?w = "put_u32 kMagic @ put_u16 type @ put_u16 16 @ put_u32 seq @ put_u32 ?n @ body"
  have n: "unat ?n = length body" by (rule count_exact [OF assms])
  have fits: "\<not> kMaxControlPayload < ?n" using assms n by (simp add: word_less_nat_alt)
  have "get_bytes (length body) (body @ rest) = Some (body, rest)" by (simp add: codecs)
  then show thesis using that [of ?w] assms fits n
    by (simp add: frame_control_def read_file_control_def read_file_reply_def u32_codec.read_back u16_codec.read_back)
qed

subsection \<open>Every message fits\<close>

lemma length_put_offer_item: "offer_item_ok v \<Longrightarrow> length (put_offer_item v) \<le> 546"
  by (simp add: put_offer_item_def offer_item_ok_def kMaxNameUnits_def)

lemma length_put_prepared_item: "length (put_prepared_item v) \<le> 26"
  by (simp add: put_prepared_item_def)

lemma length_offer_items:
  assumes "length items \<le> unat kMaxOfferFiles" and "\<forall>v\<in>set items. offer_item_ok v"
  shows "length (put_list put_offer_item items) \<le> 54604"
proof -
  have "length items \<le> 100" using assms(1) by (simp add: kMaxOfferFiles_def kMaxFiles_def)
  then have "length items * 546 \<le> 54600" by simp
  moreover have "length (put_list put_offer_item items) \<le> 4 + length items * 546"
    by (rule offer_item_codec.length_put_list) (use assms(2) length_put_offer_item in blast)
  ultimately show ?thesis by linarith
qed

lemma length_prepared_items:
  assumes "length items \<le> unat kMaxOfferFiles"
  shows "length (put_list put_prepared_item items) \<le> 2604"
proof -
  have "length items \<le> 100" using assms(1) by (simp add: kMaxOfferFiles_def kMaxFiles_def)
  then have "length items * 26 \<le> 2600" by simp
  moreover have "length (put_list put_prepared_item items) \<le> 4 + length items * 26"
    by (rule prepared_item_codec.length_put_list) (rule length_put_prepared_item)
  ultimately show ?thesis by linarith
qed

lemma file_body_fits: "file_message_ok m \<Longrightarrow> length (file_body m) \<le> unat kMaxControlPayload"
  using length_offer_items length_prepared_items
  by (cases m)
    (force simp: kMaxControlPayload_def put_wire_offer_def wire_offer_ok_def put_wire_offer_reply_def put_offer_query_def
      put_offer_query_reply_def offer_query_reply_ok_def put_paste_query_def put_paste_query_reply_def put_file_prepare_def
      file_prepare_ok_def put_prepare_reply_def prepare_reply_ok_def put_file_end_def put_end_reply_def put_status_query_def
      put_status_reply_def body_ordered_def)+

text \<open>
  C23. Every message of the file copy that its parser accepts fits a control frame, however many files an
  offer lists and however long their names are. Framed and put on the link in front of whatever follows,
  it is taken off it whole by the host, with its type and its number and nothing of what follows, and
  parsed there into the message that was sent; the viewer that takes it as the answer to that number
  gets the same body.
\<close>

theorem file_control_round_trip:
  assumes "file_message_ok m"
  shows "\<exists>w. frame_control (file_msg_code (file_message_type m)) seq (file_body m) = Some w \<and>
    read_file_control (w @ rest) = Some ((file_msg_code (file_message_type m), seq, file_body m), rest) \<and>
    read_file_reply (file_msg_code (file_message_type m)) seq (w @ rest) = Some (file_body m, rest) \<and>
    parse_file_message (file_msg_code (file_message_type m)) (file_body m) = Some m"
proof -
  have "is_file_control (file_msg_code (file_message_type m))" by (cases m) (simp_all add: is_file_control_def)
  moreover have "parse_file_message (file_msg_code (file_message_type m)) (file_body m) = Some m"
    using assms by (simp add: parse_file_message_exact)
  moreover obtain w where "frame_control (file_msg_code (file_message_type m)) seq (file_body m) = Some w"
    "is_file_control (file_msg_code (file_message_type m)) \<longrightarrow>
       read_file_control (w @ rest) = Some ((file_msg_code (file_message_type m), seq, file_body m), rest)"
    "read_file_reply (file_msg_code (file_message_type m)) seq (w @ rest) = Some (file_body m, rest)"
    by (rule framed [OF file_body_fits [OF assms], where type = "file_msg_code (file_message_type m)" and seq = seq and rest = rest])
  ultimately show ?thesis by blast
qed

definition example_wire_offer :: wire_offer where
  "example_wire_offer = \<lparr>wo_epochTag = 1, wo_offerId = 2, wo_revision = 3, wo_items =
     [\<lparr>oi_index = 0, oi_name = utf16 ''a.txt'', oi_size = 5, oi_mtime = 6, oi_attributes = 32\<rparr>]\<rparr>"

theorem file_control_round_trip_witness:
  "\<exists>w. frame_control 65 7 (put_wire_offer example_wire_offer) = Some w \<and>
    read_file_control (w @ [1, 2]) = Some ((65, 7, put_wire_offer example_wire_offer), [1, 2])"
proof -
  have "file_message_ok (WireOffer example_wire_offer)"
    by (simp add: example_wire_offer_def wire_offer_ok_def offer_item_ok_def utf16_def kMaxOfferFiles_def kMaxFiles_def
        kMaxNameUnits_def)
  from file_control_round_trip [OF this, of 7 "[1, 2]"] show ?thesis by auto
qed

section \<open>Messages of the bulk channel\<close>

definition frame_pull :: "file_pull \<Rightarrow> bytes" where
  "frame_pull m = put_u32 kMagic @ put_u16 (file_msg_code FPull) @ put_u16 8 @ put_file_pull m"

definition frame_chunk :: "file_chunk \<Rightarrow> bytes" where
  "frame_chunk m = put_u32 kMagic @ put_u16 (file_msg_code FChunk) @ put_u16 8 @ put_file_chunk m"

definition bulk_type :: "bytes \<Rightarrow> u16" where
  "bulk_type p = (case (do { (magic, b) \<leftarrow> get_u32 p; (type, b) \<leftarrow> get_u16 b; (sz, b) \<leftarrow> get_u16 b; Some (magic, type, sz) })
     of None \<Rightarrow> 0
     | Some (magic, type, sz) \<Rightarrow>
       if magic \<noteq> kMagic \<or> sz \<noteq> 8 then 0
       else if type \<noteq> file_msg_code FPull \<and> type \<noteq> file_msg_code FChunk then 0 else type)"

definition parse_bulk_pull :: "bytes \<Rightarrow> file_pull option" where
  "parse_bulk_pull p = (if bulk_type p \<noteq> file_msg_code FPull then None else parse_all get_file_pull (drop 8 p))"

definition parse_bulk_chunk :: "bytes \<Rightarrow> file_chunk option" where
  "parse_bulk_chunk p = (if bulk_type p \<noteq> file_msg_code FChunk then None else parse_all get_file_chunk (drop 8 p))"

lemma bulk_type_exact:
  assumes "t = file_msg_code FPull \<or> t = file_msg_code FChunk"
  shows "bulk_type p = t \<longleftrightarrow> (\<exists>b. p = put_u32 kMagic @ put_u16 t @ put_u16 8 @ b)"
proof
  assume a: "bulk_type p = t"
  have "t \<noteq> 0" using assms by auto
  with a show "\<exists>b. p = put_u32 kMagic @ put_u16 t @ put_u16 8 @ b"
    by (auto simp: bulk_type_def bind_eq_Some_conv codecs split: option.splits if_splits)
next
  assume "\<exists>b. p = put_u32 kMagic @ put_u16 t @ put_u16 8 @ b"
  then show "bulk_type p = t"
    using assms by (auto simp: bulk_type_def u32_codec.read_back u16_codec.read_back)
qed

lemma parse_bulk_pull_exact: "parse_bulk_pull p = Some m \<longleftrightarrow> file_pull_ok m \<and> p = frame_pull m"
  using bulk_type_exact [of "file_msg_code FPull" p]
  by (auto simp: parse_bulk_pull_def frame_pull_def file_pull_codec.parses simp del: file_msg_code.simps)

lemma parse_bulk_chunk_exact: "parse_bulk_chunk p = Some m \<longleftrightarrow> file_chunk_ok m \<and> p = frame_chunk m"
  using bulk_type_exact [of "file_msg_code FChunk" p]
  by (auto simp: parse_bulk_chunk_def frame_chunk_def file_chunk_codec.parses simp del: file_msg_code.simps)

end
