(* ===== verification/FilePaste.thy ===== *)
theory FilePaste
  imports FileWire
begin

text \<open>
  \<open>file_copy_paste_parts.cpp\<close> and \<open>file_copy_net_rules\<close>: the two ends of a file paste. \<open>FilePullReceiver\<close>
  turns the reads of the clipboard helper into pulls, checks every chunk before a byte of it is kept,
  reads ahead and answers the reads in order; \<open>FileChunkServer\<close> answers pulls. Each operation is one
  critical section; the thread's loop is a turn. The bulk channel is the frames a turn hands to it, the
  message it took off it and whether it is closed; SHA-256 (the platform's), the clock and the source the
  server reads are arguments. Log lines and notifications of the thread are left out.
\<close>

section \<open>The rules\<close>

definition range_ok :: "u64 \<Rightarrow> u64 \<Rightarrow> u64 \<Rightarrow> u64 \<Rightarrow> bool" where
  "range_ok sz offset len maxLength \<longleftrightarrow> len \<le> maxLength \<and> offset \<le> sz \<and> len \<le> sz - offset"

datatype chunk_check = CheckOk | WrongIdentity | WrongLength | WrongHash

definition check_chunk :: "(bytes \<Rightarrow> bytes option) \<Rightarrow> file_pull \<Rightarrow> file_chunk \<Rightarrow> chunk_check" where
  "check_chunk sha256 asked got =
    (if ch_epochTag got \<noteq> pl_epochTag asked \<or> ch_offerId got \<noteq> pl_offerId asked \<or> ch_pasteOp got \<noteq> pl_pasteOp asked \<or>
       ch_bulkGen got \<noteq> pl_bulkGen asked \<or> ch_fileIndex got \<noteq> pl_fileIndex asked \<or>
       ch_requestId got \<noteq> pl_requestId asked \<or> ch_offset got \<noteq> pl_offset asked then WrongIdentity
     else if length (ch_data got) \<noteq> unat (pl_len asked) then WrongLength
     else if sha256 (ch_data got) \<noteq> Some (ch_sha256 got) then WrongHash
     else CheckOk)"

record coverage_tracker =
  cv_size :: u64
  cv_next :: u64
  cv_sequential :: bool

definition new_coverage :: "u64 \<Rightarrow> coverage_tracker" where
  "new_coverage sz = \<lparr>cv_size = sz, cv_next = 0, cv_sequential = True\<rparr>"

definition on_verified :: "u64 \<Rightarrow> u64 \<Rightarrow> coverage_tracker \<Rightarrow> coverage_tracker" where
  "on_verified offset len c =
    (if \<not> cv_sequential c then c
     else if offset \<noteq> cv_next c then c\<lparr>cv_sequential := False\<rparr>
     else c\<lparr>cv_next := cv_next c + len\<rparr>)"

definition whole_file_verified :: "coverage_tracker \<Rightarrow> bool" where
  "whole_file_verified c \<longleftrightarrow> cv_sequential c \<and> cv_next c = cv_size c"

section \<open>The receiving end\<close>

record paste_identity =
  id_epochTag :: u64
  id_offerId :: u64
  id_pasteOp :: u64
  id_bulkGen :: u32

text \<open>
  A range read ahead. Its address, by which an outstanding pull finds it, is \<open>jb_key\<close>: the number of
  the allocation.
\<close>

record read_job =
  jb_key :: nat
  jb_fileIndex :: u32
  jb_offset :: u64
  jb_pulls :: "file_pull list"
  jb_nextPull :: nat
  jb_done :: nat
  jb_data :: bytes
  jb_failed :: bool

record paste_counters =
  ct_readsRequested :: u64
  ct_readsServed :: u64
  ct_readsFailed :: u64
  ct_chunksVerified :: u64
  ct_chunksRejected :: u64
  ct_bytesDelivered :: u64

record pull_receiver =
  pv_pullWindow :: u32
  pv_helperInstance :: u64
  pv_open :: bool
  pv_id :: paste_identity
  pv_sizes :: "u64 list"
  pv_coverage :: "coverage_tracker list"
  pv_jobs :: "read_job list"
  pv_outstanding :: "(u64 \<times> nat \<times> nat) list"
  pv_completed :: "u64 list"
  pv_waiting :: "read_request list"
  pv_aheadOn :: bool
  pv_aheadFile :: u32
  pv_aheadStart :: u64
  pv_ahead :: bytes
  pv_aheadIssuedEnd :: u64
  pv_nextRequestId :: u64
  pv_bytesDelivered :: u64
  pv_failure :: paste_end_reason
  pv_stallUs :: u64
  pv_lastProgressUs :: u64
  pv_counters :: paste_counters
  pv_nextKey :: nat

definition kAheadBytes :: u64 where "kAheadBytes = push_bit 20 1"
definition kCompletedKept :: nat where "kCompletedKept = 32"

definition no_counters :: paste_counters where
  "no_counters = \<lparr>ct_readsRequested = 0, ct_readsServed = 0, ct_readsFailed = 0, ct_chunksVerified = 0,
     ct_chunksRejected = 0, ct_bytesDelivered = 0\<rparr>"

definition no_identity :: paste_identity where
  "no_identity = \<lparr>id_epochTag = 0, id_offerId = 0, id_pasteOp = 0, id_bulkGen = 0\<rparr>"

definition pull_receiver_init :: "u32 \<Rightarrow> pull_receiver" where
  "pull_receiver_init window = \<lparr>pv_pullWindow = window, pv_helperInstance = 0, pv_open = False, pv_id = no_identity,
     pv_sizes = [], pv_coverage = [], pv_jobs = [], pv_outstanding = [], pv_completed = [], pv_waiting = [],
     pv_aheadOn = False, pv_aheadFile = 0, pv_aheadStart = 0, pv_ahead = [], pv_aheadIssuedEnd = 0,
     pv_nextRequestId = 1, pv_bytesDelivered = 0, pv_failure = EndNone, pv_stallUs = 30000000,
     pv_lastProgressUs = 0, pv_counters = no_counters, pv_nextKey = 0\<rparr>"

definition open_paste :: "paste_identity \<Rightarrow> u64 list \<Rightarrow> u64 \<Rightarrow> u64 \<Rightarrow> pull_receiver \<Rightarrow> pull_receiver" where
  "open_paste i sizes helperInstance nowUs r = r\<lparr>pv_id := i, pv_helperInstance := helperInstance, pv_sizes := sizes,
     pv_coverage := map new_coverage sizes, pv_jobs := [], pv_outstanding := [], pv_completed := [],
     pv_waiting := [], pv_aheadOn := False, pv_ahead := [], pv_nextRequestId := 1, pv_bytesDelivered := 0,
     pv_lastProgressUs := nowUs, pv_failure := EndNone, pv_open := True\<rparr>"

definition read_answer :: "read_request \<Rightarrow> file_status \<Rightarrow> bytes \<Rightarrow> read_data" where
  "read_answer m st data = \<lparr>rd_offerId = rq_offerId m, rd_pasteOp = rq_pasteOp m, rd_fileIndex = rq_fileIndex m,
     rd_offset = rq_offset m, rd_status = st, rd_data = data\<rparr>"

definition fail_all :: "file_status \<Rightarrow> pull_receiver \<Rightarrow> read_data list \<times> pull_receiver" where
  "fail_all why r = (map (\<lambda>w. read_answer w why []) (pv_waiting r),
     r\<lparr>pv_counters := (pv_counters r)\<lparr>ct_readsFailed := ct_readsFailed (pv_counters r) + of_nat (length (pv_waiting r))\<rparr>,
       pv_waiting := [], pv_jobs := [], pv_outstanding := [], pv_aheadOn := False, pv_ahead := []\<rparr>)"

definition close_paste :: "file_status \<Rightarrow> pull_receiver \<Rightarrow> read_data list \<times> pull_receiver" where
  "close_paste why r = (if \<not> pv_open r then ([], r)
     else let (ds, r) = fail_all why r in (ds, r\<lparr>pv_open := False\<rparr>))"

definition reset_ahead :: "u32 \<Rightarrow> u64 \<Rightarrow> pull_receiver \<Rightarrow> pull_receiver" where
  "reset_ahead fileIndex offset r = r\<lparr>pv_aheadOn := True, pv_aheadFile := fileIndex, pv_aheadStart := offset,
     pv_ahead := [], pv_aheadIssuedEnd := offset\<rparr>"

subsection \<open>Reads are answered out of the window\<close>

fun serve_reads :: "read_request list \<Rightarrow> pull_receiver \<Rightarrow> read_data list \<times> pull_receiver" where
  "serve_reads [] r = ([], r\<lparr>pv_waiting := []\<rparr>)"
| "serve_reads (w # ws) r =
    (let r = (if \<not> pv_aheadOn r \<or> rq_fileIndex w \<noteq> pv_aheadFile r \<or> rq_offset w \<noteq> pv_aheadStart r
         then reset_ahead (rq_fileIndex w) (rq_offset w) r else r);
         n = unat (rq_len w) in
     if length (pv_ahead r) < n then ([], r\<lparr>pv_waiting := w # ws\<rparr>)
     else let (ds, r') = serve_reads ws (r\<lparr>pv_ahead := drop n (pv_ahead r),
            pv_aheadStart := pv_aheadStart r + ucast (rq_len w),
            pv_bytesDelivered := pv_bytesDelivered r + ucast (rq_len w),
            pv_counters := (pv_counters r)\<lparr>ct_bytesDelivered := ct_bytesDelivered (pv_counters r) + ucast (rq_len w),
              ct_readsServed := ct_readsServed (pv_counters r) + 1\<rparr>\<rparr>) in
       (read_answer w StatusOk (take n (pv_ahead r)) # ds, r'))"

subsection \<open>Ranges are pulled ahead\<close>

definition job_pull :: "pull_receiver \<Rightarrow> u64 \<Rightarrow> nat \<Rightarrow> file_pull" where
  "job_pull r len i = (let off = of_nat (i * unat kMaxFileChunkBytes) in
     \<lparr>pl_epochTag = id_epochTag (pv_id r), pl_offerId = id_offerId (pv_id r), pl_pasteOp = id_pasteOp (pv_id r),
      pl_bulkGen = id_bulkGen (pv_id r), pl_fileIndex = pv_aheadFile r, pl_requestId = 0,
      pl_offset = pv_aheadIssuedEnd r + off, pl_len = ucast (min (ucast kMaxFileChunkBytes) (len - off)),
      pl_triggerRequestId = kNoTrigger\<rparr>)"

definition pieces :: "u64 \<Rightarrow> nat" where
  "pieces len = (unat len + unat kMaxFileChunkBytes - 1) div unat kMaxFileChunkBytes"

definition new_job :: "u64 \<Rightarrow> pull_receiver \<Rightarrow> read_job" where
  "new_job len r = \<lparr>jb_key = pv_nextKey r, jb_fileIndex = pv_aheadFile r, jb_offset = pv_aheadIssuedEnd r,
     jb_pulls = map (job_pull r len) [0..<pieces len], jb_nextPull = 0, jb_done = 0,
     jb_data = replicate (unat len) 0, jb_failed = False\<rparr>"

lemma issue_progress:
  assumes "(e :: u64) < t"
  shows "unat (e + min (ucast kMaxChunkBytes) (t - e)) = unat e + min 262144 (unat t - unat e)"
proof -
  have k: "unat (ucast kMaxChunkBytes :: u64) = 262144" by (simp add: kMaxChunkBytes_def)
  have le: "unat e < unat t" "unat t < 2 ^ 64" using assms unsigned_less [of t] by (simp_all add: word_less_nat_alt)
  then have "unat (t - e) = unat t - unat e" by (simp add: unat_sub_if')
  then have m: "unat (min (ucast kMaxChunkBytes) (t - e)) = min 262144 (unat t - unat e)"
    using k by (simp add: min_def word_le_nat_alt)
  show ?thesis using le by (simp add: unat_word_ariths m)
qed

function issue_jobs :: "u64 \<Rightarrow> pull_receiver \<Rightarrow> pull_receiver" where
  "issue_jobs target r =
    (if \<not> pv_aheadIssuedEnd r < target then r
     else let len = min (ucast kMaxChunkBytes) (target - pv_aheadIssuedEnd r) in
       issue_jobs target (r\<lparr>pv_jobs := pv_jobs r @ [new_job len r], pv_nextKey := pv_nextKey r + 1,
         pv_aheadIssuedEnd := pv_aheadIssuedEnd r + len\<rparr>))"
  by pat_completeness auto

termination
proof (relation "measure (\<lambda>(target, r). unat target - unat (pv_aheadIssuedEnd r))")
qed (auto simp: issue_progress word_less_nat_alt)

declare issue_jobs.simps [simp del]

fun pump_job :: "nat \<Rightarrow> read_job \<Rightarrow> pull_receiver \<Rightarrow> read_job \<times> file_pull list \<times> pull_receiver" where
  "pump_job 0 j r = (j, [], r)"
| "pump_job (Suc n) j r =
    (if jb_failed j \<or> length (jb_pulls j) \<le> jb_nextPull j \<or> unat (pv_pullWindow r) \<le> length (pv_outstanding r)
     then (j, [], r)
     else let p = (jb_pulls j ! jb_nextPull j)\<lparr>pl_requestId := pv_nextRequestId r,
            pl_triggerRequestId := (case pv_completed r of [] \<Rightarrow> kNoTrigger | c # _ \<Rightarrow> c)\<rparr>;
          (j', ps, r') = pump_job n (j\<lparr>jb_pulls := (jb_pulls j)[jb_nextPull j := p], jb_nextPull := jb_nextPull j + 1\<rparr>)
            (r\<lparr>pv_nextRequestId := pv_nextRequestId r + 1, pv_completed := tl (pv_completed r),
              pv_outstanding := (pl_requestId p, jb_key j, jb_nextPull j) #
                filter (\<lambda>x. fst x \<noteq> pl_requestId p) (pv_outstanding r)\<rparr>) in
       (j', p # ps, r'))"

fun pump_jobs :: "read_job list \<Rightarrow> pull_receiver \<Rightarrow> read_job list \<times> file_pull list \<times> pull_receiver" where
  "pump_jobs [] r = ([], [], r)"
| "pump_jobs (j # js) r = (case pump_job (length (jb_pulls j)) j r of (j', ps, r') \<Rightarrow>
     (if unat (pv_pullWindow r') \<le> length (pv_outstanding r') then (j' # js, ps, r')
      else case pump_jobs js r' of (js', qs, r'') \<Rightarrow> (j' # js', ps @ qs, r'')))"

definition pump_pulls :: "pull_receiver \<Rightarrow> file_pull list \<times> pull_receiver" where
  "pump_pulls r = (if \<not> pv_open r then ([], r)
     else case pump_jobs (pv_jobs r) r of (js, ps, r') \<Rightarrow> (ps, r'\<lparr>pv_jobs := js\<rparr>))"

definition ahead_target :: "pull_receiver \<Rightarrow> u64" where
  "ahead_target r = (let need = (case pv_waiting r of [] \<Rightarrow> 0 | w # _ \<Rightarrow> ucast (rq_len w)) in
     min (pv_sizes r ! unat (pv_aheadFile r)) (pv_aheadStart r + need + kAheadBytes))"

definition process_reads :: "pull_receiver \<Rightarrow> read_data list \<times> file_pull list \<times> pull_receiver" where
  "process_reads r = (case serve_reads (pv_waiting r) r of (ds, r) \<Rightarrow>
     (if \<not> pv_aheadOn r \<or> length (pv_sizes r) \<le> unat (pv_aheadFile r) then (ds, [], r)
      else case pump_pulls (issue_jobs (ahead_target r) r) of (ps, r) \<Rightarrow> (ds, ps, r)))"

subsection \<open>A read of the helper\<close>

text \<open>The helper instance the answers go to, the answers, and the pulls handed to the bulk channel.\<close>

definition refuse_read :: "read_request \<Rightarrow> u64 \<Rightarrow> file_status \<Rightarrow> pull_receiver \<Rightarrow> (u64 \<times> read_data list) \<times> file_pull list \<times> pull_receiver" where
  "refuse_read m inst st r = ((inst, if rq_pasteOp m = 0 then [] else [read_answer m st []]), [],
     if st \<noteq> StatusOk \<and> rq_pasteOp m \<noteq> 0
     then r\<lparr>pv_counters := (pv_counters r)\<lparr>ct_readsFailed := ct_readsFailed (pv_counters r) + 1\<rparr>\<rparr> else r)"

definition queue_read :: "read_request \<Rightarrow> u64 \<Rightarrow> pull_receiver \<Rightarrow> (u64 \<times> read_data list) \<times> file_pull list \<times> pull_receiver" where
  "queue_read m nowUs r =
    (let r = (if pv_waiting r = [] then r\<lparr>pv_lastProgressUs := nowUs\<rparr> else r) in
     case process_reads (r\<lparr>pv_waiting := pv_waiting r @ [m]\<rparr>) of (ds, ps, r) \<Rightarrow> ((pv_helperInstance r, ds), ps, r))"

definition submit :: "read_request \<Rightarrow> u64 \<Rightarrow> u64 \<Rightarrow> pull_receiver \<Rightarrow> (u64 \<times> read_data list) \<times> file_pull list \<times> pull_receiver" where
  "submit m inst nowUs r =
    (let r = r\<lparr>pv_counters := (pv_counters r)\<lparr>ct_readsRequested := ct_readsRequested (pv_counters r) + 1\<rparr>\<rparr> in
     if \<not> (pv_open r \<and> id_offerId (pv_id r) = rq_offerId m \<and> id_pasteOp (pv_id r) = rq_pasteOp m \<and>
       unat (rq_fileIndex m) < length (pv_sizes r)) then refuse_read m inst StatusUnknownId r
     else if \<not> range_ok (pv_sizes r ! unat (rq_fileIndex m)) (rq_offset m) (ucast (rq_len m)) (ucast kMaxChunkBytes)
     then refuse_read m inst StatusBadRequest r
     else if rq_len m = 0 then refuse_read m inst StatusOk r
     else if pv_failure r = EndVerification \<or> pv_failure r = EndIdle then refuse_read m inst StatusReadError r
     else queue_read m nowUs r)"

subsection \<open>A turn of the thread\<close>

definition names_paste :: "paste_identity \<Rightarrow> file_chunk \<Rightarrow> bool" where
  "names_paste i c \<longleftrightarrow> ch_epochTag c = id_epochTag i \<and> ch_offerId c = id_offerId i \<and> ch_pasteOp c = id_pasteOp i \<and>
     ch_bulkGen c = id_bulkGen i"

definition store_chunk :: "file_chunk \<Rightarrow> read_job \<Rightarrow> read_job" where
  "store_chunk c j = j\<lparr>jb_data := overwrite (jb_data j) (unat (ch_offset c - jb_offset j)) (ch_data c),
     jb_done := jb_done j + 1\<rparr>"

text \<open>A chunk off the bulk stream; \<open>True\<close> when it fails its check.\<close>

definition take_chunk :: "(bytes \<Rightarrow> bytes option) \<Rightarrow> u64 \<Rightarrow> file_chunk \<Rightarrow> pull_receiver \<Rightarrow> bool \<times> pull_receiver" where
  "take_chunk sha256 nowUs c r =
    (let reject = (\<lambda>r. r\<lparr>pv_counters := (pv_counters r)\<lparr>ct_chunksRejected := ct_chunksRejected (pv_counters r) + 1\<rparr>\<rparr>) in
     case (if names_paste (pv_id r) c then map_of (pv_outstanding r) (ch_requestId c) else None) of
       None \<Rightarrow> (False, reject r)
     | Some (key, i) \<Rightarrow> (case find (\<lambda>j. jb_key j = key) (pv_jobs r) of
         None \<Rightarrow> (False, reject r)
       | Some j \<Rightarrow>
         (let r = r\<lparr>pv_outstanding := filter (\<lambda>x. fst x \<noteq> ch_requestId c) (pv_outstanding r)\<rparr>;
              change = (\<lambda>f. map (\<lambda>x. if jb_key x = key then f x else x) (pv_jobs r)) in
          if check_chunk sha256 (jb_pulls j ! i) c \<noteq> CheckOk
          then (True, (reject r)\<lparr>pv_jobs := change (\<lambda>x. x\<lparr>jb_failed := True\<rparr>), pv_failure := EndVerification\<rparr>)
          else let completed = pv_completed r @ [ch_requestId c] in
            (False, r\<lparr>pv_counters := (pv_counters r)\<lparr>ct_chunksVerified := ct_chunksVerified (pv_counters r) + 1\<rparr>,
              pv_lastProgressUs := nowUs, pv_jobs := change (store_chunk c),
              pv_completed := drop (length completed - kCompletedKept) completed\<rparr>))))"

definition keep_job :: "read_job \<Rightarrow> pull_receiver \<Rightarrow> pull_receiver" where
  "keep_job j r =
    (if pv_aheadOn r \<and> jb_fileIndex j = pv_aheadFile r \<and> jb_offset j = pv_aheadStart r + of_nat (length (pv_ahead r))
     then r\<lparr>pv_ahead := pv_ahead r @ jb_data j,
       pv_coverage := (if unat (jb_fileIndex j) < length (pv_coverage r)
         then (pv_coverage r)[unat (jb_fileIndex j) :=
           on_verified (jb_offset j) (of_nat (length (jb_data j))) (pv_coverage r ! unat (jb_fileIndex j))]
         else pv_coverage r)\<rparr>
     else r)"

fun drain_jobs :: "read_job list \<Rightarrow> pull_receiver \<Rightarrow> pull_receiver" where
  "drain_jobs [] r = r\<lparr>pv_jobs := []\<rparr>"
| "drain_jobs (j # js) r =
    (if jb_done j \<noteq> length (jb_pulls j) then r\<lparr>pv_jobs := j # js\<rparr> else drain_jobs js (keep_job j r))"

definition give_up :: "paste_end_reason \<Rightarrow> file_status \<Rightarrow> pull_receiver \<Rightarrow> read_data list \<times> pull_receiver" where
  "give_up why st r = fail_all st (if pv_failure r = EndNone then r\<lparr>pv_failure := why\<rparr> else r)"

definition loop_turn ::
    "(bytes \<Rightarrow> bytes option) \<Rightarrow> bytes option \<Rightarrow> bool \<Rightarrow> u64 \<Rightarrow> pull_receiver \<Rightarrow>
     (u64 \<times> read_data list) \<times> file_pull list \<times> pull_receiver" where
  "loop_turn sha256 msg closed nowUs r =
    (if \<not> pv_open r then ((0, []), [], r)
     else let inst = pv_helperInstance r;
       (failed, r) = (case Option.bind msg parse_bulk_chunk of None \<Rightarrow> (False, r) | Some c \<Rightarrow> take_chunk sha256 nowUs c r);
       (ds1, ps1, r) = (if failed then (case fail_all StatusReadError r of (ds, r) \<Rightarrow> (ds, [], r))
         else process_reads (drain_jobs (pv_jobs r) r));
       (ds2, r) = (if pv_waiting r \<noteq> [] \<and> pv_stallUs r < nowUs - pv_lastProgressUs r
         then give_up EndIdle StatusTimeout r else ([], r));
       (ds3, r) = (if closed then (case give_up EndSession StatusReadError r of (ds, r) \<Rightarrow> (ds, r\<lparr>pv_open := False\<rparr>))
         else ([], r));
       (ps2, r) = pump_pulls r in
     ((inst, ds1 @ ds2 @ ds3), ps1 @ ps2, r))"

section \<open>The serving end\<close>

record server_counters =
  sc_chunksServed :: u64
  sc_bytesServed :: u64
  sc_pullsRefused :: u64

record chunk_server =
  ks_active :: bool
  ks_id :: paste_identity
  ks_sizes :: "u64 list"
  ks_sent :: "(u64 \<times> u32) list"
  ks_counters :: server_counters

record bulk_served =
  bs_completedChunk :: bool
  bs_completedBytes :: u32
  bs_triggerKey :: u64
  bs_chunkKey :: u64

definition kBulkNoKey :: u64 where "kBulkNoKey = NOT 0"

definition chunk_server_init :: chunk_server where
  "chunk_server_init = \<lparr>ks_active = False, ks_id = no_identity, ks_sizes = [], ks_sent = [],
     ks_counters = \<lparr>sc_chunksServed = 0, sc_bytesServed = 0, sc_pullsRefused = 0\<rparr>\<rparr>"

definition server_begin :: "paste_identity \<Rightarrow> u64 list \<Rightarrow> chunk_server \<Rightarrow> chunk_server" where
  "server_begin i sizes s = s\<lparr>ks_active := True, ks_id := i, ks_sizes := sizes, ks_sent := []\<rparr>"

definition server_end :: "chunk_server \<Rightarrow> chunk_server" where
  "server_end s = s\<lparr>ks_active := False, ks_sent := []\<rparr>"

definition refuse_pull :: "chunk_server \<Rightarrow> chunk_server" where
  "refuse_pull s = s\<lparr>ks_counters := (ks_counters s)\<lparr>sc_pullsRefused := sc_pullsRefused (ks_counters s) + 1\<rparr>\<rparr>"

text \<open>A pull is answered in two critical sections, the source read between them.\<close>

definition admits_pull :: "chunk_server \<Rightarrow> file_pull \<Rightarrow> bool" where
  "admits_pull s p \<longleftrightarrow> ks_active s \<and> pl_epochTag p = id_epochTag (ks_id s) \<and> pl_offerId p = id_offerId (ks_id s) \<and>
     pl_pasteOp p = id_pasteOp (ks_id s) \<and> pl_bulkGen p = id_bulkGen (ks_id s) \<and>
     unat (pl_fileIndex p) < length (ks_sizes s) \<and>
     range_ok (ks_sizes s ! unat (pl_fileIndex p)) (pl_offset p) (ucast (pl_len p)) (ucast kMaxFileChunkBytes)"

definition answer_pull :: "(bytes \<Rightarrow> bytes option) \<Rightarrow> (u32 \<Rightarrow> u64 \<Rightarrow> u32 \<Rightarrow> file_status \<times> bytes) \<Rightarrow> file_pull \<Rightarrow> file_chunk option" where
  "answer_pull sha256 read p = (case read (pl_fileIndex p) (pl_offset p) (pl_len p) of (st, data) \<Rightarrow>
     (if st \<noteq> StatusOk \<or> length data \<noteq> unat (pl_len p) then None
      else map_option (\<lambda>h. \<lparr>ch_epochTag = pl_epochTag p, ch_offerId = pl_offerId p, ch_pasteOp = pl_pasteOp p,
        ch_bulkGen = pl_bulkGen p, ch_fileIndex = pl_fileIndex p, ch_requestId = pl_requestId p,
        ch_offset = pl_offset p, ch_sha256 = h, ch_data = data\<rparr>) (sha256 data)))"

definition record_served :: "file_pull \<Rightarrow> chunk_server \<Rightarrow> bulk_served \<times> chunk_server" where
  "record_served p s =
    (let confirmed = (if pl_triggerRequestId p = kNoTrigger then None
           else find (\<lambda>x. fst x = pl_triggerRequestId p) (ks_sent s));
         sent = (case confirmed of None \<Rightarrow> ks_sent s | Some x \<Rightarrow> remove1 x (ks_sent s));
         again = (\<exists>x\<in>set sent. fst x = pl_requestId p);
         sent = (if again then sent else (let l = sent @ [(pl_requestId p, pl_len p)] in if 32 < length l then tl l else l)) in
     (\<lparr>bs_completedChunk = (confirmed \<noteq> None), bs_completedBytes = (case confirmed of None \<Rightarrow> 0 | Some x \<Rightarrow> snd x),
        bs_triggerKey = (case confirmed of None \<Rightarrow> kBulkNoKey | Some _ \<Rightarrow> pl_triggerRequestId p),
        bs_chunkKey = pl_requestId p\<rparr>,
      s\<lparr>ks_sent := sent, ks_counters := (ks_counters s)\<lparr>sc_chunksServed := sc_chunksServed (ks_counters s) + 1,
        sc_bytesServed := sc_bytesServed (ks_counters s) + ucast (pl_len p)\<rparr>\<rparr>))"

definition serve_pull ::
    "(bytes \<Rightarrow> bytes option) \<Rightarrow> (u32 \<Rightarrow> u64 \<Rightarrow> u32 \<Rightarrow> file_status \<times> bytes) \<Rightarrow> bytes \<Rightarrow> chunk_server \<Rightarrow>
     (bytes \<times> bulk_served) option \<times> chunk_server" where
  "serve_pull sha256 read msg s = (case parse_bulk_pull msg of None \<Rightarrow> (None, s)
     | Some p \<Rightarrow> (if \<not> admits_pull s p then (None, refuse_pull s)
       else case answer_pull sha256 read p of None \<Rightarrow> (None, refuse_pull s)
       | Some c \<Rightarrow> (case record_served p s of (served, s) \<Rightarrow> (Some (frame_chunk c, served), s))))"

definition chunk_key_of :: "bytes \<Rightarrow> u64 option" where
  "chunk_key_of msg = (if bulk_type msg \<noteq> file_msg_code FChunk \<or> length msg < 48 then None
     else Some (of_nat (le_value (slice msg 40 8))))"

end
