(* ===== verification/FilePasteRun.thy ===== *)
theory FilePasteRun
  imports FilePaste
begin

text \<open>
  What a paste hands to its consumer. \<open>jobs_good\<close> and \<open>paste_good\<close> say what the receiver knows of the
  bytes it holds; every operation keeps them, and the answers an operation gives are the file's bytes.
\<close>

section \<open>What the receiver holds\<close>

definition piece_right :: "(u32 \<Rightarrow> bytes) \<Rightarrow> read_job \<Rightarrow> nat \<Rightarrow> bool" where
  "piece_right f j k \<longleftrightarrow> slice (jb_data j) (k * 65536) (unat (pl_len (jb_pulls j ! k))) =
     slice (f (jb_fileIndex j)) (unat (jb_offset j) + k * 65536) (unat (pl_len (jb_pulls j ! k)))"

definition pull_of :: "read_job \<Rightarrow> nat \<Rightarrow> bool" where
  "pull_of j k \<longleftrightarrow> (let p = jb_pulls j ! k in
     pl_fileIndex p = jb_fileIndex j \<and> pl_offset p = jb_offset j + of_nat (k * 65536) \<and>
     unat (pl_len p) = min 65536 (length (jb_data j) - k * 65536))"

definition job_shape :: "read_job \<Rightarrow> bool" where
  "job_shape j \<longleftrightarrow> unat (jb_offset j) + length (jb_data j) < 2 ^ 64 \<and>
     length (jb_pulls j) = (length (jb_data j) + 65535) div 65536 \<and> jb_nextPull j \<le> length (jb_pulls j) \<and>
     (\<forall>k<length (jb_pulls j). pull_of j k)"

type_synonym pulls_out = "(u64 \<times> nat \<times> nat) list"

definition awaited :: "pulls_out \<Rightarrow> read_job \<Rightarrow> nat set" where
  "awaited out j = {k. (jb_key j, k) \<in> set (map snd out)}"

definition job_good :: "(u32 \<Rightarrow> bytes) \<Rightarrow> pulls_out \<Rightarrow> read_job \<Rightarrow> bool" where
  "job_good f out j \<longleftrightarrow> job_shape j \<and> awaited out j \<subseteq> {..<jb_nextPull j} \<and>
     (\<exists>A. A \<subseteq> {..<jb_nextPull j} \<and> card A = jb_done j \<and> A \<inter> awaited out j = {} \<and> (\<forall>k\<in>A. piece_right f j k))"

definition jobs_good :: "(u32 \<Rightarrow> bytes) \<Rightarrow> nat \<Rightarrow> read_job list \<Rightarrow> pulls_out \<Rightarrow> bool" where
  "jobs_good f nk js out \<longleftrightarrow> distinct (map jb_key js) \<and> (\<forall>j\<in>set js. jb_key j < nk \<and> job_good f out j) \<and>
     distinct (map snd out) \<and> (\<forall>x\<in>set out. fst (snd x) < nk)"

definition window_good :: "(u32 \<Rightarrow> bytes) \<Rightarrow> pull_receiver \<Rightarrow> bool" where
  "window_good f r \<longleftrightarrow> (pv_aheadOn r \<longrightarrow> unat (pv_aheadStart r) + length (pv_ahead r) < 2 ^ 64 \<and>
     pv_ahead r = slice (f (pv_aheadFile r)) (unat (pv_aheadStart r)) (length (pv_ahead r)))"

definition paste_good :: "(paste_identity \<Rightarrow> u32 \<Rightarrow> bytes) \<Rightarrow> pull_receiver \<Rightarrow> bool" where
  "paste_good files r \<longleftrightarrow> jobs_good (files (pv_id r)) (pv_nextKey r) (pv_jobs r) (pv_outstanding r) \<and>
     window_good (files (pv_id r)) r"

subsection \<open>A finished range holds the file's bytes\<close>

lemma slice_eqI:
  assumes "length xs = n" and "off + n \<le> length ys" and "\<And>k. k < n \<Longrightarrow> xs ! k = ys ! (off + k)"
  shows "xs = slice ys off n"
  using assms by (intro nth_equalityI) (auto simp: length_slice nth_slice)

lemma finished_job:
  assumes good: "job_good f out j" and all: "jb_done j = length (jb_pulls j)"
  shows "jb_data j = slice (f (jb_fileIndex j)) (unat (jb_offset j)) (length (jb_data j))"
proof -
  let ?n = "length (jb_data j)" and ?m = "length (jb_pulls j)" and ?F = "f (jb_fileIndex j)"
  obtain A where A: "A \<subseteq> {..<jb_nextPull j}" "card A = ?m" "\<forall>k\<in>A. piece_right f j k"
    using good all by (auto simp: job_good_def)
  have shape: "?m = (?n + 65535) div 65536" "jb_nextPull j \<le> ?m" "\<forall>k<?m. pull_of j k"
    using good by (auto simp: job_good_def job_shape_def)
  have "A \<subseteq> {..<?m}" using A(1) shape(2) by auto
  then have "A = {..<?m}" using A(2) by (intro card_subset_eq) auto
  then have right: "piece_right f j k" if "k < ?m" for k using A(3) that by auto
  have at: "unat (jb_offset j) + i < length ?F \<and> jb_data j ! i = ?F ! (unat (jb_offset j) + i)" if i: "i < ?n" for i
  proof -
    define k where "k = i div 65536"
    have k: "k < ?m" using i shape(1) by (simp add: k_def less_eq_div_iff_mult_less_eq div_less_mono)
    let ?l = "unat (pl_len (jb_pulls j ! k))"
    have l: "?l = min 65536 (?n - k * 65536)" using shape(3) k by (simp add: pull_of_def Let_def)
    have "k * 65536 \<le> i \<and> i < k * 65536 + 65536"
      using div_mult_mod_eq [of i 65536] mod_less_divisor [of 65536 i] unfolding k_def by linarith
    then have r: "i - k * 65536 < ?l" "k * 65536 \<le> i" using i l by auto
    have eq: "slice (jb_data j) (k * 65536) ?l = slice ?F (unat (jb_offset j) + k * 65536) ?l"
      using right [OF k] by (simp add: piece_right_def)
    have "length (slice (jb_data j) (k * 65536) ?l) = ?l" using l by (simp add: length_slice)
    then have fl: "unat (jb_offset j) + k * 65536 + ?l \<le> length ?F"
      using eq r(1) by (simp add: length_slice)
    have "jb_data j ! i = slice (jb_data j) (k * 65536) ?l ! (i - k * 65536)"
      using r i by (simp add: nth_slice)
    also have "\<dots> = ?F ! (unat (jb_offset j) + i)" unfolding eq using r fl by (simp add: nth_slice)
    finally show ?thesis using fl r by simp
  qed
  show ?thesis
  proof (cases "?n = 0")
    case False
    then have "unat (jb_offset j) + ?n \<le> length ?F" using at [of "?n - 1"] by linarith
    then show ?thesis using at by (intro slice_eqI) simp_all
  qed (simp add: slice_def)
qed


subsection \<open>A chunk arrives\<close>

lemma slice_overwrite_same: "off + length x \<le> length d \<Longrightarrow> slice (overwrite d off x) off (length x) = x"
  by (simp add: slice_def overwrite_def)

lemma slice_overwrite_apart:
  assumes "off + length x \<le> length d" and "a + n \<le> off \<or> off + length x \<le> a"
  shows "slice (overwrite d off x) a n = slice d a n"
  by (rule nth_equalityI) (use assms in \<open>auto simp: length_slice length_overwrite nth_slice nth_overwrite\<close>)

lemma awaited_filter: "awaited (filter P out) j \<subseteq> awaited out j"
  by (auto simp: awaited_def)

lemma job_good_filter: "job_good f out j \<Longrightarrow> job_good f (filter P out) j"
  using awaited_filter [of P out j] unfolding job_good_def by blast

lemma awaited_key: "jb_key i = jb_key j \<Longrightarrow> awaited out i = awaited out j"
  by (simp add: awaited_def)

definition file_chunk_true :: "(u32 \<Rightarrow> bytes) \<Rightarrow> file_chunk \<Rightarrow> bool" where
  "file_chunk_true f c \<longleftrightarrow> ch_data c = slice (f (ch_fileIndex c)) (unat (ch_offset c)) (length (ch_data c))"

lemma stored_chunk:
  assumes good: "job_good f out j" and dist: "distinct (map snd out)"
    and out: "(ch_requestId c, jb_key j, k) \<in> set out"
    and check: "check_chunk sha (jb_pulls j ! k) c = CheckOk" and true: "file_chunk_true f c"
  shows "job_good f (filter (\<lambda>x. fst x \<noteq> ch_requestId c) out) (store_chunk c j)"
proof -
  let ?out = "filter (\<lambda>x. fst x \<noteq> ch_requestId c) out" and ?n = "length (jb_data j)"
  obtain A where A: "A \<subseteq> {..<jb_nextPull j}" "card A = jb_done j" "A \<inter> awaited out j = {}" "\<forall>k\<in>A. piece_right f j k"
    and shape: "job_shape j" and aw: "awaited out j \<subseteq> {..<jb_nextPull j}"
    using good by (auto simp: job_good_def)
  have k: "k \<in> awaited out j" using out by (force simp: awaited_def)
  then have km: "k < length (jb_pulls j)" "k < jb_nextPull j" using aw shape by (auto simp: job_shape_def)
  then have pull: "pull_of j k" and m: "length (jb_pulls j) = (?n + 65535) div 65536" and fit: "unat (jb_offset j) + ?n < 2 ^ 64"
    using shape by (auto simp: job_shape_def)
  have kn: "k * 65536 < ?n" 
  proof -
    have "Suc k \<le> (?n + 65535) div 65536" using km(1) m by simp
    then have "Suc k * 65536 \<le> ?n + 65535" by (simp only: less_eq_div_iff_mult_less_eq zero_less_numeral)
    then show ?thesis by simp
  qed
  have "pl_offset (jb_pulls j ! k) = jb_offset j + of_nat (k * 65536)" "pl_fileIndex (jb_pulls j ! k) = jb_fileIndex j"
    and pl: "unat (pl_len (jb_pulls j ! k)) = min 65536 (?n - k * 65536)"
    using pull by (auto simp: pull_of_def Let_def)
  then have co: "ch_offset c = jb_offset j + of_nat (k * 65536)" "ch_fileIndex c = jb_fileIndex j"
    and cl: "length (ch_data c) = min 65536 (?n - k * 65536)"
    using check by (auto simp: check_chunk_def split: if_split_asm)
  have small: "k * 65536 < 2 ^ 64" using kn fit by simp
  have u: "unat (of_nat (k * 65536) :: u64) = k * 65536" by (simp only: unat_of_nat) (use small in simp)
  have off: "unat (ch_offset c - jb_offset j) = k * 65536" using u unfolding co by (metis add_diff_cancel_left')
  have uo: "unat (ch_offset c) = unat (jb_offset j) + k * 65536"
    using kn fit unfolding co by (subst unat_word_ariths, subst u) simp
  have room: "k * 65536 + length (ch_data c) \<le> ?n" using cl kn by simp
  have len: "length (jb_data (store_chunk c j)) = ?n" using room off by (simp add: store_chunk_def length_overwrite)
  have same: "jb_pulls (store_chunk c j) = jb_pulls j" "jb_offset (store_chunk c j) = jb_offset j"
    "jb_fileIndex (store_chunk c j) = jb_fileIndex j" "jb_nextPull (store_chunk c j) = jb_nextPull j"
    "jb_key (store_chunk c j) = jb_key j" "jb_done (store_chunk c j) = jb_done j + 1"
    by (simp_all add: store_chunk_def)
  have "slice (jb_data (store_chunk c j)) (k * 65536) (length (ch_data c)) = ch_data c"
    using slice_overwrite_same [OF room] off by (simp add: store_chunk_def)
  also have "\<dots> = slice (f (jb_fileIndex j)) (unat (jb_offset j) + k * 65536) (length (ch_data c))"
    using true uo co(2) by (simp add: file_chunk_true_def)
  finally have here: "piece_right f (store_chunk c j) k" using cl pl by (simp add: piece_right_def same)
  have there: "piece_right f (store_chunk c j) i" if "piece_right f j i" "i \<noteq> k" "i < length (jb_pulls j)" for i
  proof -
    have "unat (pl_len (jb_pulls j ! i)) \<le> 65536" "length (ch_data c) \<le> 65536"
      using shape that(3) cl by (auto simp: job_shape_def pull_of_def Let_def)
    moreover have "i * 65536 + 65536 \<le> k * 65536 \<or> k * 65536 + 65536 \<le> i * 65536" using that(2) by linarith
    ultimately have "i * 65536 + unat (pl_len (jb_pulls j ! i)) \<le> k * 65536 \<or> k * 65536 + length (ch_data c) \<le> i * 65536"
      by linarith
    then show ?thesis using that(1) slice_overwrite_apart [OF room] off by (simp add: piece_right_def same store_chunk_def)
  qed
  have gone: "k \<notin> awaited ?out j"
  proof
    assume "k \<in> awaited ?out j"
    then obtain q where "(q, jb_key j, k) \<in> set out" "q \<noteq> ch_requestId c" by (auto simp: awaited_def)
    then show False using out dist by (metis distinct_map inj_onD prod.inject snd_conv)
  qed
  have "k \<notin> A" using A(3) k by auto
  moreover have "finite A" using A(1) finite_subset by blast
  ultimately have "card (insert k A) = jb_done j + 1" using A(2) by simp
  moreover have "\<forall>i\<in>insert k A. piece_right f (store_chunk c j) i"
  proof
    fix i assume i: "i \<in> insert k A"
    show "piece_right f (store_chunk c j) i"
    proof (cases "i = k")
      case False
      then have "i \<in> A" "i < length (jb_pulls j)" using i A(1) shape by (auto simp: job_shape_def)
      then show ?thesis using there False A(4) by blast
    qed (simp add: here)
  qed
  moreover have "insert k A \<inter> awaited ?out (store_chunk c j) = {}"
    using gone A(3) awaited_filter [of "\<lambda>x. fst x \<noteq> ch_requestId c" out j] awaited_key [OF same(5)] by auto
  moreover have "insert k A \<subseteq> {..<jb_nextPull (store_chunk c j)}" using A(1) km(2) same(4) by auto
  moreover have "awaited ?out (store_chunk c j) \<subseteq> {..<jb_nextPull (store_chunk c j)}"
    using aw awaited_filter [of "\<lambda>x. fst x \<noteq> ch_requestId c" out j] awaited_key [OF same(5)] same(4) by auto
  moreover have "job_shape (store_chunk c j)" using shape len same by (simp add: job_shape_def pull_of_def)
  ultimately show ?thesis using same(6) unfolding job_good_def by metis
qed

lemma jobs_good_update:
  assumes "jobs_good f nk js out" and "\<And>x. jb_key (g x) = jb_key x"
    and "\<And>j. j \<in> set js \<Longrightarrow> jb_key j = key \<Longrightarrow> job_good f (filter P out) (g j)"
  shows "jobs_good f nk (map (\<lambda>x. if jb_key x = key then g x else x) js) (filter P out)"
proof -
  have "map jb_key (map (\<lambda>x. if jb_key x = key then g x else x) js) = map jb_key js" using assms(2) by simp
  moreover have "distinct (map snd (filter P out))" using assms(1) by (auto simp: jobs_good_def distinct_map_filter)
  ultimately show ?thesis
    using assms job_good_filter by (auto simp: jobs_good_def simp del: map_map)
qed

lemma job_good_failed: "job_good f out j \<Longrightarrow> job_good f out (j\<lparr>jb_failed := b\<rparr>)"
  by (simp add: job_good_def job_shape_def pull_of_def piece_right_def awaited_def)

lemma take_chunk_good:
  assumes good: "paste_good files r" and true: "names_paste (pv_id r) c \<Longrightarrow> sha (ch_data c) = Some (ch_sha256 c) \<Longrightarrow> file_chunk_true (files (pv_id r)) c"
    and step: "take_chunk sha t c r = (b, r')"
  shows "paste_good files r' \<and> pv_id r' = pv_id r"
proof -
  let ?f = "files (pv_id r)" and ?out = "filter (\<lambda>x. fst x \<noteq> ch_requestId c) (pv_outstanding r)"
  have jobs: "jobs_good ?f (pv_nextKey r) (pv_jobs r) (pv_outstanding r)" and win: "window_good ?f r"
    using good by (simp_all add: paste_good_def)
  show ?thesis
  proof (cases "if names_paste (pv_id r) c then map_of (pv_outstanding r) (ch_requestId c) else None")
    case None
    then show ?thesis using step good by (auto simp: take_chunk_def Let_def paste_good_def window_good_def)
  next
    case (Some ki)
    obtain key k where ki: "ki = (key, k)" by (cases ki)
    have mine: "names_paste (pv_id r) c" and out: "(ch_requestId c, key, k) \<in> set (pv_outstanding r)"
      using Some map_of_SomeD unfolding ki by (auto split: if_split_asm)
    show ?thesis
    proof (cases "find (\<lambda>j. jb_key j = key) (pv_jobs r)")
      case None
      then show ?thesis using step good Some ki by (auto simp: take_chunk_def Let_def paste_good_def window_good_def)
    next
      case (Some j)
      then have j: "jb_key j = key" "j \<in> set (pv_jobs r)" by (auto simp: find_Some_iff)
      have one: "x = j" if "x \<in> set (pv_jobs r)" "jb_key x = key" for x
        using that j jobs by (auto simp: jobs_good_def distinct_map inj_on_def)
      have jg: "job_good ?f (pv_outstanding r) x" if "x \<in> set (pv_jobs r)" for x using jobs that by (simp add: jobs_good_def)
      have ds: "distinct (map snd (pv_outstanding r))" using jobs by (simp add: jobs_good_def)
      show ?thesis
      proof (cases "check_chunk sha (jb_pulls j ! k) c = CheckOk")
        case True
        then have "sha (ch_data c) = Some (ch_sha256 c)" by (auto simp: check_chunk_def split: if_split_asm)
        then have ct: "file_chunk_true ?f c" using true mine by blast
        have "jobs_good ?f (pv_nextKey r) (map (\<lambda>x. if jb_key x = key then store_chunk c x else x) (pv_jobs r)) ?out"
          using jobs
        proof (rule jobs_good_update)
          show "jb_key (store_chunk c x) = jb_key x" for x by (simp add: store_chunk_def)
          show "job_good ?f ?out (store_chunk c x)" if x: "x \<in> set (pv_jobs r)" "jb_key x = key" for x
            using stored_chunk [OF jg [OF x(1)] ds] out x(2) True ct one [OF x] by blast
        qed
        then show ?thesis using step win \<open>names_paste (pv_id r) c\<close> \<open>(if _ then _ else _) = Some ki\<close> ki Some True
          by (auto simp: take_chunk_def Let_def paste_good_def window_good_def)
      next
        case False
        have "jobs_good ?f (pv_nextKey r) (map (\<lambda>x. if jb_key x = key then x\<lparr>jb_failed := True\<rparr> else x) (pv_jobs r)) ?out"
          using jobs
        proof (rule jobs_good_update)
          show "job_good ?f ?out (x\<lparr>jb_failed := True\<rparr>)" if "x \<in> set (pv_jobs r)" for x
            by (rule job_good_failed [OF job_good_filter [OF jg [OF that]]])
        qed simp
        then show ?thesis using step win \<open>(if _ then _ else _) = Some ki\<close> ki Some False
          by (auto simp: take_chunk_def Let_def paste_good_def window_good_def)
      qed
    qed
  qed
qed


subsection \<open>Finished ranges extend the window\<close>

lemma window_goodI:
  assumes "X = slice (f (pv_aheadFile r)) (unat (pv_aheadStart r)) n" and "pv_ahead r = X" and "length X = n"
    and "unat (pv_aheadStart r) + n < 2 ^ 64"
  shows "window_good f r"
  using assms unfolding window_good_def by metis

lemma keep_job_good:
  assumes win: "window_good f r" and job: "job_good f out j" and all: "jb_done j = length (jb_pulls j)"
  shows "window_good f (keep_job j r)"
proof (cases "pv_aheadOn r \<and> jb_fileIndex j = pv_aheadFile r \<and> jb_offset j = pv_aheadStart r + of_nat (length (pv_ahead r))")
  case True
  let ?F = "f (pv_aheadFile r)" and ?n = "length (pv_ahead r)" and ?m = "length (jb_data j)"
  have w: "unat (pv_aheadStart r) + ?n < 2 ^ 64" "pv_ahead r = slice ?F (unat (pv_aheadStart r)) ?n"
    using win True by (auto simp: window_good_def)
  have o': "unat (jb_offset j) = unat (pv_aheadStart r) + ?n"
    using w(1) True by (simp add: unat_word_ariths unat_of_nat)
  have fit: "unat (jb_offset j) + ?m < 2 ^ 64" using job by (simp add: job_good_def job_shape_def)
  have "jb_data j = slice ?F (unat (pv_aheadStart r) + ?n) ?m" using finished_job [OF job all] True o' by simp
  then have "pv_ahead r @ jb_data j = slice ?F (unat (pv_aheadStart r)) (?n + ?m)"
    using w(2) by (simp add: slice_def take_add add.commute)
  then have "pv_ahead r @ jb_data j =
      slice (f (pv_aheadFile (keep_job j r))) (unat (pv_aheadStart (keep_job j r))) (?n + ?m)"
    using True by (simp add: keep_job_def)
  then show ?thesis by (rule window_goodI) (use True fit o' in \<open>simp_all add: keep_job_def\<close>)
next
  case False
  then show ?thesis using win by (simp only: keep_job_def if_False)
qed

lemma keep_job_fields [simp]:
  "pv_id (keep_job j r) = pv_id r" "pv_nextKey (keep_job j r) = pv_nextKey r" "pv_outstanding (keep_job j r) = pv_outstanding r"
  "pv_waiting (keep_job j r) = pv_waiting r" "pv_open (keep_job j r) = pv_open r" "pv_jobs (keep_job j r) = pv_jobs r"
  "pv_sizes (keep_job j r) = pv_sizes r" "pv_helperInstance (keep_job j r) = pv_helperInstance r"
  by (simp_all add: keep_job_def)

lemma drain_fields [simp]:
  "pv_id (drain_jobs js r) = pv_id r" "pv_nextKey (drain_jobs js r) = pv_nextKey r"
  "pv_outstanding (drain_jobs js r) = pv_outstanding r" "pv_waiting (drain_jobs js r) = pv_waiting r"
  "pv_open (drain_jobs js r) = pv_open r" "pv_sizes (drain_jobs js r) = pv_sizes r"
  "pv_helperInstance (drain_jobs js r) = pv_helperInstance r"
  by (induction js r rule: drain_jobs.induct) auto

lemma window_good_jobs [simp]: "window_good f (r\<lparr>pv_jobs := js\<rparr>) = window_good f r"
  by (simp add: window_good_def)

lemma drain_jobs_good:
  "jobs_good f nk js (pv_outstanding r) \<Longrightarrow> window_good f r \<Longrightarrow>
   jobs_good f nk (pv_jobs (drain_jobs js r)) (pv_outstanding r) \<and> window_good f (drain_jobs js r)"
proof (induction js arbitrary: r)
  case (Cons j js)
  show ?case
  proof (cases "jb_done j = length (jb_pulls j)")
    case True
    have "job_good f (pv_outstanding r) j" using Cons.prems by (simp add: jobs_good_def)
    then have "window_good f (keep_job j r)" using keep_job_good Cons.prems(2) True by blast
    moreover have "jobs_good f nk js (pv_outstanding (keep_job j r))" using Cons.prems(1) by (simp add: jobs_good_def)
    ultimately show ?thesis using Cons.IH [of "keep_job j r"] True by simp
  qed (use Cons.prems in simp)
qed (simp add: jobs_good_def)

subsection \<open>Reads are answered\<close>

definition answers_right :: "(u32 \<Rightarrow> bytes) \<Rightarrow> read_request set \<Rightarrow> read_data list \<Rightarrow> bool" where
  "answers_right f Q ds \<longleftrightarrow> (\<forall>d\<in>set ds. \<exists>w\<in>Q. d = read_answer w (rd_status d) (rd_data d) \<and>
     (rd_status d = StatusOk \<longrightarrow> rd_data d = slice (f (rq_fileIndex w)) (unat (rq_offset w)) (unat (rq_len w)) \<and>
       length (rd_data d) = unat (rq_len w)))"

lemma answers_right_append [simp]: "answers_right f Q (ds @ es) \<longleftrightarrow> answers_right f Q ds \<and> answers_right f Q es"
  by (auto simp: answers_right_def)

lemma answers_right_Nil [simp]: "answers_right f Q []"
  by (simp add: answers_right_def)

lemma serve_reads_good:
  "serve_reads ws r = (ds, r') \<Longrightarrow> window_good f r \<Longrightarrow> set ws \<subseteq> Q \<Longrightarrow>
   window_good f r' \<and> answers_right f Q ds \<and> set (pv_waiting r') \<subseteq> Q \<and> pv_id r' = pv_id r \<and> pv_nextKey r' = pv_nextKey r \<and>
   pv_outstanding r' = pv_outstanding r \<and> pv_jobs r' = pv_jobs r \<and> pv_open r' = pv_open r \<and> pv_sizes r' = pv_sizes r \<and>
   pv_helperInstance r' = pv_helperInstance r"
proof (induction ws arbitrary: r ds r')
  case Nil
  then show ?case by (auto simp: window_good_def)
next
  case (Cons w ws)
  let ?at = "\<not> pv_aheadOn r \<or> rq_fileIndex w \<noteq> pv_aheadFile r \<or> rq_offset w \<noteq> pv_aheadStart r"
  define q where "q = (if ?at then reset_ahead (rq_fileIndex w) (rq_offset w) r else r)"
  let ?n = "unat (rq_len w)"
  have q: "window_good f q" using Cons.prems(2) unat_bounds(4) [of "rq_offset w"]
    by (simp add: q_def window_good_def reset_ahead_def slice_def)
  have here: "pv_aheadOn q" "pv_aheadFile q = rq_fileIndex w" "pv_aheadStart q = rq_offset w"
    and same: "pv_id q = pv_id r" "pv_nextKey q = pv_nextKey r" "pv_outstanding q = pv_outstanding r" "pv_jobs q = pv_jobs r"
      "pv_open q = pv_open r" "pv_sizes q = pv_sizes r" "pv_helperInstance q = pv_helperInstance r"
    by (auto simp: q_def reset_ahead_def)
  have run: "serve_reads (w # ws) r = (if length (pv_ahead q) < ?n then ([], q\<lparr>pv_waiting := w # ws\<rparr>)
     else let (ds, r') = serve_reads ws (q\<lparr>pv_ahead := drop ?n (pv_ahead q),
            pv_aheadStart := pv_aheadStart q + ucast (rq_len w),
            pv_bytesDelivered := pv_bytesDelivered q + ucast (rq_len w),
            pv_counters := (pv_counters q)\<lparr>ct_bytesDelivered := ct_bytesDelivered (pv_counters q) + ucast (rq_len w),
              ct_readsServed := ct_readsServed (pv_counters q) + 1\<rparr>\<rparr>) in
       (read_answer w StatusOk (take ?n (pv_ahead q)) # ds, r'))"
    unfolding q_def by (simp add: Let_def)
  show ?case
  proof (cases "length (pv_ahead q) < ?n")
    case True
    then show ?thesis using Cons.prems run q same by (auto simp: window_good_def)
  next
    case False
    define q' where "q' = q\<lparr>pv_ahead := drop ?n (pv_ahead q), pv_aheadStart := pv_aheadStart q + ucast (rq_len w),
       pv_bytesDelivered := pv_bytesDelivered q + ucast (rq_len w),
       pv_counters := (pv_counters q)\<lparr>ct_bytesDelivered := ct_bytesDelivered (pv_counters q) + ucast (rq_len w),
         ct_readsServed := ct_readsServed (pv_counters q) + 1\<rparr>\<rparr>"
    obtain es where rest: "serve_reads ws q' = (es, r')" and ds: "ds = read_answer w StatusOk (take ?n (pv_ahead q)) # es"
      using Cons.prems(1) run False unfolding q'_def by (auto simp: Let_def split: prod.splits)
    let ?F = "f (rq_fileIndex w)" and ?o = "unat (rq_offset w)"
    have a: "?o + length (pv_ahead q) < 2 ^ 64" "pv_ahead q = slice ?F ?o (length (pv_ahead q))"
      using q here by (auto simp: window_good_def)
    have start: "unat (rq_offset w + ucast (rq_len w) :: u64) = ?o + ?n"
      using a(1) False by (simp add: unat_word_ariths unat_u32_u64)
    have "drop ?n (pv_ahead q) = slice ?F (?o + ?n) (length (pv_ahead q) - ?n)"
      by (subst a(2)) (simp add: slice_def drop_take add.commute)
    then have "drop ?n (pv_ahead q) = slice (f (pv_aheadFile q')) (unat (pv_aheadStart q')) (length (pv_ahead q) - ?n)"
      using here start by (simp add: q'_def)
    then have "window_good f q'" by (rule window_goodI) (use a(1) False here start in \<open>simp_all add: q'_def\<close>)
    note next_window = this
    have "take ?n (pv_ahead q) = slice ?F ?o ?n" using False by (subst a(2)) (simp add: slice_def min_def)
    moreover have "length (take ?n (pv_ahead q)) = ?n" using False by simp
    ultimately have "answers_right f Q [read_answer w StatusOk (take ?n (pv_ahead q))]"
      using Cons.prems(3) by (auto simp: answers_right_def read_answer_def intro!: bexI [of _ w])
    moreover have "set ws \<subseteq> Q" using Cons.prems(3) by simp
    moreover have "pv_id q' = pv_id q" "pv_nextKey q' = pv_nextKey q" "pv_outstanding q' = pv_outstanding q"
      "pv_jobs q' = pv_jobs q" "pv_open q' = pv_open q" "pv_sizes q' = pv_sizes q" "pv_helperInstance q' = pv_helperInstance q"
      by (simp_all add: q'_def)
    ultimately show ?thesis using Cons.IH [OF rest next_window] same ds
      by (auto simp: answers_right_def)
  qed
qed


subsection \<open>Ranges and pulls are issued\<close>

lemma chunk_size [simp]: "unat kMaxFileChunkBytes = 65536" "unat (ucast kMaxFileChunkBytes :: u64) = 65536"
  by (simp_all add: kMaxFileChunkBytes_def)

lemma new_job_good:
  assumes less: "pv_aheadIssuedEnd r < target" and out: "\<forall>x\<in>set out. fst (snd x) < pv_nextKey r"
  shows "job_good f out (new_job (min (ucast kMaxChunkBytes) (target - pv_aheadIssuedEnd r)) r)"
proof -
  let ?e = "pv_aheadIssuedEnd r"
  define len where "len = min (ucast kMaxChunkBytes) (target - ?e)"
  define n where "n = unat len"
  have "unat (ucast kMaxChunkBytes :: u64) = 262144" by (simp add: kMaxChunkBytes_def unat_u32_u64)
  then have n: "n \<le> 262144" unfolding n_def len_def by (simp add: min_def word_le_nat_alt)
  have le: "unat ?e < unat target" using less by (simp add: word_less_nat_alt)
  then have "unat (target - ?e) = unat target - unat ?e" by (simp add: unat_sub_if')
  then have "n \<le> unat target - unat ?e" unfolding n_def len_def by (simp add: min_def word_le_nat_alt)
  then have fit: "unat ?e + n < 2 ^ 64" using le unat_bounds(4) [of target] by simp
  have pull: "pull_of (new_job len r) k" if "k < pieces len" for k
  proof -
    have "Suc k \<le> (n + 65535) div 65536" using that by (simp add: pieces_def n_def)
    then have "Suc k * 65536 \<le> n + 65535" by (simp only: less_eq_div_iff_mult_less_eq zero_less_numeral)
    then have k: "k * 65536 < n" by simp
    then have u: "unat (of_nat (k * 65536) :: u64) = k * 65536" by (simp only: unat_of_nat) (use n in simp)
    then have "unat (len - of_nat (k * 65536)) = n - k * 65536" using k by (simp add: unat_sub_if' n_def)
    then have m: "unat (min (ucast kMaxFileChunkBytes) (len - of_nat (k * 65536))) = min 65536 (n - k * 65536)"
      by (simp add: min_def word_le_nat_alt)
    then have "unat (ucast (min (ucast kMaxFileChunkBytes) (len - of_nat (k * 65536)) :: u64) :: u32) = min 65536 (n - k * 65536)"
      by (simp add: unsigned_ucast_eq take_bit_nat_eq_self)
    then show ?thesis using that by (simp add: pull_of_def new_job_def job_pull_def Let_def n_def)
  qed
  have "awaited out (new_job len r) = {}" using out by (force simp: awaited_def new_job_def)
  then have "job_good f out (new_job len r)"
    using pull fit by (auto simp: job_good_def job_shape_def new_job_def n_def pieces_def intro!: exI [of _ "{}"])
  then show ?thesis by (simp add: len_def)
qed

lemma issue_jobs_good:
  "paste_good files r \<Longrightarrow> paste_good files (issue_jobs target r) \<and> pv_id (issue_jobs target r) = pv_id r \<and>
   pv_open (issue_jobs target r) = pv_open r \<and> pv_waiting (issue_jobs target r) = pv_waiting r \<and>
   pv_helperInstance (issue_jobs target r) = pv_helperInstance r \<and> pv_sizes (issue_jobs target r) = pv_sizes r"
proof (induction target r rule: issue_jobs.induct)
  case (1 target r)
  show ?case
  proof (cases "pv_aheadIssuedEnd r < target")
    case False
    then show ?thesis using "1.prems" by (subst (1 2 3 4 5 6) issue_jobs.simps) simp
  next
    case True
    let ?len = "min (ucast kMaxChunkBytes) (target - pv_aheadIssuedEnd r)"
    let ?r = "r\<lparr>pv_jobs := pv_jobs r @ [new_job ?len r], pv_nextKey := pv_nextKey r + 1,
      pv_aheadIssuedEnd := pv_aheadIssuedEnd r + ?len\<rparr>"
    have old: "jobs_good (files (pv_id r)) (pv_nextKey r) (pv_jobs r) (pv_outstanding r)" and win: "window_good (files (pv_id r)) r"
      using "1.prems" by (simp_all add: paste_good_def)
    have "job_good (files (pv_id r)) (pv_outstanding r) (new_job ?len r)"
      using True old by (intro new_job_good) (auto simp: jobs_good_def)
    then have "jobs_good (files (pv_id r)) (pv_nextKey r + 1) (pv_jobs r @ [new_job ?len r]) (pv_outstanding r)"
      using old by (auto simp: jobs_good_def new_job_def less_SucI)
    then have "paste_good files ?r" using win by (simp add: paste_good_def window_good_def)
    then show ?thesis using "1.IH" [of ?len] True by (subst (1 2 3 4 5 6) issue_jobs.simps) (simp add: Let_def)
  qed
qed

lemma pump_job_state:
  "pump_job n j r = (j', ps, r') \<Longrightarrow>
   \<exists>out c q. r' = r\<lparr>pv_outstanding := out, pv_completed := c, pv_nextRequestId := q\<rparr> \<and> jb_key j' = jb_key j"
proof (induction n j r arbitrary: j' ps r' rule: pump_job.induct)
  case (1 j r)
  then show ?case by (intro exI [of _ "pv_outstanding r"] exI [of _ "pv_completed r"] exI [of _ "pv_nextRequestId r"]) simp
next
  case (2 n j r)
  show ?case
  proof (cases "jb_failed j \<or> length (jb_pulls j) \<le> jb_nextPull j \<or> unat (pv_pullWindow r) \<le> length (pv_outstanding r)")
    case True
    then show ?thesis using "2.prems"
      by (intro exI [of _ "pv_outstanding r"] exI [of _ "pv_completed r"] exI [of _ "pv_nextRequestId r"]) simp
  next
    case False
    from "2.IH" [OF False refl] "2.prems" False show ?thesis by (auto simp: Let_def split: prod.splits)
  qed
qed

lemma pump_one_good:
  assumes good: "jobs_good f nk (xs @ j # ys) out" and pull: "jb_nextPull j < length (jb_pulls j)"
    and p: "p = (jb_pulls j ! jb_nextPull j)\<lparr>pl_requestId := q, pl_triggerRequestId := t\<rparr>"
  shows "jobs_good f nk (xs @ j\<lparr>jb_pulls := (jb_pulls j)[jb_nextPull j := p], jb_nextPull := jb_nextPull j + 1\<rparr> # ys)
    ((q, jb_key j, jb_nextPull j) # filter (\<lambda>x. fst x \<noteq> q) out)"
proof -
  let ?j = "j\<lparr>jb_pulls := (jb_pulls j)[jb_nextPull j := p], jb_nextPull := jb_nextPull j + 1\<rparr>"
  let ?out = "(q, jb_key j, jb_nextPull j) # filter (\<lambda>x. fst x \<noteq> q) out"
  have jg: "job_good f out j" and keys: "distinct (map jb_key (xs @ j # ys))" "\<forall>i\<in>set (xs @ j # ys). jb_key i < nk"
    using good by (auto simp: jobs_good_def)
  then obtain A where A: "A \<subseteq> {..<jb_nextPull j}" "card A = jb_done j" "A \<inter> awaited out j = {}" "\<forall>k\<in>A. piece_right f j k"
    and shape: "job_shape j" and aw: "awaited out j \<subseteq> {..<jb_nextPull j}" by (auto simp: job_good_def)
  have "awaited ?out ?j \<subseteq> insert (jb_nextPull j) (awaited out j)" by (auto simp: awaited_def)
  moreover have "piece_right f ?j k" if "k \<in> A" for k
    using A(1,4) that by (auto simp: piece_right_def nth_list_update)
  moreover have "job_shape ?j"
    using shape pull unfolding job_shape_def pull_of_def by (auto simp: p nth_list_update Let_def)
  ultimately have "job_good f ?out ?j"
    unfolding job_good_def using A aw by (auto intro!: exI [of _ A])
  moreover have "job_good f ?out i" if "i \<in> set (xs @ ys)" for i
  proof -
    have "jb_key i \<in> jb_key ` set (xs @ ys)" using that by (rule imageI)
    then have "jb_key i \<noteq> jb_key j" using keys(1) by auto
    then have "awaited ?out i = awaited (filter (\<lambda>x. fst x \<noteq> q) out) i" by (auto simp: awaited_def)
    moreover have "job_good f (filter (\<lambda>x. fst x \<noteq> q) out) i" using good that by (intro job_good_filter) (auto simp: jobs_good_def)
    ultimately show ?thesis by (simp add: job_good_def)
  qed
  moreover have "(jb_key j, jb_nextPull j) \<notin> set (map snd out)" using aw by (auto simp: awaited_def)
  then have "distinct (map snd ?out)" using good by (auto simp: jobs_good_def distinct_map_filter)
  ultimately show ?thesis using good keys by (auto simp: jobs_good_def)
qed

lemma pump_job_good:
  "jobs_good f nk (xs @ j # ys) (pv_outstanding r) \<Longrightarrow> pump_job n j r = (j', ps, r') \<Longrightarrow>
   jobs_good f nk (xs @ j' # ys) (pv_outstanding r')"
proof (induction n j r arbitrary: j' ps r' rule: pump_job.induct)
  case (2 n j r)
  show ?case
  proof (cases "jb_failed j \<or> length (jb_pulls j) \<le> jb_nextPull j \<or> unat (pv_pullWindow r) \<le> length (pv_outstanding r)")
    case False
    from "2.IH" [OF False refl] "2.prems" pump_one_good [OF "2.prems"(1) _ refl] False
    show ?thesis by (auto simp: Let_def split: prod.splits)
  qed (use "2.prems" in simp)
qed simp

lemma pump_jobs_good:
  "jobs_good f nk (xs @ js) (pv_outstanding r) \<Longrightarrow> pump_jobs js r = (js', ps, r') \<Longrightarrow>
   jobs_good f nk (xs @ js') (pv_outstanding r') \<and>
   (\<exists>out c q. r' = r\<lparr>pv_outstanding := out, pv_completed := c, pv_nextRequestId := q\<rparr>)"
proof (induction js r arbitrary: xs js' ps r' rule: pump_jobs.induct)
  case (1 r)
  then show ?case
    by (auto intro!: exI [of _ "pv_outstanding r"] exI [of _ "pv_completed r"] exI [of _ "pv_nextRequestId r"])
next
  case (2 j js r)
  obtain j1 ps1 r1 where one: "pump_job (length (jb_pulls j)) j r = (j1, ps1, r1)" by (metis prod_cases3)
  have g1: "jobs_good f nk (xs @ j1 # js) (pv_outstanding r1)" by (rule pump_job_good [OF "2.prems"(1) one])
  obtain o1 c1 q1 where s1: "r1 = r\<lparr>pv_outstanding := o1, pv_completed := c1, pv_nextRequestId := q1\<rparr>"
    using pump_job_state [OF one] by blast
  show ?case
  proof (cases "unat (pv_pullWindow r1) \<le> length (pv_outstanding r1)")
    case True
    then show ?thesis using "2.prems"(2) one g1 s1 by auto
  next
    case False
    obtain js2 qs r2 where two: "pump_jobs js r1 = (js2, qs, r2)" by (metis prod_cases3)
    have "jobs_good f nk ((xs @ [j1]) @ js2) (pv_outstanding r2) \<and>
      (\<exists>out c q. r2 = r1\<lparr>pv_outstanding := out, pv_completed := c, pv_nextRequestId := q\<rparr>)"
      using "2.IH" [OF one [symmetric] refl False _ two, of "xs @ [j1]"] g1 by simp
    then show ?thesis using "2.prems"(2) one two False s1 by auto
  qed
qed

lemma pump_pulls_good:
  assumes "paste_good files r" and "pump_pulls r = (ps, r')"
  shows "paste_good files r' \<and> pv_id r' = pv_id r \<and> pv_open r' = pv_open r \<and> pv_waiting r' = pv_waiting r \<and>
    pv_helperInstance r' = pv_helperInstance r \<and> pv_sizes r' = pv_sizes r"
proof (cases "pv_open r")
  case True
  obtain js q where run: "pump_jobs (pv_jobs r) r = (js, ps, q)" "r' = q\<lparr>pv_jobs := js\<rparr>"
    using assms(2) True by (auto simp: pump_pulls_def split: prod.splits)
  have "jobs_good (files (pv_id r)) (pv_nextKey r) js (pv_outstanding q)"
    and "\<exists>out c n. q = r\<lparr>pv_outstanding := out, pv_completed := c, pv_nextRequestId := n\<rparr>"
    using pump_jobs_good [of "files (pv_id r)" "pv_nextKey r" "[]", OF _ run(1)] assms(1) by (auto simp: paste_good_def)
  then show ?thesis using assms(1) run(2) by (auto simp: paste_good_def window_good_def)
qed (use assms in \<open>simp add: pump_pulls_def\<close>)


section \<open>The operations\<close>

lemma paste_good_fields [simp]:
  "paste_good files (r\<lparr>pv_counters := c\<rparr>) = paste_good files r"
  "paste_good files (r\<lparr>pv_waiting := ws\<rparr>) = paste_good files r"
  "paste_good files (r\<lparr>pv_lastProgressUs := t\<rparr>) = paste_good files r"
  "paste_good files (r\<lparr>pv_failure := why\<rparr>) = paste_good files r"
  "paste_good files (r\<lparr>pv_open := b\<rparr>) = paste_good files r"
  by (simp_all add: paste_good_def window_good_def)

text \<open>What every operation of an open paste gives: a good state of the same paste and right answers.\<close>

definition answers_well :: "(paste_identity \<Rightarrow> u32 \<Rightarrow> bytes) \<Rightarrow> read_request set \<Rightarrow> pull_receiver \<Rightarrow> read_data list \<Rightarrow> pull_receiver \<Rightarrow> bool" where
  "answers_well files Q r ds r' \<longleftrightarrow> paste_good files r' \<and> pv_id r' = pv_id r \<and> set (pv_waiting r') \<subseteq> Q \<and>
     answers_right (files (pv_id r)) Q ds"

lemma answers_well_trans:
  "answers_well files Q r ds r' \<Longrightarrow> answers_well files Q r' es r'' \<Longrightarrow> answers_well files Q r (ds @ es) r''"
  by (simp add: answers_well_def)

lemma refused_right: "w \<in> Q \<Longrightarrow> st \<noteq> StatusOk \<or> rq_len w = 0 \<Longrightarrow> answers_right f Q [read_answer w st []]"
  by (auto simp: answers_right_def read_answer_def slice_def intro!: bexI [of _ w])

lemma fail_all_well:
  assumes "paste_good files r" and "set (pv_waiting r) \<subseteq> Q" and "why \<noteq> StatusOk" and "fail_all why r = (ds, r')"
  shows "answers_well files Q r ds r'"
proof -
  have "answers_right (files (pv_id r)) Q (map (\<lambda>w. read_answer w why []) (pv_waiting r))"
    using assms(2,3) by (auto simp: answers_right_def read_answer_def)
  then show ?thesis
    using assms(4) by (auto simp: fail_all_def answers_well_def paste_good_def window_good_def jobs_good_def)
qed

lemma process_reads_well:
  assumes "paste_good files r" and "set (pv_waiting r) \<subseteq> Q" and "process_reads r = (ds, ps, r')"
  shows "answers_well files Q r ds r' \<and> pv_helperInstance r' = pv_helperInstance r"
proof -
  obtain ds0 q where q: "serve_reads (pv_waiting r) r = (ds0, q)" by fastforce
  have win: "window_good (files (pv_id r)) r" using assms(1) by (simp add: paste_good_def)
  note served = serve_reads_good [OF q win assms(2)]
  then have good: "paste_good files q" using assms(1) by (simp add: paste_good_def)
  have well: "answers_well files Q r ds0 q" using served good by (simp add: answers_well_def)
  show ?thesis
  proof (cases "\<not> pv_aheadOn q \<or> length (pv_sizes q) \<le> unat (pv_aheadFile q)")
    case True
    then have "ds = ds0" "r' = q" using assms(3) q by (simp_all add: process_reads_def)
    then show ?thesis using well served by simp
  next
    case False
    obtain ps1 p where pump: "pump_pulls (issue_jobs (ahead_target q) q) = (ps1, p)" by fastforce
    have r': "ds = ds0" "r' = p" using assms(3) q False pump by (simp_all add: process_reads_def)
    note issued = issue_jobs_good [OF good, of "ahead_target q"]
    have "paste_good files (issue_jobs (ahead_target q) q)" using issued by blast
    note pumped = pump_pulls_good [OF this pump]
    show ?thesis using well served issued pumped unfolding r' by (simp add: answers_well_def)
  qed
qed

lemma refuse_read_well:
  assumes "paste_good files r" and "set (pv_waiting r) \<subseteq> Q" and "m \<in> Q" and "st \<noteq> StatusOk \<or> rq_len m = 0"
    and "refuse_read m inst st r = ((i, ds), ps, r')"
  shows "answers_well files Q r ds r'"
proof -
  have ds: "ds = (if rq_pasteOp m = 0 then [] else [read_answer m st []])" 
    and r': "r' = (if st \<noteq> StatusOk \<and> rq_pasteOp m \<noteq> 0
      then r\<lparr>pv_counters := (pv_counters r)\<lparr>ct_readsFailed := ct_readsFailed (pv_counters r) + 1\<rparr>\<rparr> else r)"
    using assms(5) by (simp_all add: refuse_read_def)
  have "answers_right (files (pv_id r)) Q ds" using refused_right [OF assms(3,4)] ds by simp
  then show ?thesis using assms(1,2) unfolding r' by (simp add: answers_well_def)
qed

lemma queue_read_well:
  assumes "paste_good files r" and "set (pv_waiting r) \<subseteq> Q" and "m \<in> Q" and "queue_read m t r = ((i, ds), ps, r')"
  shows "answers_well files Q r ds r'"
proof -
  define q where "q = (if pv_waiting r = [] then r\<lparr>pv_lastProgressUs := t\<rparr> else r)"
  let ?q = "q\<lparr>pv_waiting := pv_waiting q @ [m]\<rparr>"
  have run: "process_reads ?q = (ds, ps, r')"
    using assms(4) by (auto simp: queue_read_def q_def [symmetric] split: prod.splits)
  have "paste_good files ?q" "set (pv_waiting ?q) \<subseteq> Q" "pv_id ?q = pv_id r" using assms(1-3) by (simp_all add: q_def)
  then show ?thesis using process_reads_well [OF _ _ run] by (simp add: answers_well_def)
qed

lemma submit_well:
  assumes "paste_good files r" and "set (pv_waiting r) \<subseteq> Q" and "m \<in> Q" and "submit m inst t r = ((i, ds), ps, r')"
  shows "answers_well files Q r ds r'"
proof -
  define q where "q = r\<lparr>pv_counters := (pv_counters r)\<lparr>ct_readsRequested := ct_readsRequested (pv_counters r) + 1\<rparr>\<rparr>"
  have q: "paste_good files q" "set (pv_waiting q) \<subseteq> Q" "pv_id q = pv_id r" using assms(1,2) by (simp_all add: q_def)
  have bad: "StatusUnknownId \<noteq> StatusOk" "StatusBadRequest \<noteq> StatusOk" "StatusReadError \<noteq> StatusOk"
    by (simp_all add: StatusOk_def StatusUnknownId_def StatusBadRequest_def StatusReadError_def)
  note run = assms(4) [unfolded submit_def Let_def, folded q_def] and refused = refuse_read_well [OF q(1,2) assms(3)]
  have "answers_well files Q q ds r'"
    using run bad refused [where st = StatusUnknownId] refused [where st = StatusBadRequest] refused [where st = StatusReadError]
      refused [where st = StatusOk] queue_read_well [OF q(1,2) assms(3)]
    by (auto split: if_split_asm)
  then show ?thesis using q(3) by (simp add: answers_well_def)
qed


lemma take_chunk_waiting: "take_chunk sha t c r = (b, r') \<Longrightarrow> pv_waiting r' = pv_waiting r"
  by (auto simp: take_chunk_def Let_def split: option.splits prod.splits if_splits)

lemma give_up_well:
  assumes "paste_good files r" and "set (pv_waiting r) \<subseteq> Q" and "st \<noteq> StatusOk" and "give_up why st r = (ds, r')"
  shows "answers_well files Q r ds r'"
proof -
  define q where "q = (if pv_failure r = EndNone then r\<lparr>pv_failure := why\<rparr> else r)"
  have q: "paste_good files q" "set (pv_waiting q) \<subseteq> Q" "pv_id q = pv_id r" using assms(1,2) by (simp_all add: q_def)
  have "fail_all st q = (ds, r')" using assms(4) by (simp add: give_up_def q_def)
  then show ?thesis using fail_all_well [OF q(1,2) assms(3)] q(3) by (simp add: answers_well_def)
qed

lemma failure_statuses: "StatusReadError \<noteq> StatusOk" "StatusTimeout \<noteq> StatusOk"
  by (simp_all add: StatusOk_def StatusReadError_def StatusTimeout_def)

lemma drained_good:
  assumes "paste_good files r"
  shows "paste_good files (drain_jobs (pv_jobs r) r)"
  using drain_jobs_good [of "files (pv_id r)" "pv_nextKey r" "pv_jobs r" r] assms by (simp add: paste_good_def)

definition message_fair :: "(bytes \<Rightarrow> bytes option) \<Rightarrow> (paste_identity \<Rightarrow> u32 \<Rightarrow> bytes) \<Rightarrow> paste_identity \<Rightarrow> bytes option \<Rightarrow> bool" where
  "message_fair sha files i msg \<longleftrightarrow> (\<forall>c. Option.bind msg parse_bulk_chunk = Some c \<longrightarrow> names_paste i c \<longrightarrow>
     sha (ch_data c) = Some (ch_sha256 c) \<longrightarrow> file_chunk_true (files i) c)"

lemma loop_turn_well:
  assumes good: "paste_good files r" and waiting: "set (pv_waiting r) \<subseteq> Q" and fair: "message_fair sha files (pv_id r) msg"
    and turn: "loop_turn sha msg closed t r = ((i, ds), ps, r')"
  shows "answers_well files Q r ds r'"
proof (cases "pv_open r")
  case False
  then show ?thesis using turn good waiting by (simp add: loop_turn_def answers_well_def)
next
  case True
  obtain failed r1 where c: "(case Option.bind msg parse_bulk_chunk of None \<Rightarrow> (False, r) | Some c \<Rightarrow> take_chunk sha t c r) = (failed, r1)"
    by fastforce
  have g1: "paste_good files r1" "pv_id r1 = pv_id r" "set (pv_waiting r1) \<subseteq> Q"
  proof (atomize (full), cases "Option.bind msg parse_bulk_chunk")
    case (Some k)
    then have run: "take_chunk sha t k r = (failed, r1)" using c by simp
    have "paste_good files r1 \<and> pv_id r1 = pv_id r"
      by (rule take_chunk_good [OF good _ run]) (use fair Some in \<open>auto simp: message_fair_def\<close>)
    then show "paste_good files r1 \<and> pv_id r1 = pv_id r \<and> set (pv_waiting r1) \<subseteq> Q"
      using take_chunk_waiting [OF run] waiting by simp
  qed (use c good waiting in simp)
  obtain ds1 ps1 r2 where a: "(if failed then (case fail_all StatusReadError r1 of (ds, r) \<Rightarrow> (ds, [], r))
      else process_reads (drain_jobs (pv_jobs r1) r1)) = (ds1, ps1, r2)" by (metis prod_cases3)
  have w1: "answers_well files Q r1 ds1 r2"
  proof (cases failed)
    case True
    then have "fail_all StatusReadError r1 = (ds1, r2)" using a by (auto split: prod.splits)
    then show ?thesis using fail_all_well [OF g1(1,3) failure_statuses(1)] by blast
  next
    case False
    then have "process_reads (drain_jobs (pv_jobs r1) r1) = (ds1, ps1, r2)" using a by simp
    then show ?thesis
      using process_reads_well [OF drained_good [OF g1(1)]] g1(3) by (simp add: answers_well_def)
  qed
  obtain ds2 r3 where b: "(if pv_waiting r2 \<noteq> [] \<and> pv_stallUs r2 < t - pv_lastProgressUs r2
      then give_up EndIdle StatusTimeout r2 else ([], r2)) = (ds2, r3)" by fastforce
  have w2: "answers_well files Q r2 ds2 r3"
    using give_up_well [of files r2 Q StatusTimeout EndIdle ds2 r3] b w1 failure_statuses
    by (auto simp: answers_well_def split: if_split_asm)
  obtain ds3 r4 where d: "(if closed then (case give_up EndSession StatusReadError r3 of (ds, r) \<Rightarrow> (ds, r\<lparr>pv_open := False\<rparr>))
      else ([], r3)) = (ds3, r4)" by fastforce
  have w3: "answers_well files Q r3 ds3 r4"
  proof (cases closed)
    case True
    then obtain q where "give_up EndSession StatusReadError r3 = (ds3, q)" "r4 = q\<lparr>pv_open := False\<rparr>"
      using d by (auto split: prod.splits)
    then show ?thesis using give_up_well [of files r3 Q StatusReadError EndSession ds3 q] w2 failure_statuses
      by (simp add: answers_well_def)
  qed (use d w2 in \<open>simp add: answers_well_def\<close>)
  obtain ps2 r5 where p: "pump_pulls r4 = (ps2, r5)" by fastforce
  have "((i, ds), ps, r') = ((pv_helperInstance r, ds1 @ ds2 @ ds3), ps1 @ ps2, r5)"
    unfolding turn [symmetric] loop_turn_def Let_def using True by (simp only: c a b d p prod.case simp_thms if_False)
  moreover have "answers_well files Q r1 (ds1 @ ds2 @ ds3) r4"
    using w1 w2 w3 by (blast intro: answers_well_trans)
  ultimately show ?thesis using pump_pulls_good [of files, OF _ p] g1(2) by (simp add: answers_well_def)
qed


section \<open>The two ends over a network\<close>

definition identity_of :: "file_chunk \<Rightarrow> paste_identity" where
  "identity_of c = \<lparr>id_epochTag = ch_epochTag c, id_offerId = ch_offerId c, id_pasteOp = ch_pasteOp c, id_bulkGen = ch_bulkGen c\<rparr>"

lemma names_paste_iff: "names_paste i c \<longleftrightarrow> identity_of c = i"
  by (cases i) (auto simp: names_paste_def identity_of_def)

text \<open>The source a server reads gives the bytes of the files of its paste, or fails.\<close>

definition reads_truly :: "(paste_identity \<Rightarrow> u32 \<Rightarrow> bytes) \<Rightarrow> paste_identity \<Rightarrow> (u32 \<Rightarrow> u64 \<Rightarrow> u32 \<Rightarrow> file_status \<times> bytes) \<Rightarrow> bool" where
  "reads_truly files i read \<longleftrightarrow> (\<forall>idx off len data. read idx off len = (StatusOk, data) \<longrightarrow> length data = unat len \<longrightarrow>
     data = slice (files i idx) (unat off) (unat len))"

text \<open>A message no server sent does not name the paste, or its bytes are not those of its hash.\<close>

definition tampered :: "(bytes \<Rightarrow> bytes option) \<Rightarrow> paste_identity \<Rightarrow> bytes \<Rightarrow> bool" where
  "tampered sha i m \<longleftrightarrow> (\<forall>c. parse_bulk_chunk m = Some c \<longrightarrow> names_paste i c \<longrightarrow> sha (ch_data c) \<noteq> Some (ch_sha256 c))"

text \<open>
  \<open>paste_net\<close> is a run of the two ends: the receiver's state, the server's, the messages servers have
  sent, the reads submitted and the answers given, each with the paste it was given for. A turn takes
  any message ever sent, or a tampered one, or none.
\<close>

inductive paste_net ::
    "(bytes \<Rightarrow> bytes option) \<Rightarrow> (paste_identity \<Rightarrow> u32 \<Rightarrow> bytes) \<Rightarrow> pull_receiver \<Rightarrow> chunk_server \<Rightarrow> bytes set \<Rightarrow>
     read_request set \<Rightarrow> (paste_identity \<times> read_data) set \<Rightarrow> bool"
  for sha files where
  pn_init: "paste_net sha files (pull_receiver_init window) chunk_server_init {} {} {}"
| pn_open: "paste_net sha files r s C Q D \<Longrightarrow> paste_net sha files (open_paste i sizes inst t r) s C Q D"
| pn_close: "paste_net sha files r s C Q D \<Longrightarrow> why \<noteq> StatusOk \<Longrightarrow> close_paste why r = (ds, r') \<Longrightarrow>
    paste_net sha files r' s C Q (D \<union> Pair (pv_id r) ` set ds)"
| pn_read: "paste_net sha files r s C Q D \<Longrightarrow> submit m inst t r = ((x, ds), ps, r') \<Longrightarrow>
    paste_net sha files r' s C (insert m Q) (D \<union> Pair (pv_id r) ` set ds)"
| pn_turn: "paste_net sha files r s C Q D \<Longrightarrow> (\<And>m. msg = Some m \<Longrightarrow> m \<in> C \<or> tampered sha (pv_id r) m) \<Longrightarrow>
    loop_turn sha msg closed t r = ((x, ds), ps, r') \<Longrightarrow> paste_net sha files r' s C Q (D \<union> Pair (pv_id r) ` set ds)"
| pn_begin: "paste_net sha files r s C Q D \<Longrightarrow> paste_net sha files r (server_begin i sizes s) C Q D"
| pn_end: "paste_net sha files r s C Q D \<Longrightarrow> paste_net sha files r (server_end s) C Q D"
| pn_serve: "paste_net sha files r s C Q D \<Longrightarrow> reads_truly files (ks_id s) read \<Longrightarrow>
    serve_pull sha read msg s = (Some (frame, served), s') \<Longrightarrow> paste_net sha files r s' (insert frame C) Q D"
| pn_refuse: "paste_net sha files r s C Q D \<Longrightarrow> serve_pull sha read msg s = (None, s') \<Longrightarrow> paste_net sha files r s' C Q D"

definition net_good ::
    "(bytes \<Rightarrow> bytes option) \<Rightarrow> (paste_identity \<Rightarrow> u32 \<Rightarrow> bytes) \<Rightarrow> pull_receiver \<Rightarrow> bytes set \<Rightarrow> read_request set \<Rightarrow>
     (paste_identity \<times> read_data) set \<Rightarrow> bool" where
  "net_good sha files r C Q D \<longleftrightarrow> paste_good files r \<and> set (pv_waiting r) \<subseteq> Q \<and>
     (\<forall>m\<in>C. \<forall>c. parse_bulk_chunk m = Some c \<longrightarrow> file_chunk_true (files (identity_of c)) c) \<and>
     (\<forall>(i, d)\<in>D. answers_right (files i) Q [d])"

lemma answers_right_mono: "answers_right f Q ds \<Longrightarrow> Q \<subseteq> Q' \<Longrightarrow> answers_right f Q' ds"
  unfolding answers_right_def by blast

lemma net_answered:
  assumes "net_good sha files r C Q D" and "Q \<subseteq> Q'" and "answers_well files Q' r ds r'"
  shows "net_good sha files r' C Q' (D \<union> Pair (pv_id r) ` set ds)"
proof -
  have "answers_right (files (pv_id r)) Q' [d]" if "d \<in> set ds" for d
    using assms(3) that by (auto simp: answers_well_def answers_right_def)
  moreover have "answers_right (files i) Q' [d]" if "(i, d) \<in> D" for i d
    using assms(1) that by (intro answers_right_mono [OF _ assms(2)]) (auto simp: net_good_def)
  ultimately show ?thesis using assms(1,3) by (auto simp: net_good_def answers_well_def)
qed

lemma pull_answered_true:
  assumes serve: "serve_pull sha read msg s = (Some (frame, served), s')" and truly: "reads_truly files (ks_id s) read"
    and hash: "\<And>b h. sha b = Some h \<Longrightarrow> length h = kShaBytes" and parse: "parse_bulk_chunk frame = Some c"
  shows "file_chunk_true (files (identity_of c)) c"
proof -
  obtain p k where p: "parse_bulk_pull msg = Some p" "admits_pull s p" and k: "answer_pull sha read p = Some k" "frame = frame_chunk k"
    using serve by (auto simp: serve_pull_def split: option.splits if_splits prod.splits)
  obtain data h where read: "read (pl_fileIndex p) (pl_offset p) (pl_len p) = (StatusOk, data)" "length data = unat (pl_len p)"
    and h: "sha data = Some h"
    and kd: "k = \<lparr>ch_epochTag = pl_epochTag p, ch_offerId = pl_offerId p, ch_pasteOp = pl_pasteOp p,
        ch_bulkGen = pl_bulkGen p, ch_fileIndex = pl_fileIndex p, ch_requestId = pl_requestId p,
        ch_offset = pl_offset p, ch_sha256 = h, ch_data = data\<rparr>"
    using k(1) by (auto simp: answer_pull_def split: prod.splits if_splits)
  have "file_pull_ok p" using p(1) by (simp add: parse_bulk_pull_exact)
  then have "length data \<le> unat kMaxFileChunkBytes" using read(2) by (simp add: file_pull_ok_def word_le_nat_alt)
  then have "file_chunk_ok k" using hash [OF h] by (simp add: kd file_chunk_ok_def)
  then have "parse_bulk_chunk frame = Some k" unfolding k(2) by (simp add: parse_bulk_chunk_exact)
  then have c: "c = k" using parse by simp
  have "identity_of k = ks_id s" using p(2) by (cases "ks_id s") (auto simp: identity_of_def kd admits_pull_def)
  then show ?thesis using truly read unfolding c by (simp add: file_chunk_true_def kd reads_truly_def)
qed

lemma paste_net_good:
  assumes hash: "\<And>b h. sha b = Some h \<Longrightarrow> length h = kShaBytes"
  shows "paste_net sha files r s C Q D \<Longrightarrow> net_good sha files r C Q D"
proof (induction rule: paste_net.induct)
  case (pn_init window)
  then show ?case by (simp add: net_good_def paste_good_def jobs_good_def window_good_def pull_receiver_init_def)
next
  case (pn_open r s C Q D i sizes inst t)
  then show ?case by (simp add: net_good_def paste_good_def jobs_good_def window_good_def open_paste_def)
next
  case (pn_close r s C Q D why ds r')
  show ?case
  proof (cases "pv_open r")
    case True
    then obtain q where "fail_all why r = (ds, q)" "r' = q\<lparr>pv_open := False\<rparr>"
      using pn_close.hyps(3) by (auto simp: close_paste_def split: prod.splits)
    then have "answers_well files Q r ds r'"
      using fail_all_well [of files r Q why ds q] pn_close.IH pn_close.hyps(2) by (simp add: net_good_def answers_well_def)
    then show ?thesis using net_answered [OF pn_close.IH subset_refl] by blast
  qed (use pn_close in \<open>simp add: close_paste_def\<close>)
next
  case (pn_read r s C Q D m inst t x ds ps r')
  have "answers_well files (insert m Q) r ds r'"
    by (rule submit_well [OF _ _ _ pn_read.hyps(2)]) (use pn_read.IH in \<open>auto simp: net_good_def\<close>)
  then show ?case using net_answered [OF pn_read.IH, of "insert m Q"] by blast
next
  case (pn_turn r s C Q D msg closed t x ds ps r')
  have "message_fair sha files (pv_id r) msg"
    using pn_turn.IH pn_turn.hyps(2)
    by (cases msg) (auto simp: message_fair_def net_good_def tampered_def names_paste_iff)
  then have "answers_well files Q r ds r'"
    by (intro loop_turn_well [OF _ _ _ pn_turn.hyps(3)]) (use pn_turn.IH in \<open>auto simp: net_good_def\<close>)
  then show ?case using net_answered [OF pn_turn.IH subset_refl] by blast
next
  case (pn_serve r s C Q D read msg frame served s')
  have "file_chunk_true (files (identity_of c)) c" if "parse_bulk_chunk frame = Some c" for c
    by (rule pull_answered_true [OF pn_serve.hyps(3,2) hash that])
  then show ?case using pn_serve.IH by (auto simp: net_good_def)
qed



section \<open>A small paste\<close>

definition small_id :: paste_identity where "small_id = \<lparr>id_epochTag = 1, id_offerId = 2, id_pasteOp = 3, id_bulkGen = 4\<rparr>"
definition small_file :: bytes where "small_file = [7, 8, 9]"
definition small_read :: read_request where
  "small_read = \<lparr>rq_offerId = 2, rq_pasteOp = 3, rq_fileIndex = 0, rq_offset = 0, rq_len = 3\<rparr>"
definition small_hash :: "bytes \<Rightarrow> bytes option" where "small_hash b = Some (replicate 32 0)"
definition small_source :: "u32 \<Rightarrow> u64 \<Rightarrow> u32 \<Rightarrow> file_status \<times> bytes" where
  "small_source idx off len = (StatusOk, slice small_file (unat off) (unat len))"
definition small_open :: pull_receiver where "small_open = open_paste small_id [3] 5 0 (pull_receiver_init 4)"
definition small_pull :: file_pull where
  "small_pull = \<lparr>pl_epochTag = 1, pl_offerId = 2, pl_pasteOp = 3, pl_bulkGen = 4, pl_fileIndex = 0, pl_requestId = 1,
     pl_offset = 0, pl_len = 3, pl_triggerRequestId = kNoTrigger\<rparr>"
definition small_chunk :: file_chunk where
  "small_chunk = \<lparr>ch_epochTag = 1, ch_offerId = 2, ch_pasteOp = 3, ch_bulkGen = 4, ch_fileIndex = 0, ch_requestId = 1,
     ch_offset = 0, ch_sha256 = replicate 32 0, ch_data = small_file\<rparr>"
definition small_job :: read_job where
  "small_job = \<lparr>jb_key = 0, jb_fileIndex = 0, jb_offset = 0, jb_pulls = [small_pull], jb_nextPull = 1, jb_done = 0,
     jb_data = replicate 3 0, jb_failed = False\<rparr>"
definition small_receiver :: pull_receiver where
  "small_receiver = small_open\<lparr>pv_jobs := [small_job], pv_outstanding := [(1, 0, 0)], pv_waiting := [small_read],
     pv_aheadOn := True, pv_aheadFile := 0, pv_aheadStart := 0, pv_aheadIssuedEnd := 3, pv_nextRequestId := 2,
     pv_counters := no_counters\<lparr>ct_readsRequested := 1\<rparr>, pv_nextKey := 1\<rparr>"

lemmas small_defs = small_id_def small_file_def small_read_def small_pull_def small_chunk_def small_job_def small_receiver_def
  small_open_def open_paste_def pull_receiver_init_def no_counters_def

lemma small_submit: "submit small_read 5 0 small_open = ((5, []), [small_pull], small_receiver)"
  by (simp add: submit_def queue_read_def process_reads_def pump_pulls_def ahead_target_def Let_def kAheadBytes_def range_ok_def
      issue_jobs.simps reset_ahead_def kMaxChunkBytes_def new_job_def pieces_def job_pull_def kMaxFileChunkBytes_def small_defs)

lemma small_serve:
  obtains served s where "serve_pull small_hash small_source (frame_pull small_pull) (server_begin small_id [3] chunk_server_init) =
    (Some (frame_chunk small_chunk, served), s)"
proof -
  have "parse_bulk_pull (frame_pull small_pull) = Some small_pull"
    by (simp add: parse_bulk_pull_exact file_pull_ok_def small_pull_def kMaxFileChunkBytes_def)
  moreover have "admits_pull (server_begin small_id [3] chunk_server_init) small_pull"
    by (simp add: admits_pull_def server_begin_def small_defs range_ok_def kMaxFileChunkBytes_def)
  moreover have "answer_pull small_hash small_source small_pull = Some small_chunk"
    by (simp add: answer_pull_def small_source_def small_hash_def small_defs slice_def)
  moreover obtain served s where "record_served small_pull (server_begin small_id [3] chunk_server_init) = (served, s)" by fastforce
  ultimately show thesis using that by (simp add: serve_pull_def)
qed

lemma small_turn:
  obtains ps r where "loop_turn small_hash (Some (frame_chunk small_chunk)) False 10 small_receiver =
    ((5, [read_answer small_read StatusOk small_file]), ps, r)"
proof -
  have "parse_bulk_chunk (frame_chunk small_chunk) = Some small_chunk"
    by (simp add: parse_bulk_chunk_exact file_chunk_ok_def small_chunk_def small_file_def kShaBytes_def kMaxFileChunkBytes_def)
  then have "fst (loop_turn small_hash (Some (frame_chunk small_chunk)) False 10 small_receiver) =
      (5, [read_answer small_read StatusOk small_file])"
    by (simp add: loop_turn_def take_chunk_def names_paste_def check_chunk_def small_hash_def store_chunk_def overwrite_def keep_job_def
        new_coverage_def on_verified_def process_reads_def ahead_target_def kAheadBytes_def issue_jobs.simps pump_pulls_def
        kCompletedKept_def Let_def small_defs)
  then show thesis using that by (metis prod.collapse)
qed

lemma small_net:
  "\<exists>r s C D. paste_net small_hash (\<lambda>_ _. small_file) r s C {small_read} D \<and>
    (small_id, read_answer small_read StatusOk small_file) \<in> D"
proof -
  let ?net = "paste_net small_hash (\<lambda>_ _. small_file)"
  have "?net small_open chunk_server_init {} {} {}" unfolding small_open_def by (intro pn_open pn_init)
  from pn_read [OF this small_submit] have "?net small_receiver chunk_server_init {} {small_read} {}" by simp
  then have begun: "?net small_receiver (server_begin small_id [3] chunk_server_init) {} {small_read} {}" by (rule pn_begin)
  obtain served s where serve: "serve_pull small_hash small_source (frame_pull small_pull)
    (server_begin small_id [3] chunk_server_init) = (Some (frame_chunk small_chunk, served), s)" by (rule small_serve)
  have "reads_truly (\<lambda>_ _. small_file) (ks_id (server_begin small_id [3] chunk_server_init)) small_source"
    by (simp add: reads_truly_def small_source_def)
  from pn_serve [OF begun this serve] have net: "?net small_receiver s {frame_chunk small_chunk} {small_read} {}" by simp
  obtain ps r where turn: "loop_turn small_hash (Some (frame_chunk small_chunk)) False 10 small_receiver =
    ((5, [read_answer small_read StatusOk small_file]), ps, r)" by (rule small_turn)
  have "?net r s {frame_chunk small_chunk} {small_read}
    ({} \<union> Pair (pv_id small_receiver) ` set [read_answer small_read StatusOk small_file])"
    by (rule pn_turn [OF net _ turn]) simp
  moreover have "pv_id small_receiver = small_id" by (simp add: small_defs)
  ultimately show ?thesis by auto
qed


end
