(* ===== verification/FilePasteSeek.thy ===== *)
theory FilePasteSeek
  imports FilePasteRun
begin

text \<open>
  A paste that stops. A range of the old window that begins where a new window is, is kept; when it is
  shorter than the range of the new window that begins there, the rest of that one is dropped and nothing
  pulls it again. The run is one file of 1 MiB and 2 bytes, all of them zero, with a server that answers
  every pull and a network that loses nothing.
\<close>

section \<open>An honest run\<close>

definition seek_size :: u64 where "seek_size = 1048578"
definition seek_files :: "paste_identity \<Rightarrow> u32 \<Rightarrow> bytes" where "seek_files i idx = replicate 1048578 0"

definition seek_read :: "u64 \<Rightarrow> read_request" where
  "seek_read off = \<lparr>rq_offerId = 2, rq_pasteOp = 3, rq_fileIndex = 0, rq_offset = off, rq_len = 1\<rparr>"

definition zero_chunk :: "file_pull \<Rightarrow> file_chunk" where
  "zero_chunk p = \<lparr>ch_epochTag = pl_epochTag p, ch_offerId = pl_offerId p, ch_pasteOp = pl_pasteOp p,
     ch_bulkGen = pl_bulkGen p, ch_fileIndex = pl_fileIndex p, ch_requestId = pl_requestId p,
     ch_offset = pl_offset p, ch_sha256 = replicate 32 0, ch_data = replicate (unat (pl_len p)) 0\<rparr>"

lemma zero_chunk_fields [simp]:
  "ch_epochTag (zero_chunk p) = pl_epochTag p" "ch_offerId (zero_chunk p) = pl_offerId p"
  "ch_pasteOp (zero_chunk p) = pl_pasteOp p" "ch_bulkGen (zero_chunk p) = pl_bulkGen p"
  "ch_fileIndex (zero_chunk p) = pl_fileIndex p" "ch_requestId (zero_chunk p) = pl_requestId p"
  "ch_offset (zero_chunk p) = pl_offset p" "ch_sha256 (zero_chunk p) = replicate 32 0"
  "ch_data (zero_chunk p) = replicate (unat (pl_len p)) 0"
  by (simp_all add: zero_chunk_def)

text \<open>The pull in flight for the longest, and a server's answer to it.\<close>

definition oldest_pull :: "pull_receiver \<Rightarrow> file_pull option" where
  "oldest_pull r = (if pv_outstanding r = [] then None
     else map_option (\<lambda>j. jb_pulls j ! snd (snd (last (pv_outstanding r))))
       (find (\<lambda>j. jb_key j = fst (snd (last (pv_outstanding r)))) (pv_jobs r)))"

definition pull_in_file :: "file_pull \<Rightarrow> bool" where
  "pull_in_file p \<longleftrightarrow> pl_epochTag p = 1 \<and> pl_offerId p = 2 \<and> pl_pasteOp p = 3 \<and> pl_bulkGen p = 4 \<and> pl_fileIndex p = 0 \<and>
     pl_len p \<le> 65536 \<and> pl_offset p \<le> seek_size \<and> ucast (pl_len p) \<le> seek_size - pl_offset p"

fun honest_run :: "nat \<Rightarrow> pull_receiver \<Rightarrow> pull_receiver option" where
  "honest_run 0 r = Some r"
| "honest_run (Suc n) r = (case oldest_pull r of None \<Rightarrow> None
     | Some p \<Rightarrow> if pull_in_file p
       then honest_run n (snd (snd (loop_turn small_hash (Some (frame_chunk (zero_chunk p))) False 0 r))) else None)"

lemma zero_chunk_parsed: "pull_in_file p \<Longrightarrow> parse_bulk_chunk (frame_chunk (zero_chunk p)) = Some (zero_chunk p)"
  by (simp add: parse_bulk_chunk_exact file_chunk_ok_def kShaBytes_def kMaxFileChunkBytes_def pull_in_file_def word_le_nat_alt)

lemma overwrite_zero [simp]: "off + m \<le> n \<Longrightarrow> overwrite (replicate n 0) off (replicate m 0) = replicate n 0"
  by (simp add: overwrite_def flip: replicate_add)

lemma overwrite_one [simp]: "overwrite [x] 0 [y] = [y]"
  by (simp add: overwrite_def)

lemmas paste_run = loop_turn_def submit_def queue_read_def process_reads_def pump_pulls_def ahead_target_def Let_def
  kAheadBytes_def range_ok_def issue_jobs.simps reset_ahead_def kMaxChunkBytes_def new_job_def pieces_def job_pull_def
  kMaxFileChunkBytes_def new_coverage_def take_chunk_def names_paste_def check_chunk_def small_hash_def store_chunk_def
  keep_job_def on_verified_def kCompletedKept_def oldest_pull_def zero_chunk_parsed pull_in_file_def

lemmas paste_start = small_id_def seek_size_def open_paste_def pull_receiver_init_def no_counters_def seek_read_def

definition seek_open :: pull_receiver where "seek_open = open_paste small_id [seek_size] 5 0 (pull_receiver_init 4)"

fun then_read :: "u64 \<Rightarrow> pull_receiver option \<Rightarrow> pull_receiver option" where
  "then_read off None = None"
| "then_read off (Some r) = Some (snd (snd (submit (seek_read off) 5 0 r)))"

fun then_run :: "nat \<Rightarrow> pull_receiver option \<Rightarrow> pull_receiver option" where
  "then_run n None = None"
| "then_run n (Some r) = honest_run n r"

definition seek_script :: "pull_receiver option" where
  "seek_script = then_read 1048577 (then_run 14 (then_read 1048576 (then_run 4 (then_read 0 (Some seek_open)))))"




lemma honest_run_numeral [simp]: "honest_run (numeral k) r = (case oldest_pull r of None \<Rightarrow> None
     | Some p \<Rightarrow> if pull_in_file p
       then honest_run (pred_numeral k) (snd (snd (loop_turn small_hash (Some (frame_chunk (zero_chunk p))) False 0 r))) else None)"
  by (simp only: numeral_eq_Suc honest_run.simps)


text \<open>The states the run passes: the pulls of a range not yet sent, those of a range in flight.\<close>

definition seek_pull :: "u64 \<Rightarrow> u64 \<Rightarrow> u64 \<Rightarrow> u32 \<Rightarrow> file_pull" where
  "seek_pull q trigger off len = \<lparr>pl_epochTag = 1, pl_offerId = 2, pl_pasteOp = 3, pl_bulkGen = 4, pl_fileIndex = 0,
     pl_requestId = q, pl_offset = off, pl_len = len, pl_triggerRequestId = trigger\<rparr>"

definition unsent :: "nat \<Rightarrow> u64 \<Rightarrow> read_job" where
  "unsent key off = \<lparr>jb_key = key, jb_fileIndex = 0, jb_offset = off, jb_pulls = [seek_pull 0 kNoTrigger off 65536,
     seek_pull 0 kNoTrigger (off + 65536) 65536, seek_pull 0 kNoTrigger (off + 131072) 65536, seek_pull 0 kNoTrigger (off + 196608) 65536],
     jb_nextPull = 0, jb_done = 0, jb_data = replicate 262144 0, jb_failed = False\<rparr>"

definition in_flight :: "nat \<Rightarrow> u64 \<Rightarrow> u64 \<Rightarrow> read_job" where
  "in_flight key off q = (unsent key off)\<lparr>jb_pulls := [seek_pull q (q - 4) off 65536, seek_pull (q + 1) (q - 3) (off + 65536) 65536,
     seek_pull (q + 2) (q - 2) (off + 131072) 65536, seek_pull (q + 3) (q - 1) (off + 196608) 65536], jb_nextPull := 4\<rparr>"

text \<open>The last range of the old window, one byte, and the only one of the new window, two bytes.\<close>

definition last_job :: "nat \<Rightarrow> u64 \<Rightarrow> u64 \<Rightarrow> u32 \<Rightarrow> nat \<Rightarrow> read_job" where
  "last_job key q trigger n sent = (unsent key 1048576)\<lparr>jb_pulls := [seek_pull q trigger 1048576 n], jb_nextPull := sent,
     jb_data := replicate (unat n) 0\<rparr>"

definition sought :: "read_job list \<Rightarrow> (u64 \<times> nat \<times> nat) list \<Rightarrow> u64 list \<Rightarrow> u64 \<Rightarrow> u64 \<Rightarrow> pull_receiver" where
  "sought js out completed q n = seek_open\<lparr>pv_coverage := [\<lparr>cv_size = seek_size, cv_next = 262144, cv_sequential = True\<rparr>], pv_jobs := js,
     pv_outstanding := out, pv_completed := completed, pv_waiting := [seek_read 1048576], pv_aheadOn := True,
     pv_aheadStart := 1048576, pv_aheadIssuedEnd := seek_size, pv_nextRequestId := q, pv_bytesDelivered := 1,
     pv_counters := \<lparr>ct_readsRequested = 2, ct_readsServed = 1, ct_readsFailed = 0, ct_chunksVerified = n,
       ct_chunksRejected = 0, ct_bytesDelivered = 1\<rparr>, pv_nextKey := 6\<rparr>"

lemmas sought_defs = sought_def seek_open_def unsent_def in_flight_def last_job_def seek_pull_def

lemma run_to_seek:
  "then_read 1048576 (then_run 4 (then_read 0 (Some seek_open))) =
    Some (sought [in_flight 1 262144 5, unsent 2 524288, unsent 3 786432, last_job 4 0 kNoTrigger 1 0, last_job 5 0 kNoTrigger 2 0]
      [(8, 1, 3), (7, 1, 2), (6, 1, 1), (5, 1, 0)] [] 9 4)"
  by (simp add: sought_defs paste_run paste_start upt_rec cong: let_weak_cong)

lemma run_old_second:
  "honest_run 4 (sought [in_flight 1 262144 5, unsent 2 524288, unsent 3 786432, last_job 4 0 kNoTrigger 1 0, last_job 5 0 kNoTrigger 2 0]
      [(8, 1, 3), (7, 1, 2), (6, 1, 1), (5, 1, 0)] [] 9 4) =
    Some (sought [in_flight 2 524288 9, unsent 3 786432, last_job 4 0 kNoTrigger 1 0, last_job 5 0 kNoTrigger 2 0]
      [(12, 2, 3), (11, 2, 2), (10, 2, 1), (9, 2, 0)] [] 13 8)"
  by (simp add: sought_defs paste_run paste_start upt_rec cong: let_weak_cong)

lemma run_old_third:
  "honest_run 4 (sought [in_flight 2 524288 9, unsent 3 786432, last_job 4 0 kNoTrigger 1 0, last_job 5 0 kNoTrigger 2 0]
      [(12, 2, 3), (11, 2, 2), (10, 2, 1), (9, 2, 0)] [] 13 8) =
    Some (sought [in_flight 3 786432 13, last_job 4 0 kNoTrigger 1 0, last_job 5 0 kNoTrigger 2 0]
      [(16, 3, 3), (15, 3, 2), (14, 3, 1), (13, 3, 0)] [] 17 12)"
  by (simp add: sought_defs paste_run paste_start upt_rec cong: let_weak_cong)

lemma run_old_fourth:
  "honest_run 4 (sought [in_flight 3 786432 13, last_job 4 0 kNoTrigger 1 0, last_job 5 0 kNoTrigger 2 0]
      [(16, 3, 3), (15, 3, 2), (14, 3, 1), (13, 3, 0)] [] 17 12) =
    Some (sought [last_job 4 17 13 1 1, last_job 5 18 14 2 1] [(18, 5, 0), (17, 4, 0)] [15, 16] 19 16)"
  by (simp add: sought_defs paste_run paste_start upt_rec cong: let_weak_cong)

section \<open>No turn gets it going again\<close>

definition wedged :: "read_request \<Rightarrow> pull_receiver \<Rightarrow> bool" where
  "wedged w r \<longleftrightarrow> pv_open r \<and> pv_jobs r = [] \<and> pv_outstanding r = [] \<and> pv_waiting r = [w] \<and> pv_aheadOn r \<and>
     pv_aheadFile r = rq_fileIndex w \<and> pv_aheadStart r = rq_offset w \<and> length (pv_ahead r) < unat (rq_len w) \<and>
     unat (rq_fileIndex w) < length (pv_sizes r) \<and> pv_sizes r ! unat (rq_fileIndex w) \<le> pv_aheadIssuedEnd r"

definition spent :: "pull_receiver \<Rightarrow> bool" where
  "spent r \<longleftrightarrow> pv_jobs r = [] \<and> pv_outstanding r = [] \<and> pv_waiting r = [] \<and> \<not> pv_aheadOn r"

lemma run_to_end:
  "\<exists>r. then_read 1048577 (honest_run 2 (sought [last_job 4 17 13 1 1, last_job 5 18 14 2 1] [(18, 5, 0), (17, 4, 0)] [15, 16] 19 16)) =
     Some r \<and> wedged (seek_read 1048577) r \<and> pv_failure r = EndNone \<and> ct_chunksRejected (pv_counters r) = 0"
  by (simp add: sought_defs paste_run paste_start wedged_def upt_rec cong: let_weak_cong)

lemma take_chunk_unasked: "pv_outstanding r = [] \<Longrightarrow> \<exists>c'. take_chunk sha t c r = (False, r\<lparr>pv_counters := c'\<rparr>)"
  by (auto simp: take_chunk_def)

lemma wedged_counters [simp]: "wedged w (r\<lparr>pv_counters := c\<rparr>) = wedged w r"
  "spent (r\<lparr>pv_counters := c\<rparr>) = spent r"
  by (simp_all add: wedged_def spent_def)

lemma wedged_process:
  assumes "wedged w r"
  shows "\<exists>r'. process_reads (drain_jobs (pv_jobs r) r) = ([], [], r') \<and> wedged w r' \<and> pv_stallUs r' = pv_stallUs r"
proof -
  have "\<not> pv_aheadIssuedEnd r < ahead_target r"
    using assms by (auto simp: wedged_def ahead_target_def Let_def min_def not_less)
  then have "\<not> pv_aheadIssuedEnd (r\<lparr>pv_waiting := [w]\<rparr>) < ahead_target (r\<lparr>pv_waiting := [w]\<rparr>)"
    using assms by (simp add: wedged_def ahead_target_def)
  then show ?thesis using assms by (simp add: wedged_def process_reads_def issue_jobs.simps pump_pulls_def ahead_target_def)
qed

lemma wedged_turn:
  assumes "wedged w r" and "loop_turn sha m False t r = ((i, ds), ps, r')"
  shows "ps = [] \<and> (ds = [] \<and> wedged w r' \<or> ds = [read_answer w StatusTimeout []] \<and> spent r')"
proof -
  obtain c' where taken: "(case Option.bind m parse_bulk_chunk of None \<Rightarrow> (False, r) | Some c \<Rightarrow> take_chunk sha t c r) =
      (False, r\<lparr>pv_counters := c'\<rparr>)"
  proof (cases "Option.bind m parse_bulk_chunk")
    case None
    then show thesis using that [of "pv_counters r"] by simp
  next
    case (Some c)
    then show thesis using that take_chunk_unasked [of r sha t c] assms(1) by (auto simp: wedged_def)
  qed
  let ?r = "r\<lparr>pv_counters := c'\<rparr>"
  obtain q where q: "process_reads (drain_jobs (pv_jobs ?r) ?r) = ([], [], q)" "wedged w q"
    using wedged_process [of w ?r] assms(1) by auto
  have "pv_open r" "pv_waiting q = [w]" "pv_jobs q = []" "pv_open q" using assms(1) q(2) by (simp_all add: wedged_def)
  then show ?thesis using assms(2) taken q
    by (auto simp: loop_turn_def Let_def give_up_def fail_all_def pump_pulls_def wedged_def spent_def split: if_splits)
qed

lemma spent_turn:
  assumes "spent r" and "loop_turn sha m False t r = ((i, ds), ps, r')"
  shows "ps = [] \<and> ds = [] \<and> spent r'"
proof (cases "pv_open r")
  case True
  obtain c' where taken: "(case Option.bind m parse_bulk_chunk of None \<Rightarrow> (False, r) | Some c \<Rightarrow> take_chunk sha t c r) =
      (False, r\<lparr>pv_counters := c'\<rparr>)"
  proof (cases "Option.bind m parse_bulk_chunk")
    case None
    then show thesis using that [of "pv_counters r"] by simp
  next
    case (Some c)
    then show thesis using that take_chunk_unasked [of r sha t c] assms(1) by (auto simp: spent_def)
  qed
  then show ?thesis using assms True
    by (auto simp: loop_turn_def Let_def process_reads_def pump_pulls_def spent_def split: if_splits)
qed (use assms in \<open>simp add: loop_turn_def\<close>)

text \<open>What turns give, whatever message each takes off the bulk channel and whenever it runs.\<close>

fun paste_turns :: "(bytes \<Rightarrow> bytes option) \<Rightarrow> (bytes option \<times> u64) list \<Rightarrow> pull_receiver \<Rightarrow> read_data list \<times> file_pull list" where
  "paste_turns sha [] r = ([], [])"
| "paste_turns sha ((m, t) # ms) r = (case loop_turn sha m False t r of ((i, ds), ps, r') \<Rightarrow>
     case paste_turns sha ms r' of (es, qs) \<Rightarrow> (ds @ es, ps @ qs))"

lemma spent_turns: "spent r \<Longrightarrow> paste_turns sha ms r = ([], [])"
proof (induction ms arbitrary: r)
  case (Cons mt ms)
  obtain m t where mt: "mt = (m, t)" by (cases mt)
  obtain i ds ps r' where turn: "loop_turn sha m False t r = ((i, ds), ps, r')" by (metis prod.exhaust)
  show ?case using spent_turn [OF Cons.prems turn] Cons.IH [of r'] turn by (simp add: mt)
qed simp

lemma wedged_turns: "wedged w r \<Longrightarrow> paste_turns sha ms r \<in> {([], []), ([read_answer w StatusTimeout []], [])}"
proof (induction ms arbitrary: r)
  case (Cons mt ms)
  obtain m t where mt: "mt = (m, t)" by (cases mt)
  obtain i ds ps r' where turn: "loop_turn sha m False t r = ((i, ds), ps, r')" by (metis prod.exhaust)
  show ?case using wedged_turn [OF Cons.prems turn] Cons.IH [of r'] spent_turns [of r'] turn by (auto simp: mt)
qed simp

section \<open>The run is one of the two ends\<close>

definition zero_source :: "u32 \<Rightarrow> u64 \<Rightarrow> u32 \<Rightarrow> file_status \<times> bytes" where
  "zero_source idx off len = (StatusOk, slice (replicate 1048578 0) (unat off) (unat len))"

definition serves_seek :: "chunk_server \<Rightarrow> bool" where
  "serves_seek s \<longleftrightarrow> ks_active s \<and> ks_id s = small_id \<and> ks_sizes s = [seek_size]"

lemma zero_source_reads: "reads_truly seek_files i zero_source"
  by (simp add: reads_truly_def zero_source_def seek_files_def)

lemma zero_pull_served:
  assumes "pull_in_file p" and "serves_seek s"
  obtains served s' where "serve_pull small_hash zero_source (frame_pull p) s = (Some (frame_chunk (zero_chunk p), served), s')"
    and "serves_seek s'"
proof -
  have "parse_bulk_pull (frame_pull p) = Some p"
    using assms(1) by (simp add: parse_bulk_pull_exact file_pull_ok_def kMaxFileChunkBytes_def pull_in_file_def)
  moreover have "admits_pull s p"
    using assms by (simp add: admits_pull_def serves_seek_def small_id_def range_ok_def pull_in_file_def kMaxFileChunkBytes_def
      word_le_nat_alt unat_u32_u64)
  moreover have "answer_pull small_hash zero_source p = Some (zero_chunk p)"
  proof -
    have le: "unat (pl_len p) \<le> 1048578 - unat (pl_offset p)" 
      using assms(1) by (auto simp: pull_in_file_def word_le_nat_alt unat_u32_u64 seek_size_def unat_sub_if')
    have "slice (replicate 1048578 0) (unat (pl_offset p)) (unat (pl_len p)) = replicate (unat (pl_len p)) (0 :: u8)"
      using le by (simp add: slice_def)
    then show ?thesis by (simp add: answer_pull_def zero_source_def small_hash_def zero_chunk_def)
  qed
  moreover obtain served s' where rcd: "record_served p s = (served, s')" by fastforce
  moreover have "serves_seek s'" using assms(2) rcd by (auto simp: record_served_def serves_seek_def Let_def)
  ultimately show thesis using that [of served s'] by (simp add: serve_pull_def)
qed

lemma honest_run_net:
  "honest_run n r = Some r' \<Longrightarrow> paste_net small_hash seek_files r s C Q D \<Longrightarrow> serves_seek s \<Longrightarrow>
   \<exists>s' C' D'. paste_net small_hash seek_files r' s' C' Q D' \<and> serves_seek s'"
proof (induction n r arbitrary: s C D rule: honest_run.induct)
  case (2 n r)
  obtain p where p: "oldest_pull r = Some p" "pull_in_file p" using "2.prems"(1) by (auto split: option.splits if_splits)
  obtain i ds ps q where turn: "loop_turn small_hash (Some (frame_chunk (zero_chunk p))) False 0 r = ((i, ds), ps, q)"
    by (metis prod.exhaust)
  obtain served s' where serve: "serve_pull small_hash zero_source (frame_pull p) s = (Some (frame_chunk (zero_chunk p), served), s')"
    "serves_seek s'" using zero_pull_served [OF p(2) "2.prems"(3)] by blast
  have "paste_net small_hash seek_files r s' (insert (frame_chunk (zero_chunk p)) C) Q D"
    by (rule pn_serve [OF "2.prems"(2) zero_source_reads serve(1)])
  from pn_turn [OF this _ turn] have "paste_net small_hash seek_files q s' (insert (frame_chunk (zero_chunk p)) C) Q
      (D \<union> Pair (pv_id r) ` set ds)" by simp
  then show ?case using "2.IH" [OF p(1) p(2)] "2.prems"(1) serve(2) p turn by simp
qed auto

definition reached :: "pull_receiver option \<Rightarrow> bool" where
  "reached q \<longleftrightarrow> (\<exists>r s C Q D. q = Some r \<and> paste_net small_hash seek_files r s C Q D \<and> serves_seek s)"

lemma reached_open: "reached (Some seek_open)"
proof -
  have "paste_net small_hash seek_files seek_open (server_begin small_id [seek_size] chunk_server_init) {} {} {}"
    unfolding seek_open_def by (intro pn_begin pn_open pn_init)
  moreover have "serves_seek (server_begin small_id [seek_size] chunk_server_init)" by (simp add: serves_seek_def server_begin_def)
  ultimately show ?thesis unfolding reached_def by blast
qed

lemma reached_read:
  assumes "reached q"
  shows "reached (then_read off q)"
proof -
  obtain r s C Q D where q: "q = Some r" "paste_net small_hash seek_files r s C Q D" "serves_seek s"
    using assms by (auto simp: reached_def)
  obtain i ds ps r' where read: "submit (seek_read off) 5 0 r = ((i, ds), ps, r')" by (metis prod.exhaust)
  from pn_read [OF q(2) read] show ?thesis using q read by (auto simp: reached_def)
qed

lemma reached_run: "reached q \<Longrightarrow> then_run n q = Some r \<Longrightarrow> reached (Some r)"
  using honest_run_net unfolding reached_def by (cases q) (simp, metis option.inject then_run.simps(2))

text \<open>
  C22. A paste can come to a Read of a byte of the file that no turn will ever answer but with the timeout of
  the stall, although every pull the receiver made has been answered, with the bytes of the file, and none
  failed its check: it makes no other pull. It takes a Read of 1 MiB ahead of the last one.
\<close>

theorem seek_wedges_paste:
  "\<exists>r s C Q D w. paste_net small_hash seek_files r s C Q D \<and> pv_open r \<and> pv_failure r = EndNone \<and>
     ct_chunksRejected (pv_counters r) = 0 \<and> pv_outstanding r = [] \<and> pv_waiting r = [w] \<and> rq_len w = 1 \<and>
     unat (rq_offset w) < length (seek_files (pv_id r) (rq_fileIndex w)) \<and>
     (\<forall>sha ms. paste_turns sha ms r \<in> {([], []), ([read_answer w StatusTimeout []], [])})"
proof -
  let ?before = "then_run 4 (then_read 0 (Some seek_open))"
  obtain q where q: "?before = Some q" using run_to_seek by (cases ?before) auto
  have "reached (Some q)" by (rule reached_run [OF reached_read [OF reached_open] q])
  then have "reached (then_read 1048576 (Some q))" by (rule reached_read)
  note start = this [folded q, unfolded run_to_seek]
  note reached_run [OF start, of 4, unfolded then_run.simps, OF run_old_second]
  from reached_run [OF this, of 4, unfolded then_run.simps, OF run_old_third]
  have "reached (Some (sought [in_flight 3 786432 13, last_job 4 0 kNoTrigger 1 0, last_job 5 0 kNoTrigger 2 0]
      [(16, 3, 3), (15, 3, 2), (14, 3, 1), (13, 3, 0)] [] 17 12))" .
  from reached_run [OF this, of 4, unfolded then_run.simps, OF run_old_fourth]
  have last: "reached (Some (sought [last_job 4 17 13 1 1, last_job 5 18 14 2 1] [(18, 5, 0), (17, 4, 0)] [15, 16] 19 16))" .
  let ?all = "honest_run 2 (sought [last_job 4 17 13 1 1, last_job 5 18 14 2 1] [(18, 5, 0), (17, 4, 0)] [15, 16] 19 16)"
  obtain r where r: "then_read 1048577 ?all = Some r" "wedged (seek_read 1048577) r" "pv_failure r = EndNone"
    "ct_chunksRejected (pv_counters r) = 0" using run_to_end by blast
  obtain p where p: "?all = Some p" using r(1) by (cases ?all) auto
  have "reached (Some p)" by (rule reached_run [OF last, of 2]) (simp only: then_run.simps p)
  then have "reached (Some r)" using reached_read [of "Some p" 1048577] r(1) p by simp
  then obtain s C Q D where "paste_net small_hash seek_files r s C Q D" by (auto simp: reached_def)
  moreover have "unat (rq_offset (seek_read 1048577)) < length (seek_files (pv_id r) (rq_fileIndex (seek_read 1048577)))"
    by (simp add: seek_read_def seek_files_def)
  moreover have "\<forall>sha ms. paste_turns sha ms r \<in> {([], []), ([read_answer (seek_read 1048577) StatusTimeout []], [])}"
    using wedged_turns [OF r(2)] by blast
  moreover have "pv_open r" "pv_outstanding r = []" "pv_waiting r = [seek_read 1048577]" "rq_len (seek_read 1048577) = 1"
    using r(2) by (simp_all add: wedged_def seek_read_def)
  ultimately show ?thesis using r(3,4) by blast
qed

end
