(* ===== verification/UpdateNames.thy ===== *)
theory UpdateNames
  imports Prelude
begin

text \<open>
  \<open>payload_name.cpp\<close>: whether a name out of an update manifest may become a path under the install
  directory. A narrow string is a \<open>string\<close>, a wide one the list of its 16-bit units. The names of
  verdicts for the log and null output pointers are left out.
\<close>

type_synonym wide = "u16 list"

section \<open>Verdicts and pieces\<close>

datatype name_verdict = NameOk | NameEmpty | NameAbsolute | DriveRelative | NameTraversal | CurrentDir | AlternateStream
  | NameWildcard | ControlCharacter | TrailingDotOrSpace | ReservedDeviceName | NameTooLong | EmptyComponent
  | NameDuplicate | NonAscii

definition kMaxPayloadNameLength :: nat where "kMaxPayloadNameLength = 120"

definition wide :: "string \<Rightarrow> wide" where "wide s = map of_char s"

definition is_separator :: "u16 \<Rightarrow> bool" where
  "is_separator c \<longleftrightarrow> c = of_char (CHR 0x5C) \<or> c = of_char (CHR ''/'')"

definition lower_unit :: "u16 \<Rightarrow> u16" where
  "lower_unit c = (if of_char (CHR ''A'') \<le> c \<and> c \<le> of_char (CHR ''Z'') then c + 32 else c)"

definition reserved_devices :: "string list" where
  "reserved_devices = [''con'', ''prn'', ''aux'', ''nul'',
     ''com1'', ''com2'', ''com3'', ''com4'', ''com5'', ''com6'', ''com7'', ''com8'', ''com9'',
     ''lpt1'', ''lpt2'', ''lpt3'', ''lpt4'', ''lpt5'', ''lpt6'', ''lpt7'', ''lpt8'', ''lpt9'']"

definition is_reserved_device :: "wide \<Rightarrow> bool" where
  "is_reserved_device component \<longleftrightarrow>
     map lower_unit (takeWhile (\<lambda>c. c \<noteq> of_char (CHR ''.'')) component) \<in> wide ` set reserved_devices"

text \<open>The pieces between the elements a predicate picks: one more than there are of them.\<close>

lemma tl_dropWhile_less: "dropWhile P xs \<noteq> [] \<Longrightarrow> length (tl (dropWhile P xs)) < length xs"
  using length_dropWhile_le [of P xs] by (cases "dropWhile P xs") auto

function pieces :: "('a \<Rightarrow> bool) \<Rightarrow> 'a list \<Rightarrow> 'a list list" where
  "pieces P xs = takeWhile (\<lambda>x. \<not> P x) xs #
    (if dropWhile (\<lambda>x. \<not> P x) xs = [] then [] else pieces P (tl (dropWhile (\<lambda>x. \<not> P x) xs)))"
  by pat_completeness auto
termination
  by (relation "measure (\<lambda>(P, xs). length xs)") (auto simp del: dropWhile_eq_Nil_conv length_tl intro: tl_dropWhile_less)

declare pieces.simps [simp del]

text \<open>A piece of a path, by itself.\<close>

definition component_verdict :: "wide \<Rightarrow> name_verdict" where
  "component_verdict component =
    (if component = [] then EmptyComponent
     else if component = wide ''..'' then NameTraversal
     else if component = wide ''.'' then CurrentDir
     else if last component = of_char (CHR ''.'') \<or> last component = of_char (CHR '' '') then TrailingDotOrSpace
     else if hd component = of_char (CHR '' '') then TrailingDotOrSpace
     else if is_reserved_device component then ReservedDeviceName
     else NameOk)"

function check_components :: "wide \<Rightarrow> name_verdict" where
  "check_components name =
    (let component = takeWhile (\<lambda>c. \<not> is_separator c) name; rest = dropWhile (\<lambda>c. \<not> is_separator c) name in
     if component_verdict component \<noteq> NameOk then component_verdict component
     else if rest = [] then NameOk
     else check_components (tl rest))"
  by pat_completeness auto
termination
  by (relation "measure length") (auto simp del: dropWhile_eq_Nil_conv length_tl intro: tl_dropWhile_less)

declare check_components.simps [simp del]

section \<open>One name\<close>

text \<open>The first unit that may be in no name.\<close>

definition bad_unit :: "u16 \<Rightarrow> bool" where
  "bad_unit c \<longleftrightarrow> c < 32 \<or> c \<in> of_char ` {CHR ''*'', CHR ''?'', CHR 0x22, CHR ''<'', CHR ''>'', CHR ''|''}"

definition colon_verdict :: "wide \<Rightarrow> name_verdict" where
  "colon_verdict name =
    (let colon = length (takeWhile (\<lambda>c. c \<noteq> of_char (CHR '':'')) name) in
     if colon = 1 \<and> 2 < length name \<and> is_separator (name ! 2) then NameAbsolute
     else if colon = 1 then DriveRelative
     else AlternateStream)"

definition unit_verdict :: "u16 \<Rightarrow> name_verdict" where
  "unit_verdict c = (if c < 32 then ControlCharacter
     else if c = of_char (CHR ''*'') \<or> c = of_char (CHR ''?'') then NameWildcard
     else ControlCharacter)"

definition check_normalised :: "wide \<Rightarrow> name_verdict" where
  "check_normalised name =
    (if name = [] then NameEmpty
     else if kMaxPayloadNameLength < length name then NameTooLong
     else if is_separator (hd name) then NameAbsolute
     else if of_char (CHR '':'') \<in> set name then colon_verdict name
     else case find bad_unit name of
       Some c \<Rightarrow> unit_verdict c
     | None \<Rightarrow> check_components name)"

definition fold_slash :: "u16 \<Rightarrow> u16" where
  "fold_slash c = (if c = of_char (CHR ''/'') then of_char (CHR 0x5C) else c)"

definition normalise_payload_name :: "wide \<Rightarrow> wide" where
  "normalise_payload_name name = map lower_unit (map fold_slash name)"

definition check_payload_name :: "wide \<Rightarrow> name_verdict" where
  "check_payload_name name =
    (if check_normalised name \<noteq> NameOk then check_normalised name else check_normalised (map fold_slash name))"

definition check_payload_name_utf8 :: "string \<Rightarrow> name_verdict" where
  "check_payload_name_utf8 name =
    (if \<exists>c\<in>set name. 0x80 \<le> (of_char c :: nat) then NonAscii else check_payload_name (wide name))"

section \<open>A list of names\<close>

text \<open>The first name refused and why, or nothing.\<close>

fun check_names_from :: "nat \<Rightarrow> wide set \<Rightarrow> wide list \<Rightarrow> (nat \<times> name_verdict) option" where
  "check_names_from i seen [] = None"
| "check_names_from i seen (name # names) =
    (if check_payload_name name \<noteq> NameOk then Some (i, check_payload_name name)
     else if normalise_payload_name name \<in> seen then Some (i, NameDuplicate)
     else check_names_from (i + 1) (insert (normalise_payload_name name) seen) names)"

definition check_payload_names :: "wide list \<Rightarrow> (nat \<times> name_verdict) option" where
  "check_payload_names names = check_names_from 0 {} names"

fun check_utf8_from :: "nat \<Rightarrow> string list \<Rightarrow> (nat \<times> name_verdict) option" where
  "check_utf8_from i [] = None"
| "check_utf8_from i (name # names) =
    (if check_payload_name_utf8 name \<noteq> NameOk then Some (i, check_payload_name_utf8 name) else check_utf8_from (i + 1) names)"

definition check_payload_names_utf8 :: "string list \<Rightarrow> (nat \<times> name_verdict) option" where
  "check_payload_names_utf8 names = (case check_utf8_from 0 names of
     Some bad \<Rightarrow> Some bad
   | None \<Rightarrow> check_payload_names (map wide names))"


section \<open>Where a name leads\<close>

text \<open>How the file system follows a relative path, piece by piece, from a directory.\<close>

fun walk :: "wide list \<Rightarrow> wide list \<Rightarrow> wide list" where
  "walk dir [] = dir"
| "walk dir (c # cs) = (if c = wide ''..'' then walk (butlast dir) cs
     else if c = [] \<or> c = wide ''.'' then walk dir cs
     else walk (dir @ [c]) cs)"

abbreviation path_of :: "wide \<Rightarrow> wide list" where "path_of \<equiv> pieces is_separator"

fun join_path :: "wide list \<Rightarrow> wide" where
  "join_path [] = []"
| "join_path [c] = c"
| "join_path (c # cs) = c @ of_char (CHR 0x5C) # join_path cs"

lemma pieces_not_Nil [simp]: "pieces P xs \<noteq> []"
  by (subst pieces.simps) simp

lemma pieces_none: "c \<in> set (pieces P xs) \<Longrightarrow> x \<in> set c \<Longrightarrow> \<not> P x \<and> x \<in> set xs"
proof (induction P xs rule: pieces.induct)
  case (1 P xs)
  let ?rest = "dropWhile (\<lambda>x. \<not> P x) xs"
  from "1.prems"(1) consider "c = takeWhile (\<lambda>x. \<not> P x) xs" | "?rest \<noteq> []" "c \<in> set (pieces P (tl ?rest))"
    by (subst (asm) pieces.simps) (auto split: if_splits)
  then show ?case
  proof cases
    case 1
    then show ?thesis using "1.prems"(2) by (auto dest: set_takeWhileD)
  next
    case 2
    then have "\<not> P x \<and> x \<in> set (tl ?rest)" using "1.IH" "1.prems"(2) by blast
    then have "\<not> P x \<and> x \<in> set ?rest" by (cases ?rest) auto
    then show ?thesis using set_dropWhileD [of x] by blast
  qed
qed

lemma check_components_iff: "check_components name = NameOk \<longleftrightarrow> (\<forall>c\<in>set (path_of name). component_verdict c = NameOk)"
proof (induction name rule: check_components.induct)
  case (1 name)
  then show ?case by (subst check_components.simps, subst pieces.simps) (auto simp: Let_def simp del: dropWhile_eq_Nil_conv)
qed

lemma walk_plain: "\<forall>c\<in>set cs. component_verdict c = NameOk \<Longrightarrow> walk dir cs = dir @ cs"
  by (induction dir cs rule: walk.induct) (auto simp: component_verdict_def split: if_splits)

text \<open>Exactly the names that are accepted, in one sentence.\<close>

definition name_allowed :: "wide \<Rightarrow> bool" where
  "name_allowed name \<longleftrightarrow> 0 < length name \<and> length name \<le> 120 \<and> of_char (CHR '':'') \<notin> set name \<and>
     (\<forall>c\<in>set name. \<not> bad_unit c) \<and> (\<forall>c\<in>set (path_of name). component_verdict c = NameOk)"

lemma colon_refused [simp]: "colon_verdict name \<noteq> NameOk"
  by (simp add: colon_verdict_def Let_def)

lemma unit_refused [simp]: "unit_verdict c \<noteq> NameOk"
  by (simp add: unit_verdict_def)

lemma leading_separator: "name \<noteq> [] \<Longrightarrow> is_separator (hd name) \<Longrightarrow> [] \<in> set (path_of name)"
  by (subst pieces.simps) (cases name; simp)

lemma check_normalised_iff: "check_normalised name = NameOk \<longleftrightarrow> name_allowed name"
proof (cases "name = [] \<or> is_separator (hd name)")
  case True
  moreover have "component_verdict [] \<noteq> NameOk" by (simp add: component_verdict_def)
  ultimately show ?thesis using leading_separator [of name]
    by (auto simp: check_normalised_def name_allowed_def)
next
  case False
  then show ?thesis
    by (auto simp: check_normalised_def name_allowed_def kMaxPayloadNameLength_def check_components_iff find_None_iff not_less
        find_Some_iff split: option.splits)
qed


lemma pieces_map: "(\<And>x. P (f x) = P x) \<Longrightarrow> pieces P (map f xs) = map (map f) (pieces P xs)"
proof (induction P xs rule: pieces.induct)
  case (1 P xs)
  then show ?case
    by (subst (1 2) pieces.simps)
      (auto simp: takeWhile_map dropWhile_map o_def map_tl [symmetric] simp del: dropWhile_eq_Nil_conv)
qed

lemma separator_fold [simp]: "is_separator (fold_slash c) = is_separator c"
  by (auto simp: is_separator_def fold_slash_def)

lemma separator_lower [simp]: "is_separator (lower_unit c) = is_separator c"
  by (auto simp: is_separator_def lower_unit_def word_le_nat_alt unat_word_ariths)

lemma path_fold [simp]: "path_of (map fold_slash name) = path_of name"
proof -
  have "map fold_slash c = c" if "c \<in> set (path_of name)" for c
    using pieces_none [OF that] by (intro map_idI) (auto simp: fold_slash_def is_separator_def)
  then show ?thesis by (simp add: pieces_map cong: map_cong)
qed

lemma path_normalised: "path_of (normalise_payload_name name) = map (map lower_unit) (path_of name)"
  by (simp only: normalise_payload_name_def pieces_map [of is_separator lower_unit, OF separator_lower] path_fold)

lemma join_path: "(\<And>c. c \<in> set name \<Longrightarrow> is_separator c \<Longrightarrow> c = of_char (CHR 0x5C)) \<Longrightarrow> join_path (path_of name) = name"
proof (induction "is_separator" name rule: pieces.induct)
  case (1 name)
  let ?front = "takeWhile (\<lambda>c. \<not> is_separator c) name" and ?rest = "dropWhile (\<lambda>c. \<not> is_separator c) name"
  show ?case
  proof (cases "?rest = []")
    case True
    then have "?front = name" using takeWhile_dropWhile_id [of "\<lambda>c. \<not> is_separator c" name] by (simp only: append_Nil2)
    then show ?thesis using True by (subst pieces.simps) (simp only: refl if_True join_path.simps)
  next
    case False
    have front: "is_separator (hd ?rest)" using hd_dropWhile [OF False] by simp
    have sub: "set ?rest \<subseteq> set name" by (auto dest: set_dropWhileD)
    then have hd: "hd ?rest = of_char (CHR 0x5C)" using "1.prems" front False by (meson list.set_sel(1) subsetD)
    have "join_path (path_of (tl ?rest)) = tl ?rest"
    proof (rule "1.hyps" [OF False])
      fix c assume c: "c \<in> set (tl ?rest)" "is_separator c"
      from c(1) have "c \<in> set ?rest" by (cases ?rest) auto
      then show "c = of_char (CHR 0x5C)" using "1.prems" c(2) sub by blast
    qed
    then have "join_path (path_of name) = ?front @ hd ?rest # tl ?rest"
      using False hd by (subst pieces.simps) (cases "path_of (tl ?rest)"; simp del: dropWhile_eq_Nil_conv)
    then show ?thesis using False by (simp del: dropWhile_eq_Nil_conv)
  qed
qed

lemma normalised_separator: "c \<in> set (normalise_payload_name name) \<Longrightarrow> is_separator c \<Longrightarrow> c = of_char (CHR 0x5C)"
  by (auto simp: normalise_payload_name_def is_separator_def fold_slash_def lower_unit_def split: if_splits)

lemma normalised_inj: "path_of (normalise_payload_name x) = path_of (normalise_payload_name y) \<Longrightarrow>
    normalise_payload_name x = normalise_payload_name y"
  by (metis join_path normalised_separator)

lemma bad_unit_fold [simp]: "bad_unit (fold_slash c) = bad_unit c"
  by (simp add: bad_unit_def fold_slash_def)

lemma colon_fold [simp]:
  shows "fold_slash c = 58 \<longleftrightarrow> c = 58"
  and colon_kept [simp]: "fold_slash 58 = 58"
  by (simp_all add: fold_slash_def)

lemma name_allowed_fold [simp]: "name_allowed (map fold_slash name) = name_allowed name"
  by (auto simp: name_allowed_def)

lemma check_payload_name_iff: "check_payload_name name = NameOk \<longleftrightarrow> name_allowed name"
  by (simp add: check_payload_name_def check_normalised_iff)

lemma check_names_from_None:
  "check_names_from i seen names = None \<longleftrightarrow> (\<forall>n\<in>set names. name_allowed n) \<and> distinct (map normalise_payload_name names) \<and>
     seen \<inter> normalise_payload_name ` set names = {}"
  by (induction i seen names rule: check_names_from.induct) (auto simp: check_payload_name_iff)

lemma check_utf8_from_None: "check_utf8_from i names = None \<longleftrightarrow> (\<forall>n\<in>set names. check_payload_name_utf8 n = NameOk)"
  by (induction i names rule: check_utf8_from.induct) auto

lemma names_inside:
  assumes "check_payload_names_utf8 names = None"
  shows "\<forall>n\<in>set names. walk dir (path_of (wide n)) = dir @ path_of (wide n)"
    and "\<forall>n\<in>set names. of_char (CHR '':'') \<notin> set (wide n) \<and> (\<forall>c\<in>set (path_of (wide n)). c \<noteq> [] \<and> \<not> is_reserved_device c)"
    and "distinct (map (\<lambda>n. map (map lower_unit) (path_of (wide n))) names)"
proof -
  have ok: "\<forall>n\<in>set names. name_allowed (wide n)" and dist: "distinct (map normalise_payload_name (map wide names))"
    using assms by (auto simp: check_payload_names_utf8_def check_payload_names_def check_names_from_None split: option.splits)
  have parts: "component_verdict c = NameOk" if "n \<in> set names" "c \<in> set (path_of (wide n))" for n c
    using ok that by (auto simp: name_allowed_def)
  have "c \<noteq> [] \<and> \<not> is_reserved_device c" if "component_verdict c = NameOk" for c
    using that by (auto simp: component_verdict_def split: if_splits)
  then show "\<forall>n\<in>set names. of_char (CHR '':'') \<notin> set (wide n) \<and> (\<forall>c\<in>set (path_of (wide n)). c \<noteq> [] \<and> \<not> is_reserved_device c)"
    using ok parts by (auto simp: name_allowed_def)
  show "\<forall>n\<in>set names. walk dir (path_of (wide n)) = dir @ path_of (wide n)" using parts walk_plain by blast
  have "distinct (map (\<lambda>n. path_of (normalise_payload_name (wide n))) names)"
    using dist normalised_inj unfolding distinct_map by (auto simp: inj_on_def)
  then show "distinct (map (\<lambda>n. map (map lower_unit) (path_of (wide n))) names)" by (simp add: path_normalised)
qed

text \<open>
  C28. A list of names is accepted only if every name, followed piece by piece from any directory, ends below
  that directory at exactly its own pieces, none of them a device or an alternate stream, and no two
  names of the list lead to the same file when case and the kind of separator do not matter.
\<close>

theorem payload_names_inside:
  assumes "check_payload_names_utf8 names = None"
  shows "(\<forall>n\<in>set names. walk dir (path_of (wide n)) = dir @ path_of (wide n) \<and> of_char (CHR '':'') \<notin> set (wide n) \<and>
      (\<forall>c\<in>set (path_of (wide n)). c \<noteq> [] \<and> \<not> is_reserved_device c)) \<and>
    distinct (map (\<lambda>n. map (map lower_unit) (path_of (wide n))) names)"
  using names_inside [OF assms] by blast

definition shipped_names :: "string list" where
  "shipped_names = [''GNLinkSetup.exe'', ''ui/index.html'']"

lemma shipped_names_ok: "check_payload_names_utf8 shipped_names = None"
  by (simp add: shipped_names_def check_payload_names_utf8_def check_payload_name_utf8_def check_payload_names_def
      check_payload_name_iff name_allowed_def wide_def pieces.simps is_separator_def bad_unit_def component_verdict_def
      is_reserved_device_def reserved_devices_def lower_unit_def normalise_payload_name_def fold_slash_def)

theorem payload_names_inside_witness:
  "walk [wide ''bin''] (path_of (wide ''ui/index.html'')) = [wide ''bin'', wide ''ui'', wide ''index.html'']"
proof -
  have "walk [wide ''bin''] (path_of (wide ''ui/index.html'')) = [wide ''bin''] @ path_of (wide ''ui/index.html'')"
    using payload_names_inside [OF shipped_names_ok] by (simp add: shipped_names_def)
  then show ?thesis by (simp add: wide_def pieces.simps is_separator_def)
qed

end
