(* ===== verification/UpdateVersion.thy ===== *)
theory UpdateVersion
  imports Prelude
begin

text \<open>
  \<open>version_compare.hpp\<close>: which of two version strings is the newer. The scan of the code is compared
  with the contract of \<open>version_compare_vectors.txt\<close>: dotted numbers, compared component by component, a
  missing one counting as zero.
\<close>

section \<open>The scan\<close>

definition kVersionComponentMax :: u32 where "kVersionComponentMax = 2147483647"

definition is_digit :: "char \<Rightarrow> bool" where
  "is_digit c \<longleftrightarrow> of_char (CHR ''0'') \<le> (of_char c :: nat) \<and> of_char c \<le> (of_char (CHR ''9'') :: nat)"

definition digit_value :: "char \<Rightarrow> nat" where "digit_value c = of_char c - of_char (CHR ''0'')"

definition version_accumulate :: "char \<Rightarrow> u32 \<Rightarrow> u32" where
  "version_accumulate c v = (let digit = of_nat (digit_value c) in
     if (kVersionComponentMax - digit) div 10 < v then kVersionComponentMax else v * 10 + digit)"

definition version_component :: "string \<Rightarrow> u32" where
  "version_component s = fold version_accumulate (takeWhile is_digit s) 0"

definition skip_component :: "string \<Rightarrow> string" where
  "skip_component s = (case dropWhile is_digit s of [] \<Rightarrow> [] | c # r \<Rightarrow> if c = CHR ''.'' then r else c # r)"

definition version_stops :: "string \<Rightarrow> bool" where
  "version_stops s \<longleftrightarrow> s \<noteq> [] \<and> \<not> is_digit (hd s)"

lemma skip_component_le: "length (skip_component s) \<le> length s"
  using length_dropWhile_le [of is_digit s] by (auto simp: skip_component_def split: list.splits)

lemma skip_component_less:
  assumes "s \<noteq> []" and "\<not> version_stops (skip_component s)"
  shows "length (skip_component s) < length s"
proof (cases "dropWhile is_digit s")
  case (Cons c r)
  then have "\<not> is_digit c" using hd_dropWhile [of is_digit s] by simp
  moreover have "length (c # r) \<le> length s" using length_dropWhile_le [of is_digit s] Cons by simp
  ultimately show ?thesis using assms Cons by (auto simp: skip_component_def version_stops_def split: if_splits)
next
  case Nil
  then show ?thesis using assms(1) by (simp add: skip_component_def del: dropWhile_eq_Nil_conv)
qed

lemma scan_less:
  "\<not> (a = [] \<and> b = []) \<Longrightarrow> \<not> (version_stops (skip_component a) \<or> version_stops (skip_component b)) \<Longrightarrow>
   length (skip_component a) + length (skip_component b) < length a + length b"
  using skip_component_less [of a] skip_component_less [of b] skip_component_le [of a] skip_component_le [of b]
  by (cases "a = []"; cases "b = []") auto

function compare_versions :: "string \<Rightarrow> string \<Rightarrow> int" where
  "compare_versions a b =
    (if a = [] \<and> b = [] then 0
     else if version_component a \<noteq> version_component b then (if version_component a < version_component b then -1 else 1)
     else if version_stops (skip_component a) \<or> version_stops (skip_component b) then 0
     else compare_versions (skip_component a) (skip_component b))"
  by pat_completeness auto
termination
  by (relation "measure (\<lambda>(a, b). length a + length b)") (simp_all only: wf_measure in_measure case_prod_conv scan_less not_False_eq_True)

declare compare_versions.simps [simp del]

section \<open>The contract\<close>

text \<open>A version is written as the digits of its components, with dots between them.\<close>

fun dotted :: "string list \<Rightarrow> string" where
  "dotted [] = []"
| "dotted [d] = d"
| "dotted (d # ds) = d @ CHR ''.'' # dotted ds"

definition component_value :: "string \<Rightarrow> nat" where
  "component_value d = min 2147483647 (fold (\<lambda>c v. v * 10 + digit_value c) d 0)"

definition component_at :: "string list \<Rightarrow> nat \<Rightarrow> nat" where
  "component_at ds i = (if i < length ds then component_value (ds ! i) else 0)"

definition numeric :: "string list \<Rightarrow> bool" where
  "numeric ds \<longleftrightarrow> (\<forall>d\<in>set ds. d \<noteq> [] \<and> (\<forall>c\<in>set d. is_digit c))"

definition older :: "string list \<Rightarrow> string list \<Rightarrow> bool" where
  "older ds es \<longleftrightarrow> (\<exists>k. (\<forall>i<k. component_at ds i = component_at es i) \<and> component_at ds k < component_at es k)"

subsection \<open>A component saturates\<close>

lemma digit_value_le: "is_digit c \<Longrightarrow> digit_value c \<le> 9"
  by (auto simp: is_digit_def digit_value_def)

lemma accumulate_value:
  assumes "is_digit c" and "unat v \<le> 2147483647"
  shows "unat (version_accumulate c v) = min 2147483647 (unat v * 10 + digit_value c)"
proof -
  let ?d = "digit_value c"
  have d: "?d \<le> 9" by (rule digit_value_le [OF assms(1)])
  then have ud: "unat (of_nat ?d :: u32) = ?d" by (simp add: unat_of_nat)
  have limit: "unat ((kVersionComponentMax - of_nat ?d) div 10) = (2147483647 - ?d) div 10"
    using d ud by (simp add: kVersionComponentMax_def unat_sub word_le_nat_alt unat_div)
  show ?thesis
  proof (cases "(2147483647 - ?d) div 10 < unat v")
    case True
    then have "2147483647 - ?d < unat v * 10" by (simp add: div_less_iff_less_mult)
    then show ?thesis using True limit d
      by (simp add: version_accumulate_def Let_def word_less_nat_alt kVersionComponentMax_def)
  next
    case False
    then have le: "unat v * 10 + ?d \<le> 2147483647" using d by (simp add: not_less less_eq_div_iff_mult_less_eq)
    then have "unat (v * 10 + of_nat ?d) = unat v * 10 + ?d" using ud by (simp add: unat_word_ariths)
    then show ?thesis using False limit le by (simp add: version_accumulate_def Let_def word_less_nat_alt)
  qed
qed

lemma fold_accumulate:
  "\<forall>c\<in>set d. is_digit c \<Longrightarrow> unat v = min 2147483647 n \<Longrightarrow>
   unat (fold version_accumulate d v) = min 2147483647 (fold (\<lambda>c v. v * 10 + digit_value c) d n)"
proof (induction d arbitrary: v n)
  case (Cons c d)
  have "unat (version_accumulate c v) = min 2147483647 (n * 10 + digit_value c)"
    using accumulate_value [of c v] Cons.prems by (auto simp: min_def)
  then show ?case using Cons by simp
qed simp

subsection \<open>One round of the scan\<close>

lemma dotted_scan:
  assumes "numeric (d # ds)"
  shows "unat (version_component (dotted (d # ds))) = component_value d" and "skip_component (dotted (d # ds)) = dotted ds"
proof -
  obtain r where r: "dotted (d # ds) = d @ r" "r = [] \<and> ds = [] \<or> r = CHR ''.'' # dotted ds" by (cases ds) auto
  have digits: "\<forall>c\<in>set d. is_digit c" using assms by (simp add: numeric_def)
  have stop: "r = [] \<or> \<not> is_digit (hd r)" using r(2) by (auto simp: is_digit_def)
  have "takeWhile is_digit (d @ r) = d" using digits stop by (cases r) auto
  moreover have "dropWhile is_digit (d @ r) = r" using digits stop by (cases r) auto
  ultimately show "unat (version_component (dotted (d # ds))) = component_value d" "skip_component (dotted (d # ds)) = dotted ds"
    using r fold_accumulate [OF digits, of 0 0]
    by (auto simp: version_component_def skip_component_def component_value_def)
qed

lemma dotted_first:
  assumes "numeric ds"
  shows "unat (version_component (dotted ds)) = component_at ds 0" and "skip_component (dotted ds) = dotted (tl ds)"
  using assms dotted_scan by (cases ds; simp add: component_at_def version_component_def skip_component_def)+

lemma numeric_tl: "numeric ds \<Longrightarrow> numeric (tl ds)"
  by (cases ds) (auto simp: numeric_def)

lemma dotted_goes_on: "numeric ds \<Longrightarrow> \<not> version_stops (dotted ds)"
  by (cases ds rule: dotted.cases) (auto simp: numeric_def version_stops_def)

lemma dotted_Nil_iff: "numeric ds \<Longrightarrow> dotted ds = [] \<longleftrightarrow> ds = []"
  by (cases ds rule: dotted.cases) (auto simp: numeric_def)

lemma component_at_tl: "component_at (tl ds) i = component_at ds (Suc i)"
  by (cases ds) (auto simp: component_at_def)

lemma older_step: "older ds es \<longleftrightarrow> component_at ds 0 < component_at es 0 \<or>
    component_at ds 0 = component_at es 0 \<and> older (tl ds) (tl es)"
proof
  assume "older ds es"
  then obtain k where k: "\<forall>i<k. component_at ds i = component_at es i" "component_at ds k < component_at es k"
    by (auto simp: older_def)
  show "component_at ds 0 < component_at es 0 \<or> component_at ds 0 = component_at es 0 \<and> older (tl ds) (tl es)"
  proof (cases k)
    case (Suc j)
    then have "\<forall>i<j. component_at (tl ds) i = component_at (tl es) i" "component_at (tl ds) j < component_at (tl es) j"
      using k by (auto simp: component_at_tl)
    then show ?thesis using k(1) Suc by (auto simp: older_def)
  qed (use k in simp)
next
  assume "component_at ds 0 < component_at es 0 \<or> component_at ds 0 = component_at es 0 \<and> older (tl ds) (tl es)"
  then show "older ds es"
  proof
    assume both: "component_at ds 0 = component_at es 0 \<and> older (tl ds) (tl es)"
    then obtain k where k: "\<forall>i<k. component_at ds (Suc i) = component_at es (Suc i)" "component_at ds (Suc k) < component_at es (Suc k)"
      by (auto simp: older_def component_at_tl)
    then have "\<forall>i<Suc k. component_at ds i = component_at es i" using both by (auto simp: less_Suc_eq_0_disj)
    then show ?thesis using k(2) unfolding older_def by blast
  qed (auto simp: older_def)
qed

section \<open>The scan meets the contract\<close>

lemma older_irrefl: "(\<And>i. component_at ds i = component_at es i) \<Longrightarrow> \<not> older ds es"
  by (simp add: older_def)

lemma compare_dotted:
  "numeric ds \<Longrightarrow> numeric es \<Longrightarrow>
   compare_versions (dotted ds) (dotted es) = (if older ds es then -1 else if older es ds then 1 else 0)"
proof (induction "length ds + length es" arbitrary: ds es rule: less_induct)
  case less
  let ?c = "version_component (dotted ds)" and ?d = "version_component (dotted es)"
  have c: "unat ?c = component_at ds 0" "unat ?d = component_at es 0" using dotted_first less.prems by auto
  show ?case
  proof (cases "ds = [] \<and> es = []")
    case True
    then show ?thesis by (simp add: compare_versions.simps older_irrefl)
  next
    case some: False
    then have start: "\<not> (dotted ds = [] \<and> dotted es = [])" using dotted_Nil_iff less.prems by auto
    show ?thesis
    proof (cases "?c = ?d")
      case False
      then have "component_at ds 0 \<noteq> component_at es 0" using c by (metis word_unat_eq_iff)
      then show ?thesis using False start c
        by (subst compare_versions.simps, subst (1 2) older_step) (auto simp: word_less_nat_alt)
    next
      case True
      have go: "\<not> version_stops (dotted (tl ds))" "\<not> version_stops (dotted (tl es))"
        using dotted_goes_on numeric_tl less.prems by blast+
      have "compare_versions (dotted ds) (dotted es) = compare_versions (dotted (tl ds)) (dotted (tl es))"
        using True start go dotted_first(2) less.prems by (subst compare_versions.simps) auto
      also have "\<dots> = (if older (tl ds) (tl es) then -1 else if older (tl es) (tl ds) then 1 else 0)"
        using some less.prems numeric_tl by (intro less.hyps) (auto simp: neq_Nil_conv)
      also have "\<dots> = (if older ds es then -1 else if older es ds then 1 else 0)"
        using True c by (simp add: older_step [of ds es] older_step [of es ds])
      finally show ?thesis .
    qed
  qed
qed

lemma older_asym: "older ds es \<Longrightarrow> \<not> older es ds"
  unfolding older_def by (metis linorder_neqE_nat order.asym)

lemma older_total: "older ds es \<or> older es ds \<or> (\<forall>i. component_at ds i = component_at es i)"
proof (rule ccontr)
  assume no: "\<not> ?thesis"
  then obtain i where "component_at ds i \<noteq> component_at es i" by blast
  then have "\<exists>k. component_at ds k \<noteq> component_at es k \<and> (\<forall>i<k. component_at ds i = component_at es i)"
    using exists_least_iff [of "\<lambda>i. component_at ds i \<noteq> component_at es i"] by blast
  then show False using no unfolding older_def by (metis linorder_neqE_nat)
qed

lemma older_trans:
  assumes "older ds es" and "older es fs"
  shows "older ds fs"
proof -
  obtain j k where j: "\<forall>i<j. component_at ds i = component_at es i" "component_at ds j < component_at es j"
    and k: "\<forall>i<k. component_at es i = component_at fs i" "component_at es k < component_at fs k"
    using assms by (auto simp: older_def)
  have "\<forall>i<min j k. component_at ds i = component_at fs i" using j k by simp
  moreover have "component_at ds (min j k) < component_at fs (min j k)"
    using j k by (cases j k rule: linorder_cases) (auto simp: min_def dest: order.strict_trans)
  ultimately show ?thesis unfolding older_def by blast
qed

lemma equal_iff: "(\<forall>i. component_at ds i = component_at es i) \<longleftrightarrow> \<not> older ds es \<and> \<not> older es ds"
  by (metis older_irrefl older_total)

lemma newer_iff: "numeric ds \<Longrightarrow> numeric es \<Longrightarrow> compare_versions (dotted ds) (dotted es) > 0 \<longleftrightarrow> older es ds"
  using older_asym by (auto simp: compare_dotted)

text \<open>
  C29. Of two versions written as dotted numbers the code finds the one newer that is greater at the first
  component where they differ, a missing component counting as zero and one of 2^31 or more as 2^31 - 1;
  it finds them equal exactly if they differ at no component. So among such versions being newer is a
  strict order: nothing is newer than itself, and what is newer than a newer one is newer.
\<close>

theorem version_compare_exact:
  assumes "numeric ds" and "numeric es"
  shows "(compare_versions (dotted ds) (dotted es) > 0 \<longleftrightarrow> older es ds) \<and>
    (compare_versions (dotted ds) (dotted es) < 0 \<longleftrightarrow> older ds es) \<and>
    (compare_versions (dotted ds) (dotted es) = 0 \<longleftrightarrow> (\<forall>i. component_at ds i = component_at es i)) \<and>
    (\<forall>fs. numeric fs \<longrightarrow> compare_versions (dotted es) (dotted fs) > 0 \<longrightarrow> compare_versions (dotted ds) (dotted es) > 0 \<longrightarrow>
       compare_versions (dotted ds) (dotted fs) > 0)"
proof (intro conjI allI impI)
  show "compare_versions (dotted ds) (dotted es) > 0 \<longleftrightarrow> older es ds" by (rule newer_iff [OF assms])
  show "compare_versions (dotted ds) (dotted es) < 0 \<longleftrightarrow> older ds es" using compare_dotted [OF assms] by simp
  show "compare_versions (dotted ds) (dotted es) = 0 \<longleftrightarrow> (\<forall>i. component_at ds i = component_at es i)"
    using compare_dotted [OF assms] equal_iff [of ds es] by simp
  fix fs assume "numeric fs" "compare_versions (dotted es) (dotted fs) > 0" "compare_versions (dotted ds) (dotted es) > 0"
  then show "compare_versions (dotted ds) (dotted fs) > 0" using older_trans newer_iff assms by blast
qed

theorem version_compare_exact_witness: "compare_versions ''0.2.10'' ''0.2.9'' > 0"
proof -
  have ds: "numeric [''0'', ''2'', ''10'']" "numeric [''0'', ''2'', ''9'']" by (simp_all add: numeric_def is_digit_def)
  have "older [''0'', ''2'', ''9''] [''0'', ''2'', ''10'']"
    unfolding older_def by (rule exI [of _ 2]) (auto simp: component_at_def component_value_def digit_value_def less_Suc_eq numeral_2_eq_2)
  then show ?thesis using version_compare_exact [OF ds] by simp
qed

end
