(* ===== verification/UpdateManifest.thy ===== *)
theory UpdateManifest
  imports UpdateNames UpdateVersion
begin

text \<open>
  \<open>update_manifest.cpp\<close> with \<open>parse_https_url\<close> of \<open>update_http.cpp\<close> and \<open>decode_hex\<close> of
  \<open>update_signature.cpp\<close>: the signed document that says what an update is. The check of a signature is an
  argument. The reasons written to the log are left out; a host and a path are kept as the bytes before
  they are widened.
\<close>

section \<open>Text\<close>

definition tab_char :: char where "tab_char = CHR 0x09"
definition cr_char :: char where "cr_char = CHR 0x0D"
definition newline_char :: char where "newline_char = CHR 0x0A"

definition trim :: "string \<Rightarrow> string" where
  "trim s = rev (dropWhile (\<lambda>c. c = CHR '' '' \<or> c = tab_char \<or> c = cr_char)
     (rev (dropWhile (\<lambda>c. c = CHR '' '' \<or> c = tab_char) s)))"

fun parse_digits :: "u64 \<Rightarrow> string \<Rightarrow> u64 option" where
  "parse_digits v [] = Some v"
| "parse_digits v (c # s) =
    (if \<not> is_digit c then None
     else if (- 1 - of_nat (digit_value c)) div 10 < v then None
     else parse_digits (v * 10 + of_nat (digit_value c)) s)"

definition parse_u64 :: "string \<Rightarrow> u64 option" where
  "parse_u64 text = (if text = [] \<or> 20 < length text then None else parse_digits 0 text)"

definition is_lowercase_sha256_hex :: "string \<Rightarrow> bool" where
  "is_lowercase_sha256_hex s \<longleftrightarrow> length s = 64 \<and>
     (\<forall>c\<in>set s. is_digit c \<or> of_char (CHR ''a'') \<le> (of_char c :: nat) \<and> of_char c \<le> (of_char (CHR ''f'') :: nat))"

text \<open>Both cases of hexadecimal digits here, unlike above.\<close>

definition hex_value :: "char \<Rightarrow> nat option" where
  "hex_value c = (let n = of_char c :: nat in
     if is_digit c then Some (n - 48)
     else if 97 \<le> n \<and> n \<le> 102 then Some (n - 97 + 10)
     else if 65 \<le> n \<and> n \<le> 70 then Some (n - 65 + 10)
     else None)"

fun decode_hex_pairs :: "string \<Rightarrow> bytes option" where
  "decode_hex_pairs (h # l # s) = (case (hex_value h, hex_value l) of
     (Some hi, Some lo) \<Rightarrow> map_option (\<lambda>r. (push_bit 4 (of_nat hi) OR of_nat lo) # r) (decode_hex_pairs s)
   | _ \<Rightarrow> None)"
| "decode_hex_pairs s = (if s = [] then Some [] else None)"

definition decode_hex :: "string \<Rightarrow> bytes option" where
  "decode_hex text = (if odd (length text) then None else decode_hex_pairs text)"

section \<open>An address\<close>

record https_url =
  hu_host :: string
  hu_port :: u16
  hu_path :: string

definition lower_char :: "char \<Rightarrow> char" where
  "lower_char c = (let n = of_char c :: nat in if 65 \<le> n \<and> n \<le> 90 then char_of (n + 32) else c)"

definition starts_with :: "string \<Rightarrow> string \<Rightarrow> bool" where
  "starts_with p s \<longleftrightarrow> take (length p) s = p"

text \<open>\<open>strtoul\<close> on digits: the value, or the greatest of its type.\<close>

definition decimal_value :: "string \<Rightarrow> nat" where
  "decimal_value s = min (2 ^ 32 - 1) (fold (\<lambda>c v. v * 10 + digit_value c) s 0)"

definition split_port :: "string \<Rightarrow> (string \<times> u16) option" where
  "split_port hostPort =
    (if CHR '':'' \<notin> set hostPort then Some (hostPort, 443)
     else let portText = rev (takeWhile (\<lambda>c. c \<noteq> CHR '':'') (rev hostPort));
              host = rev (tl (dropWhile (\<lambda>c. c \<noteq> CHR '':'') (rev hostPort))) in
       if portText = [] \<or> \<not> list_all is_digit portText then None
       else if decimal_value portText = 0 \<or> 65535 < decimal_value portText then None
       else Some (host, of_nat (decimal_value portText)))"

definition parse_https_url :: "string \<Rightarrow> https_url option" where
  "parse_https_url url =
    (if starts_with ''http://'' (map lower_char url) then None
     else if \<not> starts_with ''https://'' (map lower_char url) then None
     else let rest = drop 8 url; hostPort = takeWhile (\<lambda>c. c \<noteq> CHR ''/'') rest;
              path = (if CHR ''/'' \<in> set rest then dropWhile (\<lambda>c. c \<noteq> CHR ''/'') rest else ''/'') in
       if rest = [] then None
       else if CHR ''@'' \<in> set hostPort then None
       else if hostPort = [] then None
       else case split_port hostPort of None \<Rightarrow> None
         | Some (host, port) \<Rightarrow> if host = [] then None
           else Some \<lparr>hu_host = host, hu_port = port, hu_path = path\<rparr>)"

section \<open>The document\<close>

record manifest_artifact =
  ma_name :: string
  ma_size :: u64
  ma_sha256 :: string
  ma_url :: string

record manifest_fields =
  mf_schema :: u32
  mf_platform :: string
  mf_version :: string
  mf_androidVersionCode :: u64
  mf_payloadNames :: "string list"
  mf_releaseId :: string
  mf_arch :: string
  mf_artifacts :: "manifest_artifact list"

definition no_fields :: manifest_fields where
  "no_fields = \<lparr>mf_schema = 0, mf_platform = [], mf_version = [], mf_androidVersionCode = 0, mf_payloadNames = [],
     mf_releaseId = [], mf_arch = [], mf_artifacts = []\<rparr>"

definition kSupportedSchema :: u32 where "kSupportedSchema = 2"

definition parse_artifact :: "string \<Rightarrow> manifest_artifact option" where
  "parse_artifact value =
    (let parts = pieces (\<lambda>c. c = CHR ''|'') value in
     if length parts \<noteq> 4 then None
     else map_option (\<lambda>n. \<lparr>ma_name = trim (parts ! 0), ma_size = n, ma_sha256 = trim (parts ! 2), ma_url = trim (parts ! 3)\<rparr>)
       (parse_u64 (trim (parts ! 1))))"

definition parse_key :: "string \<Rightarrow> string \<Rightarrow> bool \<times> manifest_fields \<Rightarrow> (bool \<times> manifest_fields) option" where
  "parse_key key value st = (case st of (sawSchema, m) \<Rightarrow>
    (if key = ''schema'' then (case parse_u64 value of None \<Rightarrow> None
         | Some v \<Rightarrow> if ucast (- 1 :: u32) < v then None else Some (True, m\<lparr>mf_schema := ucast v\<rparr>))
     else if key = ''platform'' then Some (sawSchema, m\<lparr>mf_platform := value\<rparr>)
     else if key = ''version'' then Some (sawSchema, m\<lparr>mf_version := value\<rparr>)
     else if key = ''releaseId'' then Some (sawSchema, m\<lparr>mf_releaseId := value\<rparr>)
     else if key = ''arch'' then Some (sawSchema, m\<lparr>mf_arch := value\<rparr>)
     else if key = ''artifact'' then (case parse_artifact value of None \<Rightarrow> None
         | Some a \<Rightarrow> Some (sawSchema, m\<lparr>mf_artifacts := mf_artifacts m @ [a]\<rparr>))
     else if key = ''payload'' then Some (sawSchema, m\<lparr>mf_payloadNames := mf_payloadNames m @ [value]\<rparr>)
     else if key = ''versionCode'' then (case parse_u64 value of None \<Rightarrow> None
         | Some v \<Rightarrow> Some (sawSchema, m\<lparr>mf_androidVersionCode := v\<rparr>))
     else Some st))"

definition parse_line :: "string \<Rightarrow> bool \<times> manifest_fields \<Rightarrow> (bool \<times> manifest_fields) option" where
  "parse_line raw st =
    (let line = trim raw in
     if line = [] \<or> hd line = CHR ''#'' then Some st
     else if CHR ''='' \<notin> set line then None
     else let key = trim (takeWhile (\<lambda>c. c \<noteq> CHR ''='') line); value = trim (tl (dropWhile (\<lambda>c. c \<noteq> CHR ''='') line)) in
       if key = [] then None else parse_key key value st)"

fun parse_lines :: "string list \<Rightarrow> bool \<times> manifest_fields \<Rightarrow> (bool \<times> manifest_fields) option" where
  "parse_lines [] st = Some st"
| "parse_lines (l # ls) st = (case parse_line l st of None \<Rightarrow> None | Some st' \<Rightarrow> parse_lines ls st')"

definition parse_fields :: "string \<Rightarrow> manifest_fields option" where
  "parse_fields document = (case parse_lines (pieces (\<lambda>c. c = newline_char) document) (False, no_fields) of
     None \<Rightarrow> None
   | Some (sawSchema, m) \<Rightarrow> if sawSchema then Some m else None)"

section \<open>What is believed\<close>

datatype manifest_status = ManifestOk | SignatureInvalid | ManifestMalformed | WrongPlatform | UnsupportedSchema

record manifest_limits =
  lm_maxArtifacts :: nat
  lm_maxArtifactBytes :: u64
  lm_maxTotalBytes :: u64

definition default_limits :: manifest_limits where
  "default_limits = \<lparr>lm_maxArtifacts = 64, lm_maxArtifactBytes = 512 * 1024 * 1024, lm_maxTotalBytes = 2048 * 1024 * 1024\<rparr>"

text \<open>The artifacts one after the other, with the bytes of those before.\<close>

fun artifacts_ok :: "manifest_limits \<Rightarrow> u64 \<Rightarrow> manifest_artifact list \<Rightarrow> bool" where
  "artifacts_ok l used [] \<longleftrightarrow> True"
| "artifacts_ok l used (a # as) \<longleftrightarrow>
    (if ma_size a = 0 \<or> lm_maxArtifactBytes l < ma_size a then False
     else if lm_maxTotalBytes l - ma_size a < used then False
     else if \<not> is_lowercase_sha256_hex (ma_sha256 a) then False
     else if parse_https_url (ma_url a) = None then False
     else artifacts_ok l (used + ma_size a) as)"

text \<open>The rules on the fields, in the order of the code; the status of the first that is broken.\<close>

definition judge_fields :: "manifest_fields \<Rightarrow> string \<Rightarrow> string \<Rightarrow> manifest_limits \<Rightarrow> manifest_status" where
  "judge_fields m expectedPlatform expectedArch l =
    (if mf_schema m \<noteq> kSupportedSchema then UnsupportedSchema
     else if mf_version m = [] \<or> mf_platform m = [] then ManifestMalformed
     else if mf_releaseId m = [] then ManifestMalformed
     else if mf_arch m = [] then ManifestMalformed
     else if expectedArch \<noteq> [] \<and> mf_arch m \<noteq> expectedArch then WrongPlatform
     else if mf_artifacts m = [] then ManifestMalformed
     else if lm_maxArtifacts l < length (mf_artifacts m) then ManifestMalformed
     else if \<not> artifacts_ok l 0 (mf_artifacts m) then ManifestMalformed
     else if check_payload_names_utf8 (map ma_name (mf_artifacts m)) \<noteq> None then ManifestMalformed
     else if mf_payloadNames m \<noteq> [] \<and> check_payload_names_utf8 (mf_payloadNames m) \<noteq> None then ManifestMalformed
     else if expectedPlatform \<noteq> [] \<and> mf_platform m \<noteq> expectedPlatform then WrongPlatform
     else ManifestOk)"

definition load_manifest ::
    "string \<Rightarrow> string \<Rightarrow> string \<Rightarrow> (string \<Rightarrow> bytes \<Rightarrow> bool) option \<Rightarrow> string \<Rightarrow> manifest_limits \<Rightarrow>
     manifest_status \<times> manifest_fields option" where
  "load_manifest document signatureHex expectedPlatform verifier expectedArch l =
    (case verifier of None \<Rightarrow> (SignatureInvalid, None)
     | Some verify \<Rightarrow> (case decode_hex signatureHex of None \<Rightarrow> (SignatureInvalid, None)
       | Some signature \<Rightarrow>
         (if \<not> verify document signature then (SignatureInvalid, None)
          else case parse_fields document of None \<Rightarrow> (ManifestMalformed, None)
            | Some m \<Rightarrow> (let st = judge_fields m expectedPlatform expectedArch l in
                (st, if st = ManifestOk then Some m else None)))))"

definition kP256PublicKeyBytes :: nat where "kP256PublicKeyBytes = 64"

definition trusted_public_key_hex :: string where
  "trusted_public_key_hex = ''8709ea70daac6464af4ed0fff1ed7489ec9e9a4a908d48babe5b62753242d9a8'' @
     ''72a4556df0c9ffa2e98dc70e6c553a624a8a235e8c4303488743f37ba240193e''"

text \<open>The check of an ECDSA signature by the operating system (document, signature, key) is an argument.\<close>

definition default_verifier :: "(string \<Rightarrow> bytes \<Rightarrow> bytes \<Rightarrow> bool) \<Rightarrow> string \<Rightarrow> bytes \<Rightarrow> bool" where
  "default_verifier verify_ecdsa document signature = (case decode_hex trusted_public_key_hex of None \<Rightarrow> False
     | Some key \<Rightarrow> if length key \<noteq> kP256PublicKeyBytes then False else verify_ecdsa document signature key)"

lemma trusted_key_whole: "\<exists>key. decode_hex trusted_public_key_hex = Some key \<and> length key = kP256PublicKeyBytes"
  by (simp add: decode_hex_def trusted_public_key_hex_def hex_value_def is_digit_def kP256PublicKeyBytes_def)

definition is_newer_than :: "manifest_fields \<Rightarrow> string \<Rightarrow> bool" where
  "is_newer_than m installedVersion \<longleftrightarrow> 0 < compare_versions (mf_version m) installedVersion"


section \<open>A manifest that is believed\<close>

lemma artifacts_ok_bound:
  "artifacts_ok l used as \<Longrightarrow> lm_maxArtifactBytes l \<le> lm_maxTotalBytes l \<Longrightarrow> unat used \<le> unat (lm_maxTotalBytes l) \<Longrightarrow>
    unat used + (\<Sum>a\<leftarrow>as. unat (ma_size a)) \<le> unat (lm_maxTotalBytes l)"
proof (induction l used "as" rule: artifacts_ok.induct)
  case (2 l used a as)
  note limits = "2.prems"(2)
  have "ma_size a \<le> lm_maxArtifactBytes l" "used \<le> lm_maxTotalBytes l - ma_size a"
    and rest: "artifacts_ok l (used + ma_size a) as"
    using "2.prems"(1) by (auto simp: not_less split: if_splits)
  then have size: "ma_size a \<le> lm_maxTotalBytes l" "used \<le> lm_maxTotalBytes l - ma_size a" using limits by simp_all
  have "unat (lm_maxTotalBytes l - ma_size a) = unat (lm_maxTotalBytes l) - unat (ma_size a)"
    using size(1) by (simp add: unat_sub word_le_nat_alt)
  then have le: "unat used + unat (ma_size a) \<le> unat (lm_maxTotalBytes l)" using size by (simp add: word_le_nat_alt)
  then have "unat (used + ma_size a) = unat used + unat (ma_size a)"
    using unat_bounds(4) [of "lm_maxTotalBytes l"] by (simp add: unat_word_ariths)
  then show ?case using "2.IH" rest "2.prems" le by (auto split: if_splits)
qed simp

lemma artifacts_ok_each: "artifacts_ok l used as \<Longrightarrow> a \<in> set as \<Longrightarrow>
    0 < ma_size a \<and> ma_size a \<le> lm_maxArtifactBytes l \<and> is_lowercase_sha256_hex (ma_sha256 a) \<and> parse_https_url (ma_url a) \<noteq> None"
  by (induction l used "as" rule: artifacts_ok.induct) (auto simp: word_neq_0_conv not_less split: if_splits)


lemma judge_fields_ok: "judge_fields m platform arch l = ManifestOk \<longleftrightarrow>
    mf_schema m = kSupportedSchema \<and> mf_version m \<noteq> [] \<and> mf_platform m \<noteq> [] \<and> mf_releaseId m \<noteq> [] \<and> mf_arch m \<noteq> [] \<and>
    (arch = [] \<or> mf_arch m = arch) \<and> mf_artifacts m \<noteq> [] \<and> length (mf_artifacts m) \<le> lm_maxArtifacts l \<and>
    artifacts_ok l 0 (mf_artifacts m) \<and> check_payload_names_utf8 (map ma_name (mf_artifacts m)) = None \<and>
    (mf_payloadNames m = [] \<or> check_payload_names_utf8 (mf_payloadNames m) = None) \<and> (platform = [] \<or> mf_platform m = platform)"
  by (auto simp: judge_fields_def not_less simp del: not_None_eq)

lemma split_port_host:
  assumes "split_port hostPort = Some (host, port)"
  shows "set host \<subseteq> set hostPort \<and> port \<noteq> 0"
proof (cases "CHR '':'' \<in> set hostPort")
  case True
  define behind where "behind = dropWhile (\<lambda>c. c \<noteq> CHR '':'') (rev hostPort)"
  define digits where "digits = rev (takeWhile (\<lambda>c. c \<noteq> CHR '':'') (rev hostPort))"
  have run: "(if digits = [] \<or> \<not> list_all is_digit digits then None
      else if decimal_value digits = 0 \<or> 65535 < decimal_value digits then None
      else Some (rev (tl behind), of_nat (decimal_value digits))) = Some (host, port)"
    using assms True unfolding split_port_def Let_def digits_def behind_def by (simp only: not_True_eq_False if_False)
  then have host: "host = rev (tl behind)" and n: "decimal_value digits \<noteq> 0" "\<not> 65535 < decimal_value digits" "port = of_nat (decimal_value digits)"
    by (auto split: if_split_asm)
  have "set (tl behind) \<subseteq> set behind" by (cases behind) auto
  moreover have "set behind \<subseteq> set hostPort" unfolding behind_def by (auto dest: set_dropWhileD)
  moreover have "unat port = decimal_value digits" using n by (simp add: unat_of_nat)
  ultimately show ?thesis using host n(1) by auto
qed (use assms in \<open>simp add: split_port_def\<close>)

lemma https_url_host:
  assumes "parse_https_url url = Some u"
  shows "hu_host u \<noteq> [] \<and> CHR ''@'' \<notin> set (hu_host u) \<and> hu_port u \<noteq> 0"
proof -
  obtain host port where "split_port (takeWhile (\<lambda>c. c \<noteq> CHR ''/'') (drop 8 url)) = Some (host, port)"
    and "CHR ''@'' \<notin> set (takeWhile (\<lambda>c. c \<noteq> CHR ''/'') (drop 8 url))" "host \<noteq> []" "hu_host u = host" "hu_port u = port"
    using assms by (auto simp: parse_https_url_def Let_def split: if_split_asm option.splits prod.splits)
  then show ?thesis using split_port_host by blast
qed

lemma loaded_fields:
  assumes "load_manifest document signatureHex platform verifier arch l = (ManifestOk, Some m)"
  obtains verify signature where "verifier = Some verify" "decode_hex signatureHex = Some signature" "verify document signature"
    "parse_fields document = Some m" "judge_fields m platform arch l = ManifestOk"
  using assms that by (auto simp: load_manifest_def Let_def split: option.splits if_splits)



section \<open>A document that loads\<close>

lemma pieces_lines: "\<forall>l\<in>set ls. nl \<notin> set l \<Longrightarrow> pieces (\<lambda>c. c = nl) (concat (map (\<lambda>l. l @ [nl]) ls)) = ls @ [[]]"
proof (induction ls)
  case (Cons l ls)
  have "takeWhile (\<lambda>c. c \<noteq> nl) (l @ nl # r) = l" "dropWhile (\<lambda>c. c \<noteq> nl) (l @ nl # r) = nl # r" for r
    using Cons.prems by (auto simp: takeWhile_append dropWhile_append)
  then show ?case using Cons by (subst pieces.simps) simp
qed (simp add: pieces.simps)

definition example_lines :: "string list" where
  "example_lines = [''schema=2'', ''platform = windows'', ''arch=x64'', ''version=0.2.10'', ''releaseId=r1'',
     ''artifact=GNLinkSetup.exe|1024|0123456789abcdef0123456789abcdef0123456789abcdef0123456789abcdef|https://example.org/a'']"

definition example_artifact :: manifest_artifact where
  "example_artifact = \<lparr>ma_name = ''GNLinkSetup.exe'', ma_size = 1024,
     ma_sha256 = ''0123456789abcdef0123456789abcdef0123456789abcdef0123456789abcdef'', ma_url = ''https://example.org/a''\<rparr>"

definition example_manifest :: manifest_fields where
  "example_manifest = no_fields\<lparr>mf_schema := 2, mf_platform := ''windows'', mf_version := ''0.2.10'', mf_releaseId := ''r1'',
     mf_arch := ''x64'', mf_artifacts := [example_artifact]\<rparr>"

definition example_document :: string where
  "example_document = concat (map (\<lambda>l. l @ [newline_char]) example_lines)"

lemmas text_run = trim_def tab_char_def cr_char_def newline_char_def pieces.simps is_digit_def digit_value_def parse_u64_def

lemma example_size: "parse_u64 (trim ''1024'') = Some 1024"
  by (simp add: text_run)

lemma unsupported_count: "\<not> ucast (- 1 :: u32) < (2 :: u64)"
  by (simp add: unsigned_minus_1_eq_mask mask_eq_exp_minus_1)

lemma example_parsed: "parse_fields example_document = Some example_manifest"
proof -
  have "\<forall>l\<in>set example_lines. newline_char \<notin> set l" by (simp add: example_lines_def newline_char_def)
  then have lines: "pieces (\<lambda>c. c = newline_char) example_document = example_lines @ [[]]"
    unfolding example_document_def by (rule pieces_lines)
  show ?thesis unfolding parse_fields_def lines
    by (simp add: example_lines_def parse_line_def parse_key_def parse_artifact_def text_run unsupported_count
        example_manifest_def example_artifact_def no_fields_def)
qed

lemma example_url: "parse_https_url ''https://example.org/a'' = Some \<lparr>hu_host = ''example.org'', hu_port = 443, hu_path = ''/a''\<rparr>"
  by (simp add: parse_https_url_def split_port_def lower_char_def starts_with_def Let_def)

lemma example_artifact_ok: "artifacts_ok default_limits 0 [example_artifact]"
  by (simp add: example_artifact_def default_limits_def example_url is_lowercase_sha256_hex_def is_digit_def)

lemma example_name: "check_payload_names_utf8 [''GNLinkSetup.exe''] = None"
  by code_simp

lemma example_judged: "judge_fields example_manifest ''windows'' ''x64'' default_limits = ManifestOk"
  using example_artifact_ok example_name
  by (simp add: judge_fields_def example_manifest_def no_fields_def kSupportedSchema_def default_limits_def example_artifact_def)

lemma example_loaded: "load_manifest example_document ''00'' ''windows'' (Some (\<lambda>_ _. True)) ''x64'' default_limits =
    (ManifestOk, Some example_manifest)"
  by (simp add: load_manifest_def decode_hex_def hex_value_def is_digit_def example_parsed example_judged)


end
