(* ===== verification/UpdateFlow.thy ===== *)
theory UpdateFlow
  imports UpdateManifest "HOL-Library.Sublist"
begin

text \<open>
  \<open>update_state_machine.cpp\<close>: one attempt to update, as the order of its steps and what each failure
  does. What the steps ask of the machine (\<open>UpdateEffects\<close>) is an argument, and the answer to each call may
  depend on every call before it. An attempt keeps the states it entered and the calls it made with their
  answers; the reasons for the log are left out.
\<close>

section \<open>States, results and calls\<close>

datatype update_state = Idle | CheckRequested | Evaluate | Download | Verify | Prepare | Quiesce | Swap | Register
  | Relaunch | Health | Done | Rollback

datatype update_result = NothingToDo | Updated | UpdatedButNotRelaunched | AbandonedBeforeSwap | AbandonedNotRelaunched
  | RolledBack | RestoredButUnhealthy | RolledBackNotRelaunched | RollbackFailed

datatype relaunch_verdict = AllBack | OptionalMissing | RequiredMissing

text \<open>The methods of \<open>UpdateEffects\<close>, each with what it was given and what it answered.\<close>

datatype effect_call = AcquireLock bool | ReleaseLock | FetchManifest "(string \<times> string) option" | InstalledVersion string
  | DownloadFiles manifest_fields bool | VerifyDownload manifest_fields bool | DiscardDownload | PrepareForSwap bool
  | QuiesceProduct bool | SwapFiles bool | RegisterInstall bool | RelaunchRequired relaunch_verdict
  | RelaunchOptional relaunch_verdict | HealthCheck bool | RollbackFiles bool | Commit

record update_effects =
  ue_AcquireLock :: "effect_call list \<Rightarrow> bool"
  ue_FetchManifest :: "effect_call list \<Rightarrow> (string \<times> string) option"
  ue_InstalledVersion :: "effect_call list \<Rightarrow> string"
  ue_Download :: "effect_call list \<Rightarrow> manifest_fields \<Rightarrow> bool"
  ue_VerifyDownload :: "effect_call list \<Rightarrow> manifest_fields \<Rightarrow> bool"
  ue_PrepareForSwap :: "effect_call list \<Rightarrow> bool"
  ue_Quiesce :: "effect_call list \<Rightarrow> bool"
  ue_Swap :: "effect_call list \<Rightarrow> bool"
  ue_RegisterInstall :: "effect_call list \<Rightarrow> bool"
  ue_RelaunchRequired :: "effect_call list \<Rightarrow> relaunch_verdict"
  ue_RelaunchOptional :: "effect_call list \<Rightarrow> relaunch_verdict"
  ue_HealthCheck :: "effect_call list \<Rightarrow> bool"
  ue_Rollback :: "effect_call list \<Rightarrow> bool"

record update_outcome =
  uo_result :: update_result
  uo_visited :: "update_state list"
  uo_calls :: "effect_call list"

definition fresh_outcome :: update_outcome where
  "fresh_outcome = \<lparr>uo_result = NothingToDo, uo_visited = [], uo_calls = []\<rparr>"

definition entered :: "update_outcome \<Rightarrow> update_state \<Rightarrow> bool" where
  "entered out s \<longleftrightarrow> s \<in> set (uo_visited out)"

definition last_entered :: "update_outcome \<Rightarrow> update_state" where
  "last_entered out = (if uo_visited out = [] then Idle else last (uo_visited out))"

section \<open>An attempt\<close>

definition enter :: "update_state \<Rightarrow> update_outcome \<Rightarrow> update_outcome" where
  "enter s out = out\<lparr>uo_visited := uo_visited out @ [s]\<rparr>"

text \<open>A call: the answer, and the outcome with the call added.\<close>

definition ask :: "('a \<Rightarrow> effect_call) \<Rightarrow> (effect_call list \<Rightarrow> 'a) \<Rightarrow> update_outcome \<Rightarrow> 'a \<times> update_outcome" where
  "ask call answer out = (let v = answer (uo_calls out) in (v, out\<lparr>uo_calls := uo_calls out @ [call v]\<rparr>))"

definition tell :: "effect_call \<Rightarrow> update_outcome \<Rightarrow> update_outcome" where
  "tell call out = out\<lparr>uo_calls := uo_calls out @ [call]\<rparr>"

definition ended :: "update_result \<Rightarrow> update_outcome \<Rightarrow> update_outcome" where
  "ended r out = out\<lparr>uo_result := r\<rparr>"

text \<open>The lambda \<open>abandon\<close>: nothing was changed, and what left is started again.\<close>

definition abandon :: "update_effects \<Rightarrow> update_outcome \<Rightarrow> update_outcome" where
  "abandon effects out =
    (let (required, out) = ask RelaunchRequired (ue_RelaunchRequired effects) out;
         (optional, out) = ask RelaunchOptional (ue_RelaunchOptional effects) out in
     ended (if required = AllBack \<and> optional = AllBack then AbandonedBeforeSwap else AbandonedNotRelaunched) out)"

text \<open>The lambda \<open>rollback\<close>.\<close>

definition roll_back :: "update_effects \<Rightarrow> update_outcome \<Rightarrow> update_outcome" where
  "roll_back effects out =
    (let (restored, out) = ask RollbackFiles (ue_Rollback effects) (enter Rollback out);
         out = (if restored then
             (let (required, out) = ask RelaunchRequired (ue_RelaunchRequired effects) (enter Relaunch out) in
              if required \<noteq> AllBack then ended RolledBackNotRelaunched out
              else let (healthy, out) = ask HealthCheck (ue_HealthCheck effects) (enter Health out);
                       (optional, out) = ask RelaunchOptional (ue_RelaunchOptional effects) out in
                ended (if healthy then RolledBack else RestoredButUnhealthy) out)
           else ended RollbackFailed out) in
     tell DiscardDownload out)"

text \<open>From the swap on: every failure rolls back, until the update is committed.\<close>

definition install_update :: "update_effects \<Rightarrow> update_outcome \<Rightarrow> update_outcome" where
  "install_update effects out =
    (let (swapped, out) = ask SwapFiles (ue_Swap effects) (enter Swap out) in
     if \<not> swapped then roll_back effects out else
     let (registered, out) = ask RegisterInstall (ue_RegisterInstall effects) (enter Register out) in
     if \<not> registered then roll_back effects out else
     let (required, out) = ask RelaunchRequired (ue_RelaunchRequired effects) (enter Relaunch out) in
     if required \<noteq> AllBack then roll_back effects out else
     let (healthy, out) = ask HealthCheck (ue_HealthCheck effects) (enter Health out) in
     if \<not> healthy then roll_back effects out else
     let out = tell DiscardDownload (tell Commit (enter Done out));
         (optional, out) = ask RelaunchOptional (ue_RelaunchOptional effects) out in
     ended (if optional \<noteq> AllBack then UpdatedButNotRelaunched else Updated) out)"

text \<open>From the download to the swap: every failure gives up with nothing changed.\<close>

definition stage_update :: "update_effects \<Rightarrow> manifest_fields \<Rightarrow> update_outcome \<Rightarrow> update_outcome" where
  "stage_update effects release out =
    (let (complete, out) = ask (DownloadFiles release) (\<lambda>h. ue_Download effects h release) (enter Download out) in
     if \<not> complete then abandon effects (tell DiscardDownload out) else
     let (verified, out) = ask (VerifyDownload release) (\<lambda>h. ue_VerifyDownload effects h release) (enter Verify out) in
     if \<not> verified then abandon effects (tell DiscardDownload out) else
     let (safe, out) = ask PrepareForSwap (ue_PrepareForSwap effects) (enter Prepare out) in
     if \<not> safe then abandon effects out else
     let (quiet, out) = ask QuiesceProduct (ue_Quiesce effects) (enter Quiesce out) in
     if \<not> quiet then abandon effects out
     else install_update effects out)"

text \<open>The verifier is one that may be missing, as in \<open>load_manifest\<close>; the architecture and the limits are the
  defaults of its declaration.\<close>

definition run_update :: "update_effects \<Rightarrow> (string \<Rightarrow> bytes \<Rightarrow> bool) option \<Rightarrow> string \<Rightarrow> update_outcome" where
  "run_update effects verifier platform =
    (let (held, out) = ask AcquireLock (ue_AcquireLock effects) (enter Idle fresh_outcome) in
     if \<not> held then ended NothingToDo out else
     tell ReleaseLock
      (let (fetched, out) = ask FetchManifest (ue_FetchManifest effects) (enter CheckRequested out) in
       case fetched of None \<Rightarrow> ended NothingToDo out
       | Some (document, signatureHex) \<Rightarrow>
         (let out = enter Evaluate out in
          case load_manifest document signatureHex platform verifier ''x64'' default_limits of
            (status, manifest) \<Rightarrow>
             (case manifest of None \<Rightarrow> ended NothingToDo out
              | Some release \<Rightarrow>
                (if status \<noteq> ManifestOk then ended NothingToDo out else
                 let (installed, out) = ask InstalledVersion (ue_InstalledVersion effects) out in
                 if \<not> is_newer_than release installed then ended NothingToDo out
                 else stage_update effects release out)))))"

section \<open>The ends an attempt can have\<close>

text \<open>The calls of each part of an attempt, with the result they end in.\<close>

inductive rollback_end :: "effect_call list \<Rightarrow> update_result \<Rightarrow> bool" where
  rollback_failed: "rollback_end [RollbackFiles False, DiscardDownload] RollbackFailed"
| rollback_unreached: "v \<noteq> AllBack \<Longrightarrow>
    rollback_end [RollbackFiles True, RelaunchRequired v, DiscardDownload] RolledBackNotRelaunched"
| rollback_done: "rollback_end [RollbackFiles True, RelaunchRequired AllBack, HealthCheck h, RelaunchOptional v, DiscardDownload]
    (if h then RolledBack else RestoredButUnhealthy)"

inductive install_end :: "effect_call list \<Rightarrow> update_result \<Rightarrow> bool" where
  install_swap: "rollback_end cs r \<Longrightarrow> install_end (SwapFiles False # cs) r"
| install_register: "rollback_end cs r \<Longrightarrow> install_end (SwapFiles True # RegisterInstall False # cs) r"
| install_relaunch: "v \<noteq> AllBack \<Longrightarrow> rollback_end cs r \<Longrightarrow>
    install_end (SwapFiles True # RegisterInstall True # RelaunchRequired v # cs) r"
| install_health: "rollback_end cs r \<Longrightarrow>
    install_end (SwapFiles True # RegisterInstall True # RelaunchRequired AllBack # HealthCheck False # cs) r"
| install_done: "install_end [SwapFiles True, RegisterInstall True, RelaunchRequired AllBack, HealthCheck True, Commit,
      DiscardDownload, RelaunchOptional v] (if v = AllBack then Updated else UpdatedButNotRelaunched)"

inductive abandon_end :: "effect_call list \<Rightarrow> update_result \<Rightarrow> bool" where
  abandoned: "abandon_end [RelaunchRequired v, RelaunchOptional w]
    (if v = AllBack \<and> w = AllBack then AbandonedBeforeSwap else AbandonedNotRelaunched)"

inductive stage_end :: "manifest_fields \<Rightarrow> effect_call list \<Rightarrow> update_result \<Rightarrow> bool" for m where
  stage_download: "abandon_end cs r \<Longrightarrow> stage_end m (DownloadFiles m False # DiscardDownload # cs) r"
| stage_verify: "abandon_end cs r \<Longrightarrow> stage_end m (DownloadFiles m True # VerifyDownload m False # DiscardDownload # cs) r"
| stage_prepare: "abandon_end cs r \<Longrightarrow>
    stage_end m (DownloadFiles m True # VerifyDownload m True # PrepareForSwap False # cs) r"
| stage_quiesce: "abandon_end cs r \<Longrightarrow>
    stage_end m (DownloadFiles m True # VerifyDownload m True # PrepareForSwap True # QuiesceProduct False # cs) r"
| stage_done: "install_end cs r \<Longrightarrow>
    stage_end m (DownloadFiles m True # VerifyDownload m True # PrepareForSwap True # QuiesceProduct True # cs) r"

lemmas attempt_defs = ask_def tell_def ended_def enter_def Let_def

definition ends_in :: "(effect_call list \<Rightarrow> update_result \<Rightarrow> bool) \<Rightarrow> update_outcome \<Rightarrow> update_outcome \<Rightarrow> bool" where
  "ends_in E out out' \<longleftrightarrow> (\<exists>cs. uo_calls out' = uo_calls out @ cs \<and> E cs (uo_result out'))"

lemma ends_in_step: "ends_in E' out1 out' \<Longrightarrow> uo_calls out1 = uo_calls out @ pre \<Longrightarrow>
    (\<And>cs r. E' cs r \<Longrightarrow> E (pre @ cs) r) \<Longrightarrow> ends_in E out out'"
  unfolding ends_in_def by auto

lemma abandon_ends: "ends_in abandon_end out (abandon e out)"
  by (simp add: abandon_def attempt_defs abandon_end.simps ends_in_def)

lemma rollback_ends: "ends_in rollback_end out (roll_back e out)"
  by (auto simp: roll_back_def attempt_defs rollback_end.simps ends_in_def)

text \<open>One call, taken apart: what it answered, and the outcome it leaves.\<close>

lemma ask_obtain:
  obtains v out' where "ask c f out = (v, out')" "uo_calls out' = uo_calls out @ [c v]"
  by (simp add: ask_def Let_def)

lemma call_marks [simp]: "uo_calls (enter s out) = uo_calls out" "uo_calls (tell c out) = uo_calls out @ [c]"
  "uo_calls (ended r out) = uo_calls out" "uo_result (ended r out) = r" "uo_result (tell c out) = uo_result out"
  "uo_result (enter s out) = uo_result out"
  by (simp_all add: enter_def tell_def ended_def)

lemma install_ends: "ends_in install_end out (install_update e out)"
proof -
  obtain swapped o1 where 1: "ask SwapFiles (ue_Swap e) (enter Swap out) = (swapped, o1)"
    "uo_calls o1 = uo_calls out @ [SwapFiles swapped]" by (metis ask_obtain call_marks(1))
  obtain registered o2 where 2: "ask RegisterInstall (ue_RegisterInstall e) (enter Register o1) = (registered, o2)"
    "uo_calls o2 = uo_calls o1 @ [RegisterInstall registered]" by (metis ask_obtain call_marks(1))
  obtain required o3 where 3: "ask RelaunchRequired (ue_RelaunchRequired e) (enter Relaunch o2) = (required, o3)"
    "uo_calls o3 = uo_calls o2 @ [RelaunchRequired required]" by (metis ask_obtain call_marks(1))
  obtain healthy o4 where 4: "ask HealthCheck (ue_HealthCheck e) (enter Health o3) = (healthy, o4)"
    "uo_calls o4 = uo_calls o3 @ [HealthCheck healthy]" by (metis ask_obtain call_marks(1))
  obtain optional o5 where 5: "ask RelaunchOptional (ue_RelaunchOptional e) (tell DiscardDownload (tell Commit (enter Done o4))) = (optional, o5)"
    "uo_calls o5 = uo_calls o4 @ [Commit, DiscardDownload, RelaunchOptional optional]"
    by (metis (no_types) ask_obtain append.assoc append_Cons append_Nil call_marks(1,2))
  have run: "install_update e out = (if \<not> swapped then roll_back e o1 else if \<not> registered then roll_back e o2
      else if required \<noteq> AllBack then roll_back e o3 else if \<not> healthy then roll_back e o4
      else ended (if optional \<noteq> AllBack then UpdatedButNotRelaunched else Updated) o5)"
    unfolding install_update_def by (simp add: 1(1) 2(1) 3(1) 4(1) 5(1) Let_def)
  note c = 1(2) 2(2) 3(2) 4(2) 5(2)
  consider "\<not> swapped" | "swapped" "\<not> registered" | "swapped" "registered" "required \<noteq> AllBack"
    | "swapped" "registered" "required = AllBack" "\<not> healthy" | "swapped" "registered" "required = AllBack" "healthy" by blast
  then show ?thesis
  proof cases
    case 5
    then show ?thesis unfolding run by (auto simp: ends_in_def c install_end.simps)
  qed (simp_all add: run, (rule ends_in_step [OF rollback_ends], simp add: c, simp add: install_end.intros)+)
qed

lemma stage_ends: "ends_in (stage_end m) out (stage_update e m out)"
proof -
  obtain complete o1 where 1: "ask (DownloadFiles m) (\<lambda>h. ue_Download e h m) (enter Download out) = (complete, o1)"
    "uo_calls o1 = uo_calls out @ [DownloadFiles m complete]" by (metis ask_obtain call_marks(1))
  obtain verified o2 where 2: "ask (VerifyDownload m) (\<lambda>h. ue_VerifyDownload e h m) (enter Verify o1) = (verified, o2)"
    "uo_calls o2 = uo_calls o1 @ [VerifyDownload m verified]" by (metis ask_obtain call_marks(1))
  obtain safe o3 where 3: "ask PrepareForSwap (ue_PrepareForSwap e) (enter Prepare o2) = (safe, o3)"
    "uo_calls o3 = uo_calls o2 @ [PrepareForSwap safe]" by (metis ask_obtain call_marks(1))
  obtain quiet o4 where 4: "ask QuiesceProduct (ue_Quiesce e) (enter Quiesce o3) = (quiet, o4)"
    "uo_calls o4 = uo_calls o3 @ [QuiesceProduct quiet]" by (metis ask_obtain call_marks(1))
  have run: "stage_update e m out = (if \<not> complete then abandon e (tell DiscardDownload o1)
      else if \<not> verified then abandon e (tell DiscardDownload o2) else if \<not> safe then abandon e o3
      else if \<not> quiet then abandon e o4 else install_update e o4)"
    unfolding stage_update_def by (simp add: 1(1) 2(1) 3(1) 4(1))
  note c = 1(2) 2(2) 3(2) 4(2)
  consider "\<not> complete" | "complete" "\<not> verified" | "complete" "verified" "\<not> safe"
    | "complete" "verified" "safe" "\<not> quiet" | "complete" "verified" "safe" "quiet" by blast
  then show ?thesis
  proof cases
    case 5
    then show ?thesis unfolding run by simp (rule ends_in_step [OF install_ends], simp add: c, simp add: stage_end.intros)
  qed (simp_all add: run, (rule ends_in_step [OF abandon_ends], simp add: c, simp add: stage_end.intros)+)
qed

inductive attempt_end :: "(string \<Rightarrow> bytes \<Rightarrow> bool) option \<Rightarrow> string \<Rightarrow> effect_call list \<Rightarrow> update_result \<Rightarrow> bool"
  for verifier platform where
  attempt_locked: "attempt_end verifier platform [AcquireLock False] NothingToDo"
| attempt_unfetched: "attempt_end verifier platform [AcquireLock True, FetchManifest f, ReleaseLock] NothingToDo"
| attempt_current: "attempt_end verifier platform [AcquireLock True, FetchManifest f, InstalledVersion v, ReleaseLock] NothingToDo"
| attempt_staged: "load_manifest d s platform verifier ''x64'' default_limits = (ManifestOk, Some m) \<Longrightarrow> is_newer_than m v \<Longrightarrow>
    stage_end m cs r \<Longrightarrow>
    attempt_end verifier platform (AcquireLock True # FetchManifest (Some (d, s)) # InstalledVersion v # cs @ [ReleaseLock]) r"

lemma load_manifest_released: "load_manifest d s platform verifier arch l = (st, Some m) \<Longrightarrow> st = ManifestOk"
  by (auto simp: load_manifest_def Let_def split: option.splits if_splits)

lemma run_ends: "attempt_end verifier platform (uo_calls (run_update e verifier platform)) (uo_result (run_update e verifier platform))"
proof -
  obtain held o1 where 1: "ask AcquireLock (ue_AcquireLock e) (enter Idle fresh_outcome) = (held, o1)" "uo_calls o1 = [AcquireLock held]"
    by (metis ask_obtain call_marks(1) append_Nil fresh_outcome_def update_outcome.select_convs(3))
  obtain fetched o2 where 2: "ask FetchManifest (ue_FetchManifest e) (enter CheckRequested o1) = (fetched, o2)"
    "uo_calls o2 = uo_calls o1 @ [FetchManifest fetched]" by (metis ask_obtain call_marks(1))
  obtain installed o3 where i: "ask InstalledVersion (ue_InstalledVersion e) (enter Evaluate o2) = (installed, o3)"
    "uo_calls o3 = uo_calls o2 @ [InstalledVersion installed]" by (metis ask_obtain call_marks(1))
  consider "\<not> held" | "held" "fetched = None" | d s where "held" "fetched = Some (d, s)" by fastforce
  then show ?thesis
  proof cases
    case (3 d s)
    note d = 3
    obtain st manifest where load: "load_manifest d s platform verifier ''x64'' default_limits = (st, manifest)" by fastforce
    show ?thesis
    proof (cases manifest)
      case None
      then show ?thesis by (simp add: run_update_def 1 2 d load Let_def attempt_end.simps)
    next
      case (Some m)
      then have ok: "load_manifest d s platform verifier ''x64'' default_limits = (ManifestOk, Some m)"
        using load load_manifest_released by metis
      have run: "run_update e verifier platform =
          tell ReleaseLock (if \<not> is_newer_than m installed then ended NothingToDo o3 else stage_update e m o3)"
        unfolding run_update_def by (simp add: 1(1) 2(1) i(1) d ok Let_def)
      obtain cs where cs: "uo_calls (stage_update e m o3) = uo_calls o3 @ cs" "stage_end m cs (uo_result (stage_update e m o3))"
        using stage_ends [of m o3 e] unfolding ends_in_def by blast
      show ?thesis
      proof (cases "is_newer_than m installed")
        case True
        then show ?thesis using attempt_staged [OF ok True cs(2)] by (simp add: run cs(1) 1(2) 2(2) i(2) d)
      qed (simp add: run 1(2) 2(2) i(2) d attempt_end.simps)
    qed
  qed (simp_all add: run_update_def 1 2 attempt_end.simps)
qed


section \<open>What every attempt keeps\<close>

fun is_swap :: "effect_call \<Rightarrow> bool" where
  "is_swap (SwapFiles b) = True" | "is_swap c = False"

fun is_download :: "effect_call \<Rightarrow> bool" where
  "is_download (DownloadFiles m b) = True" | "is_download c = False"

fun is_rollback :: "effect_call \<Rightarrow> bool" where
  "is_rollback (RollbackFiles b) = True" | "is_rollback c = False"

fun is_optional :: "effect_call \<Rightarrow> bool" where
  "is_optional (RelaunchOptional v) = True" | "is_optional c = False"

definition before :: "(effect_call \<Rightarrow> bool) \<Rightarrow> effect_call list \<Rightarrow> effect_call list" where
  "before P = takeWhile (\<lambda>c. \<not> P c)"

definition after :: "(effect_call \<Rightarrow> bool) \<Rightarrow> effect_call list \<Rightarrow> effect_call list" where
  "after P = dropWhile (\<lambda>c. \<not> P c)"

inductive_cases rollback_endE: "rollback_end cs r"
inductive_cases install_endE: "install_end cs r"
inductive_cases abandon_endE: "abandon_end cs r"
inductive_cases stage_endE: "stage_end m cs r"
inductive_cases attempt_endE: "attempt_end verifier platform cs r"

lemmas end_elims = attempt_endE stage_endE install_endE abandon_endE rollback_endE
lemmas read_trace = before_def after_def

lemma attempt_end_lock: "attempt_end verifier platform cs r \<Longrightarrow>
    cs = [AcquireLock False] \<or> (\<exists>mid. cs = AcquireLock True # mid @ [ReleaseLock] \<and> ReleaseLock \<notin> set mid)"
  by (elim end_elims) simp_all

lemma attempt_end_swap: "attempt_end verifier platform cs r \<Longrightarrow> SwapFiles b \<in> set cs \<Longrightarrow>
    \<exists>d s m v rest. load_manifest d s platform verifier ''x64'' default_limits = (ManifestOk, Some m) \<and> is_newer_than m v \<and>
      cs = [AcquireLock True, FetchManifest (Some (d, s)), InstalledVersion v, DownloadFiles m True, VerifyDownload m True,
        PrepareForSwap True, QuiesceProduct True, SwapFiles b] @ rest \<and> filter is_swap rest = []"
  by (elim end_elims) auto

lemma attempt_end_commit: "attempt_end verifier platform cs r \<Longrightarrow> Commit \<in> set cs \<Longrightarrow>
    suffix [SwapFiles True, RegisterInstall True, RelaunchRequired AllBack, HealthCheck True] (before (\<lambda>c. c = Commit) cs)"
  by (elim end_elims) (auto simp: read_trace suffix_def)

lemma attempt_end_choice: "attempt_end verifier platform cs r \<Longrightarrow> SwapFiles b \<in> set cs \<Longrightarrow>
    length (filter is_rollback cs) = (if Commit \<in> set cs then 0 else 1) \<and>
    filter is_optional (before (\<lambda>c. c = Commit \<or> is_rollback c) cs) = []"
  by (elim end_elims) (auto simp: read_trace)

text \<open>
  C25. The calls of any attempt, whatever the machine answers. The lock is asked for first; refused, nothing
  else is called, and taken, it is released once, at the end. Files are swapped at most once, and only after
  a manifest that verified under the key and is newer than the installed version was downloaded, its files
  checked, the product told and stopped. Once a swap was tried, either the update is committed or the files
  are rolled back, once and never both; it is committed only right after the swap, the registration, the
  return of all the machine needs and a good health check; and what cannot be stopped again (the client) is
  not started while the files may still have to go back.
\<close>

theorem update_order_safe:
  fixes effects verifier platform
  defines "t \<equiv> uo_calls (run_update effects verifier platform)"
  shows "(t = [AcquireLock False] \<or> (\<exists>mid. t = AcquireLock True # mid @ [ReleaseLock] \<and> ReleaseLock \<notin> set mid)) \<and>
    (\<forall>b. SwapFiles b \<in> set t \<longrightarrow>
      (\<exists>d s m v rest. load_manifest d s platform verifier ''x64'' default_limits = (ManifestOk, Some m) \<and>
        0 < compare_versions (mf_version m) v \<and>
        t = [AcquireLock True, FetchManifest (Some (d, s)), InstalledVersion v, DownloadFiles m True, VerifyDownload m True,
          PrepareForSwap True, QuiesceProduct True, SwapFiles b] @ rest \<and> filter is_swap rest = []) \<and>
      length (filter is_rollback t) = (if Commit \<in> set t then 0 else 1) \<and>
      filter is_optional (before (\<lambda>c. c = Commit \<or> is_rollback c) t) = []) \<and>
    (Commit \<in> set t \<longrightarrow>
      suffix [SwapFiles True, RegisterInstall True, RelaunchRequired AllBack, HealthCheck True] (before (\<lambda>c. c = Commit) t))"
proof -
  have e: "attempt_end verifier platform t (uo_result (run_update effects verifier platform))"
    unfolding t_def by (rule run_ends)
  show ?thesis
    using attempt_end_lock [OF e] attempt_end_swap [OF e] attempt_end_choice [OF e] attempt_end_commit [OF e]
    unfolding is_newer_than_def by blast
qed


definition smooth_effects :: update_effects where
  "smooth_effects = \<lparr>ue_AcquireLock = (\<lambda>_. True), ue_FetchManifest = (\<lambda>_. Some (example_document, ''00'')),
     ue_InstalledVersion = (\<lambda>_. ''0.2.9''), ue_Download = (\<lambda>_ _. True), ue_VerifyDownload = (\<lambda>_ _. True),
     ue_PrepareForSwap = (\<lambda>_. True), ue_Quiesce = (\<lambda>_. True), ue_Swap = (\<lambda>_. True), ue_RegisterInstall = (\<lambda>_. True),
     ue_RelaunchRequired = (\<lambda>_. AllBack), ue_RelaunchOptional = (\<lambda>_. OptionalMissing), ue_HealthCheck = (\<lambda>_. True),
     ue_Rollback = (\<lambda>_. True)\<rparr>"

lemma example_newer: "is_newer_than example_manifest ''0.2.9''"
  by (simp add: is_newer_than_def example_manifest_def) code_simp

lemma smooth_calls: "uo_calls (run_update smooth_effects (Some (\<lambda>_ _. True)) ''windows'') =
    [AcquireLock True, FetchManifest (Some (example_document, ''00'')), InstalledVersion ''0.2.9'',
     DownloadFiles example_manifest True, VerifyDownload example_manifest True, PrepareForSwap True, QuiesceProduct True,
     SwapFiles True, RegisterInstall True, RelaunchRequired AllBack, HealthCheck True, Commit, DiscardDownload,
     RelaunchOptional OptionalMissing, ReleaseLock]"
  by (simp add: run_update_def stage_update_def install_update_def ask_def Let_def smooth_effects_def fresh_outcome_def example_loaded
      example_newer)

theorem update_order_safe_witness:
  "length (filter is_rollback (uo_calls (run_update smooth_effects (Some (\<lambda>_ _. True)) ''windows''))) = 0 \<and>
   suffix [SwapFiles True, RegisterInstall True, RelaunchRequired AllBack, HealthCheck True]
     (before (\<lambda>c. c = Commit) (uo_calls (run_update smooth_effects (Some (\<lambda>_ _. True)) ''windows'')))"
proof -
  have "Commit \<in> set (uo_calls (run_update smooth_effects (Some (\<lambda>_ _. True)) ''windows''))"
    "SwapFiles True \<in> set (uo_calls (run_update smooth_effects (Some (\<lambda>_ _. True)) ''windows''))"
    by (simp_all add: smooth_calls)
  with update_order_safe [of smooth_effects "Some (\<lambda>_ _. True)" "''windows''"] show ?thesis by simp
qed

end
