(* ===== verification/BurstLedger.thy ===== *)
theory BurstLedger
  imports Prelude
begin

text \<open>
  \<open>BurstLedger\<close> of \<open>host_burst_ledger.hpp\<close>: how many bytes the host may put on the wire in any two
  seconds, and the bursts it may grant to a keyframe inside that. The mutex is left out: each operation is
  one critical section with the clock as an argument. All arithmetic is on 64-bit words.
\<close>

section \<open>State and operations\<close>

definition kBurstWindowUs :: u64 where "kBurstWindowUs = 2000000"
definition kBurstGrantMaxBytes :: u64 where "kBurstGrantMaxBytes = 256 * 1024"
definition kBurstMinIntervalUs :: u64 where "kBurstMinIntervalUs = 1000000"
definition kBurstPeakAbsCapBps :: u64 where "kBurstPeakAbsCapBps = 12000000"
definition kBurstWarmupUs :: u64 where "kBurstWarmupUs = 2000000"

record burst_au =
  ba_mediaEpoch :: u64
  ba_generation :: u64
  ba_inputEpoch :: u64
  ba_seq :: u32
  ba_valid :: bool

definition no_au :: burst_au where
  "no_au = \<lparr>ba_mediaEpoch = 0, ba_generation = 0, ba_inputEpoch = 0, ba_seq = 0, ba_valid = False\<rparr>"

definition same_au :: "burst_au \<Rightarrow> burst_au \<Rightarrow> bool" where
  "same_au a b \<longleftrightarrow> ba_valid a \<and> ba_valid b \<and> ba_mediaEpoch a = ba_mediaEpoch b \<and> ba_generation a = ba_generation b \<and>
     ba_inputEpoch a = ba_inputEpoch b \<and> ba_seq a = ba_seq b"

text \<open>The bytes sent with their times, and the rates with the times they began, oldest first.\<close>

record burst_ledger =
  bl_sent :: "(u64 \<times> u64) list"
  bl_rateHist :: "(u64 \<times> u64) list"
  bl_windowBytes :: u64
  bl_pendingBytes :: u64
  bl_r :: u64
  bl_capBps :: u64
  bl_startedUs :: u64
  bl_started :: bool
  bl_grantActive :: bool
  bl_grantRemaining :: u64
  bl_grantGranted :: u64
  bl_grantOwner :: burst_au
  bl_lastGrantOwner :: burst_au
  bl_lastGrantUs :: u64
  bl_everGranted :: bool
  bl_burstPacerUs :: u64
  bl_maxWindowBytes :: u64

definition initial_ledger :: burst_ledger where
  "initial_ledger = \<lparr>bl_sent = [], bl_rateHist = [], bl_windowBytes = 0, bl_pendingBytes = 0, bl_r = 0, bl_capBps = 0,
     bl_startedUs = 0, bl_started = False, bl_grantActive = False, bl_grantRemaining = 0, bl_grantGranted = 0,
     bl_grantOwner = no_au, bl_lastGrantOwner = no_au, bl_lastGrantUs = 0, bl_everGranted = False, bl_burstPacerUs = 0,
     bl_maxWindowBytes = 0\<rparr>"

fun prune_sent :: "u64 \<Rightarrow> (u64 \<times> u64) list \<Rightarrow> u64 \<Rightarrow> (u64 \<times> u64) list \<times> u64" where
  "prune_sent now [] w = ([], w)"
| "prune_sent now ((us, b) # es) w = (if us + kBurstWindowUs \<le> now then prune_sent now es (w - b) else ((us, b) # es, w))"

definition window_start :: "u64 \<Rightarrow> u64" where
  "window_start now = (if kBurstWindowUs \<le> now then now - kBurstWindowUs else 0)"

fun prune_rates :: "u64 \<Rightarrow> (u64 \<times> u64) list \<Rightarrow> (u64 \<times> u64) list" where
  "prune_rates start (a # b # rs) = (if fst b \<le> start then prune_rates start (b # rs) else a # b # rs)"
| "prune_rates start rs = rs"

definition prune :: "u64 \<Rightarrow> burst_ledger \<Rightarrow> burst_ledger" where
  "prune now l = (case prune_sent now (bl_sent l) (bl_windowBytes l) of
     (sent, w) \<Rightarrow> l\<lparr>bl_sent := sent, bl_windowBytes := w, bl_rateHist := prune_rates (window_start now) (bl_rateHist l)\<rparr>)"

text \<open>The rates of the last two seconds, each for as long as it held.\<close>

fun budget_segments :: "u64 \<Rightarrow> u64 \<Rightarrow> (u64 \<times> u64) list \<Rightarrow> u64" where
  "budget_segments start now [] = 0"
| "budget_segments start now ((us, r) # rs) =
    (let segEnd = (case rs of [] \<Rightarrow> now | (us', _) # _ \<Rightarrow> us'); a = max us start; b = min segEnd now in
     (if a < b then r * (b - a) div 1000000 else 0) + budget_segments start now rs)"

definition window_budget :: "u64 \<Rightarrow> burst_ledger \<Rightarrow> u64" where
  "window_budget now l = budget_segments (window_start now) now (bl_rateHist l)"

definition admission_budget :: "u64 \<Rightarrow> burst_ledger \<Rightarrow> u64" where
  "admission_budget now l = min (window_budget now l) (2 * bl_r l)"

text \<open>What is left of the budget beside the bytes sent and reserved.\<close>

definition admission_headroom :: "u64 \<Rightarrow> burst_ledger \<Rightarrow> u64" where
  "admission_headroom now l =
    (if bl_windowBytes l + bl_pendingBytes l < admission_budget now l
     then admission_budget now l - bl_windowBytes l - bl_pendingBytes l else 0)"

text \<open>A grant after the rate went down: no more than the new rate allows it.\<close>

definition clamp_grant :: "u64 \<Rightarrow> burst_ledger \<Rightarrow> burst_ledger" where
  "clamp_grant now l =
    (let headroom = admission_headroom now l; newPerKey = min kBurstGrantMaxBytes (bl_r l);
         spent = (if bl_grantRemaining l < bl_grantGranted l then bl_grantGranted l - bl_grantRemaining l else 0);
         perKeyRem = (if spent < newPerKey then newPerKey - spent else 0);
         remaining = min (bl_grantRemaining l) (min perKeyRem headroom) in
     l\<lparr>bl_grantRemaining := remaining, bl_grantGranted := spent + remaining, bl_grantActive := bl_grantActive l \<and> remaining \<noteq> 0\<rparr>)"

definition ledger_set_rate :: "u64 \<Rightarrow> u64 \<Rightarrow> burst_ledger \<Rightarrow> burst_ledger" where
  "ledger_set_rate capBps now l =
    (let l = prune now l; newR = capBps div 8; prevR = bl_r l;
         l = l\<lparr>bl_r := newR, bl_capBps := capBps\<rparr>;
         l = (if \<not> bl_started l then l\<lparr>bl_startedUs := now, bl_started := True\<rparr> else l);
         l = (if bl_rateHist l = [] \<or> snd (last (bl_rateHist l)) \<noteq> newR
              then l\<lparr>bl_rateHist := bl_rateHist l @ [(now, newR)]\<rparr> else l) in
     if newR < prevR \<and> bl_grantActive l then clamp_grant now l else l)"

definition peak_bytes_per_s :: "burst_ledger \<Rightarrow> u64" where
  "peak_bytes_per_s l = (if bl_capBps l = 0 then 0
     else max (bl_capBps l) (min (4 * bl_capBps l) kBurstPeakAbsCapBps) div 8)"

definition ledger_reserve :: "u64 \<Rightarrow> u64 \<Rightarrow> burst_ledger \<Rightarrow> bool \<times> burst_ledger" where
  "ledger_reserve now bytes l =
    (let l = prune now l in
     if bl_r l = 0 then (True, l\<lparr>bl_pendingBytes := bl_pendingBytes l + bytes\<rparr>)
     else if admission_budget now l < bl_windowBytes l + bl_pendingBytes l + bytes then (False, l)
     else (True, l\<lparr>bl_pendingBytes := bl_pendingBytes l + bytes\<rparr>))"

definition take_pending :: "u64 \<Rightarrow> burst_ledger \<Rightarrow> burst_ledger" where
  "take_pending bytes l = l\<lparr>bl_pendingBytes := (if bytes \<le> bl_pendingBytes l then bl_pendingBytes l - bytes else 0)\<rparr>"

definition ledger_commit :: "u64 \<Rightarrow> u64 \<Rightarrow> burst_ledger \<Rightarrow> burst_ledger" where
  "ledger_commit now bytes l =
    (let l = take_pending bytes (prune now l); w = bl_windowBytes l + bytes in
     l\<lparr>bl_sent := bl_sent l @ [(now, bytes)], bl_windowBytes := w, bl_maxWindowBytes := max (bl_maxWindowBytes l) w\<rparr>)"

definition ledger_has_room :: "u64 \<Rightarrow> u64 \<Rightarrow> burst_ledger \<Rightarrow> bool \<times> burst_ledger" where
  "ledger_has_room now bytes l =
    (let l = prune now l in
     (bl_r l = 0 \<or> bl_windowBytes l + bl_pendingBytes l + bytes \<le> admission_budget now l, l))"

definition peak_ready_us :: "u64 \<Rightarrow> burst_ledger \<Rightarrow> u64" where
  "peak_ready_us now l = max now (bl_burstPacerUs l)"

text \<open>The instant at which enough of the bytes sent have left the window, if they ever do.\<close>

fun room_from :: "u64 \<Rightarrow> (u64 \<times> u64) list \<Rightarrow> u64 option" where
  "room_from need [] = None"
| "room_from need ((us, b) # es) =
    (if need = 0 \<or> need \<le> b then Some (us + kBurstWindowUs) else room_from (need - b) es)"

definition room_at_us :: "u64 \<Rightarrow> u64 \<Rightarrow> burst_ledger \<Rightarrow> u64 \<times> burst_ledger" where
  "room_at_us now bytes l =
    (let l = prune now l; budget = admission_budget now l; asked = bl_windowBytes l + bl_pendingBytes l + bytes in
     (if bl_r l = 0 \<or> asked \<le> budget then now
      else case room_from (asked - budget) (bl_sent l) of Some us \<Rightarrow> us | None \<Rightarrow> now + kBurstWindowUs, l))"

section \<open>Grants\<close>

definition grant_for_idr :: "u64 \<Rightarrow> burst_au \<Rightarrow> burst_ledger \<Rightarrow> u64 \<times> burst_ledger" where
  "grant_for_idr now owner l =
    (if bl_r l = 0 \<or> \<not> ba_valid owner then (0, l)
     else if bl_grantActive l then (0, l)
     else if \<not> bl_started l \<or> now < bl_startedUs l + kBurstWarmupUs then (0, l)
     else if bl_everGranted l \<and> now < bl_lastGrantUs l + kBurstMinIntervalUs then (0, l)
     else if same_au (bl_lastGrantOwner l) owner then (0, l)
     else let l = prune now l; grant = min (min kBurstGrantMaxBytes (bl_r l)) (admission_headroom now l) in
       if grant = 0 then (0, l)
       else (grant, l\<lparr>bl_grantActive := True, bl_grantRemaining := grant, bl_grantGranted := grant, bl_grantOwner := owner,
         bl_lastGrantUs := now, bl_everGranted := True, bl_burstPacerUs := 0\<rparr>))"

definition grant_coverage :: "burst_au \<Rightarrow> u64 \<Rightarrow> burst_ledger \<Rightarrow> u64" where
  "grant_coverage owner bytes l =
    (if \<not> bl_grantActive l \<or> \<not> same_au (bl_grantOwner l) owner then 0 else min bytes (bl_grantRemaining l))"

definition debit_grant :: "burst_au \<Rightarrow> u64 \<Rightarrow> burst_ledger \<Rightarrow> burst_ledger" where
  "debit_grant owner bytes l =
    (if \<not> bl_grantActive l \<or> \<not> same_au (bl_grantOwner l) owner then l
     else let remaining = (if bytes < bl_grantRemaining l then bl_grantRemaining l - bytes else 0) in
       l\<lparr>bl_grantRemaining := remaining, bl_grantActive := remaining \<noteq> 0\<rparr>)"

definition end_grant :: "burst_au \<Rightarrow> burst_ledger \<Rightarrow> burst_ledger" where
  "end_grant owner l =
    (if bl_grantActive l \<and> \<not> same_au (bl_grantOwner l) owner then l
     else l\<lparr>bl_lastGrantOwner := (if ba_valid owner then owner else bl_lastGrantOwner l), bl_grantActive := False,
       bl_grantRemaining := 0\<rparr>)"

definition burst_send_deadline :: "u64 \<Rightarrow> u64 \<Rightarrow> burst_ledger \<Rightarrow> u64 \<times> burst_ledger" where
  "burst_send_deadline now bytes l =
    (let deadline = max now (bl_burstPacerUs l); peak = peak_bytes_per_s l in
     (deadline, l\<lparr>bl_burstPacerUs := (if 0 < peak then deadline + bytes * 1000000 div peak else deadline)\<rparr>))"

definition ledger_window_bytes :: "u64 \<Rightarrow> burst_ledger \<Rightarrow> u64 \<times> burst_ledger" where
  "ledger_window_bytes now l = (let l = prune now l in (bl_windowBytes l, l))"

section \<open>Runs\<close>

text \<open>The operations, as the threads of the host call them, with their clocks.\<close>

datatype ledger_op = BoSetRate u64 u64 | BoReserve u64 u64 | BoCommit u64 u64 | BoCancel u64 | BoHasRoom u64 u64
  | BoRoomAt u64 u64 | BoGrant u64 burst_au | BoDebit burst_au u64 | BoEnd burst_au | BoDeadline u64 u64 | BoWindow u64

fun ledger_step :: "ledger_op \<Rightarrow> burst_ledger \<Rightarrow> burst_ledger" where
  "ledger_step (BoSetRate now capBps) l = ledger_set_rate capBps now l"
| "ledger_step (BoReserve now bytes) l = snd (ledger_reserve now bytes l)"
| "ledger_step (BoCommit now bytes) l = ledger_commit now bytes l"
| "ledger_step (BoCancel bytes) l = take_pending bytes l"
| "ledger_step (BoHasRoom now bytes) l = snd (ledger_has_room now bytes l)"
| "ledger_step (BoRoomAt now bytes) l = snd (room_at_us now bytes l)"
| "ledger_step (BoGrant now owner) l = snd (grant_for_idr now owner l)"
| "ledger_step (BoDebit owner bytes) l = debit_grant owner bytes l"
| "ledger_step (BoEnd owner) l = end_grant owner l"
| "ledger_step (BoDeadline now bytes) l = snd (burst_send_deadline now bytes l)"
| "ledger_step (BoWindow now) l = snd (ledger_window_bytes now l)"

fun op_time :: "ledger_op \<Rightarrow> nat option" where
  "op_time (BoSetRate now capBps) = Some (unat now)"
| "op_time (BoReserve now bytes) = Some (unat now)"
| "op_time (BoCommit now bytes) = Some (unat now)"
| "op_time (BoHasRoom now bytes) = Some (unat now)"
| "op_time (BoRoomAt now bytes) = Some (unat now)"
| "op_time (BoGrant now owner) = Some (unat now)"
| "op_time (BoDeadline now bytes) = Some (unat now)"
| "op_time (BoWindow now) = Some (unat now)"
| "op_time op = None"

text \<open>
  What the owners of the ledger keep to: clocks do not run backwards, the cap is on (a cap below eight bits
  a second turns it off) and its rate stays within \<open>R\<close> bytes a second, nothing is reserved before the first
  rate, and a datagram is committed only out of what was reserved.
\<close>

definition op_ok :: "nat \<Rightarrow> nat \<Rightarrow> ledger_op \<Rightarrow> burst_ledger \<Rightarrow> bool" where
  "op_ok R t op l \<longleftrightarrow> (case op_time op of None \<Rightarrow> True | Some u \<Rightarrow> t \<le> u \<and> u < 2 ^ 63) \<and>
    (case op of BoSetRate now capBps \<Rightarrow> 8 \<le> capBps \<and> unat (capBps div 8) \<le> R
     | BoReserve now bytes \<Rightarrow> bl_r l \<noteq> 0 \<and> bytes \<le> 65535
     | BoCommit now bytes \<Rightarrow> bytes \<le> bl_pendingBytes l
     | _ \<Rightarrow> True)"

definition op_clock :: "nat \<Rightarrow> ledger_op \<Rightarrow> nat" where
  "op_clock t op = (case op_time op of None \<Rightarrow> t | Some u \<Rightarrow> u)"

fun ledger_run_ok :: "nat \<Rightarrow> nat \<Rightarrow> ledger_op list \<Rightarrow> burst_ledger \<Rightarrow> bool" where
  "ledger_run_ok R t [] l \<longleftrightarrow> True"
| "ledger_run_ok R t (op # ops) l \<longleftrightarrow> op_ok R t op l \<and> ledger_run_ok R (op_clock t op) ops (ledger_step op l)"

definition ledger_run :: "ledger_op list \<Rightarrow> burst_ledger \<Rightarrow> burst_ledger" where
  "ledger_run ops l = fold ledger_step ops l"

definition run_clock :: "ledger_op list \<Rightarrow> nat \<Rightarrow> nat" where
  "run_clock ops t = fold (\<lambda>op t. op_clock t op) ops t"

lemma ledger_run_ok_snoc: "ledger_run_ok R t (ops @ [op]) l \<longleftrightarrow>
    ledger_run_ok R t ops l \<and> op_ok R (run_clock ops t) op (ledger_run ops l)"
  by (induction ops arbitrary: t l) (simp_all add: run_clock_def ledger_run_def)

lemma ledger_run_snoc: "ledger_run (ops @ [op]) l = ledger_step op (ledger_run ops l)"
  "run_clock (ops @ [op]) t = op_clock (run_clock ops t) op"
  by (simp_all add: ledger_run_def run_clock_def)

text \<open>What was put on the wire, with its times.\<close>

fun commit_of :: "ledger_op \<Rightarrow> (nat \<times> nat) list" where
  "commit_of (BoCommit now bytes) = [(unat now, unat bytes)]"
| "commit_of op = []"

definition commits :: "ledger_op list \<Rightarrow> (nat \<times> nat) list" where
  "commits ops = concat (map commit_of ops)"

definition sent_within :: "nat \<Rightarrow> (nat \<times> nat) list \<Rightarrow> nat" where
  "sent_within T h = (\<Sum>(u, b)\<leftarrow>h. if u \<le> T \<and> T < u + 2000000 then b else 0)"

section \<open>The window\<close>

definition nats :: "(u64 \<times> u64) list \<Rightarrow> (nat \<times> nat) list" where
  "nats = map (\<lambda>(u, b). (unat u, unat b))"

definition total :: "(u64 \<times> u64) list \<Rightarrow> nat" where
  "total es = (\<Sum>(u, b)\<leftarrow>es. unat b)"

lemma total_simps [simp]: "total [] = 0" "total ((u, b) # es) = unat b + total es" "total (es @ fs) = total es + total fs"
  by (simp_all add: total_def)

lemma prune_sent_drop:
  assumes "\<forall>(u, b)\<in>set es. unat u < 2 ^ 63" "unat w = total es"
  shows "\<exists>k. fst (prune_sent now es w) = drop k es \<and> unat (snd (prune_sent now es w)) = total (drop k es) \<and>
    (\<forall>(u, b)\<in>set (take k es). unat u + 2000000 \<le> unat now)"
  using assms
proof (induction now es w rule: prune_sent.induct)
  case (2 now us b es w)
  have plus: "unat (us + kBurstWindowUs) = unat us + 2000000"
    using "2.prems"(1) by (simp add: kBurstWindowUs_def unat_word_ariths)
  show ?case
  proof (cases "us + kBurstWindowUs \<le> now")
    case True
    have le: "b \<le> w" using "2.prems"(2) by (simp add: word_le_nat_alt)
    then have "unat (w - b) = total es" using "2.prems"(2) by (simp add: unat_sub word_le_nat_alt)
    then obtain k where "fst (prune_sent now es (w - b)) = drop k es" "unat (snd (prune_sent now es (w - b))) = total (drop k es)"
      "\<forall>(u, b)\<in>set (take k es). unat u + 2000000 \<le> unat now"
      using "2.IH" [OF True] "2.prems"(1) by auto
    then show ?thesis using True plus by (intro exI [of _ "Suc k"]) (auto simp: word_le_nat_alt)
  next
    case False
    then show ?thesis using "2.prems"(2) by (intro exI [of _ 0]) simp
  qed
qed simp

text \<open>
  The invariant of a run within \<open>R\<close>: the bytes kept are the newest of those sent, the older ones have left
  the window, and what is sent and reserved stays within two seconds of the greatest rate.
\<close>

definition ledger_inv :: "nat \<Rightarrow> nat \<Rightarrow> (nat \<times> nat) list \<Rightarrow> burst_ledger \<Rightarrow> bool" where
  "ledger_inv R t h l \<longleftrightarrow> t < 2 ^ 63 \<and> (\<forall>(u, b)\<in>set h. u \<le> t) \<and>
    (\<exists>k. nats (bl_sent l) = drop k h \<and> (\<forall>(u, b)\<in>set (take k h). u + 2000000 \<le> t)) \<and>
    unat (bl_windowBytes l) = total (bl_sent l) \<and>
    unat (bl_windowBytes l) + unat (bl_pendingBytes l) \<le> 2 * R \<and> unat (bl_maxWindowBytes l) \<le> 2 * R \<and> unat (bl_r l) \<le> R"

lemma nats_drop: "nats (drop k es) = drop k (nats es)" "nats (take k es) = take k (nats es)"
  by (simp_all add: nats_def drop_map take_map)

lemma set_nats: "(\<forall>(u, b)\<in>set (nats es). P u) \<longleftrightarrow> (\<forall>(u, b)\<in>set es. P (unat u))"
  by (auto simp: nats_def)

lemma ledger_inv_prune:
  assumes inv: "ledger_inv R t h l" and t: "t \<le> unat now" "unat now < 2 ^ 63"
  shows "ledger_inv R (unat now) h (prune now l)"
proof -
  obtain k where k: "nats (bl_sent l) = drop k h" "\<forall>(u, b)\<in>set (take k h). u + 2000000 \<le> t"
    using inv unfolding ledger_inv_def by blast
  have times: "\<forall>(u, b)\<in>set (bl_sent l). unat u < 2 ^ 63"
  proof -
    have "\<forall>(u, b)\<in>set (nats (bl_sent l)). u < 2 ^ 63"
      using inv unfolding k(1) ledger_inv_def by (fastforce dest: in_set_dropD)
    then show ?thesis unfolding set_nats [of "bl_sent l" "\<lambda>u. u < 2 ^ 63"] .
  qed
  have w: "unat (bl_windowBytes l) = total (bl_sent l)" using inv by (simp add: ledger_inv_def)
  obtain j where j: "fst (prune_sent now (bl_sent l) (bl_windowBytes l)) = drop j (bl_sent l)"
    "unat (snd (prune_sent now (bl_sent l) (bl_windowBytes l))) = total (drop j (bl_sent l))"
    "\<forall>(u, b)\<in>set (take j (bl_sent l)). unat u + 2000000 \<le> unat now"
    using prune_sent_drop [OF times w] by blast
  have pruned: "bl_sent (prune now l) = drop j (bl_sent l)" "unat (bl_windowBytes (prune now l)) = total (drop j (bl_sent l))"
    "bl_pendingBytes (prune now l) = bl_pendingBytes l" "bl_maxWindowBytes (prune now l) = bl_maxWindowBytes l" "bl_r (prune now l) = bl_r l"
    using j(1,2) by (simp_all add: prune_def case_prod_beta)
  have less: "total (drop j (bl_sent l)) \<le> total (bl_sent l)"
    by (metis total_simps(3) append_take_drop_id le_add2)
  have front: "\<forall>(u, b)\<in>set (take j (nats (bl_sent l))). u + 2000000 \<le> unat now"
    using j(3) unfolding nats_drop(2) [symmetric] set_nats [of "take j (bl_sent l)" "\<lambda>u. u + 2000000 \<le> unat now"] .
  have "take (k + j) h = take k h @ take j (drop k h)" by (simp add: take_add)
  then have "\<forall>(u, b)\<in>set (take (k + j) h). u + 2000000 \<le> unat now"
    using k(2) front t(1) unfolding k(1) by fastforce
  moreover have "nats (bl_sent (prune now l)) = drop (k + j) h"
    by (simp add: pruned nats_drop k(1) add.commute)
  moreover have "\<forall>(u, b)\<in>set h. u \<le> unat now" using inv t(1) unfolding ledger_inv_def by fastforce
  ultimately show ?thesis using inv t(2) pruned less w unfolding ledger_inv_def by auto
qed

lemma ledger_inv_cong:
  assumes "ledger_inv R t h l" and "bl_sent l' = bl_sent l" "bl_windowBytes l' = bl_windowBytes l"
    and "bl_pendingBytes l' \<le> bl_pendingBytes l" "bl_maxWindowBytes l' = bl_maxWindowBytes l" "unat (bl_r l') \<le> R"
  shows "ledger_inv R t h l'"
  using assms unfolding ledger_inv_def word_le_nat_alt by auto

lemma ledger_inv_reserve:
  assumes "ledger_inv R t h l" and "R \<le> 2 ^ 60" "bytes \<le> 65535"
    and room: "bl_windowBytes l + bl_pendingBytes l + bytes \<le> admission_budget now l"
  shows "ledger_inv R t h (l\<lparr>bl_pendingBytes := bl_pendingBytes l + bytes\<rparr>)"
proof -
  have le: "unat (bl_windowBytes l) + unat (bl_pendingBytes l) \<le> 2 * R" "unat (bl_r l) \<le> R" "unat bytes \<le> 65535"
    using assms by (auto simp: ledger_inv_def word_le_nat_alt)
  have "unat (bl_windowBytes l + bl_pendingBytes l + bytes) = unat (bl_windowBytes l) + unat (bl_pendingBytes l) + unat bytes"
    using le assms(2) by (simp add: unat_word_ariths)
  moreover have "unat (bl_pendingBytes l + bytes) = unat (bl_pendingBytes l) + unat bytes"
    using le assms(2) by (simp add: unat_word_ariths)
  moreover have "admission_budget now l \<le> 2 * bl_r l" by (simp add: admission_budget_def)
  moreover have "unat (2 * bl_r l) = 2 * unat (bl_r l)" using le assms(2) by (simp add: unat_word_ariths)
  ultimately have "unat (bl_windowBytes l) + (unat (bl_pendingBytes l + bytes)) \<le> 2 * R"
    using room le unfolding word_le_nat_alt by simp
  then show ?thesis using assms(1) by (auto simp: ledger_inv_def)
qed

lemma ledger_inv_commit:
  assumes inv: "ledger_inv R (unat now) h l" and bytes: "bytes \<le> bl_pendingBytes l" and R: "R \<le> 2 ^ 60"
  shows "ledger_inv R (unat now) (h @ [(unat now, unat bytes)])
    (l\<lparr>bl_pendingBytes := bl_pendingBytes l - bytes, bl_sent := bl_sent l @ [(now, bytes)], bl_windowBytes := bl_windowBytes l + bytes,
      bl_maxWindowBytes := max (bl_maxWindowBytes l) (bl_windowBytes l + bytes)\<rparr>)"
proof -
  obtain k where k: "nats (bl_sent l) = drop k h" "\<forall>(u, b)\<in>set (take k h). u + 2000000 \<le> unat now"
    using inv unfolding ledger_inv_def by blast
  have le: "unat (bl_windowBytes l) + unat (bl_pendingBytes l) \<le> 2 * R" "unat bytes \<le> unat (bl_pendingBytes l)"
    using inv bytes by (auto simp: ledger_inv_def word_le_nat_alt)
  have w: "unat (bl_windowBytes l + bytes) = unat (bl_windowBytes l) + unat bytes" using le R by (simp add: unat_word_ariths)
  have p: "unat (bl_pendingBytes l - bytes) = unat (bl_pendingBytes l) - unat bytes" using bytes by (simp add: unat_sub word_le_nat_alt)
  define k' where "k' = min k (length h)"
  have "nats (bl_sent l @ [(now, bytes)]) = drop k' (h @ [(unat now, unat bytes)])"
    using k(1) by (auto simp: nats_def k'_def min_def)
  moreover have "\<forall>(u, b)\<in>set (take k' (h @ [(unat now, unat bytes)])). u + 2000000 \<le> unat now"
    using k(2) by (simp add: k'_def min_def)
  moreover have "unat (max (bl_maxWindowBytes l) (bl_windowBytes l + bytes)) \<le> 2 * R"
    using inv le w by (auto simp: max_def ledger_inv_def)
  moreover have "\<forall>(u, b)\<in>set (h @ [(unat now, unat bytes)]). u \<le> unat now" using inv by (auto simp: ledger_inv_def)
  ultimately show ?thesis using inv w p le unfolding ledger_inv_def by (intro conjI exI [of _ k']) simp_all
qed

lemma prune_keeps [simp]: "bl_pendingBytes (prune now l) = bl_pendingBytes l" "bl_r (prune now l) = bl_r l"
  "bl_maxWindowBytes (prune now l) = bl_maxWindowBytes l"
  by (simp_all add: prune_def case_prod_beta)

lemma clamp_keeps [simp]: "bl_sent (clamp_grant now l) = bl_sent l" "bl_windowBytes (clamp_grant now l) = bl_windowBytes l"
  "bl_pendingBytes (clamp_grant now l) = bl_pendingBytes l" "bl_maxWindowBytes (clamp_grant now l) = bl_maxWindowBytes l"
  "bl_r (clamp_grant now l) = bl_r l" "bl_rateHist (clamp_grant now l) = bl_rateHist l"
  by (simp_all add: clamp_grant_def Let_def)

lemma set_rate_keeps: "bl_sent (ledger_set_rate c now l) = bl_sent (prune now l)"
  "bl_windowBytes (ledger_set_rate c now l) = bl_windowBytes (prune now l)"
  "bl_pendingBytes (ledger_set_rate c now l) = bl_pendingBytes l" "bl_maxWindowBytes (ledger_set_rate c now l) = bl_maxWindowBytes l"
  "bl_r (ledger_set_rate c now l) = c div 8"
  by (simp_all add: ledger_set_rate_def Let_def if_distrib [of bl_sent] if_distrib [of bl_windowBytes] if_distrib [of bl_pendingBytes]
      if_distrib [of bl_maxWindowBytes] if_distrib [of bl_r] split del: if_split cong: if_cong)

lemma ledger_step_inv:
  assumes inv: "ledger_inv R t h l" and ok: "op_ok R t op l" and R: "R \<le> 2 ^ 60"
  shows "ledger_inv R (op_clock t op) (h @ commit_of op) (ledger_step op l)"
proof (cases op)
  case (BoSetRate now capBps)
  then have "ledger_inv R (unat now) h (prune now l)" using inv ok by (auto intro: ledger_inv_prune simp: op_ok_def)
  then show ?thesis using ok unfolding BoSetRate
    by (simp add: op_clock_def op_ok_def) (erule ledger_inv_cong, simp_all add: set_rate_keeps)
next
  case (BoReserve now bytes)
  then have i: "ledger_inv R (unat now) h (prune now l)" using inv ok by (auto intro: ledger_inv_prune simp: op_ok_def)
  show ?thesis using i ok ledger_inv_reserve [OF i R] unfolding BoReserve
    by (auto simp: op_clock_def op_ok_def ledger_reserve_def Let_def not_less)
next
  case (BoCommit now bytes)
  then have i: "ledger_inv R (unat now) h (prune now l)" using inv ok by (auto intro: ledger_inv_prune simp: op_ok_def)
  show ?thesis using ok ledger_inv_commit [OF i _ R] unfolding BoCommit
    by (simp add: op_clock_def op_ok_def ledger_commit_def take_pending_def Let_def)
next
  case (BoCancel bytes)
  have "bl_pendingBytes (take_pending bytes l) \<le> bl_pendingBytes l" by (simp add: take_pending_def word_sub_le)
  then have "ledger_inv R t h (take_pending bytes l)"
    using inv by (intro ledger_inv_cong [OF inv]) (simp_all add: take_pending_def ledger_inv_def)
  then show ?thesis by (simp add: BoCancel op_clock_def)
next
  case (BoHasRoom now bytes)
  then show ?thesis using inv ok ledger_inv_prune [of R t h l now] by (auto simp: op_clock_def op_ok_def ledger_has_room_def Let_def)
next
  case (BoRoomAt now bytes)
  then show ?thesis using inv ok ledger_inv_prune [of R t h l now] by (auto simp: op_clock_def op_ok_def room_at_us_def Let_def)
next
  case (BoGrant now owner)
  then have i: "ledger_inv R (unat now) h (prune now l)" using inv ok by (auto intro: ledger_inv_prune simp: op_ok_def)
  have j: "ledger_inv R (unat now) h l" using inv ok unfolding BoGrant ledger_inv_def op_ok_def by fastforce
  show ?thesis using i j unfolding BoGrant
    by (auto simp: op_clock_def grant_for_idr_def Let_def elim: ledger_inv_cong simp: ledger_inv_def)
next
  case (BoDebit owner bytes)
  then show ?thesis using inv by (auto simp: op_clock_def debit_grant_def Let_def ledger_inv_def)
next
  case (BoEnd owner)
  then show ?thesis using inv by (auto simp: op_clock_def end_grant_def Let_def ledger_inv_def)
next
  case (BoDeadline now bytes)
  have j: "ledger_inv R (unat now) h l" using inv ok unfolding BoDeadline ledger_inv_def op_ok_def by fastforce
  then show ?thesis unfolding BoDeadline by (simp add: op_clock_def burst_send_deadline_def Let_def ledger_inv_def)
next
  case (BoWindow now)
  then show ?thesis using inv ok ledger_inv_prune [of R t h l now] by (auto simp: op_clock_def op_ok_def ledger_window_bytes_def Let_def)
qed

lemma ledger_inv_initial: "ledger_inv R 0 [] initial_ledger"
  by (simp add: ledger_inv_def initial_ledger_def nats_def)

lemma commits_snoc: "commits (ops @ [op]) = commits ops @ commit_of op"
  by (simp add: commits_def)

lemma ledger_run_inv:
  "ledger_run_ok R 0 ops initial_ledger \<Longrightarrow> R \<le> 2 ^ 60 \<Longrightarrow> ledger_inv R (run_clock ops 0) (commits ops) (ledger_run ops initial_ledger)"
proof (induction ops rule: rev_induct)
  case Nil
  then show ?case using ledger_inv_initial by (simp add: run_clock_def commits_def ledger_run_def)
next
  case (snoc op ops)
  then show ?case
    using ledger_step_inv by (simp add: ledger_run_ok_snoc ledger_run_snoc commits_snoc)
qed

lemma total_nats: "total es = (\<Sum>(u, b)\<leftarrow>nats es. b)"
  by (induction es) (auto simp: nats_def)

lemma sent_within_append: "sent_within T (h @ g) = sent_within T h + sent_within T g"
  by (simp add: sent_within_def)

lemma sent_within_le: "sent_within T h \<le> (\<Sum>(u, b)\<leftarrow>h. b)"
  by (induction h) (auto simp: sent_within_def)

lemma sent_within_gone: "\<forall>(u, b)\<in>set h. u + 2000000 \<le> T \<Longrightarrow> sent_within T h = 0"
  by (induction h) (auto simp: sent_within_def)

lemma sent_within_window:
  assumes "ledger_inv R t h l" "t \<le> T"
  shows "sent_within T h \<le> 2 * R"
proof -
  obtain k where k: "nats (bl_sent l) = drop k h" "\<forall>(u, b)\<in>set (take k h). u + 2000000 \<le> t"
    using assms(1) unfolding ledger_inv_def by blast
  have "sent_within T h = sent_within T (take k h) + sent_within T (drop k h)" by (metis append_take_drop_id sent_within_append)
  moreover have "sent_within T (take k h) = 0" using k(2) assms(2) by (intro sent_within_gone) fastforce
  ultimately have "sent_within T h \<le> total (bl_sent l)" unfolding total_nats k(1) using sent_within_le by simp
  then show ?thesis using assms(1) by (simp add: ledger_inv_def)
qed

lemma sent_within_early: "(T :: nat) < u \<Longrightarrow> sent_within T [(u, b)] = 0"
  by (simp add: sent_within_def)

text \<open>
  C30. However the host sends - reservations made, committed and cancelled, rates raised and lowered, bursts
  granted - the bytes that went out in any two seconds are at most two seconds of the greatest rate set. The
  owners keep to the contract: nothing is committed that was not reserved, and the cap stays on.
\<close>

theorem burst_window_bound:
  assumes "ledger_run_ok R 0 ops initial_ledger" and "R \<le> 2 ^ 60"
  shows "sent_within T (commits ops) \<le> 2 * R"
  using assms
proof (induction ops rule: rev_induct)
  case Nil
  then show ?case by (simp add: sent_within_def commits_def)
next
  case (snoc op ops)
  have inv: "ledger_inv R (run_clock (ops @ [op]) 0) (commits (ops @ [op])) (ledger_run (ops @ [op]) initial_ledger)"
    using snoc.prems by (intro ledger_run_inv)
  have ih: "sent_within T (commits ops) \<le> 2 * R" using snoc by (simp add: ledger_run_ok_snoc)
  show ?case
  proof (cases "\<exists>now bytes. op = BoCommit now bytes \<and> unat now \<le> T")
    case True
    then have "run_clock (ops @ [op]) 0 \<le> T" by (auto simp: run_clock_def op_clock_def)
    then show ?thesis using inv sent_within_window by blast
  next
    case False
    then have "sent_within T (commit_of op) = 0"
      by (cases op) (auto simp: sent_within_early, simp_all add: sent_within_def)
    then show ?thesis using ih by (simp add: commits_snoc sent_within_append)
  qed
qed

section \<open>Grants\<close>

fun grant_of :: "ledger_op \<Rightarrow> burst_ledger \<Rightarrow> (nat \<times> nat) list" where
  "grant_of (BoGrant now owner) l = (if fst (grant_for_idr now owner l) = 0 then [] else [(unat now, unat (fst (grant_for_idr now owner l)))])"
| "grant_of op l = []"

fun grants :: "ledger_op list \<Rightarrow> burst_ledger \<Rightarrow> (nat \<times> nat) list" where
  "grants [] l = []"
| "grants (op # ops) l = grant_of op l @ grants ops (ledger_step op l)"

text \<open>The bytes a sender puts out faster than the rate: what a grant covers when it is debited.\<close>

fun covered_by :: "ledger_op \<Rightarrow> burst_ledger \<Rightarrow> nat" where
  "covered_by (BoDebit owner bytes) l = unat (grant_coverage owner bytes l)"
| "covered_by op l = 0"

fun covered :: "ledger_op list \<Rightarrow> burst_ledger \<Rightarrow> nat" where
  "covered [] l = 0"
| "covered (op # ops) l = covered_by op l + covered ops (ledger_step op l)"

definition grant_left :: "burst_ledger \<Rightarrow> nat" where
  "grant_left l = (if bl_grantActive l then unat (bl_grantRemaining l) else 0)"

lemma prune_grants [simp]: "bl_grantActive (prune now l) = bl_grantActive l" "bl_grantRemaining (prune now l) = bl_grantRemaining l"
  "bl_everGranted (prune now l) = bl_everGranted l" "bl_lastGrantUs (prune now l) = bl_lastGrantUs l"
  "bl_started (prune now l) = bl_started l" "bl_startedUs (prune now l) = bl_startedUs l"
  by (simp_all add: prune_def case_prod_beta)

lemma grant_left_prune [simp]: "grant_left (prune now l) = grant_left l"
  by (simp add: grant_left_def)

lemma clamp_grants: "grant_left (clamp_grant now l) \<le> grant_left l" "bl_everGranted (clamp_grant now l) = bl_everGranted l"
  "bl_lastGrantUs (clamp_grant now l) = bl_lastGrantUs l" "bl_started (clamp_grant now l) = bl_started l"
  "bl_startedUs (clamp_grant now l) = bl_startedUs l"
  by (simp_all add: clamp_grant_def Let_def grant_left_def word_le_nat_alt [symmetric])

lemma set_rate_obtain:
  obtains l' where "ledger_set_rate c now l = (if c div 8 < bl_r l \<and> bl_grantActive l then clamp_grant now l' else l')"
    "grant_left l' = grant_left l" "bl_everGranted l' = bl_everGranted l" "bl_lastGrantUs l' = bl_lastGrantUs l"
    "bl_started l'" "bl_startedUs l' = (if bl_started l then bl_startedUs l else now)"
proof -
  define l0 where "l0 = prune now l\<lparr>bl_r := c div 8, bl_capBps := c\<rparr>"
  define l1 where "l1 = (if \<not> bl_started l0 then l0\<lparr>bl_startedUs := now, bl_started := True\<rparr> else l0)"
  define l2 where "l2 = (if bl_rateHist l1 = [] \<or> snd (last (bl_rateHist l1)) \<noteq> c div 8
      then l1\<lparr>bl_rateHist := bl_rateHist l1 @ [(now, c div 8)]\<rparr> else l1)"
  have run: "ledger_set_rate c now l = (if c div 8 < bl_r l \<and> bl_grantActive l2 then clamp_grant now l2 else l2)"
    by (simp only: ledger_set_rate_def Let_def l0_def l1_def l2_def prune_keeps)
  have keep: "grant_left l2 = grant_left l" "bl_everGranted l2 = bl_everGranted l" "bl_lastGrantUs l2 = bl_lastGrantUs l"
    "bl_started l2" "bl_startedUs l2 = (if bl_started l then bl_startedUs l else now)" "bl_grantActive l2 = bl_grantActive l"
    by (simp_all add: l2_def l1_def l0_def grant_left_def)
  show ?thesis using run keep(1-5) unfolding keep(6) by (rule that)
qed

lemma grant_some:
  assumes "fst (grant_for_idr now owner l) \<noteq> 0"
  shows "\<not> bl_grantActive l" "fst (grant_for_idr now owner l) \<le> kBurstGrantMaxBytes" "bl_started l"
    "bl_startedUs l + kBurstWarmupUs \<le> now" "bl_everGranted l \<Longrightarrow> bl_lastGrantUs l + kBurstMinIntervalUs \<le> now"
    "grant_left (snd (grant_for_idr now owner l)) = unat (fst (grant_for_idr now owner l))"
    "bl_everGranted (snd (grant_for_idr now owner l))" "bl_lastGrantUs (snd (grant_for_idr now owner l)) = now"
    "bl_started (snd (grant_for_idr now owner l)) = bl_started l" "bl_startedUs (snd (grant_for_idr now owner l)) = bl_startedUs l"
  using assms by (auto simp: grant_for_idr_def Let_def not_less grant_left_def min.coboundedI1 split: if_splits)

lemma grant_none:
  assumes "fst (grant_for_idr now owner l) = 0"
  shows "grant_left (snd (grant_for_idr now owner l)) = grant_left l"
    "bl_everGranted (snd (grant_for_idr now owner l)) = bl_everGranted l"
    "bl_lastGrantUs (snd (grant_for_idr now owner l)) = bl_lastGrantUs l"
    "bl_started (snd (grant_for_idr now owner l)) = bl_started l" "bl_startedUs (snd (grant_for_idr now owner l)) = bl_startedUs l"
  using assms by (auto simp: grant_for_idr_def Let_def split: if_splits)

definition granted_by :: "ledger_op \<Rightarrow> burst_ledger \<Rightarrow> nat" where
  "granted_by op l = (\<Sum>(u, g)\<leftarrow>grant_of op l. g)"

lemma covered_step: "covered_by op l + grant_left (ledger_step op l) \<le> grant_left l + granted_by op l"
proof (cases op)
  case (BoSetRate now capBps)
  obtain l' where "ledger_set_rate capBps now l = (if capBps div 8 < bl_r l \<and> bl_grantActive l then clamp_grant now l' else l')"
    "grant_left l' = grant_left l" by (rule set_rate_obtain)
  then show ?thesis using clamp_grants(1) [of now l'] by (simp add: BoSetRate granted_by_def)
next
  case (BoGrant now owner)
  show ?thesis
  proof (cases "fst (grant_for_idr now owner l) = 0")
    case True
    then show ?thesis using grant_none(1) [OF True] by (simp add: BoGrant granted_by_def)
  next
    case False
    then show ?thesis using grant_some(1,6) [OF False] by (simp add: BoGrant granted_by_def grant_left_def)
  qed
next
  case (BoDebit owner bytes)
  have "unat (bl_grantRemaining l - bytes) = unat (bl_grantRemaining l) - unat bytes" if "bytes < bl_grantRemaining l"
    using that by (simp add: unat_sub word_le_nat_alt word_less_nat_alt)
  moreover have "unat (min bytes (bl_grantRemaining l)) = min (unat bytes) (unat (bl_grantRemaining l))"
    by (simp add: min_def word_le_nat_alt)
  ultimately show ?thesis
    by (auto simp: BoDebit granted_by_def debit_grant_def grant_coverage_def Let_def grant_left_def word_less_nat_alt)
qed (auto simp: granted_by_def ledger_reserve_def ledger_commit_def take_pending_def ledger_has_room_def room_at_us_def end_grant_def
    burst_send_deadline_def ledger_window_bytes_def Let_def grant_left_def)

lemma covered_le: "covered ops l + grant_left (ledger_run ops l) \<le> grant_left l + (\<Sum>(u, g)\<leftarrow>grants ops l. g)"
proof (induction ops arbitrary: l)
  case (Cons op ops)
  show ?case using Cons.IH [of "ledger_step op l"] covered_step [of op l] by (simp add: granted_by_def ledger_run_def)
qed (simp add: ledger_run_def)

lemma grants_max: "(u, g) \<in> set (grants ops l) \<Longrightarrow> g \<le> 262144"
proof (induction ops arbitrary: l)
  case (Cons op ops)
  then show ?case using grant_some(2) by (cases op) (auto simp: kBurstGrantMaxBytes_def word_le_nat_alt split: if_splits)
qed simp

lemma clocks_kept:
  assumes "\<nexists>now owner. op = BoGrant now owner"
  shows "bl_everGranted (ledger_step op l) = bl_everGranted l" "bl_lastGrantUs (ledger_step op l) = bl_lastGrantUs l"
    "bl_started l \<Longrightarrow> bl_started (ledger_step op l) \<and> bl_startedUs (ledger_step op l) = bl_startedUs l"
proof -
  have "bl_everGranted (ledger_step op l) = bl_everGranted l \<and> bl_lastGrantUs (ledger_step op l) = bl_lastGrantUs l \<and>
      (bl_started l \<longrightarrow> bl_started (ledger_step op l) \<and> bl_startedUs (ledger_step op l) = bl_startedUs l)"
  proof (cases op)
    case (BoSetRate now capBps)
    obtain l' where "ledger_set_rate capBps now l = (if capBps div 8 < bl_r l \<and> bl_grantActive l then clamp_grant now l' else l')"
      "bl_everGranted l' = bl_everGranted l" "bl_lastGrantUs l' = bl_lastGrantUs l" "bl_started l'"
      "bl_startedUs l' = (if bl_started l then bl_startedUs l else now)" by (rule set_rate_obtain)
    then show ?thesis using clamp_grants(2-5) [of now l'] by (simp add: BoSetRate)
  qed (use assms in \<open>auto simp: ledger_reserve_def ledger_commit_def take_pending_def ledger_has_room_def room_at_us_def end_grant_def
      debit_grant_def burst_send_deadline_def ledger_window_bytes_def Let_def\<close>)
  then show "bl_everGranted (ledger_step op l) = bl_everGranted l" "bl_lastGrantUs (ledger_step op l) = bl_lastGrantUs l"
    "bl_started l \<Longrightarrow> bl_started (ledger_step op l) \<and> bl_startedUs (ledger_step op l) = bl_startedUs l" by blast+
qed

lemma started_stays: "bl_started l \<Longrightarrow> bl_started (ledger_run ops l) \<and> bl_startedUs (ledger_run ops l) = bl_startedUs l"
proof (induction ops arbitrary: l)
  case (Cons op ops)
  have "bl_started (ledger_step op l) \<and> bl_startedUs (ledger_step op l) = bl_startedUs l"
  proof (cases "\<exists>now owner. op = BoGrant now owner")
    case True
    then show ?thesis using Cons.prems by (auto simp: grant_for_idr_def Let_def)
  qed (use clocks_kept(3) Cons.prems in blast)
  then show ?case using Cons.IH [of "ledger_step op l"] by (simp add: ledger_run_def)
qed (simp add: ledger_run_def)

definition apart :: "(nat \<times> nat) list \<Rightarrow> bool" where
  "apart = sorted_wrt (\<lambda>a b. fst a + 1000000 \<le> fst b)"

text \<open>The clocks a ledger remembers do not lie in the far future.\<close>

definition clocks_ok :: "burst_ledger \<Rightarrow> bool" where
  "clocks_ok l \<longleftrightarrow> (bl_everGranted l \<longrightarrow> unat (bl_lastGrantUs l) < 2 ^ 63) \<and> (bl_started l \<longrightarrow> unat (bl_startedUs l) < 2 ^ 63)"

lemma clocks_ok_step:
  assumes "clocks_ok l" "op_ok R t op l"
  shows "clocks_ok (ledger_step op l)"
proof (cases op)
  case (BoSetRate now capBps)
  obtain l' where "ledger_set_rate capBps now l = (if capBps div 8 < bl_r l \<and> bl_grantActive l then clamp_grant now l' else l')"
    "bl_everGranted l' = bl_everGranted l" "bl_lastGrantUs l' = bl_lastGrantUs l" "bl_started l'"
    "bl_startedUs l' = (if bl_started l then bl_startedUs l else now)" by (rule set_rate_obtain)
  then show ?thesis using clamp_grants(2-5) [of now l'] assms by (auto simp: BoSetRate clocks_ok_def op_ok_def)
qed (use assms in \<open>auto simp: clocks_ok_def op_ok_def ledger_reserve_def ledger_commit_def take_pending_def ledger_has_room_def
    room_at_us_def end_grant_def debit_grant_def burst_send_deadline_def ledger_window_bytes_def grant_for_idr_def Let_def\<close>)

lemma grants_apart:
  assumes "ledger_run_ok R t ops l" "clocks_ok l"
  shows "apart (grants ops l) \<and> (\<forall>(u, g)\<in>set (grants ops l). (bl_everGranted l \<longrightarrow> unat (bl_lastGrantUs l) + 1000000 \<le> u) \<and>
    unat (bl_startedUs (ledger_run ops l)) + 2000000 \<le> u)"
  using assms
proof (induction ops arbitrary: t l)
  case (Cons op ops)
  define l' where "l' = ledger_step op l"
  have ok: "op_ok R t op l" "ledger_run_ok R (op_clock t op) ops l'" "clocks_ok l'"
    using Cons.prems clocks_ok_step by (auto simp: l'_def)
  have ih: "apart (grants ops l')" "\<forall>(u, g)\<in>set (grants ops l'). (bl_everGranted l' \<longrightarrow> unat (bl_lastGrantUs l') + 1000000 \<le> u) \<and>
      unat (bl_startedUs (ledger_run ops l')) + 2000000 \<le> u"
    using Cons.IH [OF ok(2,3)] by auto
  have run: "ledger_run (op # ops) l = ledger_run ops l'" "grants (op # ops) l = grant_of op l @ grants ops l'"
    by (simp_all add: ledger_run_def l'_def)
  show ?case
  proof (cases "grant_of op l = []")
    case True
    then have "bl_everGranted l' = bl_everGranted l" "bl_lastGrantUs l' = bl_lastGrantUs l"
      using clocks_kept(1,2) [of op l] grant_none(2,3) by (cases op; auto simp: l'_def split: if_splits)+
    then show ?thesis using ih unfolding run True by simp
  next
    case False
    then obtain now owner where op: "op = BoGrant now owner" and g: "fst (grant_for_idr now owner l) \<noteq> 0"
      by (cases op) (auto split: if_splits)
    have l': "bl_everGranted l'" "bl_lastGrantUs l' = now" "bl_started l'" "bl_startedUs l' = bl_startedUs l"
      using grant_some [OF g] by (simp_all add: l'_def op)
    have late: "unat (bl_startedUs l) + 2000000 \<le> unat now"
      using grant_some(3,4) [OF g] Cons.prems(2)
      by (simp add: word_le_nat_alt unat_word_ariths kBurstWarmupUs_def clocks_ok_def)
    have spaced: "unat (bl_lastGrantUs l) + 1000000 \<le> unat now" if "bl_everGranted l"
      using grant_some(5) [OF g that] Cons.prems(2) that
      by (simp add: word_le_nat_alt unat_word_ariths kBurstMinIntervalUs_def clocks_ok_def)
    have start: "bl_startedUs (ledger_run ops l') = bl_startedUs l" using started_stays [OF l'(3)] l'(4) by simp
    have gs: "grant_of op l = [(unat now, unat (fst (grant_for_idr now owner l)))]" using g by (simp add: op)
    have "\<forall>(u, g)\<in>set (grants ops l'). unat now + 1000000 \<le> u \<and> unat (bl_startedUs l) + 2000000 \<le> u"
      using ih(2) l'(1,2) unfolding start by simp
    then show ?thesis using ih(1) late spaced unfolding run start gs by (fastforce simp: apart_def)
  qed
qed (simp add: apart_def)

lemma apart_length: "apart gs \<Longrightarrow> gs \<noteq> [] \<Longrightarrow> fst (hd gs) + (length gs - 1) * 1000000 \<le> fst (last gs)"
proof (induction gs)
  case (Cons a gs)
  then show ?case by (cases gs) (auto simp: apart_def)
qed simp

lemma apart_sum:
  assumes "apart gs" "\<forall>(u, g)\<in>set gs. g \<le> M"
  shows "(\<Sum>(u, g)\<leftarrow>filter (\<lambda>(u, g). T \<le> u \<and> u \<le> T + D) gs. g) \<le> M * (D div 1000000 + 1)"
proof -
  define fs where "fs = filter (\<lambda>(u, g). T \<le> u \<and> u \<le> T + D) gs"
  have f: "apart fs" using assms(1) by (simp add: fs_def apart_def sorted_wrt_filter)
  have each: "\<forall>(u, g)\<in>set fs. T \<le> u \<and> u \<le> T + D \<and> g \<le> M" using assms(2) by (auto simp: fs_def)
  have "length fs \<le> D div 1000000 + 1"
  proof (cases "fs = []")
    case False
    have "T \<le> fst x \<and> fst x \<le> T + D" if "x \<in> set fs" for x using each that by auto
    then have "fst (last fs) \<le> T + D" "T \<le> fst (hd fs)" using False by simp_all
    then have "(length fs - 1) * 1000000 \<le> D" using apart_length [OF f False] by linarith
    then have "length fs - 1 \<le> D div 1000000" by (simp add: less_eq_div_iff_mult_less_eq)
    then show ?thesis by arith
  qed simp
  moreover have "(\<Sum>(u, g)\<leftarrow>fs. g) \<le> M * length fs" using each by (induction fs) auto
  ultimately show ?thesis unfolding fs_def using mult_le_mono2 order_trans by blast
qed

text \<open>
  Bursts stay rare and small: a grant is at most 256 KiB, none is given in the first two seconds after
  the first rate, two are at least a second apart - so any stretch of time has at most one more than its
  seconds of them - and what is sent under them is never more than what was granted.
\<close>

theorem burst_grants_limited:
  assumes "ledger_run_ok R 0 ops initial_ledger"
  shows "(\<forall>(u, g)\<in>set (grants ops initial_ledger). g \<le> 262144 \<and>
      unat (bl_startedUs (ledger_run ops initial_ledger)) + 2000000 \<le> u) \<and>
    (\<Sum>(u, g)\<leftarrow>filter (\<lambda>(u, g). T \<le> u \<and> u \<le> T + D) (grants ops initial_ledger). g) \<le> 262144 * (D div 1000000 + 1) \<and>
    covered ops initial_ledger \<le> (\<Sum>(u, g)\<leftarrow>grants ops initial_ledger. g)"
proof -
  have "clocks_ok initial_ledger" "grant_left initial_ledger = 0" by (simp_all add: clocks_ok_def initial_ledger_def grant_left_def)
  then show ?thesis
    using grants_apart [OF assms] grants_max [of _ _ ops initial_ledger] covered_le [of ops initial_ledger]
      apart_sum [of "grants ops initial_ledger" 262144 T D] by fastforce
qed

section \<open>A run\<close>

text \<open>One megabyte a second; a keyframe after three seconds gets a burst and is sent.\<close>

definition example_au :: burst_au where
  "example_au = no_au\<lparr>ba_seq := 7, ba_valid := True\<rparr>"

definition example_ops :: "ledger_op list" where
  "example_ops = [BoSetRate 1000 8000000, BoReserve 1500000 1200, BoCommit 1500000 1200, BoGrant 3000000 example_au,
     BoReserve 3000000 1400, BoDebit example_au 1400, BoCommit 3000010 1400, BoReserve 3000020 1300, BoCancel 1300,
     BoEnd example_au, BoSetRate 3500000 4000000]"

lemmas ledger_eval = ledger_set_rate_def ledger_reserve_def ledger_commit_def take_pending_def grant_for_idr_def debit_grant_def
  end_grant_def admission_headroom_def admission_budget_def window_budget_def window_start_def clamp_grant_def prune_def
  kBurstWindowUs_def kBurstGrantMaxBytes_def kBurstMinIntervalUs_def kBurstWarmupUs_def initial_ledger_def example_au_def no_au_def
  same_au_def Let_def op_ok_def op_clock_def

lemma example_legal: "ledger_run_ok 1000000 0 example_ops initial_ledger"
  by (simp add: example_ops_def ledger_eval)

lemma example_grants: "grants example_ops initial_ledger = [(3000000, 262144)]"
  by (simp add: example_ops_def ledger_eval)

theorem burst_window_bound_witness: "sent_within 3000010 (commits example_ops) \<le> 2000000"
  using burst_window_bound [OF example_legal, of 3000010] by simp

theorem burst_grants_limited_witness:
  "covered example_ops initial_ledger \<le> 262144 \<and> grants example_ops initial_ledger = [(3000000, 262144)]"
  using burst_grants_limited [OF example_legal] by (simp add: example_grants)

end
