(* ===== verification/HostRate.thy ===== *)
theory HostRate
  imports Prelude
begin

text \<open>
  The once-a-second rate decisions of the host: \<open>RateGovernor\<close> of \<open>host_rate_governor.hpp\<close> (the ceiling of
  the quantiser and the frame rate) and the two ladders of \<open>RateControlState\<close> in \<open>host_abr.hpp\<close> (the
  profile high, mid, low and the four M9 levels). Counters and times are words of their width. The frame
  sizes of a profile, which use a square root, and the names for the log are left out.
\<close>

section \<open>The governor\<close>

record governor_config =
  gc_baseQp :: u32
  gc_capQp :: u32
  gc_stepUpQp :: u32
  gc_stepDownQp :: u32
  gc_overPercent :: u32
  gc_underPercent :: u32
  gc_upAfterSec :: u32
  gc_downAfterSec :: u32
  gc_calmPercent :: u32
  gc_fpsDownAfterSec :: u32
  gc_fpsUpPercent :: u32
  gc_fpsUpAfterSec :: u32
  gc_minFps :: u32

definition default_governor_config :: governor_config where
  "default_governor_config = \<lparr>gc_baseQp = 32, gc_capQp = 40, gc_stepUpQp = 3, gc_stepDownQp = 2, gc_overPercent = 125,
     gc_underPercent = 85, gc_upAfterSec = 2, gc_downAfterSec = 3, gc_calmPercent = 40, gc_fpsDownAfterSec = 3,
     gc_fpsUpPercent = 90, gc_fpsUpAfterSec = 5, gc_minFps = 15\<rparr>"

record rate_decision =
  rd_maxQp :: u32
  rd_fps :: u32

record rate_governor =
  rg_config :: governor_config
  rg_qp :: u32
  rg_fpsStep :: u32
  rg_over :: u32
  rg_under :: u32
  rg_overAtCap :: u32
  rg_fpsOk :: u32

definition governor_reset :: "rate_governor \<Rightarrow> rate_governor" where
  "governor_reset g = g\<lparr>rg_qp := gc_baseQp (rg_config g), rg_fpsStep := 0, rg_over := 0, rg_under := 0, rg_overAtCap := 0, rg_fpsOk := 0\<rparr>"

definition new_governor :: "governor_config \<Rightarrow> rate_governor" where
  "new_governor c = \<lparr>rg_config = c, rg_qp = gc_baseQp c, rg_fpsStep = 0, rg_over = 0, rg_under = 0, rg_overAtCap = 0, rg_fpsOk = 0\<rparr>"

definition governor_reconfigure :: "governor_config \<Rightarrow> rate_governor \<Rightarrow> rate_governor" where
  "governor_reconfigure c g = governor_reset (g\<lparr>rg_config := c\<rparr>)"

definition fps_for_step :: "governor_config \<Rightarrow> u32 \<Rightarrow> u32 \<Rightarrow> u32" where
  "fps_for_step c userFps step =
    (if step = 0 \<or> userFps = 0 then userFps
     else min userFps (max (gc_minFps c) (if step = 1 then userFps * 3 div 4 else userFps div 2)))"

definition governor_current :: "u32 \<Rightarrow> rate_governor \<Rightarrow> rate_decision" where
  "governor_current userFps g = \<lparr>rd_maxQp = rg_qp g, rd_fps = fps_for_step (rg_config g) userFps (rg_fpsStep g)\<rparr>"

text \<open>The counters of seconds over and under the target.\<close>

definition count_second :: "u64 \<Rightarrow> rate_governor \<Rightarrow> rate_governor" where
  "count_second percent g =
    (let c = rg_config g;
         g = (if ucast (gc_overPercent c) < percent then g\<lparr>rg_over := rg_over g + 1, rg_under := 0\<rparr>
              else if percent < ucast (gc_underPercent c) then g\<lparr>rg_under := rg_under g + 1, rg_over := 0\<rparr>
              else g\<lparr>rg_over := 0, rg_under := 0\<rparr>) in
     g\<lparr>rg_overAtCap := (if gc_capQp c \<le> rg_qp g \<and> ucast (gc_overPercent c) < percent then rg_overAtCap g + 1 else 0)\<rparr>)"

text \<open>Back up: the frame rate first, then the ceiling.\<close>

definition governor_unwind :: "u64 \<Rightarrow> u32 \<Rightarrow> rate_governor \<Rightarrow> rate_governor" where
  "governor_unwind percent userFps g =
    (let c = rg_config g in
     if 0 < rg_fpsStep g then
       (let cur = fps_for_step c userFps (rg_fpsStep g); nxt = fps_for_step c userFps (rg_fpsStep g - 1);
            predicted = (if 0 < cur then percent * ucast nxt div ucast cur else percent);
            ok = (if predicted < ucast (gc_fpsUpPercent c) then rg_fpsOk g + 1 else 0) in
        if gc_fpsUpAfterSec c \<le> ok then g\<lparr>rg_fpsStep := rg_fpsStep g - 1, rg_fpsOk := 0, rg_under := 0\<rparr> else g\<lparr>rg_fpsOk := ok\<rparr>)
     else if gc_downAfterSec c \<le> rg_under g \<and> gc_baseQp c < rg_qp g then
       g\<lparr>rg_qp := max (gc_baseQp c) (rg_qp g - min (gc_stepDownQp c) (rg_qp g - gc_baseQp c)), rg_under := 0\<rparr>
     else g)"

definition governor_second :: "u64 \<Rightarrow> u32 \<Rightarrow> u32 \<Rightarrow> rate_governor \<Rightarrow> rate_governor" where
  "governor_second payloadBytes targetBps userFps g =
    (if targetBps = 0 then g
     else let c = rg_config g; percent = payloadBytes * 8 * 100 div ucast targetBps in
       if percent < ucast (gc_calmPercent c) then governor_reset g
       else let g = count_second percent g in
         if gc_upAfterSec c \<le> rg_over g \<and> rg_qp g < gc_capQp c then
           g\<lparr>rg_qp := min (gc_capQp c) (rg_qp g + gc_stepUpQp c), rg_over := 0\<rparr>
         else if gc_fpsDownAfterSec c \<le> rg_overAtCap g \<and> rg_fpsStep g < 2 \<and>
             fps_for_step c userFps (rg_fpsStep g + 1) < fps_for_step c userFps (rg_fpsStep g) then
           g\<lparr>rg_fpsStep := rg_fpsStep g + 1, rg_overAtCap := 0, rg_fpsOk := 0\<rparr>
         else governor_unwind percent userFps g)"

text \<open>\<open>OnSecond\<close>: the step, and what to use now.\<close>

definition on_second :: "u64 \<Rightarrow> u32 \<Rightarrow> u32 \<Rightarrow> rate_governor \<Rightarrow> rate_decision \<times> rate_governor" where
  "on_second payloadBytes targetBps userFps g =
    (let g = governor_second payloadBytes targetBps userFps g in (governor_current userFps g, g))"

section \<open>The profile\<close>

record abr_inputs =
  ai_metricsFresh :: bool
  ai_clDecodedFpsX100 :: u32
  ai_clAvgLatencyUs :: u64
  ai_clAvgDecodeTailUs :: u64
  ai_cb2eAvgUs :: u64
  ai_sentFrames :: u64
  ai_staticMode :: bool
  ai_activeFps :: u32
  ai_startUs :: u64
  ai_clUdpDropPm :: u32
  ai_clientEverReported :: bool
  ai_clientDecodeReported :: bool

text \<open>The part of \<open>RateControlState\<close> the profile uses.\<close>

record rate_control =
  rc_abrQualityFirst :: bool
  rc_textPriorityEnabled :: bool
  rc_encodeLadderReduced :: bool
  rc_abrHasMidProfile :: bool
  rc_abrHasLowProfile :: bool
  rc_userFpsCeiling :: u32
  rc_abrProfile :: int
  rc_abrCooldownUntilUs :: u64
  rc_abrGoodSeconds :: u32
  rc_abrSparseRecoverySeconds :: u32
  rc_abrStaleActiveSeconds :: u32
  rc_abrModeratePressureSeconds :: u32
  rc_abrSeverePressureSeconds :: u32

datatype encode_priority = StandardPriority | DesktopText

definition priority_for :: "bool \<Rightarrow> rate_control \<Rightarrow> encode_priority" where
  "priority_for windowMode rc = (if rc_textPriorityEnabled rc \<and> \<not> windowMode then DesktopText else StandardPriority)"

definition abr_profile_fps :: "int \<Rightarrow> encode_priority \<Rightarrow> rate_control \<Rightarrow> u32" where
  "abr_profile_fps profile priority rc =
    (if priority \<noteq> DesktopText \<or> profile \<le> 0 \<or> rc_userFpsCeiling rc = 0 then rc_userFpsCeiling rc
     else min (rc_userFpsCeiling rc) (max 15 (rc_userFpsCeiling rc * 2 div 3)))"

definition needs_box_repick :: "encode_priority \<Rightarrow> encode_priority \<Rightarrow> bool \<Rightarrow> bool \<Rightarrow> bool" where
  "needs_box_repick boxPriority capturePriority manualBox overviewActive \<longleftrightarrow>
     \<not> manualBox \<and> \<not> overviewActive \<and> boxPriority \<noteq> capturePriority"

text \<open>A number of the quality-first build, or of the other.\<close>

definition either :: "rate_control \<Rightarrow> 'a \<Rightarrow> 'a \<Rightarrow> 'a" where
  "either rc q n = (if rc_abrQualityFirst rc then q else n)"

definition expected_fps :: "abr_inputs \<Rightarrow> u32" where
  "expected_fps i = max 1 (ai_activeFps i)"

definition host_offer_sparse :: "abr_inputs \<Rightarrow> bool" where
  "host_offer_sparse i \<longleftrightarrow> ai_sentFrames i < max 2 (ucast (expected_fps i) div 2) \<or> ai_staticMode i"

definition warmup_done :: "abr_inputs \<Rightarrow> u64 \<Rightarrow> bool" where
  "warmup_done i t \<longleftrightarrow> ai_startUs i + 4000000 \<le> t"

definition client_decode_valid :: "abr_inputs \<Rightarrow> bool" where
  "client_decode_valid i \<longleftrightarrow> ai_metricsFresh i \<and> ai_clientDecodeReported i"

definition moderate_latency :: "rate_control \<Rightarrow> u64" where "moderate_latency rc = either rc 145000 125000"
definition moderate_tail :: "rate_control \<Rightarrow> u64" where "moderate_tail rc = either rc 120000 90000"

definition severe_by_client :: "rate_control \<Rightarrow> abr_inputs \<Rightarrow> bool" where
  "severe_by_client rc i \<longleftrightarrow> client_decode_valid i \<and>
     (either rc 170000 150000 < ai_clAvgLatencyUs i \<or> either rc 140000 110000 < ai_clAvgDecodeTailUs i \<or>
      either rc 60 100 < ai_clUdpDropPm i \<or> ai_clDecodedFpsX100 i < expected_fps i * either rc 18 12)"

definition moderate_by_client :: "rate_control \<Rightarrow> abr_inputs \<Rightarrow> bool" where
  "moderate_by_client rc i \<longleftrightarrow> client_decode_valid i \<and>
     (moderate_latency rc < ai_clAvgLatencyUs i \<or> moderate_tail rc < ai_clAvgDecodeTailUs i \<or> either rc 20 35 < ai_clUdpDropPm i \<or>
      ai_clDecodedFpsX100 i < expected_fps i * either rc 55 45 \<and>
        (moderate_latency rc - 50000 < ai_clAvgLatencyUs i \<or> moderate_tail rc - 30000 < ai_clAvgDecodeTailUs i))"

definition emergency_by_client :: "rate_control \<Rightarrow> abr_inputs \<Rightarrow> bool" where
  "emergency_by_client rc i \<longleftrightarrow> client_decode_valid i \<and>
     (either rc 260000 220000 < ai_clAvgLatencyUs i \<or> either rc 190000 160000 < ai_clAvgDecodeTailUs i)"

definition severe_by_host :: "rate_control \<Rightarrow> abr_inputs \<Rightarrow> bool" where
  "severe_by_host rc i \<longleftrightarrow> \<not> client_decode_valid i \<and> either rc 110000 90000 < ai_cb2eAvgUs i"

definition moderate_by_host :: "rate_control \<Rightarrow> abr_inputs \<Rightarrow> bool" where
  "moderate_by_host rc i \<longleftrightarrow> \<not> client_decode_valid i \<and> either rc 90000 70000 < ai_cb2eAvgUs i"

definition stale_seconds :: "rate_control \<Rightarrow> abr_inputs \<Rightarrow> u64 \<Rightarrow> u32" where
  "stale_seconds rc i t =
    (if warmup_done i t \<and> \<not> ai_metricsFresh i \<and> ai_clientEverReported i \<and> \<not> host_offer_sparse i
     then rc_abrStaleActiveSeconds rc + 1 else 0)"

definition stale_congestion :: "rate_control \<Rightarrow> abr_inputs \<Rightarrow> u64 \<Rightarrow> bool" where
  "stale_congestion rc i t \<longleftrightarrow> either rc 3 2 \<le> stale_seconds rc i t"

text \<open>The verdicts of a second.\<close>

definition severe_down :: "rate_control \<Rightarrow> abr_inputs \<Rightarrow> u64 \<Rightarrow> bool" where
  "severe_down rc i t \<longleftrightarrow> warmup_done i t \<and> \<not> host_offer_sparse i \<and>
     (severe_by_client rc i \<or> severe_by_host rc i \<or> stale_congestion rc i t)"

definition moderate_down :: "rate_control \<Rightarrow> abr_inputs \<Rightarrow> u64 \<Rightarrow> bool" where
  "moderate_down rc i t \<longleftrightarrow> warmup_done i t \<and> \<not> host_offer_sparse i \<and> (moderate_by_client rc i \<or> moderate_by_host rc i)"

definition emergency_down :: "rate_control \<Rightarrow> abr_inputs \<Rightarrow> u64 \<Rightarrow> bool" where
  "emergency_down rc i t \<longleftrightarrow> warmup_done i t \<and> \<not> host_offer_sparse i \<and> emergency_by_client rc i"

definition good_for_low_to_mid :: "rate_control \<Rightarrow> abr_inputs \<Rightarrow> bool" where
  "good_for_low_to_mid rc i \<longleftrightarrow> ai_metricsFresh i \<and> \<not> host_offer_sparse i \<and> ai_clAvgLatencyUs i < 90000 \<and>
     ai_clAvgDecodeTailUs i < 65000 \<and> expected_fps i * either rc 90 85 \<le> ai_clDecodedFpsX100 i"

definition good_for_mid_to_high :: "rate_control \<Rightarrow> abr_inputs \<Rightarrow> bool" where
  "good_for_mid_to_high rc i \<longleftrightarrow> ai_metricsFresh i \<and> \<not> host_offer_sparse i \<and> ai_clAvgLatencyUs i < 75000 \<and>
     ai_clAvgDecodeTailUs i < 50000 \<and> expected_fps i * either rc 95 93 \<le> ai_clDecodedFpsX100 i"

definition sparse_healthy :: "rate_control \<Rightarrow> abr_inputs \<Rightarrow> bool" where
  "sparse_healthy rc i \<longleftrightarrow> ai_metricsFresh i \<and> ai_clAvgLatencyUs i < moderate_latency rc \<and>
     ai_clAvgDecodeTailUs i < moderate_tail rc \<and> ai_clUdpDropPm i < 20"

text \<open>The counters of a second, with the verdicts taken before they move.\<close>

definition count_pressure :: "abr_inputs \<Rightarrow> u64 \<Rightarrow> rate_control \<Rightarrow> rate_control" where
  "count_pressure i t rc = rc\<lparr>
     rc_abrStaleActiveSeconds := stale_seconds rc i t,
     rc_abrSeverePressureSeconds := (if severe_down rc i t then rc_abrSeverePressureSeconds rc + 1 else 0),
     rc_abrModeratePressureSeconds := (if moderate_down rc i t then rc_abrModeratePressureSeconds rc + 1 else 0)\<rparr>"

text \<open>In a second in which the host offered almost nothing the profile may only go up, one rung.\<close>

definition sparse_choice :: "abr_inputs \<Rightarrow> rate_control \<Rightarrow> (int \<times> string) \<times> rate_control" where
  "sparse_choice i rc =
    (let hold = (rc_abrProfile rc, ''none''); rc0 = rc\<lparr>rc_abrGoodSeconds := 0\<rparr> in
     if 0 < rc_abrProfile rc \<and> sparse_healthy rc i then
       (let n = rc_abrSparseRecoverySeconds rc + 1 in
        (if either rc 6 8 \<le> n
         then ((if rc_abrProfile rc = 2 then (if rc_abrHasMidProfile rc then 1 else 0) else 0), ''static_recovery'') else hold,
         rc0\<lparr>rc_abrSparseRecoverySeconds := n\<rparr>))
     else (hold, rc0\<lparr>rc_abrSparseRecoverySeconds := 0\<rparr>))"

definition high_choice :: "bool \<Rightarrow> rate_control \<Rightarrow> (int \<times> string) \<times> rate_control" where
  "high_choice emergency rc =
    (let severe = either rc 3 2 \<le> rc_abrSeverePressureSeconds rc in
     (if emergency \<and> rc_abrHasLowProfile rc \<and> 1 \<le> rc_abrSeverePressureSeconds rc then (2, ''client_emergency'')
      else if severe \<or> either rc 6 4 \<le> rc_abrModeratePressureSeconds rc then
        (if rc_abrHasMidProfile rc then (1, if severe then ''high_to_mid_severe'' else ''high_to_mid_moderate'')
         else if rc_abrHasLowProfile rc then (2, if severe then ''high_to_low_severe'' else ''high_to_low_moderate'')
         else (rc_abrProfile rc, ''none''))
      else (rc_abrProfile rc, ''none''),
      rc\<lparr>rc_abrGoodSeconds := 0\<rparr>))"

definition mid_choice :: "bool \<Rightarrow> bool \<Rightarrow> rate_control \<Rightarrow> (int \<times> string) \<times> rate_control" where
  "mid_choice emergency good rc =
    (let severe = either rc 4 3 \<le> rc_abrSeverePressureSeconds rc in
     if emergency \<and> rc_abrHasLowProfile rc then ((2, ''client_emergency''), rc\<lparr>rc_abrGoodSeconds := 0\<rparr>)
     else if (severe \<or> either rc 8 5 \<le> rc_abrModeratePressureSeconds rc) \<and> rc_abrHasLowProfile rc then
       ((2, if severe then ''mid_to_low_severe'' else ''mid_to_low_moderate''), rc\<lparr>rc_abrGoodSeconds := 0\<rparr>)
     else let n = (if good then rc_abrGoodSeconds rc + 1 else 0) in
       (if either rc 12 8 \<le> n then (0, ''client_stable_high'') else (rc_abrProfile rc, ''none''), rc\<lparr>rc_abrGoodSeconds := n\<rparr>))"

definition low_choice :: "bool \<Rightarrow> rate_control \<Rightarrow> (int \<times> string) \<times> rate_control" where
  "low_choice good rc =
    (let n = (if good then rc_abrGoodSeconds rc + 1 else 0) in
     (if either rc 8 5 \<le> n then (if rc_abrHasMidProfile rc then 1 else 0, ''client_stable_mid'') else (rc_abrProfile rc, ''none''),
      rc\<lparr>rc_abrGoodSeconds := n\<rparr>))"

definition choose_profile :: "bool \<Rightarrow> abr_inputs \<Rightarrow> rate_control \<Rightarrow> (int \<times> string) \<times> rate_control" where
  "choose_profile emergency i rc =
    (if host_offer_sparse i then sparse_choice i rc
     else let rc = rc\<lparr>rc_abrSparseRecoverySeconds := 0\<rparr> in
       if rc_abrProfile rc = 0 then high_choice emergency rc
       else if rc_abrProfile rc = 1 then mid_choice emergency (good_for_mid_to_high rc i) rc
       else low_choice (good_for_low_to_mid rc i) rc)"

text \<open>\<open>DecideAbrProfile\<close>: the profile to run, why, and the counters. The evidence bits go to the log only.\<close>

definition decide_abr_profile :: "abr_inputs \<Rightarrow> u64 \<Rightarrow> rate_control \<Rightarrow> (int \<times> string) \<times> rate_control" where
  "decide_abr_profile i t rc =
    (let emergency = emergency_down rc i t; rc = count_pressure i t rc in
     if rc_abrCooldownUntilUs rc \<le> t then choose_profile emergency i rc else ((rc_abrProfile rc, ''none''), rc))"

definition commit_abr_profile :: "int \<Rightarrow> bool \<Rightarrow> u64 \<Rightarrow> rate_control \<Rightarrow> rate_control" where
  "commit_abr_profile targetProfile ladderReduced t rc = rc\<lparr>rc_encodeLadderReduced := ladderReduced, rc_abrProfile := targetProfile,
     rc_abrGoodSeconds := 0, rc_abrSparseRecoverySeconds := 0, rc_abrStaleActiveSeconds := 0, rc_abrModeratePressureSeconds := 0,
     rc_abrSeverePressureSeconds := 0, rc_abrCooldownUntilUs := t + 4000000\<rparr>"

text \<open>A second: a change is committed when the encoder takes it (\<open>accepted\<close>, with its answer on the ladder).\<close>

definition abr_second :: "abr_inputs \<Rightarrow> u64 \<Rightarrow> bool \<Rightarrow> bool \<Rightarrow> rate_control \<Rightarrow> rate_control" where
  "abr_second i t accepted ladderReduced rc =
    (case decide_abr_profile i t rc of ((targetProfile, reason), rc') \<Rightarrow>
      if targetProfile \<noteq> rc_abrProfile rc' \<and> accepted then commit_abr_profile targetProfile ladderReduced t rc' else rc')"

section \<open>The M9 level\<close>

record m9_inputs =
  mi_metricsFresh :: bool
  mi_clCongestionState :: u32
  mi_clDecodedFpsX100 :: u32
  mi_clQueueDepthMax :: u32
  mi_clUdpDropPm :: u32
  mi_clAvgLatencyUs :: u64
  mi_clAvgDecodeTailUs :: u64
  mi_cb2eAvgUs :: u64

text \<open>The part of \<open>RateControlState\<close> the levels use.\<close>

record m9_control =
  mc_cooldownSec :: u32
  mc_downRequireSec :: u32
  mc_upRequireSec :: u32
  mc_decodedFpsFloorX100 :: u32
  mc_decodedFpsRecoverX100 :: u32
  mc_queueDepthHighFrames :: u32
  mc_queueDepthLowFrames :: u32
  mc_udpDropPmHigh :: u32
  mc_udpDropPmLow :: u32
  mc_latencyHighUs :: u32
  mc_latencyLowUs :: u32
  mc_tailHighUs :: u32
  mc_tailLowUs :: u32
  mc_level :: int
  mc_cooldownUntilUs :: u64
  mc_downPressureSeconds :: u32
  mc_upPressureSeconds :: u32

text \<open>A value of a level, out of the four configured (bitrate, frame rate, width, height).\<close>

definition m9_level_value :: "int \<Rightarrow> u32 \<times> u32 \<times> u32 \<times> u32 \<Rightarrow> u32" where
  "m9_level_value level vs = (case vs of (v0, v1, v2, v3) \<Rightarrow>
     if level \<le> 0 then v0 else if level = 1 then v1 else if level = 2 then v2 else v3)"

definition m9_down_by_client :: "m9_control \<Rightarrow> m9_inputs \<Rightarrow> bool" where
  "m9_down_by_client m i \<longleftrightarrow> mi_metricsFresh i \<and>
     (mi_clCongestionState i = 2 \<or> mi_clDecodedFpsX100 i < mc_decodedFpsFloorX100 m \<or>
      mc_queueDepthHighFrames m \<le> mi_clQueueDepthMax i \<or> mc_udpDropPmHigh m \<le> mi_clUdpDropPm i \<or>
      ucast (mc_latencyHighUs m) \<le> mi_clAvgLatencyUs i \<or> ucast (mc_tailHighUs m) \<le> mi_clAvgDecodeTailUs i)"

definition m9_down_pressure :: "m9_control \<Rightarrow> m9_inputs \<Rightarrow> bool" where
  "m9_down_pressure m i \<longleftrightarrow> m9_down_by_client m i \<or> (\<not> mi_metricsFresh i \<and> ucast (mc_tailHighUs m) \<le> mi_cb2eAvgUs i)"

definition m9_up_pressure :: "m9_control \<Rightarrow> m9_inputs \<Rightarrow> bool" where
  "m9_up_pressure m i \<longleftrightarrow> mi_metricsFresh i \<and> mi_clCongestionState i = 0 \<and> mc_decodedFpsRecoverX100 m \<le> mi_clDecodedFpsX100 i \<and>
     mi_clQueueDepthMax i \<le> mc_queueDepthLowFrames m \<and> mi_clUdpDropPm i \<le> mc_udpDropPmLow m \<and>
     mi_clAvgLatencyUs i \<le> ucast (mc_latencyLowUs m) \<and> mi_clAvgDecodeTailUs i \<le> ucast (mc_tailLowUs m)"

definition decide_m9_level :: "m9_inputs \<Rightarrow> u64 \<Rightarrow> m9_control \<Rightarrow> (int \<times> string) \<times> m9_control" where
  "decide_m9_level i t m =
    (let down = m9_down_pressure m i; up = m9_up_pressure m i;
         m = m\<lparr>mc_downPressureSeconds := (if down then mc_downPressureSeconds m + 1 else 0),
           mc_upPressureSeconds := (if up then mc_upPressureSeconds m + 1 else 0)\<rparr> in
     (if mc_cooldownUntilUs m \<le> t then
        (if down \<and> mc_downRequireSec m \<le> mc_downPressureSeconds m \<and> mc_level m < 3
         then (mc_level m + 1, if m9_down_by_client m i then ''client_pressure'' else ''host_fallback_pressure'')
         else if up \<and> mc_upRequireSec m \<le> mc_upPressureSeconds m \<and> 0 < mc_level m then (mc_level m - 1, ''client_recovered'')
         else (mc_level m, ''hold''))
      else (mc_level m, ''hold''), m))"

definition commit_m9_level :: "int \<Rightarrow> u64 \<Rightarrow> m9_control \<Rightarrow> m9_control" where
  "commit_m9_level targetLevel t m = m\<lparr>mc_level := targetLevel, mc_cooldownUntilUs := t + ucast (mc_cooldownSec m) * 1000000,
     mc_downPressureSeconds := 0, mc_upPressureSeconds := 0\<rparr>"

definition m9_second :: "m9_inputs \<Rightarrow> u64 \<Rightarrow> bool \<Rightarrow> m9_control \<Rightarrow> m9_control" where
  "m9_second i t accepted m =
    (case decide_m9_level i t m of ((targetLevel, reason), m') \<Rightarrow>
      if targetLevel \<noteq> mc_level m' \<and> accepted then commit_m9_level targetLevel t m' else m')"

section \<open>What the governor keeps\<close>

text \<open>The ladder: the ceiling within its range, the frame rate lowered only with the ceiling at its cap.\<close>

definition governor_ok :: "rate_governor \<Rightarrow> bool" where
  "governor_ok g \<longleftrightarrow> gc_baseQp (rg_config g) \<le> rg_qp g \<and> rg_qp g \<le> gc_capQp (rg_config g) \<and> rg_fpsStep g \<le> 2 \<and>
     (rg_fpsStep g \<noteq> 0 \<longrightarrow> rg_qp g = gc_capQp (rg_config g))"

text \<open>A configuration that can be used: the range is not empty and stays clear of the end of its type.\<close>

definition config_ok :: "governor_config \<Rightarrow> bool" where
  "config_ok c \<longleftrightarrow> gc_baseQp c \<le> gc_capQp c \<and> gc_capQp c < 1000 \<and> gc_stepUpQp c < 1000 \<and> 0 < gc_fpsDownAfterSec c"

datatype governor_op = GoSecond u64 u32 u32 | GoReset | GoReconfigure governor_config

fun governor_step :: "governor_op \<Rightarrow> rate_governor \<Rightarrow> rate_governor" where
  "governor_step (GoSecond payloadBytes targetBps userFps) g = snd (on_second payloadBytes targetBps userFps g)"
| "governor_step GoReset g = governor_reset g"
| "governor_step (GoReconfigure c) g = governor_reconfigure c g"

definition configs_ok :: "governor_op list \<Rightarrow> bool" where
  "configs_ok ops \<longleftrightarrow> (\<forall>c. GoReconfigure c \<in> set ops \<longrightarrow> config_ok c)"

lemma count_second_keeps [simp]: "rg_config (count_second p g) = rg_config g" "rg_qp (count_second p g) = rg_qp g"
  "rg_fpsStep (count_second p g) = rg_fpsStep g"
  by (simp_all add: count_second_def Let_def)

lemma count_second_cap: "rg_overAtCap (count_second p g) \<noteq> 0 \<Longrightarrow> gc_capQp (rg_config g) \<le> rg_qp g"
  by (simp add: count_second_def Let_def split: if_splits)

lemma word_pos_le_ne: "0 < (a :: u32) \<Longrightarrow> a \<le> b \<Longrightarrow> b \<noteq> 0" by auto

lemma qp_up:
  assumes "config_ok c" "q < gc_capQp c" "gc_baseQp c \<le> q"
  shows "gc_baseQp c \<le> min (gc_capQp c) (q + gc_stepUpQp c)"
proof -
  have "unat (q + gc_stepUpQp c) = unat q + unat (gc_stepUpQp c)"
    using assms by (simp add: config_ok_def unat_word_ariths word_less_nat_alt)
  then have "q \<le> q + gc_stepUpQp c" by (simp add: word_le_nat_alt)
  then show ?thesis using assms by (auto simp: config_ok_def)
qed

lemma qp_down:
  assumes "gc_baseQp c < q" "q \<le> gc_capQp c"
  shows "max (gc_baseQp c) (q - min (gc_stepDownQp c) (q - gc_baseQp c)) \<le> gc_capQp c"
proof -
  have "min (gc_stepDownQp c) (q - gc_baseQp c) \<le> q" using assms(1) by (meson min.coboundedI2 order.strict_implies_order word_sub_le)
  then have "q - min (gc_stepDownQp c) (q - gc_baseQp c) \<le> q" by (rule word_sub_le)
  then show ?thesis using assms by auto
qed

lemma step_down: "0 < (n :: u32) \<Longrightarrow> n \<le> 2 \<Longrightarrow> n - 1 \<le> 2"
  by (simp add: word_le_nat_alt word_less_nat_alt unat_sub_if')

lemma governor_unwind_ok:
  assumes "governor_ok g" "config_ok (rg_config g)"
  shows "governor_ok (governor_unwind p u g) \<and> rg_config (governor_unwind p u g) = rg_config g"
  using assms qp_down [of "rg_config g" "rg_qp g"] step_down [of "rg_fpsStep g"]
  by (auto simp: governor_ok_def governor_unwind_def Let_def word_gt_0)

lemma governor_second_ok:
  assumes ok: "governor_ok g" and c: "config_ok (rg_config g)"
  shows "governor_ok (governor_second b t u g) \<and> rg_config (governor_second b t u g) = rg_config g"
proof -
  define p where "p = b * 8 * 100 div ucast t"
  define h where "h = count_second p g"
  have h: "governor_ok h" "rg_config h = rg_config g" using ok by (simp_all add: h_def governor_ok_def)
  have up: "governor_ok (h\<lparr>rg_qp := min (gc_capQp (rg_config g)) (rg_qp h + gc_stepUpQp (rg_config g)), rg_over := 0\<rparr>)"
    if "rg_qp h < gc_capQp (rg_config g)"
    using h that qp_up [of "rg_config g" "rg_qp h"] c by (auto simp: governor_ok_def)
  have slower: "governor_ok (h\<lparr>rg_fpsStep := rg_fpsStep h + 1, rg_overAtCap := 0, rg_fpsOk := 0\<rparr>)"
    if "gc_fpsDownAfterSec (rg_config g) \<le> rg_overAtCap h" "rg_fpsStep h < 2"
  proof -
    have "rg_overAtCap h \<noteq> 0" using that(1) c word_pos_le_ne by (auto simp: config_ok_def)
    then have "gc_capQp (rg_config g) \<le> rg_qp h" using count_second_cap by (simp add: h_def)
    moreover have "rg_fpsStep h + 1 \<le> 2" using that(2) by (simp add: inc_le word_less_nat_alt word_le_nat_alt unat_word_ariths)
    ultimately show ?thesis using h by (auto simp: governor_ok_def)
  qed
  have "governor_second b t u g = (if t = 0 then g else if p < ucast (gc_calmPercent (rg_config g)) then governor_reset g
      else if gc_upAfterSec (rg_config g) \<le> rg_over h \<and> rg_qp h < gc_capQp (rg_config g) then
        h\<lparr>rg_qp := min (gc_capQp (rg_config g)) (rg_qp h + gc_stepUpQp (rg_config g)), rg_over := 0\<rparr>
      else if gc_fpsDownAfterSec (rg_config g) \<le> rg_overAtCap h \<and> rg_fpsStep h < 2 \<and>
          fps_for_step (rg_config g) u (rg_fpsStep h + 1) < fps_for_step (rg_config g) u (rg_fpsStep h) then
        h\<lparr>rg_fpsStep := rg_fpsStep h + 1, rg_overAtCap := 0, rg_fpsOk := 0\<rparr>
      else governor_unwind p u h)"
    by (simp only: governor_second_def Let_def p_def h_def)
  moreover have "governor_ok (governor_reset g)" using c by (simp add: governor_ok_def governor_reset_def config_ok_def)
  ultimately show ?thesis using ok up slower governor_unwind_ok [of h p u] h c
    by (auto simp: governor_reset_def)
qed

lemma governor_run_ok: "configs_ok ops \<Longrightarrow> governor_ok g \<Longrightarrow> config_ok (rg_config g) \<Longrightarrow>
    governor_ok (fold governor_step ops g) \<and> config_ok (rg_config (fold governor_step ops g))"
proof (induction ops arbitrary: g)
  case (Cons op ops)
  have "governor_ok (governor_step op g) \<and> config_ok (rg_config (governor_step op g))"
  proof (cases op)
    case (GoSecond b t u)
    then show ?thesis using governor_second_ok [OF Cons.prems(2,3)] Cons.prems(3) by (simp add: on_second_def Let_def)
  next
    case GoReset
    then show ?thesis using Cons.prems(3) by (simp add: governor_reset_def governor_ok_def config_ok_def)
  next
    case (GoReconfigure c)
    then have "config_ok c" using Cons.prems(1) by (simp add: configs_ok_def)
    then show ?thesis using GoReconfigure by (simp add: governor_reconfigure_def governor_reset_def governor_ok_def config_ok_def)
  qed
  moreover have "configs_ok ops" using Cons.prems(1) by (simp add: configs_ok_def)
  ultimately show ?case using Cons.IH by simp
qed simp

lemma fps_for_step_range: "fps_for_step c u n \<le> u" "min u (gc_minFps c) \<le> fps_for_step c u n"
  by (auto simp: fps_for_step_def min_def max_def)

text \<open>
  Whatever was sent and asked for, and through every reset and change of configuration, the governor
  keeps the ceiling of the quantiser between its base and its cap, never asks for more than the frame rate
  of the user nor less than that or its minimum, and has lowered the frame rate only while the ceiling is at
  its cap.
\<close>

theorem governor_ladder:
  fixes payloadBytes targetBps userFps
  assumes "config_ok c" and "configs_ok ops"
  defines "g \<equiv> fold governor_step ops (new_governor c)"
  defines "d \<equiv> fst (on_second payloadBytes targetBps userFps g)"
  shows "gc_baseQp (rg_config g) \<le> rd_maxQp d \<and> rd_maxQp d \<le> gc_capQp (rg_config g) \<and>
    rd_fps d \<le> userFps \<and> min userFps (gc_minFps (rg_config g)) \<le> rd_fps d \<and>
    (rd_fps d \<noteq> userFps \<longrightarrow> rd_maxQp d = gc_capQp (rg_config g))"
proof -
  have "governor_ok (new_governor c)" using assms(1) by (simp add: governor_ok_def new_governor_def config_ok_def)
  then have "governor_ok g" "config_ok (rg_config g)"
    using governor_run_ok [OF assms(2)] assms(1) by (simp_all add: g_def new_governor_def)
  then have ok: "governor_ok (governor_second payloadBytes targetBps userFps g)"
    "rg_config (governor_second payloadBytes targetBps userFps g) = rg_config g" using governor_second_ok by blast+
  have "fps_for_step (rg_config g) userFps 0 = userFps" by (simp add: fps_for_step_def)
  then show ?thesis using ok fps_for_step_range [where c = "rg_config g" and u = userFps]
    by (auto simp: d_def on_second_def Let_def governor_current_def governor_ok_def)
qed

section \<open>A stream that stays over its target\<close>

text \<open>A second whose payload is over the target by a quarter, at a usual frame rate.\<close>

definition over_second :: "u32 \<Rightarrow> governor_op \<Rightarrow> bool" where
  "over_second userFps op \<longleftrightarrow> (\<exists>b t. op = GoSecond b t userFps \<and> t \<noteq> 0 \<and> b \<le> 2 ^ 40 \<and> 125 < b * 8 * 100 div ucast t)"

definition governor_at :: "u32 \<Rightarrow> u32 \<Rightarrow> u32 \<Rightarrow> u32 \<Rightarrow> rate_governor \<Rightarrow> bool" where
  "governor_at q n over atCap g \<longleftrightarrow> rg_config g = default_governor_config \<and> rg_qp g = q \<and> rg_fpsStep g = n \<and>
     rg_over g = over \<and> rg_overAtCap g = atCap"

lemma usual_fps:
  assumes "30 \<le> u" "u \<le> 1000"
  shows "fps_for_step default_governor_config u 1 < u" "fps_for_step default_governor_config u 2 < fps_for_step default_governor_config u 1"
    "15 \<le> fps_for_step default_governor_config u 2"
proof -
  have b: "30 \<le> unat u" "unat u \<le> 1000" using assms by (simp_all add: word_le_nat_alt)
  then have "unat (u * 3 div 4) = unat u * 3 div 4" "unat (u div 2) = unat u div 2" by (simp_all add: unat_div unat_word_ariths)
  then show "fps_for_step default_governor_config u 1 < u"
    "fps_for_step default_governor_config u 2 < fps_for_step default_governor_config u 1"
    "15 \<le> fps_for_step default_governor_config u 2"
    using b by (auto simp: fps_for_step_def default_governor_config_def word_less_nat_alt word_le_nat_alt min_def max_def unat_gt_0)
qed

text \<open>What a higher rate would send is not under what is sent now.\<close>

lemma predicted_over:
  assumes "125 < (p :: u64)" "p \<le> 2 ^ 50" "cur \<le> nxt" "nxt \<le> 1000" "0 < (cur :: u32)"
  shows "\<not> p * ucast nxt div ucast cur < 90"
proof -
  have n: "unat nxt \<le> 1000" "unat cur \<le> unat nxt" "0 < unat cur" "125 < unat p" "unat p \<le> 2 ^ 50"
    using assms by (simp_all add: word_le_nat_alt word_less_nat_alt)
  have "unat p * unat nxt \<le> 2 ^ 50 * 1000" using n by (intro mult_le_mono)
  then have "unat (p * ucast nxt div ucast cur) = unat p * unat nxt div unat cur"
    by (simp add: unat_div unat_word_ariths unat_u32_u64)
  moreover have "unat p \<le> unat p * unat nxt div unat cur"
    using n by (simp add: less_eq_div_iff_mult_less_eq)
  ultimately show ?thesis using n by (simp add: word_less_nat_alt)
qed

lemma percent_bound: "b \<le> 2 ^ 40 \<Longrightarrow> b * 8 * 100 div ucast (t :: u32) \<le> (2 ^ 50 :: u64)"
proof -
  assume "b \<le> 2 ^ 40"
  then have n: "unat (b * 8 * 100) = unat b * 800" "unat b * 800 \<le> 2 ^ 50" by (simp_all add: word_le_nat_alt unat_word_ariths)
  have "unat (b * 8 * 100 div ucast t) = unat b * 800 div unat t" unfolding unat_div unat_u32_u64 n(1) ..
  also have "\<dots> \<le> unat b * 800" by (rule div_le_dividend)
  also have "\<dots> \<le> unat (2 ^ 50 :: u64)" using n(2) by simp
  finally show "b * 8 * 100 div ucast t \<le> (2 ^ 50 :: u64)" unfolding word_le_nat_alt .
qed

lemma default_config: "gc_baseQp default_governor_config = 32" "gc_capQp default_governor_config = 40"
  "gc_stepUpQp default_governor_config = 3" "gc_overPercent default_governor_config = 125"
  "gc_underPercent default_governor_config = 85" "gc_upAfterSec default_governor_config = 2"
  "gc_downAfterSec default_governor_config = 3" "gc_calmPercent default_governor_config = 40"
  "gc_fpsDownAfterSec default_governor_config = 3" "gc_fpsUpPercent default_governor_config = 90"
  "gc_fpsUpAfterSec default_governor_config = 5"
  by (simp_all add: default_governor_config_def)

lemma over_step:
  assumes op: "over_second u op" and u: "30 \<le> u" "u \<le> 1000" and at: "governor_at q n over atCap g"
    and n: "n = 0 \<or> q = 40" "n \<le> 2" "q \<le> 40"
  shows "governor_at (if q < 40 \<and> 2 \<le> over + 1 then min 40 (q + 3) else q)
    (if q = 40 \<and> 3 \<le> atCap + 1 \<and> n < 2 then n + 1 else n)
    (if q < 40 \<and> 2 \<le> over + 1 then 0 else over + 1)
    (if q = 40 \<and> \<not> (3 \<le> atCap + 1 \<and> n < 2) then atCap + 1 else 0) (governor_step op g)"
proof -
  obtain b t where b: "op = GoSecond b t u" "t \<noteq> 0" "b \<le> 2 ^ 40" "125 < b * 8 * 100 div ucast t" using op by (auto simp: over_second_def)
  define p where "p = b * 8 * 100 div ucast t"
  have p: "125 < p" "p \<le> 2 ^ 50" using b(4) percent_bound [OF b(3), of t] by (simp_all add: p_def)
  have not_calm: "\<not> p < 40" using p(1) by (simp add: word_less_nat_alt)
  define h where "h = count_second p g"
  have c: "rg_config g = default_governor_config" "rg_qp g = q" "rg_fpsStep g = n" "rg_over g = over" "rg_overAtCap g = atCap"
    using at by (simp_all add: governor_at_def)
  have h: "rg_config h = default_governor_config" "rg_qp h = q" "rg_fpsStep h = n" "rg_over h = over + 1" "rg_under h = 0"
    "rg_overAtCap h = (if 40 \<le> q then atCap + 1 else 0)"
    using p(1) c by (simp_all add: h_def count_second_def Let_def default_governor_config_def)
  have run: "governor_step op g = (if 2 \<le> over + 1 \<and> q < 40 then h\<lparr>rg_qp := min 40 (q + 3), rg_over := 0\<rparr>
      else if 3 \<le> rg_overAtCap h \<and> n < 2 \<and>
          fps_for_step default_governor_config u (n + 1) < fps_for_step default_governor_config u n then
        h\<lparr>rg_fpsStep := n + 1, rg_overAtCap := 0, rg_fpsOk := 0\<rparr>
      else governor_unwind p u h)"
    unfolding b(1) governor_step.simps on_second_def Let_def snd_conv governor_second_def p_def [symmetric] h_def [symmetric]
    using b(2) not_calm h c by (simp add: default_governor_config_def)
  have "unat n = 0 \<or> unat n = 1 \<or> unat n = 2" using n(2) by (auto simp: word_le_nat_alt)
  then have cases: "n = 0 \<or> n = 1 \<or> n = 2" by (auto simp: word_unat_eq_iff)
  have slower: "fps_for_step default_governor_config u (n + 1) < fps_for_step default_governor_config u n" if "n < 2"
    using cases that usual_fps [OF u] by (auto simp: fps_for_step_def [of _ _ 0])
  have pos: "0 < fps_for_step default_governor_config u n" if "n \<noteq> 0"
  proof -
    have "15 \<le> fps_for_step default_governor_config u n"
      using cases that usual_fps [OF u] by (auto simp: order_less_imp_le dest: order_trans)
    then show ?thesis by (auto simp: word_gt_0)
  qed
  have pred: "\<not> p * ucast (fps_for_step default_governor_config u (n - 1)) div ucast (fps_for_step default_governor_config u n) < 90"
    if "n \<noteq> 0"
  proof -
    have "fps_for_step default_governor_config u (n - 1) \<le> 1000" using fps_for_step_range(1) u(2) order_trans by blast
    moreover have "fps_for_step default_governor_config u n \<le> fps_for_step default_governor_config u (n - 1)"
      using cases that usual_fps [OF u] by (auto simp: fps_for_step_def [of _ _ 0] order_less_imp_le)
    ultimately show ?thesis using predicted_over [OF p] pos that by blast
  qed
  have stay: "rg_config (governor_unwind p u h) = default_governor_config" "rg_qp (governor_unwind p u h) = q"
      "rg_fpsStep (governor_unwind p u h) = n" "rg_over (governor_unwind p u h) = over + 1"
      "rg_overAtCap (governor_unwind p u h) = rg_overAtCap h"
    using h(1-5) pred pos by (cases "n = 0"; simp add: governor_unwind_def Let_def default_config word_gt_0)+
  consider (up) "q < 40" "2 \<le> over + 1" | (count) "q < 40" "\<not> 2 \<le> over + 1"
    | (slow) "q = 40" "3 \<le> atCap + 1" "n < 2" | (bottom) "q = 40" "\<not> (3 \<le> atCap + 1 \<and> n < 2)"
    using n(3) by (metis order_le_less)
  then show ?thesis
  proof cases
    case up
    then have "governor_step op g = h\<lparr>rg_qp := min 40 (q + 3), rg_over := 0\<rparr>" using run by simp
    moreover have "\<not> 40 \<le> q" "q \<noteq> 40" using up(1) by (auto simp: not_le)
    ultimately show ?thesis using up h by (simp add: governor_at_def)
  next
    case count
    then have "governor_step op g = governor_unwind p u h" using run h(6) by (simp add: not_le)
    moreover have "\<not> 40 \<le> q" "q \<noteq> 40" using count(1) by (auto simp: not_le)
    ultimately show ?thesis using count stay h(6) by (simp add: governor_at_def)
  next
    case slow
    then have "governor_step op g = h\<lparr>rg_fpsStep := n + 1, rg_overAtCap := 0, rg_fpsOk := 0\<rparr>" using run h(6) slower by simp
    then show ?thesis using slow h by (simp add: governor_at_def)
  next
    case bottom
    then have "governor_step op g = governor_unwind p u h" using run h(6) by auto
    then show ?thesis using bottom stay h(6) by (auto simp: governor_at_def)
  qed
qed

lemma bottom_stays: "list_all (over_second u) ops \<Longrightarrow> 30 \<le> u \<Longrightarrow> u \<le> 1000 \<Longrightarrow> governor_at 40 2 over atCap g \<Longrightarrow>
    \<exists>over atCap. governor_at 40 2 over atCap (fold governor_step ops g)"
proof (induction ops arbitrary: over atCap g)
  case (Cons op ops)
  have "\<exists>over atCap. governor_at 40 2 over atCap (governor_step op g)"
    using over_step [of u op 40 2 over atCap g] Cons.prems by simp (meson)
  then show ?case using Cons by fastforce
qed auto

text \<open>The way down from rest, second by second.\<close>

lemma twelve_seconds:
  assumes "list_all (over_second u) [a, b, c, d, e, f, a', b', c', d', e', f']" and u: "30 \<le> u" "u \<le> 1000"
    and "governor_at 32 0 0 0 g"
  shows "governor_at 40 2 6 0 (fold governor_step [a, b, c, d, e, f, a', b', c', d', e', f'] g)"
proof -
  have small: "\<not> 2 \<le> (1 :: u32)" "\<not> 3 \<le> (1 :: u32)" by (simp_all add: word_le_nat_alt)
  have over: "over_second u x" if "x \<in> {a, b, c, d, e, f, a', b', c', d', e', f'}" for x using assms(1) that by auto
  have "governor_at 32 0 1 0 (governor_step a g)" using over_step [OF over u assms(4), of a] by (simp add: small)
  from over_step [OF over u this, of b] have "governor_at 35 0 0 0 (governor_step b (governor_step a g))" by (simp add: small)
  from over_step [OF over u this, of c] have "governor_at 35 0 1 0 (fold governor_step [a, b, c] g)" by (simp add: small)
  from over_step [OF over u this, of d] have "governor_at 38 0 0 0 (fold governor_step [a, b, c, d] g)" by (simp add: small)
  from over_step [OF over u this, of e] have "governor_at 38 0 1 0 (fold governor_step [a, b, c, d, e] g)" by (simp add: small)
  from over_step [OF over u this, of f] have "governor_at 40 0 0 0 (fold governor_step [a, b, c, d, e, f] g)" by (simp add: small)
  from over_step [OF over u this, of a'] have "governor_at 40 0 1 1 (fold governor_step [a, b, c, d, e, f, a'] g)" by (simp add: small)
  from over_step [OF over u this, of b'] have "governor_at 40 0 2 2 (fold governor_step [a, b, c, d, e, f, a', b'] g)" by (simp add: small)
  from over_step [OF over u this, of c'] have "governor_at 40 1 3 0 (fold governor_step [a, b, c, d, e, f, a', b', c'] g)" by (simp add: small)
  from over_step [OF over u this, of d'] have "governor_at 40 1 4 1 (fold governor_step [a, b, c, d, e, f, a', b', c', d'] g)" by (simp add: small)
  from over_step [OF over u this, of e'] have "governor_at 40 1 5 2 (fold governor_step [a, b, c, d, e, f, a', b', c', d', e'] g)" by (simp add: small)
  from over_step [OF over u this, of f'] show ?thesis by (simp add: small)
qed


section \<open>Why a profile changes\<close>

type_synonym abr_moment = "abr_inputs \<times> u64 \<times> bool \<times> bool"

fun abr_tick :: "abr_moment \<Rightarrow> rate_control \<Rightarrow> rate_control" where
  "abr_tick (i, t, accepted, reduced) rc = abr_second i t accepted reduced rc"

text \<open>The verdicts of the seconds of a run, severe and moderate, the newest first.\<close>

fun verdicts :: "abr_moment list \<Rightarrow> rate_control \<Rightarrow> (bool \<times> bool) list" where
  "verdicts [] rc = []"
| "verdicts ((i, t, accepted, reduced) # ticks) rc =
    verdicts ticks (abr_second i t accepted reduced rc) @ [(severe_down rc i t, moderate_down rc i t)]"

definition run_of :: "('a \<Rightarrow> bool) \<Rightarrow> 'a list \<Rightarrow> nat" where
  "run_of P vs = length (takeWhile P vs)"

text \<open>The instants at which the profile changed.\<close>

fun change_times :: "abr_moment list \<Rightarrow> rate_control \<Rightarrow> nat list" where
  "change_times [] rc = []"
| "change_times ((i, t, accepted, reduced) # ticks) rc =
    (let rc' = abr_second i t accepted reduced rc in
     (if rc_abrProfile rc' \<noteq> rc_abrProfile rc then [unat t] else []) @ change_times ticks rc')"

definition profile_ok :: "rate_control \<Rightarrow> bool" where
  "profile_ok rc \<longleftrightarrow> rc_abrProfile rc \<in> {0, 1, 2} \<and> (rc_abrProfile rc = 1 \<longrightarrow> rc_abrHasMidProfile rc) \<and>
     (rc_abrProfile rc = 2 \<longrightarrow> rc_abrHasLowProfile rc)"

lemma either_keeps [simp]: "either (rc\<lparr>rc_abrSparseRecoverySeconds := n\<rparr>) = either rc" "either (count_pressure i t rc) = either rc"
  by (auto simp: either_def fun_eq_iff count_pressure_def)

text \<open>What is chosen, by the profile it is chosen from.\<close>

lemma chosen_down:
  assumes "choose_profile emergency i rc = ((target, reason), rc')" "rc_abrProfile rc < target" "profile_ok rc"
  shows "\<not> host_offer_sparse i \<and> target \<in> {1, 2} \<and> (target = 1 \<longrightarrow> rc_abrHasMidProfile rc) \<and> (target = 2 \<longrightarrow> rc_abrHasLowProfile rc) \<and>
    (emergency \<or>
     either rc (if rc_abrProfile rc = 0 then 3 else 4) (if rc_abrProfile rc = 0 then 2 else 3) \<le> rc_abrSeverePressureSeconds rc \<or>
     either rc (if rc_abrProfile rc = 0 then 6 else 8) (if rc_abrProfile rc = 0 then 4 else 5) \<le> rc_abrModeratePressureSeconds rc)"
  using assms
  by (auto simp: choose_profile_def sparse_choice_def high_choice_def mid_choice_def low_choice_def Let_def profile_ok_def split: if_splits)

lemma chosen_keeps:
  assumes "choose_profile emergency i rc = ((target, reason), rc')" "profile_ok rc"
  shows "rc_abrSeverePressureSeconds rc' = rc_abrSeverePressureSeconds rc" "rc_abrModeratePressureSeconds rc' = rc_abrModeratePressureSeconds rc"
    "rc_abrProfile rc' = rc_abrProfile rc" "rc_abrHasMidProfile rc' = rc_abrHasMidProfile rc" "rc_abrHasLowProfile rc' = rc_abrHasLowProfile rc"
    "rc_abrCooldownUntilUs rc' = rc_abrCooldownUntilUs rc" "rc_abrQualityFirst rc' = rc_abrQualityFirst rc"
    "target \<in> {0, 1, 2}" "target = 1 \<Longrightarrow> rc_abrHasMidProfile rc" "target = 2 \<Longrightarrow> rc_abrHasLowProfile rc"
  using assms
  by (auto simp: choose_profile_def sparse_choice_def high_choice_def mid_choice_def low_choice_def Let_def profile_ok_def split: if_splits)

lemma count_pressure_keeps [simp]: "rc_abrProfile (count_pressure i t rc) = rc_abrProfile rc"
  "rc_abrHasMidProfile (count_pressure i t rc) = rc_abrHasMidProfile rc" "rc_abrHasLowProfile (count_pressure i t rc) = rc_abrHasLowProfile rc"
  "rc_abrCooldownUntilUs (count_pressure i t rc) = rc_abrCooldownUntilUs rc" "rc_abrQualityFirst (count_pressure i t rc) = rc_abrQualityFirst rc"
  "profile_ok (count_pressure i t rc) = profile_ok rc"
  by (simp_all add: count_pressure_def profile_ok_def)

text \<open>The counters never exceed the run of verdicts they count, and the configuration stays.\<close>

definition counts_ok :: "rate_control \<Rightarrow> (bool \<times> bool) list \<Rightarrow> rate_control \<Rightarrow> bool" where
  "counts_ok start vs rc \<longleftrightarrow> profile_ok rc \<and> rc_abrQualityFirst rc = rc_abrQualityFirst start \<and>
     rc_abrHasMidProfile rc = rc_abrHasMidProfile start \<and> rc_abrHasLowProfile rc = rc_abrHasLowProfile start \<and>
     unat (rc_abrSeverePressureSeconds rc) \<le> run_of fst vs \<and> unat (rc_abrModeratePressureSeconds rc) \<le> run_of snd vs"

lemma unat_Suc_le: "unat (n :: u32) \<le> k \<Longrightarrow> unat (n + 1) \<le> Suc k"
  by (auto simp: unat_word_ariths intro: order_trans [OF mod_less_eq_dividend])

lemma run_of_Cons [simp]: "run_of P (v # vs) = (if P v then Suc (run_of P vs) else 0)"
  by (simp add: run_of_def)

lemma count_pressure_ok: "counts_ok start vs rc \<Longrightarrow> counts_ok start ((severe_down rc i t, moderate_down rc i t) # vs) (count_pressure i t rc)"
  using unat_Suc_le by (auto simp: counts_ok_def count_pressure_def profile_ok_def)

lemma decide_ok:
  assumes "counts_ok start vs rc" "decide_abr_profile i t rc = ((target, reason), rc')"
  defines "vs' \<equiv> (severe_down rc i t, moderate_down rc i t) # vs"
  shows "counts_ok start vs' rc'" "target \<in> {0, 1, 2}" "target = 1 \<Longrightarrow> rc_abrHasMidProfile start" "target = 2 \<Longrightarrow> rc_abrHasLowProfile start"
    "rc_abrProfile rc' = rc_abrProfile rc" "rc_abrCooldownUntilUs rc' = rc_abrCooldownUntilUs rc"
    "target \<noteq> rc_abrProfile rc \<Longrightarrow> rc_abrCooldownUntilUs rc \<le> t"
    "rc_abrProfile rc < target \<Longrightarrow> \<not> host_offer_sparse i \<and> (emergency_down rc i t \<or>
      either start (if rc_abrProfile rc = 0 then 3 else 4) (if rc_abrProfile rc = 0 then 2 else 3) \<le> run_of fst vs' \<or>
      either start (if rc_abrProfile rc = 0 then 6 else 8) (if rc_abrProfile rc = 0 then 4 else 5) \<le> run_of snd vs')"
proof -
  define rc1 where "rc1 = count_pressure i t rc"
  have ok1: "counts_ok start vs' rc1" unfolding vs'_def rc1_def by (rule count_pressure_ok [OF assms(1)])
  have fits: "profile_ok rc1" "profile_ok rc" using ok1 assms(1) by (simp_all add: counts_ok_def)
  have e: "either rc1 = either start" "\<And>a b. unat (either start a b :: u32) = either start (unat a) (unat b)"
    using ok1 by (auto simp: either_def fun_eq_iff counts_ok_def)
  consider (held) "\<not> rc_abrCooldownUntilUs rc \<le> t" "target = rc_abrProfile rc" "rc' = rc1"
    | (chosen) "rc_abrCooldownUntilUs rc \<le> t" "choose_profile (emergency_down rc i t) i rc1 = ((target, reason), rc')"
    using assms(2) by (auto simp: decide_abr_profile_def Let_def rc1_def split: if_splits)
  then have "counts_ok start vs' rc' \<and> target \<in> {0, 1, 2} \<and> (target = 1 \<longrightarrow> rc_abrHasMidProfile start) \<and> (target = 2 \<longrightarrow> rc_abrHasLowProfile start) \<and>
    rc_abrProfile rc' = rc_abrProfile rc \<and> rc_abrCooldownUntilUs rc' = rc_abrCooldownUntilUs rc \<and>
    (target \<noteq> rc_abrProfile rc \<longrightarrow> rc_abrCooldownUntilUs rc \<le> t) \<and>
    (rc_abrProfile rc < target \<longrightarrow> \<not> host_offer_sparse i \<and> (emergency_down rc i t \<or>
      either start (if rc_abrProfile rc = 0 then 3 else 4) (if rc_abrProfile rc = 0 then 2 else 3) \<le> run_of fst vs' \<or>
      either start (if rc_abrProfile rc = 0 then 6 else 8) (if rc_abrProfile rc = 0 then 4 else 5) \<le> run_of snd vs'))"
  proof cases
    case held
    then show ?thesis using ok1 fits by (auto simp: counts_ok_def profile_ok_def rc1_def)
  next
    case chosen
    note k = chosen_keeps [OF chosen(2) fits(1)]
    have same: "rc_abrProfile rc1 = rc_abrProfile rc" "rc_abrCooldownUntilUs rc1 = rc_abrCooldownUntilUs rc" by (simp_all add: rc1_def)
    have counts: "counts_ok start vs' rc'" using ok1 k by (auto simp: counts_ok_def profile_ok_def)
    have u: "unat (rc_abrSeverePressureSeconds rc1) \<le> run_of fst vs'" "unat (rc_abrModeratePressureSeconds rc1) \<le> run_of snd vs'"
      using ok1 by (simp_all add: counts_ok_def)
    have down: "\<not> host_offer_sparse i \<and> (emergency_down rc i t \<or>
      either start (if rc_abrProfile rc = 0 then 3 else 4) (if rc_abrProfile rc = 0 then 2 else 3) \<le> run_of fst vs' \<or>
      either start (if rc_abrProfile rc = 0 then 6 else 8) (if rc_abrProfile rc = 0 then 4 else 5) \<le> run_of snd vs')"
      if "rc_abrProfile rc < target"
      using chosen_down [OF chosen(2) _ fits(1)] that u unfolding same e(1) word_le_nat_alt e(2)
      by (auto split: if_splits)
    show ?thesis using counts k chosen(1) down same ok1 by (auto simp: counts_ok_def)
  qed
  then show "counts_ok start vs' rc'" "target \<in> {0, 1, 2}" "target = 1 \<Longrightarrow> rc_abrHasMidProfile start" "target = 2 \<Longrightarrow> rc_abrHasLowProfile start"
    "rc_abrProfile rc' = rc_abrProfile rc" "rc_abrCooldownUntilUs rc' = rc_abrCooldownUntilUs rc"
    "target \<noteq> rc_abrProfile rc \<Longrightarrow> rc_abrCooldownUntilUs rc \<le> t"
    "rc_abrProfile rc < target \<Longrightarrow> \<not> host_offer_sparse i \<and> (emergency_down rc i t \<or>
      either start (if rc_abrProfile rc = 0 then 3 else 4) (if rc_abrProfile rc = 0 then 2 else 3) \<le> run_of fst vs' \<or>
      either start (if rc_abrProfile rc = 0 then 6 else 8) (if rc_abrProfile rc = 0 then 4 else 5) \<le> run_of snd vs')"
    by blast+
qed

text \<open>A second of a run, with what is remembered of the last change.\<close>

lemma abr_second_ok:
  fixes i t accepted reduced
  assumes "counts_ok start vs rc"
  defines "rc' \<equiv> abr_second i t accepted reduced rc" and "vs' \<equiv> (severe_down rc i t, moderate_down rc i t) # vs"
  shows "counts_ok start vs' rc'"
    "rc_abrProfile rc' \<noteq> rc_abrProfile rc \<Longrightarrow> rc_abrCooldownUntilUs rc \<le> t \<and> rc_abrCooldownUntilUs rc' = t + 4000000"
    "rc_abrProfile rc' = rc_abrProfile rc \<Longrightarrow> rc_abrCooldownUntilUs rc' = rc_abrCooldownUntilUs rc"
    "rc_abrProfile rc < rc_abrProfile rc' \<Longrightarrow> \<not> host_offer_sparse i \<and> (emergency_down rc i t \<or>
      either start (if rc_abrProfile rc = 0 then 3 else 4) (if rc_abrProfile rc = 0 then 2 else 3) \<le> run_of fst vs' \<or>
      either start (if rc_abrProfile rc = 0 then 6 else 8) (if rc_abrProfile rc = 0 then 4 else 5) \<le> run_of snd vs')"
proof -
  obtain target reason rc1 where d: "decide_abr_profile i t rc = ((target, reason), rc1)" by (metis surj_pair)
  note ok = decide_ok [OF assms(1) d, folded vs'_def]
  have run: "rc' = (if target \<noteq> rc_abrProfile rc \<and> accepted then commit_abr_profile target reduced t rc1 else rc1)"
    using ok(5) by (simp add: rc'_def abr_second_def d)
  have c: "counts_ok start vs' (commit_abr_profile target reduced t rc1)"
    using ok(1-4) by (auto simp: counts_ok_def commit_abr_profile_def profile_ok_def)
  have p: "rc_abrProfile (commit_abr_profile target reduced t rc1) = target"
    "rc_abrCooldownUntilUs (commit_abr_profile target reduced t rc1) = t + 4000000" by (simp_all add: commit_abr_profile_def)
  show "counts_ok start vs' rc'" using ok(1) c by (simp add: run)
  show "rc_abrProfile rc' \<noteq> rc_abrProfile rc \<Longrightarrow> rc_abrCooldownUntilUs rc \<le> t \<and> rc_abrCooldownUntilUs rc' = t + 4000000"
    using ok(5,7) p by (auto simp: run split: if_splits)
  show "rc_abrProfile rc' = rc_abrProfile rc \<Longrightarrow> rc_abrCooldownUntilUs rc' = rc_abrCooldownUntilUs rc"
    using ok(6) p by (auto simp: run split: if_splits)
  show "rc_abrProfile rc < rc_abrProfile rc' \<Longrightarrow> \<not> host_offer_sparse i \<and> (emergency_down rc i t \<or>
      either start (if rc_abrProfile rc = 0 then 3 else 4) (if rc_abrProfile rc = 0 then 2 else 3) \<le> run_of fst vs' \<or>
      either start (if rc_abrProfile rc = 0 then 6 else 8) (if rc_abrProfile rc = 0 then 4 else 5) \<le> run_of snd vs')"
    using ok(5,8) p by (auto simp: run split: if_splits)
qed

lemma verdicts_snoc: "verdicts (ticks @ [(i, t, accepted, reduced)]) rc =
    (severe_down (fold abr_tick ticks rc) i t, moderate_down (fold abr_tick ticks rc) i t) # verdicts ticks rc"
  by (induction ticks arbitrary: rc) auto

lemma run_counts_ok: "counts_ok start [] start \<Longrightarrow> counts_ok start (verdicts ticks start) (fold abr_tick ticks start)"
proof (induction ticks rule: rev_induct)
  case (snoc x ticks)
  then show ?case using abr_second_ok(1) by (cases x) (simp add: verdicts_snoc)
qed simp

lemma change_times_apart:
  assumes "\<forall>(i, t, a, r)\<in>set ticks. unat t < 2 ^ 63" "counts_ok start vs rc"
  shows "sorted_wrt (\<lambda>a b. a + 4000000 \<le> b) (change_times ticks rc) \<and> (\<forall>u\<in>set (change_times ticks rc). unat (rc_abrCooldownUntilUs rc) \<le> u)"
  using assms
proof (induction ticks arbitrary: rc vs)
  case (Cons x ticks)
  obtain i t accepted reduced where x: "x = (i, t, accepted, reduced)" by (metis prod_cases4)
  define rc' where "rc' = abr_second i t accepted reduced rc"
  note ok = abr_second_ok [OF Cons.prems(2), of i t accepted reduced, folded rc'_def]
  have ih: "sorted_wrt (\<lambda>a b. a + 4000000 \<le> b) (change_times ticks rc')" "\<forall>u\<in>set (change_times ticks rc'). unat (rc_abrCooldownUntilUs rc') \<le> u"
    using Cons.IH [OF _ ok(1)] Cons.prems(1) by auto
  have far: "unat (t + 4000000) = unat t + 4000000" using Cons.prems(1) by (simp add: x unat_word_ariths)
  show ?case
  proof (cases "rc_abrProfile rc' = rc_abrProfile rc")
    case True
    then show ?thesis using ih ok(3) by (simp add: x rc'_def Let_def)
  next
    case False
    then show ?thesis using ih ok(2) far by (auto simp: x rc'_def [symmetric] Let_def word_le_nat_alt)
  qed
qed simp


text \<open>The M9 level stays one of four, moves one level at a time, and keeps its cooldown.\<close>

lemma m9_second_step:
  assumes "mc_level m \<in> {0..3}"
  shows "mc_level (m9_second i t accepted m) \<in> {0..3} \<and> \<bar>mc_level (m9_second i t accepted m) - mc_level m\<bar> \<le> 1 \<and>
    (mc_level (m9_second i t accepted m) \<noteq> mc_level m \<longrightarrow> mc_cooldownUntilUs m \<le> t \<and>
      mc_cooldownUntilUs (m9_second i t accepted m) = t + ucast (mc_cooldownSec m) * 1000000)"
  using assms by (auto simp: m9_second_def decide_m9_level_def Let_def commit_m9_level_def)

lemma m9_down_needs_pressure:
  "mc_level m < mc_level (m9_second i t accepted m) \<Longrightarrow> m9_down_pressure m i \<and> mc_downRequireSec m \<le> mc_downPressureSeconds m + 1"
  by (auto simp: m9_second_def decide_m9_level_def Let_def commit_m9_level_def split: if_splits)

section \<open>Runs\<close>

definition over_example :: governor_op where
  "over_example = GoSecond 2000000 3000000 60"

lemma over_example_over: "over_second 60 over_example"
  by (simp add: over_second_def over_example_def)


theorem governor_ladder_witness:
  "rd_fps (fst (on_second 2000000 3000000 60 (fold governor_step (replicate 12 over_example) (new_governor default_governor_config)))) \<le> 60"
proof -
  have "config_ok default_governor_config" by (simp add: config_ok_def default_governor_config_def)
  moreover have "configs_ok (replicate 12 over_example)" by (simp add: configs_ok_def over_example_def)
  ultimately show ?thesis
    using governor_ladder [where payloadBytes = 2000000 and targetBps = 3000000 and userFps = 60] by blast
qed

definition abr_start :: rate_control where
  "abr_start = \<lparr>rc_abrQualityFirst = False, rc_textPriorityEnabled = True, rc_encodeLadderReduced = False, rc_abrHasMidProfile = True,
     rc_abrHasLowProfile = True, rc_userFpsCeiling = 60, rc_abrProfile = 0, rc_abrCooldownUntilUs = 0, rc_abrGoodSeconds = 0,
     rc_abrSparseRecoverySeconds = 0, rc_abrStaleActiveSeconds = 0, rc_abrModeratePressureSeconds = 0, rc_abrSeverePressureSeconds = 0\<rparr>"

definition severe_inputs :: abr_inputs where
  "severe_inputs = \<lparr>ai_metricsFresh = True, ai_clDecodedFpsX100 = 6000, ai_clAvgLatencyUs = 160000, ai_clAvgDecodeTailUs = 20000,
     ai_cb2eAvgUs = 5000, ai_sentFrames = 60, ai_staticMode = False, ai_activeFps = 60, ai_startUs = 0, ai_clUdpDropPm = 0,
     ai_clientEverReported = True, ai_clientDecodeReported = True\<rparr>"

lemmas abr_eval = abr_second_def decide_abr_profile_def choose_profile_def high_choice_def count_pressure_def commit_abr_profile_def
  severe_down_def moderate_down_def emergency_down_def warmup_done_def host_offer_sparse_def severe_by_client_def severe_by_host_def
  moderate_by_client_def moderate_by_host_def emergency_by_client_def client_decode_valid_def stale_congestion_def stale_seconds_def
  moderate_latency_def moderate_tail_def expected_fps_def either_def Let_def abr_start_def severe_inputs_def

definition one_severe :: rate_control where
  "one_severe = abr_start\<lparr>rc_abrSeverePressureSeconds := 1, rc_abrModeratePressureSeconds := 1\<rparr>"

lemma first_severe: "abr_second severe_inputs 5000000 True False abr_start = one_severe"
  by (simp add: abr_eval one_severe_def word_le_nat_alt word_less_nat_alt)

lemma second_severe: "rc_abrProfile (abr_second severe_inputs 6000000 True False one_severe) = 1"
  by (simp add: abr_eval one_severe_def word_le_nat_alt word_less_nat_alt)

lemma no_emergency: "\<not> emergency_down one_severe severe_inputs 6000000"
  by (simp add: abr_eval one_severe_def word_less_nat_alt)


end
