(* ===== verification/BulkRate.thy ===== *)
theory BulkRate
  imports Prelude
begin

text \<open>
  How fast the bulk channel may send, and who may use it: \<open>BulkRttEstimator\<close>, \<open>BulkLossCounter\<close> and
  \<open>BulkRateController\<close> of \<open>bulk_rate_controller.hpp\<close>, and \<open>BulkArbiter\<close> of \<open>bulk_arbiter.hpp\<close>. Clocks, rates
  and counts are words of their width. Accessors and the mutex of the arbiter are left out.
\<close>

section \<open>The round trip\<close>

text \<open>The last four samples in the ring they are kept in, the smoothed value and a spike held back.\<close>

record rtt_estimator =
  re_recent :: "u64 list"
  re_recentNext :: nat
  re_recentCount :: nat
  re_srttUs :: u64
  re_heldSpikeUs :: u64

definition kRecent :: nat where "kRecent = 4"

definition new_rtt_estimator :: rtt_estimator where
  "new_rtt_estimator = \<lparr>re_recent = replicate kRecent 0, re_recentNext = 0, re_recentCount = 0, re_srttUs = 0, re_heldSpikeUs = 0\<rparr>"

definition keep_recent :: "u64 \<Rightarrow> rtt_estimator \<Rightarrow> rtt_estimator" where
  "keep_recent rttUs e = e\<lparr>re_recent := (re_recent e)[re_recentNext e := rttUs],
     re_recentNext := (re_recentNext e + 1) mod kRecent,
     re_recentCount := (if re_recentCount e < kRecent then re_recentCount e + 1 else re_recentCount e)\<rparr>"

definition smooth :: "u64 \<Rightarrow> rtt_estimator \<Rightarrow> rtt_estimator" where
  "smooth rttUs e = e\<lparr>re_srttUs := (if re_srttUs e \<noteq> 0 then (re_srttUs e * 7 + rttUs) div 8 else rttUs)\<rparr>"

definition on_sample :: "u64 \<Rightarrow> u64 \<Rightarrow> u64 \<Rightarrow> bool \<Rightarrow> bool \<Rightarrow> rtt_estimator \<Rightarrow> bool \<times> rtt_estimator" where
  "on_sample rttUs sinceLastPullUs chunkSendUs resent duplicate e =
    (if resent \<or> duplicate \<or> rttUs = 0 then (False, e)
     else if sinceLastPullUs \<noteq> 0 \<and> sinceLastPullUs < max 1000 (chunkSendUs div 4) then (False, e)
     else let e = keep_recent rttUs e in
       if re_srttUs e \<noteq> 0 \<and> max (re_srttUs e * 2) (re_srttUs e + 100000) < rttUs then
         (if re_heldSpikeUs e = 0 then (False, e\<lparr>re_heldSpikeUs := rttUs\<rparr>)
          else let held = re_heldSpikeUs e; e = e\<lparr>re_heldSpikeUs := 0\<rparr> in
            if sinceLastPullUs \<noteq> 0 \<and> sinceLastPullUs < re_srttUs e * 3 div 2 \<and> rttUs < held then (False, e)
            else (True, smooth rttUs (e\<lparr>re_srttUs := (re_srttUs e * 7 + held) div 8\<rparr>)))
       else (True, smooth rttUs (e\<lparr>re_heldSpikeUs := 0\<rparr>)))"

definition current_us :: "rtt_estimator \<Rightarrow> u64" where
  "current_us e = fold (\<lambda>x m. if m \<noteq> 0 then min m x else x) (take (re_recentCount e) (re_recent e)) 0"

section \<open>The loss\<close>

datatype resend_kind = NewLoss | RepeatResend | AckLost

record loss_window =
  lw_sent :: u32
  lw_lost :: u32
  lw_rto :: u32

text \<open>The ordered set of keys as the list of its elements, smallest first, and the map by sequence number likewise.\<close>

record loss_counter =
  lc_win :: loss_window
  lc_keys :: "u64 list"
  lc_fragsPerSeq :: "(u32 \<times> u32) list"
  lc_ackLost :: u64
  lc_repeats :: u64

definition no_losses :: loss_window where "no_losses = \<lparr>lw_sent = 0, lw_lost = 0, lw_rto = 0\<rparr>"

definition new_loss_counter :: loss_counter where
  "new_loss_counter = \<lparr>lc_win = no_losses, lc_keys = [], lc_fragsPerSeq = [], lc_ackLost = 0, lc_repeats = 0\<rparr>"

definition on_original :: "loss_counter \<Rightarrow> loss_counter" where
  "on_original c = c\<lparr>lc_win := (lc_win c)\<lparr>lw_sent := lw_sent (lc_win c) + 1\<rparr>\<rparr>"

definition loss_key :: "u32 \<Rightarrow> u16 \<Rightarrow> u64" where
  "loss_key seq fragIndex = push_bit 16 (ucast seq) OR ucast fragIndex"

text \<open>\<open>++fragsPerSeq_[seq]\<close>: the count, and the map with it in its place.\<close>

fun count_fragment :: "u32 \<Rightarrow> (u32 \<times> u32) list \<Rightarrow> u32 \<times> (u32 \<times> u32) list" where
  "count_fragment seq [] = (1, [(seq, 1)])"
| "count_fragment seq ((s, n) # m) =
    (if seq = s then (n + 1, (s, n + 1) # m)
     else if seq < s then (1, (seq, 1) # (s, n) # m)
     else let (k, m') = count_fragment seq m in (k, (s, n) # m'))"

definition on_resend :: "u32 \<Rightarrow> u16 \<Rightarrow> u16 \<Rightarrow> bool \<Rightarrow> loss_counter \<Rightarrow> resend_kind \<times> loss_counter" where
  "on_resend seq fragIndex fragCount chunkConfirmed c =
    (if chunkConfirmed then (AckLost, c\<lparr>lc_ackLost := lc_ackLost c + 1\<rparr>)
     else if loss_key seq fragIndex \<in> set (lc_keys c) then (RepeatResend, c\<lparr>lc_repeats := lc_repeats c + 1\<rparr>)
     else let keys = insort (loss_key seq fragIndex) (lc_keys c); (n, m) = count_fragment seq (lc_fragsPerSeq c);
              w = (lc_win c)\<lparr>lw_lost := lw_lost (lc_win c) + 1\<rparr>;
              w = (if n = ucast fragCount then w\<lparr>lw_rto := lw_rto w + 1\<rparr> else w) in
       (NewLoss, c\<lparr>lc_win := w, lc_fragsPerSeq := drop (length m - 64) m,
          lc_keys := (if 4096 < length keys then tl keys else keys)\<rparr>))"

definition take_window :: "loss_counter \<Rightarrow> loss_window \<times> loss_counter" where
  "take_window c = (lc_win c, c\<lparr>lc_win := no_losses\<rparr>)"

section \<open>The configuration and the evidence\<close>

datatype eval_unit = WallClock | AckRound

record bulk_config =
  bc_startBps :: u32
  bc_capBps :: u32
  bc_floorBps :: u32
  bc_probeBps :: u32
  bc_slowStartNumerator :: u32
  bc_slowStartDenominator :: u32
  bc_caPercentPerSec :: u32
  bc_evalUnit :: eval_unit
  bc_evalWindowUs :: u64
  bc_ackRoundsPerEval :: u32
  bc_minEvalIntervalUs :: u64
  bc_rttRiseAbsUs :: u64
  bc_weakRisePercent :: u32
  bc_weakRiseAbsUs :: u64
  bc_pullRaiseAbsUs :: u64
  bc_rttUpSlackUs :: u64
  bc_lossHighPerMille :: u32
  bc_lossHorizonFragments :: u32
  bc_lossMinSamples :: u32
  bc_lossHorizonMaxUs :: u64
  bc_headroomPercent :: u32
  bc_plateauRetryUs :: u64
  bc_pauseAfterDecreases :: u32
  bc_pauseUs :: u64
  bc_probeUs :: u64

definition default_bulk_config :: bulk_config where
  "default_bulk_config = \<lparr>bc_startBps = 256000, bc_capBps = 16000000, bc_floorBps = 64000, bc_probeBps = 64000,
     bc_slowStartNumerator = 2, bc_slowStartDenominator = 1, bc_caPercentPerSec = 25, bc_evalUnit = AckRound,
     bc_evalWindowUs = 2000000, bc_ackRoundsPerEval = 1, bc_minEvalIntervalUs = 100000, bc_rttRiseAbsUs = 50000,
     bc_weakRisePercent = 125, bc_weakRiseAbsUs = 10000, bc_pullRaiseAbsUs = 15000, bc_rttUpSlackUs = 30000,
     bc_lossHighPerMille = 50, bc_lossHorizonFragments = 500, bc_lossMinSamples = 300, bc_lossHorizonMaxUs = 10000000,
     bc_headroomPercent = 10, bc_plateauRetryUs = 5000000, bc_pauseAfterDecreases = 3, bc_pauseUs = 2000000,
     bc_probeUs = 1000000\<rparr>"

record bulk_window =
  bw_lossEvents :: u32
  bw_pullRttP50Us :: u64
  bw_pullSrttUs :: u64
  bw_pullCurrentUs :: u64
  bw_pingRttUs :: u64
  bw_deliveredBps :: u64
  bw_uniqueFragmentsSent :: u32
  bw_uniqueFragmentsLost :: u32
  bw_rtoEvents :: u32
  bw_rttSamples :: u32
  bw_goodputBps :: u64
  bw_workPending :: bool
  bw_yielded :: bool

datatype bulk_action = BulkHold | BulkRaise | BulkLower | BulkPause | BulkProbe
datatype loss_state = LossUnknown | LossLow | LossHigh

record horizon_entry =
  he_atUs :: u64
  he_sent :: u64
  he_lost :: u64

record rate_controller =
  br_c :: bulk_config
  br_rate :: u32
  br_slowStart :: bool
  br_caBaseBps :: u32
  br_haveDecreased :: bool
  br_recoveryEndRound :: u64
  br_basePullRttUs :: u64
  br_basePingRttUs :: u64
  br_decreases :: u32
  br_pauseUntilUs :: u64
  br_probeUntilUs :: u64
  br_lastEvalUs :: u64
  br_lastEvalRounds :: u64
  br_lastRaiseClockUs :: u64
  br_horizon :: "horizon_entry list"
  br_lossState :: loss_state
  br_justRaised :: bool
  br_settleWindows :: u32
  br_preRaiseGoodputBps :: u64
  br_plateau :: bool
  br_plateauGoodputBps :: u64
  br_plateauSinceUs :: u64
  br_goodputEwma :: u64
  br_lastCause :: u32

definition new_rate_controller :: "bulk_config \<Rightarrow> rate_controller" where
  "new_rate_controller c = \<lparr>br_c = c, br_rate = bc_startBps c, br_slowStart = True, br_caBaseBps = 0, br_haveDecreased = False,
     br_recoveryEndRound = 0, br_basePullRttUs = 0, br_basePingRttUs = 0, br_decreases = 0, br_pauseUntilUs = 0, br_probeUntilUs = 0,
     br_lastEvalUs = 0, br_lastEvalRounds = 0, br_lastRaiseClockUs = 0, br_horizon = [], br_lossState = LossUnknown,
     br_justRaised = False, br_settleWindows = 0, br_preRaiseGoodputBps = 0, br_plateau = False, br_plateauGoodputBps = 0,
     br_plateauSinceUs = 0, br_goodputEwma = 0, br_lastCause = 0\<rparr>"

section \<open>The controller\<close>

definition rate_bps :: "u64 \<Rightarrow> rate_controller \<Rightarrow> u32" where
  "rate_bps nowUs r = min (if nowUs < br_pauseUntilUs r then 0 else if nowUs < br_probeUntilUs r then bc_probeBps (br_c r) else br_rate r)
     (bc_capBps (br_c r))"

definition bulk_due :: "u64 \<Rightarrow> u64 \<Rightarrow> u64 \<Rightarrow> rate_controller \<Rightarrow> bool" where
  "bulk_due nowUs roundsCompleted srttUs r =
    (case bc_evalUnit (br_c r) of WallClock \<Rightarrow> bc_evalWindowUs (br_c r) \<le> nowUs - br_lastEvalUs r
     | AckRound \<Rightarrow> br_lastEvalRounds r + ucast (max 1 (bc_ackRoundsPerEval (br_c r))) \<le> roundsCompleted \<and>
         max srttUs (bc_minEvalIntervalUs (br_c r)) \<le> nowUs - br_lastEvalUs r)"

definition mark_evaluated :: "u64 \<Rightarrow> u64 \<Rightarrow> rate_controller \<Rightarrow> rate_controller" where
  "mark_evaluated nowUs roundsCompleted r = r\<lparr>br_lastEvalUs := nowUs, br_lastEvalRounds := roundsCompleted\<rparr>"

definition set_cap_bps :: "u32 \<Rightarrow> rate_controller \<Rightarrow> rate_controller" where
  "set_cap_bps capBps r =
    (let r = r\<lparr>br_c := (br_c r)\<lparr>bc_capBps := capBps\<rparr>\<rparr> in
     if capBps < br_rate r then r\<lparr>br_rate := max capBps (bc_floorBps (br_c r))\<rparr> else r)"

definition risen :: "u64 \<Rightarrow> u64 \<Rightarrow> rate_controller \<Rightarrow> bool" where
  "risen v base r \<longleftrightarrow> v \<noteq> 0 \<and> base \<noteq> 0 \<and> max (base * 2) (base + bc_rttRiseAbsUs (br_c r)) < v"

definition weak_risen :: "u64 \<Rightarrow> u64 \<Rightarrow> rate_controller \<Rightarrow> bool" where
  "weak_risen v base r \<longleftrightarrow> v \<noteq> 0 \<and> base \<noteq> 0 \<and>
     max (base * ucast (bc_weakRisePercent (br_c r)) div 100) (base + bc_weakRiseAbsUs (br_c r)) < v"

fun trim_horizon :: "u64 \<Rightarrow> u64 \<Rightarrow> horizon_entry list \<Rightarrow> u64 \<times> horizon_entry list" where
  "trim_horizon enough sent (e # f # es) =
    (if enough \<le> sent - he_sent e then trim_horizon enough (sent - he_sent e) (f # es) else (sent, e # f # es))"
| "trim_horizon enough sent es = (sent, es)"

definition update_loss_horizon :: "bulk_window \<Rightarrow> u64 \<Rightarrow> rate_controller \<Rightarrow> rate_controller" where
  "update_loss_horizon w nowUs r =
    (let c = br_c r;
         h = (if bw_uniqueFragmentsSent w \<noteq> 0 \<or> bw_uniqueFragmentsLost w \<noteq> 0
              then br_horizon r @ [\<lparr>he_atUs = nowUs, he_sent = ucast (bw_uniqueFragmentsSent w), he_lost = ucast (bw_uniqueFragmentsLost w)\<rparr>]
              else br_horizon r);
         h = dropWhile (\<lambda>e. bc_lossHorizonMaxUs c < nowUs - he_atUs e) h;
         (sent, h) = trim_horizon (ucast (bc_lossHorizonFragments c)) (sum_list (map he_sent h)) h;
         lost = sum_list (map he_lost h) in
     r\<lparr>br_horizon := h, br_lossState := (if sent < ucast (bc_lossMinSamples c) then LossUnknown
        else if ucast (bc_lossHighPerMille c) * sent < lost * 1000 then LossHigh else LossLow)\<rparr>)"

text \<open>The least round trips seen.\<close>

definition update_bases :: "bulk_window \<Rightarrow> rate_controller \<Rightarrow> rate_controller" where
  "update_bases w r = r\<lparr>
     br_basePullRttUs := (if bw_pullRttP50Us w \<noteq> 0 \<and> (br_basePullRttUs r = 0 \<or> bw_pullRttP50Us w < br_basePullRttUs r)
       then bw_pullRttP50Us w else br_basePullRttUs r),
     br_basePingRttUs := (if bw_pingRttUs w \<noteq> 0 \<and> (br_basePingRttUs r = 0 \<or> bw_pingRttUs w < br_basePingRttUs r)
       then bw_pingRttUs w else br_basePingRttUs r)\<rparr>"

definition pull_delay :: "bulk_window \<Rightarrow> u64" where
  "pull_delay w = (if bw_pullCurrentUs w \<noteq> 0 then bw_pullCurrentUs w
     else if bw_pullSrttUs w \<noteq> 0 then bw_pullSrttUs w else bw_pullRttP50Us w)"

definition strong_delay :: "bulk_window \<Rightarrow> rate_controller \<Rightarrow> bool" where
  "strong_delay w r \<longleftrightarrow> risen (pull_delay w) (br_basePullRttUs r) r \<or> risen (bw_pingRttUs w) (br_basePingRttUs r) r"

definition weak_delay :: "bulk_window \<Rightarrow> rate_controller \<Rightarrow> bool" where
  "weak_delay w r \<longleftrightarrow> weak_risen (pull_delay w) (br_basePullRttUs r) r \<or> weak_risen (bw_pingRttUs w) (br_basePingRttUs r) r"

definition any_loss :: "bulk_window \<Rightarrow> bool" where
  "any_loss w \<longleftrightarrow> 0 < bw_lossEvents w \<or> 0 < bw_uniqueFragmentsLost w"

definition loss_cause :: "bulk_window \<Rightarrow> rate_controller \<Rightarrow> u32" where
  "loss_cause w r = (if strong_delay w r then 1 else 0) OR (if 0 < bw_rtoEvents w then 2 else 0) OR
     (if any_loss w \<and> weak_delay w r then 4 else 0) OR (if any_loss w \<and> br_lossState r = LossHigh then 8 else 0)"

definition congested :: "bulk_window \<Rightarrow> rate_controller \<Rightarrow> bool" where
  "congested w r \<longleftrightarrow> strong_delay w r \<or> 0 < bw_rtoEvents w \<or> any_loss w \<and> weak_delay w r \<or> any_loss w \<and> br_lossState r = LossHigh"

definition in_recovery :: "u64 \<Rightarrow> rate_controller \<Rightarrow> bool" where
  "in_recovery roundsCompleted r \<longleftrightarrow> br_haveDecreased r \<and> roundsCompleted \<noteq> 0 \<and> roundsCompleted \<le> br_recoveryEndRound r"

text \<open>The answer to congestion that is not the tail of the last: half the rate, and after some in a row a pause.\<close>

definition decrease :: "u64 \<Rightarrow> u64 \<Rightarrow> rate_controller \<Rightarrow> bulk_action \<times> rate_controller" where
  "decrease nowUs roundsCompleted r =
    (let c = br_c r; rate = max (bc_floorBps c) (br_rate r div 2); n = br_decreases r + 1;
         r = r\<lparr>br_slowStart := False, br_rate := rate, br_caBaseBps := rate, br_lastRaiseClockUs := nowUs, br_haveDecreased := True,
           br_recoveryEndRound := roundsCompleted + 1, br_plateau := False, br_justRaised := False, br_decreases := n\<rparr> in
     if bc_pauseAfterDecreases c \<le> n then
       (BulkPause, r\<lparr>br_decreases := 0, br_pauseUntilUs := nowUs + bc_pauseUs c, br_probeUntilUs := nowUs + bc_pauseUs c + bc_probeUs c\<rparr>)
     else (BulkLower, r))"

text \<open>Whether a window without loss leaves room for a raise: the settling window, the verdict on the last
  raise, and the plateau.\<close>

definition smooth_goodput :: "bulk_window \<Rightarrow> rate_controller \<Rightarrow> rate_controller" where
  "smooth_goodput w r = (if bw_goodputBps w = 0 then r
     else r\<lparr>br_goodputEwma := (if br_goodputEwma r \<noteq> 0 then (br_goodputEwma r * 3 + bw_goodputBps w) div 4 else bw_goodputBps w)\<rparr>)"

definition judge_raise :: "bulk_window \<Rightarrow> u64 \<Rightarrow> rate_controller \<Rightarrow> rate_controller" where
  "judge_raise w nowUs r =
    (if br_justRaised r \<and> bw_goodputBps w \<noteq> 0 then
       (let r = r\<lparr>br_justRaised := False\<rparr> in
        if br_goodputEwma r \<le> br_preRaiseGoodputBps r
        then r\<lparr>br_plateau := True, br_plateauGoodputBps := br_goodputEwma r, br_plateauSinceUs := nowUs\<rparr> else r)
     else r)"

definition plateau_over :: "u64 \<Rightarrow> rate_controller \<Rightarrow> bool" where
  "plateau_over nowUs r \<longleftrightarrow>
     br_plateauGoodputBps r * ucast (100 + bc_headroomPercent (br_c r)) < br_goodputEwma r * 100 \<or>
     bc_plateauRetryUs (br_c r) \<le> nowUs - br_plateauSinceUs r"

text \<open>Fresh round trips on time.\<close>

definition raise_evidence :: "bulk_window \<Rightarrow> rate_controller \<Rightarrow> bool" where
  "raise_evidence w r \<longleftrightarrow>
     (br_basePullRttUs r = 0 \<or>
        bw_pullRttP50Us w \<le> max (br_basePullRttUs r * 3 div 2) (br_basePullRttUs r + bc_pullRaiseAbsUs (br_c r))) \<and>
     (bw_pingRttUs w = 0 \<or> br_basePingRttUs r = 0 \<or> bw_pingRttUs w \<le> br_basePingRttUs r + bc_rttUpSlackUs (br_c r)) \<and>
     br_rate r < bc_capBps (br_c r)"

definition next_rate :: "u64 \<Rightarrow> rate_controller \<Rightarrow> u64" where
  "next_rate sinceLastUs r =
    (if br_slowStart r
     then ucast (br_rate r) * ucast (bc_slowStartNumerator (br_c r)) div ucast (bc_slowStartDenominator (br_c r))
     else ucast (br_rate r) + max (ucast (br_caBaseBps r) * ucast (bc_caPercentPerSec (br_c r)) * min sinceLastUs 1000000 div 100 div 1000000) 1)"

definition raise_rate :: "u64 \<Rightarrow> u64 \<Rightarrow> rate_controller \<Rightarrow> rate_controller" where
  "raise_rate sinceLastUs nowUs r =
    (let r = r\<lparr>br_rate := ucast (min (ucast (bc_capBps (br_c r))) (next_rate sinceLastUs r))\<rparr>;
         r = (if bc_capBps (br_c r) \<le> br_rate r \<and> br_slowStart r then r\<lparr>br_slowStart := False, br_caBaseBps := br_rate r\<rparr> else r) in
     r\<lparr>br_justRaised := True, br_settleWindows := 1, br_lastRaiseClockUs := nowUs, br_preRaiseGoodputBps := br_goodputEwma r\<rparr>)"

text \<open>A window without congestion, outside a probe.\<close>

definition consider_raise :: "bulk_window \<Rightarrow> u64 \<Rightarrow> u64 \<Rightarrow> bool \<Rightarrow> rate_controller \<Rightarrow> bulk_action \<times> rate_controller" where
  "consider_raise w sinceLastUs nowUs inRecovery r =
    (let r = smooth_goodput w r in
     if br_justRaised r \<and> 0 < br_settleWindows r then (BulkHold, r\<lparr>br_settleWindows := br_settleWindows r - 1\<rparr>)
     else let r = judge_raise w nowUs r in
       if br_plateau r \<and> \<not> plateau_over nowUs r then (BulkHold, r)
       else let r = r\<lparr>br_plateau := False\<rparr> in
         if inRecovery \<or> bw_yielded w \<or> \<not> bw_workPending w then (BulkHold, r)
         else if bw_rttSamples w = 0 \<or> bw_pullRttP50Us w = 0 then (BulkHold, r)
         else if \<not> raise_evidence w r then (BulkHold, r)
         else (BulkRaise, raise_rate sinceLastUs nowUs r))"

definition evaluate :: "bulk_window \<Rightarrow> u64 \<Rightarrow> u64 \<Rightarrow> rate_controller \<Rightarrow> bulk_action \<times> rate_controller" where
  "evaluate w nowUs roundsCompleted r =
    (let r = (if br_lastRaiseClockUs r = 0 then r\<lparr>br_lastRaiseClockUs := nowUs\<rparr> else r);
         sinceLastUs = nowUs - br_lastRaiseClockUs r;
         r = update_loss_horizon w nowUs r in
     if nowUs < br_pauseUntilUs r then (BulkPause, r)
     else let r = update_bases w r; inRecovery = in_recovery roundsCompleted r; r = r\<lparr>br_lastCause := loss_cause w r\<rparr> in
       if congested w r then (if inRecovery then (BulkHold, r) else decrease nowUs roundsCompleted r)
       else let r = (if \<not> inRecovery then r\<lparr>br_decreases := 0\<rparr> else r) in
         if nowUs < br_probeUntilUs r then (BulkProbe, r)
         else if any_loss w then (BulkHold, r)
         else consider_raise w sinceLastUs nowUs inRecovery r)"

section \<open>Who has the bulk channel\<close>

datatype bulk_use = BulkIdle | BulkImage | BulkFile | BulkStopping

record bulk_arbiter =
  ab_use :: bulk_use
  ab_owner :: u64
  ab_stoppedFrom :: bulk_use

definition idle_arbiter :: bulk_arbiter where
  "idle_arbiter = \<lparr>ab_use = BulkIdle, ab_owner = 0, ab_stoppedFrom = BulkIdle\<rparr>"

definition bulk_try_acquire :: "bulk_use \<Rightarrow> u64 \<Rightarrow> bulk_arbiter \<Rightarrow> bool \<times> bulk_arbiter" where
  "bulk_try_acquire use owner a =
    (if (use \<noteq> BulkImage \<and> use \<noteq> BulkFile) \<or> owner = 0 then (False, a)
     else if ab_use a \<noteq> BulkIdle then (False, a)
     else (True, \<lparr>ab_use = use, ab_owner = owner, ab_stoppedFrom = BulkIdle\<rparr>))"

definition bulk_release :: "u64 \<Rightarrow> bulk_arbiter \<Rightarrow> bool \<times> bulk_arbiter" where
  "bulk_release owner a =
    (if ab_use a = BulkIdle \<or> ab_owner a \<noteq> owner \<or> owner = 0 then (False, a) else (True, idle_arbiter))"

definition bulk_begin_stop :: "u64 \<Rightarrow> bulk_arbiter \<Rightarrow> bool \<times> bulk_arbiter" where
  "bulk_begin_stop owner a =
    (if (ab_use a \<noteq> BulkImage \<and> ab_use a \<noteq> BulkFile) \<or> ab_owner a \<noteq> owner \<or> owner = 0 then (False, a)
     else (True, a\<lparr>ab_stoppedFrom := ab_use a, ab_use := BulkStopping\<rparr>))"

definition bulk_held_by :: "u64 \<Rightarrow> bulk_arbiter \<Rightarrow> bool" where
  "bulk_held_by owner a \<longleftrightarrow> owner \<noteq> 0 \<and> ab_owner a = owner \<and> ab_use a \<noteq> BulkIdle"

definition bulk_arbiter_reset :: "bulk_arbiter \<Rightarrow> bulk_arbiter" where
  "bulk_arbiter_reset a = idle_arbiter"

section \<open>Runs\<close>

datatype bulk_op = BrEvaluate bulk_window u64 u64 | BrCap u32 | BrMark u64 u64

fun bulk_step :: "bulk_op \<Rightarrow> rate_controller \<Rightarrow> rate_controller" where
  "bulk_step (BrEvaluate w nowUs roundsCompleted) r = snd (evaluate w nowUs roundsCompleted r)"
| "bulk_step (BrCap capBps) r = set_cap_bps capBps r"
| "bulk_step (BrMark nowUs roundsCompleted) r = mark_evaluated nowUs roundsCompleted r"

text \<open>What an evaluation comes to: the state it acts on, and whether it lowers, raises or leaves the rate.\<close>

definition evaluated :: "bulk_window \<Rightarrow> u64 \<Rightarrow> u64 \<Rightarrow> rate_controller \<Rightarrow> rate_controller" where
  "evaluated w nowUs roundsCompleted r =
    (let r = update_loss_horizon w nowUs (if br_lastRaiseClockUs r = 0 then r\<lparr>br_lastRaiseClockUs := nowUs\<rparr> else r) in
     if nowUs < br_pauseUntilUs r then r else update_bases w r)"

definition lowers :: "bulk_op \<Rightarrow> rate_controller \<Rightarrow> bool" where
  "lowers op r = (case op of BrEvaluate w nowUs roundsCompleted \<Rightarrow>
     \<not> nowUs < br_pauseUntilUs r \<and> congested w (evaluated w nowUs roundsCompleted r) \<and> \<not> in_recovery roundsCompleted r | _ \<Rightarrow> False)"

definition raises :: "bulk_op \<Rightarrow> rate_controller \<Rightarrow> bool" where
  "raises op r = (case op of BrEvaluate w nowUs roundsCompleted \<Rightarrow> fst (evaluate w nowUs roundsCompleted r) = BulkRaise | _ \<Rightarrow> False)"

text \<open>What the bookkeeping of an evaluation leaves alone.\<close>

lemma horizon_keeps [simp]: "br_rate (update_loss_horizon w n r) = br_rate r" "br_slowStart (update_loss_horizon w n r) = br_slowStart r"
  "br_caBaseBps (update_loss_horizon w n r) = br_caBaseBps r" "br_c (update_loss_horizon w n r) = br_c r"
  "br_haveDecreased (update_loss_horizon w n r) = br_haveDecreased r" "br_recoveryEndRound (update_loss_horizon w n r) = br_recoveryEndRound r"
  "br_lastRaiseClockUs (update_loss_horizon w n r) = br_lastRaiseClockUs r" "br_pauseUntilUs (update_loss_horizon w n r) = br_pauseUntilUs r"
  by (simp_all add: update_loss_horizon_def Let_def case_prod_beta)

lemma bases_keep [simp]: "br_rate (update_bases w r) = br_rate r" "br_slowStart (update_bases w r) = br_slowStart r"
  "br_caBaseBps (update_bases w r) = br_caBaseBps r" "br_c (update_bases w r) = br_c r"
  "br_haveDecreased (update_bases w r) = br_haveDecreased r" "br_recoveryEndRound (update_bases w r) = br_recoveryEndRound r"
  "br_lastRaiseClockUs (update_bases w r) = br_lastRaiseClockUs r" "br_pauseUntilUs (update_bases w r) = br_pauseUntilUs r"
  by (simp_all add: update_bases_def)

lemma in_recovery_cong: "br_haveDecreased r = br_haveDecreased r' \<Longrightarrow> br_recoveryEndRound r = br_recoveryEndRound r' \<Longrightarrow>
    in_recovery k r = in_recovery k r'"
  by (simp add: in_recovery_def)

lemma congested_cause [simp]: "congested w (r\<lparr>br_lastCause := x\<rparr>) = congested w r"
  by (simp add: congested_def strong_delay_def weak_delay_def risen_def weak_risen_def)

definition same_rate :: "rate_controller \<Rightarrow> rate_controller \<Rightarrow> bool" where
  "same_rate r r' \<longleftrightarrow> br_rate r' = br_rate r \<and> br_slowStart r' = br_slowStart r \<and> br_caBaseBps r' = br_caBaseBps r \<and> br_c r' = br_c r \<and>
     br_haveDecreased r' = br_haveDecreased r \<and> br_recoveryEndRound r' = br_recoveryEndRound r"

lemma judge_keeps [simp]: "same_rate r (judge_raise w n r)" "br_lastRaiseClockUs (judge_raise w n r) = br_lastRaiseClockUs r"
  "same_rate r (smooth_goodput w r)" "br_lastRaiseClockUs (smooth_goodput w r) = br_lastRaiseClockUs r"
  by (simp_all add: judge_raise_def smooth_goodput_def same_rate_def Let_def)

lemma same_rate_trans: "same_rate a b \<Longrightarrow> same_rate b c \<Longrightarrow> same_rate a c"
  by (simp add: same_rate_def)

text \<open>A window without congestion leaves the rate, or raises it by one step.\<close>

lemma consider_raise_cases:
  "(fst (consider_raise w since n rec r) = BulkHold \<and> same_rate r (snd (consider_raise w since n rec r)) \<and>
      br_lastRaiseClockUs (snd (consider_raise w since n rec r)) = br_lastRaiseClockUs r) \<or>
   (\<exists>r'. consider_raise w since n rec r = (BulkRaise, raise_rate since n r') \<and> same_rate r r' \<and> br_rate r < bc_capBps (br_c r))"
proof -
  define a where "a = smooth_goodput w r"
  define b where "b = judge_raise w n a"
  define c where "c = b\<lparr>br_plateau := False\<rparr>"
  have ab: "same_rate r a" "br_lastRaiseClockUs a = br_lastRaiseClockUs r" "same_rate r b" "br_lastRaiseClockUs b = br_lastRaiseClockUs r"
    unfolding b_def a_def using judge_keeps same_rate_trans by metis+
  have c: "same_rate r c" "br_lastRaiseClockUs c = br_lastRaiseClockUs r" using ab by (simp_all add: c_def same_rate_def)
  have run: "consider_raise w since n rec r =
      (if br_justRaised a \<and> 0 < br_settleWindows a then (BulkHold, a\<lparr>br_settleWindows := br_settleWindows a - 1\<rparr>)
       else if br_plateau b \<and> \<not> plateau_over n b then (BulkHold, b)
       else if rec \<or> bw_yielded w \<or> \<not> bw_workPending w then (BulkHold, c)
       else if bw_rttSamples w = 0 \<or> bw_pullRttP50Us w = 0 then (BulkHold, c)
       else if \<not> raise_evidence w c then (BulkHold, c)
       else (BulkRaise, raise_rate since n c))"
    by (simp only: consider_raise_def Let_def a_def b_def c_def)
  have "raise_evidence w c \<Longrightarrow> br_rate r < bc_capBps (br_c r)" using c(1) by (simp add: raise_evidence_def same_rate_def)
  moreover have "same_rate r (a\<lparr>br_settleWindows := x\<rparr>)" for x using ab by (simp add: same_rate_def)
  ultimately show ?thesis using ab c unfolding run by auto
qed

text \<open>An evaluation, whole: held, lowered or raised.\<close>

definition raise_clock :: "u64 \<Rightarrow> rate_controller \<Rightarrow> u64" where
  "raise_clock n r = (if br_lastRaiseClockUs r = 0 then n else br_lastRaiseClockUs r)"

lemma evaluate_cases:
  obtains (held) "same_rate r (snd (evaluate w n k r))" "br_lastRaiseClockUs (snd (evaluate w n k r)) = raise_clock n r"
      "\<not> lowers (BrEvaluate w n k) r" "\<not> raises (BrEvaluate w n k) r"
    | (lowered) r' where "evaluate w n k r = decrease n k r'" "same_rate r r'" "lowers (BrEvaluate w n k) r" "\<not> raises (BrEvaluate w n k) r"
    | (raised) r' where "evaluate w n k r = (BulkRaise, raise_rate (n - raise_clock n r) n r')" "same_rate r r'"
      "br_rate r < bc_capBps (br_c r)" "\<not> lowers (BrEvaluate w n k) r" "raises (BrEvaluate w n k) r"
proof -
  define a where "a = update_loss_horizon w n (if br_lastRaiseClockUs r = 0 then r\<lparr>br_lastRaiseClockUs := n\<rparr> else r)"
  define b where "b = update_bases w a"
  define c where "c = b\<lparr>br_lastCause := loss_cause w b\<rparr>"
  define d where "d = (if \<not> in_recovery k b then c\<lparr>br_decreases := 0\<rparr> else c)"
  have clock: "(n - br_lastRaiseClockUs (if br_lastRaiseClockUs r = 0 then r\<lparr>br_lastRaiseClockUs := n\<rparr> else r)) = n - raise_clock n r"
    by (simp add: raise_clock_def)
  have keep: "same_rate r a" "same_rate r b" "same_rate r c" "same_rate r d" "br_pauseUntilUs a = br_pauseUntilUs r"
    "br_lastRaiseClockUs a = raise_clock n r" "br_lastRaiseClockUs b = raise_clock n r" "br_lastRaiseClockUs c = raise_clock n r"
    "br_lastRaiseClockUs d = raise_clock n r"
    by (simp_all add: a_def b_def c_def d_def same_rate_def raise_clock_def)
  have rec: "in_recovery k b = in_recovery k r" using keep(2) by (intro in_recovery_cong) (simp_all add: same_rate_def)
  have run: "evaluate w n k r = (if n < br_pauseUntilUs a then (BulkPause, a)
      else if congested w c then (if in_recovery k b then (BulkHold, c) else decrease n k c)
      else if n < br_probeUntilUs d then (BulkProbe, d)
      else if any_loss w then (BulkHold, d)
      else consider_raise w (n - raise_clock n r) n (in_recovery k b) d)"
    unfolding evaluate_def Let_def clock by (simp only: a_def b_def c_def d_def)
  have lower: "lowers (BrEvaluate w n k) r \<longleftrightarrow> \<not> n < br_pauseUntilUs a \<and> congested w c \<and> \<not> in_recovery k b"
    unfolding rec keep(5) by (simp add: lowers_def evaluated_def Let_def a_def b_def c_def)
  have raise: "raises (BrEvaluate w n k) r \<longleftrightarrow> fst (evaluate w n k r) = BulkRaise" by (simp add: raises_def)
  show ?thesis
  proof (cases "lowers (BrEvaluate w n k) r")
    case True
    then have e: "evaluate w n k r = decrease n k c" unfolding run lower by simp
    then have "\<not> raises (BrEvaluate w n k) r" unfolding raise by (simp add: decrease_def Let_def)
    then show ?thesis using lowered [OF e keep(3) True] by blast
  next
    case low: False
    show ?thesis
    proof (cases "raises (BrEvaluate w n k) r")
      case True
      then have "evaluate w n k r = consider_raise w (n - raise_clock n r) n (in_recovery k b) d"
        using low unfolding raise lower run by (auto split: if_splits)
      moreover obtain r' where "evaluate w n k r = (BulkRaise, raise_rate (n - raise_clock n r) n r')" "same_rate d r'"
          "br_rate d < bc_capBps (br_c d)"
        using consider_raise_cases [of w "n - raise_clock n r" n "in_recovery k b" d] True calculation unfolding raise by auto
      moreover have "same_rate r r'" "br_rate r < bc_capBps (br_c r)"
        using calculation keep(4) same_rate_trans by (auto simp: same_rate_def)
      ultimately show ?thesis using raised low True by blast
    next
      case False
      then have "same_rate r (snd (evaluate w n k r)) \<and> br_lastRaiseClockUs (snd (evaluate w n k r)) = raise_clock n r"
        using low keep consider_raise_cases [of w "n - raise_clock n r" n "in_recovery k b" d] same_rate_trans [OF keep(4)]
        unfolding raise lower run by (auto split: if_splits)
      then show ?thesis using held low False by blast
    qed
  qed
qed

section \<open>One answer to one congestion\<close>

text \<open>The rounds at which a run lowered the rate, with the rates before and after.\<close>

fun decreases :: "bulk_op list \<Rightarrow> rate_controller \<Rightarrow> (nat \<times> nat \<times> nat) list" where
  "decreases [] r = []"
| "decreases (op # ops) r = (case op of BrEvaluate w n k \<Rightarrow>
     if lowers op r then [(unat k, unat (br_rate r), unat (br_rate (bulk_step op r)))] else [] | _ \<Rightarrow> []) @ decreases ops (bulk_step op r)"

text \<open>The rounds the caller counts, from one on.\<close>

definition rounds_ok :: "bulk_op list \<Rightarrow> bool" where
  "rounds_ok ops \<longleftrightarrow> (\<forall>w n k. BrEvaluate w n k \<in> set ops \<longrightarrow> 0 < unat k \<and> unat k < 2 ^ 63)"

lemma decrease_keeps:
  "br_rate (snd (decrease n k r)) = max (bc_floorBps (br_c r)) (br_rate r div 2)"
  "br_slowStart (snd (decrease n k r)) = False" "br_caBaseBps (snd (decrease n k r)) = br_rate (snd (decrease n k r))"
  "br_haveDecreased (snd (decrease n k r))" "br_recoveryEndRound (snd (decrease n k r)) = k + 1"
  "br_c (snd (decrease n k r)) = br_c r" "br_lastRaiseClockUs (snd (decrease n k r)) = n"
  by (simp_all add: decrease_def Let_def)

lemma raise_keeps: "br_haveDecreased (raise_rate d n r) = br_haveDecreased r" "br_recoveryEndRound (raise_rate d n r) = br_recoveryEndRound r"
  "br_c (raise_rate d n r) = br_c r" "br_lastRaiseClockUs (raise_rate d n r) = n"
  by (simp_all add: raise_rate_def Let_def)

lemma not_lowering:
  assumes "\<not> lowers op r"
  shows "br_haveDecreased (bulk_step op r) = br_haveDecreased r" "br_recoveryEndRound (bulk_step op r) = br_recoveryEndRound r"
    "bc_floorBps (br_c (bulk_step op r)) = bc_floorBps (br_c r)"
proof -
  have "br_haveDecreased (bulk_step op r) = br_haveDecreased r \<and> br_recoveryEndRound (bulk_step op r) = br_recoveryEndRound r \<and>
      bc_floorBps (br_c (bulk_step op r)) = bc_floorBps (br_c r)"
  proof (cases op)
    case (BrEvaluate w n k)
    show ?thesis
      by (rule evaluate_cases [of r w n k]) (use assms BrEvaluate raise_keeps in \<open>auto simp: same_rate_def\<close>)
  qed (auto simp: set_cap_bps_def mark_evaluated_def Let_def)
  then show "br_haveDecreased (bulk_step op r) = br_haveDecreased r" "br_recoveryEndRound (bulk_step op r) = br_recoveryEndRound r"
    "bc_floorBps (br_c (bulk_step op r)) = bc_floorBps (br_c r)" by blast+
qed

lemma lowering:
  assumes "lowers op r"
  obtains w n k where "op = BrEvaluate w n k" "br_haveDecreased (bulk_step op r)" "br_recoveryEndRound (bulk_step op r) = k + 1"
    "br_c (bulk_step op r) = br_c r" "br_rate (bulk_step op r) = max (bc_floorBps (br_c r)) (br_rate r div 2)" "\<not> in_recovery k r"
proof -
  obtain w n k where op: "op = BrEvaluate w n k" using assms by (auto simp: lowers_def split: bulk_op.splits)
  obtain r' where e: "evaluate w n k r = decrease n k r'" "same_rate r r'"
    using evaluate_cases [of r w n k] assms unfolding op by metis
  have "\<not> in_recovery k r" using assms unfolding op by (simp add: lowers_def)
  then show ?thesis using that [OF op] e decrease_keeps [of n k r'] unfolding op by (simp add: same_rate_def)
qed

lemma decreases_apart:
  assumes "rounds_ok ops"
  shows "sorted_wrt (\<lambda>a b. fst a + 2 \<le> fst b) (decreases ops r) \<and>
    (\<forall>(k, old, new)\<in>set (decreases ops r). (br_haveDecreased r \<longrightarrow> unat (br_recoveryEndRound r) < k) \<and>
      new = max (unat (bc_floorBps (br_c r))) (old div 2))"
  using assms
proof (induction ops arbitrary: r)
  case (Cons op ops)
  define r' where "r' = bulk_step op r"
  have rest: "rounds_ok ops" using Cons.prems by (auto simp: rounds_ok_def)
  note ih = Cons.IH [OF rest, of r']
  show ?case
  proof (cases "lowers op r")
    case True
    obtain w n k where op: "op = BrEvaluate w n k" "br_haveDecreased r'" "br_recoveryEndRound r' = k + 1" "br_c r' = br_c r"
      "br_rate r' = max (bc_floorBps (br_c r)) (br_rate r div 2)" "\<not> in_recovery k r"
      using lowering [OF True] unfolding r'_def by metis
    have "0 < unat k \<and> unat k < 2 ^ 63" using Cons.prems op(1) unfolding rounds_ok_def by (metis list.set_intros(1))
    then have k: "0 < unat k" "unat (k + 1) = unat k + 1" by (simp_all add: unat_word_ariths)
    have "br_haveDecreased r \<Longrightarrow> unat (br_recoveryEndRound r) < unat k"
      using op(6) k(1) by (auto simp: in_recovery_def word_le_nat_alt)
    moreover have "unat (br_rate r') = max (unat (bc_floorBps (br_c r))) (unat (br_rate r) div 2)"
      unfolding op(5) by (simp add: max_def word_le_nat_alt unat_div)
    moreover have "decreases (op # ops) r = (unat k, unat (br_rate r), unat (br_rate r')) # decreases ops r'"
      using True op(1) by (simp add: r'_def)
    ultimately show ?thesis using ih op(2-4) k(2) by fastforce
  next
    case False
    then show ?thesis using ih not_lowering [OF False] by (auto simp: r'_def split: bulk_op.splits)
  qed
qed simp


section \<open>Linear growth\<close>

fun raise_count :: "bulk_op list \<Rightarrow> rate_controller \<Rightarrow> nat" where
  "raise_count [] r = 0"
| "raise_count (op # ops) r = (if raises op r then 1 else 0) + raise_count ops (bulk_step op r)"

text \<open>A stretch in which the clock does not run backwards and nothing lowers the rate.\<close>

fun calm_run :: "nat \<Rightarrow> bulk_op list \<Rightarrow> rate_controller \<Rightarrow> bool" where
  "calm_run t [] r \<longleftrightarrow> True"
| "calm_run t (op # ops) r \<longleftrightarrow> \<not> lowers op r \<and>
     (case op of BrEvaluate w n k \<Rightarrow> t \<le> unat n \<and> calm_run (unat n) ops (bulk_step op r) | _ \<Rightarrow> calm_run t ops (bulk_step op r))"

definition growing :: "nat \<Rightarrow> u32 \<Rightarrow> rate_controller \<Rightarrow> bool" where
  "growing t base r \<longleftrightarrow> \<not> br_slowStart r \<and> br_caBaseBps r = base \<and> bc_caPercentPerSec (br_c r) = 25 \<and>
     0 < br_lastRaiseClockUs r \<and> unat (br_lastRaiseClockUs r) \<le> t \<and> bc_floorBps (br_c r) \<le> br_rate r"

lemma increment_bound:
  fixes base :: u32 and dt :: u64
  shows "4000000 * unat (max (ucast base * 25 * min dt 1000000 div 100 div 1000000) (1 :: u64)) \<le> 4000000 + unat base * unat dt"
proof -
  have m: "unat (min dt 1000000) = min (unat dt) 1000000" by (simp add: min_def word_le_nat_alt)
  have b: "unat base < 2 ^ 32" using unat_bounds(3) by simp
  have le: "unat base * 25 * min (unat dt) 1000000 \<le> 2 ^ 32 * 25 * 1000000" using b by (intro mult_le_mono) simp_all
  have "unat (ucast base * 25 * min dt 1000000 :: u64) = unat base * 25 * min (unat dt) 1000000"
    using le b by (simp add: unat_word_ariths unat_u32_u64 m)
  then have inc: "unat (ucast base * 25 * min dt 1000000 div 100 div 1000000 :: u64) = unat base * 25 * min (unat dt) 1000000 div 100 div 1000000"
    by (simp add: unat_div)
  have "4000000 * (x * 25 * y div 100 div 1000000) \<le> x * y" for x y :: nat
  proof -
    have "x * 25 * y div 100 = x * y div 4" by (simp add: div_mult2_eq [of "x * 25 * y" 25 4, simplified] ac_simps)
    then have "x * 25 * y div 100 div 1000000 = x * y div 4000000" by (simp add: div_mult2_eq [symmetric])
    then show ?thesis by simp
  qed
  from this [of "unat base" "min (unat dt) 1000000"]
  have "4000000 * unat (ucast base * 25 * min dt 1000000 div 100 div 1000000 :: u64) \<le> unat base * min (unat dt) 1000000" unfolding inc .
  also have "\<dots> \<le> unat base * unat dt" by simp
  finally show ?thesis by (simp add: max_def)
qed

lemma unat_shrink_le: "unat (ucast (x :: u64) :: u32) \<le> unat x"
  by (simp add: unsigned_ucast_eq)

lemma unat_sum_le: "unat (a + b :: u64) \<le> unat a + unat b"
  by (simp add: unat_word_ariths)

text \<open>A raise in the linear phase: no more than its share of the time, and never down.\<close>

lemma raise_bound:
  assumes r: "growing t base r" and n: "unat (br_lastRaiseClockUs r) \<le> unat n" and r': "same_rate r r'"
  shows "4000000 * unat (br_rate (raise_rate (n - br_lastRaiseClockUs r) n r')) \<le>
      4000000 * (unat (br_rate r) + 1) + unat base * (unat n - unat (br_lastRaiseClockUs r))"
    "\<not> br_slowStart (raise_rate (n - br_lastRaiseClockUs r) n r')" "br_caBaseBps (raise_rate (n - br_lastRaiseClockUs r) n r') = base"
    "br_rate r < bc_capBps (br_c r) \<Longrightarrow> br_rate r \<le> br_rate (raise_rate (n - br_lastRaiseClockUs r) n r')"
proof -
  define d where "d = n - br_lastRaiseClockUs r"
  have d: "unat d = unat n - unat (br_lastRaiseClockUs r)" using n by (simp add: d_def unat_sub word_le_nat_alt)
  have same: "br_rate r' = br_rate r" "\<not> br_slowStart r'" "br_caBaseBps r' = base" "bc_caPercentPerSec (br_c r') = 25"
    using r r' by (simp_all add: growing_def same_rate_def)
  define inc :: u64 where "inc = max (ucast base * 25 * min d 1000000 div 100 div 1000000) 1"
  have inc: "4000000 * unat inc \<le> 4000000 + unat base * unat d" unfolding inc_def by (rule increment_bound)
  have up: "next_rate d r' = ucast (br_rate r) + inc" by (simp add: next_rate_def same inc_def)
  have "unat (ucast (min (ucast (bc_capBps (br_c r'))) (next_rate d r')) :: u32) \<le> unat (next_rate d r')"
    by (rule order_trans [OF unat_shrink_le]) (simp add: word_le_nat_alt [symmetric])
  also have "\<dots> \<le> unat (br_rate r) + unat inc" unfolding up by (rule order_trans [OF unat_sum_le]) (simp add: unat_u32_u64)
  finally have "unat (br_rate (raise_rate d n r')) \<le> unat (br_rate r) + unat inc"
    using same by (simp add: raise_rate_def Let_def)
  then show "4000000 * unat (br_rate (raise_rate (n - br_lastRaiseClockUs r) n r')) \<le>
      4000000 * (unat (br_rate r) + 1) + unat base * (unat n - unat (br_lastRaiseClockUs r))"
    using inc unfolding d_def [symmetric] d [symmetric] by simp
  show "\<not> br_slowStart (raise_rate (n - br_lastRaiseClockUs r) n r')" "br_caBaseBps (raise_rate (n - br_lastRaiseClockUs r) n r') = base"
    using same by (simp_all add: raise_rate_def Let_def)
  show "br_rate r \<le> br_rate (raise_rate (n - br_lastRaiseClockUs r) n r')" if cap: "br_rate r < bc_capBps (br_c r)"
  proof -
    have c: "br_c r' = br_c r" using r' by (simp add: same_rate_def)
    have "unat inc \<le> 2 ^ 40"
    proof -
      define x where "x = ucast base * 25 * min d 1000000"
      have "unat (x div 100 div 1000000) \<le> 2 ^ 64 div 100 div 1000000"
        using unat_bounds(4) [of x] unfolding unat_div by (auto intro!: div_le_mono simp: less_imp_le)
      then show ?thesis unfolding inc_def x_def [symmetric] by (auto simp: max_def)
    qed
    then have nxt: "unat (next_rate d r') = unat (br_rate r) + unat inc"
      unfolding up using unat_bounds(3) [of "br_rate r"] by (simp add: unat_word_ariths unat_u32_u64)
    have "unat (br_rate r) \<le> unat (ucast (min (ucast (bc_capBps (br_c r))) (next_rate d r')) :: u32)"
    proof (cases "ucast (bc_capBps (br_c r)) \<le> next_rate d r'")
      case True
      have "unat (ucast (ucast (bc_capBps (br_c r)) :: u64) :: u32) = unat (bc_capBps (br_c r))"
        using unat_bounds(3) [of "bc_capBps (br_c r)"]
        unfolding unsigned_ucast_eq [where w = "ucast (bc_capBps (br_c r)) :: u64"] unat_u32_u64 by (simp add: take_bit_nat_eq_self)
      then show ?thesis using True cap by (simp add: min_def word_less_nat_alt)
    next
      case False
      then have "unat (next_rate d r') < 2 ^ 32"
        using unat_bounds(3) [of "bc_capBps (br_c r)"] by (simp add: word_le_nat_alt unat_u32_u64)
      then have "unat (ucast (next_rate d r') :: u32) = unat (next_rate d r')"
        by (simp add: unsigned_ucast_eq take_bit_nat_eq_self)
      then show ?thesis using False nxt by (simp add: min_def)
    qed
    then show ?thesis unfolding d_def [symmetric] using c same by (simp add: raise_rate_def Let_def word_le_nat_alt)
  qed
qed

lemma growing_step:
  assumes g: "growing t base r" and calm: "\<not> lowers op r"
    and t: "t' = (case op of BrEvaluate w n k \<Rightarrow> unat n | _ \<Rightarrow> t)" "t \<le> t'"
  shows "growing t' base (bulk_step op r) \<and>
    4000000 * unat (br_rate (bulk_step op r)) \<le> 4000000 * (unat (br_rate r) + (if raises op r then 1 else 0)) +
      unat base * (unat (br_lastRaiseClockUs (bulk_step op r)) - unat (br_lastRaiseClockUs r)) \<and>
    unat (br_lastRaiseClockUs r) \<le> unat (br_lastRaiseClockUs (bulk_step op r))"
proof (cases op)
  case (BrEvaluate w n k)
  have clock: "raise_clock n r = br_lastRaiseClockUs r" using g by (auto simp: raise_clock_def growing_def)
  have n: "t \<le> unat n" "t' = unat n" "unat (br_lastRaiseClockUs r) \<le> unat n" using t g by (simp_all add: BrEvaluate growing_def)
  have "0 < unat (br_lastRaiseClockUs r)" using g by (simp add: growing_def unat_gt_0 word_gt_0)
  then have pos: "n \<noteq> 0" using n(3) by auto
  show ?thesis
  proof (rule evaluate_cases [of r w n k])
    assume "same_rate r (snd (evaluate w n k r))" "br_lastRaiseClockUs (snd (evaluate w n k r)) = raise_clock n r"
      "\<not> raises (BrEvaluate w n k) r"
    then show ?thesis using g n unfolding clock BrEvaluate by (auto simp: growing_def same_rate_def)
  next
    fix r' assume "lowers (BrEvaluate w n k) r"
    then show ?thesis using calm by (simp add: BrEvaluate)
  next
    fix r' assume e: "evaluate w n k r = (BulkRaise, raise_rate (n - raise_clock n r) n r')" "same_rate r r'"
      and cap: "br_rate r < bc_capBps (br_c r)" and up: "raises (BrEvaluate w n k) r"
    note b = raise_bound [OF g n(3) e(2)]
    have "growing t' base (raise_rate (n - br_lastRaiseClockUs r) n r')"
      using g b(2,3) b(4) [OF cap] e(2) n pos raise_keeps [of "n - br_lastRaiseClockUs r" n r']
      by (auto simp: growing_def same_rate_def word_gt_0 intro: order_trans)
    then show ?thesis using b(1) up n(3) raise_keeps(4) unfolding BrEvaluate bulk_step.simps e(1) clock snd_conv by simp
  qed
next
  case (BrCap capBps)
  have "unat (br_rate (set_cap_bps capBps r)) \<le> unat (br_rate r) \<and> growing t base (set_cap_bps capBps r)"
    using g by (auto simp: set_cap_bps_def Let_def growing_def word_le_nat_alt word_less_nat_alt max_def)
  then show ?thesis using t BrCap by (auto simp: set_cap_bps_def Let_def)
next
  case (BrMark nowUs roundsCompleted)
  then show ?thesis using g t by (simp add: mark_evaluated_def growing_def)
qed

text \<open>
  C34. After the first congestion the rate only creeps. Over any stretch without another lowering, changes
  of the budget included, the rate grows by at most a quarter, each second, of what the last lowering left,
  plus one bit a second for each raise.
\<close>

theorem bulk_growth_linear:
  assumes "growing t base r" and "calm_run t ops r"
  defines "r' \<equiv> fold bulk_step ops r"
  shows "4000000 * unat (br_rate r') \<le> 4000000 * (unat (br_rate r) + raise_count ops r) +
    unat base * (unat (br_lastRaiseClockUs r') - unat (br_lastRaiseClockUs r))"
proof -
  have "4000000 * unat (br_rate r') \<le> 4000000 * (unat (br_rate r) + raise_count ops r) +
      unat base * (unat (br_lastRaiseClockUs r') - unat (br_lastRaiseClockUs r)) \<and> unat (br_lastRaiseClockUs r) \<le> unat (br_lastRaiseClockUs r')"
    unfolding r'_def using assms(1,2)
  proof (induction ops arbitrary: t r)
    case (Cons op ops)
    define t' where "t' = (case op of BrEvaluate w n k \<Rightarrow> unat n | _ \<Rightarrow> t)"
    have calm: "\<not> lowers op r" "t \<le> t'" "calm_run t' ops (bulk_step op r)"
      using Cons.prems(2) by (auto simp: t'_def split: bulk_op.splits)
    define r1 where "r1 = bulk_step op r"
    have step: "growing t' base r1" "unat (br_lastRaiseClockUs r) \<le> unat (br_lastRaiseClockUs r1)"
      "4000000 * unat (br_rate r1) \<le> 4000000 * (unat (br_rate r) + (if raises op r then 1 else 0)) +
        unat base * (unat (br_lastRaiseClockUs r1) - unat (br_lastRaiseClockUs r))"
      using growing_step [OF Cons.prems(1) calm(1) t'_def calm(2)] by (simp_all add: r1_def)
    define s where "s = fold bulk_step ops r1"
    have ih: "4000000 * unat (br_rate s) \<le> 4000000 * (unat (br_rate r1) + raise_count ops r1) +
        unat base * (unat (br_lastRaiseClockUs s) - unat (br_lastRaiseClockUs r1))"
      "unat (br_lastRaiseClockUs r1) \<le> unat (br_lastRaiseClockUs s)"
      using Cons.IH [OF step(1)] calm(3) unfolding s_def r1_def by simp_all
    have "unat base * (unat (br_lastRaiseClockUs s) - unat (br_lastRaiseClockUs r1)) +
        unat base * (unat (br_lastRaiseClockUs r1) - unat (br_lastRaiseClockUs r)) =
        unat base * (unat (br_lastRaiseClockUs s) - unat (br_lastRaiseClockUs r))"
      using step(2) ih(2) by (simp add: distrib_left [symmetric])
    moreover have "fold bulk_step (op # ops) r = s" "raise_count (op # ops) r = (if raises op r then 1 else 0) + raise_count ops r1"
      by (simp_all add: s_def r1_def)
    ultimately show ?case using ih step(2,3) by (simp add: distrib_left)
  qed simp
  then show ?thesis by blast
qed

text \<open>A lowering begins such a stretch.\<close>

lemma lowering_starts_growing:
  assumes "lowers (BrEvaluate w n k) r" "bc_caPercentPerSec (br_c r) = 25" "n \<noteq> 0"
  shows "growing (unat n) (br_rate (bulk_step (BrEvaluate w n k) r)) (bulk_step (BrEvaluate w n k) r)"
proof -
  obtain r' where "evaluate w n k r = decrease n k r'" "same_rate r r'" using evaluate_cases [of r w n k] assms(1) by metis
  then show ?thesis using decrease_keeps [of n k r'] assms(2,3) by (auto simp: growing_def same_rate_def word_gt_0)
qed

section \<open>The arbiter\<close>

text \<open>Nobody takes the channel from a holder: it goes to another owner only through a release by the holder, or a reset.\<close>

lemma bulk_holder_stays:
  assumes "bulk_held_by owner a"
  shows "fst (bulk_try_acquire use other a) = False" "snd (bulk_try_acquire use other a) = a"
    "fst (bulk_release other a) \<Longrightarrow> other = owner" "\<not> fst (bulk_release other a) \<Longrightarrow> snd (bulk_release other a) = a"
    "bulk_held_by owner (snd (bulk_begin_stop other a))" "fst (bulk_begin_stop other a) \<Longrightarrow> other = owner"
  using assms by (auto simp: bulk_held_by_def bulk_try_acquire_def bulk_release_def bulk_begin_stop_def split: if_splits)

lemma bulk_acquired: "fst (bulk_try_acquire use owner a) \<Longrightarrow> ab_use a = BulkIdle \<and> bulk_held_by owner (snd (bulk_try_acquire use owner a))"
  by (auto simp: bulk_held_by_def bulk_try_acquire_def split: if_splits)

section \<open>A run\<close>

definition quiet_window :: bulk_window where
  "quiet_window = \<lparr>bw_lossEvents = 0, bw_pullRttP50Us = 40000, bw_pullSrttUs = 40000, bw_pullCurrentUs = 40000, bw_pingRttUs = 30000,
     bw_deliveredBps = 200000, bw_uniqueFragmentsSent = 10, bw_uniqueFragmentsLost = 0, bw_rtoEvents = 0, bw_rttSamples = 4,
     bw_goodputBps = 200000, bw_workPending = True, bw_yielded = False\<rparr>"

definition timeout_window :: bulk_window where
  "timeout_window = quiet_window\<lparr>bw_rtoEvents := 1\<rparr>"

definition after_timeout :: rate_controller where
  "after_timeout = \<lparr>br_c = default_bulk_config, br_rate = 128000, br_slowStart = False, br_caBaseBps = 128000, br_haveDecreased = True,
     br_recoveryEndRound = 2, br_basePullRttUs = 40000, br_basePingRttUs = 30000, br_decreases = 1, br_pauseUntilUs = 0,
     br_probeUntilUs = 0, br_lastEvalUs = 0, br_lastEvalRounds = 0, br_lastRaiseClockUs = 1000000,
     br_horizon = [\<lparr>he_atUs = 1000000, he_sent = 10, he_lost = 0\<rparr>], br_lossState = LossUnknown, br_justRaised = False,
     br_settleWindows = 0, br_preRaiseGoodputBps = 0, br_plateau = False, br_plateauGoodputBps = 0, br_plateauSinceUs = 0,
     br_goodputEwma = 0, br_lastCause = 2\<rparr>"

lemma timeout_lowers: "lowers (BrEvaluate timeout_window 1000000 1) (new_rate_controller default_bulk_config)"
  by (simp add: lowers_def congested_def timeout_window_def in_recovery_def new_rate_controller_def)

lemma after_timeout: "bulk_step (BrEvaluate timeout_window 1000000 1) (new_rate_controller default_bulk_config) = after_timeout"
  by code_simp

lemma after_timeout_growing: "growing 1000000 128000 after_timeout"
proof -
  have "br_rate after_timeout = 128000" by (simp add: after_timeout_def)
  moreover have "bc_caPercentPerSec (br_c (new_rate_controller default_bulk_config)) = 25"
    by (simp add: new_rate_controller_def default_bulk_config_def)
  ultimately show ?thesis using lowering_starts_growing [OF timeout_lowers] unfolding after_timeout by simp
qed

text \<open>A second later the round trips are still good: the rate rises.\<close>

definition after_raise :: rate_controller where
  "after_raise = after_timeout\<lparr>br_rate := 160000, br_decreases := 0, br_lastRaiseClockUs := 2000000,
     br_horizon := [\<lparr>he_atUs = 1000000, he_sent = 10, he_lost = 0\<rparr>, \<lparr>he_atUs = 2000000, he_sent = 10, he_lost = 0\<rparr>],
     br_justRaised := True, br_settleWindows := 1, br_preRaiseGoodputBps := 200000, br_goodputEwma := 200000, br_lastCause := 0\<rparr>"

definition quiet_ops :: "bulk_op list" where
  "quiet_ops = [BrEvaluate quiet_window 2000000 5, BrCap 4000000]"

lemma after_raise: "evaluate quiet_window 2000000 5 after_timeout = (BulkRaise, after_raise)"
  by code_simp

lemma quiet_not_lower: "\<not> lowers (BrEvaluate quiet_window 2000000 5) after_timeout"
  by code_simp

lemma quiet_calm: "calm_run 1000000 quiet_ops after_timeout"
  using quiet_not_lower by (simp add: quiet_ops_def after_raise lowers_def)

lemma quiet_raise: "raise_count quiet_ops after_timeout = 1" "br_lastRaiseClockUs (fold bulk_step quiet_ops after_timeout) = 2000000"
  by (simp_all add: quiet_ops_def after_raise raises_def set_cap_bps_def after_raise_def Let_def)

lemma before_raise: "br_rate after_timeout = 128000" "br_lastRaiseClockUs after_timeout = 1000000"
  by (simp_all add: after_timeout_def)

theorem bulk_growth_linear_witness: "unat (br_rate (fold bulk_step quiet_ops after_timeout)) \<le> 160001"
  using bulk_growth_linear [OF after_timeout_growing quiet_calm] by (simp add: quiet_raise before_raise)


end
