(* ===== verification/BulkPacer.thy ===== *)
theory BulkPacer
  imports Wire
begin

text \<open>
  The queue of \<open>BulkPacer\<close> (\<open>bulk_pacer.cpp\<close>): datagrams of the bulk channel wait for tokens,
  acknowledgements ahead of data. A call of \<open>Enqueue\<close> is one step; a turn of the pacer thread takes its
  mutex twice, to look at the front and to take it, and is two steps between which others may enqueue. The
  token bucket, in floating point, the timer and the callbacks are arguments of a turn.
\<close>

section \<open>State and operations\<close>

type_synonym pacer_key = "u32 \<times> u32 \<times> u16"

definition kMaxQueuedDatagrams :: nat where "kMaxQueuedDatagrams = 256"

record bulk_pacer =
  bp_queue :: "bytes list"
  bp_queuedAcks :: nat
  bp_queuedKeys :: "pacer_key set"
  bp_sentKeys :: "(pacer_key \<times> u64) list"
  bp_newestSeq :: u32
  bp_datagramsSent :: u64
  bp_bytesSent :: u64
  bp_resendsAfterTransmit :: u64
  bp_resendsCoalesced :: u64
  bp_droppedQueueFull :: u64
  bp_resendsTooSoon :: u64

definition started_pacer :: bulk_pacer where
  "started_pacer = \<lparr>bp_queue = [], bp_queuedAcks = 0, bp_queuedKeys = {}, bp_sentKeys = [], bp_newestSeq = 0, bp_datagramsSent = 0,
     bp_bytesSent = 0, bp_resendsAfterTransmit = 0, bp_resendsCoalesced = 0, bp_droppedQueueFull = 0, bp_resendsTooSoon = 0\<rparr>"

definition data_key :: "bytes \<Rightarrow> pacer_key option" where
  "data_key data = (if length data < control_chunk_header_size then None
     else let h = decode_control_chunk_header data in
       if cc_magic h \<noteq> kMagic \<or> cc_kind h \<noteq> udp_packet_kind_code UControlData then None
       else Some (cc_streamId h, cc_messageSeq h, cc_fragIndex h))"

text \<open>The ordered map of the datagrams that left, with when they last did.\<close>

fun key_less :: "pacer_key \<Rightarrow> pacer_key \<Rightarrow> bool" where
  "key_less (a, b, c) (a', b', c') \<longleftrightarrow> a < a' \<or> a = a' \<and> (b < b' \<or> b = b' \<and> c < c')"

fun sent_insert :: "pacer_key \<Rightarrow> u64 \<Rightarrow> (pacer_key \<times> u64) list \<Rightarrow> (pacer_key \<times> u64) list" where
  "sent_insert k t [] = [(k, t)]"
| "sent_insert k t ((k', t') # m) =
    (if k = k' then (k, t) # m else if key_less k k' then (k, t) # (k', t') # m else (k', t') # sent_insert k t m)"

definition forget_sent :: "u32 \<Rightarrow> (pacer_key \<times> u64) list \<Rightarrow> (pacer_key \<times> u64) list" where
  "forget_sent newest m = dropWhile (\<lambda>(k, t). fst (snd k) + 64 < newest) m"

definition put_queue :: "bytes \<Rightarrow> bulk_pacer \<Rightarrow> bool \<times> bulk_pacer" where
  "put_queue data p =
    (if kMaxQueuedDatagrams \<le> length (bp_queue p) then (False, p\<lparr>bp_droppedQueueFull := bp_droppedQueueFull p + 1\<rparr>)
     else case data_key data of
       Some k \<Rightarrow> (True, p\<lparr>bp_queue := bp_queue p @ [data], bp_queuedKeys := insert k (bp_queuedKeys p)\<rparr>)
     | None \<Rightarrow> (True, p\<lparr>bp_queue := take (bp_queuedAcks p) (bp_queue p) @ data # drop (bp_queuedAcks p) (bp_queue p),
         bp_queuedAcks := bp_queuedAcks p + 1\<rparr>))"

definition pacer_enqueue :: "bool \<Rightarrow> u64 \<Rightarrow> u64 \<Rightarrow> bytes \<Rightarrow> bulk_pacer \<Rightarrow> bool \<times> bulk_pacer" where
  "pacer_enqueue running guard now data p =
    (if \<not> running \<or> data = [] then (False, p)
     else case data_key data of
       None \<Rightarrow> put_queue data p
     | Some k \<Rightarrow>
        (if k \<in> bp_queuedKeys p then (True, p\<lparr>bp_resendsCoalesced := bp_resendsCoalesced p + 1\<rparr>)
         else case map_of (bp_sentKeys p) k of
           Some t \<Rightarrow> if guard \<noteq> 0 \<and> now - t < guard then (True, p\<lparr>bp_resendsTooSoon := bp_resendsTooSoon p + 1\<rparr>) else put_queue data p
         | None \<Rightarrow> put_queue data p))"

text \<open>What a turn sees under its first lock.\<close>

datatype pacer_look = LookNothing | LookAck | LookData

definition look_front :: "bulk_pacer \<Rightarrow> pacer_look" where
  "look_front p = (if bp_queue p = [] then LookNothing else if 0 < bp_queuedAcks p then LookAck else LookData)"

definition count_sent :: "bytes \<Rightarrow> bulk_pacer \<Rightarrow> bulk_pacer" where
  "count_sent data p = p\<lparr>bp_datagramsSent := bp_datagramsSent p + 1, bp_bytesSent := bp_bytesSent p + of_nat (length data)\<rparr>"

definition take_ack :: "bulk_pacer \<Rightarrow> bytes option \<times> bulk_pacer" where
  "take_ack p = (if bp_queue p = [] \<or> bp_queuedAcks p = 0 then (None, p)
     else (Some (hd (bp_queue p)),
       count_sent (hd (bp_queue p)) (p\<lparr>bp_queue := tl (bp_queue p), bp_queuedAcks := bp_queuedAcks p - 1\<rparr>)))"

definition note_sent :: "u64 \<Rightarrow> pacer_key \<Rightarrow> bulk_pacer \<Rightarrow> bulk_pacer" where
  "note_sent now k p =
    (let resend = map_of (bp_sentKeys p) k \<noteq> None; newest = max (bp_newestSeq p) (fst (snd k)) in
     p\<lparr>bp_queuedKeys := bp_queuedKeys p - {k}, bp_newestSeq := newest,
       bp_resendsAfterTransmit := bp_resendsAfterTransmit p + (if resend then 1 else 0),
       bp_sentKeys := forget_sent newest (sent_insert k now (bp_sentKeys p))\<rparr>)"

definition take_data :: "u64 \<Rightarrow> bulk_pacer \<Rightarrow> bytes option \<times> bulk_pacer" where
  "take_data now p = (if bp_queue p = [] then (None, p)
     else let data = hd (bp_queue p); p = p\<lparr>bp_queue := tl (bp_queue p)\<rparr> in
       (Some data, count_sent data (case data_key data of Some k \<Rightarrow> note_sent now k p | None \<Rightarrow> p)))"

section \<open>The threads together\<close>

text \<open>The pacer, what its thread has seen, and what was put in the queue and sent so far.\<close>

record pacer_system =
  py_pacer :: bulk_pacer
  py_look :: pacer_look
  py_accepted :: "bytes list"
  py_sent :: "bytes list"

definition started_system :: pacer_system where
  "started_system = \<lparr>py_pacer = started_pacer, py_look = LookNothing, py_accepted = [], py_sent = []\<rparr>"

text \<open>A call of \<open>Enqueue\<close> (guard, clock, datagram); the first lock of a turn; its second, with whether control
  traffic and the tokens let a data datagram go, and the clock.\<close>

datatype pacer_op = BpEnqueue u64 u64 bytes | BpLook | BpTake bool u64

fun pacer_step :: "pacer_op \<Rightarrow> pacer_system \<Rightarrow> pacer_system" where
  "pacer_step (BpEnqueue guard now data) s =
    (let p = snd (pacer_enqueue True guard now data (py_pacer s)) in
     s\<lparr>py_pacer := p, py_accepted := py_accepted s @ (if bp_queue p = bp_queue (py_pacer s) then [] else [data])\<rparr>)"
| "pacer_step BpLook s = s\<lparr>py_look := look_front (py_pacer s)\<rparr>"
| "pacer_step (BpTake goes now) s =
    (case (case py_look s of LookNothing \<Rightarrow> (None, py_pacer s) | LookAck \<Rightarrow> take_ack (py_pacer s)
       | LookData \<Rightarrow> if goes then take_data now (py_pacer s) else (None, py_pacer s)) of
     (sent, p) \<Rightarrow> s\<lparr>py_pacer := p, py_look := LookNothing, py_sent := py_sent s @ (case sent of Some data \<Rightarrow> [data] | None \<Rightarrow> [])\<rparr>)"

definition pacer_run :: "pacer_op list \<Rightarrow> pacer_system \<Rightarrow> pacer_system" where
  "pacer_run ops s = fold pacer_step ops s"

definition is_ack :: "bytes \<Rightarrow> bool" where
  "is_ack data \<longleftrightarrow> data_key data = None"

text \<open>No acknowledgement is queued between the two locks of a turn that saw data at the front.\<close>

fun undisturbed :: "pacer_op list \<Rightarrow> pacer_system \<Rightarrow> bool" where
  "undisturbed [] s \<longleftrightarrow> True"
| "undisturbed (op # ops) s \<longleftrightarrow>
    (case op of BpEnqueue guard now data \<Rightarrow> \<not> (is_ack data \<and> py_look s = LookData) | _ \<Rightarrow> True) \<and> undisturbed ops (pacer_step op s)"

section \<open>Order is kept\<close>

definition queue_ok :: "bulk_pacer \<Rightarrow> bool" where
  "queue_ok p \<longleftrightarrow> (\<exists>acks datas. bp_queue p = acks @ datas \<and> length acks = bp_queuedAcks p \<and> list_all is_ack acks \<and>
     list_all (\<lambda>d. \<not> is_ack d) datas \<and> bp_queuedKeys p = set (map (\<lambda>d. the (data_key d)) datas) \<and>
     distinct (map (\<lambda>d. the (data_key d)) datas)) \<and> length (bp_queue p) \<le> kMaxQueuedDatagrams"

definition system_ok :: "pacer_system \<Rightarrow> bool" where
  "system_ok s \<longleftrightarrow> queue_ok (py_pacer s) \<and>
     (py_look s = LookAck \<longrightarrow> 0 < bp_queuedAcks (py_pacer s)) \<and>
     (py_look s = LookData \<longrightarrow> bp_queuedAcks (py_pacer s) = 0 \<and> bp_queue (py_pacer s) \<noteq> []) \<and>
     filter is_ack (py_accepted s) = filter is_ack (py_sent s) @ filter is_ack (bp_queue (py_pacer s)) \<and>
     filter (\<lambda>d. \<not> is_ack d) (py_accepted s) = filter (\<lambda>d. \<not> is_ack d) (py_sent s) @ filter (\<lambda>d. \<not> is_ack d) (bp_queue (py_pacer s))"

lemma count_sent_keeps [simp]: "bp_queue (count_sent d p) = bp_queue p" "bp_queuedAcks (count_sent d p) = bp_queuedAcks p"
  "bp_queuedKeys (count_sent d p) = bp_queuedKeys p"
  by (simp_all add: count_sent_def)

lemma note_sent_keeps [simp]: "bp_queue (note_sent now k p) = bp_queue p" "bp_queuedAcks (note_sent now k p) = bp_queuedAcks p"
  "bp_queuedKeys (note_sent now k p) = bp_queuedKeys p - {k}"
  by (simp_all add: note_sent_def Let_def)

text \<open>What a call of \<open>Enqueue\<close> does to the queue: nothing, or one datagram in its place.\<close>

lemma enqueue_cases:
  obtains (same) "bp_queue (snd (pacer_enqueue r g n d p)) = bp_queue p" "bp_queuedAcks (snd (pacer_enqueue r g n d p)) = bp_queuedAcks p"
      "bp_queuedKeys (snd (pacer_enqueue r g n d p)) = bp_queuedKeys p"
    | (ack) "is_ack d" "length (bp_queue p) < kMaxQueuedDatagrams"
      "bp_queue (snd (pacer_enqueue r g n d p)) = take (bp_queuedAcks p) (bp_queue p) @ d # drop (bp_queuedAcks p) (bp_queue p)"
      "bp_queuedAcks (snd (pacer_enqueue r g n d p)) = bp_queuedAcks p + 1"
      "bp_queuedKeys (snd (pacer_enqueue r g n d p)) = bp_queuedKeys p"
    | (data) k where "data_key d = Some k" "k \<notin> bp_queuedKeys p" "length (bp_queue p) < kMaxQueuedDatagrams"
      "bp_queue (snd (pacer_enqueue r g n d p)) = bp_queue p @ [d]"
      "bp_queuedAcks (snd (pacer_enqueue r g n d p)) = bp_queuedAcks p"
      "bp_queuedKeys (snd (pacer_enqueue r g n d p)) = insert k (bp_queuedKeys p)"
proof (cases "data_key d")
  case None
  then show ?thesis using same ack
    by (cases "\<not> r \<or> d = []"; cases "length (bp_queue p) < kMaxQueuedDatagrams") (auto simp: pacer_enqueue_def put_queue_def is_ack_def not_less)
next
  case (Some k)
  then have full: "d \<noteq> []" by (auto simp: data_key_def)
  have put: "bp_queue (snd (put_queue d p)) = (if length (bp_queue p) < kMaxQueuedDatagrams then bp_queue p @ [d] else bp_queue p)"
    "bp_queuedAcks (snd (put_queue d p)) = bp_queuedAcks p"
    "bp_queuedKeys (snd (put_queue d p)) = (if length (bp_queue p) < kMaxQueuedDatagrams then insert k (bp_queuedKeys p) else bp_queuedKeys p)"
    using Some by (auto simp: put_queue_def)
  show ?thesis
  proof (cases "pacer_enqueue r g n d p = put_queue d p \<and> k \<notin> bp_queuedKeys p \<and> length (bp_queue p) < kMaxQueuedDatagrams")
    case True
    then show ?thesis using data [OF Some] put by simp
  next
    case False
    then have "bp_queue (snd (pacer_enqueue r g n d p)) = bp_queue p \<and> bp_queuedAcks (snd (pacer_enqueue r g n d p)) = bp_queuedAcks p \<and>
        bp_queuedKeys (snd (pacer_enqueue r g n d p)) = bp_queuedKeys p"
      using Some put full by (auto simp: pacer_enqueue_def split: option.splits if_splits)
    then show ?thesis using same by blast
  qed
qed

lemma queue_okI:
  assumes "bp_queue p = acks @ datas" "length acks = bp_queuedAcks p" "list_all is_ack acks" "list_all (\<lambda>d. \<not> is_ack d) datas"
    "bp_queuedKeys p = set (map (\<lambda>d. the (data_key d)) datas)" "distinct (map (\<lambda>d. the (data_key d)) datas)" "length (bp_queue p) \<le> kMaxQueuedDatagrams"
  shows "queue_ok p"
  using assms unfolding queue_ok_def by blast

lemma enqueue_ok:
  assumes "queue_ok p"
  shows "queue_ok (snd (pacer_enqueue r g n d p))"
proof -
  obtain acks datas where q: "bp_queue p = acks @ datas" "length acks = bp_queuedAcks p" "list_all is_ack acks"
    "list_all (\<lambda>d. \<not> is_ack d) datas" "bp_queuedKeys p = set (map (\<lambda>d. the (data_key d)) datas)"
    "distinct (map (\<lambda>d. the (data_key d)) datas)" "length (bp_queue p) \<le> kMaxQueuedDatagrams"
    using assms unfolding queue_ok_def by blast
  show ?thesis
  proof (cases rule: enqueue_cases [of r g n d p])
    case same
    then show ?thesis using q by (intro queue_okI [of _ acks datas]) simp_all
  next
    case ack
    then show ?thesis using q by (intro queue_okI [of _ "acks @ [d]" datas]) simp_all
  next
    case (data k)
    then have "\<not> is_ack d" by (simp add: is_ack_def)
    then show ?thesis using q data by (intro queue_okI [of _ acks "datas @ [d]"]) simp_all
  qed
qed

lemma take_ack_ok:
  assumes "queue_ok p" "0 < bp_queuedAcks p"
  shows "\<exists>d. fst (take_ack p) = Some d \<and> is_ack d \<and> bp_queue p = d # bp_queue (snd (take_ack p))" "queue_ok (snd (take_ack p))"
proof -
  obtain acks datas where q: "bp_queue p = acks @ datas" "length acks = bp_queuedAcks p" "list_all is_ack acks"
    "list_all (\<lambda>d. \<not> is_ack d) datas" "bp_queuedKeys p = set (map (\<lambda>d. the (data_key d)) datas)"
    "distinct (map (\<lambda>d. the (data_key d)) datas)" "length (bp_queue p) \<le> kMaxQueuedDatagrams"
    using assms unfolding queue_ok_def by blast
  then obtain a acks' where a: "acks = a # acks'" using assms(2) by (cases acks) auto
  show "\<exists>d. fst (take_ack p) = Some d \<and> is_ack d \<and> bp_queue p = d # bp_queue (snd (take_ack p))"
    using q a assms(2) by (simp add: take_ack_def)
  show "queue_ok (snd (take_ack p))"
    using q a assms(2) by (intro queue_okI [of _ acks' datas]) (auto simp: take_ack_def)
qed

lemma take_data_ok:
  assumes "queue_ok p" "bp_queuedAcks p = 0" "bp_queue p \<noteq> []"
  shows "\<exists>d. fst (take_data now p) = Some d \<and> \<not> is_ack d \<and> bp_queue p = d # bp_queue (snd (take_data now p))"
    "queue_ok (snd (take_data now p))"
proof -
  obtain acks datas where q: "bp_queue p = acks @ datas" "length acks = bp_queuedAcks p" "list_all is_ack acks"
    "list_all (\<lambda>d. \<not> is_ack d) datas" "bp_queuedKeys p = set (map (\<lambda>d. the (data_key d)) datas)"
    "distinct (map (\<lambda>d. the (data_key d)) datas)" "length (bp_queue p) \<le> kMaxQueuedDatagrams"
    using assms unfolding queue_ok_def by blast
  then obtain d datas' where d: "datas = d # datas'" "acks = []" using assms(2,3) by (cases datas) auto
  then obtain k where k: "data_key d = Some k" using q(4) by (auto simp: is_ack_def)
  show "\<exists>d. fst (take_data now p) = Some d \<and> \<not> is_ack d \<and> bp_queue p = d # bp_queue (snd (take_data now p))"
    using q d k by (simp add: take_data_def Let_def is_ack_def)
  show "queue_ok (snd (take_data now p))"
    using q d k assms(2) by (intro queue_okI [of _ "[]" datas']) (auto simp: take_data_def Let_def)
qed

lemma filter_insert:
  assumes "queue_ok p" "is_ack d"
  shows "filter is_ack (take (bp_queuedAcks p) (bp_queue p) @ d # drop (bp_queuedAcks p) (bp_queue p)) = filter is_ack (bp_queue p) @ [d]"
    "filter (\<lambda>d. \<not> is_ack d) (take (bp_queuedAcks p) (bp_queue p) @ d # drop (bp_queuedAcks p) (bp_queue p)) =
      filter (\<lambda>d. \<not> is_ack d) (bp_queue p)"
proof -
  obtain acks datas where q: "bp_queue p = acks @ datas" "length acks = bp_queuedAcks p" "list_all is_ack acks"
    "list_all (\<lambda>d. \<not> is_ack d) datas" using assms(1) unfolding queue_ok_def by blast
  then have "filter is_ack datas = []" by (simp add: list_all_iff filter_empty_conv)
  then show "filter is_ack (take (bp_queuedAcks p) (bp_queue p) @ d # drop (bp_queuedAcks p) (bp_queue p)) = filter is_ack (bp_queue p) @ [d]"
    "filter (\<lambda>d. \<not> is_ack d) (take (bp_queuedAcks p) (bp_queue p) @ d # drop (bp_queuedAcks p) (bp_queue p)) =
      filter (\<lambda>d. \<not> is_ack d) (bp_queue p)"
    using q(2) assms(2) unfolding q(1) by simp_all
qed

lemma pacer_step_ok:
  assumes ok: "system_ok s" and calm: "undisturbed [op] s"
  shows "system_ok (pacer_step op s)"
proof (cases op)
  case (BpEnqueue g n d)
  have q: "queue_ok (py_pacer s)" using ok by (simp add: system_ok_def)
  show ?thesis
  proof (cases rule: enqueue_cases [of True g n d "py_pacer s"])
    case same
    then show ?thesis using ok enqueue_ok [OF q] by (auto simp: BpEnqueue system_ok_def Let_def)
  next
    case ack
    have "length (take n q @ d # drop n q) \<noteq> length q" for n and q :: "bytes list" by simp
    then have "take n q @ d # drop n q \<noteq> q" for n q by metis
    then show ?thesis using ack ok calm enqueue_ok [OF q] filter_insert [OF q ack(1)]
      by (auto simp: BpEnqueue system_ok_def Let_def)
  next
    case (data k)
    then have "\<not> is_ack d" by (simp add: is_ack_def)
    then show ?thesis using data ok enqueue_ok [OF q] by (auto simp: BpEnqueue system_ok_def Let_def)
  qed
next
  case BpLook
  then show ?thesis using ok by (auto simp: system_ok_def look_front_def)
next
  case (BpTake goes now)
  have q: "queue_ok (py_pacer s)" using ok by (simp add: system_ok_def)
  show ?thesis
  proof (cases "py_look s")
    case LookNothing
    then show ?thesis using ok by (simp add: BpTake system_ok_def)
  next
    case LookAck
    obtain d where d: "fst (take_ack (py_pacer s)) = Some d" "is_ack d" "bp_queue (py_pacer s) = d # bp_queue (snd (take_ack (py_pacer s)))"
      "queue_ok (snd (take_ack (py_pacer s)))"
      using take_ack_ok [OF q] ok LookAck by (auto simp: system_ok_def)
    then have t: "take_ack (py_pacer s) = (Some d, snd (take_ack (py_pacer s)))" by (metis prod.collapse)
    have "pacer_step op s = s\<lparr>py_pacer := snd (take_ack (py_pacer s)), py_look := LookNothing, py_sent := py_sent s @ [d]\<rparr>"
      by (subst BpTake, subst pacer_step.simps, subst LookAck, simp, subst t, simp)
    then show ?thesis using ok d unfolding system_ok_def by simp
  next
    case LookData
    show ?thesis
    proof (cases goes)
      case True
      obtain d where d: "fst (take_data now (py_pacer s)) = Some d" "\<not> is_ack d"
        "bp_queue (py_pacer s) = d # bp_queue (snd (take_data now (py_pacer s)))" "queue_ok (snd (take_data now (py_pacer s)))"
        using take_data_ok [OF q, of now] ok LookData by (auto simp: system_ok_def)
      then have t: "take_data now (py_pacer s) = (Some d, snd (take_data now (py_pacer s)))" by (metis prod.collapse)
      have "pacer_step op s = s\<lparr>py_pacer := snd (take_data now (py_pacer s)), py_look := LookNothing, py_sent := py_sent s @ [d]\<rparr>"
        using True by (subst BpTake, subst pacer_step.simps, subst LookData, simp, subst t, simp)
      then show ?thesis using ok d unfolding system_ok_def by simp
    next
      case False
      then show ?thesis using ok LookData by (simp add: BpTake system_ok_def)
    qed
  qed
qed

lemma started_ok: "system_ok started_system"
  by (simp add: system_ok_def started_system_def queue_ok_def started_pacer_def)

lemma pacer_run_ok: "system_ok s \<Longrightarrow> undisturbed ops s \<Longrightarrow> system_ok (pacer_run ops s)"
proof (induction ops arbitrary: s)
  case (Cons op ops)
  then have "system_ok (pacer_step op s)" by (intro pacer_step_ok) simp_all
  then show ?case using Cons by (simp add: pacer_run_def)
qed (simp add: pacer_run_def)

text \<open>
  C35. As long as no acknowledgement is queued between the two locks of a turn that saw data at the front, the
  pacer loses, repeats and invents nothing: the acknowledgements put in the queue are those that left and
  those still waiting, in order, and so are the data datagrams; acknowledgements wait in front, no data
  datagram waits twice, and never more than 256 wait.
\<close>

theorem pacer_order_kept:
  assumes "undisturbed ops started_system"
  defines "s \<equiv> pacer_run ops started_system"
  shows "filter is_ack (py_accepted s) = filter is_ack (py_sent s) @ take (bp_queuedAcks (py_pacer s)) (bp_queue (py_pacer s)) \<and>
    filter (\<lambda>d. \<not> is_ack d) (py_accepted s) = filter (\<lambda>d. \<not> is_ack d) (py_sent s) @ drop (bp_queuedAcks (py_pacer s)) (bp_queue (py_pacer s)) \<and>
    distinct (map data_key (drop (bp_queuedAcks (py_pacer s)) (bp_queue (py_pacer s)))) \<and> length (bp_queue (py_pacer s)) \<le> 256"
proof -
  have ok: "system_ok s" unfolding s_def by (rule pacer_run_ok [OF started_ok assms(1)])
  then obtain acks datas where q: "bp_queue (py_pacer s) = acks @ datas" "length acks = bp_queuedAcks (py_pacer s)" "list_all is_ack acks"
    "list_all (\<lambda>d. \<not> is_ack d) datas" "distinct (map (\<lambda>d. the (data_key d)) datas)" "length (bp_queue (py_pacer s)) \<le> kMaxQueuedDatagrams"
    unfolding system_ok_def queue_ok_def by blast
  have f: "filter is_ack (acks @ datas) = acks" "filter (\<lambda>d. \<not> is_ack d) (acks @ datas) = datas"
    using q(3,4) by (simp_all add: list_all_iff filter_empty_conv)
  have "distinct (map the (map data_key datas))" using q(5) by (simp add: comp_def)
  then have "distinct (map data_key datas)" by (simp only: distinct_map)
  then show ?thesis using ok q(2,6) f unfolding system_ok_def q(1) by (simp add: kMaxQueuedDatagrams_def)
qed

section \<open>A datagram stuck\<close>

text \<open>A key that stays although nothing with it waits: whatever has it is taken for a copy of what waits.\<close>

definition stuck :: "pacer_key \<Rightarrow> bulk_pacer \<Rightarrow> bool" where
  "stuck k p \<longleftrightarrow> k \<in> bp_queuedKeys p \<and> (\<forall>d\<in>set (bp_queue p). data_key d \<noteq> Some k)"

lemma stuck_enqueue: "stuck k p \<Longrightarrow> stuck k (snd (pacer_enqueue r g n d p))"
  by (rule enqueue_cases [of r g n d p]) (auto simp: stuck_def is_ack_def dest: in_set_takeD in_set_dropD)

lemma stuck_swallows: "stuck k p \<Longrightarrow> data_key d = Some k \<Longrightarrow>
    pacer_enqueue True g n d p = (True, p\<lparr>bp_resendsCoalesced := bp_resendsCoalesced p + 1\<rparr>)"
  by (auto simp: stuck_def pacer_enqueue_def data_key_def)

lemma stuck_take: "stuck k p \<Longrightarrow> stuck k (snd (take_ack p)) \<and> (\<forall>d. fst (take_ack p) = Some d \<longrightarrow> data_key d \<noteq> Some k)"
  "stuck k p \<Longrightarrow> stuck k (snd (take_data now p)) \<and> (\<forall>d. fst (take_data now p) = Some d \<longrightarrow> data_key d \<noteq> Some k)"
  by (auto simp: stuck_def take_ack_def take_data_def Let_def dest: list.set_sel split: option.splits)

lemma stuck_step:
  assumes "stuck k (py_pacer s)"
  shows "stuck k (py_pacer (pacer_step op s)) \<and> filter (\<lambda>d. data_key d = Some k) (py_sent (pacer_step op s)) =
    filter (\<lambda>d. data_key d = Some k) (py_sent s)"
proof (cases op)
  case (BpTake goes now)
  obtain a pa where a: "take_ack (py_pacer s) = (a, pa)" by (cases "take_ack (py_pacer s)")
  obtain b pb where b: "take_data now (py_pacer s) = (b, pb)" by (cases "take_data now (py_pacer s)")
  show ?thesis using stuck_take(1) [OF assms] stuck_take(2) [OF assms, of now] assms unfolding BpTake a b
    by (cases "py_look s") (auto simp: a b split: option.splits)
qed (use assms stuck_enqueue [OF assms] in \<open>simp_all add: Let_def\<close>)

lemma stuck_run: "stuck k (py_pacer s) \<Longrightarrow> stuck k (py_pacer (pacer_run ops s)) \<and>
    filter (\<lambda>d. data_key d = Some k) (py_sent (pacer_run ops s)) = filter (\<lambda>d. data_key d = Some k) (py_sent s)"
proof (induction ops arbitrary: s)
  case (Cons op ops)
  then show ?case using stuck_step [of k s op] by (simp add: pacer_run_def)
qed (simp add: pacer_run_def)

text \<open>A data datagram waits; the pacer looks and sees it; an acknowledgement is queued in front; the turn takes
  the acknowledgement for the data; the next turn takes the data for an acknowledgement.\<close>

definition sample_data :: bytes where
  "sample_data = encode_control_chunk_header (default_control_chunk_header\<lparr>cc_streamId := 9, cc_messageSeq := 4, cc_fragIndex := 2\<rparr>)"

definition sample_ack :: bytes where
  "sample_ack = [1]"

definition race_ops :: "pacer_op list" where
  "race_ops = [BpEnqueue 0 100 sample_data, BpLook, BpEnqueue 0 110 sample_ack, BpTake True 120, BpLook, BpTake True 130]"

lemma sample_key: "data_key sample_data = Some (9, 4, 2)"
  using decode_encode_control_chunk_header [of "default_control_chunk_header\<lparr>cc_streamId := 9, cc_messageSeq := 4, cc_fragIndex := 2\<rparr>" "[]"]
  by (simp add: data_key_def sample_data_def Let_def default_control_chunk_header_def)

lemma sample_is_data: "sample_data \<noteq> []"
  using sample_key by (auto simp: data_key_def)

lemma sample_ack_key: "data_key sample_ack = None"
  by (simp add: data_key_def sample_ack_def control_chunk_header_size_def)

lemma sample_ack_nonempty: "sample_ack \<noteq> []"
  by (simp add: sample_ack_def)

lemma race_state: "py_sent (pacer_run race_ops started_system) = [sample_ack, sample_data] \<and>
    bp_queue (py_pacer (pacer_run race_ops started_system)) = [] \<and>
    bp_queuedKeys (py_pacer (pacer_run race_ops started_system)) = {(9, 4, 2)}"
  by (simp add: pacer_run_def race_ops_def started_system_def started_pacer_def pacer_enqueue_def put_queue_def sample_key sample_is_data
      sample_ack_key kMaxQueuedDatagrams_def look_front_def take_data_def take_ack_def count_sent_def Let_def
      sample_ack_nonempty)

definition calm_ops :: "pacer_op list" where
  "calm_ops = [BpEnqueue 0 100 sample_data, BpEnqueue 0 110 sample_ack, BpLook, BpTake True 120]"

lemma calm_undisturbed: "undisturbed calm_ops started_system"
  by (simp add: calm_ops_def started_system_def Let_def)

theorem pacer_order_kept_witness:
  "filter is_ack (py_accepted (pacer_run calm_ops started_system)) = filter is_ack (py_sent (pacer_run calm_ops started_system)) @
     take (bp_queuedAcks (py_pacer (pacer_run calm_ops started_system))) (bp_queue (py_pacer (pacer_run calm_ops started_system)))"
  using pacer_order_kept [OF calm_undisturbed] by simp

text \<open>
  C36. The two locks of a turn are not one. From a fresh pacer there is an order of three ordinary calls and two
  turns after which a data datagram has left, its key is still in the set of those waiting, and so it can
  never leave again: whatever else is queued and sent until the pacer stops, every resend of it is answered
  with success and dropped.
\<close>

theorem pacer_key_stuck:
  "\<exists>ops d. data_key d \<noteq> None \<and> filter (\<lambda>x. x = d) (py_sent (pacer_run ops started_system)) = [d] \<and>
    bp_queue (py_pacer (pacer_run ops started_system)) = [] \<and>
    (\<forall>more guard now. let s = pacer_run (ops @ more) started_system in
      filter (\<lambda>x. x = d) (py_sent s) = [d] \<and> fst (pacer_enqueue True guard now d (py_pacer s)) \<and>
      bp_queue (snd (pacer_enqueue True guard now d (py_pacer s))) = bp_queue (py_pacer s))"
proof (intro exI conjI allI)
  let ?s = "\<lambda>more. pacer_run (race_ops @ more) started_system"
  have run: "?s more = pacer_run more (pacer_run race_ops started_system)" for more by (simp add: pacer_run_def)
  have s: "stuck (9, 4, 2) (py_pacer (pacer_run race_ops started_system))" using race_state by (simp add: stuck_def)
  have data: "filter (\<lambda>x. x = sample_data) xs = filter (\<lambda>x. x = sample_data) (filter (\<lambda>x. data_key x = Some (9, 4, 2)) xs)" for xs
    using sample_key by (induction xs) auto
  have sent: "filter (\<lambda>x. x = sample_data) (py_sent (pacer_run race_ops started_system)) = [sample_data]"
    using race_state sample_key sample_ack_key by auto
  show "data_key sample_data \<noteq> None" using sample_key by simp
  show "filter (\<lambda>x. x = sample_data) (py_sent (pacer_run race_ops started_system)) = [sample_data]" by (rule sent)
  show "bp_queue (py_pacer (pacer_run race_ops started_system)) = []" using race_state by simp
  fix more guard now
  have st: "stuck (9, 4, 2) (py_pacer (?s more))"
    "filter (\<lambda>x. data_key x = Some (9, 4, 2)) (py_sent (?s more)) =
      filter (\<lambda>x. data_key x = Some (9, 4, 2)) (py_sent (pacer_run race_ops started_system))"
    unfolding run using stuck_run [OF s] by blast+
  have "filter (\<lambda>x. x = sample_data) (py_sent (?s more)) = [sample_data]"
    using data [of "py_sent (?s more)"] st(2) data [of "py_sent (pacer_run race_ops started_system)"] sent by simp
  then show "let s = ?s more in filter (\<lambda>x. x = sample_data) (py_sent s) = [sample_data] \<and>
      fst (pacer_enqueue True guard now sample_data (py_pacer s)) \<and>
      bp_queue (snd (pacer_enqueue True guard now sample_data (py_pacer s))) = bp_queue (py_pacer s)"
    using stuck_swallows [OF st(1) sample_key, of guard now] by (simp add: Let_def)
qed

end
