(* ===== verification/EpochGate.thy ===== *)
theory EpochGate
  imports Prelude
begin

text \<open>
  Which access units of the encoder may leave after a flush: the queue of accepted inputs of
  \<open>mf_h264_codec.hpp\<close> (\<open>PendingInputFifo\<close>), the gate of \<open>host_epoch_gate.hpp\<close> and what
  \<open>host_encoder_manager.hpp\<close> and the encode stage (\<open>host_stage_encode_send_h264_au.cpp\<close>) do with its verdict.
  An input is its flush epoch. The encoder is Media Foundation's: all that is used of it is that it answers
  inputs in order, at any time, with or without bytes, and forgets them when it is built anew.
\<close>

section \<open>The queue of accepted inputs\<close>

definition kMaxEntries :: nat where "kMaxEntries = 64"

record input_fifo =
  fi_entries :: "u64 list"
  fi_provenanceInvalid :: bool
  fi_overflowTotal :: u64
  fi_fallbackTotal :: u64

definition new_fifo :: input_fifo where
  "new_fifo = \<lparr>fi_entries = [], fi_provenanceInvalid = False, fi_overflowTotal = 0, fi_fallbackTotal = 0\<rparr>"

definition fifo_push :: "u64 \<Rightarrow> input_fifo \<Rightarrow> input_fifo" where
  "fifo_push e f = (if length (fi_entries f @ [e]) \<le> kMaxEntries then f\<lparr>fi_entries := fi_entries f @ [e]\<rparr>
     else f\<lparr>fi_entries := [], fi_provenanceInvalid := True, fi_overflowTotal := fi_overflowTotal f + 1,
       fi_fallbackTotal := fi_fallbackTotal f + 1\<rparr>)"

definition fifo_pop :: "input_fifo \<Rightarrow> u64 option \<times> input_fifo" where
  "fifo_pop f = (case fi_entries f of
     [] \<Rightarrow> (None, f\<lparr>fi_fallbackTotal := fi_fallbackTotal f + 1\<rparr>)
   | e # es \<Rightarrow> (Some e, f\<lparr>fi_entries := es\<rparr>))"

definition fifo_pop_empty :: "input_fifo \<Rightarrow> input_fifo" where
  "fifo_pop_empty f = (case fi_entries f of
     [] \<Rightarrow> f
   | e # es \<Rightarrow> f\<lparr>fi_entries := es, fi_fallbackTotal := fi_fallbackTotal f + 1\<rparr>)"

definition fifo_clear :: "input_fifo \<Rightarrow> input_fifo" where
  "fifo_clear f = f\<lparr>fi_entries := []\<rparr>"

definition fifo_reset :: "input_fifo \<Rightarrow> input_fifo" where
  "fifo_reset f = f\<lparr>fi_entries := [], fi_provenanceInvalid := False\<rparr>"

text \<open>The epoch an output with bytes is stamped with: its input's, or 0 when that is not known.\<close>

definition stamp_output :: "input_fifo \<Rightarrow> u64 \<times> input_fifo" where
  "stamp_output f =
    (case fifo_pop f of (e, f) \<Rightarrow> (if fi_provenanceInvalid f then 0 else case e of Some e \<Rightarrow> e | None \<Rightarrow> 0, f))"

section \<open>The gate\<close>

definition kAwaitMaxUs :: u64 where "kAwaitMaxUs = 700000"
definition kAwaitMaxDropped :: u32 where "kAwaitMaxDropped = 12"
definition kResetMaxPerWindow :: u32 where "kResetMaxPerWindow = 3"
definition kResetWindowUs :: u64 where "kResetWindowUs = 10000000"

record epoch_gate =
  eg_epoch :: u64
  eg_awaitingKey :: bool
  eg_provenanceInvalid :: bool
  eg_awaitSinceUs :: u64
  eg_awaitDropped :: u32
  eg_resetWindowStartUs :: u64
  eg_resetsInWindow :: u32
  eg_droppedOldEpoch :: u64
  eg_droppedUnknownEpoch :: u64
  eg_droppedAwaitingKey :: u64
  eg_droppedBytes :: u64
  eg_keysAccepted :: u64
  eg_resetsRequested :: u64
  eg_resetsSuppressed :: u64
  eg_epochsSeen :: u64
  eg_reclosedByUnknown :: u64
  eg_droppedProvenanceInvalid :: u64

definition new_gate :: epoch_gate where
  "new_gate = \<lparr>eg_epoch = 0, eg_awaitingKey = False, eg_provenanceInvalid = False, eg_awaitSinceUs = 0, eg_awaitDropped = 0,
     eg_resetWindowStartUs = 0, eg_resetsInWindow = 0, eg_droppedOldEpoch = 0, eg_droppedUnknownEpoch = 0, eg_droppedAwaitingKey = 0,
     eg_droppedBytes = 0, eg_keysAccepted = 0, eg_resetsRequested = 0, eg_resetsSuppressed = 0, eg_epochsSeen = 0,
     eg_reclosedByUnknown = 0, eg_droppedProvenanceInvalid = 0\<rparr>"

datatype epoch_verdict = VEmit | VDropOldEpoch | VDropAwaitingKey | VAcceptKey | VResetEncoder | VDropUnknownEpoch

text \<open>One rebuild out of the budget of the window.\<close>

definition take_reset_budget :: "u64 \<Rightarrow> epoch_gate \<Rightarrow> bool \<times> epoch_gate" where
  "take_reset_budget now g =
    (let g = (if eg_resetWindowStartUs g = 0 \<or> eg_resetWindowStartUs g + kResetWindowUs \<le> now
              then g\<lparr>eg_resetWindowStartUs := now, eg_resetsInWindow := 0\<rparr> else g) in
     if kResetMaxPerWindow \<le> eg_resetsInWindow g then (False, g\<lparr>eg_resetsSuppressed := eg_resetsSuppressed g + 1\<rparr>)
     else (True, g\<lparr>eg_resetsInWindow := eg_resetsInWindow g + 1, eg_resetsRequested := eg_resetsRequested g + 1\<rparr>))"

definition request_reset :: "u64 \<Rightarrow> epoch_gate \<Rightarrow> epoch_verdict \<times> epoch_gate" where
  "request_reset now g = (case take_reset_budget now g of (ok, g) \<Rightarrow> (if ok then VResetEncoder else VDropAwaitingKey, g))"

definition bound_exceeded :: "u64 \<Rightarrow> epoch_gate \<Rightarrow> bool" where
  "bound_exceeded now g \<longleftrightarrow> eg_awaitingKey g \<and> (kAwaitMaxDropped \<le> eg_awaitDropped g \<or> eg_awaitSinceUs g + kAwaitMaxUs \<le> now)"

text \<open>The wait for a key begins anew.\<close>

definition await_key :: "u64 \<Rightarrow> epoch_gate \<Rightarrow> epoch_gate" where
  "await_key now g = g\<lparr>eg_awaitingKey := True, eg_awaitSinceUs := now, eg_awaitDropped := 0\<rparr>"

definition drop_or_reset :: "epoch_verdict \<Rightarrow> u64 \<Rightarrow> epoch_gate \<Rightarrow> epoch_verdict \<times> epoch_gate" where
  "drop_or_reset v now g = (if bound_exceeded now g then request_reset now g else (v, g))"

definition judge_drop :: "u64 \<Rightarrow> u64 \<Rightarrow> nat \<Rightarrow> u64 \<Rightarrow> epoch_gate \<Rightarrow> epoch_verdict \<times> epoch_gate" where
  "judge_drop epochNow auEpoch auBytes now g =
    (let g = g\<lparr>eg_droppedBytes := eg_droppedBytes g + of_nat auBytes\<rparr>;
         g = (if eg_awaitingKey g then g\<lparr>eg_awaitDropped := eg_awaitDropped g + 1\<rparr> else g);
         unknown = (auEpoch = 0 \<or> epochNow < auEpoch) in
     if eg_provenanceInvalid g then
       (let g = g\<lparr>eg_droppedProvenanceInvalid := eg_droppedProvenanceInvalid g + 1\<rparr>;
            g = (if unknown then g\<lparr>eg_droppedUnknownEpoch := eg_droppedUnknownEpoch g + 1\<rparr> else g) in
        drop_or_reset VDropUnknownEpoch now g)
     else if unknown then
       (let g = g\<lparr>eg_droppedUnknownEpoch := eg_droppedUnknownEpoch g + 1\<rparr>;
            g = (if eg_awaitingKey g then g
                 else g\<lparr>eg_awaitingKey := True, eg_awaitSinceUs := now, eg_awaitDropped := 1,
                   eg_reclosedByUnknown := eg_reclosedByUnknown g + 1\<rparr>) in
        drop_or_reset VDropUnknownEpoch now g)
     else if auEpoch < epochNow then drop_or_reset VDropOldEpoch now (g\<lparr>eg_droppedOldEpoch := eg_droppedOldEpoch g + 1\<rparr>)
     else drop_or_reset VDropAwaitingKey now (g\<lparr>eg_droppedAwaitingKey := eg_droppedAwaitingKey g + 1\<rparr>))"

definition judge :: "u64 \<Rightarrow> u64 \<Rightarrow> bool \<Rightarrow> nat \<Rightarrow> u64 \<Rightarrow> epoch_gate \<Rightarrow> epoch_verdict \<times> epoch_gate" where
  "judge epochNow auEpoch auKey auBytes now g =
    (let g = (if eg_provenanceInvalid g \<and> \<not> eg_awaitingKey g then await_key now g else g);
         g = (if epochNow \<noteq> eg_epoch g then (await_key now g)\<lparr>eg_epoch := epochNow, eg_epochsSeen := eg_epochsSeen g + 1\<rparr> else g) in
     if auEpoch = epochNow \<and> \<not> eg_provenanceInvalid g \<and> \<not> eg_awaitingKey g then (VEmit, g)
     else if auEpoch = epochNow \<and> \<not> eg_provenanceInvalid g \<and> auKey then
       (VAcceptKey, g\<lparr>eg_awaitingKey := False, eg_keysAccepted := eg_keysAccepted g + 1\<rparr>)
     else judge_drop epochNow auEpoch auBytes now g)"

section \<open>The encoder and the stage around it\<close>

text \<open>
  \<open>es_mft\<close> are the epochs of the inputs the encoder really holds, oldest first; \<open>es_units\<close> the access units of
  the call under way that are not judged yet: the epoch stamped, the one of the input it was really made
  from, whether it is a key, its size. \<open>es_log\<close> is what the stage did with each: sent it, with its real epoch
  and the host's, or refused it because nothing vouches for it.
\<close>

datatype gate_event = Sent u64 u64 bool | Unvouched

record epoch_system =
  es_inputEpoch :: u64
  es_gate :: epoch_gate
  es_fifo :: input_fifo
  es_resyncPending :: bool
  es_mft :: "u64 list"
  es_units :: "(u64 \<times> u64 \<times> bool \<times> nat) list"
  es_log :: "gate_event list"

definition started_epoch_system :: epoch_system where
  "started_epoch_system = \<lparr>es_inputEpoch = 1, es_gate = new_gate, es_fifo = new_fifo, es_resyncPending = False, es_mft = [], es_units = [], es_log = []\<rparr>"

text \<open>\<open>NoteProvenance\<close>, after every encode call.\<close>

definition note_provenance :: "epoch_system \<Rightarrow> epoch_system" where
  "note_provenance s =
    (if \<not> fi_provenanceInvalid (es_fifo s) \<or> eg_provenanceInvalid (es_gate s) then s
     else s\<lparr>es_gate := (es_gate s)\<lparr>eg_provenanceInvalid := True\<rparr>, es_resyncPending := True\<rparr>)"

text \<open>\<open>shutdown\<close>, and \<open>initialize\<close> when it succeeds: the encoder forgets what it held.\<close>

definition codec_shutdown :: "epoch_system \<Rightarrow> epoch_system" where
  "codec_shutdown s = s\<lparr>es_fifo := fifo_clear (es_fifo s), es_mft := []\<rparr>"

definition codec_initialize :: "epoch_system \<Rightarrow> epoch_system" where
  "codec_initialize s = s\<lparr>es_fifo := fifo_reset (es_fifo s), es_mft := []\<rparr>"

definition reset_timeline_anchors :: "epoch_system \<Rightarrow> epoch_system" where
  "reset_timeline_anchors s = s\<lparr>es_inputEpoch := es_inputEpoch s + 1\<rparr>"

definition try_provenance_resync :: "bool \<Rightarrow> u64 \<Rightarrow> epoch_system \<Rightarrow> epoch_system" where
  "try_provenance_resync initialized now s =
    (if \<not> es_resyncPending s then s
     else case take_reset_budget now (es_gate s) of (ok, g) \<Rightarrow>
       let s = s\<lparr>es_gate := g\<rparr> in
       if \<not> ok then s
       else let s = codec_shutdown s in
         if \<not> initialized then s
         else let s = reset_timeline_anchors (codec_initialize s) in
           s\<lparr>es_gate := await_key now ((es_gate s)\<lparr>eg_provenanceInvalid := False\<rparr>), es_resyncPending := False\<rparr>)"

text \<open>The next unit of the call judged, and what the stage does with the verdict.\<close>

definition stage_unit :: "bool \<Rightarrow> u64 \<Rightarrow> epoch_system \<Rightarrow> epoch_system" where
  "stage_unit initialized now s =
    (case es_units s of
       [] \<Rightarrow> s
     | (auEpoch, made, key, bytes) # rest \<Rightarrow>
        (case judge (es_inputEpoch s) auEpoch key bytes now (es_gate s) of (v, g) \<Rightarrow>
          (let s = s\<lparr>es_gate := g, es_units := rest\<rparr> in
          (case v of
            VEmit \<Rightarrow> s\<lparr>es_log := es_log s @ [Sent made (es_inputEpoch s) key]\<rparr>
          | VAcceptKey \<Rightarrow> s\<lparr>es_log := es_log s @ [Sent made (es_inputEpoch s) key]\<rparr>
          | VDropUnknownEpoch \<Rightarrow> s\<lparr>es_log := es_log s @ [Unvouched]\<rparr>
          | VResetEncoder \<Rightarrow>
              (let s = (codec_shutdown s)\<lparr>es_units := []\<rparr> in
              if \<not> initialized then s
              else let s = reset_timeline_anchors (codec_initialize s) in s\<lparr>es_gate := await_key now (es_gate s)\<rparr>)
          | _ \<Rightarrow> s))))"

text \<open>
  A step: an input accepted with the epoch of the moment, an answer of the encoder with bytes or without (only
  to an input it holds), the end of an encode call, which leaves no units when it failed, a unit judged, a capture flush, the retry of a rebuild, a
  new encoder for new parameters (\<open>ApplyTarget\<close>), which is a flush too.
\<close>

datatype epoch_op = EoInput | EoOutput bool nat | EoEmptyOutput | EoCallEnds bool | EoUnit bool u64 | EoFlush | EoResync bool u64 | EoNewEncoder

fun epoch_step :: "epoch_op \<Rightarrow> epoch_system \<Rightarrow> epoch_system" where
  "epoch_step EoInput s = s\<lparr>es_fifo := fifo_push (es_inputEpoch s) (es_fifo s), es_mft := es_mft s @ [es_inputEpoch s]\<rparr>"
| "epoch_step (EoOutput key bytes) s =
    (case es_mft s of
       [] \<Rightarrow> s
     | made # rest \<Rightarrow> (case stamp_output (es_fifo s) of (e, f) \<Rightarrow>
         s\<lparr>es_fifo := f, es_mft := rest, es_units := es_units s @ [(e, made, key, bytes)]\<rparr>))"
| "epoch_step EoEmptyOutput s =
    (case es_mft s of [] \<Rightarrow> s | made # rest \<Rightarrow> s\<lparr>es_fifo := fifo_pop_empty (es_fifo s), es_mft := rest\<rparr>)"
| "epoch_step (EoCallEnds ok) s = (if ok then note_provenance s else (note_provenance s)\<lparr>es_units := []\<rparr>)"
| "epoch_step (EoUnit initialized now) s = stage_unit initialized now s"
| "epoch_step EoFlush s = reset_timeline_anchors s"
| "epoch_step (EoResync initialized now) s = try_provenance_resync initialized now s"
| "epoch_step EoNewEncoder s = reset_timeline_anchors (codec_initialize (codec_shutdown s))"

definition epoch_run :: "epoch_op list \<Rightarrow> epoch_system \<Rightarrow> epoch_system" where
  "epoch_run ops s = fold epoch_step ops s"

section \<open>What leaves\<close>

text \<open>
  The chain of pictures at the viewer, read off the log: the epoch it is in, or none before the first key and
  after an output nothing vouches for. A picture that continues the chain or is a key may follow.
\<close>

fun chain :: "gate_event list \<Rightarrow> u64 option \<Rightarrow> u64 option" where
  "chain [] c = c"
| "chain (Sent made now key # es) c = chain es (Some now)"
| "chain (Unvouched # es) c = chain es None"

fun chain_ok :: "gate_event list \<Rightarrow> u64 option \<Rightarrow> bool" where
  "chain_ok [] c \<longleftrightarrow> True"
| "chain_ok (Sent made now key # es) c \<longleftrightarrow> made = now \<and> (key \<or> c = Some now) \<and> chain_ok es (Some now)"
| "chain_ok (Unvouched # es) c \<longleftrightarrow> chain_ok es None"

lemma chain_append: "chain (es @ fs) c = chain fs (chain es c)"
  by (induction es c rule: chain.induct) auto

lemma chain_ok_append: "chain_ok (es @ fs) c \<longleftrightarrow> chain_ok es c \<and> chain_ok fs (chain es c)"
  by (induction es c rule: chain_ok.induct) auto

section \<open>What the gate keeps\<close>

lemma budget_keeps [simp]: "eg_awaitingKey (snd (take_reset_budget now g)) = eg_awaitingKey g" "eg_epoch (snd (take_reset_budget now g)) = eg_epoch g"
  by (simp_all add: take_reset_budget_def Let_def)

lemma drop_or_reset_keeps [simp]: "eg_awaitingKey (snd (drop_or_reset v now g)) = eg_awaitingKey g"
    "eg_epoch (snd (drop_or_reset v now g)) = eg_epoch g"
  using budget_keeps [of now g] by (cases "take_reset_budget now g"; simp add: drop_or_reset_def request_reset_def)+

lemma drop_or_reset_verdict [simp]: "fst (drop_or_reset v now g) = VEmit \<longleftrightarrow> v = VEmit \<and> \<not> bound_exceeded now g"
    "fst (drop_or_reset v now g) = VAcceptKey \<longleftrightarrow> v = VAcceptKey \<and> \<not> bound_exceeded now g"
    "fst (drop_or_reset v now g) = VDropUnknownEpoch \<longleftrightarrow> v = VDropUnknownEpoch \<and> \<not> bound_exceeded now g"
  by (cases "take_reset_budget now g"; simp add: drop_or_reset_def request_reset_def)+

lemma judge_drop_keeps: "eg_epoch (snd (judge_drop epochNow e b now g)) = eg_epoch g"
    "eg_awaitingKey g \<Longrightarrow> eg_awaitingKey (snd (judge_drop epochNow e b now g))"
  by (simp_all add: judge_drop_def Let_def)

lemma judge_drop_verdict: "fst (judge_drop epochNow e b now g) \<noteq> VEmit" "fst (judge_drop epochNow e b now g) \<noteq> VAcceptKey"
    "fst (judge_drop epochNow e b now g) = VDropUnknownEpoch \<Longrightarrow> eg_provenanceInvalid g \<or> eg_awaitingKey (snd (judge_drop epochNow e b now g))"
  by (simp_all add: judge_drop_def Let_def split: if_splits) auto

lemma judge_drop_open: "\<not> eg_awaitingKey (snd (judge_drop epochNow e b now g)) \<Longrightarrow> \<not> eg_awaitingKey g"
  by (simp add: judge_drop_def Let_def split: if_splits)

lemma await_key_awaits [simp]: "eg_awaitingKey (await_key now g)" "eg_epoch (await_key now g) = eg_epoch g"
  "eg_provenanceInvalid (await_key now g) = eg_provenanceInvalid g"
  by (simp_all add: await_key_def)

text \<open>A verdict, against the chain the gate stands for.\<close>

definition gate_ok :: "epoch_gate \<Rightarrow> u64 option \<Rightarrow> bool" where
  "gate_ok g c \<longleftrightarrow> eg_awaitingKey g \<or> eg_epoch g = 0 \<or> c = Some (eg_epoch g)"

lemma judge_cases:
  assumes "gate_ok g c" "epochNow \<noteq> 0" and j: "judge epochNow e key b now g = (v, g')"
  obtains (sent) "v = VEmit \<or> v = VAcceptKey" "e = epochNow" "key \<or> c = Some epochNow" "gate_ok g' (Some epochNow)"
    | (unknown) "v = VDropUnknownEpoch" "gate_ok g' None"
    | (dropped) "v \<notin> {VEmit, VAcceptKey, VDropUnknownEpoch}" "gate_ok g' c"
proof -
  define g1 where "g1 = (if eg_provenanceInvalid g \<and> \<not> eg_awaitingKey g then await_key now g else g)"
  define g2 where "g2 = (if epochNow \<noteq> eg_epoch g1 then (await_key now g1)\<lparr>eg_epoch := epochNow, eg_epochsSeen := eg_epochsSeen g1 + 1\<rparr> else g1)"
  have g2: "eg_epoch g2 = epochNow" "eg_awaitingKey g2 \<or> c = Some epochNow" "eg_provenanceInvalid g2 \<longrightarrow> eg_awaitingKey g2"
    using assms(1,2) by (auto simp: g1_def g2_def gate_ok_def)
  have j: "(v, g') = (if e = epochNow \<and> \<not> eg_provenanceInvalid g2 \<and> \<not> eg_awaitingKey g2 then (VEmit, g2)
     else if e = epochNow \<and> \<not> eg_provenanceInvalid g2 \<and> key then
       (VAcceptKey, g2\<lparr>eg_awaitingKey := False, eg_keysAccepted := eg_keysAccepted g2 + 1\<rparr>)
     else judge_drop epochNow e b now g2)"
    using j unfolding judge_def Let_def g1_def g2_def by simp
  show thesis
  proof (cases "e = epochNow \<and> \<not> eg_provenanceInvalid g2 \<and> (key \<or> \<not> eg_awaitingKey g2)")
    case True
    then show thesis using sent j g2 by (auto simp: gate_ok_def split: if_splits)
  next
    case False
    then have "judge_drop epochNow e b now g2 = (v, g')" using j by (simp split: if_splits) blast+
    then have d: "v = fst (judge_drop epochNow e b now g2)" "g' = snd (judge_drop epochNow e b now g2)" by simp_all
    show thesis
    proof (cases "v = VDropUnknownEpoch")
      case True
      then have "eg_awaitingKey g'" using judge_drop_verdict(3) [of epochNow e b now g2] judge_drop_keeps(2) [of g2 epochNow e b now] g2(3) d by auto
      then show thesis using unknown True by (simp add: gate_ok_def)
    next
      case known: False
      have "gate_ok g' c" using judge_drop_open [of epochNow e b now g2] judge_drop_keeps(1) [of epochNow e b now g2] g2 d by (auto simp: gate_ok_def)
      then show thesis using dropped known judge_drop_verdict(1,2) [of epochNow e b now g2] d by simp
    qed
  qed
qed

section \<open>Every run\<close>

definition epoch_inv :: "nat \<Rightarrow> epoch_system \<Rightarrow> bool" where
  "epoch_inv n s \<longleftrightarrow> 1 \<le> unat (es_inputEpoch s) \<and> unat (es_inputEpoch s) \<le> n \<and>
     list_all (\<lambda>(e, made, key, bytes). e = 0 \<or> e = made) (es_units s) \<and>
     (fi_provenanceInvalid (es_fifo s) \<or> fi_entries (es_fifo s) = es_mft s) \<and>
     gate_ok (es_gate s) (chain (es_log s) None) \<and> chain_ok (es_log s) None"

lemma epoch_inv_mono: "epoch_inv n s \<Longrightarrow> epoch_inv (Suc n) s"
  by (simp add: epoch_inv_def)

lemma flush_inv: "epoch_inv n s \<Longrightarrow> Suc n < 2 ^ 64 \<Longrightarrow> epoch_inv (Suc n) (reset_timeline_anchors s)"
  by (simp add: epoch_inv_def reset_timeline_anchors_def unat_word_ariths)

lemma codec_inv: "epoch_inv n s \<Longrightarrow> epoch_inv n (codec_shutdown s)" "epoch_inv n s \<Longrightarrow> epoch_inv n (codec_initialize s)"
  by (auto simp: epoch_inv_def codec_shutdown_def codec_initialize_def fifo_clear_def fifo_reset_def)

lemma gate_inv: "epoch_inv n s \<Longrightarrow> gate_ok g (chain (es_log s) None) \<Longrightarrow> epoch_inv n (s\<lparr>es_gate := g\<rparr>)"
  by (simp add: epoch_inv_def)

lemma await_ok: "gate_ok (await_key now g) c" "eg_awaitingKey g \<Longrightarrow> gate_ok g c"
  by (simp_all add: gate_ok_def)

lemma budget_ok: "gate_ok g c \<Longrightarrow> gate_ok (snd (take_reset_budget now g)) c"
  by (simp add: gate_ok_def)

lemma note_inv: "epoch_inv n s \<Longrightarrow> epoch_inv n (note_provenance s)"
  by (simp add: note_provenance_def epoch_inv_def gate_ok_def)

lemma units_inv: "epoch_inv n s \<Longrightarrow> list_all (\<lambda>(e, made, key, bytes). e = 0 \<or> e = made) us \<Longrightarrow> epoch_inv n (s\<lparr>es_units := us\<rparr>)"
  by (simp add: epoch_inv_def)

lemma rebuild_inv: "epoch_inv n s \<Longrightarrow> Suc n < 2 ^ 64 \<Longrightarrow> epoch_inv (Suc n) (reset_timeline_anchors (codec_initialize s))"
  by (intro flush_inv codec_inv)

lemma resync_inv:
  assumes "epoch_inv n s" "Suc n < 2 ^ 64"
  shows "epoch_inv (Suc n) (try_provenance_resync initialized now s)"
proof (cases "es_resyncPending s")
  case False
  then show ?thesis using epoch_inv_mono [OF assms(1)] by (simp add: try_provenance_resync_def)
next
  case True
  obtain ok g where b: "take_reset_budget now (es_gate s) = (ok, g)" by (cases "take_reset_budget now (es_gate s)")
  then have "gate_ok g (chain (es_log s) None)" using budget_ok [of "es_gate s" "chain (es_log s) None" now] assms(1) by (simp add: epoch_inv_def)
  then have inv: "epoch_inv n (s\<lparr>es_gate := g\<rparr>)" using gate_inv [OF assms(1)] by blast
  have "epoch_inv (Suc n) ((reset_timeline_anchors (codec_initialize (codec_shutdown (s\<lparr>es_gate := g\<rparr>))))
      \<lparr>es_gate := await_key now h, es_resyncPending := False\<rparr>)" for h
    using rebuild_inv [OF codec_inv(1) [OF inv] assms(2)] by (simp add: epoch_inv_def await_ok)
  then show ?thesis using True b epoch_inv_mono [OF inv] epoch_inv_mono [OF codec_inv(1) [OF inv]]
    by (simp add: try_provenance_resync_def Let_def)
qed

lemma unit_inv:
  assumes inv: "epoch_inv n s" and n: "Suc n < 2 ^ 64"
  shows "epoch_inv (Suc n) (stage_unit initialized now s)"
proof (cases "es_units s")
  case Nil
  then show ?thesis using epoch_inv_mono [OF inv] by (simp add: stage_unit_def)
next
  case (Cons u rest)
  obtain e made key bytes where u: "u = (e, made, key, bytes)" by (cases u)
  obtain v g where j: "judge (es_inputEpoch s) e key bytes now (es_gate s) = (v, g)" by (cases "judge (es_inputEpoch s) e key bytes now (es_gate s)")
  have pos: "es_inputEpoch s \<noteq> 0" using inv by (auto simp: epoch_inv_def)
  have gate: "gate_ok (es_gate s) (chain (es_log s) None)" using inv by (simp add: epoch_inv_def)
  have rest: "epoch_inv n (s\<lparr>es_gate := h, es_units := rest\<rparr>)" if "gate_ok h (chain (es_log s) None)" for h
    using inv Cons that by (simp add: epoch_inv_def)
  from gate pos j show ?thesis
  proof (cases rule: judge_cases)
    case sent
    have "made = es_inputEpoch s" using inv Cons u sent(2) pos by (auto simp: epoch_inv_def)
    then show ?thesis using sent inv Cons u j by (auto simp: stage_unit_def epoch_inv_def chain_append chain_ok_append)
  next
    case unknown
    then show ?thesis using inv Cons u j by (simp add: stage_unit_def epoch_inv_def chain_append chain_ok_append)
  next
    case dropped
    note r = rest [OF dropped(2)]
    have b: "epoch_inv n ((codec_shutdown (s\<lparr>es_gate := g, es_units := rest\<rparr>))\<lparr>es_units := []\<rparr>)"
      by (rule units_inv [OF codec_inv(1) [OF r]]) simp
    have "epoch_inv (Suc n) ((reset_timeline_anchors (codec_initialize ((codec_shutdown (s\<lparr>es_gate := g, es_units := rest\<rparr>))\<lparr>es_units := []\<rparr>)))
        \<lparr>es_gate := await_key now h\<rparr>)" for h
      by (rule gate_inv [OF rebuild_inv [OF b n] await_ok(1)])
    then show ?thesis using dropped(1) epoch_inv_mono [OF r] epoch_inv_mono [OF b] Cons u j
      by (cases v) (simp_all add: stage_unit_def Let_def)
  qed
qed

lemma epoch_step_inv:
  assumes inv: "epoch_inv n s" and n: "Suc n < 2 ^ 64"
  shows "epoch_inv (Suc n) (epoch_step op s)"
proof (cases op)
  case EoInput
  then show ?thesis using inv by (auto simp: epoch_inv_def fifo_push_def)
next
  case (EoOutput key bytes)
  then show ?thesis using inv
    by (cases "es_mft s") (auto simp: epoch_inv_def stamp_output_def fifo_pop_def split: list.splits prod.splits)
next
  case (EoCallEnds ok)
  then show ?thesis using epoch_inv_mono [OF note_inv [OF inv]] units_inv [of "Suc n" "note_provenance s" "[]"] by simp
next
  case EoEmptyOutput
  then show ?thesis using inv by (cases "es_mft s") (auto simp: epoch_inv_def fifo_pop_empty_def split: list.splits)
qed (use inv n in \<open>simp_all add: epoch_inv_mono note_inv unit_inv flush_inv resync_inv rebuild_inv codec_inv\<close>)

lemma epoch_run_inv: "epoch_inv n s \<Longrightarrow> n + length ops < 2 ^ 64 \<Longrightarrow> epoch_inv (n + length ops) (epoch_run ops s)"
proof (induction ops arbitrary: n s)
  case (Cons op ops)
  have "epoch_inv (Suc n) (epoch_step op s)" by (rule epoch_step_inv) (use Cons.prems in simp_all)
  then show ?case using Cons.IH [of "Suc n" "epoch_step op s"] Cons.prems(2) by (simp add: epoch_run_def)
qed (simp add: epoch_run_def)

lemma started_inv: "epoch_inv 1 started_epoch_system"
  by (simp add: epoch_inv_def started_epoch_system_def gate_ok_def new_gate_def new_fifo_def)


text \<open>A first picture that is no key, a key, a picture after it; a flush, and the picture before it that comes out late.\<close>

definition epoch_example :: "epoch_op list" where
  "epoch_example = [EoInput, EoOutput False 900, EoCallEnds True, EoUnit True 10, EoInput, EoOutput True 9000, EoInput, EoOutput False 800,
     EoInput, EoCallEnds True, EoUnit True 20, EoUnit True 30, EoFlush, EoOutput False 700, EoCallEnds True, EoUnit True 40]"

lemma epoch_example_log: "es_log (epoch_run epoch_example started_epoch_system) = [Sent 1 1 True, Sent 1 1 False]"
  by code_simp


end
