(* ===== verification/BoundedUtf8.thy ===== *)
theory BoundedUtf8
  imports Prelude
begin

text \<open>
  \<open>utf8_bounded.hpp\<close>: UTF-8 that stays UTF-8 when it is cut and when it crosses to UTF-16 and back. A string
  is the list of its bytes or of its 16-bit units; a pointer and a count of bytes left are the list from
  there on. The loops over a string are recursions on what is left of it.
\<close>

section \<open>A sequence\<close>

text \<open>The continuation bytes, six bits each.\<close>

fun continue_bytes :: "u32 \<Rightarrow> bytes \<Rightarrow> u32 option" where
  "continue_bytes cp [] = Some cp"
| "continue_bytes cp (b # bs) = (if b AND 0xC0 \<noteq> 0x80 then None else continue_bytes (push_bit 6 cp OR ucast (b AND 0x3F)) bs)"

definition sequence_of :: "nat \<Rightarrow> u32 \<Rightarrow> u32 \<Rightarrow> bytes \<Rightarrow> nat" where
  "sequence_of len least cp rest =
    (if length rest + 1 < len then 0
     else case continue_bytes cp (take (len - 1) rest) of
       None \<Rightarrow> 0
     | Some cp \<Rightarrow> if cp < least then 0 else if 0xD800 \<le> cp \<and> cp \<le> 0xDFFF then 0 else if 0x10FFFF < cp then 0 else len)"

definition utf8_sequence_length :: "bytes \<Rightarrow> nat" where
  "utf8_sequence_length p =
    (case p of
       [] \<Rightarrow> 0
     | b0 # rest \<Rightarrow>
         if b0 < 0x80 then 1
         else if b0 AND 0xE0 = 0xC0 then sequence_of 2 0x80 (ucast (b0 AND 0x1F)) rest
         else if b0 AND 0xF0 = 0xE0 then sequence_of 3 0x800 (ucast (b0 AND 0x0F)) rest
         else if b0 AND 0xF8 = 0xF0 then sequence_of 4 0x10000 (ucast (b0 AND 0x07)) rest
         else 0)"

definition utf8_decode :: "bytes \<Rightarrow> nat \<Rightarrow> u32" where
  "utf8_decode p len =
    (if len = 1 then ucast (hd p)
     else foldl (\<lambda>cp b. push_bit 6 cp OR ucast (b AND 0x3F))
       (ucast (hd p AND (if len = 2 then 0x1F else if len = 3 then 0x0F else 0x07))) (take (len - 1) (tl p)))"

function utf8_is_valid :: "bytes \<Rightarrow> bool" where
  "utf8_is_valid s =
    (if s = [] then True
     else if utf8_sequence_length s = 0 then False
     else utf8_is_valid (drop (utf8_sequence_length s) s))"
  by pat_completeness auto
termination
  by (relation "measure length") auto

section \<open>Cutting\<close>

function copy_bounded :: "nat \<Rightarrow> bytes \<Rightarrow> bytes \<Rightarrow> bytes" where
  "copy_bounded cap out src =
    (if src = [] \<or> hd src = 0 then out
     else if utf8_sequence_length src = 0 then (if cap < length out + 1 then out else copy_bounded cap (out @ [0x3F]) (tl src))
     else if cap < length out + utf8_sequence_length src then out
     else copy_bounded cap (out @ take (utf8_sequence_length src) src) (drop (utf8_sequence_length src) src))"
  by pat_completeness auto
termination
  by (relation "measure (\<lambda>(cap, out, src). length src)") auto

text \<open>The bytes written before the terminator, and the field.\<close>

definition utf8_copy_bounded :: "nat \<Rightarrow> bytes \<Rightarrow> nat \<times> bytes" where
  "utf8_copy_bounded dstSize src =
    (if dstSize = 0 then (0, [])
     else let out = copy_bounded (dstSize - 1) [] src in (length out, out @ replicate (dstSize - length out) 0))"

definition kUtf8Ellipsis :: bytes where "kUtf8Ellipsis = [0xE2, 0x80, 0xA6]"

text \<open>The first \<open>maxChars\<close> characters: what is written, how many that is, and how much of it to keep
  when there turn out to be more.\<close>

function limit_chars :: "nat \<Rightarrow> bytes \<Rightarrow> nat \<Rightarrow> nat \<Rightarrow> bytes \<Rightarrow> bytes" where
  "limit_chars maxChars out chars endOfKept src =
    (if src = [] \<or> hd src = 0 then out
     else if chars = maxChars then take endOfKept out @ (if 0 < maxChars then kUtf8Ellipsis else [])
     else let len = utf8_sequence_length src; out = (if len = 0 then out @ [0x3F] else out @ take len src) in
       limit_chars maxChars out (chars + 1) (if chars + 2 = maxChars then length out else endOfKept)
         (if len = 0 then tl src else drop len src))"
  by pat_completeness auto
termination
  by (relation "measure (\<lambda>(m, out, c, e, src). length src)") auto

definition utf8_limit_chars :: "bytes \<Rightarrow> nat \<Rightarrow> bytes" where
  "utf8_limit_chars src maxChars = limit_chars maxChars [] 0 0 src"

definition fixed_field_view :: "bytes \<Rightarrow> bytes" where
  "fixed_field_view field = takeWhile (\<lambda>b. b \<noteq> 0) field"

section \<open>To UTF-16 and back\<close>

definition units_of :: "u32 \<Rightarrow> u16 list" where
  "units_of cp =
    (if 0x10000 \<le> cp then let v = cp - 0x10000 in [ucast (0xD800 + drop_bit 10 v), ucast (0xDC00 + (v AND 0x3FF))] else [ucast cp])"

function utf8_to_utf16_lossy :: "bytes \<Rightarrow> u16 list" where
  "utf8_to_utf16_lossy s =
    (if s = [] then []
     else if utf8_sequence_length s = 0 then 0xFFFD # utf8_to_utf16_lossy (tl s)
     else units_of (utf8_decode s (utf8_sequence_length s)) @ utf8_to_utf16_lossy (drop (utf8_sequence_length s) s))"
  by pat_completeness auto
termination
  by (relation "measure length") auto

definition put_char :: "u32 \<Rightarrow> bytes" where
  "put_char cp =
    (if cp < 0x80 then [ucast cp]
     else if cp < 0x800 then [ucast (0xC0 OR drop_bit 6 cp), ucast (0x80 OR (cp AND 0x3F))]
     else if cp < 0x10000 then
       [ucast (0xE0 OR drop_bit 12 cp), ucast (0x80 OR (drop_bit 6 cp AND 0x3F)), ucast (0x80 OR (cp AND 0x3F))]
     else [ucast (0xF0 OR drop_bit 18 cp), ucast (0x80 OR (drop_bit 12 cp AND 0x3F)), ucast (0x80 OR (drop_bit 6 cp AND 0x3F)),
       ucast (0x80 OR (cp AND 0x3F))])"

definition high_surrogate :: "u16 \<Rightarrow> bool" where "high_surrogate u \<longleftrightarrow> 0xD800 \<le> u \<and> u \<le> 0xDBFF"
definition low_surrogate :: "u16 \<Rightarrow> bool" where "low_surrogate u \<longleftrightarrow> 0xDC00 \<le> u \<and> u \<le> 0xDFFF"

definition pair_value :: "u16 \<Rightarrow> u16 \<Rightarrow> u32" where
  "pair_value u v = 0x10000 + push_bit 10 (ucast u - 0xD800) + (ucast v - 0xDC00)"

fun utf16_to_utf8_lossy :: "u16 list \<Rightarrow> bytes" where
  "utf16_to_utf8_lossy [] = []"
| "utf16_to_utf8_lossy [u] = put_char (if high_surrogate u \<or> low_surrogate u then 0xFFFD else ucast u)"
| "utf16_to_utf8_lossy (u # v # s) =
    (if high_surrogate u \<and> low_surrogate v then put_char (pair_value u v) @ utf16_to_utf8_lossy s
     else put_char (if high_surrogate u \<or> low_surrogate u then 0xFFFD else ucast u) @ utf16_to_utf8_lossy (v # s))"

declare utf8_is_valid.simps [simp del] copy_bounded.simps [simp del] limit_chars.simps [simp del] utf8_to_utf16_lossy.simps [simp del]

section \<open>Bits\<close>

lemma bit_small: "cp < (2 :: u32) ^ k \<Longrightarrow> k < 32 \<Longrightarrow> k \<le> i \<Longrightarrow> \<not> bit cp i"
  by (metis bit_take_bit_iff less_mask_eq linorder_not_le take_bit_eq_mask)

lemma upto_bits: "[0..<8] = [0, 1, 2, 3, 4, 5, 6, 7]"
  "[0..<32] = [0, 1, 2, 3, 4, 5, 6, 7, 8, 9, 10, 11, 12, 13, 14, 15, 16, 17, 18, 19, 20, 21, 22, 23, 24, 25, 26, 27, 28, 29, 30, 31]"
  by (simp_all add: upt_rec)

lemma bits_eq: "((a :: 'a :: len word) = b) \<longleftrightarrow> list_all (\<lambda>i. bit a i = bit b i) [0..<LENGTH('a)]"
  by (auto simp: list_all_iff intro: bit_word_eqI)

lemmas all_bits = bits_eq [where 'a = 8, simplified, unfolded upto_bits] bits_eq [where 'a = 32, simplified, unfolded upto_bits]

lemma small_bits: "take_bit k cp = cp \<Longrightarrow> k < 32 \<Longrightarrow> cp < (2 :: u32) ^ k"
  using and_mask_less' [of k cp] by (simp add: take_bit_eq_mask)

definition scalar :: "u32 \<Rightarrow> bool" where
  "scalar cp \<longleftrightarrow> cp < 0xD800 \<or> 0xDFFF < cp \<and> cp \<le> 0x10FFFF"

lemma cont_iff: "(b AND 0xC0 = (0x80 :: u8)) \<longleftrightarrow> bit b 7 \<and> \<not> bit b 6"
  unfolding all_bits by (auto simp add: bit_simps)

lemma lead_iff: "(b AND 0xE0 = (0xC0 :: u8)) \<longleftrightarrow> bit b 7 \<and> bit b 6 \<and> \<not> bit b 5"
  "(b AND 0xF0 = (0xE0 :: u8)) \<longleftrightarrow> bit b 7 \<and> bit b 6 \<and> bit b 5 \<and> \<not> bit b 4"
  "(b AND 0xF8 = (0xF0 :: u8)) \<longleftrightarrow> bit b 7 \<and> bit b 6 \<and> bit b 5 \<and> bit b 4 \<and> \<not> bit b 3"
  unfolding all_bits by (auto simp add: bit_simps)

lemma byte_bits: "8 \<le> n \<Longrightarrow> \<not> bit (b :: u8) n"
  by (auto dest: bit_imp_le_length)

lemma ascii_iff: "(b :: u8) < 0x80 \<longleftrightarrow> \<not> bit b 7"
proof -
  have "b < 0x80 \<longleftrightarrow> b AND mask 7 = b"
    using and_mask_less' [of 7 b] less_mask_eq [of b 7] by auto
  then show ?thesis unfolding all_bits by (simp add: bit_simps)
qed

lemma scalar_check: "scalar cp \<Longrightarrow> least \<le> cp \<Longrightarrow>
    (if cp < least then 0 else if 0xD800 \<le> cp \<and> cp \<le> 0xDFFF then 0 else if 0x10FFFF < cp then 0 else len) = len"
  unfolding scalar_def word_less_nat_alt word_le_nat_alt by auto

lemma sequence_two:
  assumes "\<not> b0 < 0x80" "b0 AND 0xE0 = 0xC0" "b1 AND 0xC0 = 0x80" "push_bit 6 (ucast (b0 AND 0x1F)) OR ucast (b1 AND 0x3F) = cp"
    and "0x80 \<le> cp" "scalar cp"
  shows "utf8_sequence_length (b0 # b1 # rest) = 2 \<and> utf8_decode (b0 # b1 # rest) 2 = cp"
proof -
  have "continue_bytes (ucast (b0 AND 0x1F)) [b1] = Some cp" using assms by (simp del: push_bit_or)
  then show ?thesis using assms by (simp add: utf8_sequence_length_def utf8_decode_def sequence_of_def scalar_check eval_nat_numeral del: push_bit_or)
qed

lemma sequence_three:
  assumes "\<not> b0 < 0x80" "b0 AND 0xE0 \<noteq> 0xC0" "b0 AND 0xF0 = 0xE0" "b1 AND 0xC0 = 0x80" "b2 AND 0xC0 = 0x80"
    and "push_bit 6 (push_bit 6 (ucast (b0 AND 0x0F)) OR ucast (b1 AND 0x3F)) OR ucast (b2 AND 0x3F) = cp" and "0x800 \<le> cp" "scalar cp"
  shows "utf8_sequence_length (b0 # b1 # b2 # rest) = 3 \<and> utf8_decode (b0 # b1 # b2 # rest) 3 = cp"
proof -
  have "continue_bytes (ucast (b0 AND 0x0F)) [b1, b2] = Some cp" using assms by (simp del: push_bit_or)
  then show ?thesis using assms by (simp add: utf8_sequence_length_def utf8_decode_def sequence_of_def scalar_check eval_nat_numeral del: push_bit_or)
qed

lemma sequence_four:
  assumes "\<not> b0 < 0x80" "b0 AND 0xE0 \<noteq> 0xC0" "b0 AND 0xF0 \<noteq> 0xE0" "b0 AND 0xF8 = 0xF0"
    and "b1 AND 0xC0 = 0x80" "b2 AND 0xC0 = 0x80" "b3 AND 0xC0 = 0x80"
    and "push_bit 6 (push_bit 6 (push_bit 6 (ucast (b0 AND 0x07)) OR ucast (b1 AND 0x3F)) OR ucast (b2 AND 0x3F)) OR ucast (b3 AND 0x3F) = cp"
    and "0x10000 \<le> cp" "scalar cp"
  shows "utf8_sequence_length (b0 # b1 # b2 # b3 # rest) = 4 \<and> utf8_decode (b0 # b1 # b2 # b3 # rest) 4 = cp"
proof -
  have "continue_bytes (ucast (b0 AND 0x07)) [b1, b2, b3] = Some cp" using assms by (simp del: push_bit_or)
  then show ?thesis using assms by (simp add: utf8_sequence_length_def utf8_decode_def sequence_of_def scalar_check eval_nat_numeral del: push_bit_or)
qed

lemma put_char_length:
  assumes "scalar cp"
  shows "utf8_sequence_length (put_char cp @ rest) = length (put_char cp) \<and> utf8_decode (put_char cp @ rest) (length (put_char cp)) = cp"
proof -
  have "cp \<le> 0x10FFFF" using assms unfolding scalar_def word_less_nat_alt word_le_nat_alt by auto
  then consider (one) "cp < 0x80" | (two) "0x80 \<le> cp" "cp < 0x800" | (three) "0x800 \<le> cp" "cp < 0x10000" | (four) "0x10000 \<le> cp" "cp \<le> 0x10FFFF"
    by (meson linorder_not_le)
  then show ?thesis
  proof cases
    case one
    have "(ucast cp :: u8) < 0x80" unfolding ascii_iff using one bit_small [of cp 7] by (simp add: bit_simps)
    moreover have "(ucast (ucast cp :: u8) :: u32) = cp" unfolding all_bits using one bit_small [of cp 7] by (simp add: bit_simps)
    ultimately show ?thesis using one by (simp add: put_char_def utf8_sequence_length_def utf8_decode_def)
  next
    case two
    have b: "cp < 2 ^ 11" using two by simp
    have cp: "push_bit 6 (ucast ((ucast (0xC0 OR drop_bit 6 cp) :: u8) AND 0x1F)) OR ucast ((ucast (0x80 OR (cp AND 0x3F)) :: u8) AND 0x3F) = cp"
      unfolding all_bits using bit_small [OF b] by (simp add: bit_simps)
    have l: "\<not> (ucast (0xC0 OR drop_bit 6 cp) :: u8) < 0x80" "(ucast (0xC0 OR drop_bit 6 cp) :: u8) AND 0xE0 = 0xC0"
      "(ucast (0x80 OR (cp AND 0x3F)) :: u8) AND 0xC0 = 0x80"
      unfolding ascii_iff lead_iff cont_iff using bit_small [OF b] by (simp_all add: bit_simps)
    have "put_char cp = [ucast (0xC0 OR drop_bit 6 cp), ucast (0x80 OR (cp AND 0x3F))]" using two by (simp add: put_char_def not_less)
    then show ?thesis using sequence_two [OF l cp two(1) assms] by (simp add: eval_nat_numeral)
  next
    case three
    have b: "cp < 2 ^ 16" using three by simp
    have cp: "push_bit 6 (push_bit 6 (ucast ((ucast (0xE0 OR drop_bit 12 cp) :: u8) AND 0x0F)) OR
        ucast ((ucast (0x80 OR (drop_bit 6 cp AND 0x3F)) :: u8) AND 0x3F)) OR ucast ((ucast (0x80 OR (cp AND 0x3F)) :: u8) AND 0x3F) = cp"
      unfolding all_bits using bit_small [OF b] by (simp add: bit_simps)
    have l: "\<not> (ucast (0xE0 OR drop_bit 12 cp) :: u8) < 0x80" "(ucast (0xE0 OR drop_bit 12 cp) :: u8) AND 0xE0 \<noteq> 0xC0"
      "(ucast (0xE0 OR drop_bit 12 cp) :: u8) AND 0xF0 = 0xE0"
      "(ucast (0x80 OR (drop_bit 6 cp AND 0x3F)) :: u8) AND 0xC0 = 0x80" "(ucast (0x80 OR (cp AND 0x3F)) :: u8) AND 0xC0 = 0x80"
      unfolding ascii_iff lead_iff cont_iff using bit_small [OF b] by (simp_all add: bit_simps)
    have "\<not> cp < 0x80" "\<not> cp < 0x800" using three by (auto simp: word_less_nat_alt word_le_nat_alt)
    then have "put_char cp = [ucast (0xE0 OR drop_bit 12 cp), ucast (0x80 OR (drop_bit 6 cp AND 0x3F)), ucast (0x80 OR (cp AND 0x3F))]"
      using three by (simp add: put_char_def)
    then show ?thesis using sequence_three [OF l cp three(1) assms] by (simp add: eval_nat_numeral)
  next
    case four
    have b: "cp < 2 ^ 21" using four(2) by (rule order.strict_trans1) simp
    have cp: "push_bit 6 (push_bit 6 (push_bit 6 (ucast ((ucast (0xF0 OR drop_bit 18 cp) :: u8) AND 0x07)) OR
        ucast ((ucast (0x80 OR (drop_bit 12 cp AND 0x3F)) :: u8) AND 0x3F)) OR ucast ((ucast (0x80 OR (drop_bit 6 cp AND 0x3F)) :: u8) AND 0x3F)) OR
        ucast ((ucast (0x80 OR (cp AND 0x3F)) :: u8) AND 0x3F) = cp"
      unfolding all_bits using bit_small [OF b] by (simp add: bit_simps)
    have l: "\<not> (ucast (0xF0 OR drop_bit 18 cp) :: u8) < 0x80" "(ucast (0xF0 OR drop_bit 18 cp) :: u8) AND 0xE0 \<noteq> 0xC0"
      "(ucast (0xF0 OR drop_bit 18 cp) :: u8) AND 0xF0 \<noteq> 0xE0" "(ucast (0xF0 OR drop_bit 18 cp) :: u8) AND 0xF8 = 0xF0"
      "(ucast (0x80 OR (drop_bit 12 cp AND 0x3F)) :: u8) AND 0xC0 = 0x80"
      "(ucast (0x80 OR (drop_bit 6 cp AND 0x3F)) :: u8) AND 0xC0 = 0x80" "(ucast (0x80 OR (cp AND 0x3F)) :: u8) AND 0xC0 = 0x80"
      unfolding ascii_iff lead_iff cont_iff using bit_small [OF b] by (simp_all add: bit_simps)
    have "\<not> cp < 0x80" "\<not> cp < 0x800" "\<not> cp < 0x10000" using four by (auto simp: word_less_nat_alt word_le_nat_alt)
    then have "put_char cp = [ucast (0xF0 OR drop_bit 18 cp), ucast (0x80 OR (drop_bit 12 cp AND 0x3F)),
        ucast (0x80 OR (drop_bit 6 cp AND 0x3F)), ucast (0x80 OR (cp AND 0x3F))]" by (simp add: put_char_def)
    then show ?thesis using sequence_four [OF l cp four(1) assms] by (simp add: eval_nat_numeral)
  qed
qed

lemma sequence_ofE:
  assumes "sequence_of len least cp rest = n" "n \<noteq> 0"
  obtains v where "n = len" "len \<le> length rest + 1" "continue_bytes cp (take (len - 1) rest) = Some v" "least \<le> v" "scalar v"
proof -
  have "len \<le> length rest + 1" using assms by (simp add: sequence_of_def split: if_splits)
  moreover obtain v where v: "continue_bytes cp (take (len - 1) rest) = Some v" "\<not> v < least" "\<not> (0xD800 \<le> v \<and> v \<le> 0xDFFF)" "\<not> 0x10FFFF < v" "n = len"
    using assms by (auto simp: sequence_of_def split: if_splits option.splits)
  moreover have "scalar v" using v(3,4) unfolding scalar_def word_less_nat_alt word_le_nat_alt by auto
  ultimately show thesis using that by simp
qed

lemma continue_Some: "continue_bytes cp (b # bs) = Some v \<Longrightarrow> b AND 0xC0 = 0x80 \<and> continue_bytes (push_bit 6 cp OR ucast (b AND 0x3F)) bs = Some v"
  by (simp split: if_splits)

lemma sequence_char:
  assumes "utf8_sequence_length s = n" "n \<noteq> 0"
  shows "scalar (utf8_decode s n) \<and> take n s = put_char (utf8_decode s n)"
proof -
  obtain b0 rest where s: "s = b0 # rest" using assms by (cases s) (auto simp: utf8_sequence_length_def)
  consider (one) "b0 < 0x80" "n = 1"
    | (two) "b0 AND 0xE0 = 0xC0" "sequence_of 2 0x80 (ucast (b0 AND 0x1F)) rest = n"
    | (three) "b0 AND 0xF0 = 0xE0" "sequence_of 3 0x800 (ucast (b0 AND 0x0F)) rest = n"
    | (four) "b0 AND 0xF8 = 0xF0" "sequence_of 4 0x10000 (ucast (b0 AND 0x07)) rest = n"
    using assms unfolding s utf8_sequence_length_def by (auto split: if_splits)
  then show ?thesis
  proof cases
    case one
    have "\<not> bit b0 7" using one(1) by (simp add: ascii_iff)
    then have "take_bit 7 (ucast b0 :: u32) = ucast b0" "(ucast (ucast b0 :: u32) :: u8) = b0" unfolding all_bits by (simp_all add: bit_simps byte_bits)
    moreover from this(1) have "(ucast b0 :: u32) < 2 ^ 7" by (rule small_bits) simp
    ultimately show ?thesis using one by (simp add: s utf8_decode_def put_char_def scalar_def word_less_nat_alt)
  next
    case two
    obtain v where v: "n = 2" "2 \<le> length rest + 1" "continue_bytes (ucast (b0 AND 0x1F)) (take (2 - 1) rest) = Some v" "0x80 \<le> v" "scalar v"
      using sequence_ofE [OF two(2) assms(2)] by metis
    obtain b1 r where r: "rest = b1 # r" using v(2) by (cases rest) auto
    have b: "b1 AND 0xC0 = 0x80" "v = push_bit 6 (ucast (b0 AND 0x1F)) OR ucast (b1 AND 0x3F)"
      using v(3) by (auto simp: r simp del: push_bit_or split: if_splits)
    have "take_bit 11 v = v" unfolding b(2) all_bits by (simp add: bit_simps)
    then have "v < 2 ^ 11" by (rule small_bits) simp
    then have "put_char v = [ucast (0xC0 OR drop_bit 6 v), ucast (0x80 OR (v AND 0x3F))]" using v(4) by (simp add: put_char_def not_less)
    moreover have "ucast (0xC0 OR drop_bit 6 v) = b0" "ucast (0x80 OR (v AND 0x3F)) = b1"
      using two(1) b(1) unfolding b(2) lead_iff cont_iff all_bits by (simp_all add: bit_simps)
    moreover have "utf8_decode s n = v" using v(1) by (simp add: s r utf8_decode_def b(2) del: push_bit_or)
    ultimately show ?thesis using v by (simp add: s r eval_nat_numeral)
  next
    case three
    obtain v where v: "n = 3" "3 \<le> length rest + 1" "continue_bytes (ucast (b0 AND 0x0F)) (take (3 - 1) rest) = Some v" "0x800 \<le> v" "scalar v"
      using sequence_ofE [OF three(2) assms(2)] by metis
    obtain b1 b2 r where r: "rest = b1 # b2 # r" using v(2) by (cases rest; cases "tl rest") auto
    have b: "b1 AND 0xC0 = 0x80" "b2 AND 0xC0 = 0x80" "v = push_bit 6 (push_bit 6 (ucast (b0 AND 0x0F)) OR ucast (b1 AND 0x3F)) OR ucast (b2 AND 0x3F)"
      using v(3) by (auto simp: r simp del: push_bit_or split: if_splits)
    have "take_bit 16 v = v" unfolding b(3) all_bits by (simp add: bit_simps)
    then have "v < 2 ^ 16" by (rule small_bits) simp
    moreover have "\<not> v < 0x80" "\<not> v < 0x800" using v(4) by (auto simp: word_less_nat_alt word_le_nat_alt)
    ultimately have "put_char v = [ucast (0xE0 OR drop_bit 12 v), ucast (0x80 OR (drop_bit 6 v AND 0x3F)), ucast (0x80 OR (v AND 0x3F))]"
      by (simp add: put_char_def)
    moreover have "ucast (0xE0 OR drop_bit 12 v) = b0" "ucast (0x80 OR (drop_bit 6 v AND 0x3F)) = b1" "ucast (0x80 OR (v AND 0x3F)) = b2"
      using three(1) b(1,2) unfolding b(3) lead_iff cont_iff all_bits by (simp_all add: bit_simps)
    moreover have "utf8_decode s n = v" using v(1) by (simp add: s r utf8_decode_def b(3) eval_nat_numeral del: push_bit_or)
    ultimately show ?thesis using v by (simp add: s r eval_nat_numeral)
  next
    case four
    obtain v where v: "n = 4" "4 \<le> length rest + 1" "continue_bytes (ucast (b0 AND 0x07)) (take (4 - 1) rest) = Some v" "0x10000 \<le> v" "scalar v"
      using sequence_ofE [OF four(2) assms(2)] by metis
    obtain b1 b2 b3 r where r: "rest = b1 # b2 # b3 # r" using v(2) by (cases rest; cases "tl rest"; cases "tl (tl rest)") auto
    have b: "b1 AND 0xC0 = 0x80" "b2 AND 0xC0 = 0x80" "b3 AND 0xC0 = 0x80"
      "v = push_bit 6 (push_bit 6 (push_bit 6 (ucast (b0 AND 0x07)) OR ucast (b1 AND 0x3F)) OR ucast (b2 AND 0x3F)) OR ucast (b3 AND 0x3F)"
      using v(3) by (auto simp: r eval_nat_numeral simp del: push_bit_or split: if_splits)
    have "\<not> v < 0x80" "\<not> v < 0x800" "\<not> v < 0x10000" using v(4) by (auto simp: word_less_nat_alt word_le_nat_alt)
    then have "put_char v = [ucast (0xF0 OR drop_bit 18 v), ucast (0x80 OR (drop_bit 12 v AND 0x3F)), ucast (0x80 OR (drop_bit 6 v AND 0x3F)),
        ucast (0x80 OR (v AND 0x3F))]" by (simp add: put_char_def)
    moreover have "ucast (0xF0 OR drop_bit 18 v) = b0" "ucast (0x80 OR (drop_bit 12 v AND 0x3F)) = b1" "ucast (0x80 OR (drop_bit 6 v AND 0x3F)) = b2"
      "ucast (0x80 OR (v AND 0x3F)) = b3"
      using four(1) b(1-3) unfolding b(4) lead_iff cont_iff all_bits by (simp_all add: bit_simps)
    moreover have "utf8_decode s n = v" using v(1) by (simp add: s r utf8_decode_def b(4) eval_nat_numeral del: push_bit_or)
    ultimately show ?thesis using v by (simp add: s r eval_nat_numeral)
  qed
qed

section \<open>Characters\<close>

definition encode :: "u32 list \<Rightarrow> bytes" where "encode cps = concat (map put_char cps)"

lemma encode_simps [simp]: "encode [] = []" "encode (c # cs) = put_char c @ encode cs" "encode (cs @ ds) = encode cs @ encode ds"
  by (simp_all add: encode_def)

lemma put_char_nonempty [simp]: "put_char cp \<noteq> []" "[] \<noteq> put_char cp"
  by (auto simp: put_char_def)

lemma sequence_head:
  assumes "utf8_sequence_length s \<noteq> 0"
  shows "s = put_char (utf8_decode s (utf8_sequence_length s)) @ drop (utf8_sequence_length s) s"
    "scalar (utf8_decode s (utf8_sequence_length s))"
    "utf8_sequence_length s = length (put_char (utf8_decode s (utf8_sequence_length s)))"
proof -
  let ?n = "utf8_sequence_length s" and ?d = "utf8_decode s (utf8_sequence_length s)"
  have c: "scalar ?d" "take ?n s = put_char ?d" using sequence_char [OF refl assms] by simp_all
  show e: "s = put_char ?d @ drop ?n s" using c(2) append_take_drop_id [of ?n s] by simp
  show "scalar ?d" by (rule c(1))
  show "?n = length (put_char ?d)" using put_char_length [OF c(1), of "drop ?n s"] e by simp
qed

theorem utf8_valid_iff: "utf8_is_valid s \<longleftrightarrow> (\<exists>cps. list_all scalar cps \<and> s = encode cps)"
proof
  show "utf8_is_valid s \<Longrightarrow> \<exists>cps. list_all scalar cps \<and> s = encode cps"
  proof (induction s rule: utf8_is_valid.induct)
    case (1 s)
    show ?case
    proof (cases "s = []")
      case True
      then show ?thesis by (intro exI [of _ "[]"]) simp
    next
      case False
      then have n: "utf8_sequence_length s \<noteq> 0" "utf8_is_valid (drop (utf8_sequence_length s) s)"
        using 1(2) by (simp_all add: utf8_is_valid.simps [of s] split: if_splits)
      then obtain cps where "list_all scalar cps" "drop (utf8_sequence_length s) s = encode cps" using 1(1) False by blast
      then show ?thesis using sequence_head [OF n(1)]
        by (intro exI [of _ "utf8_decode s (utf8_sequence_length s) # cps"]) simp
    qed
  qed
next
  show "utf8_is_valid s" if valid: "\<exists>cps. list_all scalar cps \<and> s = encode cps"
  proof -
    obtain cps where "list_all scalar cps" "s = encode cps" using valid by blast
    then show ?thesis
    proof (induction cps arbitrary: s)
      case (Cons c cps)
      then show ?case using put_char_length [of c "encode cps"] by (subst utf8_is_valid.simps) simp
    qed (simp add: utf8_is_valid.simps)
  qed
qed

text \<open>The characters of a string up to its first NUL, a byte that belongs to none read as a question mark.\<close>

function chars_of :: "bytes \<Rightarrow> u32 list" where
  "chars_of s = (if s = [] \<or> hd s = 0 then []
     else if utf8_sequence_length s = 0 then 0x3F # chars_of (tl s)
     else utf8_decode s (utf8_sequence_length s) # chars_of (drop (utf8_sequence_length s) s))"
  by pat_completeness auto
termination
  by (relation "measure length") auto

declare chars_of.simps [simp del]

lemma scalar_mark [simp]: "scalar 0x3F" "scalar 0x2026" "scalar 0xFFFD" by (simp_all add: scalar_def)

lemma chars_scalar: "list_all scalar (chars_of s)"
proof (induction s rule: chars_of.induct)
  case (1 s)
  then show ?case using sequence_head(2) [of s] by (subst chars_of.simps) auto
qed

lemma ascii_cast: "cp < 0x80 \<Longrightarrow> ucast (ucast cp :: u8) = (cp :: u32)"
  unfolding all_bits using bit_small [of cp 7] by (simp add: bit_simps)

lemma put_char_high: "\<not> cp < 0x80 \<Longrightarrow> b \<in> set (put_char cp) \<Longrightarrow> bit b 7"
  by (auto simp: put_char_def bit_simps split: if_splits)

lemma put_char_zero: "0 \<in> set (put_char cp) \<longleftrightarrow> cp = 0"
proof (cases "cp < 0x80")
  case True
  then show ?thesis using ascii_cast [OF True] by (auto simp: put_char_def)
next
  case False
  then show ?thesis using put_char_high [OF False, of 0] by auto
qed

lemma hd_put_char: "hd (put_char cp) = 0 \<longleftrightarrow> cp = 0"
proof
  show "hd (put_char cp) = 0 \<Longrightarrow> cp = 0" using put_char_zero [of cp] hd_in_set [of "put_char cp"] by simp
qed (simp add: put_char_def)

lemma chars_nonzero: "0 \<notin> set (chars_of s)"
proof (induction s rule: chars_of.induct)
  case (1 s)
  have "utf8_decode s (utf8_sequence_length s) \<noteq> 0" if s: "s \<noteq> []" "hd s \<noteq> 0" "utf8_sequence_length s \<noteq> 0"
  proof
    assume d: "utf8_decode s (utf8_sequence_length s) = 0"
    have "hd s = hd (put_char 0)" using sequence_head(1) [OF s(3)] unfolding d by (metis hd_append2 put_char_nonempty(1))
    then show False using s(2) hd_put_char [of 0] by simp
  qed
  then show ?case using 1 by (subst chars_of.simps) auto
qed

lemma chars_of_encode: "list_all scalar cps \<Longrightarrow> 0 \<notin> set cps \<Longrightarrow> chars_of (encode cps) = cps"
proof (induction cps)
  case (Cons c cps)
  have "hd (put_char c) \<noteq> 0" using Cons.prems hd_put_char [of c] by auto
  then show ?case using Cons put_char_length [of c "encode cps"] by (subst chars_of.simps) auto
qed (simp add: chars_of.simps)

text \<open>The longest run of whole characters that fits.\<close>

fun fitting :: "nat \<Rightarrow> u32 list \<Rightarrow> u32 list" where
  "fitting n [] = []"
| "fitting n (c # cs) = (if length (put_char c) \<le> n then c # fitting (n - length (put_char c)) cs else [])"

lemma put_mark: "put_char 0x3F = [0x3F]" by (simp add: put_char_def)

lemma copy_bounded_exact: "length out \<le> cap \<Longrightarrow> copy_bounded cap out src = out @ encode (fitting (cap - length out) (chars_of src))"
proof (induction cap out src rule: copy_bounded.induct)
  case (1 cap out src)
  show ?case
  proof (cases "src = [] \<or> hd src = 0")
    case True
    then show ?thesis by (subst copy_bounded.simps) (auto simp: chars_of.simps [of src])
  next
    case False
    let ?n = "utf8_sequence_length src" and ?d = "utf8_decode src (utf8_sequence_length src)"
    show ?thesis
    proof (cases "?n = 0")
      case True
      then show ?thesis using False 1 by (subst copy_bounded.simps) (auto simp: chars_of.simps [of src] put_mark)
    next
      case n: False
      have t: "take ?n src = put_char ?d" "?n = length (put_char ?d)" using sequence_char [OF refl n] sequence_head(3) [OF n] by simp_all
      have c: "chars_of src = ?d # chars_of (drop ?n src)" using False n by (simp add: chars_of.simps [of src])
      show ?thesis
      proof (cases "cap < length out + ?n")
        case True
        then show ?thesis using False n c t(2) by (subst copy_bounded.simps) auto
      next
        case fits: False
        have "copy_bounded cap out src = copy_bounded cap (out @ take ?n src) (drop ?n src)"
          using False n fits by (subst copy_bounded.simps) simp
        also have "\<dots> = (out @ put_char ?d) @ encode (fitting (cap - length (out @ put_char ?d)) (chars_of (drop ?n src)))"
          using 1(2) [OF False n fits] fits t by simp
        finally show ?thesis using fits t(2) unfolding c by (simp add: not_less)
      qed
    qed
  qed
qed

lemma limit_chars_exact:
  assumes "length cs \<le> m" "list_all scalar cs" "e = (if length cs + 1 < m then 0 else length (encode (take (m - 1) cs)))"
  shows "limit_chars m (encode cs) (length cs) e src = (if length (cs @ chars_of src) \<le> m then encode (cs @ chars_of src)
      else if m = 0 then [] else encode (take (m - 1) (cs @ chars_of src) @ [0x2026]))"
  using assms
proof (induction src arbitrary: cs e rule: chars_of.induct)
  case (1 src)
  let ?n = "utf8_sequence_length src"
  let ?c = "if ?n = 0 then 0x3F else utf8_decode src ?n" and ?r = "if ?n = 0 then tl src else drop ?n src"
  show ?case
  proof (cases "src = [] \<or> hd src = 0")
    case True
    then show ?thesis using 1(3) by (subst limit_chars.simps) (auto simp: chars_of.simps [of src])
  next
    case False
    have c: "chars_of src = ?c # chars_of ?r" using False by (simp add: chars_of.simps [of src])
    show ?thesis
    proof (cases "length cs = m")
      case True
      have "take (length (encode (take (m - 1) cs))) (encode cs) = encode (take (m - 1) cs)"
        by (metis append_eq_conv_conj append_take_drop_id encode_simps(3))
      moreover have "kUtf8Ellipsis = put_char 0x2026" by (simp add: kUtf8Ellipsis_def put_char_def)
      ultimately show ?thesis using True False 1(5) c by (subst limit_chars.simps) auto
    next
      case more: False
      have sc: "scalar ?c" using sequence_head(2) [of src] by simp
      have out: "(if ?n = 0 then encode cs @ [0x3F] else encode cs @ take ?n src) = encode (cs @ [?c])"
        using sequence_char [of src, OF refl] by (simp add: put_mark)
      define e' where "e' = (if length cs + 2 = m then length (encode (cs @ [?c])) else e)"
      have e': "e' = (if length (cs @ [?c]) + 1 < m then 0 else length (encode (take (m - 1) (cs @ [?c]))))"
        using more 1(3,5) by (auto simp: e'_def)
      have "limit_chars m (encode cs) (length cs) e src = limit_chars m (encode (cs @ [?c])) (length (cs @ [?c])) e' ?r"
        using False more by (subst limit_chars.simps) (simp only: Let_def out e'_def, simp)
      also have "\<dots> = (if length ((cs @ [?c]) @ chars_of ?r) \<le> m then encode ((cs @ [?c]) @ chars_of ?r)
          else if m = 0 then [] else encode (take (m - 1) ((cs @ [?c]) @ chars_of ?r) @ [0x2026]))"
      proof (cases "?n = 0")
        case True
        then show ?thesis using 1(1) [OF False True, of "cs @ [?c]" e'] e' more 1(3,4) sc by simp
      next
        case n: False
        then show ?thesis using 1(2) [OF False n, of "cs @ [?c]" e'] e' more 1(3,4) sc by simp
      qed
      finally show ?thesis unfolding c by simp
    qed
  qed
qed

section \<open>Characters in 16-bit units\<close>

definition encode16 :: "u32 list \<Rightarrow> u16 list" where "encode16 cps = concat (map units_of cps)"

lemma encode16_simps [simp]: "encode16 [] = []" "encode16 (c # cs) = units_of c @ encode16 cs"
  by (simp_all add: encode16_def)

lemma to_utf16: "list_all scalar cps \<Longrightarrow> utf8_to_utf16_lossy (encode cps) = encode16 cps"
proof (induction cps)
  case (Cons c cps)
  then show ?case using put_char_length [of c "encode cps"] by (subst utf8_to_utf16_lossy.simps) auto
qed (simp add: utf8_to_utf16_lossy.simps)

text \<open>Every surrogate half of a pair.\<close>

fun paired :: "u16 list \<Rightarrow> bool" where
  "paired [] \<longleftrightarrow> True"
| "paired [u] \<longleftrightarrow> \<not> high_surrogate u \<and> \<not> low_surrogate u"
| "paired (u # v # s) \<longleftrightarrow> (if high_surrogate u \<and> low_surrogate v then paired s else \<not> high_surrogate u \<and> \<not> low_surrogate u \<and> paired (v # s))"

lemma unat_widen: "unat (ucast (u :: u16) :: u32) = unat u"
  using unat_bounds(2) [of u] by (simp add: unsigned_ucast_eq take_bit_eq_mod)

lemma unat_narrow: "unat (ucast (c :: u32) :: u16) = unat c mod 65536"
  by (simp add: unsigned_ucast_eq take_bit_eq_mod)

lemma unat_drop10: "unat (drop_bit 10 (x :: u32)) = unat x div 0x400"
  by (simp only: unat_drop_bit_eq) (simp add: drop_bit_eq_div)

lemma unat_low10: "unat (x AND 0x3FF :: u32) = unat x mod 0x400"
proof -
  have "x AND 0x3FF = take_bit 10 x" by (simp only: take_bit_eq_mask) (simp add: mask_eq_exp_minus_1)
  moreover have "unat (take_bit 10 x) = take_bit 10 (unat x)" by (rule unsigned_take_bit_eq)
  ultimately show ?thesis by (simp only: take_bit_eq_mod) simp
qed

lemma pair_parts:
  assumes "high_surrogate u" "low_surrogate v"
  shows "unat (pair_value u v) = 0x10000 + (unat u - 0xD800) * 0x400 + (unat v - 0xDC00)" "scalar (pair_value u v)" "units_of (pair_value u v) = [u, v]"
proof -
  have b: "0xD800 \<le> unat u" "unat u \<le> 0xDBFF" "0xDC00 \<le> unat v" "unat v \<le> 0xDFFF"
    using assms by (simp_all add: high_surrogate_def low_surrogate_def word_le_nat_alt)
  have u: "unat (ucast u - 0xD800 :: u32) = unat u - 0xD800" and v: "unat (ucast v - 0xDC00 :: u32) = unat v - 0xDC00"
    using b by (simp_all add: unat_sub word_le_nat_alt unat_widen)
  have p: "unat (push_bit 10 (ucast u - 0xD800 :: u32)) = (unat u - 0xD800) * 0x400"
  proof -
    have "unat (push_bit 10 y) = unat y * 0x400" if "unat y \<le> 0x3FF" for y :: u32
      using that by (simp add: push_bit_eq_mult unat_word_ariths)
    then show ?thesis using b u by simp
  qed
  show val: "unat (pair_value u v) = 0x10000 + (unat u - 0xD800) * 0x400 + (unat v - 0xDC00)"
    unfolding pair_value_def unat_word_ariths p v using b by simp
  then show "scalar (pair_value u v)" using b by (simp add: scalar_def word_less_nat_alt word_le_nat_alt)
  define x where "x = pair_value u v - 0x10000"
  have x: "unat x = (unat u - 0xD800) * 0x400 + (unat v - 0xDC00)"
    using val by (simp add: x_def unat_sub word_le_nat_alt)
  have hi: "unat (drop_bit 10 x) = unat u - 0xD800" using b by (simp add: unat_drop10 x)
  have "unat v - 0xDC00 < 0x400" using b by simp
  then have lo: "unat (x AND 0x3FF) = unat v - 0xDC00" by (simp only: unat_low10 x mod_mult_self3 mod_less)
  have "(ucast (0xD800 + drop_bit 10 x) :: u16) = u" "(ucast (0xDC00 + (x AND 0x3FF)) :: u16) = v"
    unfolding word_unat_eq_iff unat_narrow unat_word_ariths hi lo using b by simp_all
  moreover have "0x10000 \<le> pair_value u v" using val by (simp add: word_le_nat_alt)
  ultimately show "units_of (pair_value u v) = [u, v]" by (simp add: units_of_def x_def Let_def)
qed

lemma single_unit:
  assumes "\<not> high_surrogate u" "\<not> low_surrogate u"
  shows "scalar (ucast u)" "units_of (ucast u) = [u]"
proof -
  have u: "unat (ucast u :: u32) = unat u" "unat u < 65536" using unat_bounds(2) [of u] by (simp_all add: unat_widen)
  have "unat u < 0xD800 \<or> 0xDFFF < unat u"
    using assms by (auto simp: high_surrogate_def low_surrogate_def word_le_nat_alt)
  then show "scalar (ucast u)" using u by (auto simp: scalar_def word_less_nat_alt word_le_nat_alt)
  have "(ucast (ucast u :: u32) :: u16) = u" by (rule word_unat_eq_iff [THEN iffD2]) (use u in \<open>simp only: unat_narrow unat_widen, simp\<close>)
  then show "units_of (ucast u) = [u]" using u by (simp add: units_of_def word_le_nat_alt)
qed

lemma units_cases:
  assumes "scalar c"
  obtains (one) u where "units_of c = [u]" "ucast u = c" "\<not> high_surrogate u" "\<not> low_surrogate u"
    | (two) u v where "units_of c = [u, v]" "high_surrogate u" "low_surrogate v" "pair_value u v = c"
proof (cases "0x10000 \<le> c")
  case False
  then have c: "unat c < 65536" by (simp add: word_le_nat_alt)
  then have u: "unat (ucast c :: u16) = unat c" by (simp add: unat_narrow)
  then have "ucast (ucast c :: u16) = c" by (intro word_unat_eq_iff [THEN iffD2]) (simp only: unat_widen)
  moreover have "\<not> high_surrogate (ucast c)" "\<not> low_surrogate (ucast c)"
    using assms u c by (auto simp: high_surrogate_def low_surrogate_def scalar_def word_le_nat_alt word_less_nat_alt)
  ultimately show thesis using one [of "ucast c"] False by (simp add: units_of_def)
next
  case True
  define x where "x = c - 0x10000"
  have b: "0x10000 \<le> unat c" "unat c \<le> 0x10FFFF" using True assms by (auto simp: scalar_def word_le_nat_alt word_less_nat_alt)
  then have x: "unat x = unat c - 0x10000" by (simp add: x_def unat_sub word_le_nat_alt)
  define u :: u16 where "u = ucast (0xD800 + drop_bit 10 x)"
  define v :: u16 where "v = ucast (0xDC00 + (x AND 0x3FF))"
  have hi: "unat (drop_bit 10 x) = unat x div 0x400" by (rule unat_drop10)
  have lo: "unat (x AND 0x3FF) = unat x mod 0x400" by (rule unat_low10)
  have "unat x div 0x400 < 0x400" using b x by (simp add: less_mult_imp_div_less)
  then have u: "unat u = 0xD800 + unat x div 0x400" unfolding u_def unat_narrow unat_word_ariths hi by simp
  have "unat x mod 0x400 < 0x400" by simp
  then have v: "unat v = 0xDC00 + unat x mod 0x400" unfolding v_def unat_narrow unat_word_ariths lo by simp
  have h: "high_surrogate u" "low_surrogate v"
    using \<open>unat x div 0x400 < 0x400\<close> \<open>unat x mod 0x400 < 0x400\<close> by (simp_all add: high_surrogate_def low_surrogate_def word_le_nat_alt u v)
  have "unat (pair_value u v) = 0x10000 + unat x div 0x400 * 0x400 + unat x mod 0x400" using pair_parts(1) [OF h] by (simp add: u v)
  also have "\<dots> = unat c" using b x div_mult_mod_eq [of "unat x" "0x400"] by linarith
  finally have "pair_value u v = c" by (rule word_unat_eq_iff [THEN iffD2])
  moreover have "units_of c = [u, v]" using True by (simp add: units_of_def Let_def u_def v_def x_def)
  ultimately show thesis using two h by blast
qed

lemma to_utf8: "list_all scalar cps \<Longrightarrow> utf16_to_utf8_lossy (encode16 cps) = encode cps"
proof (induction cps)
  case (Cons c cps)
  then have "scalar c" by simp
  then show ?case
  proof (cases rule: units_cases)
    case (one u)
    then show ?thesis using Cons by (cases "encode16 cps") simp_all
  next
    case (two u v)
    then show ?thesis using Cons by simp
  qed
qed simp

lemma to_utf8_chars: "\<exists>cps. list_all scalar cps \<and> utf16_to_utf8_lossy s = encode cps"
proof (induction s rule: utf16_to_utf8_lossy.induct)
  case (2 u)
  show ?case by (rule exI [of _ "[if high_surrogate u \<or> low_surrogate u then 0xFFFD else ucast u]"]) (simp add: single_unit)
next
  case (3 u v s)
  show ?case
  proof (cases "high_surrogate u \<and> low_surrogate v")
    case True
    then obtain cps where "list_all scalar cps" "utf16_to_utf8_lossy s = encode cps" using 3(1) by blast
    then show ?thesis using True by (intro exI [of _ "pair_value u v # cps"]) (simp add: pair_parts)
  next
    case False
    then obtain cps where "list_all scalar cps" "utf16_to_utf8_lossy (v # s) = encode cps" using 3(2) by blast
    then show ?thesis using False
      by (intro exI [of _ "(if high_surrogate u \<or> low_surrogate u then 0xFFFD else ucast u) # cps"]) (auto simp add: single_unit)
  qed
qed (auto intro: exI [of _ "[]"])

lemma paired_chars: "paired s \<Longrightarrow> \<exists>cps. list_all scalar cps \<and> s = encode16 cps"
proof (induction s rule: paired.induct)
  case (2 u)
  then show ?case by (intro exI [of _ "[ucast u]"]) (simp add: single_unit)
next
  case (3 u v s)
  show ?case
  proof (cases "high_surrogate u \<and> low_surrogate v")
    case True
    then obtain cps where "list_all scalar cps" "s = encode16 cps" using 3(1,3) by auto
    then show ?thesis using True by (intro exI [of _ "pair_value u v # cps"]) (simp add: pair_parts)
  next
    case False
    then have u: "\<not> high_surrogate u" "\<not> low_surrogate u" "paired (v # s)" using 3(3) by (auto split: if_splits)
    then obtain cps where "list_all scalar cps" "v # s = encode16 cps" using 3(2) False by blast
    then show ?thesis using u by (intro exI [of _ "ucast u # cps"]) (simp add: single_unit)
  qed
qed (auto intro: exI [of _ "[]"])

section \<open>What the helpers promise\<close>

lemma fitting_part: "\<exists>rest. cs = fitting n cs @ rest"
  by (induction n cs rule: fitting.induct) auto

lemma fitting_fits: "length (encode (fitting n cs)) \<le> n"
  by (induction n cs rule: fitting.induct) auto

lemma fitting_all: "length (encode cs) \<le> n \<Longrightarrow> fitting n cs = cs"
  by (induction n cs rule: fitting.induct) auto

lemma fitting_set: "list_all scalar cs \<Longrightarrow> list_all scalar (fitting n cs)" "0 \<notin> set cs \<Longrightarrow> 0 \<notin> set (fitting n cs)"
  using fitting_part [of cs n] by (metis list_all_append, metis Un_iff set_append)

lemma encode_zero: "0 \<in> set (encode cs) \<longleftrightarrow> 0 \<in> set cs"
  by (induction cs) (auto simp: put_char_zero)

lemma field_view: "0 \<notin> set xs \<Longrightarrow> fixed_field_view (xs @ replicate (Suc n) 0) = xs"
  by (induction xs) (auto simp: fixed_field_view_def)

lemma chars_of_valid: "utf8_is_valid src \<Longrightarrow> 0 \<notin> set src \<Longrightarrow> encode (chars_of src) = src"
  unfolding utf8_valid_iff using chars_of_encode encode_zero by auto

text \<open>
  C38. A string cut into a field of the wire is still UTF-8. Whatever the source, the field has its size, holds
  the characters of the source up to its first NUL as far as they fit whole - each byte that belongs to no
  character as a question mark - and is zero from there on, so reading it back up to its terminator gives
  exactly those characters; a valid source that fits is kept unchanged.
\<close>

theorem utf8_field_exact:
  fixes size :: nat and src :: bytes
  assumes "0 < size"
  defines "kept \<equiv> encode (fitting (size - 1) (chars_of src))"
  shows "utf8_copy_bounded size src = (length kept, kept @ replicate (size - length kept) 0) \<and> length kept < size \<and> utf8_is_valid kept \<and>
    fixed_field_view (snd (utf8_copy_bounded size src)) = kept \<and>
    (utf8_is_valid src \<and> 0 \<notin> set src \<and> length src < size \<longrightarrow> kept = src)"
proof -
  have copy: "copy_bounded (size - 1) [] src = kept" using copy_bounded_exact [of "[]" "size - 1" src] by (simp add: kept_def)
  have fits: "length kept < size" using fitting_fits [of "size - 1" "chars_of src"] assms(1) by (simp add: kept_def)
  have field: "utf8_copy_bounded size src = (length kept, kept @ replicate (size - length kept) 0)"
    using assms(1) unfolding utf8_copy_bounded_def copy Let_def by simp
  have "utf8_is_valid kept" unfolding utf8_valid_iff kept_def using fitting_set(1) chars_scalar by blast
  moreover have "fixed_field_view (snd (utf8_copy_bounded size src)) = kept"
  proof -
    have "0 \<notin> set kept" unfolding kept_def encode_zero by (rule fitting_set(2) [OF chars_nonzero])
    moreover have "size - length kept = Suc (size - length kept - 1)" using fits by simp
    ultimately show ?thesis using field_view [of kept "size - length kept - 1"] by (simp add: field)
  qed
  moreover have "kept = src" if "utf8_is_valid src" "0 \<notin> set src" "length src < size"
    using chars_of_valid [OF that(1,2)] fitting_all [of "chars_of src" "size - 1"] that(3) by (simp add: kept_def)
  ultimately show ?thesis using field fits by blast
qed

text \<open>A title cut to a number of characters.\<close>

theorem utf8_limit_exact:
  "utf8_limit_chars src m = (if length (chars_of src) \<le> m then encode (chars_of src)
     else if m = 0 then [] else encode (take (m - 1) (chars_of src) @ [0x2026])) \<and>
   utf8_is_valid (utf8_limit_chars src m) \<and> length (chars_of (utf8_limit_chars src m)) \<le> m"
proof -
  define cs where "cs = (if length (chars_of src) \<le> m then chars_of src else if m = 0 then [] else take (m - 1) (chars_of src) @ [0x2026])"
  have cut: "utf8_limit_chars src m = encode cs"
    using limit_chars_exact [of "[]" m 0 src] by (auto simp: utf8_limit_chars_def cs_def)
  have cs: "list_all scalar cs" "0 \<notin> set cs" "length cs \<le> m"
    using chars_scalar [of src] chars_nonzero [of src] by (auto simp: cs_def list_all_iff dest: in_set_takeD)
  then have "utf8_is_valid (encode cs)" "chars_of (encode cs) = cs" using chars_of_encode by (auto simp: utf8_valid_iff)
  then show ?thesis using cut cs(3) by (auto simp: cs_def)
qed

text \<open>
  C39. Text crosses between UTF-8 and UTF-16 without loss: a valid UTF-8 string comes back from UTF-16 byte for
  byte, a UTF-16 string with every surrogate in a pair comes back from UTF-8 unit for unit, and what is made of
  any UTF-16 string, broken ones included, is valid UTF-8 and is UTF-16 without lone surrogates from then on.
\<close>

theorem utf_round_trip:
  "(utf8_is_valid s \<longrightarrow> utf16_to_utf8_lossy (utf8_to_utf16_lossy s) = s) \<and>
   (paired u \<longrightarrow> utf8_to_utf16_lossy (utf16_to_utf8_lossy u) = u) \<and>
   utf8_is_valid (utf16_to_utf8_lossy u) \<and>
   utf16_to_utf8_lossy (utf8_to_utf16_lossy (utf16_to_utf8_lossy u)) = utf16_to_utf8_lossy u"
proof -
  have again: "utf16_to_utf8_lossy (utf8_to_utf16_lossy s) = s" if "utf8_is_valid s" for s
    using that to_utf16 to_utf8 unfolding utf8_valid_iff by auto
  moreover have "utf8_to_utf16_lossy (utf16_to_utf8_lossy u) = u" if "paired u"
    using paired_chars [OF that] to_utf16 to_utf8 by auto
  moreover have valid: "utf8_is_valid (utf16_to_utf8_lossy u)" unfolding utf8_valid_iff by (rule to_utf8_chars)
  ultimately show ?thesis using again [OF valid] by blast
qed

section \<open>Runs\<close>

text \<open>A letter and two Hangul syllables into a field of seven bytes: one syllable fits, the other is left out whole.\<close>

definition hangul :: bytes where
  "hangul = [0x61, 0xEA, 0xB0, 0x80, 0xED, 0x9E, 0xA3]"

lemma hangul_sequences: "utf8_sequence_length hangul = 1" "utf8_sequence_length (drop 1 hangul) = 3" "utf8_sequence_length (drop 4 hangul) = 3"
  by code_simp+

lemma hangul_valid: "utf8_is_valid hangul"
  by (simp add: utf8_is_valid.simps hangul_sequences [unfolded hangul_def, simplified] hangul_def)

theorem utf8_field_exact_witness: "length (encode (fitting 6 (chars_of hangul))) < 7 \<and> encode (fitting 9 (chars_of hangul)) = hangul"
proof -
  have "0 \<notin> set hangul" "length hangul = 7" by (simp_all add: hangul_def)
  then show ?thesis using utf8_field_exact [of 7 hangul] utf8_field_exact [of 10 hangul] hangul_valid by simp
qed

theorem utf_round_trip_witness: "utf16_to_utf8_lossy (utf8_to_utf16_lossy hangul) = hangul \<and> utf8_to_utf16_lossy (utf16_to_utf8_lossy [0x61, 0xD83D, 0xDE00]) = [0x61, 0xD83D, 0xDE00]"
proof -
  have "paired [0x61, 0xD83D, 0xDE00]" by (simp add: high_surrogate_def low_surrogate_def)
  then show ?thesis using utf_round_trip [of hangul "[0x61, 0xD83D, 0xDE00]"] hangul_valid by blast
qed

end
