(* ===== verification/PunchReply.thy ===== *)
theory PunchReply
  imports Prelude
begin

text \<open>
  Which punches the host answers: \<open>punch_reply.hpp\<close>, and what \<open>HostAgent::ConsumeUdpPacket\<close>
  (\<open>directory_client.cpp\<close>) does with it under its mutex. The clock, the tuple of the directory and the
  host's own public tuple are arguments; sending and logging happen after the lock is gone.
\<close>

section \<open>State\<close>

definition kPunchReplyWindowMs :: u64 where "kPunchReplyWindowMs = 10000"
definition kPunchReplyPerSource :: u32 where "kPunchReplyPerSource = 25"
definition kPunchReplyPerWindow :: u32 where "kPunchReplyPerWindow = 200"
definition kPunchRefreshCooldownMs :: u64 where "kPunchRefreshCooldownMs = 2000"
definition kPunchReplyPerSec :: u32 where "kPunchReplyPerSec = 50"
definition kPunchReplySources :: nat where "kPunchReplySources = 64"

datatype punch_reason = PunchOk | PunchClosed | PunchBudget | PunchSource | PunchSelf | PunchMalformed

text \<open>An address and a port, both in network order.\<close>

type_synonym punch_source = "u32 \<times> u16"

record source_entry =
  se_source :: punch_source
  se_replies :: u32
  se_lastMs :: u64
  se_used :: bool

definition free_entry :: source_entry where
  "free_entry = \<lparr>se_source = (0, 0), se_replies = 0, se_lastMs = 0, se_used = False\<rparr>"

record punch_state =
  ps_windowOpen :: bool
  ps_windowOpenedMs :: u64
  ps_repliesInWindow :: u32
  ps_secondStartMs :: u64
  ps_repliesInSecond :: u32
  ps_sources :: "source_entry list"
  ps_replied :: u64
  ps_refused :: u64
  ps_refusedSourcesFull :: u64

definition new_punch_state :: punch_state where
  "new_punch_state = \<lparr>ps_windowOpen = False, ps_windowOpenedMs = 0, ps_repliesInWindow = 0, ps_secondStartMs = 0, ps_repliesInSecond = 0,
     ps_sources = replicate kPunchReplySources free_entry, ps_replied = 0, ps_refused = 0, ps_refusedSourcesFull = 0\<rparr>"

section \<open>The decision\<close>

definition window_open :: "punch_state \<Rightarrow> u64 \<Rightarrow> bool" where
  "window_open st nowMs \<longleftrightarrow> ps_windowOpen st \<and> \<not> nowMs < ps_windowOpenedMs st \<and> nowMs - ps_windowOpenedMs st < kPunchReplyWindowMs"

definition packet_ok :: "nat \<Rightarrow> nat \<Rightarrow> u32 \<Rightarrow> u32 \<Rightarrow> u16 \<Rightarrow> u16 \<Rightarrow> u32 \<Rightarrow> u32 \<Rightarrow> bool" where
  "packet_ok len expectedLen magic expectedMagic kind expectedKind version expectedVersion \<longleftrightarrow>
     len = expectedLen \<and> magic = expectedMagic \<and> kind = expectedKind \<and> version = expectedVersion"

definition host_order :: "u32 \<Rightarrow> u32" where
  "host_order ip = drop_bit 24 ip OR (drop_bit 8 ip AND 0xff00) OR (push_bit 8 ip AND 0xff0000) OR push_bit 24 ip"

definition source_reason :: "punch_source \<Rightarrow> punch_source \<Rightarrow> punch_source \<Rightarrow> punch_reason" where
  "source_reason source directory self =
    (let host = host_order (fst source) in
     if fst source = 0 \<or> snd source = 0 then PunchSource
     else if host AND 0xf0000000 = 0xe0000000 then PunchSource
     else if host AND 0xf0000000 = 0xf0000000 then PunchSource
     else if host = 0xffffffff then PunchSource
     else if fst directory \<noteq> 0 \<and> source = directory then PunchSource
     else if fst self \<noteq> 0 \<and> source = self then PunchSelf
     else PunchOk)"

definition forget_window :: "u64 \<Rightarrow> punch_state \<Rightarrow> punch_state" where
  "forget_window nowMs st = st\<lparr>ps_repliesInWindow := 0, ps_repliesInSecond := 0, ps_secondStartMs := nowMs,
     ps_sources := replicate kPunchReplySources free_entry\<rparr>"

definition note_directory_event :: "u64 \<Rightarrow> punch_state \<Rightarrow> bool \<times> punch_state" where
  "note_directory_event nowMs st =
    (let wasOpen = window_open st nowMs; st = (if wasOpen then st else forget_window nowMs st) in
     (\<not> wasOpen, st\<lparr>ps_windowOpen := True, ps_windowOpenedMs := nowMs\<rparr>))"

definition close_window :: "punch_state \<Rightarrow> punch_state" where
  "close_window st = (forget_window 0 st)\<lparr>ps_windowOpen := False, ps_windowOpenedMs := 0\<rparr>"

definition holds_source :: "punch_source \<Rightarrow> source_entry \<Rightarrow> bool" where
  "holds_source source e \<longleftrightarrow> se_used e \<and> se_source e = source"

definition find_source :: "punch_state \<Rightarrow> punch_source \<Rightarrow> source_entry option" where
  "find_source st source = find (holds_source source) (ps_sources st)"

definition sources_full :: "punch_state \<Rightarrow> bool" where
  "sources_full st \<longleftrightarrow> list_all se_used (ps_sources st)"

definition decide :: "punch_state \<Rightarrow> punch_source \<Rightarrow> punch_source \<Rightarrow> punch_source \<Rightarrow> bool \<Rightarrow> u64 \<Rightarrow> punch_reason" where
  "decide st source directory self packetOk nowMs =
    (if \<not> packetOk then PunchMalformed
     else if source_reason source directory self \<noteq> PunchOk then source_reason source directory self
     else if \<not> window_open st nowMs then PunchClosed
     else if kPunchReplyPerWindow \<le> ps_repliesInWindow st then PunchBudget
     else if ps_secondStartMs st \<le> nowMs \<and> nowMs - ps_secondStartMs st < 1000 \<and> kPunchReplyPerSec \<le> ps_repliesInSecond st then PunchBudget
     else case find_source st source of
       Some e \<Rightarrow> if kPunchReplyPerSource \<le> se_replies e then PunchBudget else PunchOk
     | None \<Rightarrow> if sources_full st then PunchBudget else PunchOk)"

text \<open>The first entry a test picks, changed.\<close>

fun change_first :: "('a \<Rightarrow> bool) \<Rightarrow> ('a \<Rightarrow> 'a) \<Rightarrow> 'a list \<Rightarrow> 'a list" where
  "change_first P f [] = []"
| "change_first P f (x # xs) = (if P x then f x # xs else x # change_first P f xs)"

definition note_reply :: "punch_source \<Rightarrow> u64 \<Rightarrow> punch_state \<Rightarrow> punch_state" where
  "note_reply source nowMs st =
    (let st = st\<lparr>ps_replied := ps_replied st + 1, ps_repliesInWindow := ps_repliesInWindow st + 1\<rparr>;
         st = (if nowMs < ps_secondStartMs st \<or> 1000 \<le> nowMs - ps_secondStartMs st
               then st\<lparr>ps_secondStartMs := nowMs, ps_repliesInSecond := 0\<rparr> else st);
         st = st\<lparr>ps_repliesInSecond := ps_repliesInSecond st + 1\<rparr> in
     st\<lparr>ps_sources :=
       (if \<exists>e \<in> set (ps_sources st). holds_source source e
        then change_first (holds_source source) (\<lambda>e. e\<lparr>se_replies := se_replies e + 1, se_lastMs := nowMs\<rparr>) (ps_sources st)
        else change_first (\<lambda>e. \<not> se_used e) (\<lambda>e. \<lparr>se_source = source, se_replies = 1, se_lastMs = nowMs, se_used = True\<rparr>) (ps_sources st))\<rparr>)"

definition note_refusal :: "punch_state \<Rightarrow> punch_state" where
  "note_refusal st = st\<lparr>ps_refused := ps_refused st + 1\<rparr>"

definition note_sources_full :: "punch_state \<Rightarrow> punch_state" where
  "note_sources_full st = st\<lparr>ps_refusedSourcesFull := ps_refusedSourcesFull st + 1\<rparr>"

section \<open>A punch at the host\<close>

record punch_agent =
  pa_state :: punch_state
  pa_refreshSeen :: bool
  pa_refreshLastMs :: u64

definition new_punch_agent :: punch_agent where
  "new_punch_agent = \<lparr>pa_state = new_punch_state, pa_refreshSeen = False, pa_refreshLastMs = 0\<rparr>"

text \<open>What a punch comes to, with whether the directory is asked for a capability.\<close>

definition from_directory :: "punch_source \<Rightarrow> punch_source \<Rightarrow> bool" where
  "from_directory source directory \<longleftrightarrow> fst directory \<noteq> 0 \<and> source = directory"

definition refresh_cooled :: "u64 \<Rightarrow> punch_agent \<Rightarrow> bool" where
  "refresh_cooled nowMs a \<longleftrightarrow> \<not> pa_refreshSeen a \<or> nowMs < pa_refreshLastMs a \<or> kPunchRefreshCooldownMs \<le> nowMs - pa_refreshLastMs a"

definition on_punch :: "punch_source \<Rightarrow> punch_source \<Rightarrow> punch_source \<Rightarrow> bool \<Rightarrow> u64 \<Rightarrow> punch_agent \<Rightarrow> (punch_reason \<times> bool) \<times> punch_agent" where
  "on_punch source directory self packetOk nowMs a =
    (let st = pa_state a;
         st = (if from_directory source directory \<and> packetOk then snd (note_directory_event nowMs st) else st);
         reason = decide st source directory self packetOk nowMs;
         st' = (if reason = PunchOk then note_reply source nowMs st
                else let st' = note_refusal st in
                  if reason = PunchBudget \<and> window_open st' nowMs \<and> sources_full st' \<and> find_source st' source = None then note_sources_full st' else st');
         asks = packetOk \<and> \<not> from_directory source directory \<and> source_reason source directory self = PunchOk \<and> refresh_cooled nowMs a in
     ((reason, packetOk \<and> from_directory source directory \<or> asks),
      a\<lparr>pa_state := st', pa_refreshSeen := (if asks then True else pa_refreshSeen a),
        pa_refreshLastMs := (if asks then nowMs else pa_refreshLastMs a)\<rparr>))"

text \<open>A heartbeat that collected a capability is the other event of the directory.\<close>

definition on_capability :: "u64 \<Rightarrow> punch_agent \<Rightarrow> punch_agent" where
  "on_capability nowMs a = a\<lparr>pa_state := snd (note_directory_event nowMs (pa_state a))\<rparr>"

section \<open>Runs\<close>

datatype punch_op = PuPunch punch_source punch_source punch_source bool u64 | PuCapability u64

fun punch_step :: "punch_op \<Rightarrow> punch_agent \<Rightarrow> punch_agent" where
  "punch_step (PuPunch source directory self packetOk nowMs) a = snd (on_punch source directory self packetOk nowMs a)"
| "punch_step (PuCapability nowMs) a = on_capability nowMs a"

text \<open>The time of an event of the directory, and whether one opens a window that was not open.\<close>

fun directory_event :: "punch_op \<Rightarrow> u64 option" where
  "directory_event (PuPunch source directory self packetOk nowMs) = (if from_directory source directory \<and> packetOk then Some nowMs else None)"
| "directory_event (PuCapability nowMs) = Some nowMs"

definition opens_window :: "punch_op \<Rightarrow> punch_agent \<Rightarrow> bool" where
  "opens_window op a \<longleftrightarrow> (case directory_event op of Some nowMs \<Rightarrow> \<not> window_open (pa_state a) nowMs | None \<Rightarrow> False)"

text \<open>The answer of a step: to whom, and when.\<close>

fun answered :: "punch_op \<Rightarrow> punch_agent \<Rightarrow> (punch_source \<times> u64) option" where
  "answered (PuPunch source directory self packetOk nowMs) a =
    (if fst (fst (on_punch source directory self packetOk nowMs a)) = PunchOk then Some (source, nowMs) else None)"
| "answered (PuCapability nowMs) a = None"

text \<open>
  The run, with the last event of the directory and the answers since a window was last opened: to whom, when,
  and the event they were given under.
\<close>

type_synonym punch_ghost = "punch_agent \<times> u64 option \<times> (punch_source \<times> u64 \<times> u64 option) list"

fun punch_advance :: "punch_op \<Rightarrow> punch_ghost \<Rightarrow> punch_ghost" where
  "punch_advance op (a, event, answers) =
    (let event = (case directory_event op of Some nowMs \<Rightarrow> Some nowMs | None \<Rightarrow> event) in
     (punch_step op a, event,
      (if opens_window op a then [] else answers) @ (case answered op a of Some (source, t) \<Rightarrow> [(source, t, event)] | None \<Rightarrow> [])))"

definition punch_run :: "punch_op list \<Rightarrow> punch_ghost" where
  "punch_run ops = fold punch_advance ops (new_punch_agent, None, [])"

section \<open>The fences\<close>

lemma length_change_first [simp]:
  "length (change_first P f xs) = length xs"
  by (induction xs) auto

lemma find_change:
  assumes "\<And>e. holds_source s e \<Longrightarrow> holds_source s (f e)"
  shows "find (holds_source s') (change_first (holds_source s) f xs) =
        (if s' = s then map_option f (find (holds_source s) xs) else find (holds_source s') xs)"
  using assms by (induction xs) (auto simp: holds_source_def)

lemma find_take_slot:
  assumes "\<not> list_all se_used xs" "find (holds_source s) xs = None" "se_used n" "se_source n = s"
  shows "find (holds_source s') (change_first (\<lambda>e. \<not> se_used e) (\<lambda>e. n) xs) =
       (if s' = s then Some n else find (holds_source s') xs)"
  using assms by (induction xs) (auto simp: holds_source_def split: if_splits)

text \<open>The state counts the answers.\<close>

definition replies_to :: "punch_state \<Rightarrow> punch_source \<Rightarrow> nat" where
  "replies_to st source = (case find_source st source of Some e \<Rightarrow> unat (se_replies e) | None \<Rightarrow> 0)"

definition punch_inv :: "punch_ghost \<Rightarrow> bool" where
  "punch_inv g \<longleftrightarrow> (case g of (a, event, answers) \<Rightarrow> let st = pa_state a in
     (ps_windowOpen st \<longrightarrow> event = Some (ps_windowOpenedMs st)) \<and>
     unat (ps_repliesInWindow st) = length answers \<and> length answers \<le> 200 \<and> length (ps_sources st) = 64 \<and>
     (\<forall>source. count_list (map fst answers) source = replies_to st source \<and> replies_to st source \<le> 25) \<and>
     list_all (\<lambda>(source, t, event). \<exists>e. event = Some e \<and> e \<le> t \<and> t - e < 10000) answers)"

lemma decide_allows:
  assumes "decide st source directory self packetOk nowMs = PunchOk"
  shows "window_open st nowMs" "unat (ps_repliesInWindow st) < 200"
    "case find_source st source of Some e \<Rightarrow> unat (se_replies e) < 25 | None \<Rightarrow> \<not> sources_full st"
  using assms by (auto simp: decide_def kPunchReplyPerWindow_def kPunchReplyPerSource_def word_less_nat_alt not_le split: if_splits option.splits)

lemma note_reply_window [simp]: "ps_windowOpen (note_reply source nowMs st) = ps_windowOpen st"
  "ps_windowOpenedMs (note_reply source nowMs st) = ps_windowOpenedMs st"
  "ps_repliesInWindow (note_reply source nowMs st) = ps_repliesInWindow st + 1"
  "length (ps_sources (note_reply source nowMs st)) = length (ps_sources st)"
  by (simp_all add: note_reply_def Let_def)

lemma note_reply_sources: "ps_sources (note_reply source nowMs st) =
    (if find_source st source = None
     then change_first (\<lambda>e. \<not> se_used e) (\<lambda>e. \<lparr>se_source = source, se_replies = 1, se_lastMs = nowMs, se_used = True\<rparr>) (ps_sources st)
     else change_first (holds_source source) (\<lambda>e. e\<lparr>se_replies := se_replies e + 1, se_lastMs := nowMs\<rparr>) (ps_sources st))"
  by (auto simp: note_reply_def Let_def find_source_def find_None_iff)

lemma unat_add_one: "unat (w :: u32) < n \<Longrightarrow> n < 2 ^ 32 \<Longrightarrow> unat (w + 1) = unat w + 1"
  by (simp add: unat_word_ariths)

lemma note_reply_counts:
  assumes "case find_source st source of Some e \<Rightarrow> unat (se_replies e) < 25 | None \<Rightarrow> \<not> sources_full st"
  shows "replies_to (note_reply source nowMs st) s' = (if s' = source then replies_to st s' + 1 else replies_to st s')"
    "replies_to (note_reply source nowMs st) source \<le> 25"
proof -
  have new: "find_source (note_reply source nowMs st) s' =
      (if s' = source then Some (case find_source st source of Some e \<Rightarrow> e\<lparr>se_replies := se_replies e + 1, se_lastMs := nowMs\<rparr>
         | None \<Rightarrow> \<lparr>se_source = source, se_replies = 1, se_lastMs = nowMs, se_used = True\<rparr>) else find_source st s')" for s'
  proof (cases "find_source st source")
    case None
    then show ?thesis using assms
      by (simp add: find_source_def note_reply_sources sources_full_def find_take_slot)
  next
    case (Some e)
    have "holds_source source (d\<lparr>se_replies := se_replies d + 1, se_lastMs := nowMs\<rparr>)" if "holds_source source d" for d
      using that by (simp add: holds_source_def)
    then show ?thesis using Some find_change [of source "\<lambda>e. e\<lparr>se_replies := se_replies e + 1, se_lastMs := nowMs\<rparr>"]
      by (simp add: find_source_def note_reply_sources)
  qed
  show c: "replies_to (note_reply source nowMs st) s' = (if s' = source then replies_to st s' + 1 else replies_to st s')" for s'
    using assms unat_add_one [of _ 25] by (auto simp: replies_to_def new split: option.splits)
  show "replies_to (note_reply source nowMs st) source \<le> 25"
  proof -
    have "replies_to st source < 25" using assms by (auto simp: replies_to_def sources_full_def split: option.splits)
    then show ?thesis using c [of source] by simp
  qed
qed

lemma other_notes [simp]: "replies_to (note_refusal st) = replies_to st" "replies_to (note_sources_full st) = replies_to st"
  "ps_windowOpen (note_refusal st) = ps_windowOpen st" "ps_windowOpenedMs (note_refusal st) = ps_windowOpenedMs st"
  "ps_repliesInWindow (note_refusal st) = ps_repliesInWindow st" "ps_sources (note_refusal st) = ps_sources st"
  "ps_windowOpen (note_sources_full st) = ps_windowOpen st" "ps_windowOpenedMs (note_sources_full st) = ps_windowOpenedMs st"
  "ps_repliesInWindow (note_sources_full st) = ps_repliesInWindow st" "ps_sources (note_sources_full st) = ps_sources st"
  by (simp_all add: note_refusal_def note_sources_full_def fun_eq_iff replies_to_def find_source_def)

lemma replies_forgotten: "replies_to (forget_window nowMs st) source = 0"
proof -
  have "find (holds_source source) (replicate n free_entry) = None" for n by (induction n) (simp_all add: holds_source_def free_entry_def)
  then show ?thesis by (simp add: replies_to_def find_source_def forget_window_def)
qed

lemma event_inv:
  assumes "punch_inv (a, event, answers)" and "st = snd (note_directory_event nowMs (pa_state a))"
  shows "punch_inv (a\<lparr>pa_state := st\<rparr>, Some nowMs, if window_open (pa_state a) nowMs then answers else [])"
proof (cases "window_open (pa_state a) nowMs")
  case True
  have "replies_to (st\<lparr>ps_windowOpen := w, ps_windowOpenedMs := t\<rparr>) = replies_to st" for st w t
    by (simp add: fun_eq_iff replies_to_def find_source_def)
  then show ?thesis using assms True by (simp add: punch_inv_def note_directory_event_def Let_def)
next
  case False
  have "replies_to ((forget_window nowMs st)\<lparr>ps_windowOpen := w, ps_windowOpenedMs := t\<rparr>) source = 0" for st w t source
    using replies_forgotten [of nowMs st source] by (simp add: replies_to_def find_source_def)
  then show ?thesis using assms False
    by (simp add: punch_inv_def note_directory_event_def Let_def) (simp add: forget_window_def kPunchReplySources_def)
qed

lemma answer_inv:
  assumes inv: "punch_inv (a, event, answers)" and ok: "decide (pa_state a) source directory self packetOk nowMs = PunchOk"
  shows "punch_inv (a\<lparr>pa_state := note_reply source nowMs (pa_state a)\<rparr>, event, answers @ [(source, nowMs, event)])"
proof -
  note d = decide_allows [OF ok]
  have w: "ps_windowOpen (pa_state a)" "ps_windowOpenedMs (pa_state a) \<le> nowMs" "nowMs - ps_windowOpenedMs (pa_state a) < 10000"
    using d(1) by (auto simp: window_open_def kPunchReplyWindowMs_def)
  have "unat (ps_repliesInWindow (pa_state a) + 1) = unat (ps_repliesInWindow (pa_state a)) + 1"
    by (rule unat_add_one [OF d(2)]) simp
  then show ?thesis using inv d(2) w note_reply_counts [OF d(3), of nowMs]
    by (auto simp: punch_inv_def Let_def)
qed

lemma refusal_inv: "punch_inv (a, event, answers) \<Longrightarrow> ps_sources st = ps_sources (pa_state a) \<Longrightarrow> ps_windowOpen st = ps_windowOpen (pa_state a) \<Longrightarrow>
    ps_windowOpenedMs st = ps_windowOpenedMs (pa_state a) \<Longrightarrow> ps_repliesInWindow st = ps_repliesInWindow (pa_state a) \<Longrightarrow>
    punch_inv (a\<lparr>pa_state := st\<rparr>, event, answers)"
  by (simp add: punch_inv_def Let_def replies_to_def find_source_def)

lemma refresh_inv: "punch_inv (a\<lparr>pa_state := st\<rparr>, event, answers) \<Longrightarrow>
    punch_inv (a\<lparr>pa_state := st, pa_refreshSeen := seen, pa_refreshLastMs := t\<rparr>, event, answers)"
  by (simp add: punch_inv_def)

lemma punch_advance_inv: "punch_inv g \<Longrightarrow> punch_inv (punch_advance op g)"
proof -
  assume inv: "punch_inv g"
  obtain a event answers where g: "g = (a, event, answers)" by (cases g)
  show ?thesis
  proof (cases op)
    case (PuCapability nowMs)
    then show ?thesis using event_inv [of a event answers _ nowMs] inv
      by (auto simp: g on_capability_def opens_window_def Let_def split: if_splits)
  next
    case (PuPunch source directory self packetOk nowMs)
    define woken where "woken = (from_directory source directory \<and> packetOk)"
    define st where "st = (if woken then snd (note_directory_event nowMs (pa_state a)) else pa_state a)"
    define event' where "event' = (if woken then Some nowMs else event)"
    define answers' where "answers' = (if woken \<and> \<not> window_open (pa_state a) nowMs then [] else answers)"
    have inv': "punch_inv (a\<lparr>pa_state := st\<rparr>, event', answers')"
      using event_inv [OF inv [unfolded g] refl, of nowMs] inv by (auto simp: g st_def event'_def answers'_def)
    define reason where "reason = decide st source directory self packetOk nowMs"
    define after where "after = (if reason = PunchOk then note_reply source nowMs st
        else if reason = PunchBudget \<and> window_open (note_refusal st) nowMs \<and> sources_full (note_refusal st) \<and> find_source (note_refusal st) source = None
          then note_sources_full (note_refusal st) else note_refusal st)"
    have "punch_inv (a\<lparr>pa_state := after\<rparr>, event', answers' @ (if reason = PunchOk then [(source, nowMs, event')] else []))"
      using answer_inv [OF inv', of source directory self packetOk nowMs] refusal_inv [OF inv'] by (simp add: reason_def after_def)
    from refresh_inv [OF this] have "punch_inv (a\<lparr>pa_state := after, pa_refreshSeen := seen, pa_refreshLastMs := t\<rparr>, event',
        answers' @ (if reason = PunchOk then [(source, nowMs, event')] else []))" for seen t .
    moreover obtain asks seen t where "on_punch source directory self packetOk nowMs a =
        ((reason, asks), a\<lparr>pa_state := after, pa_refreshSeen := seen, pa_refreshLastMs := t\<rparr>)"
      unfolding on_punch_def Let_def woken_def [symmetric] st_def [symmetric] reason_def [symmetric] after_def [symmetric] by blast
    moreover have "opens_window op a \<longleftrightarrow> woken \<and> \<not> window_open (pa_state a) nowMs"
      by (auto simp add: PuPunch opens_window_def woken_def)
    moreover have "(case directory_event op of Some nowMs \<Rightarrow> Some nowMs | None \<Rightarrow> event) = event'"
      by (simp add: PuPunch event'_def woken_def)
    ultimately show ?thesis by (auto simp add: g PuPunch answers'_def split: if_splits)
  qed
qed

lemma punch_run_inv: "punch_inv (punch_run ops)"
proof -
  have "punch_inv (fold punch_advance ops g)" if "punch_inv g" for g
    using that by (induction ops arbitrary: g) (simp_all add: punch_advance_inv)
  moreover have "punch_inv (new_punch_agent, None, [])"
    using replies_forgotten [of 0 new_punch_state]
    by (simp add: punch_inv_def new_punch_agent_def Let_def new_punch_state_def forget_window_def kPunchReplySources_def)
  ultimately show ?thesis by (simp add: punch_run_def)
qed

text \<open>
  C40. Whoever punches, however often, the host stays within its fences: between two openings of the window it
  gives at most 200 answers, at most 25 to any one address, to at most 64 addresses, and every answer is given
  less than ten seconds after an event of the directory; a punch from anywhere else never opens or extends
  the window.
\<close>

theorem punch_answers_fenced:
  "case punch_run ops of (a, event, answers) \<Rightarrow>
     length answers \<le> 200 \<and> (\<forall>source. count_list (map fst answers) source \<le> 25) \<and> card (set (map fst answers)) \<le> 64 \<and>
     list_all (\<lambda>(source, t, event). \<exists>e. event = Some e \<and> e \<le> t \<and> t - e < 10000) answers"
proof -
  obtain a event answers where g: "punch_run ops = (a, event, answers)" by (cases "punch_run ops")
  have inv: "punch_inv (a, event, answers)" using punch_run_inv [of ops] by (simp add: g)
  have "set (map fst answers) \<subseteq> se_source ` set (ps_sources (pa_state a))"
  proof
    fix source assume "source \<in> set (map fst answers)"
    then have "count_list (map fst answers) source \<noteq> 0" by (simp add: count_list_0_iff)
    moreover have "count_list (map fst answers) source = replies_to (pa_state a) source"
      using inv by (cases source) (simp add: punch_inv_def Let_def)
    ultimately have "replies_to (pa_state a) source \<noteq> 0" by simp
    then obtain e where "find_source (pa_state a) source = Some e" by (auto simp: replies_to_def split: option.splits)
    then have "e \<in> set (ps_sources (pa_state a))" "se_source e = source"
      by (auto simp: find_source_def find_Some_iff holds_source_def)
    then show "source \<in> se_source ` set (ps_sources (pa_state a))" by blast
  qed
  then have "card (set (map fst answers)) \<le> card (se_source ` set (ps_sources (pa_state a)))" by (intro card_mono) simp_all
  also have "\<dots> \<le> card (set (ps_sources (pa_state a)))" by (rule card_image_le) simp
  also have "\<dots> \<le> length (ps_sources (pa_state a))" by (rule card_length)
  also have "\<dots> = 64" using inv by (simp add: punch_inv_def Let_def)
  finally show ?thesis using inv by (auto simp: g punch_inv_def Let_def)
qed

end
