(* ===== verification/Spec2Isabelle.thy ===== *)
theory Spec2Isabelle
  imports AssemblerExamples Scheduler NackScheduler WireLimiter HostResume ClipImageTransfer FilePasteSeek UpdateFlow
    BurstLedger HostRate BulkRate BulkPacer EpochGate BoundedUtf8 PunchReply
begin

text \<open>
  The logic of a remote viewer: the C++ client and host under \<open>src/apps/native_poc/src\<close>. A host captures
  and encodes its screen and sends it as UDP datagrams; a viewer assembles and shows them and sends back
  input, requests and questions over a reliable control channel on the same socket; clipboard images and
  files travel over bulk channels beside it. The theories model the parts of both programs that decide
  something: what is accepted, in which order it is handed out, when a thing is asked for again, what is
  given up and what never may be.

  Conventions. A C++ integer is a word of its width and wraps; \<open>size_t\<close> counts and indices are naturals.
  A structure or class is a record, an enumeration a datatype with the code's constructors. A method is a
  function from the object before to the answer and the object after; the bytes it hands to a callback are
  part of the answer. What the code reads from outside - a clock, a random id, the outcome of an
  allocation, SHA-256, the source of a file, the network - is an argument of the function or a step of a
  run. A mutex makes an operation one step. Vectors and deques are lists, iterators are indices.

  The video path. \<open>Wire\<close> holds the packed structures of \<open>poc_protocol.hpp\<close>, \<open>VideoSender\<close> the chunks, the
  XOR parity and the replays of \<open>host_net_io.cpp\<close>, \<open>Assembler\<close> the viewer's \<open>UdpH264FrameAssembler\<close>
  (\<open>native_video_client_shared_core.cpp\<close>), \<open>NackScheduler\<close> the repair requests of \<open>udp_video_nack.hpp\<close>.
  \<open>AssemblerInv\<close> proves the invariant of the assembler (distinct held frames newer than the last one
  delivered, buffers of the announced size, counts that count, bounds on what is held) and
  \<open>AssemblerSteps\<close> what follows for runs: deliveries in order, tombstones that stand, \<open>PopDelivery\<close> that
  returns. \<open>VideoPath\<close> composes sender and assembler: what is delivered is byte for byte what was sent,
  and one loss per parity group is repaired. \<open>AssemblerExamples\<close> shows where \<open>PopDelivery\<close> loops for ever.
  The loop of \<open>PopDelivery\<close> runs on fuel, one unit per held frame and one more: a round that goes on removes a
  frame or answers, and the termination theorem says when that is so.

  The viewer's queues. \<open>InputQueue\<close>, \<open>RequestSlots\<close>, \<open>KeyframeRequests\<close>, \<open>RuntimeTune\<close> and \<open>WindowPanel\<close>
  are the classes between the user interface and the control thread in
  \<open>native_video_client_shared_core.cpp\<close>; \<open>Scheduler\<close> is the control thread's \<open>NextAction\<close> over all of them.
  The locale \<open>request_slot\<close> is the contract of a slot, refined to a one-place mailbox; the theorems say
  that releases of keys survive backpressure, that values stay in range, that nothing starves.

  The control channel. \<open>ControlChannel\<close> is \<open>UdpControlChannel\<close> (\<open>udp_control_channel.cpp\<close>), \<open>ControlNetwork\<close>
  two of them over a network that loses, repeats and reorders: both ends hand out a prefix of what the
  other accepted. \<open>ControlResume\<close> (\<open>control_resume.hpp\<close>) holds the decisions of a resume, \<open>ViewerResume\<close>
  the viewer's side (\<open>viewer_control_resume.hpp\<close>), \<open>HostResume\<close> the host's reader, dispatcher and session
  counters (\<open>host_startup_control.cpp\<close>, \<open>host_session.hpp\<close>): evidence before a served session is given up,
  one re-key per id, budgets on answers, and a whole resume from the ask to both ends on the new streams.

  Rates. \<open>TokenBucket\<close> is the interface of every limit: its laws give an envelope on what is granted over
  any run. \<open>WireLimiter\<close> (\<open>host_wire_limiter.hpp\<close>) and the answer budgets of \<open>ControlResume\<close> are its
  interpretations; the keyframe requests, in floating point, have a bound of their own. The wait of \<open>Acquire\<close> runs on fuel;
  one wake-up is enough when the datagram fits the bucket. \<open>BurstLedger\<close> (\<open>host_burst_ledger.hpp\<close>) is the rolling
  window of two seconds and the bursts granted inside it: what leaves in any two seconds is bounded whatever
  the rate does. \<open>HostRate\<close> is the host's decision of every second: the governor of
  \<open>host_rate_governor.hpp\<close>, which takes a stream over its target down a ladder of quantiser and frame rate,
  and the profiles and levels of \<open>host_abr.hpp\<close>, which go down only on evidence.

  The bulk channel. \<open>BulkRate\<close> (\<open>bulk_rate_controller.hpp\<close>, \<open>bulk_arbiter.hpp\<close>) is the rate of clipboard
  and file transfers: the filter of round trips, the counter of losses, a controller that answers one
  congestion once and then grows linearly, and who holds the channel. \<open>BulkPacer\<close> (\<open>bulk_pacer.cpp\<close>) is the
  queue in front of the socket. A turn of its thread is two steps, because the code takes its lock twice;
  the theorems say what holds when nothing comes between them and what goes wrong when something does.

  At the edges. \<open>EpochGate\<close> (\<open>host_epoch_gate.hpp\<close>, the queue of \<open>mf_h264_codec.hpp\<close>) decides which pictures of an
  asynchronous encoder may leave after a flush: only those of the current epoch, a key frame first; the
  encoder is an adversary that answers in order at any time. \<open>BoundedUtf8\<close> (\<open>utf8_bounded.hpp\<close>) cuts text to fields and
  lengths without cutting a character and takes it to UTF-16 and back. \<open>PunchReply\<close> (\<open>punch_reply.hpp\<close>) bounds
  what the host answers to punches of strangers.

  Clipboard and files. \<open>ClipImageCore\<close> and \<open>ClipImageTransfer\<close> (\<open>clip_image_core.hpp\<close>,
  \<open>clip_image_transfer.hpp\<close>): the check of a foreign bitmap and the transfer of an image package.
  \<open>FileBytes\<close>, \<open>FilePipe\<close> and \<open>FileWire\<close> (\<open>file_copy_pipe.hpp\<close>, \<open>file_copy_wire.hpp\<close>) are the byte codec and
  all messages of the file copy; the locale \<open>codec\<close> says that a reader accepts exactly what its writer
  writes, and every reader and writer of the code is an interpretation. \<open>FilePaste\<close>
  (\<open>file_copy_paste_parts.cpp\<close>, \<open>file_copy_net_rules\<close>) are the two ends of a paste, \<open>FilePasteRun\<close> proves
  that a consumer is handed exactly the bytes of the file, \<open>FilePasteSeek\<close> that a seek can leave a paste
  waiting for a range nobody asks for.

  The updater. \<open>UpdateNames\<close>, \<open>UpdateVersion\<close> and \<open>UpdateManifest\<close> (\<open>payload_name.cpp\<close>,
  \<open>version_compare.hpp\<close>, \<open>update_manifest.cpp\<close>) are the checks of a signed manifest: names that stay inside
  their directory, the comparison of versions, every rule on a field. \<open>UpdateFlow\<close> is \<open>run_update\<close>
  (\<open>update_state_machine.cpp\<close>): the effects are an argument that may answer anything and may depend on all that
  was called before; the theorems are about the order of the calls and the truth of the result.

  Automation. \<open>Prelude\<close> declares the collections \<open>wire_simps\<close> (evaluating packed structures) and \<open>slices\<close>
  (pieces of byte lists); \<open>FileBytes\<close> the collection \<open>codecs\<close> with the exactness of every codec, from which
  those of the messages follow. Runs on concrete inputs are evaluated by the simplifier.

  Not modelled. Windows capture, encoders, decoders, Direct3D and the user interface; sockets, threads,
  services and pipes of the operating system; the helper process and the COM data objects of a paste;
  the directory server (JavaScript) and its HTTP client, but for the punches; the secure input and pre-login services; the
  effects of the updater (downloads, registry, services, ECDSA); the Android client (Kotlin); tests and
  tools. Their state is outside the program's own memory, or they are glue around the parts above. The
  bandwidth estimate of the viewer, the token bucket of the pacer and the sizes of the resolution ladder
  compute in floating point; only the one \<open>double\<close> of the keyframe bucket is modelled, with
  its rounding written out. Log lines and counters that only a log reads are left out.
\<close>

end
